(* ===== verification/Prelude_C.thy ===== *)
theory Prelude_C
  imports Main "HOL-Library.Word" "HOL-Library.Monad_Syntax" "HOL-Library.Multiset"
    "HOL-Library.Signed_Division"
begin

text \<open>
  What the components share: C's machine integers, the way faults and error returns are
  written, callbacks with a client state, allocation, and the contracts (as locales) that
  one component relies on another for.

  Conventions of the whole development.
  \<^item> An operation that can fault (a failed \<^verbatim>\<open>assert\<close>, the \<^verbatim>\<open>FAIL\<close> macro, a read or write
    through a null, dangling or out-of-range pointer, a division by zero) returns an
    \<^typ>\<open>'a option\<close>: \<^const>\<open>None\<close> is the fault, and the calls are sequenced by the option
    monad, so the first fault ends the computation.
  \<^item> Return codes are values of \<open>rc\<close>. The diagnostic codes of the library are generated
    from \<^verbatim>\<open>diag.txt\<close> when it is built, so a code stays symbolic: the diagnostic's name and
    the offset the source adds to it.
  \<^item> A \<open>size_t\<close> and the counters are \<^typ>\<open>nat\<close>; wrap-around is written out by \<open>SZ\<close> (64 bit)
    and \<open>U32\<close> (32 bit \<^verbatim>\<open>unsigned\<close>) where the source can wrap. Hash values and bytes are words.
\<close>

subsection \<open>Machine integers\<close>

type_synonym u8 = "8 word"
type_synonym u64 = "64 word"

definition SZ :: "nat \<Rightarrow> nat" where
  "SZ n = n mod 2 ^ 64"

definition U32 :: "nat \<Rightarrow> nat" where
  "U32 n = n mod 2 ^ 32"

definition S32 :: "int \<Rightarrow> int" where
  "S32 n = (n + 2 ^ 31) mod 2 ^ 32 - 2 ^ 31"

lemma S32_small [simp]: "- (2 ^ 31) \<le> n \<Longrightarrow> n < 2 ^ 31 \<Longrightarrow> S32 n = n"
  by (simp add: S32_def)

lemma SZ_small [simp]: "n < 2 ^ 64 \<Longrightarrow> SZ n = n"
  by (simp add: SZ_def)

lemma U32_small [simp]: "n < 2 ^ 32 \<Longrightarrow> U32 n = n"
  by (simp add: U32_def)

lemma U32_le: "U32 n < 2 ^ 32"
  by (simp add: U32_def)

lemma SZ_le: "SZ n < 2 ^ 64"
  by (simp add: SZ_def)

subsection \<open>Return codes\<close>

datatype rc = Rc int | Diag string nat

abbreviation rc_ok :: rc where
  "rc_ok \<equiv> Rc 0"

subsection \<open>Faults: helpers for the option monad\<close>

definition guard :: "bool \<Rightarrow> unit option" where
  "guard b = (if b then Some () else None)"

lemma guard_simps [simp]:
  "guard True = Some ()" "guard False = None"
  "guard b = None \<longleftrightarrow> \<not> b" "guard b = Some u \<longleftrightarrow> b"
  by (simp_all add: guard_def)

definition peek :: "'a list \<Rightarrow> nat \<Rightarrow> 'a option" where
  "peek xs i = (if i < length xs then Some (xs ! i) else None)"

definition poke :: "'a list \<Rightarrow> nat \<Rightarrow> 'a \<Rightarrow> 'a list option" where
  "poke xs i v = (if i < length xs then Some (xs[i := v]) else None)"

lemma peek_in [simp]: "i < length xs \<Longrightarrow> peek xs i = Some (xs ! i)"
  by (simp add: peek_def)

lemma poke_in [simp]: "i < length xs \<Longrightarrow> poke xs i v = Some (xs[i := v])"
  by (simp add: poke_def)

lemma peek_eq_Some: "peek xs i = Some x \<longleftrightarrow> i < length xs \<and> xs ! i = x"
  by (auto simp: peek_def)

lemma poke_eq_Some: "poke xs i v = Some ys \<longleftrightarrow> i < length xs \<and> ys = xs[i := v]"
  by (auto simp: poke_def)

lemma bind_eq_SomeI: "m = Some x \<Longrightarrow> f x = Some y \<Longrightarrow> Option.bind m f = Some y"
  by simp

subsection \<open>Callbacks\<close>

text \<open>
  An initializer or finalizer is handed a pointer to a slot; it may write the slot and
  change whatever else the client owns. It is a function of the slot's content and the
  client's state \<open>'w\<close> that returns the \<^verbatim>\<open>int\<close> result, the new content and the new state.
\<close>

type_synonym ('e, 'w) cb = "'e \<Rightarrow> 'w \<Rightarrow> int \<times> 'e \<times> 'w"

text \<open>The two shapes of loop over slots: stop at the first non-zero result, or ignore it.\<close>

fun cb_until :: "('e, 'w) cb \<Rightarrow> nat list \<Rightarrow> 'e list \<Rightarrow> 'w \<Rightarrow> (int \<times> 'e list \<times> 'w) option" where
  "cb_until f [] xs w = Some (0, xs, w)"
| "cb_until f (i # is) xs w =
     (if i < length xs then
        (case f (xs ! i) w of (r, e, w') \<Rightarrow>
           if r \<noteq> 0 then Some (r, xs[i := e], w') else cb_until f is (xs[i := e]) w')
      else None)"

fun cb_each :: "('e, 'w) cb \<Rightarrow> nat list \<Rightarrow> 'e list \<Rightarrow> 'w \<Rightarrow> ('e list \<times> 'w) option" where
  "cb_each f [] xs w = Some (xs, w)"
| "cb_each f (i # is) xs w =
     (if i < length xs then
        (case f (xs ! i) w of (r, e, w') \<Rightarrow> cb_each f is (xs[i := e]) w')
      else None)"

text \<open>The callback may be NULL.\<close>

definition cb_each_opt ::
  "('e, 'w) cb option \<Rightarrow> nat list \<Rightarrow> 'e list \<Rightarrow> 'w \<Rightarrow> ('e list \<times> 'w) option" where
  "cb_each_opt f is xs w = (case f of None \<Rightarrow> Some (xs, w) | Some g \<Rightarrow> cb_each g is xs w)"

lemma cb_each_total:
  "\<forall>i \<in> set is. i < length xs \<Longrightarrow> \<exists>ys w'. cb_each f is xs w = Some (ys, w') \<and> length ys = length xs"
  by (induction f "is" xs w rule: cb_each.induct) (auto split: prod.splits)

lemma cb_each_frame:
  "cb_each f is xs w = Some (ys, w') \<Longrightarrow>
     length ys = length xs \<and> (\<forall>j. j \<notin> set is \<longrightarrow> ys ! j = xs ! j)"
  by (induction f "is" xs w rule: cb_each.induct)
     (auto split: prod.splits if_splits)

lemma cb_each_opt_total:
  "\<forall>i \<in> set is. i < length xs \<Longrightarrow>
     \<exists>ys w'. cb_each_opt f is xs w = Some (ys, w') \<and> length ys = length xs"
  by (cases f) (use cb_each_total in \<open>fastforce simp: cb_each_opt_def\<close>)+

lemma cb_each_opt_frame:
  "cb_each_opt f is xs w = Some (ys, w') \<Longrightarrow>
     length ys = length xs \<and> (\<forall>j. j \<notin> set is \<longrightarrow> ys ! j = xs ! j)"
  by (cases f) (auto simp: cb_each_opt_def dest: cb_each_frame)

lemma cb_each_opt_None [simp]: "cb_each_opt None is xs w = Some (xs, w)"
  by (simp add: cb_each_opt_def)

lemma cb_each_opt_Nil [simp]: "cb_each_opt f [] xs w = Some (xs, w)"
  by (simp add: cb_each_opt_def split: option.splits)

lemma cb_until_frame:
  "cb_until f is xs w = Some (r, ys, w') \<Longrightarrow>
     length ys = length xs \<and> (\<forall>j. j \<notin> set is \<longrightarrow> ys ! j = xs ! j)"
  by (induction f "is" xs w rule: cb_until.induct) (auto split: prod.splits if_splits)

subsection \<open>Allocation\<close>

text \<open>
  The allocator is the C library's (or a memory pool's): a request for a number of slots
  returns NULL or a block of that many slots whose content is whatever was there.
\<close>

type_synonym 'e alloc = "nat \<Rightarrow> 'e list option"

definition std_alloc :: "(nat \<Rightarrow> 'e) \<Rightarrow> 'e alloc" where
  "std_alloc junk n = Some (map junk [0..<n])"

definition no_alloc :: "'e alloc" where
  "no_alloc n = None"

definition realloc_blk :: "'e alloc \<Rightarrow> 'e list \<Rightarrow> nat \<Rightarrow> 'e list option" where
  "realloc_blk alloc old n = map_option (\<lambda>blk. take n old @ drop (length old) blk) (alloc n)"

locale allocator =
  fixes alloc :: "'e alloc"
  assumes alloc_len: "alloc n = Some blk \<Longrightarrow> length blk = n"
begin

lemma realloc_len: "realloc_blk alloc old n = Some blk \<Longrightarrow> length blk = n"
  by (auto simp: realloc_blk_def dest!: alloc_len)

lemma realloc_prefix:
  "realloc_blk alloc old n = Some blk \<Longrightarrow> m \<le> length old \<Longrightarrow> m \<le> n \<Longrightarrow> take m blk = take m old"
  by (auto simp: realloc_blk_def)

end

locale total_allocator = allocator +
  assumes alloc_total: "\<exists>blk. alloc n = Some blk"
begin

lemma realloc_total: "\<exists>blk. realloc_blk alloc old n = Some blk"
  using alloc_total [of n] by (auto simp: realloc_blk_def)

end

interpretation std_total: total_allocator "std_alloc junk"
  by unfold_locales (auto simp: std_alloc_def)

interpretation none_alloc: allocator no_alloc
  by unfold_locales (simp add: no_alloc_def)

subsection \<open>Comparators\<close>

text \<open>
  What the heap and the sorted operations rely on of a client's comparator: \<open>cmp a b \<le> 0\<close>
  is a total preorder and the sign is antisymmetric.
\<close>

locale comparator =
  fixes cmp :: "'a \<Rightarrow> 'a \<Rightarrow> int"
  assumes cmp_sym: "cmp a b \<le> 0 \<longleftrightarrow> 0 \<le> cmp b a"
    and cmp_trans: "cmp a b \<le> 0 \<Longrightarrow> cmp b c \<le> 0 \<Longrightarrow> cmp a c \<le> 0"
begin

lemma cmp_refl: "cmp a a \<le> 0"
  using cmp_sym [of a a] by linarith

lemma cmp_pos: "cmp a b > 0 \<Longrightarrow> cmp b a < 0"
  using cmp_sym [of a b] cmp_sym [of b a] by linarith

lemma cmp_total: "cmp a b \<le> 0 \<or> cmp b a \<le> 0"
  using cmp_pos [of a b] by linarith

lemma cmp_zero_sym: "cmp a b = 0 \<longleftrightarrow> cmp b a = 0"
  using cmp_sym [of a b] cmp_sym [of b a] by linarith

end

text \<open>\<^verbatim>\<open>_MNCMP\<close> and \<^verbatim>\<open>_MNCMPR\<close> of \<^verbatim>\<open>util.h\<close>, on the integer types of \<^verbatim>\<open>MNCMP\<close>.\<close>

definition mncmp :: "'a::linorder \<Rightarrow> 'a \<Rightarrow> int" where
  "mncmp a b = of_bool (a > b) - of_bool (a < b)"

definition mncmpr :: "'a::linorder \<Rightarrow> 'a \<Rightarrow> int" where
  "mncmpr a b = (if a > b then -1 else if a < b then 1 else 0)"

text \<open>
  \<^verbatim>\<open>mncmpr_vptr\<close>, the pointer instance of the reversed comparison, is generated by the
  macro of the plain one.
\<close>

definition mncmpr_vptr :: "nat \<Rightarrow> nat \<Rightarrow> int" where
  "mncmpr_vptr a b = of_bool (a > b) - of_bool (a < b)"

interpretation mncmp: comparator mncmp
  by unfold_locales (auto simp: mncmp_def of_bool_def split: if_splits)

interpretation mncmpr: comparator mncmpr
  by unfold_locales (auto simp: mncmpr_def split: if_splits)

definition MNMAX :: "'a::linorder \<Rightarrow> 'a \<Rightarrow> 'a" where
  "MNMAX a b = (if a > b then a else b)"

definition MNMIN :: "'a::linorder \<Rightarrow> 'a \<Rightarrow> 'a" where
  "MNMIN a b = (if a < b then a else b)"

lemma MNMIN_eq_min: "MNMIN = (min :: 'a::linorder \<Rightarrow> 'a \<Rightarrow> 'a)"
  by (auto simp: MNMIN_def min_def fun_eq_iff)

lemma MNMAX_eq_max: "MNMAX = (max :: 'a::linorder \<Rightarrow> 'a \<Rightarrow> 'a)"
  by (auto simp: MNMAX_def max_def fun_eq_iff)

end
