(* ===== verification/Mn_Array.thy ===== *)
theory Mn_Array
  imports Prelude_C
begin

text \<open>
  \<^verbatim>\<open>src/src/array.c\<close>: the resizable array. A block of memory is the list of its whole
  slots (\<^verbatim>\<open>datasz / elsz\<close> of them), a pointer into it is a slot index, \<^verbatim>\<open>NULL\<close> is \<^const>\<open>None\<close>.
  The \<^verbatim>\<open>_mpool\<close> functions run the same bodies with the pool as allocator, which is how they
  are defined here. Loops that count with an \<^verbatim>\<open>unsigned\<close> run over index lists, which is what
  they do while \<open>elnum\<close> is below \<open>2 ^ 32\<close> (part of the invariant \<open>array_wf\<close>).
\<close>

subsection \<open>State\<close>

record ('e, 'w) mnarray =
  elsz :: nat
  elnum :: nat
  data :: "'e list option"
  datasz :: nat
  init :: "('e, 'w) cb option"
  fini :: "('e, 'w) cb option"

record mnarray_iter =
  iter :: nat

definition MNARRAY_SMALL_DATASZ :: nat where
  "MNARRAY_SMALL_DATASZ = 0x100000"

abbreviation slots :: "('e, 'w, 'z) mnarray_scheme \<Rightarrow> 'e list" where
  "slots ar \<equiv> (case data ar of None \<Rightarrow> [] | Some xs \<Rightarrow> xs)"

definition array_items :: "('e, 'w, 'z) mnarray_scheme \<Rightarrow> 'e list" where
  "array_items ar = take (elnum ar) (slots ar)"

subsection \<open>Sizes\<close>

text \<open>\<^verbatim>\<open>while (m < v) m <<= 1\<close>; both callers start it with a positive \<open>m\<close>.\<close>

function pow2_up :: "nat \<Rightarrow> nat \<Rightarrow> nat" where
  "pow2_up m v = (if 0 < m \<and> m < v then pow2_up (2 * m) v else m)"
  by pat_completeness auto
termination
  by (relation "measure (\<lambda>(m, v). v - m)") auto

declare pow2_up.simps [simp del]

definition fit_datasz :: "nat \<Rightarrow> nat" where
  "fit_datasz dsz =
     (if dsz \<ge> MNARRAY_SMALL_DATASZ then dsz else if dsz > 0 then pow2_up 1 dsz else 0)"

definition ensure_set_datasz :: "nat \<Rightarrow> nat \<Rightarrow> nat" where
  "ensure_set_datasz m v =
     (if v \<ge> MNARRAY_SMALL_DATASZ then v
      else pow2_up (if m = 0 \<or> m > MNARRAY_SMALL_DATASZ then 1 else m) v)"

subsection \<open>Creation\<close>

definition array_init_body ::
  "nat \<Rightarrow> nat \<Rightarrow> ('e, 'w) cb option \<Rightarrow> ('e, 'w) cb option \<Rightarrow> 'e alloc \<Rightarrow> 'w
     \<Rightarrow> (('e, 'w) mnarray \<times> 'w) option" where
  "array_init_body esz n ini fin alloc w =
     do {
       guard (esz > 0);
       let dsz = fit_datasz (SZ (esz * n));
       let ar = \<lparr>elsz = esz, elnum = n, data = None, datasz = dsz, init = ini, fini = fin\<rparr>;
       if n > 0 then
         (case alloc (dsz div esz) of
            None \<Rightarrow> Some (ar, w)
          | Some blk \<Rightarrow>
              (case ini of
                 None \<Rightarrow> Some (ar\<lparr>data := Some blk\<rparr>, w)
               | Some f \<Rightarrow>
                   do { (r, blk', w') \<leftarrow> cb_until f [0..<n] blk w;
                        Some (ar\<lparr>data := Some blk'\<rparr>, w') }))
       else Some (ar, w)
     }"

definition array_init ::
  "nat \<Rightarrow> nat \<Rightarrow> ('e, 'w) cb option \<Rightarrow> ('e, 'w) cb option \<Rightarrow> 'e alloc \<Rightarrow> 'w
     \<Rightarrow> (rc \<times> ('e, 'w) mnarray \<times> 'w) option" where
  "array_init esz n ini fin malloc w =
     do { (ar, w') \<leftarrow> array_init_body esz n ini fin malloc w;
          Some (if n > 0 \<and> data ar = None then Diag ''ARRAY_INIT'' 3 else rc_ok, ar, w') }"

definition array_init_mpool ::
  "'e alloc \<Rightarrow> nat \<Rightarrow> nat \<Rightarrow> ('e, 'w) cb option \<Rightarrow> ('e, 'w) cb option \<Rightarrow> 'w
     \<Rightarrow> (rc \<times> ('e, 'w) mnarray \<times> 'w) option" where
  "array_init_mpool pool esz n ini fin w =
     do { (ar, w') \<leftarrow> array_init_body esz n ini fin pool w;
          Some (if n > 0 \<and> data ar = None then Diag ''ARRAY_INIT'' 4 else rc_ok, ar, w') }"

definition array_init_ref ::
  "('e, 'w) mnarray \<Rightarrow> 'e list option \<Rightarrow> nat \<Rightarrow> nat \<Rightarrow> ('e, 'w) cb option \<Rightarrow> ('e, 'w) cb option
     \<Rightarrow> 'w \<Rightarrow> (rc \<times> ('e, 'w) mnarray \<times> 'w) option" where
  "array_init_ref ar blk esz n ini fin w =
     do {
       guard (esz > 0);
       let ar1 = ar\<lparr>elsz := esz, elnum := n, data := blk, datasz := SZ (esz * n), init := ini\<rparr>;
       case ini of
         None \<Rightarrow> Some (rc_ok, ar1\<lparr>fini := fin\<rparr>, w)
       | Some f \<Rightarrow>
           do { (r, blk', w') \<leftarrow> cb_until f [0..<n] (slots ar1) w;
                let ar2 = ar1\<lparr>data := map_option (\<lambda>_. blk') blk\<rparr>;
                if r \<noteq> 0 then Some (Diag ''ARRAY_INIT'' 5, ar2, w')
                else Some (rc_ok, ar2\<lparr>fini := fin\<rparr>, w') }
     }"

definition array_fini_ref :: "('e, 'w) mnarray \<Rightarrow> 'w \<Rightarrow> (rc \<times> ('e, 'w) mnarray \<times> 'w) option" where
  "array_fini_ref ar w =
     do { (blk, w') \<leftarrow> cb_each_opt (fini ar) [0..<elnum ar] (slots ar) w;
          Some (rc_ok, ar\<lparr>data := None, init := None, fini := None, elnum := 0\<rparr>, w') }"

definition array_init_from ::
  "('e, 'w) mnarray \<Rightarrow> ('e, 'w) mnarray \<Rightarrow> nat \<Rightarrow> 'e alloc \<Rightarrow> 'w
     \<Rightarrow> (rc \<times> ('e, 'w) mnarray \<times> 'w) option" where
  "array_init_from ar src n malloc w =
     (let dsz = fit_datasz (SZ (elsz src * n));
          ar1 = ar\<lparr>elsz := elsz src, elnum := n, init := init src, fini := fini src, datasz := dsz\<rparr>
      in if n > 0 then
           (case malloc (dsz div elsz src) of
              None \<Rightarrow> Some (Diag ''ARRAY_INIT'' 1, ar1\<lparr>data := None\<rparr>, w)
            | Some blk \<Rightarrow>
                (case init src of
                   None \<Rightarrow> Some (rc_ok, ar1\<lparr>data := Some blk\<rparr>, w)
                 | Some f \<Rightarrow>
                     do { (r, blk', w') \<leftarrow> cb_until f [0..<n] blk w;
                          Some (if r \<noteq> 0 then Diag ''ARRAY_INIT'' 2 else rc_ok,
                                ar1\<lparr>data := Some blk'\<rparr>, w') }))
         else Some (rc_ok, ar1\<lparr>data := None\<rparr>, w))"

text \<open>\<open>struct_ok\<close>: whether the request for the structure itself succeeds; \<^verbatim>\<open>FAIL\<close> aborts.\<close>

definition array_new ::
  "bool \<Rightarrow> nat \<Rightarrow> nat \<Rightarrow> ('e, 'w) cb option \<Rightarrow> ('e, 'w) cb option \<Rightarrow> 'e alloc \<Rightarrow> 'w
     \<Rightarrow> (('e, 'w) mnarray \<times> 'w) option" where
  "array_new struct_ok esz n ini fin malloc w =
     do { guard struct_ok;
          (r, ar, w') \<leftarrow> array_init esz n ini fin malloc w;
          guard (r = rc_ok);
          Some (ar, w') }"

definition array_new_mpool ::
  "bool \<Rightarrow> 'e alloc \<Rightarrow> nat \<Rightarrow> nat \<Rightarrow> ('e, 'w) cb option \<Rightarrow> ('e, 'w) cb option \<Rightarrow> 'w
     \<Rightarrow> (('e, 'w) mnarray \<times> 'w) option" where
  "array_new_mpool struct_ok pool esz n ini fin w =
     do { guard struct_ok;
          (r, ar, w') \<leftarrow> array_init_mpool pool esz n ini fin w;
          guard (r = rc_ok);
          Some (ar, w') }"

text \<open>A reference shares the block; \<open>datasz\<close> of the reference is not written.\<close>

definition array_ref_from :: "('e, 'w) mnarray \<Rightarrow> ('e, 'w) mnarray \<Rightarrow> ('e, 'w) mnarray" where
  "array_ref_from ref src =
     ref\<lparr>elsz := elsz src, elnum := elnum src, init := None, fini := None, data := data src\<rparr>"

definition array_reset_no_fini_body ::
  "('e, 'w) mnarray \<Rightarrow> nat \<Rightarrow> 'e alloc \<Rightarrow> 'w \<Rightarrow> (rc \<times> ('e, 'w) mnarray \<times> 'w) option" where
  "array_reset_no_fini_body ar newelnum alloc w =
     (if newelnum > 0 then
        let newdatasz = SZ (elsz ar * newelnum);
            dsz = (if newdatasz \<ge> MNARRAY_SMALL_DATASZ then newdatasz else pow2_up 1 newdatasz);
            ar1 = ar\<lparr>elnum := newelnum, datasz := dsz\<rparr>
        in (case alloc (dsz div elsz ar) of
              None \<Rightarrow> Some (Diag ''ARRAY_RESET_NO_FINI'' 1, ar1\<lparr>data := None\<rparr>, w)
            | Some blk \<Rightarrow>
                (case init ar of
                   None \<Rightarrow> Some (rc_ok, ar1\<lparr>data := Some blk\<rparr>, w)
                 | Some f \<Rightarrow>
                     do { (r, blk', w') \<leftarrow> cb_until f [0..<newelnum] blk w;
                          Some (if r \<noteq> 0 then Diag ''ARRAY_RESET_NO_FINI'' 2 else rc_ok,
                                ar1\<lparr>data := Some blk'\<rparr>, w') }))
      else Some (rc_ok, ar\<lparr>elnum := newelnum, datasz := 0, data := None\<rparr>, w))"

definition array_reset_no_fini ::
  "('e, 'w) mnarray \<Rightarrow> nat \<Rightarrow> 'e alloc \<Rightarrow> 'w \<Rightarrow> (rc \<times> ('e, 'w) mnarray \<times> 'w) option" where
  "array_reset_no_fini ar newelnum malloc w = array_reset_no_fini_body ar newelnum malloc w"

definition array_reset_no_fini_mpool ::
  "'e alloc \<Rightarrow> ('e, 'w) mnarray \<Rightarrow> nat \<Rightarrow> 'w \<Rightarrow> (rc \<times> ('e, 'w) mnarray \<times> 'w) option" where
  "array_reset_no_fini_mpool pool ar newelnum w = array_reset_no_fini_body ar newelnum pool w"

subsection \<open>Growing and shrinking\<close>

text \<open>
  \<open>save\<close> is \<^verbatim>\<open>flags & ARRAY_FLAG_SAVE\<close>. A failing \<^verbatim>\<open>realloc\<close> runs into \<^verbatim>\<open>FAIL\<close> and aborts.
  \<open>ensure_block\<close> is the part every branch that needs \<open>n\<close> elements shares.
\<close>

definition ensure_block ::
  "('e, 'w) mnarray \<Rightarrow> nat \<Rightarrow> 'e alloc \<Rightarrow> ('e, 'w) mnarray option" where
  "ensure_block ar n alloc =
     (let newdatasz = SZ (elsz ar * n) in
      if datasz ar < newdatasz then
        let dsz = ensure_set_datasz (datasz ar) newdatasz in
        (case realloc_blk alloc (slots ar) (dsz div elsz ar) of
           None \<Rightarrow> None
         | Some blk \<Rightarrow> Some (ar\<lparr>datasz := dsz, data := Some blk\<rparr>))
      else Some ar)"

definition array_ensure_dirty_body ::
  "('e, 'w) mnarray \<Rightarrow> nat \<Rightarrow> bool \<Rightarrow> 'e alloc \<Rightarrow> ('e, 'w) mnarray option" where
  "array_ensure_dirty_body ar newelnum save alloc =
     (if \<not> save then
        (if newelnum > 0 then ensure_block ar newelnum alloc
         else Some (ar\<lparr>datasz := 0, data := None\<rparr>))
      else
        (if newelnum > elnum ar then ensure_block ar newelnum alloc
         else if newelnum > 0 then Some ar
         else Some (ar\<lparr>datasz := 0, data := None\<rparr>)))"

definition array_ensure_len_dirty ::
  "('e, 'w) mnarray \<Rightarrow> nat \<Rightarrow> bool \<Rightarrow> 'e alloc \<Rightarrow> (rc \<times> ('e, 'w) mnarray) option" where
  "array_ensure_len_dirty ar newelnum save malloc =
     do { ar1 \<leftarrow> array_ensure_dirty_body ar newelnum save malloc;
          Some (rc_ok, ar1\<lparr>elnum := newelnum\<rparr>) }"

definition array_ensure_len_dirty_mpool ::
  "'e alloc \<Rightarrow> ('e, 'w) mnarray \<Rightarrow> nat \<Rightarrow> bool \<Rightarrow> (rc \<times> ('e, 'w) mnarray) option" where
  "array_ensure_len_dirty_mpool pool ar newelnum save =
     do { ar1 \<leftarrow> array_ensure_dirty_body ar newelnum save pool;
          Some (rc_ok, ar1\<lparr>elnum := newelnum\<rparr>) }"

definition array_ensure_datasz_dirty ::
  "('e, 'w) mnarray \<Rightarrow> nat \<Rightarrow> bool \<Rightarrow> 'e alloc \<Rightarrow> ('e, 'w) mnarray option" where
  "array_ensure_datasz_dirty ar newelnum save malloc = array_ensure_dirty_body ar newelnum save malloc"

definition array_ensure_datasz_dirty_mpool ::
  "'e alloc \<Rightarrow> ('e, 'w) mnarray \<Rightarrow> nat \<Rightarrow> bool \<Rightarrow> ('e, 'w) mnarray option" where
  "array_ensure_datasz_dirty_mpool pool ar newelnum save = array_ensure_dirty_body ar newelnum save pool"

text \<open>Running a nullable callback over slots of the array, ignoring its results.\<close>

definition run_each ::
  "('e, 'w) cb option \<Rightarrow> nat list \<Rightarrow> ('e, 'w) mnarray \<Rightarrow> 'w \<Rightarrow> (('e, 'w) mnarray \<times> 'w) option" where
  "run_each f is ar w =
     do { (blk, w') \<leftarrow> cb_each_opt f is (slots ar) w;
          Some (ar\<lparr>data := map_option (\<lambda>_. blk) (data ar)\<rparr>, w') }"

definition array_ensure_body ::
  "('e, 'w) mnarray \<Rightarrow> nat \<Rightarrow> bool \<Rightarrow> 'e alloc \<Rightarrow> 'w \<Rightarrow> (('e, 'w) mnarray \<times> 'w) option" where
  "array_ensure_body ar newelnum save alloc w =
     (if \<not> save then
        do { (ar1, w1) \<leftarrow> run_each (fini ar) [0..<elnum ar] ar w;
             ar2 \<leftarrow> (if newelnum > 0 then ensure_block ar1 newelnum alloc
                    else Some (ar1\<lparr>datasz := 0, data := None\<rparr>));
             run_each (init ar2) [0..<newelnum] ar2 w1 }
      else if newelnum > elnum ar then
        do { ar1 \<leftarrow> ensure_block ar newelnum alloc;
             run_each (init ar1) [elnum ar..<newelnum] ar1 w }
      else if newelnum < elnum ar then
        do { (ar1, w1) \<leftarrow> run_each (fini ar) [newelnum..<elnum ar] ar w;
             Some (if newelnum > 0 then ar1 else ar1\<lparr>datasz := 0, data := None\<rparr>, w1) }
      else Some (ar, w))"

definition array_ensure_len ::
  "('e, 'w) mnarray \<Rightarrow> nat \<Rightarrow> bool \<Rightarrow> 'e alloc \<Rightarrow> 'w \<Rightarrow> (rc \<times> ('e, 'w) mnarray \<times> 'w) option" where
  "array_ensure_len ar newelnum save malloc w =
     do { (ar1, w1) \<leftarrow> array_ensure_body ar newelnum save malloc w;
          Some (rc_ok, ar1\<lparr>elnum := newelnum\<rparr>, w1) }"

definition array_ensure_len_mpool ::
  "'e alloc \<Rightarrow> ('e, 'w) mnarray \<Rightarrow> nat \<Rightarrow> bool \<Rightarrow> 'w \<Rightarrow> (rc \<times> ('e, 'w) mnarray \<times> 'w) option" where
  "array_ensure_len_mpool pool ar newelnum save w =
     do { (ar1, w1) \<leftarrow> array_ensure_body ar newelnum save pool w;
          Some (rc_ok, ar1\<lparr>elnum := newelnum\<rparr>, w1) }"

definition array_ensure_datasz ::
  "('e, 'w) mnarray \<Rightarrow> nat \<Rightarrow> bool \<Rightarrow> 'e alloc \<Rightarrow> 'w \<Rightarrow> (('e, 'w) mnarray \<times> 'w) option" where
  "array_ensure_datasz ar newelnum save malloc w = array_ensure_body ar newelnum save malloc w"

definition array_ensure_datasz_mpool ::
  "'e alloc \<Rightarrow> ('e, 'w) mnarray \<Rightarrow> nat \<Rightarrow> bool \<Rightarrow> 'w \<Rightarrow> (('e, 'w) mnarray \<times> 'w) option" where
  "array_ensure_datasz_mpool pool ar newelnum save w = array_ensure_body ar newelnum save pool w"

subsection \<open>Items\<close>

definition array_clear_item ::
  "('e, 'w) mnarray \<Rightarrow> nat \<Rightarrow> 'w \<Rightarrow> (rc \<times> ('e, 'w) mnarray \<times> 'w) option" where
  "array_clear_item ar idx w =
     (if idx \<ge> elnum ar then Some (Diag ''ARRAY_CLEAR_ITEM'' 1, ar, w)
      else case fini ar of
        None \<Rightarrow> Some (rc_ok, ar, w)
      | Some f \<Rightarrow>
          do { e \<leftarrow> peek (slots ar) idx;
               let (r, e', w') = f e w;
               Some (Rc r, ar\<lparr>data := Some ((slots ar)[idx := e'])\<rparr>, w') })"

definition array_clear :: "('e, 'w) mnarray \<Rightarrow> 'w \<Rightarrow> (rc \<times> ('e, 'w) mnarray \<times> 'w) option" where
  "array_clear ar w =
     (case fini ar of
        None \<Rightarrow> Some (rc_ok, ar\<lparr>elnum := 0\<rparr>, w)
      | Some f \<Rightarrow>
          do { (r, blk, w') \<leftarrow> cb_until f [0..<elnum ar] (slots ar) w;
               let ar1 = ar\<lparr>data := map_option (\<lambda>_. blk) (data ar)\<rparr>;
               if r \<noteq> 0 then Some (Rc r, ar1, w') else Some (rc_ok, ar1\<lparr>elnum := 0\<rparr>, w') })"

definition array_init_item ::
  "('e, 'w) mnarray \<Rightarrow> nat \<Rightarrow> 'w \<Rightarrow> (rc \<times> ('e, 'w) mnarray \<times> 'w) option" where
  "array_init_item ar idx w =
     (if idx \<ge> elnum ar then Some (Diag ''ARRAY_INIT_ITEM'' 1, ar, w)
      else case init ar of
        None \<Rightarrow> Some (rc_ok, ar, w)
      | Some f \<Rightarrow>
          do { e \<leftarrow> peek (slots ar) idx;
               let (r, e', w') = f e w;
               Some (Rc r, ar\<lparr>data := Some ((slots ar)[idx := e'])\<rparr>, w') })"

text \<open>The address of an element: a slot index, or NULL.\<close>

definition array_get :: "('e, 'w, 'z) mnarray_scheme \<Rightarrow> nat \<Rightarrow> nat option" where
  "array_get ar idx = (if idx < elnum ar then Some idx else None)"

definition array_get_safe ::
  "('e, 'w) mnarray \<Rightarrow> nat \<Rightarrow> 'e alloc \<Rightarrow> 'w \<Rightarrow> (nat \<times> ('e, 'w) mnarray \<times> 'w) option" where
  "array_get_safe ar idx malloc w =
     (if idx < elnum ar then Some (idx, ar, w)
      else
        do { (ar1, w1) \<leftarrow>
               (if SZ (elsz ar * U32 (idx + 1)) > datasz ar
                then array_ensure_datasz ar (U32 (U32 (idx + 1) * 2)) True malloc w
                else Some (ar, w));
             guard (SZ (elsz ar1 * idx) < datasz ar1);
             Some (idx, ar1\<lparr>elnum := U32 (idx + 1)\<rparr>, w1) })"

definition array_get_safe_mpool ::
  "'e alloc \<Rightarrow> ('e, 'w) mnarray \<Rightarrow> nat \<Rightarrow> 'w \<Rightarrow> (nat \<times> ('e, 'w) mnarray \<times> 'w) option" where
  "array_get_safe_mpool pool ar idx w =
     (if idx < elnum ar then Some (idx, ar, w)
      else
        do { (ar1, w1) \<leftarrow>
               (if SZ (elsz ar * U32 (idx + 1)) > datasz ar
                then array_ensure_datasz_mpool pool ar (U32 (U32 (idx + 1) * 2)) True w
                else Some (ar, w));
             guard (SZ (elsz ar1 * idx) < datasz ar1);
             Some (idx, ar1\<lparr>elnum := U32 (idx + 1)\<rparr>, w1) })"

text \<open>\<open>base\<close> is the address \<^verbatim>\<open>ar->data\<close>, \<open>item\<close> the address asked for, both as \<^verbatim>\<open>uintptr_t\<close>.\<close>

definition array_index :: "('e, 'w) mnarray \<Rightarrow> nat \<Rightarrow> nat \<Rightarrow> int" where
  "array_index ar base item =
     (let d = SZ (item + 2 ^ 64 - base) in
      if item \<ge> base \<and> item < SZ (base * elsz ar) \<and> d mod elsz ar = 0
      then S32 (int (d div elsz ar)) else -1)"

definition arary_copy_slice ::
  "('e, 'w) mnarray \<Rightarrow> ('e, 'w) mnarray \<Rightarrow> nat \<Rightarrow> ('e, 'w) mnarray option" where
  "arary_copy_slice dst src idx =
     do { guard (elnum dst \<le> SZ (elnum src + 2 ^ 64 - idx));
          guard (elsz dst = elsz src);
          guard (idx + elnum dst \<le> length (slots src) \<and> elnum dst \<le> length (slots dst));
          Some (dst\<lparr>data := map_option
                 (\<lambda>xs. take (elnum dst) (drop idx (slots src)) @ drop (elnum dst) xs) (data dst)\<rparr>) }"

definition array_fini :: "('e, 'w) mnarray \<Rightarrow> 'w \<Rightarrow> (rc \<times> ('e, 'w) mnarray \<times> 'w) option" where
  "array_fini ar w =
     do { w' \<leftarrow> (case data ar of
                 None \<Rightarrow> Some w
               | Some xs \<Rightarrow> map_option snd (cb_each_opt (fini ar) [0..<elnum ar] xs w));
          Some (rc_ok, ar\<lparr>data := None, init := None, fini := None, elnum := 0\<rparr>, w') }"

definition array_fini_mpool :: "('e, 'w) mnarray \<Rightarrow> 'w \<Rightarrow> (rc \<times> ('e, 'w) mnarray \<times> 'w) option" where
  "array_fini_mpool ar w =
     do { w' \<leftarrow> (case data ar of
                 None \<Rightarrow> Some w
               | Some xs \<Rightarrow> map_option snd (cb_each_opt (fini ar) [0..<elnum ar] xs w));
          Some (rc_ok, ar\<lparr>data := None, init := None, fini := None, elnum := 0\<rparr>, w') }"

definition array_destroy ::
  "('e, 'w) mnarray option \<Rightarrow> 'w \<Rightarrow> (('e, 'w) mnarray option \<times> 'w) option" where
  "array_destroy p w =
     (case p of
        None \<Rightarrow> Some (None, w)
      | Some ar \<Rightarrow> do { (_, _, w') \<leftarrow> array_fini ar w; Some (None, w') })"

definition array_destroy_mpool ::
  "('e, 'w) mnarray option \<Rightarrow> 'w \<Rightarrow> (('e, 'w) mnarray option \<times> 'w) option" where
  "array_destroy_mpool p w =
     (case p of
        None \<Rightarrow> Some (None, w)
      | Some ar \<Rightarrow> do { (_, _, w') \<leftarrow> array_fini_mpool ar w; Some (None, w') })"

subsection \<open>Iterators\<close>

text \<open>Each returns the element's address (or NULL) and the moved iterator; the counter is 32 bits.\<close>

definition array_get_iter :: "('e, 'w, 'z) mnarray_scheme \<Rightarrow> mnarray_iter \<Rightarrow> nat option" where
  "array_get_iter ar it = (if iter it < elnum ar then Some (iter it) else None)"

definition array_first ::
  "('e, 'w, 'z) mnarray_scheme \<Rightarrow> mnarray_iter \<Rightarrow> nat option \<times> mnarray_iter" where
  "array_first ar it =
     (let it = it\<lparr>iter := 0\<rparr> in (if iter it < elnum ar then Some 0 else None, it))"

definition array_last ::
  "('e, 'w, 'z) mnarray_scheme \<Rightarrow> mnarray_iter \<Rightarrow> nat option \<times> mnarray_iter" where
  "array_last ar it =
     (let it = it\<lparr>iter := U32 (elnum ar + 2 ^ 64 - 1)\<rparr>
      in (if iter it < elnum ar then Some (iter it) else None, it))"

definition array_next ::
  "('e, 'w, 'z) mnarray_scheme \<Rightarrow> mnarray_iter \<Rightarrow> nat option \<times> mnarray_iter" where
  "array_next ar it =
     (let it = it\<lparr>iter := U32 (iter it + 1)\<rparr>
      in (if iter it < elnum ar then Some (iter it) else None, it))"

definition array_prev ::
  "('e, 'w, 'z) mnarray_scheme \<Rightarrow> mnarray_iter \<Rightarrow> nat option \<times> mnarray_iter" where
  "array_prev ar it =
     (let it = it\<lparr>iter := U32 (iter it + 2 ^ 32 - 1)\<rparr>
      in (if iter it < elnum ar then Some (iter it) else None, it))"

subsection \<open>Adding and dropping the last element\<close>

definition array_incr ::
  "('e, 'w) mnarray \<Rightarrow> 'e alloc \<Rightarrow> 'w \<Rightarrow> (nat option \<times> ('e, 'w) mnarray \<times> 'w) option" where
  "array_incr ar malloc w =
     do { (r, ar1, w1) \<leftarrow> array_ensure_len ar (elnum ar + 1) True malloc w;
          if r \<noteq> rc_ok then Some (None, ar1, w1)
          else Some (array_get ar1 (U32 (elnum ar1 - 1)), ar1, w1) }"

definition array_incr_mpool ::
  "'e alloc \<Rightarrow> ('e, 'w) mnarray \<Rightarrow> 'w \<Rightarrow> (nat option \<times> ('e, 'w) mnarray \<times> 'w) option" where
  "array_incr_mpool pool ar w =
     do { (r, ar1, w1) \<leftarrow> array_ensure_len_mpool pool ar (elnum ar + 1) True w;
          if r \<noteq> rc_ok then Some (None, ar1, w1)
          else Some (array_get ar1 (U32 (elnum ar1 - 1)), ar1, w1) }"

definition array_incr_iter ::
  "('e, 'w) mnarray \<Rightarrow> mnarray_iter \<Rightarrow> 'e alloc \<Rightarrow> 'w
     \<Rightarrow> (nat option \<times> ('e, 'w) mnarray \<times> mnarray_iter \<times> 'w) option" where
  "array_incr_iter ar it malloc w =
     do { (r, ar1, w1) \<leftarrow> array_ensure_len ar (elnum ar + 1) True malloc w;
          if r \<noteq> rc_ok then Some (None, ar1, it, w1)
          else Some (array_get ar1 (U32 (elnum ar1 - 1)), ar1, it\<lparr>iter := U32 (elnum ar1 - 1)\<rparr>, w1) }"

definition array_incr_iter_mpool ::
  "'e alloc \<Rightarrow> ('e, 'w) mnarray \<Rightarrow> mnarray_iter \<Rightarrow> 'w
     \<Rightarrow> (nat option \<times> ('e, 'w) mnarray \<times> mnarray_iter \<times> 'w) option" where
  "array_incr_iter_mpool pool ar it w =
     do { (r, ar1, w1) \<leftarrow> array_ensure_len_mpool pool ar (elnum ar + 1) True w;
          if r \<noteq> rc_ok then Some (None, ar1, it, w1)
          else Some (array_get ar1 (U32 (elnum ar1 - 1)), ar1, it\<lparr>iter := U32 (elnum ar1 - 1)\<rparr>, w1) }"

definition array_decr_fast :: "('e, 'w) mnarray \<Rightarrow> 'w \<Rightarrow> (rc \<times> ('e, 'w) mnarray \<times> 'w) option" where
  "array_decr_fast ar w =
     (if elnum ar = 0 then Some (Diag ''ARRAY_DECR_FAST'' 1, ar, w)
      else
        let ar1 = ar\<lparr>elnum := elnum ar - 1\<rparr>
        in (case fini ar1 of
              None \<Rightarrow> Some (rc_ok, ar1, w)
            | Some f \<Rightarrow>
                do { e \<leftarrow> peek (slots ar1) (elnum ar1);
                     let (r, e', w') = f e w;
                     Some (rc_ok, ar1\<lparr>data := Some ((slots ar1)[elnum ar1 := e'])\<rparr>, w') }))"

definition array_decr ::
  "('e, 'w) mnarray \<Rightarrow> 'e alloc \<Rightarrow> 'w \<Rightarrow> (rc \<times> ('e, 'w) mnarray \<times> 'w) option" where
  "array_decr ar malloc w =
     (if elnum ar = 0 then Some (Diag ''ARRAY_DECR'' 1, ar, w)
      else do { (r, ar1, w1) \<leftarrow> array_ensure_len ar (elnum ar - 1) True malloc w;
                Some (if r \<noteq> rc_ok then Diag ''ARRAY_DECR'' 2 else rc_ok, ar1, w1) })"

definition array_decr_mpool ::
  "'e alloc \<Rightarrow> ('e, 'w) mnarray \<Rightarrow> 'w \<Rightarrow> (rc \<times> ('e, 'w) mnarray \<times> 'w) option" where
  "array_decr_mpool pool ar w =
     (if elnum ar = 0 then Some (Diag ''ARRAY_DECR'' 1, ar, w)
      else do { (r, ar1, w1) \<leftarrow> array_ensure_len_mpool pool ar (elnum ar - 1) True w;
                Some (if r \<noteq> rc_ok then Diag ''ARRAY_DECR'' 2 else rc_ok, ar1, w1) })"

subsection \<open>Sorting, searching, traversing, comparing\<close>

text \<open>
  \<^verbatim>\<open>qsort\<close> and \<^verbatim>\<open>bsearch\<close> are the C library's: \<open>qs cmp xs\<close> is the order \<^verbatim>\<open>qsort\<close> leaves
  the elements in, \<open>bs key xs cmp\<close> the index \<^verbatim>\<open>bsearch\<close> finds.
\<close>

definition array_sort ::
  "(('e \<Rightarrow> 'e \<Rightarrow> int) \<Rightarrow> 'e list \<Rightarrow> 'e list) \<Rightarrow> ('e, 'w) mnarray \<Rightarrow> ('e \<Rightarrow> 'e \<Rightarrow> int)
     \<Rightarrow> rc \<times> ('e, 'w) mnarray" where
  "array_sort qs ar compar =
     (if elnum ar = 0 then (Diag ''ARRAY_SORT'' 1, ar)
      else (rc_ok, ar\<lparr>data := map_option (\<lambda>xs. qs compar (take (elnum ar) xs) @ drop (elnum ar) xs)
                        (data ar)\<rparr>))"

definition array_find ::
  "('k \<Rightarrow> 'e list \<Rightarrow> ('k \<Rightarrow> 'e \<Rightarrow> int) \<Rightarrow> nat option) \<Rightarrow> ('e, 'w) mnarray \<Rightarrow> 'k \<Rightarrow> ('k \<Rightarrow> 'e \<Rightarrow> int)
     \<Rightarrow> nat option" where
  "array_find bs ar key compar = (if elnum ar = 0 then None else bs key (array_items ar) compar)"

text \<open>The loop of \<^verbatim>\<open>array_find_linear\<close>: from the current element on, following \<open>array_next\<close>.\<close>

function find_linear_from ::
  "('e, 'w, 'z) mnarray_scheme \<Rightarrow> 'k \<Rightarrow> ('e \<Rightarrow> 'k \<Rightarrow> int) \<Rightarrow> nat \<Rightarrow> nat option" where
  "find_linear_from ar key compar i =
     (if i < elnum ar \<and> i < length (slots ar)
      then if compar (slots ar ! i) key = 0 then Some i else find_linear_from ar key compar (Suc i)
      else None)"
  by pat_completeness auto
termination
  by (relation "measure (\<lambda>(ar, key, compar, i). elnum ar - i)") auto

declare find_linear_from.simps [simp del]

definition array_find_linear ::
  "('e, 'w, 'z) mnarray_scheme \<Rightarrow> 'k \<Rightarrow> ('e \<Rightarrow> 'k \<Rightarrow> int) \<Rightarrow> nat option" where
  "array_find_linear ar key compar =
     (if elnum ar = 0 then None else find_linear_from ar key compar 0)"

definition array_traverse ::
  "('e, 'w) mnarray \<Rightarrow> ('e, 'w) cb \<Rightarrow> 'w \<Rightarrow> (int \<times> ('e, 'w) mnarray \<times> 'w) option" where
  "array_traverse ar tr w =
     do { (r, blk, w') \<leftarrow> cb_until tr [0..<elnum ar] (slots ar) w;
          Some (r, ar\<lparr>data := map_option (\<lambda>_. blk) (data ar)\<rparr>, w') }"

fun cmp_items :: "('e \<Rightarrow> 'e \<Rightarrow> int) \<Rightarrow> 'e list \<Rightarrow> 'e list \<Rightarrow> nat list \<Rightarrow> int \<Rightarrow> int option" where
  "cmp_items cmp xs ys [] res = Some res"
| "cmp_items cmp xs ys (i # is) res =
     (if res = 0 then
        do { x \<leftarrow> peek xs i; y \<leftarrow> peek ys i; cmp_items cmp xs ys is (cmp x y) }
      else Some res)"

definition array_cmp ::
  "('e, 'w) mnarray \<Rightarrow> ('e, 'w) mnarray \<Rightarrow> ('e \<Rightarrow> 'e \<Rightarrow> int) \<Rightarrow> int \<Rightarrow> int option" where
  "array_cmp ar1 ar2 cmp sz =
     do {
       guard (elnum ar1 \<le> elnum ar2);
       let sz1 = (if sz > 0 then MNMIN sz (int (elnum ar1)) else int (elnum ar1));
       let sz2 = (if sz > 0 then MNMIN sz (int (elnum ar2)) else int (elnum ar2));
       res \<leftarrow> cmp_items cmp (array_items ar1) (array_items ar2) [0..<nat sz1] (sz1 - sz2);
       Some (S32 res)
     }"

subsection \<open>The invariant\<close>

definition array_wf :: "('e, 'w, 'z) mnarray_scheme \<Rightarrow> bool" where
  "array_wf ar \<longleftrightarrow>
     elsz ar > 0 \<and> elsz ar * elnum ar \<le> datasz ar \<and> datasz ar < 2 ^ 64 \<and> elnum ar < 2 ^ 32 \<and>
     (case data ar of None \<Rightarrow> datasz ar = 0 | Some xs \<Rightarrow> length xs = datasz ar div elsz ar)"

text \<open>The sizes a request may have: the byte count stays clear of the top bit of a \<^verbatim>\<open>size_t\<close>.\<close>

definition size_ok :: "nat \<Rightarrow> nat \<Rightarrow> bool" where
  "size_ok esz n \<longleftrightarrow> n < 2 ^ 32 \<and> esz * n < 2 ^ 63"

lemma pow2_up_ge: "0 < m \<Longrightarrow> v \<le> pow2_up m v \<and> m \<le> pow2_up m v"
proof (induction m v rule: pow2_up.induct)
  case (1 m v)
  show ?case
  proof (cases "m < v")
    case True
    with 1 have "v \<le> pow2_up (2 * m) v \<and> 2 * m \<le> pow2_up (2 * m) v" by simp
    with True 1 show ?thesis by (simp add: pow2_up.simps [of m v])
  qed (simp add: pow2_up.simps [of m v])
qed

lemma pow2_up_lt: "0 < m \<Longrightarrow> m < 2 * v \<Longrightarrow> pow2_up m v < 2 * v"
proof (induction m v rule: pow2_up.induct)
  case (1 m v)
  then show ?case
    by (cases "m < v") (auto simp: pow2_up.simps [of m v])
qed

lemma pow2_up_power: "\<exists>k. pow2_up (2 ^ j) v = 2 ^ k"
proof (induction "v - 2 ^ j" arbitrary: j rule: less_induct)
  case less
  show ?case
  proof (cases "(2::nat) ^ j < v")
    case True
    moreover have "(0::nat) < 2 ^ j" by simp
    ultimately have "v - 2 ^ Suc j < v - 2 ^ j" by (simp add: diff_less_mono2)
    from less [OF this] True show ?thesis
      by (simp add: pow2_up.simps [of "2 ^ j" v])
  qed (auto simp: pow2_up.simps [of "2 ^ j" v])
qed

lemma fit_datasz_ge: "d \<le> fit_datasz d"
  using pow2_up_ge [of 1 d] by (simp add: fit_datasz_def)

lemma fit_datasz_lt: "d < 2 ^ 63 \<Longrightarrow> fit_datasz d < 2 ^ 64"
  using pow2_up_lt [of 1 d] by (auto simp: fit_datasz_def)

lemma ensure_set_datasz_ge: "v \<le> ensure_set_datasz m v"
  using pow2_up_ge [of 1 v] pow2_up_ge [of m v] by (auto simp: ensure_set_datasz_def)

lemma ensure_set_datasz_lt: "m < v \<Longrightarrow> v < 2 ^ 63 \<Longrightarrow> ensure_set_datasz m v < 2 ^ 64"
  using pow2_up_lt [of 1 v] pow2_up_lt [of m v]
  by (auto simp: ensure_set_datasz_def)

lemma ensure_set_datasz_small:
  "m < v \<Longrightarrow> v < MNARRAY_SMALL_DATASZ \<Longrightarrow> ensure_set_datasz m v < 2 * v"
  using pow2_up_lt [of 1 v] pow2_up_lt [of m v]
  by (auto simp: ensure_set_datasz_def)

lemma wf_slots:
  assumes "array_wf ar"
  shows "length (slots ar) = datasz ar div elsz ar" and "elnum ar \<le> length (slots ar)"
proof -
  show len: "length (slots ar) = datasz ar div elsz ar"
    using assms by (auto simp: array_wf_def split: option.splits)
  have "elsz ar * elnum ar div elsz ar \<le> datasz ar div elsz ar"
    using assms by (intro div_le_mono) (simp add: array_wf_def)
  with len assms show "elnum ar \<le> length (slots ar)" by (simp add: array_wf_def)
qed

lemma length_array_items: "array_wf ar \<Longrightarrow> length (array_items ar) = elnum ar"
  using wf_slots(2) [of ar] by (simp add: array_items_def)

lemma nth_array_items: "array_wf ar \<Longrightarrow> i < elnum ar \<Longrightarrow> slots ar ! i = array_items ar ! i"
  by (simp add: array_items_def)

text \<open>What the loops compute on consecutive slots.\<close>

definition cb_world :: "('e, 'w) cb \<Rightarrow> 'e \<Rightarrow> 'w \<Rightarrow> 'w" where
  "cb_world f e w = snd (snd (f e w))"

lemma cb_each_world:
  "n \<le> length xs \<Longrightarrow>
     map_option snd (cb_each f [m..<n] xs w) = Some (fold (cb_world f) (drop m (take n xs)) w)"
proof (induction "n - m" arbitrary: m xs w)
  case 0
  then show ?case by simp
next
  case (Suc k)
  then have mn: "m < n" by simp
  obtain r e w' where f: "f (xs ! m) w = (r, e, w')" by (cases "f (xs ! m) w") auto
  have IH: "map_option snd (cb_each f [Suc m..<n] (xs[m := e]) w') =
              Some (fold (cb_world f) (drop (Suc m) (take n (xs[m := e]))) w')"
    using Suc by (intro Suc.hyps(1)) auto
  have "drop m (take n xs) = xs ! m # drop (Suc m) (take n xs)"
    using mn Suc.prems Cons_nth_drop_Suc [of m "take n xs"] by simp
  moreover have "drop (Suc m) (take n (xs[m := e])) = drop (Suc m) (take n xs)"
    by (simp add: take_update_swap)
  ultimately show ?case
    using mn Suc.prems f IH by (simp add: upt_conv_Cons cb_world_def)
qed

lemma run_each_spec:
  assumes "\<forall>i \<in> set is. i < length (slots ar)"
  shows "\<exists>xs w'. run_each f is ar w = Some (ar\<lparr>data := map_option (\<lambda>_. xs) (data ar)\<rparr>, w') \<and>
           length xs = length (slots ar) \<and> (\<forall>j. j \<notin> set is \<longrightarrow> xs ! j = slots ar ! j)"
proof -
  obtain xs w' where "cb_each_opt f is (slots ar) w = Some (xs, w')"
    using cb_each_opt_total [OF assms, of f w] by blast
  with cb_each_opt_frame [OF this] show ?thesis
    by (auto simp: run_each_def)
qed

text \<open>The invariant only looks at the block's length.\<close>

lemma array_wf_data_cong:
  "array_wf ar \<Longrightarrow> length xs = length (slots ar) \<Longrightarrow>
     array_wf (ar\<lparr>data := map_option (\<lambda>_. xs) (data ar)\<rparr>)"
  by (auto simp: array_wf_def split: option.splits)

subsection \<open>Growing keeps the invariant and the elements\<close>

lemma SZ_size_ok: "size_ok esz n \<Longrightarrow> SZ (esz * n) = esz * n"
  by (simp add: size_ok_def)

lemma ensure_block_spec:
  assumes wf: "array_wf ar" and sz: "size_ok (elsz ar) n" and al: "total_allocator alloc"
  shows "\<exists>ar1. ensure_block ar n alloc = Some ar1 \<and> array_wf (ar1\<lparr>elnum := n\<rparr>) \<and>
           elsz ar1 = elsz ar \<and> elnum ar1 = elnum ar \<and> init ar1 = init ar \<and> fini ar1 = fini ar \<and>
           datasz ar \<le> datasz ar1 \<and>
           take (elnum ar) (slots ar1) = array_items ar"
proof (cases "datasz ar < elsz ar * n")
  case False
  with wf sz show ?thesis
    by (auto simp: ensure_block_def SZ_size_ok array_wf_def size_ok_def array_items_def split: option.splits)
next
  case True
  note realloc_total = total_allocator.realloc_total [OF al]
    and realloc_len = allocator.realloc_len [OF total_allocator.axioms(1) [OF al]]
    and realloc_prefix = allocator.realloc_prefix [OF total_allocator.axioms(1) [OF al]]
  let ?d = "ensure_set_datasz (datasz ar) (elsz ar * n)"
  have dge: "elsz ar * n \<le> ?d" by (rule ensure_set_datasz_ge)
  have dlt: "?d < 2 ^ 64" using True sz by (intro ensure_set_datasz_lt) (auto simp: size_ok_def)
  obtain blk where blk: "realloc_blk alloc (slots ar) (?d div elsz ar) = Some blk"
    using realloc_total [of "slots ar"] by blast
  have len: "length blk = ?d div elsz ar" using blk by (rule realloc_len)
  have "elnum ar \<le> ?d div elsz ar"
  proof -
    have "elsz ar * elnum ar \<le> ?d" using wf True dge by (simp add: array_wf_def)
    then have "elsz ar * elnum ar div elsz ar \<le> ?d div elsz ar" by (rule div_le_mono)
    with wf show ?thesis by (simp add: array_wf_def)
  qed
  then have "take (elnum ar) blk = array_items ar"
    using realloc_prefix [OF blk wf_slots(2) [OF wf]] by (simp add: array_items_def)
  with True blk len dge dlt sz wf show ?thesis
    by (auto simp: ensure_block_def SZ_size_ok array_wf_def size_ok_def)
qed

lemma array_ensure_len_grow:
  assumes wf: "array_wf ar" and sz: "size_ok (elsz ar) n" and al: "total_allocator alloc"
    and gt: "elnum ar < n"
  shows "\<exists>ar' w'. array_ensure_len ar n True alloc w = Some (rc_ok, ar', w') \<and> array_wf ar' \<and>
           elsz ar' = elsz ar \<and> elnum ar' = n \<and> init ar' = init ar \<and> fini ar' = fini ar \<and>
           take (elnum ar) (array_items ar') = array_items ar \<and> data ar' \<noteq> None"
proof -
  obtain ar1 where e: "ensure_block ar n alloc = Some ar1" and wf1: "array_wf (ar1\<lparr>elnum := n\<rparr>)"
    and fr: "elsz ar1 = elsz ar" "elnum ar1 = elnum ar" "init ar1 = init ar" "fini ar1 = fini ar"
    and items: "take (elnum ar) (slots ar1) = array_items ar"
    using ensure_block_spec [OF wf sz al] by blast
  have nle: "n \<le> length (slots ar1)" using wf_slots(2) [OF wf1] by simp
  then have "\<forall>i \<in> set [elnum ar..<n]. i < length (slots ar1)" by auto
  from run_each_spec [OF this, of "init ar" w] obtain xs w' where
    r: "run_each (init ar) [elnum ar..<n] ar1 w = Some (ar1\<lparr>data := map_option (\<lambda>_. xs) (data ar1)\<rparr>, w')"
    and len: "length xs = length (slots ar1)"
    and same: "\<forall>j. j \<notin> set [elnum ar..<n] \<longrightarrow> xs ! j = slots ar1 ! j"
    by blast
  let ?ar' = "ar1\<lparr>data := map_option (\<lambda>_. xs) (data ar1), elnum := n\<rparr>"
  have wf': "array_wf ?ar'"
    using array_wf_data_cong [OF wf1, of xs] len by (auto simp: array_wf_def split: option.splits)
  have some: "data ar1 \<noteq> None"
    using wf1 gt by (auto simp: array_wf_def split: option.splits)
  have "take (elnum ar) xs = take (elnum ar) (slots ar1)"
    using len same nle gt by (intro nth_take_lemma) auto
  with items some gt have "take (elnum ar) (array_items ?ar') = array_items ar"
    by (auto simp: array_items_def min_def)
  with e r wf' fr gt some show ?thesis
    by (auto simp: array_ensure_len_def array_ensure_body_def)
qed

lemma array_wf_shrink: "array_wf ar \<Longrightarrow> n \<le> elnum ar \<Longrightarrow> array_wf (ar\<lparr>elnum := n\<rparr>)"
  by (auto simp: array_wf_def intro: order_trans [OF mult_le_mono2] split: option.splits)

lemma array_ensure_len_shrink:
  assumes wf: "array_wf ar" and lt: "n \<le> elnum ar"
  shows "\<exists>ar' w'. array_ensure_len ar n True alloc w = Some (rc_ok, ar', w') \<and> array_wf ar' \<and>
           elsz ar' = elsz ar \<and> elnum ar' = n \<and> init ar' = init ar \<and> fini ar' = fini ar \<and>
           array_items ar' = take n (array_items ar) \<and>
           w' = (case fini ar of None \<Rightarrow> w | Some f \<Rightarrow> fold (cb_world f) (drop n (array_items ar)) w)"
proof (cases "n = elnum ar")
  case True
  with wf show ?thesis
    by (auto simp: array_ensure_len_def array_ensure_body_def array_items_def split: option.splits)
next
  case False
  with lt have less: "n < elnum ar" by simp
  let ?is = "[n..<elnum ar]"
  have le: "elnum ar \<le> length (slots ar)" by (rule wf_slots(2) [OF wf])
  then have "\<forall>i \<in> set ?is. i < length (slots ar)" by auto
  from run_each_spec [OF this, of "fini ar" w] obtain xs w' where
    r: "run_each (fini ar) ?is ar w = Some (ar\<lparr>data := map_option (\<lambda>_. xs) (data ar)\<rparr>, w')"
    and len: "length xs = length (slots ar)" and same: "\<forall>j. j \<notin> set ?is \<longrightarrow> xs ! j = slots ar ! j"
    by blast
  have w': "w' = (case fini ar of None \<Rightarrow> w | Some f \<Rightarrow> fold (cb_world f) (drop n (array_items ar)) w)"
  proof (cases "fini ar")
    case (Some f)
    with r cb_each_world [OF le, of f n w] show ?thesis
      by (auto simp: run_each_def cb_each_opt_def array_items_def bind_eq_Some_conv)
  qed (use r in \<open>simp add: run_each_def\<close>)
  have "take n xs = take n (slots ar)" using len same le lt by (intro nth_take_lemma) auto
  moreover have "array_wf (ar\<lparr>data := map_option (\<lambda>_. xs) (data ar), elnum := n\<rparr>)"
    using array_wf_shrink [OF array_wf_data_cong [OF wf len], of n] lt
    by (auto simp: array_wf_def split: option.splits)
  moreover have "array_wf (ar\<lparr>datasz := 0, data := None, elnum := 0\<rparr>)"
    using wf by (simp add: array_wf_def)
  moreover have "data ar \<noteq> None" using wf less by (auto simp: array_wf_def split: option.splits)
  ultimately show ?thesis
    using r less w' by (auto simp: array_ensure_len_def array_ensure_body_def array_items_def)
qed

subsection \<open>Properties\<close>

text \<open>
  Resizing with \<^verbatim>\<open>ARRAY_FLAG_SAVE\<close> (the mode of every grow and shrink by one) always
  returns 0 when memory is available, keeps the array's invariant, sets the length asked for
  and keeps every element that still fits at its index, with its value.
\<close>

theorem array_ensure_len_saves:
  assumes "array_wf ar" and "size_ok (elsz ar) n" and "total_allocator alloc"
  shows "\<exists>ar' w'. array_ensure_len ar n True alloc w = Some (rc_ok, ar', w') \<and> array_wf ar' \<and>
           elsz ar' = elsz ar \<and> elnum ar' = n \<and>
           take (min n (elnum ar)) (array_items ar') = take (min n (elnum ar)) (array_items ar)"
proof (cases "elnum ar < n")
  case True
  with array_ensure_len_grow [OF assms True, of w] show ?thesis
    by (auto simp: length_array_items [OF assms(1)] min_def)
next
  case False
  with array_ensure_len_shrink [OF assms(1), of n alloc w] show ?thesis
    by (fastforce simp: min_def)
qed

definition demo_array :: "(nat, nat list) mnarray" where
  "demo_array = \<lparr>elsz = 8, elnum = 2, data = Some [7, 9], datasz = 16, init = None,
     fini = Some (\<lambda>e w. (0, e, w @ [e]))\<rparr>"

lemma demo_array_wf: "array_wf demo_array"
  by (simp add: array_wf_def demo_array_def)

lemma std_total_allocator: "total_allocator (std_alloc junk)"
  by (rule std_total.total_allocator_axioms)

theorem array_ensure_len_saves_witness:
  "\<exists>ar' w'. array_ensure_len demo_array 3 True (std_alloc (\<lambda>_. 0)) [] = Some (rc_ok, ar', w') \<and>
     array_wf ar' \<and> elsz ar' = elsz demo_array \<and> elnum ar' = 3 \<and>
     take (min 3 (elnum demo_array)) (array_items ar') =
       take (min 3 (elnum demo_array)) (array_items demo_array)"
  by (rule array_ensure_len_saves [OF demo_array_wf _ std_total_allocator])
     (simp add: size_ok_def demo_array_def)

text \<open>What growing by one does, for the containers built on the array.\<close>

lemma array_incr_spec:
  assumes wf: "array_wf ar" and sz: "size_ok (elsz ar) (elnum ar + 1)" and al: "total_allocator alloc"
  shows "\<exists>x ar' w'. array_incr ar alloc w = Some (Some (elnum ar), ar', w') \<and> array_wf ar' \<and>
           elsz ar' = elsz ar \<and> init ar' = init ar \<and> fini ar' = fini ar \<and>
           elnum ar' = elnum ar + 1 \<and> array_items ar' = array_items ar @ [x] \<and> data ar' \<noteq> None"
proof -
  from array_ensure_len_grow [OF wf sz al, of w] obtain ar' w' where
    e: "array_ensure_len ar (elnum ar + 1) True alloc w = Some (rc_ok, ar', w')" and wf': "array_wf ar'"
    and fr: "elsz ar' = elsz ar" "elnum ar' = elnum ar + 1" "init ar' = init ar" "fini ar' = fini ar"
      "data ar' \<noteq> None"
    and items: "take (elnum ar) (array_items ar') = array_items ar"
    by auto
  have len: "length (array_items ar') = Suc (elnum ar)"
    using length_array_items [OF wf'] fr by simp
  then have "array_items ar' = array_items ar @ [array_items ar' ! elnum ar]"
    using items take_Suc_conv_app_nth [of "elnum ar" "array_items ar'"] by simp
  moreover have "U32 (elnum ar' - 1) = elnum ar" using fr sz by (simp add: size_ok_def)
  ultimately show ?thesis
    using e wf' fr by (auto simp: array_incr_def array_get_def)
qed

text \<open>
  C16: \<^verbatim>\<open>array_incr\<close> returns the address of a new last slot and leaves every other element
  where it was, keeping the invariant: the array's contents are the old ones and one more.
\<close>

theorem array_incr_appends:
  assumes "array_wf ar" and "size_ok (elsz ar) (elnum ar + 1)" and "total_allocator alloc"
  shows "\<exists>x ar' w'. array_incr ar alloc w = Some (Some (elnum ar), ar', w') \<and> array_wf ar' \<and>
           array_items ar' = array_items ar @ [x]"
  using array_incr_spec [OF assms, of w] by blast

theorem array_incr_appends_witness:
  "\<exists>x ar' w'. array_incr demo_array (std_alloc (\<lambda>_. 0)) [] = Some (Some (elnum demo_array), ar', w') \<and>
     array_wf ar' \<and> array_items ar' = array_items demo_array @ [x]"
  by (rule array_incr_appends [OF demo_array_wf _ std_total_allocator])
     (simp add: size_ok_def demo_array_def)

lemma array_decr_fast_spec:
  assumes wf: "array_wf ar" and ne: "elnum ar > 0"
  shows "\<exists>ar'. array_decr_fast ar w =
           Some (rc_ok, ar', case fini ar of None \<Rightarrow> w | Some f \<Rightarrow> cb_world f (last (array_items ar)) w) \<and>
         array_wf ar' \<and> elsz ar' = elsz ar \<and> init ar' = init ar \<and> fini ar' = fini ar \<and>
         elnum ar' = elnum ar - 1 \<and> array_items ar' = butlast (array_items ar)"
proof -
  have le: "elnum ar \<le> length (slots ar)" by (rule wf_slots(2) [OF wf])
  have last: "last (array_items ar) = slots ar ! (elnum ar - 1)"
    using le ne by (cases "slots ar = []") (auto simp: array_items_def last_conv_nth min_def)
  have but: "butlast (array_items ar) = take (elnum ar - 1) (slots ar)"
    using le by (simp add: array_items_def butlast_take)
  have some: "data ar \<noteq> None" using wf ne by (auto simp: array_wf_def split: option.splits)
  have wf1: "array_wf (ar\<lparr>elnum := elnum ar - 1\<rparr>)" using array_wf_shrink [OF wf] by simp
  show ?thesis
  proof (cases "fini ar")
    case None
    with wf1 ne but show ?thesis by (auto simp: array_decr_fast_def array_items_def)
  next
    case (Some f)
    have "elnum ar - 1 < length (slots ar)" using le ne by simp
    with Some wf1 ne but last some show ?thesis
      by (auto simp: array_decr_fast_def array_items_def cb_world_def array_wf_def
            split: prod.splits option.splits)
  qed
qed

text \<open>
  C17: \<^verbatim>\<open>array_decr_fast\<close> on a non-empty array drops exactly the last element, runs the
  finalizer on exactly that element's value, and keeps the invariant; on an empty array it
  changes nothing and returns its diagnostic.
\<close>

theorem array_decr_fast_drops_last:
  assumes "array_wf ar"
  shows "if elnum ar = 0 then array_decr_fast ar w = Some (Diag ''ARRAY_DECR_FAST'' 1, ar, w)
         else \<exists>ar'. array_decr_fast ar w =
                Some (rc_ok, ar', case fini ar of None \<Rightarrow> w | Some f \<Rightarrow> cb_world f (last (array_items ar)) w) \<and>
              array_wf ar' \<and> array_items ar' = butlast (array_items ar)"
proof (cases "elnum ar = 0")
  case False
  with array_decr_fast_spec [OF assms, of w] show ?thesis by auto
qed (simp add: array_decr_fast_def)

theorem array_decr_fast_drops_last_witness:
  "\<exists>ar'. array_decr_fast demo_array [] =
           Some (rc_ok, ar', case fini demo_array of None \<Rightarrow> [] | Some f \<Rightarrow> cb_world f (last (array_items demo_array)) []) \<and>
         array_wf ar' \<and> array_items ar' = butlast (array_items demo_array)"
  using array_decr_fast_drops_last [OF demo_array_wf, of "[]"] by (simp add: demo_array_def)

text \<open>
  C18: \<^verbatim>\<open>array_fini\<close> runs the finalizer on every element exactly once, in index order, and
  leaves an empty array with no block; it always returns 0.
\<close>

theorem array_fini_finalizes_all:
  assumes wf: "array_wf ar"
  shows "\<exists>ar'. array_fini ar w = Some (rc_ok, ar',
           case fini ar of None \<Rightarrow> w | Some f \<Rightarrow> fold (cb_world f) (array_items ar) w) \<and>
         array_items ar' = [] \<and> elnum ar' = 0 \<and> data ar' = None"
proof (cases "data ar")
  case None
  then have "elnum ar = 0" using wf by (auto simp: array_wf_def)
  with None show ?thesis by (auto simp: array_fini_def array_items_def split: option.splits)
next
  case (Some xs)
  then have le: "elnum ar \<le> length xs" using wf_slots(2) [OF wf] by simp
  show ?thesis
  proof (cases "fini ar")
    case None
    with Some show ?thesis by (simp add: array_fini_def array_items_def)
  next
    case (Some f)
    obtain ys where "cb_each f [0..<elnum ar] xs w = Some (ys, fold (cb_world f) (take (elnum ar) xs) w)"
      using cb_each_world [OF le, of f 0 w] by auto
    with Some \<open>data ar = Some xs\<close> show ?thesis
      by (simp add: array_fini_def array_items_def cb_each_opt_def)
  qed
qed

theorem array_fini_finalizes_all_witness:
  "\<exists>ar'. array_fini demo_array [] = Some (rc_ok, ar',
     case fini demo_array of None \<Rightarrow> [] | Some f \<Rightarrow> fold (cb_world f) (array_items demo_array) []) \<and>
     array_items ar' = [] \<and> elnum ar' = 0 \<and> data ar' = None"
  by (rule array_fini_finalizes_all [OF demo_array_wf])

text \<open>The addresses an iteration visits, by at most \<open>n\<close> calls after the first one.\<close>

fun walk_next :: "nat \<Rightarrow> ('e, 'w, 'z) mnarray_scheme \<Rightarrow> nat option \<times> mnarray_iter \<Rightarrow> nat list" where
  "walk_next n ar (None, it) = []"
| "walk_next 0 ar (Some p, it) = [p]"
| "walk_next (Suc n) ar (Some p, it) = p # walk_next n ar (array_next ar it)"

fun walk_prev :: "nat \<Rightarrow> ('e, 'w, 'z) mnarray_scheme \<Rightarrow> nat option \<times> mnarray_iter \<Rightarrow> nat list" where
  "walk_prev n ar (None, it) = []"
| "walk_prev 0 ar (Some p, it) = [p]"
| "walk_prev (Suc n) ar (Some p, it) = p # walk_prev n ar (array_prev ar it)"

lemma walk_next_from:
  "elnum ar < 2 ^ 32 \<Longrightarrow> iter it < elnum ar \<Longrightarrow> elnum ar \<le> iter it + n \<Longrightarrow>
     walk_next n ar (Some (iter it), it) = [iter it..<elnum ar]"
proof (induction n arbitrary: it)
  case (Suc n)
  have it: "iter it < 2 ^ 32 - 1" using Suc.prems by simp
  show ?case
  proof (cases "iter it + 1 < elnum ar")
    case True
    with Suc.prems it Suc.IH [of "it\<lparr>iter := iter it + 1\<rparr>"] show ?thesis
      by (simp add: array_next_def Let_def upt_conv_Cons)
  next
    case False
    with Suc.prems it have "elnum ar = Suc (iter it)" by simp
    with it show ?thesis by (simp add: array_next_def Let_def)
  qed
qed simp

lemma walk_prev_from:
  "elnum ar < 2 ^ 32 \<Longrightarrow> iter it < elnum ar \<Longrightarrow> iter it \<le> n \<Longrightarrow>
     walk_prev (Suc n) ar (Some (iter it), it) = rev [0..<Suc (iter it)]"
proof (induction n arbitrary: it)
  case 0
  then show ?case by (simp add: array_prev_def Let_def)
next
  case (Suc n)
  show ?case
  proof (cases "iter it")
    case 0
    with Suc.prems show ?thesis by (simp add: array_prev_def Let_def)
  next
    case (Suc i)
    have "U32 (Suc i + 2 ^ 32 - 1) = i"
      using Suc Suc.prems by (simp add: U32_def)
    with Suc Suc.prems Suc.IH [of "it\<lparr>iter := i\<rparr>"] show ?thesis
      by (simp add: array_prev_def Let_def)
  qed
qed

text \<open>
  Iterating with \<^verbatim>\<open>array_first\<close>/\<^verbatim>\<open>array_next\<close> visits every element exactly once in
  index order and then returns NULL, iterating with \<^verbatim>\<open>array_last\<close>/\<^verbatim>\<open>array_prev\<close> visits them in
  the reverse order; on an empty array both stop at once (the 32-bit counter of
  \<^verbatim>\<open>array_last\<close> wraps around to the largest value there).
\<close>

theorem array_iteration_complete:
  assumes "elnum ar < 2 ^ 32"
  shows "walk_next (elnum ar) ar (array_first ar it) = [0..<elnum ar] \<and>
         walk_prev (elnum ar) ar (array_last ar it) = rev [0..<elnum ar]"
proof (cases "elnum ar")
  case 0
  then show ?thesis by (simp add: array_first_def array_last_def Let_def U32_def)
next
  case (Suc m)
  have "elnum ar + 2 ^ 64 - 1 = m + 2 ^ 32 * 2 ^ 32" using Suc by simp
  then have "U32 (elnum ar + 2 ^ 64 - 1) = m mod 2 ^ 32"
    by (simp only: U32_def mod_mult_self2)
  then have "U32 (elnum ar + 2 ^ 64 - 1) = m"
    using Suc assms by simp
  with Suc assms walk_next_from [of ar "it\<lparr>iter := 0\<rparr>" "elnum ar"]
    walk_prev_from [of ar "it\<lparr>iter := m\<rparr>" m] show ?thesis
    by (simp add: array_first_def array_last_def Let_def)
qed

theorem array_iteration_complete_witness:
  "walk_next (elnum demo_array) demo_array (array_first demo_array \<lparr>iter = 5\<rparr>) = [0..<elnum demo_array] \<and>
   walk_prev (elnum demo_array) demo_array (array_last demo_array \<lparr>iter = 5\<rparr>) = rev [0..<elnum demo_array]"
  by (rule array_iteration_complete) (simp add: demo_array_def)

lemma find_linear_from_spec:
  "elnum ar \<le> length (slots ar) \<Longrightarrow>
     find_linear_from ar key compar i =
       (case find (\<lambda>j. compar (slots ar ! j) key = 0) [i..<elnum ar] of None \<Rightarrow> None | Some j \<Rightarrow> Some j)"
proof (induction ar key compar i rule: find_linear_from.induct)
  case (1 ar key compar i)
  then show ?case
    by (cases "i < elnum ar") (auto simp: find_linear_from.simps [of ar key compar i] upt_conv_Cons)
qed

subsection \<open>Where the code does not do what it means to\<close>

text \<open>
  \<^verbatim>\<open>array_init\<close> reports success although an initializer failed: only a missing block makes it
  return a diagnostic. \<^verbatim>\<open>array_init_from\<close> reports the same failure.
\<close>

lemma array_init_hides_init_failure:
  "\<exists>ar w. array_init 8 1 (Some (\<lambda>e w. (-1, e, w))) None (std_alloc (\<lambda>_. 0)) w = Some (rc_ok, ar, w) \<and>
     (\<exists>ar' src. init src = init ar \<and>
        array_init_from ar src 1 (std_alloc (\<lambda>_. 0)) w = Some (Diag ''ARRAY_INIT'' 2, ar', w))"
  by (intro exI [of _ "\<lparr>elsz = 8, elnum = 1, data = Some [0], datasz = 8,
        init = Some (\<lambda>e w. (-1, e, w)), fini = None\<rparr>"] exI conjI)
     (simp_all add: array_init_def array_init_body_def array_init_from_def std_alloc_def
        fit_datasz_def MNARRAY_SMALL_DATASZ_def pow2_up.simps)

text \<open>
  \<^verbatim>\<open>array_index\<close> compares with \<^verbatim>\<open>s * elsz\<close> instead of the end of the block, so it returns an
  index for an address far behind the last element.
\<close>

lemma array_index_past_end:
  "array_index (demo_array\<lparr>elnum := 2\<rparr>) 0x1000 (0x1000 + 8 * 100) = 100"
  by (simp add: array_index_def demo_array_def SZ_def)

text \<open>
  \<^verbatim>\<open>array_fini\<close> leaves \<^verbatim>\<open>datasz\<close> as it was, so an array used again after it believes it owns a
  block: \<^verbatim>\<open>array_incr\<close> hands out an element address while \<^verbatim>\<open>data\<close> is still NULL.
\<close>

lemma array_incr_after_fini_no_block:
  "\<exists>ar1 ar2. array_fini demo_array [] = Some (rc_ok, ar1, [7, 9]) \<and>
     array_incr ar1 (std_alloc (\<lambda>_. 0)) [7, 9] = Some (Some 0, ar2, [7, 9]) \<and> data ar2 = None"
  by (simp add: array_fini_def array_incr_def array_ensure_len_def array_ensure_body_def
        ensure_block_def demo_array_def cb_each_opt_def array_get_def run_each_def upt_rec
        Let_def SZ_def)

end
