(* ===== verification/Mn_Ring.thy ===== *)
theory Mn_Ring
  imports Mn_Array
begin

text \<open>
  \<^verbatim>\<open>src/src/ring.c\<close>: a fixed array read in circular order from a cursor. The index arithmetic
  is C's: \<^verbatim>\<open>int\<close> remainders that truncate towards zero (\<open>smod\<close>), undefined on overflow and
  on a zero modulus (an empty ring), and an \<^verbatim>\<open>unsigned\<close> cursor.
\<close>

record ('e, 'w) mnring =
  ring_a :: "('e, 'w) mnarray"
  cursor :: mnarray_iter

definition int_ok :: "int \<Rightarrow> bool" where
  "int_ok n \<longleftrightarrow> - (2 ^ 31) \<le> n \<and> n < 2 ^ 31"

text \<open>\<^verbatim>\<open>((x % mod) + mod) % mod\<close>\<close>

definition wrap_mod :: "int \<Rightarrow> int \<Rightarrow> int option" where
  "wrap_mod x m =
     do { guard (m \<noteq> 0 \<and> int_ok x);
          guard (int_ok (x smod m + m));
          Some ((x smod m + m) smod m) }"

definition ring_mod :: "('e, 'w) mnring \<Rightarrow> int" where
  "ring_mod ring = S32 (int (elnum (ring_a ring)))"

definition mnring_init ::
  "nat \<Rightarrow> nat \<Rightarrow> ('e, 'w) cb option \<Rightarrow> ('e, 'w) cb option \<Rightarrow> 'e alloc \<Rightarrow> 'w
     \<Rightarrow> (('e, 'w) mnring \<times> 'w) option" where
  "mnring_init esz n ini fin malloc w =
     do { (r, a, w') \<leftarrow> array_init esz n ini fin malloc w;
          guard (r = rc_ok);
          Some (\<lparr>ring_a = a, cursor = \<lparr>iter = 0\<rparr>\<rparr>, w') }"

definition mnring_advance :: "('e, 'w) mnring \<Rightarrow> int \<Rightarrow> (nat option \<times> ('e, 'w) mnring) option" where
  "mnring_advance ring incr =
     do { incr' \<leftarrow> wrap_mod incr (ring_mod ring);
          let it0 = U32 (iter (cursor ring) + nat (incr' mod 2 ^ 32));
          let it1 = it0 mod nat (ring_mod ring mod 2 ^ 32);
          let ring' = ring\<lparr>cursor := (cursor ring)\<lparr>iter := it1\<rparr>\<rparr>;
          Some (array_get_iter (ring_a ring') (cursor ring'), ring') }"

definition mnring_first :: "('e, 'w) mnring \<Rightarrow> nat option \<times> mnarray_iter" where
  "mnring_first ring = (let it = cursor ring in (array_get_iter (ring_a ring) it, it))"

text \<open>The stored value of an \<^verbatim>\<open>int\<close> in the \<^verbatim>\<open>unsigned\<close> field of the iterator.\<close>

definition set_iter :: "mnarray_iter \<Rightarrow> int \<Rightarrow> mnarray_iter" where
  "set_iter it n = it\<lparr>iter := nat (n mod 2 ^ 32)\<rparr>"

definition mnring_last :: "('e, 'w) mnring \<Rightarrow> mnarray_iter \<Rightarrow> (nat option \<times> mnarray_iter) option" where
  "mnring_last ring it =
     do { i \<leftarrow> wrap_mod (S32 (int (iter (cursor ring))) - 1) (ring_mod ring);
          let it' = set_iter it i;
          Some (array_get_iter (ring_a ring) it', it') }"

definition mnring_next :: "('e, 'w) mnring \<Rightarrow> mnarray_iter \<Rightarrow> (nat option \<times> mnarray_iter) option" where
  "mnring_next ring it =
     do { i \<leftarrow> wrap_mod (S32 (int (iter it)) + 1) (ring_mod ring);
          let it' = set_iter it i;
          Some (array_get_iter (ring_a ring) it', it') }"

definition mnring_next_stop ::
  "('e, 'w) mnring \<Rightarrow> mnarray_iter \<Rightarrow> (nat option \<times> mnarray_iter) option" where
  "mnring_next_stop ring it =
     do { i \<leftarrow> wrap_mod (S32 (int (iter it)) + 1) (ring_mod ring);
          if i = S32 (int (iter (cursor ring))) then Some (None, it)
          else let it' = set_iter it i in Some (array_get_iter (ring_a ring) it', it') }"

definition mnring_prev :: "('e, 'w) mnring \<Rightarrow> mnarray_iter \<Rightarrow> (nat option \<times> mnarray_iter) option" where
  "mnring_prev ring it =
     do { i \<leftarrow> wrap_mod (S32 (int (iter it)) - 1) (ring_mod ring);
          let it' = set_iter it i;
          Some (array_get_iter (ring_a ring) it', it') }"

definition mnring_prev_stop ::
  "('e, 'w) mnring \<Rightarrow> mnarray_iter \<Rightarrow> (nat option \<times> mnarray_iter) option" where
  "mnring_prev_stop ring it =
     do { i \<leftarrow> wrap_mod (S32 (int (iter it)) - 1) (ring_mod ring);
          j \<leftarrow> wrap_mod (S32 (int (iter (cursor ring))) - 1) (ring_mod ring);
          if i = j then Some (None, it)
          else let it' = set_iter it i in Some (array_get_iter (ring_a ring) it', it') }"

definition mnring_fini :: "('e, 'w) mnring \<Rightarrow> 'w \<Rightarrow> (('e, 'w) mnring \<times> 'w) option" where
  "mnring_fini ring w =
     do { (_, a, w') \<leftarrow> array_fini (ring_a ring) w;
          Some (ring\<lparr>cursor := \<lparr>iter = 0\<rparr>, ring_a := a\<rparr>, w') }"

subsection \<open>Index arithmetic\<close>

definition ring_wf :: "('e, 'w) mnring \<Rightarrow> bool" where
  "ring_wf ring \<longleftrightarrow> array_wf (ring_a ring) \<and> 0 < elnum (ring_a ring) \<and>
     elnum (ring_a ring) < 2 ^ 30 \<and> iter (cursor ring) < elnum (ring_a ring)"

lemma smod_eq_mod: "0 \<le> x \<Longrightarrow> 0 < (m::int) \<Longrightarrow> x smod m = x mod m"
  by (simp add: signed_modulo_int_def sgn_if)

lemma smod_range: "0 < (m::int) \<Longrightarrow> - m < x smod m \<and> x smod m < m"
  by (simp add: signed_modulo_int_def signed_divide_int_def sgn_if abs_if)
     (smt (verit) minus_mult_div_eq_mod mult.commute pos_mod_bound pos_mod_sign)

lemma wrap_mod_mod:
  assumes m: "0 < m" "m < 2 ^ 30" and x: "int_ok x"
  shows "wrap_mod x m = Some (x mod m)"
proof -
  have r: "- m < x smod m" "x smod m < m" using smod_range [OF m(1)] by auto
  then have "int_ok (x smod m + m)" using m by (simp add: int_ok_def)
  moreover have "(x smod m + m) smod m = (x smod m + m) mod m"
    using r m by (intro smod_eq_mod) auto
  moreover have "x smod m = x - (x sdiv m) * m"
    by (simp add: minus_sdiv_mult_eq_smod)
  then have "(x smod m + m) mod m = x mod m"
    by (simp add: mod_diff_eq [symmetric] mod_mult_self2_is_0)
  ultimately show ?thesis using m x by (simp add: wrap_mod_def)
qed

lemma ring_mod_wf: "ring_wf ring \<Longrightarrow> ring_mod ring = int (elnum (ring_a ring))"
  by (simp add: ring_wf_def ring_mod_def)

lemma iter_S32: "i < 2 ^ 30 \<Longrightarrow> S32 (int i) = int i"
  by simp

lemma set_iter_nat: "0 \<le> n \<Longrightarrow> n < 2 ^ 32 \<Longrightarrow> set_iter it n = it\<lparr>iter := nat n\<rparr>"
  by (simp add: set_iter_def)

lemma set_iter_idx: "i < n \<Longrightarrow> n < 2 ^ 30 \<Longrightarrow> set_iter it (int i) = it\<lparr>iter := i\<rparr>"
  by (simp add: set_iter_nat)

text \<open>What each move does to the index, for an index inside the ring.\<close>

lemma ring_step_index:
  assumes "ring_wf ring" and "i < elnum (ring_a ring)" and "\<bar>d\<bar> \<le> 1"
  shows "wrap_mod (S32 (int i) + d) (ring_mod ring) =
           Some ((int i + d) mod int (elnum (ring_a ring)))"
proof -
  have "i < 2 ^ 30" using assms by (simp add: ring_wf_def)
  moreover from this have "int_ok (int i + d)" using assms(3) by (auto simp: int_ok_def)
  ultimately show ?thesis
    using assms wrap_mod_mod [of "int (elnum (ring_a ring))" "int i + d"]
    by (simp add: ring_mod_wf) (simp add: ring_wf_def)
qed

lemmas ring_step_next = ring_step_index [of _ _ 1, simplified]
lemmas ring_step_prev = ring_step_index [of _ _ "-1", simplified]

lemma next_index: "i < (n::nat) \<Longrightarrow> (int i + 1) mod int n = (if Suc i = n then 0 else int (Suc i))"
  using zmod_int [of "Suc i" n] by (auto simp: add.commute)

lemma prev_index: "i < (n::nat) \<Longrightarrow> (int i - 1) mod int n = (if i = 0 then int n - 1 else int i - 1)"
  by (cases i) (auto simp: zmod_minus1)

definition ring_items :: "('e, 'w) mnring \<Rightarrow> 'e list" where
  "ring_items ring = rotate (iter (cursor ring)) (array_items (ring_a ring))"

text \<open>
  C19: Advancing the cursor by any \<^verbatim>\<open>int\<close>, positive or negative, rotates the ring's
  contents by that amount modulo its length, keeps the invariant and returns the address of
  the element now at the cursor; it never faults on a non-empty ring of fewer than \<^verbatim>\<open>2^30\<close> elements.
\<close>

theorem mnring_advance_rotates:
  assumes wf: "ring_wf ring" and inc: "int_ok incr"
  shows "\<exists>ring' p. mnring_advance ring incr = Some (Some p, ring') \<and> ring_wf ring' \<and>
           ring_items ring' = rotate (nat (incr mod int (elnum (ring_a ring)))) (ring_items ring) \<and>
           p = iter (cursor ring') \<and> ring_a ring' = ring_a ring"
proof -
  let ?n = "elnum (ring_a ring)" and ?i = "iter (cursor ring)"
  let ?k = "nat (incr mod int ?n)"
  have n: "0 < ?n" "?n < 2 ^ 30" and i: "?i < ?n" using wf by (auto simp: ring_wf_def)
  have wm: "wrap_mod incr (ring_mod ring) = Some (incr mod int ?n)"
    using n inc ring_mod_wf [OF wf] by (simp add: wrap_mod_mod)
  have k: "0 \<le> incr mod int ?n" "incr mod int ?n < int ?n" using n by auto
  moreover have "int ?n < 2 ^ 32" using n by simp
  ultimately have k32: "incr mod int ?n mod 2 ^ 32 = incr mod int ?n"
    by (intro mod_pos_pos_trivial) linarith+
  have kn: "?k < ?n" using k by linarith
  have u: "U32 (?i + ?k) = ?i + ?k" using i kn n by simp
  have "nat (int ?n mod 2 ^ 32) = ?n" using n by simp
  then have adv: "mnring_advance ring incr =
      Some (Some ((?i + ?k) mod ?n), ring\<lparr>cursor := (cursor ring)\<lparr>iter := (?i + ?k) mod ?n\<rparr>\<rparr>)"
    using wm k32 u n by (simp add: mnring_advance_def ring_mod_wf [OF wf] array_get_iter_def Let_def)
  have "length (array_items (ring_a ring)) = ?n"
    using wf by (simp add: ring_wf_def length_array_items)
  then have "rotate ((?i + ?k) mod ?n) (array_items (ring_a ring)) = rotate ?k (ring_items ring)"
    by (simp add: ring_items_def rotate_rotate add.commute rotate_conv_mod [of "?i + ?k"])
  with adv wf n show ?thesis
    by (simp add: ring_wf_def ring_items_def)
qed

definition demo_ring :: "(nat, unit) mnring" where
  "demo_ring = \<lparr>ring_a = \<lparr>elsz = 8, elnum = 3, data = Some [10, 20, 30], datasz = 24,
     init = None, fini = None\<rparr>, cursor = \<lparr>iter = 1\<rparr>\<rparr>"

lemma demo_ring_wf: "ring_wf demo_ring"
  by (simp add: ring_wf_def array_wf_def demo_ring_def)

theorem mnring_advance_rotates_witness:
  "\<exists>ring' p. mnring_advance demo_ring (-5) = Some (Some p, ring') \<and> ring_wf ring' \<and>
     ring_items ring' = rotate (nat (-5 mod int (elnum (ring_a demo_ring)))) (ring_items demo_ring) \<and>
     p = iter (cursor ring') \<and> ring_a ring' = ring_a demo_ring"
  by (rule mnring_advance_rotates [OF demo_ring_wf]) (simp add: int_ok_def)

subsection \<open>Walking the ring\<close>

fun ring_walk_next ::
  "nat \<Rightarrow> ('e, 'w) mnring \<Rightarrow> nat option \<times> mnarray_iter \<Rightarrow> nat list option" where
  "ring_walk_next n ring (None, it) = Some []"
| "ring_walk_next 0 ring (Some p, it) = None"
| "ring_walk_next (Suc n) ring (Some p, it) =
     do { r \<leftarrow> mnring_next_stop ring it; ps \<leftarrow> ring_walk_next n ring r; Some (p # ps) }"

fun ring_walk_prev ::
  "nat \<Rightarrow> ('e, 'w) mnring \<Rightarrow> nat option \<times> mnarray_iter \<Rightarrow> nat list option" where
  "ring_walk_prev n ring (None, it) = Some []"
| "ring_walk_prev 0 ring (Some p, it) = None"
| "ring_walk_prev (Suc n) ring (Some p, it) =
     do { r \<leftarrow> mnring_prev_stop ring it; ps \<leftarrow> ring_walk_prev n ring r; Some (p # ps) }"

lemma ring_next_stop_at:
  assumes wf: "ring_wf ring" and k: "k < elnum (ring_a ring)"
    and it: "iter it = (iter (cursor ring) + k) mod elnum (ring_a ring)"
  shows "mnring_next_stop ring it =
     (let n = elnum (ring_a ring); j = (iter (cursor ring) + Suc k) mod n in
      if Suc k = n then Some (None, it) else Some (Some j, it\<lparr>iter := j\<rparr>))"
proof -
  let ?n = "elnum (ring_a ring)" and ?c = "iter (cursor ring)"
  let ?j = "(?c + Suc k) mod ?n"
  have n: "0 < ?n" "?n < 2 ^ 30" and c: "?c < ?n" using wf by (auto simp: ring_wf_def)
  have lt: "iter it < ?n" using n it by simp
  have "wrap_mod (S32 (int (iter it)) + 1) (ring_mod ring) = Some ((int (iter it) + 1) mod int ?n)"
    by (rule ring_step_next [OF wf lt])
  moreover have "(int (iter it) + 1) mod int ?n = int ?j"
    by (simp add: it zmod_int mod_simps ac_simps)
  moreover have "int ?j = S32 (int ?c) \<longleftrightarrow> Suc k = ?n"
  proof -
    have "?j = (if ?c + Suc k < ?n then ?c + Suc k else ?c + Suc k - ?n)"
      using c k le_mod_geq [of ?n "?c + Suc k"] by auto
    then have "?j = ?c \<longleftrightarrow> Suc k = ?n"
      using c k by (auto split: if_splits)
    then show ?thesis using c n by simp
  qed
  moreover have "?j < ?n" using n by simp
  then have "set_iter it (int ?j) = it\<lparr>iter := ?j\<rparr>" by (rule set_iter_idx [OF _ n(2)])
  ultimately show ?thesis
    using \<open>?j < ?n\<close> by (simp add: mnring_next_stop_def Let_def array_get_iter_def)
qed

lemma ring_walk_next_from:
  assumes wf: "ring_wf ring"
  shows "k < elnum (ring_a ring) \<Longrightarrow> elnum (ring_a ring) \<le> m + k \<Longrightarrow>
     iter it = (iter (cursor ring) + k) mod elnum (ring_a ring) \<Longrightarrow>
     ring_walk_next m ring (Some (iter it), it) =
       Some (map (\<lambda>j. (iter (cursor ring) + j) mod elnum (ring_a ring)) [k..<elnum (ring_a ring)])"
proof (induction m arbitrary: k it)
  case (Suc m)
  show ?case
  proof (cases "Suc k = elnum (ring_a ring)")
    case True
    then have "[k..<elnum (ring_a ring)] = [k]" by (simp add: upt_conv_Cons)
    with True Suc.prems ring_next_stop_at [OF wf Suc.prems(1,3)] show ?thesis by (simp add: Let_def)
  next
    case False
    let ?j = "(iter (cursor ring) + Suc k) mod elnum (ring_a ring)"
    have "ring_walk_next m ring (Some ?j, it\<lparr>iter := ?j\<rparr>) =
        Some (map (\<lambda>j. (iter (cursor ring) + j) mod elnum (ring_a ring)) [Suc k..<elnum (ring_a ring)])"
      using Suc.IH [of "Suc k" "it\<lparr>iter := ?j\<rparr>"] Suc.prems False by simp
    with False Suc.prems ring_next_stop_at [OF wf Suc.prems(1,3)] show ?thesis
      by (simp add: Let_def upt_conv_Cons)
  qed
qed simp

text \<open>
  A full turn: \<^verbatim>\<open>mnring_first\<close> and then \<^verbatim>\<open>mnring_next_stop\<close> until NULL stops after
  exactly \<open>elnum\<close> elements; the elements seen are the ring's contents from the cursor on, each
  once, and no call faults.
\<close>

theorem mnring_full_turn:
  assumes wf: "ring_wf ring"
  shows "\<exists>ps. ring_walk_next (elnum (ring_a ring)) ring (mnring_first ring) = Some ps \<and>
           distinct ps \<and> set ps = {..<elnum (ring_a ring)} \<and>
           map (nth (array_items (ring_a ring))) ps = ring_items ring"
proof -
  let ?n = "elnum (ring_a ring)" and ?c = "iter (cursor ring)"
  let ?ps = "map (\<lambda>j. (?c + j) mod ?n) [0..<?n]"
  have n: "0 < ?n" and c: "?c < ?n" using wf by (auto simp: ring_wf_def)
  have "ring_walk_next ?n ring (mnring_first ring) = Some ?ps"
    using ring_walk_next_from [OF wf, of 0 ?n "cursor ring"] n c
    by (simp add: mnring_first_def array_get_iter_def Let_def)
  moreover have ps: "?ps = rotate ?c [0..<?n]"
    using n by (intro nth_equalityI) (auto simp: nth_rotate add.commute)
  moreover have "map (nth (array_items (ring_a ring))) (rotate ?c [0..<?n]) = ring_items ring"
  proof -
    have "length (array_items (ring_a ring)) = ?n"
      using wf by (simp add: ring_wf_def length_array_items)
    then have "map (nth (array_items (ring_a ring))) [0..<?n] = array_items (ring_a ring)"
      by (metis map_nth)
    then show ?thesis by (simp add: ring_items_def flip: rotate_map)
  qed
  ultimately show ?thesis by auto
qed

theorem mnring_full_turn_witness:
  "\<exists>ps. ring_walk_next (elnum (ring_a demo_ring)) demo_ring (mnring_first demo_ring) = Some ps \<and>
     distinct ps \<and> set ps = {..<elnum (ring_a demo_ring)} \<and>
     map (nth (array_items (ring_a demo_ring))) ps = ring_items demo_ring"
  by (rule mnring_full_turn [OF demo_ring_wf])

text \<open>Going back and forth by one returns to the same index.\<close>

lemma mnring_next_prev:
  assumes wf: "ring_wf ring" and it: "iter it < elnum (ring_a ring)"
  shows "\<exists>p q it1. mnring_next ring it = Some (Some p, it1) \<and> mnring_prev ring it1 = Some (Some q, it) \<and>
           q = iter it"
proof -
  let ?n = "elnum (ring_a ring)"
  have n: "0 < ?n" "?n < 2 ^ 30" using wf by (auto simp: ring_wf_def)
  define j where "j = (if Suc (iter it) = ?n then 0 else Suc (iter it))"
  have j: "j < ?n" using n it by (auto simp: j_def)
  have nx: "(int (iter it) + 1) mod int ?n = int j"
    using next_index [OF it] by (simp add: j_def)
  have pv: "(int j - 1) mod int ?n = int (iter it)"
    using prev_index [OF j] it by (auto simp: j_def split: if_splits)
  have s: "set_iter it' (int i) = it'\<lparr>iter := i\<rparr>" if "i < ?n" for i it'
    using that n by (simp add: set_iter_nat)
  have "mnring_next ring it = Some (Some j, it\<lparr>iter := j\<rparr>)"
    using ring_step_next [OF wf it] nx s [OF j] j by (simp add: mnring_next_def array_get_iter_def)
  moreover have "mnring_prev ring (it\<lparr>iter := j\<rparr>) = Some (Some (iter it), it)"
    using ring_step_prev [OF wf j] pv s [OF it] it by (simp add: mnring_prev_def array_get_iter_def)
  ultimately show ?thesis by blast
qed

end
