(* ===== verification/Mn_Heap.thy ===== *)
theory Mn_Heap
  imports Mn_Array
begin

text \<open>
  \<^verbatim>\<open>src/src/heap.c\<close>: the binary min-heap on the array of \<^verbatim>\<open>Mn_Array\<close>. The comparator and
  the swap function are the client's: the comparator reads two elements, the swap function
  is given by the contents it leaves in the two slots. Indices are C \<^verbatim>\<open>int\<close>s that are not negative, so natural
  numbers here; arithmetic on them that leaves the type is a fault, and a \<^verbatim>\<open>size_t\<close> converted to one wraps
  around.
\<close>

record ('e, 'w) mnheap =
  hdata :: "('e, 'w) mnarray"
  hcmp :: "'e \<Rightarrow> 'e \<Rightarrow> int"
  hswap :: "'e \<Rightarrow> 'e \<Rightarrow> 'e \<times> 'e"

definition HEAP_PARENT :: "nat \<Rightarrow> nat" where
  "HEAP_PARENT i = (i - 1) div 2"

text \<open>Writing two slots, as the swap function does through its two pointers.\<close>

definition swap_slots :: "('e, 'w) mnheap \<Rightarrow> nat \<Rightarrow> nat \<Rightarrow> ('e, 'w) mnheap option" where
  "swap_slots heap p q =
     do { a \<leftarrow> peek (slots (hdata heap)) p;
          b \<leftarrow> peek (slots (hdata heap)) q;
          let (a', b') = hswap heap a b;
          Some (heap\<lparr>hdata := (hdata heap)\<lparr>data := Some ((slots (hdata heap))[p := a', q := b'])\<rparr>\<rparr>) }"

definition store_slot :: "('e, 'w) mnheap \<Rightarrow> nat option \<Rightarrow> 'e \<Rightarrow> ('e, 'w) mnheap option" where
  "store_slot heap p v =
     do { i \<leftarrow> p;
          xs \<leftarrow> poke (slots (hdata heap)) i v;
          Some (heap\<lparr>hdata := (hdata heap)\<lparr>data := Some xs\<rparr>\<rparr>) }"

lemma swap_slots_elnum: "swap_slots heap p q = Some heap' \<Longrightarrow> elnum (hdata heap') = elnum (hdata heap)"
  by (auto simp: swap_slots_def bind_eq_Some_conv case_prod_unfold Let_def)

text \<open>The value of an expression of type \<^verbatim>\<open>int\<close>; an overflow is a fault.\<close>

definition C_int :: "nat \<Rightarrow> nat option" where
  "C_int n = (if n < 2 ^ 31 then Some n else None)"

lemma C_int_Some [simp]: "C_int n = Some j \<longleftrightarrow> n < 2 ^ 31 \<and> j = n"
  by (auto simp: C_int_def)

lemma C_int_small [simp]: "n < 2 ^ 31 \<Longrightarrow> C_int n = Some n"
  by simp

function siftdown :: "('e, 'w) mnheap \<Rightarrow> nat \<Rightarrow> (int \<times> ('e, 'w) mnheap) option" where
  "siftdown heap i =
     do { j1 \<leftarrow> C_int (i * 2 + 1);
      case array_get (hdata heap) j1 of
        None \<Rightarrow> Some (0, heap)
      | Some minb \<Rightarrow>
          do { x \<leftarrow> peek (slots (hdata heap)) minb;
               j2 \<leftarrow> C_int (2 * i + 2);
               minj \<leftarrow> (case array_get (hdata heap) j2 of
                         None \<Rightarrow> Some minb
                       | Some b \<Rightarrow>
                           do { y \<leftarrow> peek (slots (hdata heap)) b;
                                Some (if hcmp heap x y > 0 then b else minb) });
               a \<leftarrow> peek (slots (hdata heap)) i;
               m \<leftarrow> peek (slots (hdata heap)) minj;
               if hcmp heap a m > 0 then
                 do { heap' \<leftarrow> swap_slots heap i minj;
                      (_, heap'') \<leftarrow> siftdown heap' minj;
                      Some (1, heap'') }
               else Some (0, heap) } }"
  by pat_completeness auto
termination
  by (relation "measure (\<lambda>(heap, i). elnum (hdata heap) - i)")
     (auto simp: array_get_def dest!: swap_slots_elnum split: if_splits option.splits
       simp: bind_eq_Some_conv)

declare siftdown.simps [simp del]

fun sift_each :: "('e, 'w) mnheap \<Rightarrow> nat list \<Rightarrow> ('e, 'w) mnheap option" where
  "sift_each heap [] = Some heap"
| "sift_each heap (i # is) = do { (_, heap') \<leftarrow> siftdown heap i; sift_each heap' is }"

definition heap_sort ::
  "(('e \<Rightarrow> 'e \<Rightarrow> int) \<Rightarrow> 'e list \<Rightarrow> 'e list) \<Rightarrow> ('e, 'w) mnheap \<Rightarrow> ('e, 'w) mnheap" where
  "heap_sort qs heap = heap\<lparr>hdata := snd (array_sort qs (hdata heap) (hcmp heap))\<rparr>"

definition heap_sort_custom ::
  "(('e \<Rightarrow> 'e \<Rightarrow> int) \<Rightarrow> 'e list \<Rightarrow> 'e list) \<Rightarrow> ('e, 'w) mnheap \<Rightarrow> ('e \<Rightarrow> 'e \<Rightarrow> int) \<Rightarrow> ('e, 'w) mnheap" where
  "heap_sort_custom qs heap cmp = heap\<lparr>hdata := snd (array_sort qs (hdata heap) cmp)\<rparr>"

text \<open>
  \<^verbatim>\<open>for (; i >= 0; --i)\<close> from an \<^verbatim>\<open>int\<close> on: no index at all if it is negative.
\<close>

definition down_from :: "int \<Rightarrow> nat list" where
  "down_from i = rev [0..<nat (i + 1)]"

lemma down_from_nat: "down_from (int k) = rev [0..<Suc k]"
  by (simp add: down_from_def nat_add_distrib del: upt_Suc)

text \<open>\<^verbatim>\<open>(int)elnum / 2 - 1\<close>, with the division of C, which rounds towards zero.\<close>

definition heap_ify :: "('e, 'w) mnheap \<Rightarrow> ('e, 'w) mnheap option" where
  "heap_ify heap =
     (let n = S32 (int (elnum (hdata heap)))
      in sift_each heap (down_from ((if n < 0 then - (- n div 2) else n div 2) - 1)))"

text \<open>
  The search: \<open>get_child\<close> is one round of its loop, with the pointer it leaves in \<^verbatim>\<open>b\<close> and
  whether it breaks; the last test after the loop drops a pointer that is not a match.
\<close>

function heap_get_at :: "('e, 'w) mnheap \<Rightarrow> nat \<Rightarrow> 'e \<Rightarrow> nat option option" where
  "heap_get_at heap i a =
     do { j1 \<leftarrow> C_int (i * 2 + 1);
          (b1, brk) \<leftarrow>
            (case array_get (hdata heap) j1 of
               None \<Rightarrow> Some (None, False)
             | Some p \<Rightarrow>
                 do { y \<leftarrow> peek (slots (hdata heap)) p;
                      if hcmp heap a y = 0 then Some (Some p, True)
                      else if hcmp heap a y > 0 then
                        do { r \<leftarrow> heap_get_at heap j1 a; Some (r, r \<noteq> None) }
                      else Some (Some p, False) });
          b \<leftarrow>
            (if brk then Some b1
             else
               do { j2 \<leftarrow> C_int (i * 2 + 2);
                    case array_get (hdata heap) j2 of
                      None \<Rightarrow> Some None
                    | Some p \<Rightarrow>
                        do { y \<leftarrow> peek (slots (hdata heap)) p;
                             if hcmp heap a y > 0 then heap_get_at heap j2 a
                             else Some (Some p) } });
          case b of
            None \<Rightarrow> Some None
          | Some p \<Rightarrow>
              do { y \<leftarrow> peek (slots (hdata heap)) p;
                   Some (if hcmp heap a y \<noteq> 0 then None else Some p) } }"
  by pat_completeness auto
termination
  by (relation "measure (\<lambda>(heap, i, a). elnum (hdata heap) - i)")
     (auto simp: array_get_def split: if_splits)

declare heap_get_at.simps [simp del]

definition heap_get :: "('e, 'w) mnheap \<Rightarrow> 'e \<Rightarrow> (int \<times> 'e option) option" where
  "heap_get heap a =
     (case array_get (hdata heap) 0 of
        None \<Rightarrow> Some (-1, None)
      | Some b \<Rightarrow>
          do { y \<leftarrow> peek (slots (hdata heap)) b;
               if hcmp heap a y = 0 then Some (0, Some y)
               else if hcmp heap a y < 0 then Some (-1, None)
               else do { r \<leftarrow> heap_get_at heap 0 a;
                         case r of
                           None \<Rightarrow> Some (-1, None)
                         | Some p \<Rightarrow> do { z \<leftarrow> peek (slots (hdata heap)) p; Some (0, Some z) } } })"

definition heap_head :: "('e, 'w) mnheap \<Rightarrow> nat option" where
  "heap_head heap = array_get (hdata heap) 0"

definition heap_data :: "('e, 'w) mnheap \<Rightarrow> ('e, 'w) mnarray" where
  "heap_data heap = hdata heap"

definition heap_push :: "('e, 'w) mnheap \<Rightarrow> 'e \<Rightarrow> 'e alloc \<Rightarrow> 'w \<Rightarrow> (('e, 'w) mnheap \<times> 'w) option" where
  "heap_push heap v malloc w =
     do { (pv, ar, w') \<leftarrow> array_incr (hdata heap) malloc w;
          heap1 \<leftarrow> store_slot (heap\<lparr>hdata := ar\<rparr>) pv v;
          heap2 \<leftarrow> (if elnum (hdata heap1) > 1
                   then sift_each heap1 (down_from (S32 (int (HEAP_PARENT (elnum (hdata heap1) - 1)))))
                   else Some heap1);
          Some (heap2, w') }"

definition heap_pop :: "('e, 'w) mnheap \<Rightarrow> 'w \<Rightarrow> (int \<times> 'e option \<times> ('e, 'w) mnheap \<times> 'w) option" where
  "heap_pop heap w =
     (case array_get (hdata heap) 0 of
        None \<Rightarrow> Some (-1, None, heap, w)
      | Some pv \<Rightarrow>
          do { rv \<leftarrow> peek (slots (hdata heap)) pv;
               let lv = array_get (hdata heap) (U32 (elnum (hdata heap) - 1));
               if lv \<noteq> Some pv then
                 do { l \<leftarrow> lv;
                      heap1 \<leftarrow> swap_slots heap pv l;
                      (_, ar, w') \<leftarrow> array_decr_fast (hdata heap1) w;
                      (_, heap2) \<leftarrow> siftdown (heap1\<lparr>hdata := ar\<rparr>) 0;
                      Some (0, Some rv, heap2, w') }
               else
                 do { (_, ar, w') \<leftarrow> array_decr_fast (hdata heap) w;
                      Some (0, Some rv, heap\<lparr>hdata := ar\<rparr>, w') } })"

text \<open>\<open>v\<close> is the pointer passed in \<^verbatim>\<open>*rv\<close>; the second component is \<^verbatim>\<open>*rv\<close> on return.\<close>

definition heap_pushpop ::
  "('e, 'w) mnheap \<Rightarrow> 'e \<Rightarrow> 'e alloc \<Rightarrow> 'w \<Rightarrow> (int \<times> 'e \<times> ('e, 'w) mnheap \<times> 'w) option" where
  "heap_pushpop heap v malloc w =
     (case array_get (hdata heap) 0 of
        None \<Rightarrow> do { (heap1, w') \<leftarrow> heap_push heap v malloc w; Some (-1, v, heap1, w') }
      | Some pv \<Rightarrow>
          do { rv \<leftarrow> peek (slots (hdata heap)) pv;
               let lv = array_get (hdata heap) (U32 (elnum (hdata heap) - 1));
               if lv \<noteq> Some pv then
                 do { l \<leftarrow> lv;
                      heap1 \<leftarrow> swap_slots heap pv l;
                      heap2 \<leftarrow> store_slot heap1 lv v;
                      heap3 \<leftarrow> sift_each heap2 (down_from (S32 (int (HEAP_PARENT (elnum (hdata heap2) - 1)))));
                      Some (0, rv, heap3, w) }
               else
                 do { heap1 \<leftarrow> store_slot heap lv v;
                      Some (0, rv, heap1, w) } })"

subsection \<open>Traversals, creation, release\<close>

text \<open>A traverser is handed an element's address or NULL.\<close>

fun visit_until :: "(nat option \<Rightarrow> 'w \<Rightarrow> int \<times> 'w) \<Rightarrow> nat option list \<Rightarrow> 'w \<Rightarrow> int \<times> 'w" where
  "visit_until cb [] w = (0, w)"
| "visit_until cb (p # ps) w = (case cb p w of (r, w') \<Rightarrow> if r \<noteq> 0 then (r, w') else visit_until cb ps w')"

definition heap_addresses :: "('e, 'w) mnheap \<Rightarrow> nat option list" where
  "heap_addresses heap =
     array_get (hdata heap) 0 #
     concat (map (\<lambda>i. [array_get (hdata heap) (2 * i + 1), array_get (hdata heap) (2 * i + 2)])
               [0..<elnum (hdata heap)])"

definition heap_traverse ::
  "('e, 'w) mnheap \<Rightarrow> (('e, 'w) mnheap \<Rightarrow> nat option \<Rightarrow> 'v \<Rightarrow> int \<times> 'v) \<Rightarrow> 'v \<Rightarrow> int \<times> 'v" where
  "heap_traverse heap cb udata = visit_until (cb heap) (heap_addresses heap) udata"

definition heap_traversea ::
  "('e, 'w) mnheap \<Rightarrow> (nat option \<Rightarrow> 'v \<Rightarrow> int \<times> 'v) \<Rightarrow> 'v \<Rightarrow> int \<times> 'v" where
  "heap_traversea heap cb udata = visit_until cb (heap_addresses heap) udata"

definition heap_traverse_seq ::
  "('e, 'w) mnheap \<Rightarrow> (('e, 'w) mnheap \<Rightarrow> ('e, 'w) cb) \<Rightarrow> 'w
     \<Rightarrow> (int \<times> ('e, 'w) mnarray \<times> 'w) option" where
  "heap_traverse_seq heap cb udata = array_traverse (hdata heap) (cb heap) udata"

definition heap_traversea_seq ::
  "('e, 'w) mnheap \<Rightarrow> ('e, 'w) cb \<Rightarrow> 'w \<Rightarrow> (int \<times> ('e, 'w) mnarray \<times> 'w) option" where
  "heap_traversea_seq heap cb udata = array_traverse (hdata heap) cb udata"

definition heap_len :: "('e, 'w) mnheap \<Rightarrow> nat" where
  "heap_len heap = elnum (hdata heap)"

definition heap_init ::
  "nat \<Rightarrow> nat \<Rightarrow> ('e, 'w) cb option \<Rightarrow> ('e, 'w) cb option \<Rightarrow> ('e \<Rightarrow> 'e \<Rightarrow> int) \<Rightarrow> ('e \<Rightarrow> 'e \<Rightarrow> 'e \<times> 'e)
     \<Rightarrow> 'e alloc \<Rightarrow> 'w \<Rightarrow> (('e, 'w) mnheap \<times> 'w) option" where
  "heap_init esz n ini fin cmp swap malloc w =
     do { (_, ar, w') \<leftarrow> array_init esz 0 ini fin malloc w;
          ar' \<leftarrow> array_ensure_datasz_dirty ar n False malloc;
          Some (\<lparr>hdata = ar', hcmp = cmp, hswap = swap\<rparr>, w') }"

text \<open>The two callbacks become NULL: the heap is left without them.\<close>

definition heap_fini :: "('e, 'w) mnheap \<Rightarrow> 'w \<Rightarrow> (('e, 'w) mnarray \<times> 'w) option" where
  "heap_fini heap w = do { (_, ar, w') \<leftarrow> array_fini (hdata heap) w; Some (ar, w') }"

definition heap_cleanup :: "('e, 'w) mnheap \<Rightarrow> 'w \<Rightarrow> (('e, 'w) mnheap \<times> 'w) option" where
  "heap_cleanup heap w =
     do { (_, ar, w') \<leftarrow> array_clear (hdata heap) w; Some (heap\<lparr>hdata := ar\<rparr>, w') }"

definition heap_pointer_swap :: "'p \<Rightarrow> 'p \<Rightarrow> 'p \<times> 'p" where
  "heap_pointer_swap a b = (b, a)"

definition heap_pointer_null :: "('p option, 'w) cb" where
  "heap_pointer_null a w = (0, None, w)"

subsection \<open>Sifting on a plain list\<close>

function sift :: "('e \<Rightarrow> 'e \<Rightarrow> int) \<Rightarrow> nat \<Rightarrow> 'e list \<Rightarrow> nat \<Rightarrow> 'e list" where
  "sift cmp n xs i =
     (if 2 * i + 1 < n then
        let m = (if 2 * i + 2 < n \<and> cmp (xs ! (2 * i + 1)) (xs ! (2 * i + 2)) > 0
                 then 2 * i + 2 else 2 * i + 1)
        in if cmp (xs ! i) (xs ! m) > 0 then sift cmp n (xs[i := xs ! m, m := xs ! i]) m else xs
      else xs)"
  by pat_completeness auto
termination
  by (relation "measure (\<lambda>(cmp, n, xs, i). n - i)") (auto split: if_splits)

declare sift.simps [simp del]

definition heap_wf :: "('e, 'w) mnheap \<Rightarrow> bool" where
  "heap_wf heap \<longleftrightarrow> array_wf (hdata heap) \<and> hswap heap = heap_pointer_swap"

definition set_block :: "('e, 'w) mnheap \<Rightarrow> 'e list \<Rightarrow> ('e, 'w) mnheap" where
  "set_block heap xs = heap\<lparr>hdata := (hdata heap)\<lparr>data := Some xs\<rparr>\<rparr>"

definition heap_block :: "('e, 'w) mnheap \<Rightarrow> 'e list" where
  "heap_block heap = slots (hdata heap)"

lemma set_block_simps [simp]:
  "hcmp (set_block heap xs) = hcmp heap" "hswap (set_block heap xs) = hswap heap"
  "elnum (hdata (set_block heap xs)) = elnum (hdata heap)"
  "fini (hdata (set_block heap xs)) = fini (hdata heap)"
  "elsz (hdata (set_block heap xs)) = elsz (hdata heap)"
  "heap_block (set_block heap xs) = xs" "slots (hdata (set_block heap xs)) = xs"
  "set_block (set_block heap xs) ys = set_block heap ys"
  by (simp_all add: set_block_def heap_block_def)

lemma set_block_id: "data (hdata heap) \<noteq> None \<Longrightarrow> set_block heap (heap_block heap) = heap"
  by (auto simp: set_block_def heap_block_def)

lemma array_get_Some: "array_get ar i = Some p \<longleftrightarrow> i < elnum ar \<and> p = i"
  by (auto simp: array_get_def)

lemma array_get_None: "array_get ar i = None \<longleftrightarrow> elnum ar \<le> i"
  by (auto simp: array_get_def)

text \<open>The pointer version computes the list version.\<close>

lemma siftdown_sift:
  "elnum (hdata heap) \<le> length (heap_block heap) \<Longrightarrow> hswap heap = heap_pointer_swap \<Longrightarrow>
     data (hdata heap) \<noteq> None \<Longrightarrow> elnum (hdata heap) \<le> 2 ^ 30 \<Longrightarrow> i < 2 ^ 30 \<Longrightarrow>
     \<exists>r. siftdown heap i =
       Some (r, set_block heap (sift (hcmp heap) (elnum (hdata heap)) (heap_block heap) i))"
proof (induction "elnum (hdata heap) - i" arbitrary: heap i rule: less_induct)
  case less
  let ?n = "elnum (hdata heap)" and ?xs = "heap_block heap" and ?c = "hcmp heap"
  have xs: "slots (hdata heap) = ?xs" by (simp add: heap_block_def)
  show ?case
  proof (cases "2 * i + 1 < ?n")
    case False
    then show ?thesis
      using less.prems
      by (simp add: siftdown.simps [of heap i] sift.simps array_get_def set_block_id mult.commute)
  next
    case lt: True
    define m where "m = (if 2 * i + 2 < ?n \<and> ?c (?xs ! (2 * i + 1)) (?xs ! (2 * i + 2)) > 0
                 then 2 * i + 2 else 2 * i + 1)"
    have m: "m < ?n" "i < m" using lt by (auto simp: m_def)
    let ?h = "set_block heap (?xs[i := ?xs ! m, m := ?xs ! i])"
    have sw: "swap_slots heap i m = Some ?h"
      using less.prems lt m by (simp add: swap_slots_def xs heap_pointer_swap_def set_block_def)
    have step: "siftdown heap i =
      (if ?c (?xs ! i) (?xs ! m) > 0 then do { (_, h) \<leftarrow> siftdown ?h m; Some (1, h) } else Some (0, heap))"
    proof (cases "2 * i + 2 < ?n \<and> ?c (?xs ! (2 * i + 1)) (?xs ! (2 * i + 2)) > 0")
      case True
      then have me: "m = Suc (Suc (i * 2))" by (simp add: m_def)
      show ?thesis
        using less.prems lt True sw unfolding me
        by (simp add: siftdown.simps [of heap i] array_get_def xs mult.commute)
    next
      case False
      then have me: "m = Suc (i * 2)" by (simp add: m_def)
      show ?thesis
        using less.prems lt False sw unfolding me
        by (auto simp: siftdown.simps [of heap i] array_get_def xs mult.commute)
    qed
    have sift: "sift ?c ?n ?xs i =
      (if ?c (?xs ! i) (?xs ! m) > 0 then sift ?c ?n (?xs[i := ?xs ! m, m := ?xs ! i]) m else ?xs)"
      using lt by (subst sift.simps) (simp add: m_def Let_def)
    show ?thesis
    proof (cases "?c (?xs ! i) (?xs ! m) > 0")
      case False
      with step sift less.prems show ?thesis by (simp add: set_block_id)
    next
      case True
      have "\<exists>r. siftdown ?h m = Some (r, set_block ?h (sift (hcmp ?h) (elnum (hdata ?h)) (heap_block ?h) m))"
        by (rule less.hyps) (use less.prems m in \<open>auto simp: set_block_def heap_block_def\<close>)
      with step sift True show ?thesis by auto
    qed
  qed
qed

subsection \<open>The order\<close>

definition heap_from :: "('e \<Rightarrow> 'e \<Rightarrow> int) \<Rightarrow> nat \<Rightarrow> nat \<Rightarrow> 'e list \<Rightarrow> bool" where
  "heap_from cmp k n xs \<longleftrightarrow>
     (\<forall>j < n. 0 < j \<longrightarrow> k \<le> HEAP_PARENT j \<longrightarrow> cmp (xs ! HEAP_PARENT j) (xs ! j) \<le> 0)"

text \<open>The heap but for the children of \<open>i\<close>, which are still above the parent of \<open>i\<close>.\<close>

definition heap_but :: "('e \<Rightarrow> 'e \<Rightarrow> int) \<Rightarrow> nat \<Rightarrow> nat \<Rightarrow> 'e list \<Rightarrow> nat \<Rightarrow> bool" where
  "heap_but cmp k n xs i \<longleftrightarrow>
     (\<forall>j < n. 0 < j \<longrightarrow> k \<le> HEAP_PARENT j \<longrightarrow> HEAP_PARENT j \<noteq> i \<longrightarrow>
        cmp (xs ! HEAP_PARENT j) (xs ! j) \<le> 0) \<and>
     (\<forall>j < n. 0 < j \<longrightarrow> HEAP_PARENT j = i \<longrightarrow> 0 < i \<longrightarrow> k \<le> HEAP_PARENT i \<longrightarrow>
        cmp (xs ! HEAP_PARENT i) (xs ! j) \<le> 0)"

lemma parent_child: "0 < j \<Longrightarrow> HEAP_PARENT j = i \<longleftrightarrow> j = 2 * i + 1 \<or> j = 2 * i + 2"
  by (auto simp: HEAP_PARENT_def)

lemma parent_less: "0 < j \<Longrightarrow> HEAP_PARENT j < j"
  by (simp add: HEAP_PARENT_def)

lemma sift_mset:
  "n \<le> length xs \<Longrightarrow> mset (sift cmp n xs i) = mset xs \<and> length (sift cmp n xs i) = length xs \<and>
     drop n (sift cmp n xs i) = drop n xs"
proof (induction cmp n xs i rule: sift.induct)
  case (1 cmp n xs i)
  define m where "m = (if 2 * i + 2 < n \<and> cmp (xs ! (2 * i + 1)) (xs ! (2 * i + 2)) > 0
                 then 2 * i + 2 else 2 * i + 1)"
  let ?ys = "xs[i := xs ! m, m := xs ! i]"
  show ?case
  proof (cases "2 * i + 1 < n \<and> cmp (xs ! i) (xs ! m) > 0")
    case True
    then have m: "m < n" "i < n" by (auto simp: m_def)
    have "sift cmp n xs i = sift cmp n ?ys m"
      using True by (subst sift.simps) (simp add: m_def Let_def)
    moreover have "mset (sift cmp n ?ys m) = mset ?ys \<and> length (sift cmp n ?ys m) = length ?ys \<and>
        drop n (sift cmp n ?ys m) = drop n ?ys"
      using "1.IH" [OF _ m_def] True "1.prems" by simp
    moreover have "mset ?ys = mset xs"
      using mset_swap [of m xs i] m "1.prems" by simp
    ultimately show ?thesis using m by (simp add: drop_update_cancel)
  next
    case False
    then have "sift cmp n xs i = xs" by (subst sift.simps) (auto simp: m_def Let_def)
    then show ?thesis by simp
  qed
qed

lemma sift_take_mset:
  assumes "n \<le> length xs"
  shows "mset (take n (sift cmp n xs i)) = mset (take n xs)"
proof -
  have "mset (take n (sift cmp n xs i)) + mset (drop n (sift cmp n xs i)) = mset (take n xs) + mset (drop n xs)"
    using sift_mset [OF assms, of cmp i] by (metis append_take_drop_id mset_append)
  then show ?thesis using sift_mset [OF assms, of cmp i] by simp
qed

context comparator
begin

lemma sift_heap:
  "n \<le> length xs \<Longrightarrow> k \<le> i \<Longrightarrow> heap_but cmp k n xs i \<Longrightarrow> heap_from cmp k n (sift cmp n xs i)"
proof (induction "n - i" arbitrary: xs i rule: less_induct)
  case less
  note but = less.prems(3) [unfolded heap_but_def]
  define m where "m = (if 2 * i + 2 < n \<and> cmp (xs ! (2 * i + 1)) (xs ! (2 * i + 2)) > 0
                 then 2 * i + 2 else 2 * i + 1)"
  let ?ys = "xs[i := xs ! m, m := xs ! i]"
  have min: "cmp (xs ! m) (xs ! j) \<le> 0" if "j < n" "0 < j" "HEAP_PARENT j = i" for j
    using that cmp_refl [of "xs ! m"] cmp_pos [of "xs ! (2 * i + 1)" "xs ! (2 * i + 2)"]
    by (auto simp: m_def parent_child not_less split: if_splits)
  show ?case
  proof (cases "2 * i + 1 < n \<and> cmp (xs ! i) (xs ! m) > 0")
    case True
    then have m: "m < n" "i < n" "i < m" "HEAP_PARENT m = i" by (auto simp: m_def HEAP_PARENT_def)
    have eq: "sift cmp n xs i = sift cmp n ?ys m"
      using True by (subst sift.simps) (simp add: m_def Let_def)
    have at: "?ys ! j = (if j = i then xs ! m else if j = m then xs ! i else xs ! j)" if "j < n" for j
      using that less.prems m by (auto simp: nth_list_update)
    have 1: "cmp (?ys ! HEAP_PARENT j) (?ys ! j) \<le> 0"
      if j: "j < n" "0 < j" "k \<le> HEAP_PARENT j" "HEAP_PARENT j \<noteq> m" for j
    proof -
      have p: "HEAP_PARENT j < n" using parent_less [OF j(2)] j(1) by simp
      consider "j = i" | "HEAP_PARENT j = i" "j = m" | "HEAP_PARENT j = i" "j \<noteq> m" "j \<noteq> i"
        | "HEAP_PARENT j \<noteq> i" "j \<noteq> m" "j \<noteq> i"
        using m by auto
      then show ?thesis
      proof cases
        case 1
        then show ?thesis
          using but m j parent_less [of i] less.prems(1) by (simp add: at [OF p] at [OF j(1)])
      next
        case 2
        then show ?thesis using True cmp_pos [of "xs ! i" "xs ! m"] m less.prems(1) by (simp add: at [OF p] at [OF j(1)] order.strict_implies_order)
      next
        case 3
        then show ?thesis using min j m less.prems(1) by (simp add: at [OF p] at [OF j(1)])
      next
        case 4
        then show ?thesis using but j m less.prems(1) by (simp add: at [OF p] at [OF j(1)])
      qed
    qed
    have 2: "cmp (?ys ! HEAP_PARENT m) (?ys ! j) \<le> 0" if j: "j < n" "0 < j" "HEAP_PARENT j = m" for j
    proof -
      have "m < j" using parent_less j by blast
      then show ?thesis
        using but [THEN conjunct1, rule_format, OF j(1,2)] j m less.prems(2) by (simp add: at [OF j(1)] at [OF m(2)])
    qed
    have "heap_but cmp k n ?ys m" unfolding heap_but_def using 1 2 by blast
    then have "heap_from cmp k n (sift cmp n ?ys m)"
      using less.hyps [of m ?ys] less.prems m by simp
    then show ?thesis by (simp add: eq)
  next
    case False
    then have eq: "sift cmp n xs i = xs" by (subst sift.simps) (auto simp: m_def Let_def)
    have "cmp (xs ! i) (xs ! j) \<le> 0" if "j < n" "0 < j" "HEAP_PARENT j = i" for j
    proof -
      have "2 * i + 1 < n" using that by (auto simp: parent_child)
      then have "cmp (xs ! i) (xs ! m) \<le> 0" using False by simp
      then show ?thesis using min [OF that] cmp_trans by blast
    qed
    then show ?thesis unfolding eq heap_from_def using but by metis
  qed
qed

lemma heap_from_but: "heap_from cmp (Suc i) n xs \<Longrightarrow> heap_but cmp i n xs i"
  unfolding heap_from_def heap_but_def
  by (metis Suc_leI le_neq_implies_less nless_le not_less parent_less)

lemma heap_from_beyond: "n \<le> 2 * k + 1 \<Longrightarrow> heap_from cmp k n xs"
  unfolding heap_from_def HEAP_PARENT_def by auto

end

text \<open>The loop of siftdowns from \<open>m - 1\<close> to 0.\<close>

fun sift_list :: "('e \<Rightarrow> 'e \<Rightarrow> int) \<Rightarrow> nat \<Rightarrow> 'e list \<Rightarrow> nat \<Rightarrow> 'e list" where
  "sift_list cmp n xs 0 = xs"
| "sift_list cmp n xs (Suc m) = sift_list cmp n (sift cmp n xs m) m"

lemma sift_list_mset:
  "n \<le> length xs \<Longrightarrow> length (sift_list cmp n xs m) = length xs \<and>
     mset (take n (sift_list cmp n xs m)) = mset (take n xs)"
  by (induction m arbitrary: xs) (auto simp: sift_mset sift_take_mset)

context comparator
begin

lemma sift_list_heap:
  "n \<le> length xs \<Longrightarrow> heap_from cmp m n xs \<Longrightarrow> heap_from cmp 0 n (sift_list cmp n xs m)"
proof (induction m arbitrary: xs)
  case (Suc m)
  then have "heap_from cmp m n (sift cmp n xs m)"
    by (intro sift_heap heap_from_but) auto
  with Suc show ?case by (simp add: sift_mset)
qed simp

lemma heap_root_min:
  assumes h: "heap_from cmp 0 n xs"
  shows "j < n \<Longrightarrow> cmp (xs ! 0) (xs ! j) \<le> 0"
proof (induction j rule: less_induct)
  case (less j)
  show ?case
  proof (cases "j = 0")
    case False
    then have p: "HEAP_PARENT j < j" by (simp add: parent_less)
    with less have "cmp (xs ! 0) (xs ! HEAP_PARENT j) \<le> 0" by simp
    moreover have "cmp (xs ! HEAP_PARENT j) (xs ! j) \<le> 0"
      using h less.prems False by (simp add: heap_from_def)
    ultimately show ?thesis by (rule cmp_trans)
  qed (simp add: cmp_refl)
qed

end

lemma heap_from_cong:
  assumes "\<forall>j < n. xs ! j = ys ! j"
  shows "heap_from cmp k n xs \<longleftrightarrow> heap_from cmp k n ys"
proof -
  have "xs ! HEAP_PARENT j = ys ! HEAP_PARENT j" if "j < n" "0 < j" for j
    using assms parent_less [OF that(2)] that by auto
  with assms show ?thesis by (auto simp: heap_from_def)
qed

lemma heap_from_mono: "heap_from cmp k n xs \<Longrightarrow> n' \<le> n \<Longrightarrow> heap_from cmp k n' xs"
  by (auto simp: heap_from_def)

subsection \<open>The heap's contents and order\<close>

definition heap_items :: "('e, 'w) mnheap \<Rightarrow> 'e list" where
  "heap_items heap = array_items (hdata heap)"

definition heap_ok :: "('e, 'w) mnheap \<Rightarrow> bool" where
  "heap_ok heap \<longleftrightarrow> heap_from (hcmp heap) 0 (elnum (hdata heap)) (heap_items heap)"

lemma heap_items_block: "heap_items heap = take (elnum (hdata heap)) (heap_block heap)"
  by (simp add: heap_items_def array_items_def heap_block_def)

lemma heap_ok_block: "heap_ok heap \<longleftrightarrow> heap_from (hcmp heap) 0 (elnum (hdata heap)) (heap_block heap)"
  unfolding heap_ok_def heap_items_block by (rule heap_from_cong) simp

lemma heap_wf_block:
  "heap_wf heap \<Longrightarrow> elnum (hdata heap) \<le> length (heap_block heap)"
  by (simp add: heap_wf_def heap_block_def wf_slots(2))

lemma heap_wf_set_block:
  "heap_wf heap \<Longrightarrow> data (hdata heap) \<noteq> None \<Longrightarrow> length xs = length (heap_block heap) \<Longrightarrow> heap_wf (set_block heap xs)"
  by (auto simp: heap_wf_def set_block_def heap_block_def array_wf_def)

text \<open>The frame: what every operation leaves as it is.\<close>

definition heap_same :: "('e, 'w) mnheap \<Rightarrow> ('e, 'w) mnheap \<Rightarrow> bool" where
  "heap_same h h' \<longleftrightarrow> hcmp h' = hcmp h \<and> elsz (hdata h') = elsz (hdata h) \<and> fini (hdata h') = fini (hdata h)"

lemma sift_each_list:
  "elnum (hdata heap) \<le> length (heap_block heap) \<Longrightarrow> hswap heap = heap_pointer_swap \<Longrightarrow>
     data (hdata heap) \<noteq> None \<Longrightarrow> elnum (hdata heap) \<le> 2 ^ 30 \<Longrightarrow> m \<le> 2 ^ 30 \<Longrightarrow>
     sift_each heap (rev [0..<m]) =
       Some (set_block heap (sift_list (hcmp heap) (elnum (hdata heap)) (heap_block heap) m))"
proof (induction m arbitrary: heap)
  case 0
  then show ?case by (simp add: set_block_id)
next
  case (Suc m)
  let ?h = "set_block heap (sift (hcmp heap) (elnum (hdata heap)) (heap_block heap) m)"
  obtain r where "siftdown heap m = Some (r, ?h)"
    using siftdown_sift [OF Suc.prems(1-4), of m] Suc.prems(5) by auto
  moreover have "sift_each ?h (rev [0..<m]) =
       Some (set_block ?h (sift_list (hcmp ?h) (elnum (hdata ?h)) (heap_block ?h) m))"
    using Suc.prems by (intro Suc.IH) (auto simp: sift_mset, simp add: set_block_def)
  ultimately show ?case by simp
qed

lemma heapify_spec:
  assumes wf: "heap_wf heap" and d: "data (hdata heap) \<noteq> None" and cmp: "comparator (hcmp heap)"
    and m: "elnum (hdata heap) \<le> 2 * m + 1" and small: "elnum (hdata heap) \<le> 2 ^ 30" "m \<le> 2 ^ 30"
  shows "\<exists>heap'. sift_each heap (rev [0..<m]) = Some heap' \<and> heap_wf heap' \<and> heap_ok heap' \<and>
           heap_same heap heap' \<and> elnum (hdata heap') = elnum (hdata heap) \<and>
           mset (heap_items heap') = mset (heap_items heap)"
proof -
  note heap_from_beyond = comparator.heap_from_beyond [OF cmp]
    and sift_list_heap = comparator.sift_list_heap [OF cmp]
  let ?n = "elnum (hdata heap)" and ?b = "heap_block heap"
  let ?ys = "sift_list (hcmp heap) ?n ?b m"
  have le: "?n \<le> length ?b" by (rule heap_wf_block [OF wf])
  have "sift_each heap (rev [0..<m]) = Some (set_block heap ?ys)"
    using sift_each_list [OF le _ d small] wf by (simp add: heap_wf_def)
  moreover have "heap_wf (set_block heap ?ys)"
    using sift_list_mset [OF le] by (intro heap_wf_set_block wf d) simp
  moreover have "heap_from (hcmp heap) 0 ?n ?ys"
    using le m by (intro sift_list_heap heap_from_beyond)
  ultimately show ?thesis
    using sift_list_mset [OF le] by (simp add: heap_ok_block heap_items_block heap_same_def)
qed

subsection \<open>The operations\<close>

lemma heap_but_root:
  assumes "heap_from cmp 0 n xs" "\<forall>j < n'. 0 < j \<longrightarrow> ys ! j = xs ! j" "n' \<le> n"
  shows "heap_but cmp 0 n' ys 0"
proof -
  have "cmp (ys ! HEAP_PARENT j) (ys ! j) \<le> 0" if "j < n'" "0 < j" "HEAP_PARENT j \<noteq> 0" for j
    using assms that parent_less [OF that(2)] by (simp add: heap_from_def)
  then show ?thesis by (simp add: heap_but_def)
qed

lemma heap_items_Nil: "heap_wf heap \<Longrightarrow> heap_items heap = [] \<longleftrightarrow> elnum (hdata heap) = 0"
  using length_array_items [of "hdata heap"] by (auto simp: heap_wf_def heap_items_def)

lemma heap_items_head: "heap_wf heap \<Longrightarrow> 0 < elnum (hdata heap) \<Longrightarrow> hd (heap_items heap) = heap_block heap ! 0"
  using heap_wf_block [of heap] by (cases "heap_block heap") (auto simp: heap_items_block take_Cons')

lemma heap_hd_min:
  assumes "heap_wf heap" "heap_ok heap" "comparator (hcmp heap)" "x \<in> set (heap_items heap)"
  shows "hcmp heap (hd (heap_items heap)) x \<le> 0"
proof -
  note heap_root_min = comparator.heap_root_min [OF assms(3)]
  obtain j where "j < elnum (hdata heap)" "x = heap_items heap ! j"
    using assms(1,4) by (auto simp: in_set_conv_nth heap_items_def heap_wf_def length_array_items)
  moreover have "heap_items heap \<noteq> []" using assms(4) by auto
  ultimately show ?thesis
    using heap_root_min [of "elnum (hdata heap)" "heap_items heap" j] assms(2)
    by (simp add: heap_ok_def hd_conv_nth)
qed

text \<open>The finalizer's effect on the client when a popped slot is given up.\<close>

definition fini_world :: "('e, 'w) mnheap \<Rightarrow> 'e \<Rightarrow> 'w \<Rightarrow> 'w" where
  "fini_world heap e w = (case fini (hdata heap) of None \<Rightarrow> w | Some f \<Rightarrow> cb_world f e w)"

lemma drop_last_slot:
  assumes wf: "heap_wf heap" and n: "0 < elnum (hdata heap)"
  shows "\<exists>ar. array_decr_fast (hdata heap) w = Some (rc_ok, ar, fini_world heap (last (heap_items heap)) w) \<and>
           heap_wf (heap\<lparr>hdata := ar\<rparr>) \<and> heap_same heap (heap\<lparr>hdata := ar\<rparr>) \<and>
           elnum ar = elnum (hdata heap) - 1 \<and> array_items ar = butlast (heap_items heap)"
  using array_decr_fast_spec [of "hdata heap" w] assms
  by (auto simp: heap_wf_def heap_same_def heap_items_def fini_world_def)

lemma heap_pop_many:
  assumes wf: "heap_wf heap" and ok: "heap_ok heap" and cmp: "comparator (hcmp heap)"
    and n: "1 < elnum (hdata heap)" "elnum (hdata heap) \<le> 2 ^ 30"
  shows "\<exists>heap'. heap_pop heap w =
           Some (0, Some (hd (heap_items heap)), heap', fini_world heap (hd (heap_items heap)) w) \<and>
           heap_wf heap' \<and> heap_ok heap' \<and> heap_same heap heap' \<and>
           mset (heap_items heap) = add_mset (hd (heap_items heap)) (mset (heap_items heap'))"
proof -
  note sift_heap = comparator.sift_heap [OF cmp]
  let ?n = "elnum (hdata heap)" and ?b = "heap_block heap"
  let ?c = "?b[0 := ?b ! (?n - 1), ?n - 1 := ?b ! 0]"
  let ?h1 = "set_block heap ?c"
  have le: "?n \<le> length ?b" by (rule heap_wf_block [OF wf])
  have b0: "0 < length ?b" using le n by linarith
  have hd: "hd (heap_items heap) = ?b ! 0" by (rule heap_items_head [OF wf]) (use n in simp)
  have d: "data (hdata heap) \<noteq> None"
    using wf n by (auto simp: heap_wf_def array_wf_def split: option.splits)
  have wf1: "heap_wf ?h1" by (rule heap_wf_set_block [OF wf d]) simp
  have items1: "heap_items ?h1 = take (?n - 1) ?c @ [?b ! 0]"
    using le n take_Suc_conv_app_nth [of "?n - 1" ?c] by (simp add: heap_items_block)
  have last1: "last (heap_items ?h1) = ?b ! 0" and butlast1: "butlast (heap_items ?h1) = take (?n - 1) ?c"
    unfolding items1 by simp_all
  have mset1: "mset (heap_items ?h1) = mset (heap_items heap)"
    using mset_swap [of "?n - 1" "take ?n ?b" 0] le n
    by (simp add: heap_items_block take_update_swap)
  obtain ar where dec: "array_decr_fast (hdata ?h1) w = Some (rc_ok, ar, fini_world ?h1 (?b ! 0) w)"
    and wf2: "heap_wf (?h1\<lparr>hdata := ar\<rparr>)" and same: "heap_same ?h1 (?h1\<lparr>hdata := ar\<rparr>)"
    and en: "elnum ar = ?n - 1" and items2: "array_items ar = take (?n - 1) ?c"
    using drop_last_slot [OF wf1, of w] n unfolding last1 butlast1 by auto
  let ?h2 = "?h1\<lparr>hdata := ar\<rparr>"
  let ?ys = "sift (hcmp heap) (?n - 1) (heap_block ?h2) 0"
  have d2: "data ar \<noteq> None" using wf2 en n by (auto simp: heap_wf_def array_wf_def split: option.splits)
  have n2: "elnum (hdata ?h2) \<le> 2 ^ 30" using n en by simp
  have le2: "?n - 1 \<le> length (heap_block ?h2)" using heap_wf_block [OF wf2] en by simp
  have blk2: "take (?n - 1) (heap_block ?h2) = take (?n - 1) ?c"
    using items2 en by (simp add: array_items_def heap_block_def)
  have "heap_block ?h2 ! j = ?b ! j" if "j < ?n - 1" "0 < j" for j
    using arg_cong [OF blk2, of "\<lambda>xs. xs ! j"] that le by simp
  then have "heap_but (hcmp heap) 0 (?n - 1) (heap_block ?h2) 0"
    using ok by (intro heap_but_root [of _ ?n ?b]) (auto simp: heap_ok_block)
  then have ok': "heap_from (hcmp heap) 0 (?n - 1) ?ys" using le2 by (intro sift_heap) auto
  obtain r where sd: "siftdown ?h2 0 = Some (r, set_block ?h2 ?ys)"
    using siftdown_sift [OF _ _ _ n2, of 0] le2 en d2 wf by (auto simp: heap_wf_def)
  have "swap_slots heap 0 (?n - 1) = Some ?h1"
    using wf le b0 n by (simp add: swap_slots_def heap_block_def [symmetric] set_block_def
        heap_wf_def heap_pointer_swap_def)
  then have "heap_pop heap w = Some (0, Some (?b ! 0), set_block ?h2 ?ys, fini_world heap (?b ! 0) w)"
    using n le b0 dec sd by (simp add: heap_pop_def array_get_def heap_block_def [symmetric] fini_world_def)
  moreover have "heap_wf (set_block ?h2 ?ys)"
    using le2 d2 by (intro heap_wf_set_block wf2) (auto simp: sift_mset)
  moreover have "heap_ok (set_block ?h2 ?ys)" using ok' en by (simp add: heap_ok_block)
  moreover have "heap_same heap (set_block ?h2 ?ys)" using same by (simp add: heap_same_def)
  moreover have "mset (heap_items (set_block ?h2 ?ys)) = mset (take (?n - 1) ?c)"
    using sift_take_mset [OF le2] blk2 en by (simp add: heap_items_block)
  ultimately show ?thesis using mset1 items1 hd by auto
qed

lemma heap_pop_one:
  assumes wf: "heap_wf heap" and n: "elnum (hdata heap) = 1"
  shows "\<exists>heap'. heap_pop heap w =
           Some (0, Some (hd (heap_items heap)), heap', fini_world heap (hd (heap_items heap)) w) \<and>
           heap_wf heap' \<and> heap_ok heap' \<and> heap_same heap heap' \<and>
           mset (heap_items heap) = add_mset (hd (heap_items heap)) (mset (heap_items heap'))"
proof -
  have len: "length (heap_items heap) = 1"
    using wf n by (simp add: heap_wf_def heap_items_def length_array_items)
  then obtain x where x: "heap_items heap = [x]" by (cases "heap_items heap") auto
  have b0: "0 < length (heap_block heap)" using heap_wf_block [OF wf] n by linarith
  have hd: "heap_block heap ! 0 = x" using heap_items_head [OF wf] n x by simp
  obtain ar where dec: "array_decr_fast (hdata heap) w = Some (rc_ok, ar, fini_world heap x w)"
    and ar: "heap_wf (heap\<lparr>hdata := ar\<rparr>)" "heap_same heap (heap\<lparr>hdata := ar\<rparr>)" "elnum ar = 0" "array_items ar = []"
    using drop_last_slot [OF wf, of w] n x by auto
  have "heap_pop heap w = Some (0, Some x, heap\<lparr>hdata := ar\<rparr>, fini_world heap x w)"
    using n dec b0 hd by (simp add: heap_pop_def array_get_def heap_block_def [symmetric] U32_def)
  moreover have "heap_ok (heap\<lparr>hdata := ar\<rparr>)" using ar by (simp add: heap_ok_def heap_from_def)
  ultimately show ?thesis using ar x by (auto simp: heap_items_def)
qed

lemma heap_pop_spec:
  assumes wf: "heap_wf heap" and ok: "heap_ok heap" and cmp: "comparator (hcmp heap)"
    and n: "0 < elnum (hdata heap)" "elnum (hdata heap) \<le> 2 ^ 30"
  shows "\<exists>heap'. heap_pop heap w =
           Some (0, Some (hd (heap_items heap)), heap', fini_world heap (hd (heap_items heap)) w) \<and>
           heap_wf heap' \<and> heap_ok heap' \<and> heap_same heap heap' \<and>
           mset (heap_items heap) = add_mset (hd (heap_items heap)) (mset (heap_items heap'))"
  using heap_pop_one [OF wf, of w] heap_pop_many [OF wf ok cmp, of w] n
  by (cases "elnum (hdata heap) = 1") auto

lemma heap_items_store:
  assumes wf: "heap_wf heap" and d: "data (hdata heap) \<noteq> None" and i: "i < elnum (hdata heap)"
  shows "\<exists>heap'. store_slot heap (Some i) v = Some heap' \<and> heap_wf heap' \<and> heap_same heap heap' \<and>
           data (hdata heap') \<noteq> None \<and> elnum (hdata heap') = elnum (hdata heap) \<and>
           heap_items heap' = (heap_items heap)[i := v]"
proof -
  have lt: "i < length (heap_block heap)" using heap_wf_block [OF wf] i by simp
  let ?h = "set_block heap ((heap_block heap)[i := v])"
  have "store_slot heap (Some i) v = Some ?h"
    using lt by (simp add: store_slot_def set_block_def heap_block_def)
  moreover have "heap_wf ?h" by (rule heap_wf_set_block [OF wf d]) simp
  ultimately show ?thesis
    using i by (auto simp: heap_same_def heap_items_block take_update_swap, simp add: set_block_def)
qed

lemma heapify_from_last:
  assumes wf: "heap_wf heap" and d: "data (hdata heap) \<noteq> None" and cmp: "comparator (hcmp heap)"
    and small: "elnum (hdata heap) \<le> 2 ^ 30"
  shows "\<exists>heap'. sift_each heap (down_from (S32 (int (HEAP_PARENT (elnum (hdata heap) - 1))))) = Some heap' \<and>
           heap_wf heap' \<and> heap_ok heap' \<and> heap_same heap heap' \<and>
           elnum (hdata heap') = elnum (hdata heap) \<and> mset (heap_items heap') = mset (heap_items heap)"
proof -
  let ?p = "HEAP_PARENT (elnum (hdata heap) - 1)"
  have p: "Suc ?p \<le> 2 ^ 30" using small unfolding HEAP_PARENT_def by simp
  then have "down_from (S32 (int ?p)) = rev [0..<Suc ?p]" by (simp add: down_from_nat del: upt_Suc)
  moreover have "elnum (hdata heap) \<le> 2 * Suc ?p + 1" unfolding HEAP_PARENT_def by presburger
  ultimately show ?thesis using heapify_spec [OF wf d cmp _ small p] by (simp only:)
qed

text \<open>
  C20: \<^verbatim>\<open>heap_push\<close> on an array of fewer than 2 ^ 30 elements, the bound below which no \<^verbatim>\<open>int\<close> index
  overflows, puts the element into the heap: the multiset of the elements grows by it, and the array is a heap
  again whatever order it was in.
\<close>

theorem heap_push_adds:
  assumes wf: "heap_wf heap" and cmp: "comparator (hcmp heap)" and al: "total_allocator malloc"
    and sz: "size_ok (elsz (hdata heap)) (elnum (hdata heap) + 1)"
    and small: "elnum (hdata heap) < 2 ^ 30"
  shows "\<exists>heap' w'. heap_push heap v malloc w = Some (heap', w') \<and> heap_wf heap' \<and> heap_ok heap' \<and>
           hcmp heap' = hcmp heap \<and> elnum (hdata heap') = elnum (hdata heap) + 1 \<and>
           mset (heap_items heap') = add_mset v (mset (heap_items heap))"
proof -
  let ?n = "elnum (hdata heap)"
  have "array_wf (hdata heap)" using wf by (simp add: heap_wf_def)
  from array_incr_spec [OF this sz al, of w] obtain x ar w' where
    inc: "array_incr (hdata heap) malloc w = Some (Some ?n, ar, w')" and arwf: "array_wf ar"
    and ar: "elnum ar = ?n + 1" "array_items ar = array_items (hdata heap) @ [x]" "data ar \<noteq> None"
      "elsz ar = elsz (hdata heap)" "fini ar = fini (hdata heap)"
    by blast
  have wf1: "heap_wf (heap\<lparr>hdata := ar\<rparr>)" using wf arwf by (simp add: heap_wf_def)
  have len: "length (heap_items heap) = ?n" using wf by (simp add: heap_wf_def heap_items_def length_array_items)
  obtain h1 where st: "store_slot (heap\<lparr>hdata := ar\<rparr>) (Some ?n) v = Some h1" and h1: "heap_wf h1"
    "hcmp h1 = hcmp heap" "elnum (hdata h1) = ?n + 1" "heap_items h1 = heap_items heap @ [v]" "data (hdata h1) \<noteq> None"
    using heap_items_store [OF wf1, of ?n v] ar len by (auto simp: heap_same_def heap_items_def list_update_append)
  show ?thesis
  proof (cases "?n = 0")
    case True
    then show ?thesis
      using inc st h1 by (simp add: heap_push_def heap_ok_def heap_from_def)
  next
    case False
    then obtain heap' where h: "sift_each h1 (down_from (S32 (int (HEAP_PARENT ?n)))) = Some heap'" "heap_wf heap'" "heap_ok heap'"
      "heap_same h1 heap'" "elnum (hdata heap') = elnum (hdata h1)" "mset (heap_items heap') = mset (heap_items h1)"
      using heapify_from_last [OF h1(1,5)] h1(2,3) cmp small by auto
    have "heap_push heap v malloc w = Some (heap', w')"
      using False inc st h1 h(1) by (simp add: heap_push_def)
    with h h1 show ?thesis by (simp add: heap_same_def)
  qed
qed

lemma heap_pop_step:
  assumes wf: "heap_wf heap" and ok: "heap_ok heap" and cmp: "comparator (hcmp heap)"
    and n: "elnum (hdata heap) \<le> 2 ^ 30"
  shows "if heap_items heap = [] then heap_pop heap w = Some (-1, None, heap, w)
         else \<exists>m heap'. heap_pop heap w = Some (0, Some m, heap', fini_world heap m w) \<and>
                heap_wf heap' \<and> heap_ok heap' \<and> hcmp heap' = hcmp heap \<and>
                (\<forall>x \<in> set (heap_items heap). hcmp heap m x \<le> 0) \<and>
                mset (heap_items heap) = add_mset m (mset (heap_items heap'))"
proof (cases "heap_items heap = []")
  case True
  then show ?thesis using heap_items_Nil [OF wf] by (simp add: heap_pop_def array_get_def)
next
  case False
  then have "0 < elnum (hdata heap)" using heap_items_Nil [OF wf] by simp
  from heap_pop_spec [OF wf ok cmp this n, of w] False heap_hd_min [OF wf ok cmp] show ?thesis
    by (auto simp: heap_same_def)
qed

lemma swap_root_last:
  assumes wf: "heap_wf heap" and n: "1 < elnum (hdata heap)"
  shows "\<exists>heap1 xs. swap_slots heap 0 (elnum (hdata heap) - 1) = Some heap1 \<and> heap_wf heap1 \<and>
           heap_same heap heap1 \<and> elnum (hdata heap1) = elnum (hdata heap) \<and> data (hdata heap1) \<noteq> None \<and>
           heap_items heap1 = xs @ [hd (heap_items heap)] \<and> length xs = elnum (hdata heap) - 1 \<and>
           add_mset (hd (heap_items heap)) (mset xs) = mset (heap_items heap)"
proof -
  let ?n = "elnum (hdata heap)" and ?b = "heap_block heap"
  let ?c = "?b[0 := ?b ! (?n - 1), ?n - 1 := ?b ! 0]"
  have le: "?n \<le> length ?b" by (rule heap_wf_block [OF wf])
  have b0: "0 < length ?b" using le n by linarith
  have hd: "hd (heap_items heap) = ?b ! 0" by (rule heap_items_head [OF wf]) (use n in simp)
  have d: "data (hdata heap) \<noteq> None"
    using wf n by (auto simp: heap_wf_def array_wf_def split: option.splits)
  have "heap_items (set_block heap ?c) = take (?n - 1) ?c @ [?b ! 0]"
    using le n take_Suc_conv_app_nth [of "?n - 1" ?c] by (simp add: heap_items_block)
  moreover have "mset (heap_items (set_block heap ?c)) = mset (heap_items heap)"
    using mset_swap [of "?n - 1" "take ?n ?b" 0] le n
    by (simp add: heap_items_block take_update_swap)
  moreover have "swap_slots heap 0 (?n - 1) = Some (set_block heap ?c)"
    using wf le n b0 by (simp add: swap_slots_def heap_block_def [symmetric] set_block_def
        heap_wf_def heap_pointer_swap_def)
  moreover have "heap_wf (set_block heap ?c)" by (rule heap_wf_set_block [OF wf d]) simp
  moreover have "data (hdata (set_block heap ?c)) \<noteq> None" by (simp add: set_block_def)
  moreover have "length (take (?n - 1) ?c) = ?n - 1" using le by simp
  ultimately show ?thesis using hd by (auto simp: heap_same_def)
qed

text \<open>
  C21: \<^verbatim>\<open>heap_pop\<close> on a heap of at most 2 ^ 30 elements (no \<^verbatim>\<open>int\<close> index overflows) returns -1 and changes nothing when it is empty; otherwise it
  returns an element that is below every other one, removes exactly that one occurrence, runs the
  array's finalizer on it, and leaves a heap.
\<close>

theorem heap_pop_min:
  assumes wf: "heap_wf heap" and ok: "heap_ok heap" and cmp: "comparator (hcmp heap)"
    and n: "elnum (hdata heap) \<le> 2 ^ 30"
  shows "if heap_items heap = [] then heap_pop heap w = Some (-1, None, heap, w)
         else \<exists>m heap'. heap_pop heap w = Some (0, Some m, heap', fini_world heap m w) \<and>
                heap_wf heap' \<and> heap_ok heap' \<and> hcmp heap' = hcmp heap \<and>
                (\<forall>x \<in> set (heap_items heap). hcmp heap m x \<le> 0) \<and>
                mset (heap_items heap) = add_mset m (mset (heap_items heap'))"
  by (rule heap_pop_step [OF assms])

text \<open>
  \<^verbatim>\<open>heap_pushpop\<close> on a non-empty heap returns a least element and puts the given one in
  its place, so that the number of elements does not change, and leaves a heap; no initializer or
  finalizer runs. (On an empty heap it pushes and returns -1.)
\<close>

theorem heap_pushpop_replaces_min:
  assumes wf: "heap_wf heap" and ok: "heap_ok heap" and cmp: "comparator (hcmp heap)"
    and n: "elnum (hdata heap) \<le> 2 ^ 30" and ne: "heap_items heap \<noteq> []"
  shows "\<exists>m heap'. heap_pushpop heap v malloc w = Some (0, m, heap', w) \<and> heap_wf heap' \<and> heap_ok heap' \<and>
           (\<forall>x \<in> set (heap_items heap). hcmp heap m x \<le> 0) \<and>
           add_mset m (mset (heap_items heap')) = add_mset v (mset (heap_items heap))"
proof -
  let ?n = "elnum (hdata heap)" and ?m = "hd (heap_items heap)"
  have n0: "0 < ?n" using ne heap_items_Nil [OF wf] by simp
  have min: "\<forall>x \<in> set (heap_items heap). hcmp heap ?m x \<le> 0" using heap_hd_min [OF wf ok cmp] by blast
  have len: "length (heap_items heap) = ?n" using wf by (simp add: heap_wf_def heap_items_def length_array_items)
  have le: "0 < length (slots (hdata heap))" using heap_wf_block [OF wf] n0 unfolding heap_block_def by linarith
  have hd: "slots (hdata heap) ! 0 = ?m" using heap_items_head [OF wf n0] by (simp add: heap_block_def)
  have d: "data (hdata heap) \<noteq> None"
    using wf n0 by (auto simp: heap_wf_def array_wf_def split: option.splits)
  have un: "U32 (?n - 1) = ?n - 1" using n by simp
  show ?thesis
  proof (cases "?n = 1")
    case True
    obtain h1 where h1: "store_slot heap (Some 0) v = Some h1" "heap_wf h1" "elnum (hdata h1) = ?n"
        "heap_items h1 = (heap_items heap)[0 := v]"
      using heap_items_store [OF wf d n0, of v] by auto
    obtain x where "heap_items heap = [x]" using len True by (cases "heap_items heap") auto
    with True h1 un le hd min show ?thesis
      by (simp add: heap_pushpop_def array_get_def heap_ok_def heap_from_def)
  next
    case False
    then have n1: "1 < ?n" using n0 by simp
    obtain h1 xs where h1: "swap_slots heap 0 (?n - 1) = Some h1" "heap_wf h1" "heap_same heap h1"
        "elnum (hdata h1) = ?n" "data (hdata h1) \<noteq> None" "heap_items h1 = xs @ [?m]" "length xs = ?n - 1"
        "add_mset ?m (mset xs) = mset (heap_items heap)"
      using swap_root_last [OF wf n1] by blast
    obtain h2 where h2: "store_slot h1 (Some (?n - 1)) v = Some h2" "heap_wf h2" "heap_same h1 h2"
        "data (hdata h2) \<noteq> None" "elnum (hdata h2) = ?n" "heap_items h2 = xs @ [v]"
      using heap_items_store [OF h1(2,5), of "?n - 1" v] n1 h1 by (auto simp: list_update_append)
    obtain h3 where h3: "sift_each h2 (down_from (S32 (int (HEAP_PARENT (?n - 1))))) = Some h3" "heap_wf h3" "heap_ok h3"
        "mset (heap_items h3) = mset (heap_items h2)"
      using heapify_from_last [OF h2(2,4)] h1(3) h2(3,5) cmp n by (auto simp: heap_same_def)
    have "heap_pushpop heap v malloc w = Some (0, ?m, h3, w)"
      using n1 un le hd h1(1) h2(1,5) h3(1) by (simp add: heap_pushpop_def array_get_def)
    moreover have "add_mset ?m (mset (heap_items h3)) = add_mset v (mset (heap_items heap))"
      using h3(4) h2(6) h1(8) by (simp flip: h1(8))
    ultimately show ?thesis using h3 min by blast
  qed
qed

lemma heap_ify_spec:
  assumes wf: "heap_wf heap" and cmp: "comparator (hcmp heap)" and small: "elnum (hdata heap) \<le> 2 ^ 30"
  shows "\<exists>heap'. heap_ify heap = Some heap' \<and> heap_wf heap' \<and> heap_ok heap' \<and>
           elnum (hdata heap') = elnum (hdata heap) \<and> hcmp heap' = hcmp heap \<and>
           mset (heap_items heap') = mset (heap_items heap)"
proof (cases "elnum (hdata heap) = 0")
  case True
  then show ?thesis using wf by (simp add: heap_ify_def down_from_def heap_ok_def heap_from_def)
next
  case False
  then have "data (hdata heap) \<noteq> None"
    using wf by (auto simp: heap_wf_def array_wf_def split: option.splits)
  moreover have "elnum (hdata heap) \<le> 2 * (elnum (hdata heap) div 2) + 1" by presburger
  moreover have "heap_ify heap = sift_each heap (rev [0..<elnum (hdata heap) div 2])"
    using small by (simp add: heap_ify_def down_from_def nat_div_distrib)
  moreover have "elnum (hdata heap) div 2 \<le> 2 ^ 30" using small by linarith
  ultimately show ?thesis
    using heapify_spec [OF wf _ cmp _ small, of "elnum (hdata heap) div 2"]
    by (auto simp: heap_same_def)
qed

text \<open>
  C22: \<^verbatim>\<open>heap_ify\<close> turns any array of at most 2 ^ 30 elements into a heap with the same elements; up to there
  no \<^verbatim>\<open>int\<close> index overflows.
\<close>

theorem heap_ify_heap:
  assumes wf: "heap_wf heap" and cmp: "comparator (hcmp heap)" and small: "elnum (hdata heap) \<le> 2 ^ 30"
  shows "\<exists>heap'. heap_ify heap = Some heap' \<and> heap_wf heap' \<and> heap_ok heap' \<and>
           elnum (hdata heap') = elnum (hdata heap) \<and> hcmp heap' = hcmp heap \<and>
           mset (heap_items heap') = mset (heap_items heap)"
  by (rule heap_ify_spec [OF assms])

text \<open>Popping until the heap is empty.\<close>

fun heap_drain :: "nat \<Rightarrow> ('e, 'w) mnheap \<Rightarrow> 'w \<Rightarrow> ('e list \<times> 'w) option" where
  "heap_drain 0 heap w = None"
| "heap_drain (Suc k) heap w =
     do { (r, x, heap', w') \<leftarrow> heap_pop heap w;
          if r \<noteq> 0 then Some ([], w')
          else do { v \<leftarrow> x; (vs, w'') \<leftarrow> heap_drain k heap' w'; Some (v # vs, w'') } }"

lemma heap_drain_sorted:
  assumes "heap_wf heap" "heap_ok heap" "comparator (hcmp heap)" "elnum (hdata heap) \<le> 2 ^ 30"
    and "elnum (hdata heap) < k"
  shows "\<exists>xs w'. heap_drain k heap w = Some (xs, w') \<and>
           sorted_wrt (\<lambda>a b. hcmp heap a b \<le> 0) xs \<and> mset xs = mset (heap_items heap)"
  using assms
proof (induction k arbitrary: heap w)
  case (Suc k)
  show ?case
  proof (cases "heap_items heap = []")
    case True
    then show ?thesis
      using heap_pop_step [OF Suc.prems(1-4), of w] by simp
  next
    case False
    then obtain m h' where pop: "heap_pop heap w = Some (0, Some m, h', fini_world heap m w)"
      and h': "heap_wf h'" "heap_ok h'" "hcmp h' = hcmp heap"
      and min: "\<forall>x \<in> set (heap_items heap). hcmp heap m x \<le> 0"
      and ms: "mset (heap_items heap) = add_mset m (mset (heap_items h'))"
      using heap_pop_step [OF Suc.prems(1-4), of w] by auto
    have "Suc (elnum (hdata h')) = elnum (hdata heap)"
      using arg_cong [OF ms, of size] h'(1) Suc.prems(1)
      by (simp add: heap_wf_def heap_items_def length_array_items)
    then obtain xs w' where "heap_drain k h' (fini_world heap m w) = Some (xs, w')"
      "sorted_wrt (\<lambda>a b. hcmp h' a b \<le> 0) xs" "mset xs = mset (heap_items h')"
      using Suc.IH [of h' "fini_world heap m w"] Suc.prems h' by auto
    moreover have "set xs \<subseteq> set (heap_items heap)"
      using calculation(3) arg_cong [OF ms, of set_mset] by (metis set_mset_mset set_mset_add_mset_insert subset_insertI)
    ultimately show ?thesis using pop min h' ms by auto
  qed
qed simp

text \<open>
  C23: The heap sorts. \<^verbatim>\<open>heap_ify\<close> on any array of at most 2 ^ 30 elements followed by \<^verbatim>\<open>heap_pop\<close> until it returns -1 yields
  all the elements in ascending order of the comparator; one pop more than there are elements is
  enough.
\<close>

theorem heap_ify_drain_sorts:
  assumes "heap_wf heap" and "comparator (hcmp heap)" and "elnum (hdata heap) \<le> 2 ^ 30"
  shows "\<exists>h xs w'. heap_ify heap = Some h \<and> heap_drain (Suc (elnum (hdata heap))) h w = Some (xs, w') \<and>
           sorted_wrt (\<lambda>a b. hcmp heap a b \<le> 0) xs \<and> mset xs = mset (heap_items heap)"
proof -
  obtain h where h: "heap_ify heap = Some h" "heap_wf h" "heap_ok h" "elnum (hdata h) = elnum (hdata heap)"
    "hcmp h = hcmp heap" "mset (heap_items h) = mset (heap_items heap)"
    using heap_ify_spec [OF assms] by blast
  with heap_drain_sorted [OF h(2,3), of "Suc (elnum (hdata heap))" w] assms show ?thesis by auto
qed

subsection \<open>Searching\<close>

text \<open>\<open>under i j\<close>: \<open>j\<close> is in the subtree of \<open>i\<close>.\<close>

function under :: "nat \<Rightarrow> nat \<Rightarrow> bool" where
  "under i j = (if i < j then under i (HEAP_PARENT j) else j = i)"
  by pat_completeness auto
termination by (relation "measure snd") (auto simp: parent_less)

declare under.simps [simp del]

lemma under_refl [simp]: "under i i"
  by (simp add: under.simps)

lemma under_ge: "under i j \<Longrightarrow> i \<le> j"
  by (auto simp: under.simps [of i j] split: if_splits)

lemma under_root: "under 0 j"
proof (induction j rule: less_induct)
  case (less j)
  then show ?case using parent_less [of j] by (cases "j = 0") (auto simp: under.simps [of 0 j])
qed

lemma under_child:
  "under i j \<Longrightarrow> j \<noteq> i \<Longrightarrow> under (2 * i + 1) j \<or> under (2 * i + 2) j"
proof (induction j rule: less_induct)
  case (less j)
  then have p: "i < j" "under i (HEAP_PARENT j)" by (auto simp: under.simps [of i j] split: if_splits)
  show ?case
  proof (cases "HEAP_PARENT j = i")
    case True
    with p show ?thesis using parent_child [of j i] by auto
  next
    case False
    with less p have u: "under (2 * i + 1) (HEAP_PARENT j) \<or> under (2 * i + 2) (HEAP_PARENT j)"
      using parent_less [of j] by simp
    have "under k j" if "under k (HEAP_PARENT j)" for k
    proof -
      have "k \<le> HEAP_PARENT j" using that by (auto simp: under.simps [of k "HEAP_PARENT j"] split: if_splits)
      then show ?thesis using that parent_less [of j] p by (subst under.simps) auto
    qed
    with u show ?thesis by blast
  qed
qed

context comparator
begin

lemma under_le:
  assumes h: "heap_from cmp 0 n xs"
  shows "under i j \<Longrightarrow> j < n \<Longrightarrow> cmp (xs ! i) (xs ! j) \<le> 0"
proof (induction j rule: less_induct)
  case (less j)
  show ?case
  proof (cases "j = i")
    case False
    then have p: "i < j" "under i (HEAP_PARENT j)"
      using less.prems by (auto simp: under.simps [of i j] split: if_splits)
    then have "cmp (xs ! i) (xs ! HEAP_PARENT j) \<le> 0"
      using less.IH less.prems parent_less [of j] by simp
    moreover have "cmp (xs ! HEAP_PARENT j) (xs ! j) \<le> 0"
      using h less.prems p by (simp add: heap_from_def)
    ultimately show ?thesis by (rule cmp_trans)
  qed (simp add: cmp_refl)
qed

lemma under_no_match:
  assumes "heap_from cmp 0 n xs" "cmp a (xs ! i) < 0" "under i j" "j < n"
  shows "cmp a (xs ! j) \<noteq> 0"
proof
  assume "cmp a (xs ! j) = 0"
  then have "cmp (xs ! j) a = 0" using cmp_zero_sym by blast
  then have "cmp (xs ! i) a \<le> 0" using under_le [OF assms(1,3,4)] cmp_trans [of "xs ! i" "xs ! j" a] by simp
  then show False using assms(2) cmp_sym [of "xs ! i" a] by simp
qed

end

definition found_under :: "('e, 'w) mnheap \<Rightarrow> nat \<Rightarrow> 'e \<Rightarrow> nat option \<Rightarrow> bool" where
  "found_under heap i a r =
     (case r of
        Some p \<Rightarrow> p < elnum (hdata heap) \<and> hcmp heap a (heap_block heap ! p) = 0
      | None \<Rightarrow> \<forall>j < elnum (hdata heap). under i j \<longrightarrow> j \<noteq> i \<longrightarrow> hcmp heap a (heap_block heap ! j) \<noteq> 0)"

lemma heap_get_at_found:
  assumes le: "elnum (hdata heap) \<le> length (heap_block heap)" and ok: "heap_ok heap"
    and cmp: "comparator (hcmp heap)" and small: "elnum (hdata heap) < 2 ^ 30" and i: "i * 2 + 2 < 2 ^ 31"
  shows "\<exists>r. heap_get_at heap i a = Some r \<and> found_under heap i a r"
  using i
proof (induction "elnum (hdata heap) - i" arbitrary: i rule: less_induct)
  case less
  note under_no_match = comparator.under_no_match [OF cmp]
  let ?n = "elnum (hdata heap)" and ?b = "heap_block heap"
  have order: "heap_from (hcmp heap) 0 ?n ?b" using ok by (simp add: heap_ok_block)
  have sl: "slots (hdata heap) = ?b" by (simp add: heap_block_def)
  have child: "\<exists>r. heap_get_at heap c a = Some r \<and> found_under heap c a r"
    if "c = i * 2 + 1 \<or> c = i * 2 + 2" "c < ?n" for c
    using that small by (intro less.hyps) auto
  have int: "C_int (i * 2 + 1) = Some (i * 2 + 1)" "C_int (i * 2 + 2) = Some (i * 2 + 2)"
    using less.prems by simp_all
  note step = heap_get_at.simps [of heap i a, unfolded int Option.bind.simps]
  define none where "none c \<longleftrightarrow> (\<forall>j < ?n. under c j \<longrightarrow> hcmp heap a (?b ! j) \<noteq> 0)" for c
  have below: "none c" if "c < ?n" "hcmp heap a (?b ! c) < 0" for c
    using under_no_match [OF order that(2)] by (simp add: none_def)
  have above: "none c" if "found_under heap c a None" "hcmp heap a (?b ! c) > 0" for c
    unfolding none_def
  proof (intro allI impI)
    fix j assume "j < ?n" "under c j"
    then show "hcmp heap a (?b ! j) \<noteq> 0"
      using that by (cases "j = c") (auto simp: found_under_def)
  qed
  have beyond: "none c" if "?n \<le> c" for c
    using that under_ge by (fastforce simp: none_def)
  have both: "found_under heap i a None" if "none (i * 2 + 1)" "none (i * 2 + 2)"
    using that under_child [of i] by (auto simp: none_def found_under_def mult.commute)
  have at: "peek (slots (hdata heap)) c = Some (?b ! c)" if "c < ?n" for c
    using that le by (simp add: sl)
  have second: "\<exists>r. (case array_get (hdata heap) (i * 2 + 2) of None \<Rightarrow> Some None
             | Some p \<Rightarrow> do { y \<leftarrow> peek (slots (hdata heap)) p;
                      if hcmp heap a y > 0 then heap_get_at heap (i * 2 + 2) a else Some (Some p) }) = Some r \<and>
      (case r of None \<Rightarrow> none (i * 2 + 2)
       | Some p \<Rightarrow> p < ?n \<and> (hcmp heap a (?b ! p) \<noteq> 0 \<longrightarrow> none (i * 2 + 2)))"
  proof (cases "i * 2 + 2 < ?n")
    case True
    then obtain r where r: "heap_get_at heap (i * 2 + 2) a = Some r" "found_under heap (i * 2 + 2) a r"
      using child by blast
    show ?thesis
    proof (cases "hcmp heap a (?b ! (i * 2 + 2)) > 0")
      case hi: True
      with r True at [OF True] above [of "i * 2 + 2"] show ?thesis
        by (cases r) (simp_all add: array_get_def found_under_def)
    next
      case False
      with True at [OF True] below [OF True] show ?thesis by (simp add: array_get_def)
    qed
  next
    case False
    then show ?thesis using beyond by (auto simp: array_get_def)
  qed
  let ?second = "case array_get (hdata heap) (i * 2 + 2) of None \<Rightarrow> Some None
             | Some p \<Rightarrow> do { y \<leftarrow> peek (slots (hdata heap)) p;
                      if hcmp heap a y > 0 then heap_get_at heap (i * 2 + 2) a else Some (Some p) }"
  obtain r2 where r2: "?second = Some r2"
    and n2: "case r2 of None \<Rightarrow> none (i * 2 + 2)
       | Some p \<Rightarrow> p < ?n \<and> (hcmp heap a (?b ! p) \<noteq> 0 \<longrightarrow> none (i * 2 + 2))"
    using second by blast
  have fin: "\<exists>r. (case r2 of None \<Rightarrow> Some None | Some p \<Rightarrow>
        do { y \<leftarrow> peek (slots (hdata heap)) p; Some (if hcmp heap a y \<noteq> 0 then None else Some p) }) = Some r \<and>
      found_under heap i a r" if "none (i * 2 + 1)"
    using n2 both [OF that] at by (cases r2) (auto simp: found_under_def)
  show ?case
  proof (cases "i * 2 + 1 < ?n")
    case False
    then show ?thesis
      using r2 fin beyond by (subst step) (simp add: array_get_def)
  next
    case True
    obtain r1 where r1: "heap_get_at heap (i * 2 + 1) a = Some r1" "found_under heap (i * 2 + 1) a r1"
      using child True by blast
    consider "hcmp heap a (?b ! (i * 2 + 1)) = 0" | "hcmp heap a (?b ! (i * 2 + 1)) < 0"
      | "hcmp heap a (?b ! (i * 2 + 1)) > 0" by linarith
    then show ?thesis
    proof cases
      case 1
      then show ?thesis using True at [OF True]
        by (subst step) (simp add: array_get_def found_under_def)
    next
      case 2
      then show ?thesis using True at [OF True] r2 fin below [OF True]
        by (subst step) (simp add: array_get_def)
    next
      case 3
      show ?thesis
      proof (cases r1)
        case None
        with 3 show ?thesis using True at [OF True] r1 r2 fin above
          by (subst step) (simp add: array_get_def)
      next
        case (Some p)
        with r1 have "p < ?n" "hcmp heap a (?b ! p) = 0" by (auto simp: found_under_def)
        with 3 Some show ?thesis using True at r1
          by (subst step) (simp add: array_get_def found_under_def)
      qed
    qed
  qed
qed

text \<open>
  \<^verbatim>\<open>heap_get\<close> on a heap finds an element equal to the key when there is one, although it
  only searches the subtrees whose root is below the key, and returns -1 otherwise.
\<close>

theorem heap_get_finds:
  assumes wf: "heap_wf heap" and ok: "heap_ok heap" and cmp: "comparator (hcmp heap)"
    and small: "elnum (hdata heap) < 2 ^ 30"
  shows "if \<exists>x \<in> set (heap_items heap). hcmp heap a x = 0
         then \<exists>x \<in> set (heap_items heap). hcmp heap a x = 0 \<and> heap_get heap a = Some (0, Some x)
         else heap_get heap a = Some (-1, None)"
proof -
  note under_no_match = comparator.under_no_match [OF cmp]
  let ?n = "elnum (hdata heap)" and ?b = "heap_block heap"
  have le: "?n \<le> length ?b" by (rule heap_wf_block [OF wf])
  have order: "heap_from (hcmp heap) 0 ?n ?b" using ok by (simp add: heap_ok_block)
  have mem: "x \<in> set (heap_items heap) \<longleftrightarrow> (\<exists>j < ?n. x = ?b ! j)" for x
    using le by (auto simp: heap_items_block in_set_conv_nth)
  have at: "peek (slots (hdata heap)) c = Some (?b ! c)" if "c < ?n" for c
    using that le by (simp add: heap_block_def)
  show ?thesis
  proof (cases "?n = 0")
    case True
    then show ?thesis using heap_items_Nil [OF wf] by (simp add: heap_get_def array_get_def)
  next
    case False
    then have n: "0 < ?n" by simp
    consider "hcmp heap a (?b ! 0) = 0" | "hcmp heap a (?b ! 0) < 0" | "hcmp heap a (?b ! 0) > 0" by linarith
    then show ?thesis
    proof cases
      case 1
      moreover have "?b ! 0 \<in> set (heap_items heap)" using mem n by blast
      ultimately show ?thesis using n at [OF n] by (auto simp: heap_get_def array_get_def)
    next
      case 2
      then have "\<forall>j < ?n. hcmp heap a (?b ! j) \<noteq> 0"
        using under_no_match [OF order 2 under_root] by blast
      with 2 show ?thesis using n at [OF n] by (auto simp: heap_get_def array_get_def mem)
    next
      case 3
      obtain r where r: "heap_get_at heap 0 a = Some r" "found_under heap 0 a r"
        using heap_get_at_found [OF le ok cmp small, of 0] by auto
      show ?thesis
      proof (cases r)
        case None
        have "hcmp heap a (?b ! j) \<noteq> 0" if "j < ?n" for j
          using r(2) None 3 that under_root by (cases "j = 0") (auto simp: found_under_def)
        with 3 None show ?thesis using n at [OF n] r by (auto simp: heap_get_def array_get_def mem)
      next
        case (Some p)
        then have "p < ?n" "hcmp heap a (?b ! p) = 0" using r by (auto simp: found_under_def)
        moreover from this have "?b ! p \<in> set (heap_items heap)" using mem by blast
        ultimately show ?thesis using 3 Some n at r by (auto simp: heap_get_def array_get_def)
      qed
    qed
  qed
qed

subsection \<open>Traversal\<close>

text \<open>
  What \<^verbatim>\<open>heap_traverse\<close> and \<^verbatim>\<open>heap_traversea\<close> hand to the callback: the address of every
  element once, in index order, and then NULL once more than there are elements.
\<close>

theorem heap_traverse_addresses:
  "heap_addresses heap = map Some [0..<elnum (hdata heap)] @ replicate (elnum (hdata heap) + 1) None"
proof -
  let ?n = "elnum (hdata heap)" and ?g = "array_get (hdata heap)"
  have pairs: "?g 0 # concat (map (\<lambda>i. [?g (2 * i + 1), ?g (2 * i + 2)]) [0..<m]) = map ?g [0..<2 * m + 1]" for m
    by (induction m) simp_all
  have "[0..<2 * ?n + 1] = [0..<?n] @ [?n..<?n + (?n + 1)]"
    using upt_add_eq_append [of 0 ?n "?n + 1"] by (simp add: mult_2)
  moreover have "map ?g [?n..<?n + k] = replicate k None" for k
    by (induction k) (simp_all add: array_get_def replicate_append_same)
  moreover have "map ?g [0..<?n] = map Some [0..<?n]" by (simp add: array_get_def)
  ultimately have "map ?g [0..<2 * ?n + 1] = map Some [0..<?n] @ replicate (?n + 1) None"
    by (simp only: map_append)
  then show ?thesis unfolding heap_addresses_def pairs .
qed

subsection \<open>A concrete heap\<close>

definition demo_heap :: "(nat, nat list) mnheap" where
  "demo_heap = \<lparr>hdata = \<lparr>elsz = 8, elnum = 3, data = Some [3, 9, 5, 0], datasz = 32, init = None,
     fini = Some (\<lambda>e w. (0, e, w @ [e]))\<rparr>, hcmp = mncmp, hswap = heap_pointer_swap\<rparr>"

lemma demo_heap_wf: "heap_wf demo_heap"
  by (simp add: heap_wf_def array_wf_def demo_heap_def)

lemma demo_heap_cmp: "comparator (hcmp demo_heap)"
  by (simp add: demo_heap_def mncmp.comparator_axioms)

lemma demo_heap_items: "heap_items demo_heap = [3, 9, 5]"
  by (simp add: demo_heap_def heap_items_def array_items_def)

lemma demo_heap_ok: "heap_ok demo_heap"
  unfolding heap_ok_def heap_from_def demo_heap_items
  by (auto simp: demo_heap_def HEAP_PARENT_def mncmp_def less_Suc_eq numeral_3_eq_3)

lemma demo_heap_hcmp: "hcmp demo_heap = mncmp"
  by (simp add: demo_heap_def)

lemma demo_heap_small: "elnum (hdata demo_heap) \<le> 2 ^ 30"
  by (simp add: demo_heap_def)

theorem heap_push_adds_witness:
  "\<exists>heap' w'. heap_push demo_heap 1 (std_alloc (\<lambda>_. 0)) [] = Some (heap', w') \<and> heap_wf heap' \<and> heap_ok heap' \<and>
     hcmp heap' = hcmp demo_heap \<and> elnum (hdata heap') = elnum (hdata demo_heap) + 1 \<and>
     mset (heap_items heap') = add_mset 1 (mset (heap_items demo_heap))"
  by (rule heap_push_adds [OF demo_heap_wf demo_heap_cmp std_total_allocator])
     (simp_all add: demo_heap_def size_ok_def)

theorem heap_pop_min_witness:
  "\<exists>m heap'. heap_pop demo_heap [] = Some (0, Some m, heap', fini_world demo_heap m []) \<and>
     heap_wf heap' \<and> heap_ok heap' \<and> hcmp heap' = hcmp demo_heap \<and>
     (\<forall>x \<in> set (heap_items demo_heap). hcmp demo_heap m x \<le> 0) \<and>
     mset (heap_items demo_heap) = add_mset m (mset (heap_items heap'))"
  using heap_pop_min [OF demo_heap_wf demo_heap_ok demo_heap_cmp demo_heap_small, of "[]"]
  by (simp add: demo_heap_items)

theorem heap_pushpop_replaces_min_witness:
  "\<exists>m heap'. heap_pushpop demo_heap 4 (std_alloc (\<lambda>_. 0)) [] = Some (0, m, heap', []) \<and> heap_wf heap' \<and> heap_ok heap' \<and>
     (\<forall>x \<in> set (heap_items demo_heap). hcmp demo_heap m x \<le> 0) \<and>
     add_mset m (mset (heap_items heap')) = add_mset 4 (mset (heap_items demo_heap))"
  by (rule heap_pushpop_replaces_min [OF demo_heap_wf demo_heap_ok demo_heap_cmp demo_heap_small])
     (simp add: demo_heap_items)

theorem heap_ify_heap_witness:
  "\<exists>heap'. heap_ify demo_heap = Some heap' \<and> heap_wf heap' \<and> heap_ok heap' \<and>
     elnum (hdata heap') = elnum (hdata demo_heap) \<and> hcmp heap' = hcmp demo_heap \<and>
     mset (heap_items heap') = mset (heap_items demo_heap)"
  by (rule heap_ify_heap [OF demo_heap_wf demo_heap_cmp demo_heap_small])

theorem heap_ify_drain_sorts_witness:
  "\<exists>h xs w'. heap_ify demo_heap = Some h \<and> heap_drain (Suc (elnum (hdata demo_heap))) h [] = Some (xs, w') \<and>
     sorted_wrt (\<lambda>a b. hcmp demo_heap a b \<le> 0) xs \<and> mset xs = mset (heap_items demo_heap)"
  by (rule heap_ify_drain_sorts [OF demo_heap_wf demo_heap_cmp demo_heap_small])

theorem heap_get_finds_witness:
  "\<exists>x \<in> set (heap_items demo_heap). hcmp demo_heap 5 x = 0 \<and> heap_get demo_heap 5 = Some (0, Some x)"
  using heap_get_finds [OF demo_heap_wf demo_heap_ok demo_heap_cmp, of 5]
  by (simp add: demo_heap_items demo_heap_hcmp mncmp_def) (simp add: demo_heap_def)

end
