(* ===== verification/Queue_Spec.thy ===== *)
theory Queue_Spec
  imports Prelude_C
begin

text \<open>
  What the intrusive queues of \<^verbatim>\<open>stqueue.h\<close> and \<^verbatim>\<open>dtqueue.h\<close> share: entries are addresses of
  the client's structures, the links inside them live in a store (a map from addresses), and
  both are first-in first-out queues of addresses. The locale states that contract.
\<close>

type_synonym addr = nat
type_synonym 'l mem = "addr \<Rightarrow> 'l option"

text \<open>The address a list of entries starts or ends with, with a default at its end.\<close>

definition first_of :: "addr list \<Rightarrow> addr option \<Rightarrow> addr option" where
  "first_of xs n = (case xs of [] \<Rightarrow> n | x # _ \<Rightarrow> Some x)"

definition last_of :: "addr option \<Rightarrow> addr list \<Rightarrow> addr option" where
  "last_of p xs = (if xs = [] then p else Some (last xs))"

lemma first_of_simps [simp]:
  "first_of [] n = n" "first_of (x # xs) n = Some x"
  "first_of (xs @ ys) n = first_of xs (first_of ys n)"
  by (auto simp: first_of_def split: list.splits)

lemma last_of_simps [simp]:
  "last_of p [] = p" "last_of p (x # xs) = last_of (Some x) xs" "last_of p (xs @ ys) = last_of (last_of p xs) ys"
  by (auto simp: last_of_def)

lemma first_of_None [simp]: "first_of xs None = None \<longleftrightarrow> xs = []"
  by (simp add: first_of_def split: list.splits)

lemma last_of_None [simp]: "last_of None xs = None \<longleftrightarrow> xs = []"
  by (simp add: last_of_def)

lemma first_of_Some: "first_of xs None = Some x \<longleftrightarrow> (\<exists>ys. xs = x # ys)"
  by (auto simp: first_of_def split: list.splits)

lemma last_of_Some: "last_of None xs = Some x \<longleftrightarrow> (\<exists>ys. xs = ys @ [x])"
  by (cases xs rule: rev_cases) auto

text \<open>\<open>++nelems\<close> and \<open>--nelems\<close> on a \<^verbatim>\<open>size_t\<close>.\<close>

lemma SZ_incr [simp]: "SZ (Suc (SZ n)) = SZ (Suc n)"
  by (simp add: SZ_def mod_Suc_eq)

lemma SZ_decr [simp]: "SZ (SZ (Suc n) + 18446744073709551615) = SZ n"
proof -
  have "SZ (SZ (Suc n) + 18446744073709551615) = (Suc n + 18446744073709551615) mod 2 ^ 64"
    unfolding SZ_def by (simp only: mod_add_left_eq)
  also have "\<dots> = (n + 2 ^ 64) mod 2 ^ 64" by simp
  also have "\<dots> = SZ n" by (simp only: mod_add_self2 SZ_def)
  finally show ?thesis .
qed

lemma SZ_decr' [simp]: "SZ (18446744073709551615 + SZ (Suc n)) = SZ n"
  using SZ_decr [of n] by (simp only: add.commute)

lemma SZ_wrap [simp]: "SZ 18446744073709551616 = 0"
  by (simp add: SZ_def)

lemma SZ_wrap1 [simp]: "SZ 18446744073709551617 = 1"
  by (simp add: SZ_def)

lemma ends_Some [simp]:
  "\<exists>z. first_of xs (Some y) = Some z" "first_of xs (Some y) \<noteq> None"
  "\<exists>z. last_of (Some y) xs = Some z" "last_of (Some y) xs \<noteq> None"
  by (auto simp: first_of_def last_of_def split: list.splits)

lemma butlast_snoc2 [simp]: "butlast (xs @ [y, x]) = xs @ [y]"
  by (simp add: butlast_append)

lemma last_of_nonempty: "xs \<noteq> [] \<Longrightarrow> last_of p xs = last_of q xs"
  by (simp add: last_of_def)

subsection \<open>Clients: filling a queue and draining it\<close>

fun enq_all :: "('s \<Rightarrow> addr \<Rightarrow> 's option) \<Rightarrow> 's \<Rightarrow> addr list \<Rightarrow> 's option" where
  "enq_all enq s [] = Some s"
| "enq_all enq s (x # xs) = do { s' \<leftarrow> enq s x; enq_all enq s' xs }"

text \<open>\<^verbatim>\<open>while ((e = HEAD(q)) != NULL) DEQUEUE(q)\<close>, with at most as many rounds as the fuel.\<close>

fun drain :: "('s \<Rightarrow> addr option) \<Rightarrow> ('s \<Rightarrow> 's option) \<Rightarrow> nat \<Rightarrow> 's \<Rightarrow> (addr list \<times> 's) option" where
  "drain front deq 0 s = None"
| "drain front deq (Suc k) s =
     (case front s of
        None \<Rightarrow> Some ([], s)
      | Some e \<Rightarrow> do { s' \<leftarrow> deq s; (es, s'') \<leftarrow> drain front deq k s'; Some (e # es, s'') })"

text \<open>
  The contract: \<open>rep s xs\<close> says that the state holds the queue of the entries \<open>xs\<close>, \<open>fresh s x\<close>
  that \<open>x\<close> is an initialised entry.
\<close>

locale fifo =
  fixes rep :: "'s \<Rightarrow> addr list \<Rightarrow> bool"
    and fresh :: "'s \<Rightarrow> addr \<Rightarrow> bool"
    and enq :: "'s \<Rightarrow> addr \<Rightarrow> 's option"
    and deq :: "'s \<Rightarrow> 's option"
    and head :: "'s \<Rightarrow> addr option"
  assumes enq_rep: "rep s xs \<Longrightarrow> fresh s x \<Longrightarrow> x \<notin> set xs \<Longrightarrow> \<exists>s'. enq s x = Some s' \<and> rep s' (xs @ [x])"
    and enq_fresh: "rep s xs \<Longrightarrow> enq s x = Some s' \<Longrightarrow> fresh s y \<Longrightarrow> y \<noteq> x \<Longrightarrow> y \<notin> set xs \<Longrightarrow> fresh s' y"
    and deq_rep: "rep s xs \<Longrightarrow> \<exists>s'. deq s = Some s' \<and> rep s' (tl xs)"
    and head_rep: "rep s xs \<Longrightarrow> head s = first_of xs None"
begin

lemma enq_all_rep:
  "rep s xs \<Longrightarrow> \<forall>y \<in> set ys. fresh s y \<Longrightarrow> distinct (xs @ ys) \<Longrightarrow>
     \<exists>s'. enq_all enq s ys = Some s' \<and> rep s' (xs @ ys)"
proof (induction ys arbitrary: s xs)
  case (Cons y ys)
  obtain s1 where s1: "enq s y = Some s1" "rep s1 (xs @ [y])"
    using enq_rep [OF Cons.prems(1), of y] Cons.prems by auto
  have "\<forall>z \<in> set ys. fresh s1 z"
    using enq_fresh [OF Cons.prems(1) s1(1)] Cons.prems by auto
  from Cons.IH [OF s1(2) this] Cons.prems(3) s1(1) show ?case by simp
qed simp

lemma drain_rep: "rep s xs \<Longrightarrow> \<exists>s'. drain head deq (Suc (length xs)) s = Some (xs, s') \<and> rep s' []"
proof (induction xs arbitrary: s)
  case Nil
  then show ?case by (simp add: head_rep)
next
  case (Cons x xs)
  obtain s1 where s1: "deq s = Some s1" "rep s1 xs" using deq_rep [OF Cons.prems] by auto
  then obtain s' where "drain head deq (Suc (length xs)) s1 = Some (xs, s')" "rep s' []" using Cons.IH by blast
  with s1 head_rep [OF Cons.prems] show ?case by auto
qed

lemma fifo_order:
  assumes "rep s []" "\<forall>y \<in> set ys. fresh s y" "distinct ys"
  shows "\<exists>s1 s2. enq_all enq s ys = Some s1 \<and> drain head deq (Suc (length ys)) s1 = Some (ys, s2) \<and> rep s2 []"
  using enq_all_rep [OF assms(1,2)] assms(3) drain_rep by fastforce

end

end
