(* ===== verification/Mn_Stqueue.thy ===== *)
theory Mn_Stqueue
  imports Queue_Spec
begin

text \<open>
  \<^verbatim>\<open>src/src/mncommon/stqueue.h\<close>: the intrusive singly linked tail queue. A macro becomes a
  function on the queue's head record and the store of the entries' links; a macro that
  follows a link of an address with no entry faults.
\<close>

record slink =
  snext :: "addr option"

record stq =
  stq_head :: "addr option"
  stq_tail :: "addr option"
  stq_nelems :: nat

type_synonym stq_state = "stq \<times> slink mem"

definition STQUEUE_INIT :: "stq" where
  "STQUEUE_INIT = \<lparr>stq_head = None, stq_tail = None, stq_nelems = 0\<rparr>"

definition set_snext :: "slink mem \<Rightarrow> addr \<Rightarrow> addr option \<Rightarrow> slink mem option" where
  "set_snext m a v = map_option (\<lambda>l. m(a \<mapsto> l\<lparr>snext := v\<rparr>)) (m a)"

definition STQUEUE_ENTRY_INIT :: "slink mem \<Rightarrow> addr \<Rightarrow> slink mem option" where
  "STQUEUE_ENTRY_INIT m e = set_snext m e None"

definition STQUEUE_ENQUEUE :: "stq_state \<Rightarrow> addr \<Rightarrow> stq_state option" where
  "STQUEUE_ENQUEUE s entry =
     (case s of (q, m) \<Rightarrow>
        do { (q', m') \<leftarrow>
               (case stq_tail q of
                  None \<Rightarrow> Some (q\<lparr>stq_head := Some entry, stq_tail := Some entry\<rparr>, m)
                | Some t \<Rightarrow>
                    do { m1 \<leftarrow> set_snext m t (Some entry);
                         m2 \<leftarrow> set_snext m1 entry None;
                         Some (q\<lparr>stq_tail := Some entry\<rparr>, m2) });
             Some (q'\<lparr>stq_nelems := SZ (stq_nelems q' + 1)\<rparr>, m') })"

definition STQUEUE_HEAD :: "stq_state \<Rightarrow> addr option" where
  "STQUEUE_HEAD s = stq_head (fst s)"

definition STQUEUE_NEXT :: "stq_state \<Rightarrow> addr \<Rightarrow> addr option option" where
  "STQUEUE_NEXT s e = map_option snext (snd s e)"

definition STQUEUE_TAIL :: "stq_state \<Rightarrow> addr option" where
  "STQUEUE_TAIL s = stq_tail (fst s)"

definition STQUEUE_LENGTH :: "stq_state \<Rightarrow> nat" where
  "STQUEUE_LENGTH s = stq_nelems (fst s)"

definition STQUEUE_DEQUEUE :: "stq_state \<Rightarrow> stq_state option" where
  "STQUEUE_DEQUEUE s =
     (case s of (q, m) \<Rightarrow>
        (case stq_head q of
           Some h \<Rightarrow>
             do { l \<leftarrow> m h;
                  let q1 = q\<lparr>stq_head := snext l\<rparr>;
                  let q2 = (if snext l = None then q1\<lparr>stq_tail := None\<rparr> else q1);
                  Some (q2\<lparr>stq_nelems := SZ (stq_nelems q2 + 2 ^ 64 - 1)\<rparr>, m) }
         | None \<Rightarrow> Some (q\<lparr>stq_tail := None\<rparr>, m)))"

definition STQUEUE_DEQUEUE_FAST :: "stq_state \<Rightarrow> stq_state option" where
  "STQUEUE_DEQUEUE_FAST s =
     (case s of (q, m) \<Rightarrow>
        do { h \<leftarrow> stq_head q;
             l \<leftarrow> m h;
             Some (q\<lparr>stq_head := snext l, stq_nelems := SZ (stq_nelems q + 2 ^ 64 - 1)\<rparr>, m) })"

text \<open>\<^verbatim>\<open>&&\<close> does not read the link when the entry is the tail.\<close>

definition STQUEUE_ORPHAN :: "stq_state \<Rightarrow> addr \<Rightarrow> bool option" where
  "STQUEUE_ORPHAN s e =
     (if stq_tail (fst s) = Some e then Some False else map_option (\<lambda>l. snext l = None) (snd s e))"

definition STQUEUE_EMPTY :: "stq_state \<Rightarrow> bool" where
  "STQUEUE_EMPTY s \<longleftrightarrow> stq_head (fst s) = None \<and> stq_tail (fst s) = None"

subsection \<open>The queue a state holds\<close>

fun slinked :: "slink mem \<Rightarrow> addr list \<Rightarrow> addr option \<Rightarrow> bool" where
  "slinked m [] n \<longleftrightarrow> True"
| "slinked m (x # xs) n \<longleftrightarrow> m x = Some \<lparr>snext = first_of xs n\<rparr> \<and> slinked m xs n"

definition stq_rep :: "stq_state \<Rightarrow> addr list \<Rightarrow> bool" where
  "stq_rep s xs \<longleftrightarrow> (case s of (q, m) \<Rightarrow>
     slinked m xs None \<and> distinct xs \<and> stq_head q = first_of xs None \<and>
     stq_tail q = last_of None xs \<and> stq_nelems q = SZ (length xs))"

definition stq_fresh :: "stq_state \<Rightarrow> addr \<Rightarrow> bool" where
  "stq_fresh s e \<longleftrightarrow> snd s e = Some \<lparr>snext = None\<rparr>"

lemma slinked_append [simp]:
  "slinked m (xs @ ys) n \<longleftrightarrow> slinked m xs (first_of ys n) \<and> slinked m ys n"
  by (induction xs) auto

lemma slinked_frame [simp]: "a \<notin> set xs \<Longrightarrow> slinked (m(a \<mapsto> v)) xs n \<longleftrightarrow> slinked m xs n"
  by (induction xs) auto

lemma stq_enq_rep:
  assumes "stq_rep s xs" "stq_fresh s x" "x \<notin> set xs"
  shows "\<exists>s'. STQUEUE_ENQUEUE s x = Some s' \<and> stq_rep s' (xs @ [x])"
  using assms
  by (cases xs rule: rev_cases)
     (auto simp: stq_rep_def stq_fresh_def STQUEUE_ENQUEUE_def set_snext_def)

lemma stq_enq_fresh:
  "stq_rep s xs \<Longrightarrow> STQUEUE_ENQUEUE s x = Some s' \<Longrightarrow> stq_fresh s y \<Longrightarrow> y \<noteq> x \<Longrightarrow> y \<notin> set xs \<Longrightarrow> stq_fresh s' y"
  by (cases xs rule: rev_cases)
     (auto simp: stq_rep_def stq_fresh_def STQUEUE_ENQUEUE_def set_snext_def bind_eq_Some_conv)

lemma stq_deq_rep:
  "stq_rep s xs \<Longrightarrow> \<exists>s'. STQUEUE_DEQUEUE s = Some s' \<and> stq_rep s' (tl xs)"
  by (cases xs) (auto simp: stq_rep_def STQUEUE_DEQUEUE_def Let_def last_of_def
      split: prod.splits)

lemma stq_head_rep: "stq_rep s xs \<Longrightarrow> STQUEUE_HEAD s = first_of xs None"
  by (auto simp: stq_rep_def STQUEUE_HEAD_def)

interpretation stq: fifo stq_rep stq_fresh STQUEUE_ENQUEUE STQUEUE_DEQUEUE STQUEUE_HEAD
  by (rule fifo.intro) (fact stq_enq_rep stq_enq_fresh stq_deq_rep stq_head_rep)+

text \<open>
  C24: The queue of \<^verbatim>\<open>stqueue.h\<close> is first-in first-out: initialised entries enqueued on an empty
  queue come out of the loop over \<^verbatim>\<open>STQUEUE_HEAD\<close> and \<^verbatim>\<open>STQUEUE_DEQUEUE\<close> in the same order, each
  once, without a fault, and leave an empty queue.
\<close>

theorem stqueue_fifo:
  assumes "stq_rep s []" and "\<forall>e \<in> set es. stq_fresh s e" and "distinct es"
  shows "\<exists>s1 s2. enq_all STQUEUE_ENQUEUE s es = Some s1 \<and> STQUEUE_LENGTH s1 = SZ (length es) \<and>
           drain STQUEUE_HEAD STQUEUE_DEQUEUE (Suc (length es)) s1 = Some (es, s2) \<and> STQUEUE_EMPTY s2"
proof -
  obtain s1 where s1: "enq_all STQUEUE_ENQUEUE s es = Some s1" "stq_rep s1 es"
    using stq.enq_all_rep [OF assms(1,2)] assms(3) by auto
  moreover obtain s2 where "drain STQUEUE_HEAD STQUEUE_DEQUEUE (Suc (length es)) s1 = Some (es, s2)" "stq_rep s2 []"
    using stq.drain_rep [OF s1(2)] by auto
  ultimately show ?thesis by (auto simp: stq_rep_def STQUEUE_LENGTH_def STQUEUE_EMPTY_def)
qed

definition demo_stq :: stq_state where
  "demo_stq = (STQUEUE_INIT, (\<lambda>_. Some \<lparr>snext = None\<rparr>))"

theorem stqueue_fifo_witness:
  "\<exists>s1 s2. enq_all STQUEUE_ENQUEUE demo_stq [3, 1, 2] = Some s1 \<and> STQUEUE_LENGTH s1 = SZ (length [3, 1, 2::nat]) \<and>
     drain STQUEUE_HEAD STQUEUE_DEQUEUE (Suc (length [3, 1, 2::nat])) s1 = Some ([3, 1, 2], s2) \<and> STQUEUE_EMPTY s2"
  by (rule stqueue_fifo) (simp_all add: demo_stq_def STQUEUE_INIT_def stq_rep_def stq_fresh_def SZ_def)

text \<open>
  \<^verbatim>\<open>STQUEUE_ORPHAN\<close> recognises the entries outside the queue that are initialised.
\<close>

lemma stq_orphan:
  assumes "stq_rep s xs"
  shows "stq_fresh s e \<Longrightarrow> e \<notin> set xs \<Longrightarrow> STQUEUE_ORPHAN s e = Some True"
    and "e \<in> set xs \<Longrightarrow> STQUEUE_ORPHAN s e = Some False"
proof -
  obtain q m where s: "s = (q, m)" by (cases s)
  show "STQUEUE_ORPHAN s e = Some True" if "stq_fresh s e" "e \<notin> set xs"
    using assms that by (auto simp: s stq_rep_def STQUEUE_ORPHAN_def stq_fresh_def last_of_Some)
  show "STQUEUE_ORPHAN s e = Some False" if "e \<in> set xs"
  proof -
    obtain ys zs where xs: "xs = ys @ e # zs" using split_list \<open>e \<in> set xs\<close> by fastforce
    show ?thesis using assms by (cases zs) (auto simp: s xs stq_rep_def STQUEUE_ORPHAN_def)
  qed
qed

text \<open>
  \<^verbatim>\<open>STQUEUE_DEQUEUE\<close> leaves the link of the entry it removes, and \<^verbatim>\<open>STQUEUE_ENQUEUE\<close> on an empty
  queue does not reset the link of the one it adds. So an entry that goes through the queue twice
  brings its old successor back: here the second \<^verbatim>\<open>DEQUEUE\<close> of entry 1 makes the removed entry 2
  the head again, of a queue that says it has no elements.
\<close>

lemma stq_enqueue_stale_link:
  "\<exists>s1 s2. enq_all STQUEUE_ENQUEUE demo_stq [1, 2] = Some s1 \<and>
     Option.bind (STQUEUE_DEQUEUE s1) STQUEUE_DEQUEUE = Some s2 \<and> STQUEUE_EMPTY s2 \<and>
     Option.bind (STQUEUE_ENQUEUE s2 1) STQUEUE_DEQUEUE =
       Some (\<lparr>stq_head = Some 2, stq_tail = Some 1, stq_nelems = 0\<rparr>, snd s2)"
  by (simp add: demo_stq_def STQUEUE_INIT_def STQUEUE_ENQUEUE_def STQUEUE_DEQUEUE_def set_snext_def
      STQUEUE_EMPTY_def Let_def SZ_def)

text \<open>Draining with \<^verbatim>\<open>STQUEUE_DEQUEUE_FAST\<close>: the order is the same, the tail is left dangling.\<close>

lemma stq_drain_fast:
  "slinked m xs None \<Longrightarrow> stq_head q = first_of xs None \<Longrightarrow>
     \<exists>q'. drain STQUEUE_HEAD STQUEUE_DEQUEUE_FAST (Suc (length xs)) (q, m) = Some (xs, (q', m)) \<and>
          stq_head q' = None \<and> stq_tail q' = stq_tail q"
proof (induction xs arbitrary: q)
  case (Cons x xs)
  let ?q = "q\<lparr>stq_head := first_of xs None, stq_nelems := SZ (stq_nelems q + 2 ^ 64 - 1)\<rparr>"
  have "STQUEUE_DEQUEUE_FAST (q, m) = Some (?q, m)"
    using Cons.prems by (simp add: STQUEUE_DEQUEUE_FAST_def)
  with Cons.IH [of ?q] Cons.prems show ?case by (auto simp: STQUEUE_HEAD_def)
qed (simp add: STQUEUE_HEAD_def)

end
