(* ===== verification/Mn_Dtqueue.thy ===== *)
theory Mn_Dtqueue
  imports Queue_Spec
begin

text \<open>
  \<^verbatim>\<open>src/src/mncommon/dtqueue.h\<close>: the intrusive doubly linked tail queue, modelled like
  \<^verbatim>\<open>stqueue.h\<close>. \<^verbatim>\<open>PASTEURIZE_ADDR\<close> is that of a build with assertions. \<^verbatim>\<open>DTQUEUE_INSERT_AFTER\<close> is
  left out: it reads \<open>(q).nelems\<close> of the pointer the other lines dereference with an arrow, so no
  use of it compiles.
\<close>

record dlink =
  dnext :: "addr option"
  dprev :: "addr option"

record dtq =
  dtq_head :: "addr option"
  dtq_tail :: "addr option"
  dtq_nelems :: nat

type_synonym dtq_state = "dtq \<times> dlink mem"

definition DTQUEUE_INIT :: "dtq" where
  "DTQUEUE_INIT = \<lparr>dtq_head = None, dtq_tail = None, dtq_nelems = 0\<rparr>"

definition set_dnext :: "dlink mem \<Rightarrow> addr \<Rightarrow> addr option \<Rightarrow> dlink mem option" where
  "set_dnext m a v = map_option (\<lambda>l. m(a \<mapsto> l\<lparr>dnext := v\<rparr>)) (m a)"

definition set_dprev :: "dlink mem \<Rightarrow> addr \<Rightarrow> addr option \<Rightarrow> dlink mem option" where
  "set_dprev m a v = map_option (\<lambda>l. m(a \<mapsto> l\<lparr>dprev := v\<rparr>)) (m a)"

definition DTQUEUE_ENTRY_INIT :: "dlink mem \<Rightarrow> addr \<Rightarrow> dlink mem option" where
  "DTQUEUE_ENTRY_INIT m e = do { m1 \<leftarrow> set_dnext m e None; set_dprev m1 e None }"

definition poison :: "addr option \<Rightarrow> bool" where
  "poison a \<longleftrightarrow> a = Some 0x5a5a5a5a5a5a5a5a \<or> a = Some 0xa5a5a5a5a5a5a5a5"

definition DTQUEUE_ENQUEUE :: "dtq_state \<Rightarrow> addr \<Rightarrow> dtq_state option" where
  "DTQUEUE_ENQUEUE s entry =
     (case s of (q, m) \<Rightarrow>
        do { (q', m') \<leftarrow>
               (case dtq_tail q of
                  None \<Rightarrow> Some (q\<lparr>dtq_head := Some entry, dtq_tail := Some entry\<rparr>, m)
                | Some t \<Rightarrow>
                    do { m1 \<leftarrow> set_dnext m t (Some entry);
                         m2 \<leftarrow> set_dprev m1 entry (Some t);
                         m3 \<leftarrow> set_dnext m2 entry None;
                         Some (q\<lparr>dtq_tail := Some entry\<rparr>, m3) });
             Some (q'\<lparr>dtq_nelems := SZ (dtq_nelems q' + 1)\<rparr>, m') })"

definition DTQUEUE_HEAD :: "dtq_state \<Rightarrow> addr option" where
  "DTQUEUE_HEAD s = dtq_head (fst s)"

definition DTQUEUE_NEXT :: "dtq_state \<Rightarrow> addr \<Rightarrow> addr option option" where
  "DTQUEUE_NEXT s e = map_option dnext (snd s e)"

definition DTQUEUE_PREV :: "dtq_state \<Rightarrow> addr \<Rightarrow> addr option option" where
  "DTQUEUE_PREV s e = map_option dprev (snd s e)"

definition DTQUEUE_TAIL :: "dtq_state \<Rightarrow> addr option" where
  "DTQUEUE_TAIL s = dtq_tail (fst s)"

definition DTQUEUE_LENGTH :: "dtq_state \<Rightarrow> nat" where
  "DTQUEUE_LENGTH s = dtq_nelems (fst s)"

definition DTQUEUE_DEQUEUE :: "dtq_state \<Rightarrow> dtq_state option" where
  "DTQUEUE_DEQUEUE s =
     (case s of (q, m) \<Rightarrow>
        (case dtq_head q of
           Some h \<Rightarrow>
             do { _ \<leftarrow> guard (\<not> poison (Some h));
                  l \<leftarrow> m h;
                  _ \<leftarrow> guard (\<not> poison (dnext l));
                  let q1 = q\<lparr>dtq_head := dnext l\<rparr>;
                  (q2, m2) \<leftarrow>
                    (case dnext l of
                       None \<Rightarrow> Some (q1\<lparr>dtq_tail := None\<rparr>, m)
                     | Some n \<Rightarrow> do { m1 \<leftarrow> set_dprev m n None; Some (q1, m1) });
                  Some (q2\<lparr>dtq_nelems := SZ (dtq_nelems q2 + 2 ^ 64 - 1)\<rparr>, m2) }
         | None \<Rightarrow> Some (q\<lparr>dtq_tail := None\<rparr>, m)))"

definition DTQUEUE_POP :: "dtq_state \<Rightarrow> dtq_state option" where
  "DTQUEUE_POP s =
     (case s of (q, m) \<Rightarrow>
        (case dtq_tail q of
           Some t \<Rightarrow>
             do { _ \<leftarrow> guard (\<not> poison (Some t));
                  l \<leftarrow> m t;
                  _ \<leftarrow> guard (\<not> poison (dprev l));
                  let q1 = q\<lparr>dtq_tail := dprev l\<rparr>;
                  (q2, m2) \<leftarrow>
                    (case dprev l of
                       None \<Rightarrow> Some (q1\<lparr>dtq_head := None\<rparr>, m)
                     | Some p \<Rightarrow> do { m1 \<leftarrow> set_dnext m p None; Some (q1, m1) });
                  Some (q2\<lparr>dtq_nelems := SZ (dtq_nelems q2 + 2 ^ 64 - 1)\<rparr>, m2) }
         | None \<Rightarrow> Some (q\<lparr>dtq_head := None\<rparr>, m)))"

definition DTQUEUE_DEQUEUE_FAST :: "dtq_state \<Rightarrow> dtq_state option" where
  "DTQUEUE_DEQUEUE_FAST s =
     (case s of (q, m) \<Rightarrow>
        do { h \<leftarrow> dtq_head q;
             l \<leftarrow> m h;
             m1 \<leftarrow> (case dnext l of None \<Rightarrow> Some m | Some n \<Rightarrow> set_dprev m n None);
             Some (q\<lparr>dtq_head := dnext l, dtq_nelems := SZ (dtq_nelems q + 2 ^ 64 - 1)\<rparr>, m1) })"

definition DTQUEUE_POP_FAST :: "dtq_state \<Rightarrow> dtq_state option" where
  "DTQUEUE_POP_FAST s =
     (case s of (q, m) \<Rightarrow>
        do { t \<leftarrow> dtq_tail q;
             l \<leftarrow> m t;
             m1 \<leftarrow> (case dprev l of None \<Rightarrow> Some m | Some p \<Rightarrow> set_dnext m p None);
             Some (q\<lparr>dtq_tail := dprev l, dtq_nelems := SZ (dtq_nelems q + 2 ^ 64 - 1)\<rparr>, m1) })"

definition DTQUEUE_REMOVE_DIRTY :: "dtq_state \<Rightarrow> addr \<Rightarrow> dtq_state option" where
  "DTQUEUE_REMOVE_DIRTY s e =
     (case s of (q, m) \<Rightarrow>
        if dtq_head q \<noteq> None \<and> dtq_tail q \<noteq> None then
          do { l \<leftarrow> m e;
               (q', m') \<leftarrow>
                 (case dprev l of
                    Some p \<Rightarrow>
                      (case dnext l of
                         Some n \<Rightarrow>
                           do { m1 \<leftarrow> set_dnext m p (Some n);
                                l1 \<leftarrow> m1 e;
                                n1 \<leftarrow> dnext l1;
                                m2 \<leftarrow> set_dprev m1 n1 (dprev l1);
                                Some (q, m2) }
                       | None \<Rightarrow>
                           do { m1 \<leftarrow> set_dnext m p None; Some (q\<lparr>dtq_tail := Some p\<rparr>, m1) })
                  | None \<Rightarrow>
                      (case dnext l of
                         Some n \<Rightarrow>
                           do { m1 \<leftarrow> set_dprev m n None; Some (q\<lparr>dtq_head := Some n\<rparr>, m1) }
                       | None \<Rightarrow> Some (q\<lparr>dtq_tail := None, dtq_head := None\<rparr>, m)));
               Some (q'\<lparr>dtq_nelems := SZ (dtq_nelems q' + 2 ^ 64 - 1)\<rparr>, m') }
        else Some (q, m))"

definition DTQUEUE_REMOVE :: "dtq_state \<Rightarrow> addr \<Rightarrow> dtq_state option" where
  "DTQUEUE_REMOVE s e =
     do { (q, m) \<leftarrow> DTQUEUE_REMOVE_DIRTY s e; m' \<leftarrow> DTQUEUE_ENTRY_INIT m e; Some (q, m') }"

definition DTQUEUE_ORPHAN :: "dtq_state \<Rightarrow> addr \<Rightarrow> bool option" where
  "DTQUEUE_ORPHAN s e =
     (if dtq_head (fst s) = Some e then Some False
      else map_option (\<lambda>l. dprev l = None \<and> dnext l = None) (snd s e))"

definition DTQUEUE_EMPTY :: "dtq_state \<Rightarrow> bool" where
  "DTQUEUE_EMPTY s \<longleftrightarrow> dtq_head (fst s) = None \<and> dtq_tail (fst s) = None"

definition DTQUEUE_INSERT_BEFORE :: "dtq_state \<Rightarrow> addr option \<Rightarrow> addr option \<Rightarrow> dtq_state option" where
  "DTQUEUE_INSERT_BEFORE s bp ep =
     (case s of (q, m) \<Rightarrow>
        do { b \<leftarrow> bp;
             e \<leftarrow> ep;
             l \<leftarrow> m b;
             (q', m') \<leftarrow>
               (case dprev l of
                  None \<Rightarrow>
                    do { m1 \<leftarrow> set_dprev m e None;
                         m2 \<leftarrow> set_dprev m1 b (Some e);
                         m3 \<leftarrow> set_dnext m2 e (Some b);
                         Some (q\<lparr>dtq_head := Some e\<rparr>, m3) }
                | Some p \<Rightarrow>
                    do { m1 \<leftarrow> set_dprev m e (Some p);
                         m2 \<leftarrow> set_dprev m1 b (Some e);
                         le \<leftarrow> m2 e;
                         p' \<leftarrow> dprev le;
                         m3 \<leftarrow> set_dnext m2 p' (Some e);
                         m4 \<leftarrow> set_dnext m3 e (Some b);
                         Some (q, m4) });
             Some (q'\<lparr>dtq_nelems := SZ (dtq_nelems q' + 1)\<rparr>, m') })"

subsection \<open>The queue a state holds\<close>

fun dlinked :: "dlink mem \<Rightarrow> addr option \<Rightarrow> addr list \<Rightarrow> addr option \<Rightarrow> bool" where
  "dlinked m p [] n \<longleftrightarrow> True"
| "dlinked m p (x # xs) n \<longleftrightarrow>
     m x = Some \<lparr>dnext = first_of xs n, dprev = p\<rparr> \<and> dlinked m (Some x) xs n"

definition dtq_rep :: "dtq_state \<Rightarrow> addr list \<Rightarrow> bool" where
  "dtq_rep s xs \<longleftrightarrow> (case s of (q, m) \<Rightarrow>
     dlinked m None xs None \<and> distinct xs \<and> (\<forall>x \<in> set xs. \<not> poison (Some x)) \<and>
     dtq_head q = first_of xs None \<and> dtq_tail q = last_of None xs \<and> dtq_nelems q = SZ (length xs))"

definition dtq_fresh :: "dtq_state \<Rightarrow> addr \<Rightarrow> bool" where
  "dtq_fresh s e \<longleftrightarrow> snd s e = Some \<lparr>dnext = None, dprev = None\<rparr> \<and> \<not> poison (Some e)"

lemma poison_None [simp]: "\<not> poison None"
  by (simp add: poison_def)

lemma dlinked_append [simp]:
  "dlinked m p (xs @ ys) n \<longleftrightarrow> dlinked m p xs (first_of ys n) \<and> dlinked m (last_of p xs) ys n"
  by (induction xs arbitrary: p) auto

lemma dlinked_frame [simp]: "a \<notin> set xs \<Longrightarrow> dlinked (m(a \<mapsto> v)) p xs n \<longleftrightarrow> dlinked m p xs n"
  by (induction xs arbitrary: p) auto

lemmas dtq_defs = dtq_rep_def dtq_fresh_def set_dnext_def set_dprev_def Let_def

lemma dtq_enq_rep:
  assumes "dtq_rep s xs" "dtq_fresh s x" "x \<notin> set xs"
  shows "\<exists>s'. DTQUEUE_ENQUEUE s x = Some s' \<and> dtq_rep s' (xs @ [x])"
  using assms by (cases xs rule: rev_cases) (auto simp: dtq_defs DTQUEUE_ENQUEUE_def)

lemma dtq_enq_fresh:
  "dtq_rep s xs \<Longrightarrow> DTQUEUE_ENQUEUE s x = Some s' \<Longrightarrow> dtq_fresh s y \<Longrightarrow> y \<noteq> x \<Longrightarrow> y \<notin> set xs \<Longrightarrow> dtq_fresh s' y"
  by (cases xs rule: rev_cases) (auto simp: dtq_defs DTQUEUE_ENQUEUE_def bind_eq_Some_conv)

lemma dtq_deq_rep:
  assumes "dtq_rep s xs" shows "\<exists>s'. DTQUEUE_DEQUEUE s = Some s' \<and> dtq_rep s' (tl xs)"
proof (cases xs)
  case (Cons x ys)
  with assms show ?thesis
    by (cases ys) (auto simp: dtq_defs DTQUEUE_DEQUEUE_def last_of_def split: prod.splits)
qed (use assms in \<open>auto simp: dtq_defs DTQUEUE_DEQUEUE_def split: prod.splits\<close>)

lemma dtq_head_rep: "dtq_rep s xs \<Longrightarrow> DTQUEUE_HEAD s = first_of xs None"
  by (auto simp: dtq_rep_def DTQUEUE_HEAD_def)

interpretation dtq: fifo dtq_rep dtq_fresh DTQUEUE_ENQUEUE DTQUEUE_DEQUEUE DTQUEUE_HEAD
  by (rule fifo.intro) (fact dtq_enq_rep dtq_enq_fresh dtq_deq_rep dtq_head_rep)+

lemma dtq_pop_rep:
  assumes "dtq_rep s xs" shows "\<exists>s'. DTQUEUE_POP s = Some s' \<and> dtq_rep s' (butlast xs)"
proof (cases xs rule: rev_cases)
  case (snoc ys x)
  with assms show ?thesis
    by (cases ys rule: rev_cases) (auto simp: dtq_defs DTQUEUE_POP_def split: prod.splits)
qed (use assms in \<open>auto simp: dtq_defs DTQUEUE_POP_def split: prod.splits\<close>)

lemma dtq_remove_rep:
  assumes "dtq_rep s (ys @ e # zs)"
  shows "\<exists>s'. DTQUEUE_REMOVE s e = Some s' \<and> dtq_rep s' (ys @ zs) \<and> dtq_fresh s' e"
proof -
  obtain q m where s: "s = (q, m)" by (cases s)
  consider "ys = []" "zs = []" | y ys' where "ys = ys' @ [y]" "zs = []" | z zs' where "ys = []" "zs = z # zs'"
    | y ys' z zs' where "ys = ys' @ [y]" "zs = z # zs'"
    by (cases ys rule: rev_cases; cases zs) auto
  then show ?thesis
    using assms
    by cases (auto simp: s dtq_defs DTQUEUE_REMOVE_def DTQUEUE_REMOVE_DIRTY_def DTQUEUE_ENTRY_INIT_def last_of_nonempty)
qed

lemma dtq_insert_rep:
  assumes "dtq_rep s (ys @ b # zs)" "dtq_fresh s e" "e \<notin> set (ys @ b # zs)"
  shows "\<exists>s'. DTQUEUE_INSERT_BEFORE s (Some b) (Some e) = Some s' \<and> dtq_rep s' (ys @ e # b # zs)"
proof -
  obtain q m where s: "s = (q, m)" by (cases s)
  show ?thesis
    using assms
    by (cases ys rule: rev_cases; cases zs) (auto simp: s dtq_defs DTQUEUE_INSERT_BEFORE_def)
qed

text \<open>
  C25: \<^verbatim>\<open>DTQUEUE_REMOVE\<close> of an entry anywhere in the queue (first, last, middle or only) unlinks
  exactly that entry, keeps the order of the others and both chains of links, counts down, and
  leaves the removed entry initialised, so that it can be enqueued again.
\<close>

theorem dtqueue_remove_unlinks:
  assumes "dtq_rep s xs" and "e \<in> set xs"
  shows "\<exists>s'. DTQUEUE_REMOVE s e = Some s' \<and> dtq_rep s' (remove1 e xs) \<and> dtq_fresh s' e"
proof -
  obtain ys zs where xs: "xs = ys @ e # zs" "e \<notin> set ys" using split_list_first [OF assms(2)] by blast
  with dtq_remove_rep [of s ys e zs] assms(1) show ?thesis by (simp add: remove1_append)
qed

text \<open>
  \<^verbatim>\<open>DTQUEUE_INSERT_BEFORE\<close> puts an initialised entry right before a member of the queue, at
  the head or in the middle; with a NULL argument its assertion fails.
\<close>

theorem dtqueue_insert_before_places:
  assumes "dtq_rep s (ys @ b # zs)" and "dtq_fresh s e" and "e \<notin> set (ys @ b # zs)"
  shows "(\<exists>s'. DTQUEUE_INSERT_BEFORE s (Some b) (Some e) = Some s' \<and> dtq_rep s' (ys @ e # b # zs)) \<and>
         DTQUEUE_INSERT_BEFORE s None (Some e) = None \<and> DTQUEUE_INSERT_BEFORE s (Some b) None = None"
  using dtq_insert_rep [OF assms] by (cases s) (simp add: DTQUEUE_INSERT_BEFORE_def)

lemma dtq_pop_drain:
  "dtq_rep s xs \<Longrightarrow> \<exists>s'. drain DTQUEUE_TAIL DTQUEUE_POP (Suc (length xs)) s = Some (rev xs, s') \<and> dtq_rep s' []"
proof (induction xs arbitrary: s rule: rev_induct)
  case Nil
  then show ?case by (auto simp: dtq_rep_def DTQUEUE_TAIL_def)
next
  case (snoc x xs)
  obtain s1 where s1: "DTQUEUE_POP s = Some s1" "dtq_rep s1 xs" using dtq_pop_rep [OF snoc.prems] by auto
  have "DTQUEUE_TAIL s = Some x" using snoc.prems by (auto simp: dtq_rep_def DTQUEUE_TAIL_def)
  with s1 snoc.IH [OF s1(2)] show ?case by auto
qed

text \<open>
  The doubly linked queue works from both ends: entries enqueued on an empty queue leave in
  the same order through \<^verbatim>\<open>DTQUEUE_HEAD\<close> and \<^verbatim>\<open>DTQUEUE_DEQUEUE\<close>, and in the reverse order through
  \<^verbatim>\<open>DTQUEUE_TAIL\<close> and \<^verbatim>\<open>DTQUEUE_POP\<close>, each once, and both loops leave an empty queue.
\<close>

theorem dtqueue_both_ends:
  assumes "dtq_rep s []" and "\<forall>e \<in> set es. dtq_fresh s e" and "distinct es"
  shows "\<exists>s1 s2 s3. enq_all DTQUEUE_ENQUEUE s es = Some s1 \<and> DTQUEUE_LENGTH s1 = SZ (length es) \<and>
           drain DTQUEUE_HEAD DTQUEUE_DEQUEUE (Suc (length es)) s1 = Some (es, s2) \<and> DTQUEUE_EMPTY s2 \<and>
           drain DTQUEUE_TAIL DTQUEUE_POP (Suc (length es)) s1 = Some (rev es, s3) \<and> DTQUEUE_EMPTY s3"
proof -
  obtain s1 where s1: "enq_all DTQUEUE_ENQUEUE s es = Some s1" "dtq_rep s1 es"
    using dtq.enq_all_rep [OF assms(1,2)] assms(3) by auto
  moreover obtain s2 where "drain DTQUEUE_HEAD DTQUEUE_DEQUEUE (Suc (length es)) s1 = Some (es, s2)" "dtq_rep s2 []"
    using dtq.drain_rep [OF s1(2)] by auto
  moreover obtain s3 where "drain DTQUEUE_TAIL DTQUEUE_POP (Suc (length es)) s1 = Some (rev es, s3)" "dtq_rep s3 []"
    using dtq_pop_drain [OF s1(2)] by auto
  ultimately show ?thesis by (auto simp: dtq_rep_def DTQUEUE_LENGTH_def DTQUEUE_EMPTY_def)
qed

definition demo_dtq :: dtq_state where
  "demo_dtq = (DTQUEUE_INIT, (\<lambda>_. Some \<lparr>dnext = None, dprev = None\<rparr>))"

definition demo_dtq3 :: dtq_state where
  "demo_dtq3 = (\<lparr>dtq_head = Some 1, dtq_tail = Some 3, dtq_nelems = 3\<rparr>,
     (\<lambda>_. Some \<lparr>dnext = None, dprev = None\<rparr>)
       (1 \<mapsto> \<lparr>dnext = Some 2, dprev = None\<rparr>, 2 \<mapsto> \<lparr>dnext = Some 3, dprev = Some 1\<rparr>,
        3 \<mapsto> \<lparr>dnext = None, dprev = Some 2\<rparr>))"

lemma demo_dtq3_rep: "dtq_rep demo_dtq3 [1, 2, 3]"
  by (simp add: demo_dtq3_def dtq_rep_def poison_def SZ_def)

theorem dtqueue_both_ends_witness:
  "\<exists>s1 s2 s3. enq_all DTQUEUE_ENQUEUE demo_dtq [3, 1, 2] = Some s1 \<and> DTQUEUE_LENGTH s1 = SZ (length [3, 1, 2::nat]) \<and>
     drain DTQUEUE_HEAD DTQUEUE_DEQUEUE (Suc (length [3, 1, 2::nat])) s1 = Some ([3, 1, 2], s2) \<and> DTQUEUE_EMPTY s2 \<and>
     drain DTQUEUE_TAIL DTQUEUE_POP (Suc (length [3, 1, 2::nat])) s1 = Some (rev [3, 1, 2], s3) \<and> DTQUEUE_EMPTY s3"
  by (rule dtqueue_both_ends)
     (simp_all add: demo_dtq_def DTQUEUE_INIT_def dtq_rep_def dtq_fresh_def SZ_def poison_def)

theorem dtqueue_remove_unlinks_witness:
  "\<exists>s'. DTQUEUE_REMOVE demo_dtq3 2 = Some s' \<and> dtq_rep s' (remove1 2 [1, 2, 3]) \<and> dtq_fresh s' 2"
  by (rule dtqueue_remove_unlinks [OF demo_dtq3_rep]) simp

theorem dtqueue_insert_before_places_witness:
  "(\<exists>s'. DTQUEUE_INSERT_BEFORE demo_dtq3 (Some 2) (Some 9) = Some s' \<and> dtq_rep s' ([1] @ 9 # 2 # [3])) \<and>
   DTQUEUE_INSERT_BEFORE demo_dtq3 None (Some 9) = None \<and> DTQUEUE_INSERT_BEFORE demo_dtq3 (Some 2) None = None"
  by (rule dtqueue_insert_before_places)
     (use demo_dtq3_rep in \<open>simp_all add: dtq_fresh_def demo_dtq3_def poison_def\<close>)

subsection \<open>Where the queue can break\<close>

text \<open>
  As in \<^verbatim>\<open>stqueue.h\<close>, an entry that is dequeued keeps its link and an enqueue on the empty queue
  does not reset it: entry 2 comes back when entry 1 goes through the queue again.
\<close>

lemma dtq_enqueue_stale_link:
  "\<exists>s1 s2 s3. enq_all DTQUEUE_ENQUEUE demo_dtq [1, 2] = Some s1 \<and>
     Option.bind (DTQUEUE_DEQUEUE s1) DTQUEUE_DEQUEUE = Some s2 \<and> DTQUEUE_EMPTY s2 \<and>
     Option.bind (DTQUEUE_ENQUEUE s2 1) DTQUEUE_DEQUEUE = Some s3 \<and>
     DTQUEUE_HEAD s3 = Some 2 \<and> DTQUEUE_LENGTH s3 = 0"
  by (simp add: demo_dtq_def DTQUEUE_INIT_def DTQUEUE_ENQUEUE_def DTQUEUE_DEQUEUE_def set_dnext_def
      set_dprev_def DTQUEUE_EMPTY_def DTQUEUE_HEAD_def DTQUEUE_LENGTH_def poison_def Let_def SZ_def)

text \<open>
  \<^verbatim>\<open>DTQUEUE_REMOVE\<close> of an initialised entry that is not in the queue empties the queue: an entry
  without neighbours is taken for the only one.
\<close>

lemma dtq_remove_outsider:
  assumes "dtq_rep s xs" "xs \<noteq> []" "dtq_fresh s e" "e \<notin> set xs"
  shows "\<exists>s'. DTQUEUE_REMOVE s e = Some s' \<and> DTQUEUE_EMPTY s'"
  using assms
  by (cases s) (auto simp: dtq_defs DTQUEUE_REMOVE_def DTQUEUE_REMOVE_DIRTY_def DTQUEUE_ENTRY_INIT_def
      DTQUEUE_EMPTY_def)

end
