(* ===== verification/Mn_Hash.thy ===== *)
theory Mn_Hash
  imports Mn_Array Queue_Spec
begin

text \<open>
  \<^verbatim>\<open>src/src/hash.c\<close>: the chained hash table. The table is an array of \<^verbatim>\<open>Mn_Array\<close> whose slots
  are addresses of items; the items live in a store (a map from addresses). A \<^verbatim>\<open>bucket\<close> pointer
  is the index of the table slot it points to. \<^verbatim>\<open>malloc\<close> of an item is a parameter that yields
  the address and whatever the block holds; \<^verbatim>\<open>free\<close> removes the address from the store, so a
  later use of it faults (the pool's \<^verbatim>\<open>free\<close> overwrites the block, which makes it just as
  unusable). A chain that does not end makes the loops over it diverge, which is \<^const>\<open>None\<close> too.
\<close>

subsection \<open>State\<close>

record ('k, 'v) hitem =
  hbucket :: "nat option"
  hprev :: "addr option"
  hnext :: "addr option"
  hkey :: 'k
  hvalue :: 'v

record ('k, 'v, 'w) mnhash =
  dhashfn :: "'k \<Rightarrow> u64"
  dcmp :: "'k \<Rightarrow> 'k \<Rightarrow> int"
  dfini :: "('k \<Rightarrow> 'v \<Rightarrow> 'w \<Rightarrow> int \<times> 'w) option"
  dtable :: "(addr option, 'w) mnarray"
  delnum :: nat

record mnhash_iter =
  hit_it :: mnarray_iter
  hit_phit :: "nat option"
  hit_hit :: "addr option"

type_synonym ('k, 'v) hstore = "('k, 'v) hitem mem"
type_synonym ('k, 'v) hmalloc = "('k, 'v) hstore \<Rightarrow> (addr \<times> ('k, 'v) hitem) option"

definition upd_item :: "('k, 'v) hstore \<Rightarrow> addr \<Rightarrow> (('k, 'v) hitem \<Rightarrow> ('k, 'v) hitem) \<Rightarrow> ('k, 'v) hstore option" where
  "upd_item m a f = map_option (\<lambda>it. m(a \<mapsto> f it)) (m a)"

definition free_item :: "('k, 'v) hstore \<Rightarrow> addr \<Rightarrow> ('k, 'v) hstore option" where
  "free_item m a = map_option (\<lambda>_. m(a := None)) (m a)"

text \<open>\<^verbatim>\<open>*phit\<close> read and written.\<close>

definition slot_get :: "('k, 'v, 'w) mnhash \<Rightarrow> nat \<Rightarrow> addr option option" where
  "slot_get dict p = peek (slots (dtable dict)) p"

definition slot_set :: "('k, 'v, 'w) mnhash \<Rightarrow> nat \<Rightarrow> addr option \<Rightarrow> ('k, 'v, 'w) mnhash option" where
  "slot_set dict p v =
     do { xs \<leftarrow> poke (slots (dtable dict)) p v; Some (dict\<lparr>dtable := (dtable dict)\<lparr>data := Some xs\<rparr>\<rparr>) }"

text \<open>\<^verbatim>\<open>array_get(&dict->table, dict->hashfn(key) % dict->table.elnum)\<close>, with its two
  failures; the parameter of \<^verbatim>\<open>array_get\<close> is an \<^verbatim>\<open>unsigned\<close>.\<close>

definition bucket_of :: "('k, 'v, 'w) mnhash \<Rightarrow> 'k \<Rightarrow> nat option" where
  "bucket_of dict key =
     do { _ \<leftarrow> guard (elnum (dtable dict) > 0);
          array_get (dtable dict) (U32 (unat (dhashfn dict key) mod elnum (dtable dict))) }"

text \<open>The loop over a chain: the first item with the property.\<close>

partial_function (option) find_chain ::
  "('k, 'v) hstore \<Rightarrow> (('k, 'v) hitem \<Rightarrow> bool) \<Rightarrow> addr option \<Rightarrow> addr option option" where
  "find_chain m P h =
     (case h of
        None \<Rightarrow> Some None
      | Some a \<Rightarrow> do { it \<leftarrow> m a; if P it then Some (Some a) else find_chain m P (hnext it) })"

subsection \<open>Creation\<close>

definition null_init :: "(addr option, 'w) cb" where
  "null_init e w = (0, None, w)"

definition hash_init_body ::
  "nat \<Rightarrow> ('k \<Rightarrow> u64) \<Rightarrow> ('k \<Rightarrow> 'k \<Rightarrow> int) \<Rightarrow> ('k \<Rightarrow> 'v \<Rightarrow> 'w \<Rightarrow> int \<times> 'w) option
     \<Rightarrow> addr option alloc \<Rightarrow> 'w \<Rightarrow> (('k, 'v, 'w) mnhash \<times> 'w) option" where
  "hash_init_body sz hashfn cmp fin alloc w =
     do { (_, ar, w') \<leftarrow> array_init 8 sz (Some null_init) None alloc w;
          Some (\<lparr>dhashfn = hashfn, dcmp = cmp, dfini = fin, dtable = ar, delnum = 0\<rparr>, w') }"

definition hash_init where "hash_init sz hashfn cmp fin malloc w = hash_init_body sz hashfn cmp fin malloc w"

definition hash_init_mpool where "hash_init_mpool pool sz hashfn cmp fin w = hash_init_body sz hashfn cmp fin pool w"

definition hash_new where
  "hash_new struct_ok sz hashfn cmp fin malloc w =
     do { _ \<leftarrow> guard struct_ok; hash_init_body sz hashfn cmp fin malloc w }"

definition hash_new_mpool where
  "hash_new_mpool struct_ok pool sz hashfn cmp fin w =
     do { _ \<leftarrow> guard struct_ok; hash_init_body sz hashfn cmp fin pool w }"

subsection \<open>Insertion and lookup\<close>

text \<open>What insertion does before the head of a chain: the displaced head loses its bucket.\<close>

definition displace_head :: "('k, 'v) hstore \<Rightarrow> addr option \<Rightarrow> addr \<Rightarrow> ('k, 'v) hstore option" where
  "displace_head m head a =
     (case head of
        None \<Rightarrow> Some m
      | Some h \<Rightarrow> upd_item m h (\<lambda>it. it\<lparr>hprev := Some a, hbucket := None\<rparr>))"

definition hash_set_item_body ::
  "('k, 'v, 'w) mnhash \<Rightarrow> ('k, 'v) hstore \<Rightarrow> 'k \<Rightarrow> 'v \<Rightarrow> ('k, 'v) hmalloc
     \<Rightarrow> (('k, 'v, 'w) mnhash \<times> ('k, 'v) hstore) option" where
  "hash_set_item_body dict m key value malloc =
     do { p \<leftarrow> bucket_of dict key;
          (a, junk) \<leftarrow> malloc m;
          head \<leftarrow> slot_get dict p;
          let hit = junk\<lparr>hbucket := Some p, hprev := None, hnext := head, hkey := key, hvalue := value\<rparr>;
          m1 \<leftarrow> displace_head (m(a \<mapsto> hit)) head a;
          dict1 \<leftarrow> slot_set dict p (Some a);
          Some (dict1\<lparr>delnum := SZ (delnum dict1 + 1)\<rparr>, m1) }"

definition hash_set_item where "hash_set_item dict m key value malloc = hash_set_item_body dict m key value malloc"

definition hash_set_item_mpool where "hash_set_item_mpool pool dict m key value = hash_set_item_body dict m key value pool"

text \<open>
  \<^verbatim>\<open>hash_set_item_uniq\<close>: the last two components are \<^verbatim>\<open>*oldkey\<close> and \<^verbatim>\<open>*oldvalue\<close>. In a
  non-empty bucket the new item's \<^verbatim>\<open>bucket\<close> and \<^verbatim>\<open>prev\<close> are not written: they are what the
  block held.
\<close>

definition hash_set_item_uniq_body ::
  "('k, 'v, 'w) mnhash \<Rightarrow> ('k, 'v) hstore \<Rightarrow> 'w \<Rightarrow> 'k \<Rightarrow> 'v \<Rightarrow> ('k, 'v) hmalloc
     \<Rightarrow> (('k, 'v, 'w) mnhash \<times> ('k, 'v) hstore \<times> 'w \<times> 'k option \<times> 'v option) option" where
  "hash_set_item_uniq_body dict m w key value malloc =
     do { p \<leftarrow> bucket_of dict key;
          head \<leftarrow> slot_get dict p;
          case head of
            None \<Rightarrow>
              do { (a, junk) \<leftarrow> malloc m;
                   let hit = junk\<lparr>hbucket := Some p, hprev := None, hnext := None, hkey := key, hvalue := value\<rparr>;
                   dict1 \<leftarrow> slot_set dict p (Some a);
                   Some (dict1\<lparr>delnum := SZ (delnum dict1 + 1)\<rparr>, m(a \<mapsto> hit), w, None, None) }
          | Some h \<Rightarrow>
              do { found \<leftarrow> find_chain m (\<lambda>it. dcmp dict key (hkey it) = 0) (Some h);
                   case found of
                     Some a \<Rightarrow>
                       do { it \<leftarrow> m a;
                            let w' = (case dfini dict of None \<Rightarrow> w | Some f \<Rightarrow> snd (f (hkey it) (hvalue it) w));
                            Some (dict, m(a \<mapsto> it\<lparr>hkey := key, hvalue := value\<rparr>), w', Some (hkey it), Some (hvalue it)) }
                   | None \<Rightarrow>
                       do { (a, junk) \<leftarrow> malloc m;
                            let hit = junk\<lparr>hnext := Some h, hkey := key, hvalue := value\<rparr>;
                            m1 \<leftarrow> displace_head (m(a \<mapsto> hit)) (Some h) a;
                            dict1 \<leftarrow> slot_set dict p (Some a);
                            Some (dict1\<lparr>delnum := SZ (delnum dict1 + 1)\<rparr>, m1, w, None, None) } } }"

definition hash_set_item_uniq where
  "hash_set_item_uniq dict m w key value malloc = hash_set_item_uniq_body dict m w key value malloc"

definition hash_set_item_uniq_mpool where
  "hash_set_item_uniq_mpool pool dict m w key value = hash_set_item_uniq_body dict m w key value pool"

definition hash_get_item ::
  "('k, 'v, 'w) mnhash \<Rightarrow> ('k, 'v) hstore \<Rightarrow> 'k \<Rightarrow> addr option option" where
  "hash_get_item dict m key =
     (if delnum dict = 0 then Some None
      else do { p \<leftarrow> bucket_of dict key;
                head \<leftarrow> slot_get dict p;
                find_chain m (\<lambda>it. dcmp dict key (hkey it) = 0) head })"

subsection \<open>Removal\<close>

text \<open>
  \<^verbatim>\<open>hash_remove_item\<close> returns the value, or NULL; it tests the head of the chain and then the
  rest of it. The head's successor gets no bucket.
\<close>

definition hash_remove_item_body ::
  "('k, 'v, 'w) mnhash \<Rightarrow> ('k, 'v) hstore \<Rightarrow> 'k
     \<Rightarrow> (('k, 'v, 'w) mnhash \<times> ('k, 'v) hstore \<times> 'v option) option" where
  "hash_remove_item_body dict m key =
     do { p \<leftarrow> bucket_of dict key;
          head \<leftarrow> slot_get dict p;
          case head of
            None \<Rightarrow> Some (dict, m, None)
          | Some h \<Rightarrow>
              do { it \<leftarrow> m h;
                   if dcmp dict key (hkey it) = 0 then
                     do { m1 \<leftarrow> (case hnext it of None \<Rightarrow> Some m | Some n \<Rightarrow> upd_item m n (\<lambda>i. i\<lparr>hprev := None\<rparr>));
                          dict1 \<leftarrow> slot_set dict p (hnext it);
                          m2 \<leftarrow> free_item m1 h;
                          Some (dict1\<lparr>delnum := SZ (delnum dict1 + 2 ^ 64 - 1)\<rparr>, m2, Some (hvalue it)) }
                   else
                     do { found \<leftarrow> find_chain m (\<lambda>i. dcmp dict key (hkey i) = 0) (hnext it);
                          case found of
                            None \<Rightarrow> Some (dict, m, None)
                          | Some a \<Rightarrow>
                              do { x \<leftarrow> m a;
                                   q \<leftarrow> hprev x;
                                   m1 \<leftarrow> upd_item m q (\<lambda>i. i\<lparr>hnext := hnext x\<rparr>);
                                   m2 \<leftarrow> (case hnext x of None \<Rightarrow> Some m1
                                          | Some n \<Rightarrow> upd_item m1 n (\<lambda>i. i\<lparr>hprev := hprev x\<rparr>));
                                   m3 \<leftarrow> free_item m2 a;
                                   Some (dict\<lparr>delnum := SZ (delnum dict + 2 ^ 64 - 1)\<rparr>, m3, Some (hvalue x)) } } } }"

definition hash_remove_item where "hash_remove_item dict m key = hash_remove_item_body dict m key"

definition hash_remove_item_mpool where "hash_remove_item_mpool dict m key = hash_remove_item_body dict m key"

definition hash_delete_pair_no_fini_body ::
  "('k, 'v, 'w) mnhash \<Rightarrow> ('k, 'v) hstore \<Rightarrow> addr
     \<Rightarrow> (('k, 'v, 'w) mnhash \<times> ('k, 'v) hstore) option" where
  "hash_delete_pair_no_fini_body dict m hit =
     do { it \<leftarrow> m hit;
          (dict1, m1) \<leftarrow>
            (case hprev it of
               Some q \<Rightarrow> do { m1 \<leftarrow> upd_item m q (\<lambda>i. i\<lparr>hnext := hnext it\<rparr>); Some (dict, m1) }
             | None \<Rightarrow> do { p \<leftarrow> hbucket it; dict1 \<leftarrow> slot_set dict p (hnext it); Some (dict1, m) });
          m2 \<leftarrow>
            (case hnext it of
               None \<Rightarrow> Some m1
             | Some n \<Rightarrow>
                 upd_item m1 n (\<lambda>i. if hprev it = None then i\<lparr>hprev := hprev it, hbucket := hbucket it\<rparr>
                                     else i\<lparr>hprev := hprev it\<rparr>));
          m3 \<leftarrow> free_item m2 hit;
          Some (dict1\<lparr>delnum := SZ (delnum dict1 + 2 ^ 64 - 1)\<rparr>, m3) }"

text \<open>The variant with the finalizer runs it on the pair just before it frees the item.\<close>

definition hash_delete_pair_body ::
  "('k, 'v, 'w) mnhash \<Rightarrow> ('k, 'v) hstore \<Rightarrow> 'w \<Rightarrow> addr
     \<Rightarrow> (('k, 'v, 'w) mnhash \<times> ('k, 'v) hstore \<times> 'w) option" where
  "hash_delete_pair_body dict m w hit =
     do { it \<leftarrow> m hit;
          (dict1, m1) \<leftarrow> hash_delete_pair_no_fini_body dict m hit;
          let w' = (case dfini dict of None \<Rightarrow> w | Some f \<Rightarrow> snd (f (hkey it) (hvalue it) w));
          Some (dict1, m1, w') }"

definition hash_delete_pair where "hash_delete_pair dict m w hit = hash_delete_pair_body dict m w hit"

definition hash_delete_pair_mpool where "hash_delete_pair_mpool dict m w hit = hash_delete_pair_body dict m w hit"

definition hash_delete_pair_no_fini where
  "hash_delete_pair_no_fini dict m hit = hash_delete_pair_no_fini_body dict m hit"

definition hash_delete_pair_no_fini_mpool where
  "hash_delete_pair_no_fini_mpool dict m hit = hash_delete_pair_no_fini_body dict m hit"

subsection \<open>Traversal and iteration\<close>

text \<open>
  A traversal's state is the dictionary, the store and the client's data: the callback may
  change all three. The address of the next item is read before the callback runs. A callback
  that faults makes the traversal fault.
\<close>

type_synonym ('k, 'v, 'w, 'u) tstate = "('k, 'v, 'w) mnhash \<times> ('k, 'v) hstore \<times> 'u"
type_synonym ('k, 'v, 'w, 'u) tcb =
  "addr \<Rightarrow> ('k, 'v, 'w, 'u) tstate \<Rightarrow> (int \<times> ('k, 'v, 'w, 'u) tstate) option"

partial_function (option) trav_chain ::
  "('k, 'v, 'w, 'u) tcb \<Rightarrow> addr option \<Rightarrow> ('k, 'v, 'w, 'u) tstate \<Rightarrow> (int \<times> ('k, 'v, 'w, 'u) tstate) option" where
  "trav_chain cb h st =
     (case h of
        None \<Rightarrow> Some (0, st)
      | Some a \<Rightarrow>
          do { it \<leftarrow> fst (snd st) a;
               (r, st') \<leftarrow> cb a st;
               if r \<noteq> 0 then Some (r, st') else trav_chain cb (hnext it) st' })"

partial_function (option) trav_buckets ::
  "('k, 'v, 'w, 'u) tcb \<Rightarrow> nat option \<times> mnarray_iter \<Rightarrow> ('k, 'v, 'w, 'u) tstate
     \<Rightarrow> (int \<times> ('k, 'v, 'w, 'u) tstate) option" where
  "trav_buckets cb pos st =
     (case fst pos of
        None \<Rightarrow> Some (0, st)
      | Some p \<Rightarrow>
          do { head \<leftarrow> slot_get (fst st) p;
               (r, st') \<leftarrow> trav_chain cb head st;
               if r \<noteq> 0 then Some (r, st')
               else trav_buckets cb (array_next (dtable (fst st')) (snd pos)) st' })"

definition hash_traverse_item ::
  "('k, 'v, 'w) mnhash \<Rightarrow> ('k, 'v) hstore \<Rightarrow> ('k, 'v, 'w, 'u) tcb \<Rightarrow> 'u
     \<Rightarrow> (int \<times> ('k, 'v, 'w, 'u) tstate) option" where
  "hash_traverse_item dict m cb u = trav_buckets cb (array_first (dtable dict) \<lparr>iter = 0\<rparr>) (dict, m, u)"

definition hash_traverse ::
  "('k, 'v, 'w) mnhash \<Rightarrow> ('k, 'v) hstore
     \<Rightarrow> ('k \<Rightarrow> 'v \<Rightarrow> ('k, 'v, 'w, 'u) tstate \<Rightarrow> (int \<times> ('k, 'v, 'w, 'u) tstate) option) \<Rightarrow> 'u
     \<Rightarrow> (int \<times> ('k, 'v, 'w, 'u) tstate) option" where
  "hash_traverse dict m cb u =
     trav_buckets (\<lambda>a st. do { it \<leftarrow> fst (snd st) a; cb (hkey it) (hvalue it) st })
       (array_first (dtable dict) \<lparr>iter = 0\<rparr>) (dict, m, u)"

text \<open>The loop that moves to the next bucket with an item, shared by \<^verbatim>\<open>hash_first\<close> and \<^verbatim>\<open>hash_next\<close>.\<close>

partial_function (option) seek_bucket ::
  "('k, 'v, 'w) mnhash \<Rightarrow> nat option \<times> mnarray_iter \<Rightarrow> mnhash_iter option" where
  "seek_bucket dict pos =
     (case fst pos of
        None \<Rightarrow> Some \<lparr>hit_it = snd pos, hit_phit = None, hit_hit = None\<rparr>
      | Some p \<Rightarrow>
          do { head \<leftarrow> slot_get dict p;
               if head \<noteq> None then Some \<lparr>hit_it = snd pos, hit_phit = Some p, hit_hit = head\<rparr>
               else seek_bucket dict (array_next (dtable dict) (snd pos)) })"

definition hash_first :: "('k, 'v, 'w) mnhash \<Rightarrow> mnhash_iter \<Rightarrow> (addr option \<times> mnhash_iter) option" where
  "hash_first hash it =
     do { it' \<leftarrow> seek_bucket hash (array_first (dtable hash) (hit_it it)); Some (hit_hit it', it') }"

definition hash_next ::
  "('k, 'v, 'w) mnhash \<Rightarrow> ('k, 'v) hstore \<Rightarrow> mnhash_iter \<Rightarrow> (addr option \<times> mnhash_iter) option" where
  "hash_next hash m it =
     do { h \<leftarrow> (case hit_hit it of None \<Rightarrow> Some None | Some a \<Rightarrow> do { x \<leftarrow> m a; Some (hnext x) });
          it' \<leftarrow> (if h = None then seek_bucket hash (array_next (dtable hash) (hit_it it))
                  else Some (it\<lparr>hit_hit := h\<rparr>));
          Some (hit_hit it', it') }"

definition hash_is_empty :: "('k, 'v, 'w) mnhash \<Rightarrow> bool" where
  "hash_is_empty dict \<longleftrightarrow> delnum dict = 0"

definition hash_get_elnum :: "('k, 'v, 'w) mnhash \<Rightarrow> nat" where
  "hash_get_elnum dict = delnum dict"

subsection \<open>Rehashing\<close>

text \<open>\<^verbatim>\<open>my_rehash\<close> collects the items in the block \<^verbatim>\<open>tmp\<close>.\<close>

definition my_rehash :: "('k, 'v, 'w, addr option list \<times> nat) tcb" where
  "my_rehash a st =
     (case st of (d, m, tmp, n) \<Rightarrow> do { tmp' \<leftarrow> poke tmp n (Some a); Some (0, d, m, tmp', n + 1) })"

text \<open>One round of the loop that puts the collected items back.\<close>

definition rehash_one ::
  "('k, 'v, 'w) mnhash \<Rightarrow> ('k, 'v) hstore \<Rightarrow> nat \<Rightarrow> addr option
     \<Rightarrow> (('k, 'v, 'w) mnhash \<times> ('k, 'v) hstore) option" where
  "rehash_one dict m sz hit =
     do { a \<leftarrow> hit;
          it \<leftarrow> m a;
          _ \<leftarrow> guard (sz > 0);
          p \<leftarrow> array_get (dtable dict) (U32 (unat (dhashfn dict (hkey it)) mod sz));
          head \<leftarrow> slot_get dict p;
          m1 \<leftarrow> displace_head (m(a \<mapsto> it\<lparr>hbucket := Some p, hprev := None, hnext := head\<rparr>)) head a;
          dict1 \<leftarrow> slot_set dict p (Some a);
          Some (dict1, m1) }"

text \<open>
  The loop around it. Its counter is an \<^verbatim>\<open>unsigned\<close>, its bound a \<^verbatim>\<open>size_t\<close>: with \<^verbatim>\<open>2^32\<close> items
  or more the counter wraps before it gets there and the loop does not end.
\<close>

partial_function (option) rehash_all ::
  "('k, 'v, 'w) mnhash \<Rightarrow> ('k, 'v) hstore \<Rightarrow> nat \<Rightarrow> addr option list \<Rightarrow> nat
     \<Rightarrow> (('k, 'v, 'w) mnhash \<times> ('k, 'v) hstore) option" where
  "rehash_all dict m sz tmp i =
     (if i < delnum dict then
        do { hit \<leftarrow> peek tmp i;
             (dict1, m1) \<leftarrow> rehash_one dict m sz hit;
             rehash_all dict1 m1 sz tmp (U32 (i + 1)) }
      else Some (dict, m))"

text \<open>\<open>tmp_alloc\<close> is the request for the block of pointers, \<open>alloc\<close> the table's.\<close>

definition hash_rehash_body ::
  "('k, 'v, 'w) mnhash \<Rightarrow> ('k, 'v) hstore \<Rightarrow> 'w \<Rightarrow> nat \<Rightarrow> addr option alloc \<Rightarrow> addr option alloc
     \<Rightarrow> (('k, 'v, 'w) mnhash \<times> ('k, 'v) hstore \<times> 'w) option" where
  "hash_rehash_body dict m w sz tmp_alloc alloc =
     do { tmp \<leftarrow> tmp_alloc (delnum dict);
          (r, d1, m1, tmp1, n) \<leftarrow> hash_traverse_item dict m my_rehash (tmp, 0);
          _ \<leftarrow> guard (r = 0);
          (rc, ar, w') \<leftarrow> array_reset_no_fini_body (dtable d1) sz alloc w;
          _ \<leftarrow> guard (rc = rc_ok);
          _ \<leftarrow> guard (n = delnum d1);
          (d2, m2) \<leftarrow> rehash_all (d1\<lparr>dtable := ar\<rparr>) m1 sz tmp1 0;
          Some (d2, m2, w') }"

definition hash_rehash where
  "hash_rehash dict m w sz tmp_malloc malloc = hash_rehash_body dict m w sz tmp_malloc malloc"

definition hash_rehash_mpool where
  "hash_rehash_mpool tmp_pool pool dict m w sz = hash_rehash_body dict m w sz tmp_pool pool"

subsection \<open>Emptying\<close>

text \<open>A finalizer that returns non-zero ends the loop over that chain.\<close>

partial_function (option) free_chain ::
  "addr option \<Rightarrow> ('k, 'v, 'w) mnhash \<Rightarrow> ('k, 'v) hstore \<Rightarrow> 'w
     \<Rightarrow> (('k, 'v, 'w) mnhash \<times> ('k, 'v) hstore \<times> 'w) option" where
  "free_chain h dict m w =
     (case h of
        None \<Rightarrow> Some (dict, m, w)
      | Some a \<Rightarrow>
          do { it \<leftarrow> m a;
               let (r, w') = (case dfini dict of None \<Rightarrow> (0, w) | Some f \<Rightarrow> f (hkey it) (hvalue it) w);
               if r \<noteq> 0 then Some (dict, m, w')
               else do { m1 \<leftarrow> free_item m a;
                         free_chain (hnext it) (dict\<lparr>delnum := SZ (delnum dict + 2 ^ 64 - 1)\<rparr>) m1 w' } })"

fun cleanup_buckets ::
  "nat list \<Rightarrow> ('k, 'v, 'w) mnhash \<Rightarrow> ('k, 'v) hstore \<Rightarrow> 'w
     \<Rightarrow> (('k, 'v, 'w) mnhash \<times> ('k, 'v) hstore \<times> 'w) option" where
  "cleanup_buckets [] dict m w = Some (dict, m, w)"
| "cleanup_buckets (i # is) dict m w =
     do { head \<leftarrow> slot_get dict i;
          (d1, m1, w1) \<leftarrow> free_chain head dict m w;
          d2 \<leftarrow> slot_set d1 i None;
          cleanup_buckets is d2 m1 w1 }"

definition hash_cleanup_body ::
  "('k, 'v, 'w) mnhash \<Rightarrow> ('k, 'v) hstore \<Rightarrow> 'w \<Rightarrow> (('k, 'v, 'w) mnhash \<times> ('k, 'v) hstore \<times> 'w) option" where
  "hash_cleanup_body dict m w = cleanup_buckets [0..<elnum (dtable dict)] dict m w"

definition hash_cleanup where "hash_cleanup dict m w = hash_cleanup_body dict m w"

definition hash_cleanup_mpool where "hash_cleanup_mpool dict m w = hash_cleanup_body dict m w"

definition hash_fini ::
  "('k, 'v, 'w) mnhash \<Rightarrow> ('k, 'v) hstore \<Rightarrow> 'w \<Rightarrow> (('k, 'v, 'w) mnhash \<times> ('k, 'v) hstore \<times> 'w) option" where
  "hash_fini dict m w =
     do { (d1, m1, w1) \<leftarrow> hash_cleanup dict m w;
          (_, ar, w2) \<leftarrow> array_fini (dtable d1) w1;
          Some (d1\<lparr>dtable := ar\<rparr>, m1, w2) }"

definition hash_fini_mpool ::
  "('k, 'v, 'w) mnhash \<Rightarrow> ('k, 'v) hstore \<Rightarrow> 'w \<Rightarrow> (('k, 'v, 'w) mnhash \<times> ('k, 'v) hstore \<times> 'w) option" where
  "hash_fini_mpool dict m w =
     do { (d1, m1, w1) \<leftarrow> hash_cleanup_mpool dict m w;
          (_, ar, w2) \<leftarrow> array_fini_mpool (dtable d1) w1;
          Some (d1\<lparr>dtable := ar\<rparr>, m1, w2) }"

text \<open>The dictionary's structure goes: only the store and the client's state are left.\<close>

definition hash_destroy ::
  "('k, 'v, 'w) mnhash option \<Rightarrow> ('k, 'v) hstore \<Rightarrow> 'w \<Rightarrow> (('k, 'v, 'w) mnhash option \<times> ('k, 'v) hstore \<times> 'w) option" where
  "hash_destroy hash m w =
     (case hash of
        None \<Rightarrow> Some (None, m, w)
      | Some d \<Rightarrow> do { (_, m1, w1) \<leftarrow> hash_fini d m w; Some (None, m1, w1) })"

definition hash_destroy_mpool ::
  "('k, 'v, 'w) mnhash option \<Rightarrow> ('k, 'v) hstore \<Rightarrow> 'w \<Rightarrow> (('k, 'v, 'w) mnhash option \<times> ('k, 'v) hstore \<times> 'w) option" where
  "hash_destroy_mpool hash m w =
     (case hash of
        None \<Rightarrow> Some (None, m, w)
      | Some d \<Rightarrow> do { (_, m1, w1) \<leftarrow> hash_fini_mpool d m w; Some (None, m1, w1) })"

end
