(* ===== verification/Hash_Refine.thy ===== *)
theory Hash_Refine
  imports Mn_Hash
begin

text \<open>
  The dictionary \<^verbatim>\<open>hash.c\<close> implements. Its abstract state is one list of entries (address, key,
  value) per bucket; \<open>dict_rep\<close> relates it to the table and the store, and every operation of
  \<^verbatim>\<open>Mn_Hash\<close> refines an operation on those lists. What the client promises of its hash function and
  comparator is the locale \<open>hash_key\<close>.
\<close>

subsection \<open>Chains\<close>

type_synonym ('k, 'v) entry = "addr \<times> 'k \<times> 'v"

abbreviation addrs :: "('k, 'v) entry list \<Rightarrow> addr list" where
  "addrs \<equiv> map fst"

text \<open>The \<^verbatim>\<open>prev\<close> link of the first entry is only constrained when \<open>p\<close> is an address.\<close>

fun hlinked :: "('k, 'v) hstore \<Rightarrow> addr option \<Rightarrow> ('k, 'v) entry list \<Rightarrow> addr option \<Rightarrow> bool" where
  "hlinked m p [] n \<longleftrightarrow> True"
| "hlinked m p (e # es) n \<longleftrightarrow>
     (\<exists>it. m (fst e) = Some it \<and> hkey it = fst (snd e) \<and> hvalue it = snd (snd e) \<and>
        hnext it = first_of (addrs es) n \<and> (p \<noteq> None \<longrightarrow> hprev it = p)) \<and>
     hlinked m (Some (fst e)) es n"

lemma hlinked_append [simp]:
  "hlinked m p (es @ fs) n \<longleftrightarrow> hlinked m p es (first_of (addrs fs) n) \<and> hlinked m (last_of p (addrs es)) fs n"
  by (induction es arbitrary: p) auto

lemma hlinked_cong:
  "(\<And>a. a \<in> fst ` set es \<Longrightarrow> m' a = m a) \<Longrightarrow> hlinked m' p es n \<longleftrightarrow> hlinked m p es n"
  by (induction es arbitrary: p) auto

lemma hlinked_upd [simp]: "a \<notin> fst ` set es \<Longrightarrow> hlinked (m(a := v)) p es n \<longleftrightarrow> hlinked m p es n"
  by (rule hlinked_cong) auto

lemma hlinked_weaken: "hlinked m p es n \<Longrightarrow> hlinked m None es n"
  by (cases es) auto

lemma hlinked_alloc: "hlinked m p es n \<Longrightarrow> a \<in> fst ` set es \<Longrightarrow> m a \<noteq> None"
  by (induction es arbitrary: p) auto

lemma find_chain_linked:
  "hlinked m p es None \<Longrightarrow>
     find_chain m (\<lambda>it. Q (hkey it)) (first_of (addrs es) None) =
       Some (map_option fst (find (\<lambda>e. Q (fst (snd e))) es))"
proof (induction es arbitrary: p)
  case Nil
  show ?case by (subst find_chain.simps) simp
next
  case (Cons e es)
  then show ?case by (subst find_chain.simps) auto
qed

subsection \<open>The representation\<close>

definition hash_pos :: "('k, 'v, 'w) mnhash \<Rightarrow> 'k \<Rightarrow> nat" where
  "hash_pos d k = unat (dhashfn d k) mod elnum (dtable d)"

text \<open>One bucket: the slot holds the chain's head, and the keys belong there.\<close>

definition bucket_ok :: "('k, 'v, 'w) mnhash \<Rightarrow> ('k, 'v) hstore \<Rightarrow> nat \<Rightarrow> ('k, 'v) entry list \<Rightarrow> bool" where
  "bucket_ok d m i es \<longleftrightarrow>
     slots (dtable d) ! i = first_of (addrs es) None \<and> hlinked m None es None \<and> distinct (addrs es) \<and>
     (\<forall>e \<in> set es. hash_pos d (fst (snd e)) = i)"

definition dict_rep :: "('k, 'v, 'w) mnhash \<Rightarrow> ('k, 'v) hstore \<Rightarrow> ('k, 'v) entry list list \<Rightarrow> bool" where
  "dict_rep d m bs \<longleftrightarrow>
     array_wf (dtable d) \<and> elnum (dtable d) > 0 \<and> length bs = elnum (dtable d) \<and>
     (\<forall>i < length bs. bucket_ok d m i (bs ! i)) \<and>
     (\<forall>i < length bs. \<forall>j < length bs. i \<noteq> j \<longrightarrow> fst ` set (bs ! i) \<inter> fst ` set (bs ! j) = {}) \<and>
     delnum d = length (concat bs) \<and> delnum d < 2 ^ 64"

text \<open>What an entry must also satisfy for \<^verbatim>\<open>hash_delete_pair\<close>: a head knows that it is one.\<close>

definition heads_ok :: "('k, 'v) hstore \<Rightarrow> ('k, 'v) entry list list \<Rightarrow> bool" where
  "heads_ok m bs \<longleftrightarrow>
     (\<forall>i < length bs. \<forall>e es. bs ! i = e # es \<longrightarrow>
        (\<exists>it. m (fst e) = Some it \<and> hprev it = None \<and> hbucket it = Some i))"

lemma dict_repD:
  assumes "dict_rep d m bs"
  shows "array_wf (dtable d)" "elnum (dtable d) > 0" "length bs = elnum (dtable d)"
    "\<And>i. i < length bs \<Longrightarrow> bucket_ok d m i (bs ! i)"
    "delnum d = length (concat bs)" "delnum d < 2 ^ 64" "\<exists>xs. data (dtable d) = Some xs"
    "length bs \<le> length (slots (dtable d))"
proof -
  show wf: "array_wf (dtable d)" and "elnum (dtable d) > 0" "length bs = elnum (dtable d)"
    "\<And>i. i < length bs \<Longrightarrow> bucket_ok d m i (bs ! i)"
    "delnum d = length (concat bs)" "delnum d < 2 ^ 64"
    using assms by (auto simp: dict_rep_def)
  then show "\<exists>xs. data (dtable d) = Some xs" by (auto simp: array_wf_def split: option.splits)
  show "length bs \<le> length (slots (dtable d))" using wf_slots(2) [OF wf] \<open>length bs = _\<close> by simp
qed

lemma hash_pos_less: "dict_rep d m bs \<Longrightarrow> hash_pos d k < length bs"
  using dict_repD(2,3) by (fastforce simp: hash_pos_def)

lemma table_index:
  assumes "dict_rep d m bs"
  shows "U32 (x mod elnum (dtable d)) = x mod elnum (dtable d)"
proof -
  have "elnum (dtable d) < 2 ^ 32" "0 < elnum (dtable d)"
    using assms dict_repD(2) [OF assms] by (auto simp: dict_rep_def array_wf_def)
  then show ?thesis by (meson U32_small mod_less_divisor order.strict_trans)
qed

lemma bucket_of_rep: "dict_rep d m bs \<Longrightarrow> bucket_of d k = Some (hash_pos d k)"
  using dict_repD(2) [of d m bs] table_index [of d m bs] by (simp add: bucket_of_def array_get_def hash_pos_def)

lemma slot_get_rep:
  "dict_rep d m bs \<Longrightarrow> i < length bs \<Longrightarrow> slot_get d i = Some (first_of (addrs (bs ! i)) None)"
  using dict_repD(4,8) [of d m bs] by (fastforce simp: slot_get_def bucket_ok_def)

text \<open>A table with one slot changed.\<close>

definition put_slot :: "('k, 'v, 'w) mnhash \<Rightarrow> nat \<Rightarrow> addr option \<Rightarrow> nat \<Rightarrow> ('k, 'v, 'w) mnhash" where
  "put_slot d i v n = d\<lparr>dtable := (dtable d)\<lparr>data := Some ((slots (dtable d))[i := v])\<rparr>, delnum := n\<rparr>"

lemma put_slot_simps [simp]:
  "dhashfn (put_slot d i v n) = dhashfn d" "dcmp (put_slot d i v n) = dcmp d" "dfini (put_slot d i v n) = dfini d"
  "elnum (dtable (put_slot d i v n)) = elnum (dtable d)" "delnum (put_slot d i v n) = n"
  "slots (dtable (put_slot d i v n)) = (slots (dtable d))[i := v]"
  "hash_pos (put_slot d i v n) = hash_pos d"
  by (simp_all add: put_slot_def hash_pos_def fun_eq_iff)

lemma slot_set_rep:
  "dict_rep d m bs \<Longrightarrow> i < length bs \<Longrightarrow> slot_set d i v = Some (put_slot d i v (delnum d))"
  using dict_repD(8) [of d m bs] by (auto simp: slot_set_def put_slot_def)

lemma put_slot_delnum [simp]: "(put_slot d i v n)\<lparr>delnum := n'\<rparr> = put_slot d i v n'"
  by (simp add: put_slot_def)

lemma put_slot_same:
  assumes "dict_rep d m bs" "i < length bs"
  shows "put_slot d i (first_of (addrs (bs ! i)) None) n = d\<lparr>delnum := n\<rparr>"
proof -
  obtain xs where xs: "data (dtable d) = Some xs" using dict_repD(7) [OF assms(1)] by blast
  then have "xs ! i = first_of (addrs (bs ! i)) None"
    using dict_repD(4) [OF assms] by (simp add: bucket_ok_def)
  then have "xs[i := first_of (addrs (bs ! i)) None] = xs" using list_update_id [of xs i] by simp
  with xs show ?thesis by (simp add: put_slot_def)
qed

text \<open>Replacing the entries of one bucket, with the store changed only there.\<close>

lemma dict_rep_update:
  assumes rep: "dict_rep d m bs" and i: "i < length bs"
    and link: "hlinked m' None new None" and dist: "distinct (addrs new)"
    and pos: "\<forall>e \<in> set new. hash_pos d (fst (snd e)) = i"
    and frame: "\<And>x. x \<notin> fst ` set (bs ! i) \<Longrightarrow> x \<notin> fst ` set new \<Longrightarrow> m' x = m x"
    and fresh: "\<And>x. x \<in> fst ` set new \<Longrightarrow> x \<in> fst ` set (bs ! i) \<or> m x = None"
    and n: "n + length (bs ! i) = delnum d + length new" "n < 2 ^ 64"
  shows "dict_rep (put_slot d i (first_of (addrs new) None) n) m' (bs[i := new])"
proof -
  note R = dict_repD [OF rep]
  have alloc: "m x \<noteq> None" if "x \<in> fst ` set (bs ! j)" "j < length bs" for x j
    using R(4) [OF that(2)] hlinked_alloc that(1) unfolding bucket_ok_def by blast
  have disj: "fst ` set (bs ! j) \<inter> fst ` set (bs ! i) = {}" if "j < length bs" "j \<noteq> i" for j
    using rep that i by (simp add: dict_rep_def)
  have disj': "fst ` set (bs ! j) \<inter> fst ` set new = {}" if "j < length bs" "j \<noteq> i" for j
    using disj [OF that] fresh alloc that(1) by blast
  have other: "hlinked m' None (bs ! j) None" if "j < length bs" "j \<noteq> i" for j
  proof -
    have "m' x = m x" if "x \<in> fst ` set (bs ! j)" for x
      using frame disj [OF \<open>j < _\<close> \<open>j \<noteq> i\<close>] disj' [OF \<open>j < _\<close> \<open>j \<noteq> i\<close>] that by blast
    then show ?thesis using hlinked_cong R(4) [OF \<open>j < _\<close>] unfolding bucket_ok_def by blast
  qed
  let ?d = "put_slot d i (first_of (addrs new) None) n"
  have ok: "bucket_ok ?d m' j (bs[i := new] ! j)" if "j < length bs" for j
  proof (cases "j = i")
    case True
    with link dist pos i R(8) show ?thesis by (simp add: bucket_ok_def)
  next
    case False
    with R(4) [OF that] other [OF that] show ?thesis by (simp add: bucket_ok_def)
  qed
  have wf: "array_wf (dtable ?d)"
    using R(1,7) by (auto simp: array_wf_def put_slot_def)
  have "length (bs ! i) \<le> sum_list (map length bs)" using i by (auto intro: member_le_sum_list)
  then have "length (concat (bs[i := new])) + length (bs ! i) = length (concat bs) + length new"
    using i by (simp add: length_concat map_update sum_list_update)
  then have len: "length (concat (bs[i := new])) = n" using n R(5) by simp
  have dj: "fst ` set (bs[i := new] ! j) \<inter> fst ` set (bs[i := new] ! k) = {}"
    if "j < length bs" "k < length bs" "j \<noteq> k" for j k
    using that rep disj' i by (auto simp: nth_list_update dict_rep_def)
  show ?thesis
    unfolding dict_rep_def using wf R(2,3) ok dj len n by auto
qed

subsection \<open>Lookup\<close>

text \<open>What the client promises: equality is an equivalence, and equal keys have equal hashes.\<close>

locale hash_key =
  fixes hashfn :: "'k \<Rightarrow> u64" and cmp :: "'k \<Rightarrow> 'k \<Rightarrow> int"
  assumes key_refl: "cmp a a = 0"
    and key_sym: "cmp a b = 0 \<Longrightarrow> cmp b a = 0"
    and key_trans: "cmp a b = 0 \<Longrightarrow> cmp b c = 0 \<Longrightarrow> cmp a c = 0"
    and key_hash: "cmp a b = 0 \<Longrightarrow> hashfn a = hashfn b"
begin

lemma key_eq_cong: "cmp a b = 0 \<Longrightarrow> cmp a c = 0 \<longleftrightarrow> cmp b c = 0"
  using key_sym key_trans by blast

lemma key_eq_cong2: "cmp a b = 0 \<Longrightarrow> cmp c a = 0 \<longleftrightarrow> cmp c b = 0"
  using key_sym key_trans by blast

end

definition blookup :: "('k, 'v, 'w) mnhash \<Rightarrow> ('k, 'v) entry list list \<Rightarrow> 'k \<Rightarrow> ('k, 'v) entry option" where
  "blookup d bs k = find (\<lambda>e. dcmp d k (fst (snd e)) = 0) (bs ! hash_pos d k)"

text \<open>The dictionary as a map: the value an equal key was last given.\<close>

definition dict_map :: "('k, 'v, 'w) mnhash \<Rightarrow> ('k, 'v) entry list list \<Rightarrow> 'k \<Rightarrow> 'v option" where
  "dict_map d bs k = map_option (\<lambda>e. snd (snd e)) (blookup d bs k)"

lemma find_bucket_rep:
  assumes "dict_rep d m bs"
  shows "find_chain m (\<lambda>it. dcmp d k (hkey it) = 0) (first_of (addrs (bs ! hash_pos d k)) None) =
     Some (map_option fst (blookup d bs k))"
  using find_chain_linked [of m None "bs ! hash_pos d k" "\<lambda>k'. dcmp d k k' = 0"]
    dict_repD(4) [OF assms hash_pos_less [OF assms]]
  by (simp add: bucket_ok_def blookup_def)

lemma dict_rep_empty: "dict_rep d m bs \<Longrightarrow> delnum d = 0 \<Longrightarrow> i < length bs \<Longrightarrow> bs ! i = []"
  using dict_repD(5) by fastforce

lemma hash_get_rep:
  assumes "dict_rep d m bs"
  shows "hash_get_item d m k = Some (map_option fst (blookup d bs k))"
proof (cases "delnum d = 0")
  case True
  with dict_rep_empty [OF assms _ hash_pos_less [OF assms]] show ?thesis
    by (simp add: hash_get_item_def blookup_def)
next
  case False
  then show ?thesis
    using bucket_of_rep [OF assms] slot_get_rep [OF assms hash_pos_less [OF assms]] find_bucket_rep [OF assms]
    by (simp add: hash_get_item_def)
qed

lemma blookup_item:
  assumes rep: "dict_rep d m bs" and found: "blookup d bs k = Some e"
  shows "\<exists>it. m (fst e) = Some it \<and> hkey it = fst (snd e) \<and> hvalue it = snd (snd e) \<and> dcmp d k (fst (snd e)) = 0"
proof -
  let ?b = "bs ! hash_pos d k"
  have l: "hlinked m None ?b None" using dict_repD(4) [OF rep hash_pos_less [OF rep]] by (simp add: bucket_ok_def)
  have e: "e \<in> set ?b" "dcmp d k (fst (snd e)) = 0" using found by (auto simp: blookup_def find_Some_iff)
  then obtain ys zs where "?b = ys @ e # zs" using split_list by fastforce
  with l e show ?thesis by auto
qed

subsection \<open>Insertion\<close>

lemma displace_head_linked:
  assumes l: "hlinked m None es None" and d: "distinct (addrs es)" and a: "a \<notin> fst ` set es"
    and it: "hnext it = first_of (addrs es) None" "hkey it = k" "hvalue it = v"
  shows "\<exists>m1. displace_head (m(a \<mapsto> it)) (first_of (addrs es) None) a = Some m1 \<and>
           hlinked m1 None ((a, k, v) # es) None \<and> m1 a = Some it \<and>
           (\<forall>x. x \<noteq> a \<longrightarrow> x \<notin> fst ` set es \<longrightarrow> m1 x = m x)"
proof (cases es)
  case Nil
  with it show ?thesis by (auto simp: displace_head_def)
next
  case (Cons e fs)
  obtain i where i: "m (fst e) = Some i" "hkey i = fst (snd e)" "hvalue i = snd (snd e)"
    "hnext i = first_of (addrs fs) None" "hlinked m (Some (fst e)) fs None"
    using l Cons by auto
  let ?m1 = "m(a \<mapsto> it, fst e \<mapsto> i\<lparr>hprev := Some a, hbucket := None\<rparr>)"
  have ne: "fst e \<noteq> a" using a Cons by auto
  have "a \<notin> fst ` set fs" "fst e \<notin> fst ` set fs" using a d Cons by auto
  then have "hlinked ?m1 (Some (fst e)) fs None" using i(5) by (simp del: fun_upd_apply)
  moreover have "displace_head (m(a \<mapsto> it)) (first_of (addrs es) None) a = Some ?m1"
    using i ne by (simp add: Cons displace_head_def upd_item_def)
  ultimately show ?thesis using i ne it by (auto simp: Cons)
qed

lemma insert_head:
  assumes rep: "dict_rep d m bs" and i: "i = hash_pos d k" and a: "m a = None"
    and it: "hnext it = first_of (addrs (bs ! i)) None" "hkey it = k" "hvalue it = v"
    and n: "delnum d + 1 < 2 ^ 64"
  shows "\<exists>m1. displace_head (m(a \<mapsto> it)) (first_of (addrs (bs ! i)) None) a = Some m1 \<and>
           dict_rep (put_slot d i (Some a) (delnum d + 1)) m1 (bs[i := (a, k, v) # bs ! i]) \<and>
           m1 a = Some it \<and> (\<forall>x. x \<noteq> a \<longrightarrow> x \<notin> fst ` set (bs ! i) \<longrightarrow> m1 x = m x)"
proof -
  have il: "i < length bs" using hash_pos_less [OF rep] i by simp
  have b: "bucket_ok d m i (bs ! i)" by (rule dict_repD(4) [OF rep il])
  have na: "a \<notin> fst ` set (bs ! i)" using hlinked_alloc b a unfolding bucket_ok_def by metis
  obtain m1 where m1: "displace_head (m(a \<mapsto> it)) (first_of (addrs (bs ! i)) None) a = Some m1"
      "hlinked m1 None ((a, k, v) # bs ! i) None" "m1 a = Some it"
      "\<forall>x. x \<noteq> a \<longrightarrow> x \<notin> fst ` set (bs ! i) \<longrightarrow> m1 x = m x"
    using displace_head_linked [of m "bs ! i" a it k v] b na it unfolding bucket_ok_def by blast
  have "dict_rep (put_slot d i (first_of (addrs ((a, k, v) # bs ! i)) None) (delnum d + 1)) m1 (bs[i := (a, k, v) # bs ! i])"
    using b na a i m1 n by (intro dict_rep_update [OF rep il m1(2)]) (auto simp: bucket_ok_def)
  with m1 show ?thesis by auto
qed

lemma hash_set_item_rep:
  assumes rep: "dict_rep d m bs" and mal: "malloc m = Some (a, junk)" "m a = None" and n: "delnum d + 1 < 2 ^ 64"
  shows "\<exists>d' m'. hash_set_item d m k v malloc = Some (d', m') \<and>
           dict_rep d' m' (bs[hash_pos d k := (a, k, v) # bs ! hash_pos d k]) \<and>
           d' = put_slot d (hash_pos d k) (Some a) (delnum d + 1) \<and>
           (\<exists>it. m' a = Some it \<and> hprev it = None \<and> hbucket it = Some (hash_pos d k)) \<and>
           (\<forall>x. x \<noteq> a \<longrightarrow> x \<notin> fst ` set (bs ! hash_pos d k) \<longrightarrow> m' x = m x)"
proof -
  let ?i = "hash_pos d k"
  have il: "?i < length bs" using hash_pos_less [OF rep] by simp
  let ?it = "junk\<lparr>hbucket := Some ?i, hprev := None, hnext := first_of (addrs (bs ! ?i)) None, hkey := k, hvalue := v\<rparr>"
  obtain m1 where "displace_head (m(a \<mapsto> ?it)) (first_of (addrs (bs ! ?i)) None) a = Some m1"
      "dict_rep (put_slot d ?i (Some a) (delnum d + 1)) m1 (bs[?i := (a, k, v) # bs ! ?i])" "m1 a = Some ?it"
      "\<forall>x. x \<noteq> a \<longrightarrow> x \<notin> fst ` set (bs ! ?i) \<longrightarrow> m1 x = m x"
    using insert_head [OF rep refl mal(2), of ?it k v] n by auto
  then show ?thesis
    using bucket_of_rep [OF rep] slot_get_rep [OF rep il] slot_set_rep [OF rep il] mal n
    by (auto simp: hash_set_item_def hash_set_item_body_def)
qed

context hash_key
begin

lemma dict_map_insert:
  assumes "dcmp d = cmp" "dhashfn d = hashfn" "hash_pos d k < length bs"
  shows "dict_map d (bs[hash_pos d k := (a, k, v) # bs ! hash_pos d k]) k' =
           (if cmp k' k = 0 then Some v else dict_map d bs k')"
proof (cases "cmp k' k = 0")
  case True
  then have "hash_pos d k' = hash_pos d k" using key_hash assms by (simp add: hash_pos_def)
  with True assms show ?thesis by (simp add: dict_map_def blookup_def)
next
  case False
  with assms show ?thesis
    by (cases "hash_pos d k' = hash_pos d k") (auto simp: dict_map_def blookup_def)
qed

end


text \<open>Replacing an entry in place.\<close>

lemma hlinked_replace:
  assumes l: "hlinked m p (ys @ (a, k, v) # zs) n" and d: "distinct (addrs (ys @ (a, k, v) # zs))"
    and it: "m a = Some it"
  shows "hlinked (m(a \<mapsto> it\<lparr>hkey := k', hvalue := v'\<rparr>)) p (ys @ (a, k', v') # zs) n"
proof -
  have "a \<notin> fst ` set ys" "a \<notin> fst ` set zs" using d by auto
  then show ?thesis using l it by (auto simp del: fun_upd_apply) (simp_all add: fun_upd_apply)
qed

definition replace_entry :: "('k, 'v) entry list \<Rightarrow> addr \<Rightarrow> 'k \<Rightarrow> 'v \<Rightarrow> ('k, 'v) entry list" where
  "replace_entry es a k v = map (\<lambda>e. if fst e = a then (a, k, v) else e) es"

lemma replace_entry_split:
  "distinct (addrs (ys @ (a, k0, v0) # zs)) \<Longrightarrow>
     replace_entry (ys @ (a, k0, v0) # zs) a k v = ys @ (a, k, v) # zs"
  by (force simp: replace_entry_def intro!: map_idI)

text \<open>The abstract operation: overwrite the entry with an equal key, or put a new one in front.\<close>

definition bset :: "('k, 'v, 'w) mnhash \<Rightarrow> ('k, 'v) entry list list \<Rightarrow> addr \<Rightarrow> 'k \<Rightarrow> 'v \<Rightarrow> ('k, 'v) entry list list" where
  "bset d bs a k v =
     (let i = hash_pos d k in
      case blookup d bs k of
        None \<Rightarrow> bs[i := (a, k, v) # bs ! i]
      | Some e \<Rightarrow> bs[i := replace_entry (bs ! i) (fst e) k v])"

definition fini_pair :: "('k, 'v, 'w) mnhash \<Rightarrow> 'k \<Rightarrow> 'v \<Rightarrow> 'w \<Rightarrow> 'w" where
  "fini_pair d k v w = (case dfini d of None \<Rightarrow> w | Some f \<Rightarrow> snd (f k v w))"

lemma hash_set_uniq_rep:
  assumes rep: "dict_rep d m bs" and mal: "malloc m = Some (a, junk)" "m a = None" and n: "delnum d + 1 < 2 ^ 64"
    and key: "hash_key (dhashfn d) (dcmp d)"
  shows "\<exists>d' m'. hash_set_item_uniq d m w k v malloc =
             Some (d', m', case blookup d bs k of None \<Rightarrow> w | Some e \<Rightarrow> fini_pair d (fst (snd e)) (snd (snd e)) w,
                   map_option (fst \<circ> snd) (blookup d bs k), map_option (snd \<circ> snd) (blookup d bs k)) \<and>
           dict_rep d' m' (bset d bs a k v) \<and> dhashfn d' = dhashfn d \<and> dcmp d' = dcmp d \<and> dfini d' = dfini d \<and>
           elnum (dtable d') = elnum (dtable d) \<and>
           (\<forall>x. x \<noteq> a \<longrightarrow> x \<notin> fst ` set (bs ! hash_pos d k) \<longrightarrow> m' x = m x)"
proof -
  let ?i = "hash_pos d k"
  let ?b = "bs ! ?i"
  have il: "?i < length bs" using hash_pos_less [OF rep] by simp
  have b: "bucket_ok d m ?i ?b" by (rule dict_repD(4) [OF rep il])
  show ?thesis
  proof (cases "blookup d bs k")
    case None
    let ?it = "(if ?b = [] then junk\<lparr>hbucket := Some ?i, hprev := None\<rparr> else junk)
                 \<lparr>hnext := first_of (addrs ?b) None, hkey := k, hvalue := v\<rparr>"
    obtain m1 where m1: "displace_head (m(a \<mapsto> ?it)) (first_of (addrs ?b) None) a = Some m1"
        "dict_rep (put_slot d ?i (Some a) (delnum d + 1)) m1 (bs[?i := (a, k, v) # ?b])"
        "\<forall>x. x \<noteq> a \<longrightarrow> x \<notin> fst ` set ?b \<longrightarrow> m1 x = m x"
      using insert_head [OF rep refl mal(2), of ?it k v] n by auto
    have bs: "bset d bs a k v = bs[?i := (a, k, v) # ?b]" using None by (simp add: bset_def Let_def)
    show ?thesis
    proof (cases ?b)
      case Nil
      then have "m1 = m(a \<mapsto> ?it)" using m1(1) by (simp add: displace_head_def)
      with Nil m1 None bs show ?thesis
        using bucket_of_rep [OF rep] slot_get_rep [OF rep il] slot_set_rep [OF rep il] mal n
        by (simp add: hash_set_item_uniq_def hash_set_item_uniq_body_def)
    next
      case (Cons e es)
      with find_bucket_rep [OF rep, of k] None
      have f: "find_chain m (\<lambda>it. dcmp d k (hkey it) = 0) (Some (fst e)) = Some None" by simp
      have m1': "displace_head (m(a \<mapsto> junk\<lparr>hnext := Some (fst e), hkey := k, hvalue := v\<rparr>)) (Some (fst e)) a = Some m1"
        using m1(1) Cons by simp
      show ?thesis
        using bucket_of_rep [OF rep] slot_get_rep [OF rep il] slot_set_rep [OF rep il] mal n f m1(2,3) m1' None Cons bs
        by (simp add: hash_set_item_uniq_def hash_set_item_uniq_body_def)
    qed
  next
    case (Some e)
    obtain c k0 v0 where e: "e = (c, k0, v0)" by (cases e)
    obtain it where it: "m c = Some it" "hkey it = k0" "hvalue it = v0" and eq: "dcmp d k k0 = 0"
      using blookup_item [OF rep Some] e by auto
    have "e \<in> set ?b" using Some by (auto simp: blookup_def find_Some_iff)
    then obtain ys zs where split: "?b = ys @ (c, k0, v0) # zs" using split_list e by fastforce
    let ?new = "ys @ (c, k, v) # zs"
    let ?m1 = "m(c \<mapsto> it\<lparr>hkey := k, hvalue := v\<rparr>)"
    have new: "replace_entry ?b c k v = ?new"
      using replace_entry_split [of ys c k0 v0 zs k v] b split by (simp add: bucket_ok_def)
    have head: "first_of (addrs ?new) None = first_of (addrs ?b) None" by (simp add: split)
    have "hlinked ?m1 None ?new None"
      using hlinked_replace [of m None ys c k0 v0 zs None it v k] b it split by (simp add: bucket_ok_def)
    then have "dict_rep (put_slot d ?i (first_of (addrs ?new) None) (delnum d)) ?m1 (bs[?i := ?new])"
      using b split dict_repD(6) [OF rep] by (intro dict_rep_update [OF rep il]) (auto simp: bucket_ok_def)
    then have "dict_rep d ?m1 (bset d bs a k v)"
      unfolding head using put_slot_same [OF rep il] Some e new by (simp add: bset_def Let_def)
    moreover obtain h where h: "first_of (addrs ?b) None = Some h" using split by (cases "first_of (addrs ?b) None") auto
    moreover have "find_chain m (\<lambda>it. dcmp d k (hkey it) = 0) (Some h) = Some (Some c)"
      using find_bucket_rep [OF rep, of k] Some e h by simp
    moreover have "?m1 x = m x" if "x \<notin> fst ` set ?b" for x using that split by auto
    ultimately show ?thesis
      using bucket_of_rep [OF rep] slot_get_rep [OF rep il] it Some e
      by (cases "dfini d") (simp_all add: hash_set_item_uniq_def hash_set_item_uniq_body_def fini_pair_def)
  qed
qed

subsection \<open>Removal\<close>

definition drop_entry :: "('k, 'v) entry list \<Rightarrow> addr \<Rightarrow> ('k, 'v) entry list" where
  "drop_entry es a = filter (\<lambda>e. fst e \<noteq> a) es"

lemma drop_entry_split:
  "distinct (addrs (ys @ (a, k, v) # zs)) \<Longrightarrow> drop_entry (ys @ (a, k, v) # zs) a = ys @ zs"
  by (force simp: drop_entry_def intro!: arg_cong2 [where f = append] filter_True)

text \<open>The successor is told its new predecessor.\<close>

lemma relink_next:
  assumes l: "hlinked m p zs n" and d: "distinct (addrs zs)"
    and g: "\<And>i. hkey (g i) = hkey i" "\<And>i. hvalue (g i) = hvalue i" "\<And>i. hnext (g i) = hnext i"
      "\<And>i. q \<noteq> None \<Longrightarrow> hprev (g i) = q"
  shows "\<exists>m1. (case first_of (addrs zs) None of None \<Rightarrow> Some m | Some x \<Rightarrow> upd_item m x g) = Some m1 \<and>
           hlinked m1 q zs n \<and> (\<forall>x. x \<notin> fst ` set zs \<longrightarrow> m1 x = m x) \<and>
           (\<forall>z zs'. zs = z # zs' \<longrightarrow> m1 (fst z) = map_option g (m (fst z)))"
proof (cases zs)
  case (Cons z zs')
  then obtain it where "m (fst z) = Some it" using l by auto
  with Cons l d g show ?thesis by (auto simp: upd_item_def simp del: fun_upd_apply) (auto simp: fun_upd_apply)
qed simp

text \<open>The predecessor is told its new successor.\<close>

lemma relink_prev:
  assumes l: "hlinked m p (ys @ [y]) n0" and d: "distinct (addrs (ys @ [y]))"
  shows "\<exists>m1. upd_item m (fst y) (\<lambda>i. i\<lparr>hnext := n\<rparr>) = Some m1 \<and> hlinked m1 p (ys @ [y]) n \<and>
           (\<forall>x. x \<noteq> fst y \<longrightarrow> m1 x = m x) \<and>
           m1 (fst y) = map_option (\<lambda>i. i\<lparr>hnext := n\<rparr>) (m (fst y))"
proof -
  obtain it where "m (fst y) = Some it" using l by auto
  with l d show ?thesis by (auto simp: upd_item_def simp del: fun_upd_apply) (auto simp: fun_upd_apply)
qed

text \<open>Unlinking an entry with a predecessor, as both removals do it.\<close>

lemma unlink_mid:
  assumes l: "hlinked m None (ys @ [y] @ (a, k, v) # zs) None" and d: "distinct (addrs (ys @ [y] @ (a, k, v) # zs))"
    and g: "\<And>i. hkey (g i) = hkey i" "\<And>i. hvalue (g i) = hvalue i" "\<And>i. hnext (g i) = hnext i"
      "\<And>i. hprev (g i) = Some (fst y)"
  shows "\<exists>m1 m2 m3. upd_item m (fst y) (\<lambda>i. i\<lparr>hnext := first_of (addrs zs) None\<rparr>) = Some m1 \<and>
           (case first_of (addrs zs) None of None \<Rightarrow> Some m1 | Some x \<Rightarrow> upd_item m1 x g) = Some m2 \<and>
           free_item m2 a = Some m3 \<and> hlinked m3 None ((ys @ [y]) @ zs) None \<and>
           (\<forall>x. x \<notin> fst ` set (ys @ [y] @ (a, k, v) # zs) \<longrightarrow> m3 x = m x) \<and>
           (\<forall>e \<in> set (ys @ [y]). map_option hprev (m3 (fst e)) = map_option hprev (m (fst e)) \<and>
              map_option hbucket (m3 (fst e)) = map_option hbucket (m (fst e)))"
proof -
  have dy: "distinct (addrs (ys @ [y]))" and dz: "distinct (addrs zs)" using d by auto
  have l1: "hlinked m None (ys @ [y]) (Some a)" and l2: "hlinked m (Some a) zs None" using l by auto
  obtain m1 where m1: "upd_item m (fst y) (\<lambda>i. i\<lparr>hnext := first_of (addrs zs) None\<rparr>) = Some m1"
      "hlinked m1 None (ys @ [y]) (first_of (addrs zs) None)" "\<forall>x. x \<noteq> fst y \<longrightarrow> m1 x = m x"
      "m1 (fst y) = map_option (\<lambda>i. i\<lparr>hnext := first_of (addrs zs) None\<rparr>) (m (fst y))"
    using relink_prev [OF l1, of "first_of (addrs zs) None"] dy by blast
  have disj: "fst ` set (ys @ [y]) \<inter> fst ` set zs = {}" using d by auto
  have ny: "x \<noteq> fst y" if "x \<in> fst ` set zs" for x using disj that by fastforce
  have "m1 x = m x" if "x \<in> fst ` set zs" for x using m1(3) ny [OF that] by simp
  then have l3: "hlinked m1 (Some a) zs None" using l2 hlinked_cong by blast
  have g4: "\<And>i. Some (fst y) \<noteq> None \<Longrightarrow> hprev (g i) = Some (fst y)" using g(4) by simp
  obtain m2 where m2: "(case first_of (addrs zs) None of None \<Rightarrow> Some m1 | Some x \<Rightarrow> upd_item m1 x g) = Some m2"
      "hlinked m2 (Some (fst y)) zs None" "\<forall>x. x \<notin> fst ` set zs \<longrightarrow> m2 x = m1 x"
    using relink_next [where q = "Some (fst y)", OF l3 dz g(1-3) g4] by blast
  have "m2 x = m1 x" if "x \<in> fst ` set (ys @ [y])" for x
  proof -
    have "x \<notin> fst ` set zs" using disj that by blast
    then show ?thesis using m2(3) by simp
  qed
  then have "hlinked m2 None (ys @ [y]) (first_of (addrs zs) None)" using m1(2) hlinked_cong by blast
  then have "hlinked m2 None ((ys @ [y]) @ zs) None" using m2(2) by simp
  moreover have na: "a \<notin> fst ` set ((ys @ [y]) @ zs)" using d by auto
  ultimately have l4: "hlinked (m2(a := None)) None ((ys @ [y]) @ zs) None" using hlinked_upd by blast
  have "m2 a = m a" using m2(3) m1(3) d by auto
  then have fr: "free_item m2 a = Some (m2(a := None))" using l by (auto simp: free_item_def)
  have ends: "map_option hprev ((m2(a := None)) (fst e)) = map_option hprev (m (fst e)) \<and>
              map_option hbucket ((m2(a := None)) (fst e)) = map_option hbucket (m (fst e))" if "e \<in> set (ys @ [y])" for e
  proof -
    have "fst e \<noteq> a" "fst e \<notin> fst ` set zs" using that d by auto
    then show ?thesis
      using m2(3) m1(3,4) by (cases "fst e = fst y") (simp_all add: option.map_comp comp_def)
  qed
  have "(m2(a := None)) x = m x" if "x \<notin> fst ` set (ys @ [y] @ (a, k, v) # zs)" for x
    using that m1(3) m2(3) by auto
  with m1(1) m2(1) fr l4 ends show ?thesis by blast
qed

text \<open>Unlinking the head.\<close>

lemma unlink_head:
  assumes l: "hlinked m None ((a, k, v) # zs) None" and d: "distinct (addrs ((a, k, v) # zs))"
    and g: "\<And>i. hkey (g i) = hkey i" "\<And>i. hvalue (g i) = hvalue i" "\<And>i. hnext (g i) = hnext i"
  shows "\<exists>m1 m2. (case first_of (addrs zs) None of None \<Rightarrow> Some m | Some x \<Rightarrow> upd_item m x g) = Some m1 \<and>
           free_item m1 a = Some m2 \<and> hlinked m2 None zs None \<and>
           (\<forall>x. x \<notin> fst ` set ((a, k, v) # zs) \<longrightarrow> m2 x = m x) \<and>
           (\<forall>z zs'. zs = z # zs' \<longrightarrow> m2 (fst z) = map_option g (m (fst z)))"
proof -
  have "hlinked m (Some a) zs None" using l by simp
  then obtain m1 where m1: "(case first_of (addrs zs) None of None \<Rightarrow> Some m | Some x \<Rightarrow> upd_item m x g) = Some m1"
      "hlinked m1 None zs None" "\<forall>x. x \<notin> fst ` set zs \<longrightarrow> m1 x = m x"
      "\<forall>z zs'. zs = z # zs' \<longrightarrow> m1 (fst z) = map_option g (m (fst z))"
    using relink_next [of m "Some a" zs None g None] d g by auto
  have na: "a \<notin> fst ` set zs" using d by simp
  then have "m1 a = m a" using m1(3) by blast
  then have "free_item m1 a = Some (m1(a := None))" using l by (auto simp: free_item_def)
  moreover have "hlinked (m1(a := None)) None zs None" using m1(2) na hlinked_upd by blast
  moreover have "(m1(a := None)) x = m x" if "x \<notin> fst ` set ((a, k, v) # zs)" for x
    using that m1(3) by auto
  moreover have "(m1(a := None)) (fst z) = map_option g (m (fst z))" if "zs = z # zs'" for z zs'
    using that m1(4) na by auto
  ultimately show ?thesis using m1(1) by blast
qed

definition bdrop :: "('k, 'v) entry list list \<Rightarrow> nat \<Rightarrow> addr \<Rightarrow> ('k, 'v) entry list list" where
  "bdrop bs i a = bs[i := drop_entry (bs ! i) a]"

definition bremove :: "('k, 'v, 'w) mnhash \<Rightarrow> ('k, 'v) entry list list \<Rightarrow> 'k \<Rightarrow> ('k, 'v) entry list list" where
  "bremove d bs k = (case blookup d bs k of None \<Rightarrow> bs | Some e \<Rightarrow> bdrop bs (hash_pos d k) (fst e))"

lemma find_split:
  "find P xs = Some x \<Longrightarrow> \<exists>ys zs. xs = ys @ x # zs \<and> P x \<and> (\<forall>y \<in> set ys. \<not> P y)"
proof (induction xs)
  case (Cons y ys)
  show ?case
  proof (cases "P y")
    case True
    with Cons.prems show ?thesis by (intro exI [of _ "[]"] exI [of _ ys]) auto
  next
    case False
    with Cons.prems Cons.IH obtain us zs where "ys = us @ x # zs" "P x" "\<forall>y \<in> set us. \<not> P y" by auto
    with False show ?thesis by (intro exI [of _ "y # us"] exI [of _ zs]) auto
  qed
qed simp

definition same_fns :: "('k, 'v, 'w) mnhash \<Rightarrow> ('k, 'v, 'w) mnhash \<Rightarrow> bool" where
  "same_fns d d' \<longleftrightarrow> dhashfn d' = dhashfn d \<and> dcmp d' = dcmp d \<and> dfini d' = dfini d \<and>
     elnum (dtable d') = elnum (dtable d)"

lemma same_fns_simps [simp]:
  "same_fns d (put_slot d i v n)" "same_fns d (d\<lparr>delnum := n\<rparr>)" "same_fns d d"
  by (simp_all add: same_fns_def)

lemma SZ_pred:
  "0 < n \<Longrightarrow> n < 2 ^ 64 \<Longrightarrow> SZ (n + 18446744073709551615) = n - 1"
  "0 < n \<Longrightarrow> n < 2 ^ 64 \<Longrightarrow> SZ (18446744073709551615 + n) = n - 1"
  using SZ_decr [of "n - 1"] SZ_decr' [of "n - 1"] by simp_all

lemma dict_rep_drop:
  assumes rep: "dict_rep d m bs" and i: "i < length bs" and b: "bs ! i = ys @ (a, k, v) # zs"
    and l: "hlinked m' None (ys @ zs) None" and fr: "\<And>x. x \<notin> fst ` set (bs ! i) \<Longrightarrow> m' x = m x"
  shows "dict_rep (put_slot d i (first_of (addrs (ys @ zs)) None) (delnum d - 1)) m' (bdrop bs i a) \<and>
         0 < delnum d"
proof -
  have bk: "bucket_ok d m i (bs ! i)" by (rule dict_repD(4) [OF rep i])
  then have dist: "distinct (addrs (ys @ (a, k, v) # zs))" by (simp add: bucket_ok_def b)
  have "length (bs ! i) \<le> sum_list (map length bs)" using i by (auto intro: member_le_sum_list)
  then have pos: "length (bs ! i) \<le> delnum d" using dict_repD(5) [OF rep] by (simp add: length_concat)
  have "dict_rep (put_slot d i (first_of (addrs (ys @ zs)) None) (delnum d - 1)) m' (bs[i := ys @ zs])"
  proof (rule dict_rep_update [OF rep i l])
    show "m' x = m x" if "x \<notin> fst ` set (bs ! i)" for x using fr that .
    show "x \<in> fst ` set (bs ! i) \<or> m x = None" if "x \<in> fst ` set (ys @ zs)" for x using that b by auto
  qed (use bk dist b pos dict_repD(6) [OF rep] in \<open>auto simp: bucket_ok_def\<close>)
  moreover have "drop_entry (bs ! i) a = ys @ zs" using drop_entry_split [OF dist] b by simp
  ultimately show ?thesis using pos b by (simp add: bdrop_def)
qed

lemma hash_remove_rep:
  assumes rep: "dict_rep d m bs"
  shows "\<exists>d' m'. hash_remove_item d m k = Some (d', m', map_option (snd \<circ> snd) (blookup d bs k)) \<and>
           dict_rep d' m' (bremove d bs k) \<and> same_fns d d' \<and>
           (\<forall>x. x \<notin> fst ` set (bs ! hash_pos d k) \<longrightarrow> m' x = m x)"
proof -
  let ?i = "hash_pos d k" and ?P = "\<lambda>it. dcmp d k (hkey it) = 0"
  let ?b = "bs ! ?i"
  have il: "?i < length bs" using hash_pos_less [OF rep] by simp
  have b: "hlinked m None ?b None" "distinct (addrs ?b)" using dict_repD(4) [OF rep il] by (auto simp: bucket_ok_def)
  note start = bucket_of_rep [OF rep, of k] slot_get_rep [OF rep il]
  note count = SZ_pred(1) [OF _ dict_repD(6) [OF rep]] SZ_pred(2) [OF _ dict_repD(6) [OF rep]]
  show ?thesis
  proof (cases ?b)
    case Nil
    then show ?thesis using rep start by (simp add: hash_remove_item_def hash_remove_item_body_def blookup_def bremove_def)
  next
    case (Cons e es)
    then obtain it where it: "m (fst e) = Some it" "hkey it = fst (snd e)" "hvalue it = snd (snd e)"
      "hnext it = first_of (addrs es) None" "hlinked m (Some (fst e)) es None"
      using b by auto
    have rest: "find_chain m ?P (hnext it) = Some (map_option fst (find (\<lambda>e. dcmp d k (fst (snd e)) = 0) es))"
      using find_chain_linked [OF it(5)] it(4) by simp
    show ?thesis
    proof (cases "dcmp d k (fst (snd e)) = 0")
      case True
      obtain a k0 v0 where e: "e = (a, k0, v0)" by (cases e)
      have lk: "blookup d bs k = Some e" using True Cons by (simp add: blookup_def)
      obtain m1 m2 where u: "(case first_of (addrs es) None of None \<Rightarrow> Some m | Some x \<Rightarrow> upd_item m x (\<lambda>i. i\<lparr>hprev := None\<rparr>)) = Some m1"
          "free_item m1 a = Some m2" "hlinked m2 None es None" "\<forall>x. x \<notin> fst ` set ?b \<longrightarrow> m2 x = m x"
        using unlink_head [of m a k0 v0 es "\<lambda>i. i\<lparr>hprev := None\<rparr>"] b Cons e by auto
      have "dict_rep (put_slot d ?i (first_of (addrs es) None) (delnum d - 1)) m2 (bdrop bs ?i a)" "0 < delnum d"
        using dict_rep_drop [OF rep il, of "[]" a k0 v0 es m2] u Cons e by auto
      with True it u lk e start Cons count slot_set_rep [OF rep il] show ?thesis
        by (simp add: hash_remove_item_def hash_remove_item_body_def bremove_def)
    next
      case False
      then have lk: "blookup d bs k = find (\<lambda>e. dcmp d k (fst (snd e)) = 0) es" using Cons by (simp add: blookup_def)
      show ?thesis
      proof (cases "blookup d bs k")
        case None
        then show ?thesis using False rest lk start it Cons rep
          by (simp add: hash_remove_item_def hash_remove_item_body_def bremove_def)
      next
        case (Some f)
        obtain a k0 v0 where f: "f = (a, k0, v0)" by (cases f)
        obtain us zs where us: "es = us @ f # zs" using find_split Some lk by metis
        define ys y where "ys = butlast (e # us)" and "y = last (e # us)"
        have spl: "?b = ys @ [y] @ (a, k0, v0) # zs" using Cons us f by (simp add: ys_def y_def)
        obtain x where x: "m a = Some x" "hprev x = Some (fst y)" "hnext x = first_of (addrs zs) None" "hvalue x = v0"
          using b(1) unfolding spl by auto
        obtain m1 m2 m3 where u: "upd_item m (fst y) (\<lambda>i. i\<lparr>hnext := first_of (addrs zs) None\<rparr>) = Some m1"
            "(case first_of (addrs zs) None of None \<Rightarrow> Some m1 | Some n \<Rightarrow> upd_item m1 n (\<lambda>i. i\<lparr>hprev := hprev x\<rparr>)) = Some m2"
            "free_item m2 a = Some m3" "hlinked m3 None ((ys @ [y]) @ zs) None" "\<forall>x. x \<notin> fst ` set ?b \<longrightarrow> m3 x = m x"
          using unlink_mid [of m ys y a k0 v0 zs "\<lambda>i. i\<lparr>hprev := hprev x\<rparr>"] b x(2) unfolding spl by auto
        have "dict_rep (put_slot d ?i (first_of (addrs ((ys @ [y]) @ zs)) None) (delnum d - 1)) m3 (bdrop bs ?i a)"
          and pos: "0 < delnum d"
          using dict_rep_drop [OF rep il, of "ys @ [y]" a k0 v0 zs m3] u spl by auto
        moreover have "first_of (addrs ((ys @ [y]) @ zs)) None = first_of (addrs ?b) None" by (simp add: spl)
        ultimately have "dict_rep (d\<lparr>delnum := delnum d - 1\<rparr>) m3 (bdrop bs ?i a)"
          using put_slot_same [OF rep il] by simp
        moreover have "find_chain m ?P (hnext it) = Some (Some a)" using rest Some lk f by simp
        moreover have "\<forall>x. x \<notin> fst ` set ?b \<longrightarrow> m3 x = m x" by (rule u(5))
        ultimately show ?thesis using False it(1-3) u(1-3) x f Some start Cons count pos
          by (simp add: hash_remove_item_def hash_remove_item_body_def bremove_def)
      qed
    qed
  qed
qed

subsection \<open>Deleting an item by its address\<close>

lemma dict_rep_apart:
  assumes rep: "dict_rep d m bs" and ij: "i < length bs" "j < length bs" "i \<noteq> j" and x: "x \<in> fst ` set (bs ! j)"
  shows "x \<notin> fst ` set (bs ! i)"
proof -
  have "fst ` set (bs ! i) \<inter> fst ` set (bs ! j) = {}" using rep ij by (simp add: dict_rep_def)
  with x show ?thesis by blast
qed

lemma heads_okD:
  "heads_ok m bs \<Longrightarrow> i < length bs \<Longrightarrow> bs ! i = e # es \<Longrightarrow>
     \<exists>it. m (fst e) = Some it \<and> hprev it = None \<and> hbucket it = Some i"
  unfolding heads_ok_def by blast

lemma heads_ok_update:
  assumes rep: "dict_rep d m bs" and ok: "heads_ok m bs" and i: "i < length bs"
    and fr: "\<And>x. m x \<noteq> None \<Longrightarrow> x \<notin> fst ` set (bs ! i) \<Longrightarrow> m' x = m x"
    and new: "\<And>e es. new = e # es \<Longrightarrow> \<exists>it. m' (fst e) = Some it \<and> hprev it = None \<and> hbucket it = Some i"
  shows "heads_ok m' (bs[i := new])"
  unfolding heads_ok_def
proof (intro allI impI)
  fix j e es assume j: "j < length (bs[i := new])" and h: "bs[i := new] ! j = e # es"
  show "\<exists>it. m' (fst e) = Some it \<and> hprev it = None \<and> hbucket it = Some j"
  proof (cases "j = i")
    case True
    with new h i show ?thesis by simp
  next
    case False
    then have b: "bs ! j = e # es" using h by simp
    then have "fst e \<in> fst ` set (bs ! j)" by simp
    then have "fst e \<notin> fst ` set (bs ! i)" using dict_rep_apart [OF rep i, of j] j False by simp
    moreover obtain it where "m (fst e) = Some it" "hprev it = None" "hbucket it = Some j"
      using heads_okD [OF ok _ b] j by auto
    ultimately show ?thesis using fr [of "fst e"] by simp
  qed
qed

lemma hash_delete_pair_rep:
  assumes rep: "dict_rep d m bs" and ok: "heads_ok m bs" and i: "i < length bs" and e: "(a, k, v) \<in> set (bs ! i)"
  shows "\<exists>d' m'. hash_delete_pair_no_fini d m a = Some (d', m') \<and> dict_rep d' m' (bdrop bs i a) \<and>
           heads_ok m' (bdrop bs i a) \<and> same_fns d d' \<and> (\<exists>it. m a = Some it \<and> hkey it = k \<and> hvalue it = v)"
proof -
  let ?b = "bs ! i"
  have b: "hlinked m None ?b None" "distinct (addrs ?b)" using dict_repD(4) [OF rep i] by (auto simp: bucket_ok_def)
  note count = SZ_pred(1) [OF _ dict_repD(6) [OF rep]] SZ_pred(2) [OF _ dict_repD(6) [OF rep]]
  obtain ys zs where spl: "?b = ys @ (a, k, v) # zs" using split_list [OF e] by blast
  obtain x where x: "m a = Some x" "hkey x = k" "hvalue x = v" "hnext x = first_of (addrs zs) None"
    "ys \<noteq> [] \<longrightarrow> hprev x = last_of None (addrs ys)"
    using b(1) unfolding spl by auto
  have drop: "drop_entry ?b a = ys @ zs" using drop_entry_split b(2) spl by metis
  let ?g = "\<lambda>j. if hprev x = None then j\<lparr>hprev := hprev x, hbucket := hbucket x\<rparr> else j\<lparr>hprev := hprev x\<rparr>"
  have g: "hkey (?g j) = hkey j" "hvalue (?g j) = hvalue j" "hnext (?g j) = hnext j" "hprev (?g j) = hprev x" for j
    by simp_all
  show ?thesis
  proof (cases ys rule: rev_cases)
    case Nil
    have hd: "hprev x = None" "hbucket x = Some i"
      using heads_okD [OF ok i, of "(a, k, v)" zs] spl Nil x by auto
    obtain m1 m2 where u: "(case first_of (addrs zs) None of None \<Rightarrow> Some m | Some n \<Rightarrow> upd_item m n ?g) = Some m1"
        "free_item m1 a = Some m2" "hlinked m2 None zs None" "\<forall>x. x \<notin> fst ` set ?b \<longrightarrow> m2 x = m x"
        "\<forall>z zs'. zs = z # zs' \<longrightarrow> m2 (fst z) = map_option ?g (m (fst z))"
      using unlink_head [of m a k v zs ?g, OF _ _ g(1-3)] b spl Nil by auto
    have r: "dict_rep (put_slot d i (first_of (addrs zs) None) (delnum d - 1)) m2 (bdrop bs i a)" and pos: "0 < delnum d"
      using dict_rep_drop [OF rep i, of "[]" a k v zs m2] u spl Nil by auto
    have "heads_ok m2 (bs[i := ys @ zs])"
    proof (rule heads_ok_update [OF rep ok i])
      fix e es assume "ys @ zs = e # es"
      then show "\<exists>it. m2 (fst e) = Some it \<and> hprev it = None \<and> hbucket it = Some i"
        using u(5) hd Nil b(1) spl by auto
    qed (use u(4) in blast)
    with r pos u(1,2) x hd count drop slot_set_rep [OF rep i] show ?thesis
      by (simp add: hash_delete_pair_no_fini_def hash_delete_pair_no_fini_body_def bdrop_def)
  next
    case (snoc us y)
    have px: "hprev x = Some (fst y)" using x(5) snoc by simp
    have spl': "?b = us @ [y] @ (a, k, v) # zs" using spl snoc by simp
    obtain m1 m2 m3 where u: "upd_item m (fst y) (\<lambda>i. i\<lparr>hnext := first_of (addrs zs) None\<rparr>) = Some m1"
        "(case first_of (addrs zs) None of None \<Rightarrow> Some m1 | Some n \<Rightarrow> upd_item m1 n ?g) = Some m2"
        "free_item m2 a = Some m3" "hlinked m3 None ((us @ [y]) @ zs) None" "\<forall>x. x \<notin> fst ` set ?b \<longrightarrow> m3 x = m x"
        "\<forall>e \<in> set (us @ [y]). map_option hprev (m3 (fst e)) = map_option hprev (m (fst e)) \<and>
              map_option hbucket (m3 (fst e)) = map_option hbucket (m (fst e))"
      using unlink_mid [of m us y a k v zs ?g, OF _ _ g(1-3)] b g(4) px unfolding spl' by auto
    have "dict_rep (put_slot d i (first_of (addrs ((us @ [y]) @ zs)) None) (delnum d - 1)) m3 (bdrop bs i a)"
      and pos: "0 < delnum d"
      using dict_rep_drop [OF rep i, of "us @ [y]" a k v zs m3] u spl snoc by auto
    moreover have "first_of (addrs ((us @ [y]) @ zs)) None = first_of (addrs ?b) None" by (simp add: spl')
    ultimately have r: "dict_rep (d\<lparr>delnum := delnum d - 1\<rparr>) m3 (bdrop bs i a)"
      using put_slot_same [OF rep i] by simp
    have "heads_ok m3 (bs[i := ys @ zs])"
    proof (rule heads_ok_update [OF rep ok i])
      fix e es assume e: "ys @ zs = e # es"
      then have "e \<in> set (us @ [y])" and "\<exists>es'. ?b = e # es'" using snoc spl' by (cases us; auto)+
      then show "\<exists>it. m3 (fst e) = Some it \<and> hprev it = None \<and> hbucket it = Some i"
        using u(6) heads_okD [OF ok i] by fastforce
    qed (use u(5) in blast)
    with r pos u(1-3) x px count drop show ?thesis
      by (simp add: hash_delete_pair_no_fini_def hash_delete_pair_no_fini_body_def bdrop_def)
  qed
qed

text \<open>The removal frees the item's block and no other, whatever the chains look like.\<close>

lemma upd_item_dom: "upd_item m a f = Some m' \<Longrightarrow> dom m' = dom m"
  by (auto simp: upd_item_def split: if_splits)

lemma free_item_dom: "free_item m a = Some m' \<Longrightarrow> dom m' = dom m - {a}"
  by (auto simp: free_item_def split: if_splits)

lemma hash_delete_pair_dom:
  assumes "hash_delete_pair_no_fini d m a = Some (d', m')"
  shows "dom m' = dom m - {a}"
proof -
  obtain it where it: "m a = Some it"
    using assms by (cases "m a") (simp_all add: hash_delete_pair_no_fini_def hash_delete_pair_no_fini_body_def)
  have "\<exists>m2. dom m2 = dom m \<and> free_item m2 a = Some m'"
    using assms it
    by (cases "hprev it"; cases "hnext it")
      ((clarsimp simp: hash_delete_pair_no_fini_def hash_delete_pair_no_fini_body_def Option.bind_eq_Some_conv,
        metis upd_item_dom)+)
  then show ?thesis using free_item_dom by metis
qed

lemma hash_set_item_heads:
  assumes rep: "dict_rep d m bs" and ok: "heads_ok m bs" and a: "m a = None"
    and new: "\<exists>it. m' a = Some it \<and> hprev it = None \<and> hbucket it = Some (hash_pos d k)"
    and fr: "\<forall>x. x \<noteq> a \<longrightarrow> x \<notin> fst ` set (bs ! hash_pos d k) \<longrightarrow> m' x = m x"
  shows "heads_ok m' (bs[hash_pos d k := (a, k, v) # bs ! hash_pos d k])"
proof (rule heads_ok_update [OF rep ok hash_pos_less [OF rep]])
  fix x assume "m x \<noteq> None" "x \<notin> fst ` set (bs ! hash_pos d k)"
  with fr a show "m' x = m x" by metis
qed (use new in auto)

subsection \<open>Traversal\<close>

text \<open>
  The rule for traversals whose callback returns 0 and keeps the traversed dictionary as it is:
  \<open>J\<close> relates the entries visited so far to the store and the client's data.
\<close>

definition visit_ok ::
  "('k, 'v, 'w, 'u) tcb \<Rightarrow> ('k, 'v, 'w) mnhash \<Rightarrow> ('k, 'v) entry list list
     \<Rightarrow> (('k, 'v) entry list \<Rightarrow> ('k, 'v) hstore \<Rightarrow> 'u \<Rightarrow> bool) \<Rightarrow> bool" where
  "visit_ok cb d bs J \<longleftrightarrow>
     (\<forall>pre e post m u. concat bs = pre @ e # post \<longrightarrow> dict_rep d m bs \<longrightarrow> J pre m u \<longrightarrow>
        (\<exists>m' u'. cb (fst e) (d, m, u) = Some (0, d, m', u') \<and> dict_rep d m' bs \<and> J (pre @ [e]) m' u'))"

lemma concat_at:
  "i < length bs \<Longrightarrow> concat bs = concat (take i bs) @ bs ! i @ concat (drop (Suc i) bs)"
  by (metis append_take_drop_id concat.simps(2) concat_append Cons_nth_drop_Suc)

lemma chain_next:
  assumes rep: "dict_rep d m bs" and i: "i < length bs" and b: "bs ! i = pre @ e # post"
  shows "\<exists>it. m (fst e) = Some it \<and> hkey it = fst (snd e) \<and> hvalue it = snd (snd e) \<and>
           hnext it = first_of (addrs post) None"
proof -
  have "hlinked m None (pre @ e # post) None" using dict_repD(4) [OF rep i] b by (simp add: bucket_ok_def)
  then show ?thesis by auto
qed

lemma trav_chain_rule:
  assumes ok: "visit_ok cb d bs J" and i: "i < length bs"
  shows "bs ! i = pre @ post \<Longrightarrow> dict_rep d m bs \<Longrightarrow> J (concat (take i bs) @ pre) m u \<Longrightarrow>
     \<exists>m' u'. trav_chain cb (first_of (addrs post) None) (d, m, u) = Some (0, d, m', u') \<and>
       dict_rep d m' bs \<and> J (concat (take i bs) @ bs ! i) m' u'"
proof (induction post arbitrary: pre m u)
  case Nil
  then show ?case by (subst trav_chain.simps) auto
next
  case (Cons e post)
  obtain it where it: "m (fst e) = Some it" "hnext it = first_of (addrs post) None"
    using chain_next [OF Cons.prems(2) i Cons.prems(1)] by blast
  have "concat bs = (concat (take i bs) @ pre) @ e # (post @ concat (drop (Suc i) bs))"
    using concat_at [OF i] Cons.prems(1) by simp
  then obtain m1 u1 where c: "cb (fst e) (d, m, u) = Some (0, d, m1, u1)" "dict_rep d m1 bs"
      "J ((concat (take i bs) @ pre) @ [e]) m1 u1"
    using ok Cons.prems(2,3) unfolding visit_ok_def by blast
  obtain m' u' where "trav_chain cb (first_of (addrs post) None) (d, m1, u1) = Some (0, d, m', u')"
      "dict_rep d m' bs" "J (concat (take i bs) @ bs ! i) m' u'"
    using Cons.IH [of "pre @ [e]" m1 u1] Cons.prems(1) c(2,3) by auto
  with it c(1) show ?case by (subst trav_chain.simps) simp
qed

abbreviation at_bucket :: "nat \<Rightarrow> nat \<Rightarrow> nat option \<times> mnarray_iter" where
  "at_bucket n p \<equiv> (if p < n then Some p else None, \<lparr>iter = p\<rparr>)"

lemma array_first_at: "array_first ar it = at_bucket (elnum ar) 0"
  by (cases it) (simp add: array_first_def Let_def)

lemma array_next_at:
  "array_wf ar \<Longrightarrow> p < elnum ar \<Longrightarrow> array_next ar \<lparr>iter = p\<rparr> = at_bucket (elnum ar) (Suc p)"
  by (simp add: array_next_def Let_def array_wf_def)

lemma trav_buckets_rule:
  assumes ok: "visit_ok cb d bs J"
  shows "dict_rep d m bs \<Longrightarrow> p \<le> length bs \<Longrightarrow> J (concat (take p bs)) m u \<Longrightarrow>
     \<exists>m' u'. trav_buckets cb (at_bucket (length bs) p) (d, m, u) = Some (0, d, m', u') \<and>
       dict_rep d m' bs \<and> J (concat bs) m' u'"
proof (induction "length bs - p" arbitrary: p m u)
  case 0
  then show ?case by (subst trav_buckets.simps) auto
next
  case (Suc k)
  then have p: "p < length bs" and k: "k = length bs - Suc p" by simp_all
  obtain m1 u1 where t: "trav_chain cb (first_of (addrs (bs ! p)) None) (d, m, u) = Some (0, d, m1, u1)"
      "dict_rep d m1 bs" "J (concat (take p bs) @ bs ! p) m1 u1"
    using trav_chain_rule [OF ok p, of "[]" "bs ! p" m u] Suc.prems by auto
  have "J (concat (take (Suc p) bs)) m1 u1" using t(3) p by (simp add: take_Suc_conv_app_nth)
  then obtain m' u' where r: "trav_buckets cb (at_bucket (length bs) (Suc p)) (d, m1, u1) = Some (0, d, m', u')"
      "dict_rep d m' bs" "J (concat bs) m' u'"
    using Suc.hyps(1) [OF k t(2) Suc_leI [OF p]] by blast
  have "array_next (dtable d) \<lparr>iter = p\<rparr> = at_bucket (length bs) (Suc p)"
    using array_next_at dict_repD(1,3) [OF Suc.prems(1)] p by metis
  then show ?case
    using p t(1) r slot_get_rep [OF Suc.prems(1) p] by (subst trav_buckets.simps) simp
qed

lemma hash_traverse_item_rule:
  assumes "visit_ok cb d bs J" "dict_rep d m bs" "J [] m u"
  shows "\<exists>m' u'. hash_traverse_item d m cb u = Some (0, d, m', u') \<and> dict_rep d m' bs \<and> J (concat bs) m' u'"
  using trav_buckets_rule [OF assms(1,2), of 0 u] assms(3) dict_repD(3) [OF assms(2)]
  unfolding hash_traverse_item_def array_first_at by simp

text \<open>\<^verbatim>\<open>hash_traverse\<close> is the same on keys and values.\<close>

lemma hash_traverse_as_item:
  "hash_traverse d m cb u = hash_traverse_item d m (\<lambda>a st. do { it \<leftarrow> fst (snd st) a; cb (hkey it) (hvalue it) st }) u"
  by (simp add: hash_traverse_def hash_traverse_item_def)

lemma visited_item:
  assumes rep: "dict_rep d m bs" and c: "concat bs = pre @ e # post"
  shows "\<exists>it. m (fst e) = Some it \<and> hkey it = fst (snd e) \<and> hvalue it = snd (snd e)"
proof -
  have "e \<in> set (concat bs)" using c by simp
  then obtain b where "b \<in> set bs" "e \<in> set b" by auto
  then obtain i where i: "i < length bs" "e \<in> set (bs ! i)" by (metis in_set_conv_nth)
  then obtain ys zs where "bs ! i = ys @ e # zs" using split_list by fastforce
  then show ?thesis using chain_next [OF rep i(1)] by blast
qed

subsection \<open>Iteration\<close>

text \<open>The items an iteration yields, by at most \<open>n\<close> calls of \<^verbatim>\<open>hash_next\<close>.\<close>

fun hash_walk :: "nat \<Rightarrow> ('k, 'v, 'w) mnhash \<Rightarrow> ('k, 'v) hstore \<Rightarrow> addr option \<times> mnhash_iter \<Rightarrow> addr list option" where
  "hash_walk n d m (None, it) = Some []"
| "hash_walk 0 d m (Some a, it) = None"
| "hash_walk (Suc n) d m (Some a, it) =
     do { r \<leftarrow> hash_next d m it; as \<leftarrow> hash_walk n d m r; Some (a # as) }"

text \<open>The iterator on the remaining entries: those of one chain, and those of the later buckets.\<close>

definition iter_at :: "nat \<Rightarrow> ('k, 'v) entry list \<Rightarrow> mnhash_iter" where
  "iter_at p es = \<lparr>hit_it = \<lparr>iter = p\<rparr>, hit_phit = Some p, hit_hit = first_of (addrs es) None\<rparr>"

lemma seek_bucket_rep:
  assumes rep: "dict_rep d m bs"
  shows "p \<le> length bs \<Longrightarrow>
     (\<exists>q. p \<le> q \<and> q < length bs \<and> bs ! q \<noteq> [] \<and> concat (drop p bs) = bs ! q @ concat (drop (Suc q) bs) \<and>
        seek_bucket d (at_bucket (length bs) p) = Some (iter_at q (bs ! q))) \<or>
     (concat (drop p bs) = [] \<and>
        (\<exists>it. seek_bucket d (at_bucket (length bs) p) = Some it \<and> hit_hit it = None))"
proof (induction "length bs - p" arbitrary: p)
  case 0
  then show ?case by (subst (2) seek_bucket.simps) auto
next
  case (Suc k)
  then have p: "p < length bs" by simp
  have nx: "array_next (dtable d) \<lparr>iter = p\<rparr> = at_bucket (length bs) (Suc p)"
    using array_next_at dict_repD(1,3) [OF rep] p by metis
  have dr: "concat (drop p bs) = bs ! p @ concat (drop (Suc p) bs)"
    using p by (metis Cons_nth_drop_Suc concat.simps(2))
  show ?case
  proof (cases "bs ! p = []")
    case False
    then have "seek_bucket d (at_bucket (length bs) p) = Some (iter_at p (bs ! p))"
      using p slot_get_rep [OF rep p] by (subst seek_bucket.simps) (simp add: iter_at_def)
    with False p dr show ?thesis by blast
  next
    case True
    then have "seek_bucket d (at_bucket (length bs) p) = seek_bucket d (at_bucket (length bs) (Suc p))"
      using p slot_get_rep [OF rep p] nx by (subst seek_bucket.simps) simp
    moreover have "concat (drop p bs) = concat (drop (Suc p) bs)" using dr True by simp
    moreover have "k = length bs - Suc p" "Suc p \<le> length bs" using Suc.hyps(2) p by simp_all
    ultimately show ?thesis using Suc.hyps(1) [of "Suc p"] by (auto dest: Suc_leD)
  qed
qed

lemma hash_walk_from:
  assumes rep: "dict_rep d m bs"
  shows "p < length bs \<Longrightarrow> bs ! p = pre @ e # post \<Longrightarrow> length (post @ concat (drop (Suc p) bs)) < n \<Longrightarrow>
     hash_walk n d m (Some (fst e), iter_at p (e # post)) = Some (addrs (e # post @ concat (drop (Suc p) bs)))"
proof (induction n arbitrary: p pre e post)
  case (Suc n)
  obtain it where it: "m (fst e) = Some it" "hnext it = first_of (addrs post) None"
    using chain_next [OF rep Suc.prems(1,2)] by blast
  show ?case
  proof (cases post)
    case (Cons f fs)
    then have "hash_next d m (iter_at p (e # post)) = Some (Some (fst f), iter_at p (f # fs))"
      using it by (simp add: hash_next_def iter_at_def)
    moreover have "hash_walk n d m (Some (fst f), iter_at p (f # fs)) = Some (addrs (f # fs @ concat (drop (Suc p) bs)))"
      using Suc.prems Cons by (intro Suc.IH [of p "pre @ [e]"]) auto
    ultimately show ?thesis using Cons by simp
  next
    case Nil
    have "array_next (dtable d) \<lparr>iter = p\<rparr> = at_bucket (length bs) (Suc p)"
      using array_next_at dict_repD(1,3) [OF rep] Suc.prems(1) by metis
    then have nx: "hash_next d m (iter_at p (e # post)) =
        do { it' \<leftarrow> seek_bucket d (at_bucket (length bs) (Suc p)); Some (hit_hit it', it') }"
      using it Nil by (simp add: hash_next_def iter_at_def)
    consider (more) q where "Suc p \<le> q" "q < length bs" "bs ! q \<noteq> []"
        "concat (drop (Suc p) bs) = bs ! q @ concat (drop (Suc q) bs)"
        "seek_bucket d (at_bucket (length bs) (Suc p)) = Some (iter_at q (bs ! q))"
      | (none) it' where "concat (drop (Suc p) bs) = []"
        "seek_bucket d (at_bucket (length bs) (Suc p)) = Some it'" "hit_hit it' = None"
      using seek_bucket_rep [OF rep, of "Suc p"] Suc.prems(1) by (metis Suc_leI)
    then show ?thesis
    proof cases
      case more
      obtain f fs where f: "bs ! q = f # fs" using more(3) by (cases "bs ! q") auto
      have "hash_walk n d m (Some (fst f), iter_at q (f # fs)) = Some (addrs (f # fs @ concat (drop (Suc q) bs)))"
        using Suc.prems(3) more f by (intro Suc.IH [of q "[]"]) auto
      moreover have "hash_next d m (iter_at p (e # post)) = Some (Some (fst f), iter_at q (f # fs))"
        using nx more(5) f by (simp add: iter_at_def)
      ultimately show ?thesis using Nil more(4) f by simp
    next
      case none
      have "hash_next d m (iter_at p (e # post)) = Some (None, it')"
        using nx none(2,3) by simp
      with Nil none(1) show ?thesis by simp
    qed
  qed
qed simp

lemma hash_walk_all:
  assumes rep: "dict_rep d m bs"
  shows "\<exists>r. hash_first d it = Some r \<and> hash_walk (Suc (delnum d)) d m r = Some (addrs (concat bs))"
proof -
  have hf: "hash_first d it = do { it' \<leftarrow> seek_bucket d (at_bucket (length bs) 0); Some (hit_hit it', it') }"
    using dict_repD(3) [OF rep] by (simp only: hash_first_def array_first_at)
  consider (more) q where "q < length bs" "bs ! q \<noteq> []"
      "concat bs = bs ! q @ concat (drop (Suc q) bs)"
      "seek_bucket d (at_bucket (length bs) 0) = Some (iter_at q (bs ! q))"
    | (none) it' where "concat bs = []" "seek_bucket d (at_bucket (length bs) 0) = Some it'" "hit_hit it' = None"
    using seek_bucket_rep [OF rep, of 0] by (metis drop0 le0)
  then show ?thesis
  proof cases
    case more
    obtain f fs where f: "bs ! q = f # fs" using more(2) by (cases "bs ! q") auto
    have "hash_first d it = Some (Some (fst f), iter_at q (f # fs))"
      using hf more(4) f by (simp add: iter_at_def)
    moreover have "length (concat bs) = delnum d" using dict_repD(5) [OF rep] by simp
    then have "length (fs @ concat (drop (Suc q) bs)) < Suc (delnum d)" using more(3) f by simp
    then have "hash_walk (Suc (delnum d)) d m (Some (fst f), iter_at q (f # fs)) = Some (addrs (concat bs))"
      using hash_walk_from [OF rep more(1), of "[]" f fs "Suc (delnum d)"] f more(3)
      by (simp del: hash_walk.simps)
    ultimately show ?thesis by blast
  next
    case none
    then show ?thesis using hf by simp
  qed
qed

subsection \<open>The table's own memory\<close>

lemma cb_until_null_init:
  "m \<le> n \<Longrightarrow> n \<le> length xs \<Longrightarrow>
     \<exists>ys. cb_until null_init [m..<n] xs w = Some (0, ys, w) \<and> length ys = length xs \<and>
       (\<forall>i. m \<le> i \<longrightarrow> i < n \<longrightarrow> ys ! i = None) \<and> (\<forall>i < m. ys ! i = xs ! i)"
proof (induction "n - m" arbitrary: m xs)
  case (Suc k)
  then have m: "m < n" "k = n - Suc m" by simp_all
  obtain ys where ys: "cb_until null_init [Suc m..<n] (xs[m := None]) w = Some (0, ys, w)" "length ys = length xs"
      "\<forall>i. Suc m \<le> i \<longrightarrow> i < n \<longrightarrow> ys ! i = None" "\<forall>i < Suc m. ys ! i = xs[m := None] ! i"
    using Suc.hyps(1) [OF m(2), of "xs[m := None]"] m Suc.prems by auto
  have "ys ! m = None" using ys(4) m Suc.prems by simp
  then have "ys ! i = None" if "m \<le> i" "i < n" for i using ys(3) that by (cases "i = m") auto
  with ys m Suc.prems show ?case by (simp add: upt_conv_Cons null_init_def)
qed simp

definition table_ok :: "('k, 'v, 'w) mnhash \<Rightarrow> bool" where
  "table_ok d \<longleftrightarrow> init (dtable d) = Some null_init \<and> elsz (dtable d) = 8"

text \<open>A fresh table: \<open>sz\<close> empty slots.\<close>

definition empty_table :: "(addr option, 'w) mnarray \<Rightarrow> nat \<Rightarrow> bool" where
  "empty_table ar sz \<longleftrightarrow> array_wf ar \<and> elnum ar = sz \<and> init ar = Some null_init \<and> elsz ar = 8 \<and>
     (\<forall>i < sz. slots ar ! i = None)"

lemma pow2_bound: "0 < v \<Longrightarrow> v < 2 ^ 63 \<Longrightarrow> v \<le> pow2_up 1 v \<and> pow2_up 1 v < 2 ^ 64"
  using pow2_up_ge [of 1 v] pow2_up_lt [of 1 v] by (cases "v = 1") (auto simp: pow2_up.simps)

lemma table_block:
  assumes "size_ok 8 sz" "0 < sz"
  shows "8 * sz \<le> (if 8 * sz \<ge> MNARRAY_SMALL_DATASZ then 8 * sz else pow2_up 1 (8 * sz))"
    "(if 8 * sz \<ge> MNARRAY_SMALL_DATASZ then 8 * sz else pow2_up 1 (8 * sz)) < 2 ^ 64"
  using assms pow2_bound [of "8 * sz"] by (auto simp: size_ok_def)

lemma array_reset_null:
  assumes ok: "init ar = Some null_init" "elsz ar = 8" and sz: "size_ok 8 sz" "0 < sz"
    and al: "total_allocator alloc"
  shows "\<exists>ar'. array_reset_no_fini_body ar sz alloc w = Some (rc_ok, ar', w) \<and> empty_table ar' sz"
proof -
  note alloc_total = total_allocator.alloc_total [OF al]
    and alloc_len = allocator.alloc_len [OF total_allocator.axioms(1) [OF al]]
  let ?d = "if 8 * sz \<ge> MNARRAY_SMALL_DATASZ then 8 * sz else pow2_up 1 (8 * sz)"
  obtain blk where blk: "alloc (?d div 8) = Some blk" using alloc_total by blast
  have len: "length blk = ?d div 8" using alloc_len [OF blk] .
  have "sz \<le> length blk" using div_le_mono [OF table_block(1) [OF sz], of 8] len by simp
  then obtain ys where ys: "cb_until null_init [0..<sz] blk w = Some (0, ys, w)" "length ys = length blk"
      "\<forall>i < sz. ys ! i = None"
    using cb_until_null_init [of 0 sz blk w] by auto
  have s64: "SZ (8 * sz) = 8 * sz" using sz by (intro SZ_size_ok)
  have "array_reset_no_fini_body ar sz alloc w =
      Some (rc_ok, ar\<lparr>elnum := sz, datasz := ?d, data := Some ys\<rparr>, w)"
    using ok sz blk ys(1) s64 by (simp add: array_reset_no_fini_body_def Let_def del: mult_Suc_right)
  moreover have "empty_table (ar\<lparr>elnum := sz, datasz := ?d, data := Some ys\<rparr>) sz"
    using ok ys len table_block [OF sz] sz by (simp add: empty_table_def array_wf_def size_ok_def)
  ultimately show ?thesis by blast
qed

lemma dict_rep_fresh:
  "empty_table ar sz \<Longrightarrow> 0 < sz \<Longrightarrow>
     dict_rep (d\<lparr>dtable := ar, delnum := 0\<rparr>) m (replicate sz []) \<and> heads_ok m (replicate sz [])"
  by (auto simp: dict_rep_def empty_table_def bucket_ok_def heads_ok_def)

lemma hash_init_rep:
  assumes sz: "size_ok 8 sz" "0 < sz" and al: "total_allocator alloc"
  shows "\<exists>d. hash_init sz hashfn cmp fin alloc w = Some (d, w) \<and> dict_rep d m (replicate sz []) \<and>
           heads_ok m (replicate sz []) \<and> table_ok d \<and> dhashfn d = hashfn \<and> dcmp d = cmp \<and> dfini d = fin"
proof -
  note alloc_total = total_allocator.alloc_total [OF al]
    and alloc_len = allocator.alloc_len [OF total_allocator.axioms(1) [OF al]]
  let ?d = "if 8 * sz \<ge> MNARRAY_SMALL_DATASZ then 8 * sz else pow2_up 1 (8 * sz)"
  have fit: "fit_datasz (SZ (8 * sz)) = ?d" using SZ_size_ok [OF sz(1)] sz(2) by (simp add: fit_datasz_def)
  obtain blk where blk: "alloc (?d div 8) = Some blk" using alloc_total by blast
  have len: "length blk = ?d div 8" using alloc_len [OF blk] .
  have "sz \<le> length blk" using div_le_mono [OF table_block(1) [OF sz], of 8] len by simp
  then obtain ys where ys: "cb_until null_init [0..<sz] blk w = Some (0, ys, w)" "length ys = length blk"
      "\<forall>i < sz. ys ! i = None"
    using cb_until_null_init [of 0 sz blk w] by auto
  let ?ar = "\<lparr>elsz = 8, elnum = sz, data = Some ys, datasz = ?d, init = Some null_init, fini = None\<rparr>"
  let ?h = "\<lparr>dhashfn = hashfn, dcmp = cmp, dfini = fin, dtable = ?ar, delnum = 0\<rparr>"
  have "hash_init sz hashfn cmp fin alloc w = Some (?h, w)"
    using sz(2) blk ys(1) fit
    by (simp add: hash_init_def hash_init_body_def array_init_def array_init_body_def Let_def)
  moreover have e: "empty_table ?ar sz"
    using ys len table_block [OF sz] sz by (simp add: empty_table_def array_wf_def size_ok_def)
  moreover have "dict_rep ?h m (replicate sz []) \<and> heads_ok m (replicate sz [])"
    using dict_rep_fresh [OF e sz(2), of ?h m] by simp
  ultimately show ?thesis by (simp add: table_ok_def)
qed

subsection \<open>Rehashing\<close>

definition binsert :: "('k, 'v, 'w) mnhash \<Rightarrow> ('k, 'v) entry \<Rightarrow> ('k, 'v) entry list list \<Rightarrow> ('k, 'v) entry list list" where
  "binsert d e bs = bs[hash_pos d (fst (snd e)) := e # bs ! hash_pos d (fst (snd e))]"

lemma in_concat_nth: "e \<in> set (concat bs) \<longleftrightarrow> (\<exists>i < length bs. e \<in> set (bs ! i))"
  by (auto simp: set_conv_nth [of bs])

lemma mset_concat_update:
  "i < length bs \<Longrightarrow> mset (concat (bs[i := e # bs ! i])) = add_mset e (mset (concat bs))"
proof (induction bs arbitrary: i)
  case (Cons b bs)
  then show ?case by (cases i) auto
qed simp

lemma dict_rep_cong:
  assumes rep: "dict_rep d m bs" and eq: "\<And>x. x \<in> fst ` set (concat bs) \<Longrightarrow> m' x = m x"
  shows "dict_rep d m' bs"
proof -
  have "bucket_ok d m' i (bs ! i)" if "i < length bs" for i
  proof -
    have "m' x = m x" if "x \<in> fst ` set (bs ! i)" for x using eq that \<open>i < _\<close> by fastforce
    then show ?thesis using dict_repD(4) [OF rep \<open>i < _\<close>] hlinked_cong unfolding bucket_ok_def by blast
  qed
  with rep show ?thesis by (simp add: dict_rep_def)
qed

lemma rehash_one_rep:
  assumes rep: "dict_rep (d\<lparr>delnum := c\<rparr>) m bs" and ok: "heads_ok m bs" and it: "m a = Some it"
    and a: "a \<notin> fst ` set (concat bs)" and c: "c + 1 < 2 ^ 64"
  shows "\<exists>d' m'. rehash_one d m (elnum (dtable d)) (Some a) = Some (d', m') \<and>
           dict_rep (d'\<lparr>delnum := c + 1\<rparr>) m' (binsert d (a, hkey it, hvalue it) bs) \<and>
           heads_ok m' (binsert d (a, hkey it, hvalue it) bs) \<and>
           same_fns d d' \<and> table_ok d' = table_ok d \<and> delnum d' = delnum d \<and>
           (\<forall>x. x \<noteq> a \<longrightarrow> x \<notin> fst ` set (concat bs) \<longrightarrow> m' x = m x)"
proof -
  let ?D = "d\<lparr>delnum := c\<rparr>" and ?m0 = "m(a := None)"
  let ?k = "hkey it" and ?v = "hvalue it"
  let ?i = "hash_pos d ?k"
  have pos: "hash_pos ?D ?k = ?i" by (simp add: hash_pos_def)
  have rep0: "dict_rep ?D ?m0 bs" by (rule dict_rep_cong [OF rep]) (use a in auto)
  have il: "?i < length bs" using hash_pos_less [OF rep] pos by metis
  let ?it = "it\<lparr>hbucket := Some ?i, hprev := None, hnext := first_of (addrs (bs ! ?i)) None\<rparr>"
  obtain m1 where m1: "displace_head (m(a \<mapsto> ?it)) (first_of (addrs (bs ! ?i)) None) a = Some m1"
      "dict_rep (put_slot ?D ?i (Some a) (c + 1)) m1 (bs[?i := (a, ?k, ?v) # bs ! ?i])" "m1 a = Some ?it"
      "\<forall>x. x \<noteq> a \<longrightarrow> x \<notin> fst ` set (bs ! ?i) \<longrightarrow> m1 x = ?m0 x"
    using insert_head [OF rep0 refl, of a ?it ?k ?v] c pos by auto
  have b: "slot_get d ?i = Some (first_of (addrs (bs ! ?i)) None)"
    using slot_get_rep [OF rep il] by (simp add: slot_get_def)
  have s: "slot_set d ?i (Some a) = Some (put_slot d ?i (Some a) (delnum d))"
    using dict_repD(3,8) [OF rep] il by (simp add: slot_set_def put_slot_def)
  have "rehash_one d m (elnum (dtable d)) (Some a) = Some (put_slot d ?i (Some a) (delnum d), m1)"
    using it b s m1(1) dict_repD(2) [OF rep] table_index [OF rep, of "unat (dhashfn d (hkey it))"]
    by (simp add: rehash_one_def array_get_def hash_pos_def [symmetric]) (simp add: hash_pos_def)
  moreover have "(put_slot d ?i (Some a) (delnum d))\<lparr>delnum := c + 1\<rparr> = put_slot ?D ?i (Some a) (c + 1)"
    by (simp add: put_slot_def)
  moreover have "heads_ok m1 (bs[?i := (a, ?k, ?v) # bs ! ?i])"
  proof (rule heads_ok_update [OF rep0 _ il])
    show "heads_ok ?m0 bs"
      unfolding heads_ok_def
    proof (intro allI impI)
      fix j e es assume j: "j < length bs" "bs ! j = e # es"
      then have "e \<in> set (concat bs)" using in_concat_nth [of e bs] by (metis list.set_intros(1))
      then have "fst e \<in> fst ` set (concat bs)" by blast
      then have "fst e \<noteq> a" using a by blast
      then show "\<exists>it. ?m0 (fst e) = Some it \<and> hprev it = None \<and> hbucket it = Some j"
        using heads_okD [OF ok j] by simp
    qed
  next
    show "m1 x = ?m0 x" if "?m0 x \<noteq> None" "x \<notin> fst ` set (bs ! ?i)" for x
      using m1(4) that by (cases "x = a") auto
  qed (use m1(3) in auto)
  moreover have "m1 x = m x" if "x \<noteq> a" "x \<notin> fst ` set (concat bs)" for x
  proof -
    have "x \<notin> fst ` set (bs ! ?i)" using that(2) il by fastforce
    then show ?thesis using m1(4) that(1) by simp
  qed
  ultimately show ?thesis
    using m1(2) by (auto simp: binsert_def table_ok_def put_slot_def same_fns_def)
qed

definition rebucket :: "('k, 'v, 'w) mnhash \<Rightarrow> ('k, 'v) entry list \<Rightarrow> ('k, 'v) entry list list \<Rightarrow> ('k, 'v) entry list list" where
  "rebucket d es bs = fold (binsert d) es bs"

lemma binsert_cong: "same_fns d d' \<Longrightarrow> binsert d' = binsert d"
  by (simp add: binsert_def same_fns_def hash_pos_def fun_eq_iff)

text \<open>
  The loop over the collected items, as a recursion over their list; below \<^verbatim>\<open>2^32\<close> items the
  counter of the code does the same.
\<close>

fun rehash_list ::
  "('k, 'v, 'w) mnhash \<Rightarrow> ('k, 'v) hstore \<Rightarrow> nat \<Rightarrow> addr option list
     \<Rightarrow> (('k, 'v, 'w) mnhash \<times> ('k, 'v) hstore) option" where
  "rehash_list dict m sz [] = Some (dict, m)"
| "rehash_list dict m sz (x # xs) =
     do { (dict1, m1) \<leftarrow> rehash_one dict m sz x; rehash_list dict1 m1 sz xs }"

lemma rehash_one_delnum: "rehash_one d m sz h = Some (d', m') \<Longrightarrow> delnum d' = delnum d"
  by (auto simp: rehash_one_def slot_set_def split: Option.bind_splits)

lemma rehash_all_list:
  assumes "length tmp = delnum d" "delnum d < 2 ^ 32" "i \<le> delnum d"
  shows "rehash_all d m sz tmp i = rehash_list d m sz (drop i tmp)"
  using assms
proof (induction "delnum d - i" arbitrary: d m i)
  case 0
  then show ?case by (simp add: rehash_all.simps)
next
  case (Suc n)
  then have i: "i < delnum d" by simp
  then have "U32 (i + 1) = Suc i" using Suc.prems by (simp add: U32_def)
  moreover have "drop i tmp = tmp ! i # drop (Suc i) tmp" using i Suc.prems by (simp add: Cons_nth_drop_Suc)
  moreover have "rehash_all d1 m1 sz tmp (Suc i) = rehash_list d1 m1 sz (drop (Suc i) tmp)"
    if "rehash_one d m sz (tmp ! i) = Some (d1, m1)" for d1 m1
    using Suc.hyps(1) [of d1 "Suc i" m1] Suc.hyps(2) Suc.prems i rehash_one_delnum [OF that] by simp
  ultimately show ?case
    using i Suc.prems by (subst rehash_all.simps) (auto simp: peek_def intro!: Option.bind_cong)
qed

lemma rehash_list_rep:
  assumes "dict_rep (d\<lparr>delnum := c\<rparr>) m bs" "heads_ok m bs" "elnum (dtable d) = sz"
    and "\<forall>e \<in> set es. \<exists>it. m (fst e) = Some it \<and> hkey it = fst (snd e) \<and> hvalue it = snd (snd e)"
    and "distinct (addrs es)" "fst ` set es \<inter> fst ` set (concat bs) = {}" "c + length es < 2 ^ 64"
  shows "\<exists>d' m'. rehash_list d m sz (map Some (addrs es)) = Some (d', m') \<and>
           dict_rep (d'\<lparr>delnum := c + length es\<rparr>) m' (rebucket d es bs) \<and> heads_ok m' (rebucket d es bs) \<and>
           same_fns d d' \<and> table_ok d' = table_ok d \<and> delnum d' = delnum d"
  using assms
proof (induction es arbitrary: d c m bs)
  case Nil
  then show ?case by (simp add: rebucket_def)
next
  case (Cons e es)
  obtain a k v where e: "e = (a, k, v)" by (cases e)
  obtain it where it: "m a = Some it" "hkey it = k" "hvalue it = v" using Cons.prems(4) e by auto
  have na: "a \<notin> fst ` set (concat bs)" using Cons.prems(6) e by auto
  obtain d1 m1 where o: "rehash_one d m sz (Some a) = Some (d1, m1)"
      "dict_rep (d1\<lparr>delnum := c + 1\<rparr>) m1 (binsert d e bs)" "heads_ok m1 (binsert d e bs)"
      "same_fns d d1" "table_ok d1 = table_ok d" "delnum d1 = delnum d"
      "\<forall>x. x \<noteq> a \<longrightarrow> x \<notin> fst ` set (concat bs) \<longrightarrow> m1 x = m x"
    using rehash_one_rep [OF Cons.prems(1,2) it(1) na] Cons.prems(3,7) e it by auto
  have il: "hash_pos d k < length bs" using hash_pos_less [OF Cons.prems(1), of k] by (simp add: hash_pos_def)
  have "set (concat (binsert d e bs)) = insert e (set (concat bs))"
    using arg_cong [OF mset_concat_update [OF il, of e], of set_mset] e by (simp add: binsert_def)
  then have addrs1: "fst ` set (concat (binsert d e bs)) = insert a (fst ` set (concat bs))" using e by simp
  have keep: "m1 (fst f) = m (fst f)" if "f \<in> set es" for f
  proof -
    have "fst f \<noteq> a" using Cons.prems(5) e that by force
    moreover have "fst f \<notin> fst ` set (concat bs)" using Cons.prems(6) that by auto
    ultimately show ?thesis using o(7) by blast
  qed
  obtain d' m' where r: "rehash_list d1 m1 sz (map Some (addrs es)) = Some (d', m')"
      "dict_rep (d'\<lparr>delnum := c + 1 + length es\<rparr>) m' (rebucket d1 es (binsert d e bs))"
      "heads_ok m' (rebucket d1 es (binsert d e bs))" "same_fns d1 d'" "table_ok d' = table_ok d1" "delnum d' = delnum d1"
  proof -
    have "elnum (dtable d1) = sz" using o(4) Cons.prems(3) by (simp add: same_fns_def)
    moreover have "\<forall>f \<in> set es. \<exists>it. m1 (fst f) = Some it \<and> hkey it = fst (snd f) \<and> hvalue it = snd (snd f)"
      using keep Cons.prems(4) by simp
    moreover have "distinct (addrs es)" using Cons.prems(5) by simp
    moreover have "fst ` set es \<inter> fst ` set (concat (binsert d e bs)) = {}"
      unfolding addrs1 using Cons.prems(5,6) e by auto
    ultimately show ?thesis using that Cons.IH [OF o(2,3)] Cons.prems(7) by auto
  qed
  have "rebucket d1 es (binsert d e bs) = rebucket d (e # es) bs"
    using binsert_cong [OF o(4)] by (simp add: rebucket_def)
  with o r e show ?case by (auto simp: same_fns_def)
qed

lemma rebucket_mset:
  "length bs = elnum (dtable d) \<Longrightarrow> 0 < elnum (dtable d) \<Longrightarrow>
     mset (concat (rebucket d es bs)) = mset es + mset (concat bs) \<and> length (rebucket d es bs) = length bs"
proof (induction es arbitrary: bs)
  case (Cons e es)
  have "hash_pos d (fst (snd e)) < length bs" using Cons.prems by (simp add: hash_pos_def)
  with Cons mset_concat_update [OF this, of e] show ?case by (simp add: rebucket_def binsert_def)
qed (simp add: rebucket_def)

lemma dict_rep_distinct: 
  assumes "dict_rep d m bs"
  shows "distinct (addrs (concat bs))"
proof -
  have "distinct (addrs (bs ! i))" if "i < length bs" for i
    using dict_repD(4) [OF assms that] by (simp add: bucket_ok_def)
  moreover have "fst ` set (bs ! i) \<inter> fst ` set (bs ! j) = {}" if "i < length bs" "j < length bs" "i \<noteq> j" for i j
    using assms that by (simp add: dict_rep_def)
  ultimately show ?thesis
  proof (induction bs)
    case (Cons b bs)
    have "fst ` set b \<inter> fst ` set c = {}" if "c \<in> set bs" for c
    proof -
      obtain j where "j < length bs" "c = bs ! j" using \<open>c \<in> set bs\<close> by (auto simp: in_set_conv_nth)
      then show ?thesis using Cons.prems(2) [of 0 "Suc j"] by simp
    qed
    moreover have "distinct (addrs (concat bs))"
      using Cons.prems(1) [of "Suc _"] Cons.prems(2) [of "Suc _" "Suc _"] by (intro Cons.IH) auto
    ultimately show ?case using Cons.prems(1) [of 0] by fastforce
  qed simp
qed

lemma my_rehash_collects:
  assumes rep: "dict_rep d m bs" and len: "length tmp = delnum d"
  shows "\<exists>tmp'. hash_traverse_item d m my_rehash (tmp, 0) = Some (0, d, m, tmp', delnum d) \<and>
           tmp' = map Some (addrs (concat bs))"
proof -
  let ?J = "\<lambda>pre m' (u :: addr option list \<times> nat). m' = m \<and> length (fst u) = delnum d \<and> snd u = length pre \<and>
     take (length pre) (fst u) = map Some (addrs pre)"
  have "visit_ok my_rehash d bs ?J"
    unfolding visit_ok_def
  proof (intro allI impI)
    fix pre :: "('a, 'b) entry list" and e post m' and u :: "addr option list \<times> nat"
    assume c: "concat bs = pre @ e # post" and r: "dict_rep d m' bs" and J: "?J pre m' u"
    have "length pre < delnum d" using c dict_repD(5) [OF rep] by simp
    with J r show "\<exists>m'' u'. my_rehash (fst e) (d, m', u) = Some (0, d, m'', u') \<and> dict_rep d m'' bs \<and> ?J (pre @ [e]) m'' u'"
      by (cases u) (auto simp: my_rehash_def take_Suc_conv_app_nth)
  qed
  from hash_traverse_item_rule [OF this rep, of "(tmp, 0)"] len
  obtain u where u: "hash_traverse_item d m my_rehash (tmp, 0) = Some (0, d, m, u)" "?J (concat bs) m u"
    by auto
  moreover have "length (concat bs) = delnum d" using dict_repD(5) [OF rep] by simp
  ultimately show ?thesis by (cases u) auto
qed

lemma hash_rehash_rep:
  assumes rep: "dict_rep d m bs" and tab: "table_ok d" and sz: "size_ok 8 sz" "0 < sz"
    and few: "delnum d < 2 ^ 32" and al: "total_allocator tmp_alloc" "total_allocator alloc"
  shows "\<exists>d' m' bs'. hash_rehash d m w sz tmp_alloc alloc = Some (d', m', w) \<and> dict_rep d' m' bs' \<and>
           heads_ok m' bs' \<and> table_ok d' \<and> elnum (dtable d') = sz \<and> mset (concat bs') = mset (concat bs) \<and>
           dhashfn d' = dhashfn d \<and> dcmp d' = dcmp d \<and> dfini d' = dfini d"
proof -
  obtain tmp where tmp: "tmp_alloc (delnum d) = Some tmp" "length tmp = delnum d"
    using total_allocator.alloc_total [OF al(1)] allocator.alloc_len total_allocator.axioms(1) [OF al(1)] by metis
  let ?es = "concat bs"
  have trav: "hash_traverse_item d m my_rehash (tmp, 0) = Some (0, d, m, map Some (addrs ?es), delnum d)"
    using my_rehash_collects [OF rep tmp(2)] by auto
  obtain ar where ar: "array_reset_no_fini_body (dtable d) sz alloc w = Some (rc_ok, ar, w)" "empty_table ar sz"
    using array_reset_null [of "dtable d" sz alloc w] sz al(2) tab by (auto simp: table_ok_def)
  let ?d1 = "d\<lparr>dtable := ar\<rparr>"
  have r0: "dict_rep (?d1\<lparr>delnum := 0\<rparr>) m (replicate sz [])" "heads_ok m (replicate sz ([] :: ('a, 'b) entry list))"
    using dict_rep_fresh [OF ar(2) sz(2), of d m] by simp_all
  have items: "\<forall>e \<in> set ?es. \<exists>it. m (fst e) = Some it \<and> hkey it = fst (snd e) \<and> hvalue it = snd (snd e)"
  proof
    fix e assume "e \<in> set ?es"
    then obtain pre post where "?es = pre @ e # post" using split_list by fastforce
    then show "\<exists>it. m (fst e) = Some it \<and> hkey it = fst (snd e) \<and> hvalue it = snd (snd e)"
      by (rule visited_item [OF rep])
  qed
  have n: "0 + length ?es < 2 ^ 64" "length ?es = delnum d" using dict_repD(5,6) [OF rep] by simp_all
  have e0: "elnum (dtable ?d1) = sz" using ar(2) by (simp add: empty_table_def)
  obtain d' m' where a: "rehash_list ?d1 m sz (map Some (addrs ?es)) = Some (d', m')"
      "dict_rep (d'\<lparr>delnum := 0 + length ?es\<rparr>) m' (rebucket ?d1 ?es (replicate sz []))"
      "heads_ok m' (rebucket ?d1 ?es (replicate sz []))" "same_fns ?d1 d'" "table_ok d' = table_ok ?d1" "delnum d' = delnum ?d1"
    using rehash_list_rep [OF r0 e0 items dict_rep_distinct [OF rep] _ n(1)] by auto
  have "rehash_all ?d1 m sz (map Some (addrs ?es)) 0 = Some (d', m')"
    using rehash_all_list [of "map Some (addrs ?es)" ?d1 0 m sz] a(1) n(2) few by simp
  then have "hash_rehash d m w sz tmp_alloc alloc = Some (d', m', w)"
    using tmp(1) trav ar(1) n(2) by (simp add: hash_rehash_def hash_rehash_body_def)
  moreover have "d'\<lparr>delnum := 0 + length ?es\<rparr> = d'" using a(6) n(2) by simp
  moreover have "mset (concat (rebucket ?d1 ?es (replicate sz []))) = mset ?es"
    using rebucket_mset [of "replicate sz []" ?d1 ?es] e0 sz(2) by simp
  moreover have "table_ok d'" using a(5) ar(2) by (simp add: table_ok_def empty_table_def)
  ultimately show ?thesis using a e0 by (auto simp: same_fns_def)
qed

subsection \<open>The dictionary as a map\<close>

definition uniq_on :: "('k \<Rightarrow> 'k \<Rightarrow> int) \<Rightarrow> ('k, 'v) entry set \<Rightarrow> bool" where
  "uniq_on cmp S \<longleftrightarrow> (\<forall>e \<in> S. \<forall>f \<in> S. cmp (fst (snd e)) (fst (snd f)) = 0 \<longrightarrow> fst e = fst f)"

definition uniq_keys :: "('k, 'v, 'w) mnhash \<Rightarrow> ('k, 'v) entry list list \<Rightarrow> bool" where
  "uniq_keys d bs \<longleftrightarrow> uniq_on (dcmp d) (set (concat bs))"

lemma uniq_on_mono: "uniq_on cmp S \<Longrightarrow> T \<subseteq> S \<Longrightarrow> uniq_on cmp T"
  unfolding uniq_on_def by blast

lemma uniq_onD: "uniq_on cmp S \<Longrightarrow> e \<in> S \<Longrightarrow> f \<in> S \<Longrightarrow> cmp (fst (snd e)) (fst (snd f)) = 0 \<Longrightarrow> fst e = fst f"
  unfolding uniq_on_def by blast

lemma uniq_on_insert:
  assumes "uniq_on cmp S" "\<And>e. e \<in> S \<Longrightarrow> cmp (fst (snd x)) (fst (snd e)) = 0 \<or> cmp (fst (snd e)) (fst (snd x)) = 0 \<Longrightarrow> fst e = fst x"
  shows "uniq_on cmp (insert x S)"
  using assms unfolding uniq_on_def by (metis insert_iff)

lemma find_cong_pred: "(\<And>x. x \<in> set xs \<Longrightarrow> P x = Q x) \<Longrightarrow> find P xs = find Q xs"
  by (induction xs) auto

lemma find_map_entry:
  assumes d: "distinct (addrs (ys @ (a, k0, v0) # zs))" and ys: "\<And>e. e \<in> set ys \<Longrightarrow> \<not> P (fst (snd e))"
  shows "find (\<lambda>e. P (fst (snd e))) (ys @ (a, k, v) # zs) =
     (if P k then Some (a, k, v) else find (\<lambda>e. P (fst (snd e))) zs)"
  using ys by (induction ys) auto

lemma mset_concat_put:
  "i < length bs \<Longrightarrow> mset (concat (bs[i := es])) + mset (bs ! i) = mset (concat bs) + mset es"
proof (induction bs arbitrary: i)
  case (Cons b bs)
  then show ?case by (cases i) (auto simp: add.commute add.left_commute)
qed simp

context hash_key
begin

lemma same_bucket: "dhashfn d = hashfn \<Longrightarrow> cmp a b = 0 \<Longrightarrow> hash_pos d a = hash_pos d b"
  using key_hash by (simp add: hash_pos_def)

lemma blookup_bucket:
  assumes "dcmp d = cmp" "blookup d bs k = Some e"
  shows "e \<in> set (bs ! hash_pos d k) \<and> cmp k (fst (snd e)) = 0"
  using find_split [OF assms(2) [unfolded blookup_def]] assms(1) by auto

lemma blookup_in:
  assumes rep: "dict_rep d m bs" and d: "dcmp d = cmp" and e: "blookup d bs k = Some e"
  shows "e \<in> set (concat bs)" "cmp k (fst (snd e)) = 0"
  using blookup_bucket [OF d e] hash_pos_less [OF rep, of k] in_concat_nth [of e bs] by blast+

lemma blookup_mem:
  assumes rep: "dict_rep d m bs" and d: "dcmp d = cmp" "dhashfn d = hashfn"
  shows "(\<exists>e. blookup d bs k = Some e) \<longleftrightarrow> (\<exists>e \<in> set (concat bs). cmp k (fst (snd e)) = 0)"
proof
  assume "\<exists>e. blookup d bs k = Some e"
  then show "\<exists>e \<in> set (concat bs). cmp k (fst (snd e)) = 0" using blookup_in [OF rep d(1)] by blast
next
  assume "\<exists>e \<in> set (concat bs). cmp k (fst (snd e)) = 0"
  then obtain e i where e: "i < length bs" "e \<in> set (bs ! i)" "cmp k (fst (snd e)) = 0"
    unfolding in_concat_nth Bex_def by blast
  then have "hash_pos d (fst (snd e)) = i" using dict_repD(4) [OF rep e(1)] by (simp add: bucket_ok_def)
  then have "hash_pos d k = i" using same_bucket [OF d(2) e(3)] by simp
  then have "e \<in> set (bs ! hash_pos d k)" using e(2) by simp
  then have "find (\<lambda>e. dcmp d k (fst (snd e)) = 0) (bs ! hash_pos d k) \<noteq> None"
    using e(3) d(1) unfolding find_None_iff by blast
  then show "\<exists>e. blookup d bs k = Some e" by (simp add: blookup_def)
qed

lemma dict_map_iff:
  assumes rep: "dict_rep d m bs" and d: "dcmp d = cmp" "dhashfn d = hashfn" and u: "uniq_keys d bs"
  shows "dict_map d bs k = Some v \<longleftrightarrow> (\<exists>e \<in> set (concat bs). cmp k (fst (snd e)) = 0 \<and> snd (snd e) = v)"
proof
  assume "dict_map d bs k = Some v"
  then show "\<exists>e \<in> set (concat bs). cmp k (fst (snd e)) = 0 \<and> snd (snd e) = v"
    using blookup_in [OF rep d(1)] by (metis (no_types, lifting) dict_map_def map_option_eq_Some)
next
  assume "\<exists>e \<in> set (concat bs). cmp k (fst (snd e)) = 0 \<and> snd (snd e) = v"
  then obtain e where e: "e \<in> set (concat bs)" "cmp k (fst (snd e)) = 0" "snd (snd e) = v" by blast
  obtain f where f: "blookup d bs k = Some f" using blookup_mem [OF rep d] e by blast
  then have "f \<in> set (concat bs)" "cmp k (fst (snd f)) = 0" using blookup_in [OF rep d(1)] by auto
  then have "fst e = fst f"
    using uniq_onD [OF u [unfolded uniq_keys_def d(1)] e(1)] e(2) key_sym key_trans by blast
  then have "e = f"
    using dict_rep_distinct [OF rep] e(1) \<open>f \<in> _\<close> unfolding distinct_map by (meson inj_onD)
  with e f show "dict_map d bs k = Some v" by (simp add: dict_map_def)
qed

lemma dict_map_mset:
  assumes "dict_rep d m bs" "dict_rep d' m' bs'" "dcmp d = cmp" "dhashfn d = hashfn"
    "dcmp d' = cmp" "dhashfn d' = hashfn" "uniq_keys d bs" "mset (concat bs') = mset (concat bs)"
  shows "dict_map d' bs' = dict_map d bs \<and> uniq_keys d' bs'"
proof -
  have s: "set (concat bs') = set (concat bs)" using assms(8) by (rule mset_eq_setD)
  then have u: "uniq_keys d' bs'" using assms(3,5,7) by (simp only: uniq_keys_def)
  have "dict_map d' bs' k = Some v \<longleftrightarrow> dict_map d bs k = Some v" for k v
    unfolding dict_map_iff [OF assms(1,3,4,7)] dict_map_iff [OF assms(2,5,6) u] s ..
  then have "dict_map d' bs' k = dict_map d bs k" for k
    by (cases "dict_map d' bs' k"; cases "dict_map d bs k") (metis option.distinct(1) option.inject)+
  with u show ?thesis by (simp add: fun_eq_iff)
qed

text \<open>Overwriting or inserting updates the map at the key's class; the keys stay unique.\<close>

lemma bset_map:
  assumes rep: "dict_rep d m bs" and d: "dcmp d = cmp" "dhashfn d = hashfn"
  shows "dict_map d (bset d bs a k v) k' = (if cmp k' k = 0 then Some v else dict_map d bs k')"
proof (cases "blookup d bs k")
  case None
  then show ?thesis using dict_map_insert [OF d hash_pos_less [OF rep]] by (simp add: bset_def Let_def)
next
  case (Some e)
  obtain c k0 v0 where e: "e = (c, k0, v0)" by (cases e)
  let ?i = "hash_pos d k"
  have il: "?i < length bs" by (rule hash_pos_less [OF rep])
  obtain ys zs where s: "bs ! ?i = ys @ (c, k0, v0) # zs" "cmp k k0 = 0" "\<forall>y \<in> set ys. cmp k (fst (snd y)) \<noteq> 0"
    using find_split [of "\<lambda>e. dcmp d k (fst (snd e)) = 0"] Some e d(1) unfolding blookup_def by fastforce
  have dist: "distinct (addrs (ys @ (c, k0, v0) # zs))" using dict_repD(4) [OF rep il] s by (simp add: bucket_ok_def)
  have b: "bset d bs a k v = bs[?i := ys @ (c, k, v) # zs]"
    using Some e s replace_entry_split [OF dist] by (simp add: bset_def Let_def)
  show ?thesis
  proof (cases "cmp k' k = 0")
    case True
    then have "\<forall>y \<in> set ys. cmp k' (fst (snd y)) \<noteq> 0" using s(3) key_eq_cong by blast
    with True show ?thesis
      using b il same_bucket [OF d(2) True] find_map_entry [OF dist, of "\<lambda>x. cmp k' x = 0"] d(1)
      by (simp add: dict_map_def blookup_def)
  next
    case False
    then have "cmp k' k0 \<noteq> 0" using s(2) key_eq_cong2 by blast
    then have "find (\<lambda>e. cmp k' (fst (snd e)) = 0) (ys @ (c, k, v) # zs) =
               find (\<lambda>e. cmp k' (fst (snd e)) = 0) (ys @ (c, k0, v0) # zs)"
      using False by (induction ys) auto
    with False b il s(1) d(1) show ?thesis
      by (cases "hash_pos d k' = ?i") (simp_all add: dict_map_def blookup_def)
  qed
qed

lemma bset_uniq:
  assumes rep: "dict_rep d m bs" and d: "dcmp d = cmp" "dhashfn d = hashfn" and u: "uniq_keys d bs"
  shows "uniq_keys d (bset d bs a k v)"
proof (cases "blookup d bs k")
  case None
  let ?i = "hash_pos d k"
  have il: "?i < length bs" by (rule hash_pos_less [OF rep])
  have "set (concat (bset d bs a k v)) = insert (a, k, v) (set (concat bs))"
    using arg_cong [OF mset_concat_update [OF il, of "(a, k, v)"], of set_mset] None by (simp add: bset_def Let_def)
  moreover have "cmp k (fst (snd e)) \<noteq> 0" "cmp (fst (snd e)) k \<noteq> 0" if "e \<in> set (concat bs)" for e
    using None blookup_mem [OF rep d] that key_sym by (metis option.distinct(1))+
  ultimately show ?thesis
    using u uniq_on_insert [of cmp "set (concat bs)" "(a, k, v)"] d(1) unfolding uniq_keys_def by auto
next
  case (Some e)
  obtain c k0 v0 where e: "e = (c, k0, v0)" by (cases e)
  let ?i = "hash_pos d k"
  have il: "?i < length bs" by (rule hash_pos_less [OF rep])
  obtain ys zs where s: "bs ! ?i = ys @ (c, k0, v0) # zs" "cmp k k0 = 0"
    using find_split [of "\<lambda>e. dcmp d k (fst (snd e)) = 0"] Some e d(1) unfolding blookup_def by fastforce
  have dist: "distinct (addrs (ys @ (c, k0, v0) # zs))" using dict_repD(4) [OF rep il] s by (simp add: bucket_ok_def)
  have b: "bset d bs a k v = bs[?i := ys @ (c, k, v) # zs]"
    using Some e s replace_entry_split [OF dist] by (simp add: bset_def Let_def)
  have "add_mset (c, k0, v0) (mset (concat (bset d bs a k v))) = add_mset (c, k, v) (mset (concat bs))"
    using mset_concat_put [OF il, of "ys @ (c, k, v) # zs"] b s(1) by simp
  from arg_cong [OF this, of set_mset]
  have "insert (c, k0, v0) (set (concat (bset d bs a k v))) = insert (c, k, v) (set (concat bs))"
    by (simp only: set_mset_add_mset_insert set_mset_mset)
  then have sub: "set (concat (bset d bs a k v)) \<subseteq> insert (c, k, v) (set (concat bs))" by blast
  have old: "(c, k0, v0) \<in> set (concat bs)" using blookup_in [OF rep d(1) Some] e by simp
  have key: "fst f = c" if "f \<in> set (concat bs)" "cmp k (fst (snd f)) = 0 \<or> cmp (fst (snd f)) k = 0" for f
  proof -
    have "cmp (fst (snd f)) k0 = 0" using that(2) s(2) key_sym key_trans by blast
    then show ?thesis using uniq_onD [OF u [unfolded uniq_keys_def d(1)] that(1) old] by simp
  qed
  have "uniq_on cmp (insert (c, k, v) (set (concat bs)))"
    using u d(1) key by (intro uniq_on_insert) (auto simp: uniq_keys_def)
  then show ?thesis using uniq_on_mono [OF _ sub] d(1) by (simp add: uniq_keys_def)
qed

end

text \<open>Removing takes the key's class out of the map when the keys are unique.\<close>

lemma drop_entry_concat:
  assumes "i < length bs" "dict_rep d m bs" "bs ! i = ys @ e # zs"
  shows "mset (concat bs) = add_mset e (mset (concat (bdrop bs i (fst e))))"
proof -
  obtain a k v where e: "e = (a, k, v)" by (cases e)
  have "distinct (addrs (bs ! i))" using dict_repD(4) [OF assms(2,1)] by (simp add: bucket_ok_def)
  then have "drop_entry (bs ! i) a = ys @ zs" using drop_entry_split [of ys a k v zs] assms(3) e by simp
  then show ?thesis using mset_concat_put [OF assms(1), of "ys @ zs"] assms(3) e by (simp add: bdrop_def)
qed

context hash_key
begin

lemma bremove_map:
  assumes rep: "dict_rep d m bs" and rep': "dict_rep d' m' (bremove d bs k)"
    and d: "dcmp d = cmp" "dhashfn d = hashfn" and d': "dcmp d' = cmp" "dhashfn d' = hashfn" and u: "uniq_keys d bs"
  shows "uniq_keys d' (bremove d bs k) \<and>
         dict_map d' (bremove d bs k) k' = (if cmp k' k = 0 then None else dict_map d bs k')"
proof (cases "blookup d bs k")
  case None
  then have b: "bremove d bs k = bs" by (simp add: bremove_def)
  have m: "dict_map d' bs = dict_map d bs \<and> uniq_keys d' bs"
    using dict_map_mset [OF rep rep' [unfolded b] d d' u] by simp
  have "dict_map d bs k' = None" if "cmp k' k = 0"
  proof (rule ccontr)
    assume "dict_map d bs k' \<noteq> None"
    then obtain e where "e \<in> set (concat bs)" "cmp k' (fst (snd e)) = 0"
      using blookup_mem [OF rep d, of k'] by (auto simp: dict_map_def)
    then have "\<exists>e \<in> set (concat bs). cmp k (fst (snd e)) = 0" using that key_sym key_trans by blast
    with blookup_mem [OF rep d, of k] None show False by simp
  qed
  with m b show ?thesis by simp
next
  case (Some e)
  let ?i = "hash_pos d k" and ?bs = "bremove d bs k"
  have il: "?i < length bs" by (rule hash_pos_less [OF rep])
  obtain ys zs where s: "bs ! ?i = ys @ e # zs" "cmp k (fst (snd e)) = 0"
    using find_split [of "\<lambda>e. dcmp d k (fst (snd e)) = 0"] Some d(1) unfolding blookup_def by fastforce
  have ms: "mset (concat bs) = add_mset e (mset (concat ?bs))"
    using drop_entry_concat [OF il rep s(1)] Some by (simp add: bremove_def)
  have set: "set (concat bs) = insert e (set (concat ?bs))" using arg_cong [OF ms, of set_mset] by simp
  have u': "uniq_keys d' ?bs"
    using uniq_on_mono [OF u [unfolded uniq_keys_def set d(1)], of "set (concat ?bs)"] d'(1)
    unfolding uniq_keys_def by blast
  have ne: "e \<notin> set (concat ?bs)"
  proof -
    have "distinct (concat bs)" using dict_rep_distinct [OF rep] by (simp only: distinct_map)
    then have "count (mset (concat bs)) e \<le> 1"
      using distinct_count_atmost_1 [of "concat bs"] by (metis le_numeral_extra(4) zero_le_one)
    with ms have "count (mset (concat ?bs)) e = 0" by simp
    then show ?thesis by (simp only: count_eq_zero_iff set_mset_mset not_False_eq_True)
  qed
  have other: "cmp k (fst (snd f)) \<noteq> 0" if "f \<in> set (concat ?bs)" for f
  proof
    assume "cmp k (fst (snd f)) = 0"
    then have "cmp (fst (snd e)) (fst (snd f)) = 0" using s(2) key_sym key_trans by blast
    then have "fst e = fst f"
      using uniq_onD [OF u [unfolded uniq_keys_def d(1)]] that unfolding set by blast
    moreover have "inj_on fst (set (concat bs))" using dict_rep_distinct [OF rep] by (simp only: distinct_map)
    moreover have "e \<in> set (concat bs)" "f \<in> set (concat bs)" using that unfolding set by blast+
    ultimately have "e = f" using inj_onD by fastforce
    with ne that show False by simp
  qed
  show ?thesis
  proof (cases "cmp k' k = 0")
    case True
    have "\<not> (\<exists>f \<in> set (concat ?bs). cmp k' (fst (snd f)) = 0)"
      using other True key_sym key_trans by blast
    then have "blookup d' ?bs k' = None" using blookup_mem [OF rep' d', of k'] by (metis option.exhaust)
    with u' True show ?thesis by (simp add: dict_map_def)
  next
    case False
    have "cmp k' (fst (snd e)) \<noteq> 0" using False s(2) key_sym key_trans by blast
    then have "dict_map d' ?bs k' = Some v \<longleftrightarrow> dict_map d bs k' = Some v" for v
      unfolding dict_map_iff [OF rep d u] dict_map_iff [OF rep' d' u'] set by auto
    then have "dict_map d' ?bs k' = dict_map d bs k'"
      by (cases "dict_map d' ?bs k'"; cases "dict_map d bs k'") (metis option.distinct(1) option.inject)+
    with u' False show ?thesis by simp
  qed
qed

end

subsection \<open>Emptying the dictionary\<close>

definition fini_zero :: "('k, 'v, 'w) mnhash \<Rightarrow> bool" where
  "fini_zero d \<longleftrightarrow> (case dfini d of None \<Rightarrow> True | Some f \<Rightarrow> \<forall>k v w. fst (f k v w) = 0)"

definition fini_entries :: "('k, 'v, 'w) mnhash \<Rightarrow> ('k, 'v) entry list \<Rightarrow> 'w \<Rightarrow> 'w" where
  "fini_entries d es w = fold (\<lambda>e. fini_pair d (fst (snd e)) (snd (snd e))) es w"

lemma fini_step:
  "fini_zero d \<Longrightarrow> (case dfini d of None \<Rightarrow> (0, w) | Some f \<Rightarrow> f k v w) = (0, fini_pair d k v w)"
  by (cases "dfini d") (auto simp: fini_zero_def fini_pair_def prod_eq_iff)

lemma fini_cong:
  assumes "dfini d' = dfini d"
  shows "fini_zero d' = fini_zero d" "fini_entries d' = fini_entries d"
proof -
  have "fini_pair d' = fini_pair d" using assms by (intro ext) (simp add: fini_pair_def)
  then show "fini_entries d' = fini_entries d" by (intro ext) (simp add: fini_entries_def)
  show "fini_zero d' = fini_zero d" using assms by (simp add: fini_zero_def)
qed

lemma free_chain_rep:
  "hlinked m p es None \<Longrightarrow> distinct (addrs es) \<Longrightarrow> fini_zero d \<Longrightarrow> length es \<le> delnum d \<Longrightarrow> delnum d < 2 ^ 64 \<Longrightarrow>
     \<exists>m'. free_chain (first_of (addrs es) None) d m w =
         Some (d\<lparr>delnum := delnum d - length es\<rparr>, m', fini_entries d es w) \<and>
       (\<forall>x. m' x = (if x \<in> fst ` set es then None else m x))"
proof (induction es arbitrary: m p d w)
  case Nil
  then show ?case by (subst free_chain.simps) (simp add: fini_entries_def)
next
  case (Cons e es)
  obtain it where it: "m (fst e) = Some it" "hkey it = fst (snd e)" "hvalue it = snd (snd e)"
    "hnext it = first_of (addrs es) None" "hlinked m (Some (fst e)) es None"
    using Cons.prems(1) by auto
  let ?d = "d\<lparr>delnum := delnum d - 1\<rparr>" and ?m = "m(fst e := None)"
  let ?w = "fini_pair d (fst (snd e)) (snd (snd e)) w"
  have l: "hlinked ?m (Some (fst e)) es None" using it(5) Cons.prems(2) by (simp del: fun_upd_apply)
  have dz: "fini_zero ?d" "fini_entries ?d = fini_entries d"
    using Cons.prems(3) fini_cong [of ?d d] by simp_all
  have side: "distinct (addrs es)" "length es \<le> delnum ?d" "delnum ?d < 2 ^ 64" using Cons.prems by simp_all
  obtain m' where m': "free_chain (first_of (addrs es) None) ?d ?m ?w =
         Some (?d\<lparr>delnum := delnum ?d - length es\<rparr>, m', fini_entries d es ?w)"
       "\<forall>x. m' x = (if x \<in> fst ` set es then None else ?m x)"
    using Cons.IH [OF l side(1) dz(1) side(2,3), of ?w] unfolding dz(2) by blast
  have "SZ (18446744073709551615 + delnum d) = delnum d - 1" using SZ_pred(2) [of "delnum d"] Cons.prems(4,5) by simp
  then have "free_chain (first_of (addrs (e # es)) None) d m w =
      Some (d\<lparr>delnum := delnum d - length (e # es)\<rparr>, m', fini_entries d (e # es) w)"
    using it(1-4) m'(1) fini_step [OF Cons.prems(3)]
    by (subst free_chain.simps) (simp add: free_item_def fini_entries_def)
  moreover have "\<forall>x. m' x = (if x \<in> fst ` set (e # es) then None else m x)" using m'(2) by auto
  ultimately show ?case by blast
qed

definition clear_buckets :: "nat list \<Rightarrow> ('k, 'v) entry list list \<Rightarrow> ('k, 'v) entry list list" where
  "clear_buckets is bs = fold (\<lambda>i bs. bs[i := []]) is bs"

lemma cleanup_buckets_rep:
  "dict_rep d m bs \<Longrightarrow> fini_zero d \<Longrightarrow> \<forall>i \<in> set is. i < length bs \<Longrightarrow> distinct is \<Longrightarrow>
     \<exists>d' m'. cleanup_buckets is d m w = Some (d', m', fini_entries d (concat (map (\<lambda>i. bs ! i) is)) w) \<and>
       dict_rep d' m' (clear_buckets is bs) \<and> same_fns d d' \<and> table_ok d' = table_ok d \<and>
       (\<forall>x. m' x = (if x \<in> fst ` set (concat (map (\<lambda>i. bs ! i) is)) then None else m x))"
proof (induction "is" arbitrary: d m bs w)
  case Nil
  then show ?case by (simp add: clear_buckets_def fini_entries_def)
next
  case (Cons i "is")
  note rep = Cons.prems(1)
  have i: "i < length bs" using Cons.prems(3) by simp
  let ?b = "bs ! i"
  have b: "hlinked m None ?b None" "distinct (addrs ?b)" using dict_repD(4) [OF rep i] by (auto simp: bucket_ok_def)
  have "length ?b \<le> sum_list (map length bs)" using i by (auto intro: member_le_sum_list)
  then have len: "length ?b \<le> delnum d" using dict_repD(5) [OF rep] by (simp add: length_concat)
  obtain m1 where m1: "free_chain (first_of (addrs ?b) None) d m w =
         Some (d\<lparr>delnum := delnum d - length ?b\<rparr>, m1, fini_entries d ?b w)"
       "\<forall>x. m1 x = (if x \<in> fst ` set ?b then None else m x)"
    using free_chain_rep [OF b Cons.prems(2) len dict_repD(6) [OF rep]] by blast
  let ?d1 = "put_slot d i None (delnum d - length ?b)"
  have rep1: "dict_rep ?d1 m1 (bs[i := []])"
    using dict_rep_update [OF rep i, of m1 "[]" "delnum d - length ?b"] m1(2) len dict_repD(6) [OF rep] by simp
  have set1: "slot_set (d\<lparr>delnum := delnum d - length ?b\<rparr>) i None = Some ?d1"
    using dict_repD(8) [OF rep] i by (simp add: slot_set_def put_slot_def)
  have dz: "fini_zero ?d1" "fini_entries ?d1 = fini_entries d"
    using Cons.prems(2) fini_cong [of ?d1 d] by simp_all
  have ni: "i \<notin> set is" using Cons.prems(4) by simp
  then have mp: "map (\<lambda>j. bs[i := []] ! j) is = map (\<lambda>j. bs ! j) is"
    by (metis (no_types, lifting) map_eq_conv nth_list_update_neq)
  have is_len: "\<forall>j \<in> set is. j < length (bs[i := []])" using Cons.prems(3) by simp
  obtain d' m' where r: "cleanup_buckets is ?d1 m1 (fini_entries d ?b w) =
        Some (d', m', fini_entries d (concat (map (\<lambda>i. bs ! i) is)) (fini_entries d ?b w))"
      "dict_rep d' m' (clear_buckets is (bs[i := []]))" "same_fns ?d1 d'" "table_ok d' = table_ok ?d1"
      "\<forall>x. m' x = (if x \<in> fst ` set (concat (map (\<lambda>i. bs ! i) is)) then None else m1 x)"
    using Cons.IH [OF rep1 dz(1) is_len, of "fini_entries d ?b w"] Cons.prems(4) unfolding mp dz(2) by auto
  have "cleanup_buckets (i # is) d m w = Some (d', m', fini_entries d (concat (map (\<lambda>i. bs ! i) (i # is))) w)"
    using slot_get_rep [OF rep i] m1(1) set1 r(1) by (simp add: fini_entries_def)
  moreover have "clear_buckets is (bs[i := []]) = clear_buckets (i # is) bs" by (simp add: clear_buckets_def)
  moreover have "table_ok ?d1 = table_ok d" by (simp add: table_ok_def put_slot_def)
  moreover have "same_fns d d'" using r(3) by (simp add: same_fns_def)
  moreover have "m' x = (if x \<in> fst ` set (concat (map (\<lambda>i. bs ! i) (i # is))) then None else m x)" for x
    using r(5) m1(2) by (simp add: image_Un)
  ultimately show ?case using r(2,4) by auto
qed

lemma clear_all: "clear_buckets [0..<length bs] bs = replicate (length bs) []"
proof -
  have "k \<le> length bs \<Longrightarrow> clear_buckets [0..<k] bs = replicate k [] @ drop k bs" for k
  proof (induction k)
    case (Suc k)
    then have "clear_buckets [0..<Suc k] bs = (replicate k [] @ drop k bs)[k := []]" by (simp add: clear_buckets_def)
    also have "drop k bs = bs ! k # drop (Suc k) bs" using Suc.prems by (simp add: Cons_nth_drop_Suc)
    finally show ?case by (simp add: list_update_append replicate_append_same)
  qed (simp add: clear_buckets_def)
  from this [of "length bs"] show ?thesis by simp
qed

lemma hash_cleanup_rep:
  assumes rep: "dict_rep d m bs" and z: "fini_zero d"
  shows "\<exists>d' m'. hash_cleanup d m w = Some (d', m', fini_entries d (concat bs) w) \<and>
           dict_rep d' m' (replicate (length bs) []) \<and> same_fns d d' \<and> table_ok d' = table_ok d \<and>
           (\<forall>x. m' x = (if x \<in> fst ` set (concat bs) then None else m x))"
proof -
  have n: "elnum (dtable d) = length bs" using dict_repD(3) [OF rep] by simp
  have all: "concat (map (\<lambda>i. bs ! i) [0..<length bs]) = concat bs" by (simp only: map_nth)
  have "\<forall>i \<in> set [0..<length bs]. i < length bs" by simp
  from cleanup_buckets_rep [OF rep z this, of w] show ?thesis
    unfolding hash_cleanup_def hash_cleanup_body_def n all clear_all by simp
qed

end
