(* ===== verification/Hash_Dict.thy ===== *)
theory Hash_Dict
  imports Hash_Refine
begin

text \<open>
  What \<^verbatim>\<open>hash.c\<close> promises its clients: a dictionary. The contract is the locale \<open>dictionary\<close>;
  every client that keeps its promise about hash function and comparator (\<open>hash_key\<close>) gets it
  for the table of \<^verbatim>\<open>Mn_Hash\<close>.
\<close>

subsection \<open>The contract\<close>

locale dictionary =
  fixes rep :: "'s \<Rightarrow> ('k \<Rightarrow> 'v option) \<Rightarrow> bool"
    and same :: "'k \<Rightarrow> 'k \<Rightarrow> bool"
    and room :: "'s \<Rightarrow> bool"
    and get :: "'s \<Rightarrow> 'k \<Rightarrow> 'v option option"
    and put :: "'s \<Rightarrow> 'k \<Rightarrow> 'v \<Rightarrow> ('v option \<times> 's) option"
    and del :: "'s \<Rightarrow> 'k \<Rightarrow> ('v option \<times> 's) option"
  assumes get_rep: "rep s M \<Longrightarrow> get s k = Some (M k)"
    and put_rep: "rep s M \<Longrightarrow> room s \<Longrightarrow>
      \<exists>s'. put s k v = Some (M k, s') \<and> rep s' (\<lambda>k'. if same k' k then Some v else M k')"
    and del_rep: "rep s M \<Longrightarrow> \<exists>s'. del s k = Some (M k, s') \<and> rep s' (\<lambda>k'. if same k' k then None else M k')"
begin

lemma get_put:
  assumes "rep s M" "room s"
  shows "\<exists>old s'. put s k v = Some (old, s') \<and> get s k = Some old \<and>
           (\<forall>k'. get s' k' = (if same k' k then Some (Some v) else get s k'))"
  using put_rep [OF assms, of k v] get_rep [OF assms(1)] get_rep by fastforce

lemma get_del:
  assumes "rep s M"
  shows "\<exists>old s'. del s k = Some (old, s') \<and> get s k = Some old \<and>
           (\<forall>k'. get s' k' = (if same k' k then Some None else get s k'))"
  using del_rep [OF assms, of k] get_rep [OF assms] get_rep by fastforce

lemma put_del:
  assumes "rep s M" "room s"
  shows "\<exists>old s1 s2. put s k v = Some (old, s1) \<and> del s1 k = Some (if same k k then Some v else M k, s2) \<and>
           rep s2 (\<lambda>k'. if same k' k then None else M k')"
proof -
  obtain s1 where s1: "put s k v = Some (M k, s1)" "rep s1 (\<lambda>k'. if same k' k then Some v else M k')"
    using put_rep [OF assms] by blast
  obtain s2 where s2: "del s1 k = Some (if same k k then Some v else M k, s2)"
      "rep s2 (\<lambda>k'. if same k' k then None else if same k' k then Some v else M k')"
    using del_rep [OF s1(2), of k] by auto
  have "(\<lambda>k'. if same k' k then None else if same k' k then Some v else M k') =
        (\<lambda>k'. if same k' k then None else M k')" by auto
  with s1 s2 show ?thesis by metis
qed

end

subsection \<open>The hash table keeps it\<close>

type_synonym ('k, 'v, 'w) dstate = "('k, 'v, 'w) mnhash \<times> ('k, 'v) hstore \<times> 'w"

definition dict_state ::
  "('k \<Rightarrow> u64) \<Rightarrow> ('k \<Rightarrow> 'k \<Rightarrow> int) \<Rightarrow> ('k, 'v, 'w) dstate \<Rightarrow> ('k \<Rightarrow> 'v option) \<Rightarrow> bool" where
  "dict_state hashfn cmp s M \<longleftrightarrow> (case s of (d, m, w) \<Rightarrow>
     dhashfn d = hashfn \<and> dcmp d = cmp \<and> (\<exists>bs. dict_rep d m bs \<and> uniq_keys d bs \<and> dict_map d bs = M))"

definition dict_room :: "('k, 'v) hmalloc \<Rightarrow> ('k, 'v, 'w) dstate \<Rightarrow> bool" where
  "dict_room malloc s \<longleftrightarrow> (case s of (d, m, w) \<Rightarrow>
     delnum d + 1 < 2 ^ 64 \<and> (\<exists>a junk. malloc m = Some (a, junk) \<and> m a = None))"

definition dict_get :: "('k, 'v, 'w) dstate \<Rightarrow> 'k \<Rightarrow> 'v option option" where
  "dict_get s k =
     (case s of (d, m, w) \<Rightarrow>
        do { r \<leftarrow> hash_get_item d m k;
             case r of None \<Rightarrow> Some None | Some a \<Rightarrow> do { it \<leftarrow> m a; Some (Some (hvalue it)) } })"

definition dict_put :: "('k, 'v) hmalloc \<Rightarrow> ('k, 'v, 'w) dstate \<Rightarrow> 'k \<Rightarrow> 'v \<Rightarrow> ('v option \<times> ('k, 'v, 'w) dstate) option" where
  "dict_put malloc s k v =
     (case s of (d, m, w) \<Rightarrow>
        do { (d', m', w', oldkey, oldvalue) \<leftarrow> hash_set_item_uniq d m w k v malloc;
             Some (oldvalue, d', m', w') })"

definition dict_del :: "('k, 'v, 'w) dstate \<Rightarrow> 'k \<Rightarrow> ('v option \<times> ('k, 'v, 'w) dstate) option" where
  "dict_del s k =
     (case s of (d, m, w) \<Rightarrow> do { (d', m', v) \<leftarrow> hash_remove_item d m k; Some (v, d', m', w) })"

lemma dict_map_same:
  "dhashfn d' = dhashfn d \<Longrightarrow> dcmp d' = dcmp d \<Longrightarrow> elnum (dtable d') = elnum (dtable d) \<Longrightarrow>
     dict_map d' = dict_map d \<and> uniq_keys d' = uniq_keys d"
  by (intro conjI ext) (simp_all add: dict_map_def blookup_def uniq_keys_def hash_pos_def)

lemma dict_get_spec:
  assumes "dict_rep d m bs"
  shows "dict_get (d, m, w) k = Some (dict_map d bs k)"
  using hash_get_rep [OF assms, of k] blookup_item [OF assms, of k]
  by (cases "blookup d bs k") (auto simp: dict_get_def dict_map_def)

lemma dict_put_spec:
  assumes rep: "dict_rep d m bs" and u: "uniq_keys d bs" and key: "hash_key (dhashfn d) (dcmp d)"
    and mal: "malloc m = Some (a, junk)" "m a = None" and n: "delnum d + 1 < 2 ^ 64"
  shows "\<exists>d' m' w' bs'. dict_put malloc (d, m, w) k v = Some (dict_map d bs k, d', m', w') \<and>
           dict_rep d' m' bs' \<and> uniq_keys d' bs' \<and> dhashfn d' = dhashfn d \<and> dcmp d' = dcmp d \<and>
           dict_map d' bs' = (\<lambda>k'. if dcmp d k' k = 0 then Some v else dict_map d bs k')"
proof -
  note bset_map = hash_key.bset_map [OF key]
    and bset_uniq = hash_key.bset_uniq [OF key]
  obtain d' m' w' ok where s: "hash_set_item_uniq d m w k v malloc =
        Some (d', m', w', ok, map_option (snd \<circ> snd) (blookup d bs k))"
      "dict_rep d' m' (bset d bs a k v)" "dhashfn d' = dhashfn d" "dcmp d' = dcmp d" "elnum (dtable d') = elnum (dtable d)"
    using hash_set_uniq_rep [where malloc = malloc and m = m and a = a, OF rep mal n key, of w k v] by blast
  have "map_option (snd \<circ> snd) (blookup d bs k) = dict_map d bs k"
    by (simp add: dict_map_def comp_def)
  moreover have "dict_map d' (bset d bs a k v) = (\<lambda>k'. if dcmp d k' k = 0 then Some v else dict_map d bs k')"
    using dict_map_same [OF s(3,4,5)] bset_map [OF rep refl refl] by (simp add: fun_eq_iff)
  moreover have "uniq_keys d' (bset d bs a k v)"
    using dict_map_same [OF s(3,4,5)] bset_uniq [OF rep refl refl u] by simp
  ultimately show ?thesis using s by (simp add: dict_put_def) blast
qed

lemma dict_del_spec:
  assumes rep: "dict_rep d m bs" and u: "uniq_keys d bs" and key: "hash_key (dhashfn d) (dcmp d)"
  shows "\<exists>d' m' bs'. dict_del (d, m, w) k = Some (dict_map d bs k, d', m', w) \<and>
           dict_rep d' m' bs' \<and> uniq_keys d' bs' \<and> dhashfn d' = dhashfn d \<and> dcmp d' = dcmp d \<and>
           dict_map d' bs' = (\<lambda>k'. if dcmp d k' k = 0 then None else dict_map d bs k')"
proof -
  note bremove_map = hash_key.bremove_map [OF key]
  obtain d' m' where s: "hash_remove_item d m k = Some (d', m', map_option (snd \<circ> snd) (blookup d bs k))"
      "dict_rep d' m' (bremove d bs k)" "same_fns d d'"
    using hash_remove_rep [OF rep, of k] by blast
  have f: "dcmp d' = dcmp d" "dhashfn d' = dhashfn d" using s(3) by (simp_all add: same_fns_def)
  have "map_option (snd \<circ> snd) (blookup d bs k) = dict_map d bs k"
    by (simp add: dict_map_def comp_def)
  moreover have "dict_map d' (bremove d bs k) = (\<lambda>k'. if dcmp d k' k = 0 then None else dict_map d bs k')"
    and "uniq_keys d' (bremove d bs k)"
    using bremove_map [OF rep s(2) refl refl f u] by (auto simp: fun_eq_iff)
  ultimately show ?thesis using s f by (simp add: dict_del_def) blast
qed

context hash_key
begin

sublocale dictionary "dict_state hashfn cmp" "\<lambda>a b. cmp a b = 0" "dict_room malloc"
  dict_get "dict_put malloc" dict_del
  for malloc :: "('k, 'v) hmalloc"
proof
  fix s :: "('k, 'v, 'w) dstate" and M k v
  assume rep: "dict_state hashfn cmp s M"
  obtain d m w where s: "s = (d, m, w)" by (cases s)
  obtain bs where bs: "dict_rep d m bs" "uniq_keys d bs" "dict_map d bs = M"
    and f: "dhashfn d = hashfn" "dcmp d = cmp"
    using rep by (auto simp: dict_state_def s)
  have key: "hash_key (dhashfn d) (dcmp d)" unfolding f by (rule hash_key_axioms)
  show "dict_get s k = Some (M k)" using dict_get_spec [OF bs(1), of w k] bs(3) s by simp
  show "\<exists>s'. dict_del s k = Some (M k, s') \<and> dict_state hashfn cmp s' (\<lambda>k'. if cmp k' k = 0 then None else M k')"
  proof -
    obtain d' m' bs' where "dict_del (d, m, w) k = Some (dict_map d bs k, d', m', w)" "dict_rep d' m' bs'"
        "uniq_keys d' bs'" "dhashfn d' = dhashfn d" "dcmp d' = dcmp d"
        "dict_map d' bs' = (\<lambda>k'. if dcmp d k' k = 0 then None else dict_map d bs k')"
      using dict_del_spec [OF bs(1,2) key, of w k] by blast
    then show ?thesis using f bs(3) s by (auto simp: dict_state_def)
  qed
  assume "dict_room malloc s"
  then obtain a junk where room: "malloc m = Some (a, junk)" "m a = None" "delnum d + 1 < 2 ^ 64"
    by (auto simp: dict_room_def s)
  show "\<exists>s'. dict_put malloc s k v = Some (M k, s') \<and>
           dict_state hashfn cmp s' (\<lambda>k'. if cmp k' k = 0 then Some v else M k')"
  proof -
    obtain d' m' w' bs' where "dict_put malloc (d, m, w) k v = Some (dict_map d bs k, d', m', w')" "dict_rep d' m' bs'"
        "uniq_keys d' bs'" "dhashfn d' = dhashfn d" "dcmp d' = dcmp d"
        "dict_map d' bs' = (\<lambda>k'. if dcmp d k' k = 0 then Some v else dict_map d bs k')"
      using dict_put_spec [where malloc = malloc and m = m and a = a, OF bs(1,2) key room, of w k v] by blast
    then show ?thesis using f bs(3) s by (auto simp: dict_state_def)
  qed
qed

end

subsection \<open>The operations\<close>

text \<open>
  C26: \<^verbatim>\<open>hash_get_item\<close> returns the address of an item with an equal key and the value the
  dictionary has for it, and NULL exactly when there is none; it only looks at the bucket of the
  key and never faults.
\<close>

theorem hash_get_item_finds:
  assumes "dict_rep d m bs"
  shows "case dict_map d bs k of
           None \<Rightarrow> hash_get_item d m k = Some None
         | Some v \<Rightarrow> \<exists>a it. hash_get_item d m k = Some (Some a) \<and> m a = Some it \<and>
                      hvalue it = v \<and> dcmp d k (hkey it) = 0"
  using hash_get_rep [OF assms, of k] blookup_item [OF assms, of k]
  by (cases "blookup d bs k") (auto simp: dict_map_def)

text \<open>
  C27: \<^verbatim>\<open>hash_set_item_uniq\<close> implements the update of a map. It returns the value the key had (or
  NULL), afterwards the key and every key equal to it have the new value and all the others
  the value they had, the keys stay unique, and the number of elements grows by one exactly
  when the key is new.
\<close>

theorem hash_set_item_uniq_updates:
  assumes rep: "dict_rep d m bs" and u: "uniq_keys d bs" and key: "hash_key (dhashfn d) (dcmp d)"
    and mal: "malloc m = Some (a, junk)" "m a = None" and n: "delnum d + 1 < 2 ^ 64"
  shows "\<exists>d' m' w' oldkey bs'. hash_set_item_uniq d m w k v malloc = Some (d', m', w', oldkey, dict_map d bs k) \<and>
           dict_rep d' m' bs' \<and> uniq_keys d' bs' \<and>
           dict_map d' bs' = (\<lambda>k'. if dcmp d k' k = 0 then Some v else dict_map d bs k') \<and>
           delnum d' = delnum d + (if dict_map d bs k = None then 1 else 0)"
proof -
  note bset_map = hash_key.bset_map [OF key]
    and bset_uniq = hash_key.bset_uniq [OF key]
  let ?i = "hash_pos d k"
  obtain d' m' w' ok where s: "hash_set_item_uniq d m w k v malloc =
        Some (d', m', w', ok, map_option (snd \<circ> snd) (blookup d bs k))"
      "dict_rep d' m' (bset d bs a k v)" "dhashfn d' = dhashfn d" "dcmp d' = dcmp d" "elnum (dtable d') = elnum (dtable d)"
    using hash_set_uniq_rep [where malloc = malloc and m = m and a = a, OF rep mal n key, of w k v] by blast
  have "size (mset (concat (bset d bs a k v))) = size (mset (concat bs)) + (if dict_map d bs k = None then 1 else 0)"
  proof (cases "blookup d bs k")
    case None
    then show ?thesis using mset_concat_update [OF hash_pos_less [OF rep], of k "(a, k, v)"]
      by (simp add: bset_def Let_def dict_map_def del: mset_concat)
  next
    case (Some e)
    have "length (replace_entry (bs ! ?i) (fst e) k v) = length (bs ! ?i)" by (simp add: replace_entry_def)
    then have "length (concat (bs[?i := replace_entry (bs ! ?i) (fst e) k v])) = length (concat bs)"
      using arg_cong [OF mset_concat_put [OF hash_pos_less [OF rep], of k "replace_entry (bs ! ?i) (fst e) k v"], of size]
      by simp
    with Some show ?thesis by (simp add: bset_def Let_def dict_map_def)
  qed
  then have "delnum d' = delnum d + (if dict_map d bs k = None then 1 else 0)"
    using dict_repD(5) [OF rep] dict_repD(5) [OF s(2)] by simp
  moreover have "map_option (snd \<circ> snd) (blookup d bs k) = dict_map d bs k" by (simp add: dict_map_def comp_def)
  moreover have "dict_map d' (bset d bs a k v) = (\<lambda>k'. if dcmp d k' k = 0 then Some v else dict_map d bs k')"
    using dict_map_same [OF s(3,4,5)] bset_map [OF rep refl refl] by (simp add: fun_eq_iff)
  moreover have "uniq_keys d' (bset d bs a k v)"
    using dict_map_same [OF s(3,4,5)] bset_uniq [OF rep refl refl u] by simp
  ultimately show ?thesis using s(1,2) by (intro exI conjI) (simp_all del: mset_concat)
qed

text \<open>
  \<^verbatim>\<open>hash_set_item\<close> puts a new item before the others of its bucket: lookups of the key give
  the new value, an older item with an equal key is shadowed and still counted, and both the
  chain and the head's own pointers are right afterwards, so any item can be deleted.
\<close>

theorem hash_set_item_pushes:
  assumes rep: "dict_rep d m bs" and heads: "heads_ok m bs" and key: "hash_key (dhashfn d) (dcmp d)"
    and mal: "malloc m = Some (a, junk)" "m a = None" and n: "delnum d + 1 < 2 ^ 64"
  shows "\<exists>d' m' bs'. hash_set_item d m k v malloc = Some (d', m') \<and> dict_rep d' m' bs' \<and> heads_ok m' bs' \<and>
           mset (concat bs') = add_mset (a, k, v) (mset (concat bs)) \<and> delnum d' = delnum d + 1 \<and>
           dict_map d' bs' = (\<lambda>k'. if dcmp d k' k = 0 then Some v else dict_map d bs k')"
proof -
  note dict_map_insert = hash_key.dict_map_insert [OF key]
  let ?i = "hash_pos d k"
  let ?bs = "bs[?i := (a, k, v) # bs ! ?i]"
  obtain d' m' where s: "hash_set_item d m k v malloc = Some (d', m')" "dict_rep d' m' ?bs"
      "d' = put_slot d ?i (Some a) (delnum d + 1)"
      "\<exists>it. m' a = Some it \<and> hprev it = None \<and> hbucket it = Some ?i"
      "\<forall>x. x \<noteq> a \<longrightarrow> x \<notin> fst ` set (bs ! ?i) \<longrightarrow> m' x = m x"
    using hash_set_item_rep [where malloc = malloc and m = m and a = a, OF rep mal n, of k v] by blast
  have "heads_ok m' ?bs" by (rule hash_set_item_heads [OF rep heads mal(2) s(4,5)])
  moreover have "dict_map d' ?bs = (\<lambda>k'. if dcmp d k' k = 0 then Some v else dict_map d bs k')"
    using dict_map_same [of d' d] dict_map_insert [OF refl refl hash_pos_less [OF rep], of k a v] s(3)
    by (simp add: fun_eq_iff)
  ultimately show ?thesis
    using s(1,2,3) mset_concat_update [OF hash_pos_less [OF rep], of k "(a, k, v)"] by fastforce
qed

text \<open>
  C28: \<^verbatim>\<open>hash_remove_item\<close> returns the value of the key and takes the key out of the dictionary,
  wherever in its chain the item is; when the key is not there it returns NULL and the map is
  unchanged. The other keys keep their values.
\<close>

theorem hash_remove_item_removes:
  assumes rep: "dict_rep d m bs" and u: "uniq_keys d bs" and key: "hash_key (dhashfn d) (dcmp d)"
  shows "\<exists>d' m' bs'. hash_remove_item d m k = Some (d', m', dict_map d bs k) \<and> dict_rep d' m' bs' \<and>
           uniq_keys d' bs' \<and> dict_map d' bs' = (\<lambda>k'. if dcmp d k' k = 0 then None else dict_map d bs k')"
proof -
  note bremove_map = hash_key.bremove_map [OF key]
  obtain d' m' where s: "hash_remove_item d m k = Some (d', m', map_option (snd \<circ> snd) (blookup d bs k))"
      "dict_rep d' m' (bremove d bs k)" "same_fns d d'"
    using hash_remove_rep [OF rep, of k] by blast
  have f: "dcmp d' = dcmp d" "dhashfn d' = dhashfn d" using s(3) by (simp_all add: same_fns_def)
  have "map_option (snd \<circ> snd) (blookup d bs k) = dict_map d bs k" by (simp add: dict_map_def comp_def)
  moreover have "dict_map d' (bremove d bs k) = (\<lambda>k'. if dcmp d k' k = 0 then None else dict_map d bs k')"
    and "uniq_keys d' (bremove d bs k)"
    using bremove_map [OF rep s(2) refl refl f u] by (auto simp: fun_eq_iff)
  ultimately show ?thesis using s by metis
qed

text \<open>
  C29: \<^verbatim>\<open>hash_delete_pair_no_fini\<close> unlinks the item it is given, at the head of its chain or behind
  it, frees it (its address leaves the store, and no other address does), and keeps the chains and the heads' own pointers right, provided that every
  head knows its bucket (which \<^verbatim>\<open>hash_set_item\<close>, \<^verbatim>\<open>hash_rehash\<close> and this operation guarantee).
\<close>

theorem hash_delete_pair_unlinks:
  assumes "dict_rep d m bs" and "heads_ok m bs" and "(a, k, v) \<in> set (concat bs)"
  shows "\<exists>d' m' bs'. hash_delete_pair_no_fini d m a = Some (d', m') \<and> dict_rep d' m' bs' \<and> heads_ok m' bs' \<and>
           mset (concat bs) = add_mset (a, k, v) (mset (concat bs')) \<and> delnum d' + 1 = delnum d \<and>
           a \<in> dom m \<and> dom m' = dom m - {a}"
proof -
  obtain i where i: "i < length bs" "(a, k, v) \<in> set (bs ! i)" using assms(3) in_concat_nth [of "(a, k, v)" bs] by blast
  obtain d' m' where s: "hash_delete_pair_no_fini d m a = Some (d', m')" "dict_rep d' m' (bdrop bs i a)"
      "heads_ok m' (bdrop bs i a)" "a \<in> dom m"
    using hash_delete_pair_rep [OF assms(1,2) i] by blast
  obtain ys zs where "bs ! i = ys @ (a, k, v) # zs" using split_list [OF i(2)] by blast
  from drop_entry_concat [OF i(1) assms(1) this]
  have ms: "mset (concat bs) = add_mset (a, k, v) (mset (concat (bdrop bs i a)))" by simp
  have "delnum d' + 1 = delnum d"
    using arg_cong [OF ms, of size] dict_repD(5) [OF assms(1)] dict_repD(5) [OF s(2)] by simp
  with s ms hash_delete_pair_dom [OF s(1)] show ?thesis by blast
qed

text \<open>
  C30: For a table of fewer than \<^verbatim>\<open>2^32\<close> items (with more, the \<^verbatim>\<open>unsigned\<close> counter of the code
  never reaches the count) and unique keys, \<^verbatim>\<open>hash_rehash\<close> to any positive number of buckets below
  \<^verbatim>\<open>2^32\<close> keeps every item (address, key and value)
  exactly once, in the bucket its key now belongs to, so that every lookup
  gives what it gave before; the heads' own pointers are right afterwards even when they were
  not before.
\<close>

theorem hash_rehash_preserves:
  assumes rep: "dict_rep d m bs" and tab: "table_ok d" and u: "uniq_keys d bs" and key: "hash_key (dhashfn d) (dcmp d)"
    and few: "delnum d < 2 ^ 32" and sz: "size_ok 8 sz" "0 < sz" and al: "total_allocator tmp_malloc" "total_allocator malloc"
  shows "\<exists>d' m' bs'. hash_rehash d m w sz tmp_malloc malloc = Some (d', m', w) \<and> dict_rep d' m' bs' \<and>
           heads_ok m' bs' \<and> elnum (dtable d') = sz \<and> mset (concat bs') = mset (concat bs) \<and>
           dict_map d' bs' = dict_map d bs"
proof -
  note dict_map_mset = hash_key.dict_map_mset [OF key]
  obtain d' m' bs' where s: "hash_rehash d m w sz tmp_malloc malloc = Some (d', m', w)" "dict_rep d' m' bs'"
      "heads_ok m' bs'" "elnum (dtable d') = sz" "mset (concat bs') = mset (concat bs)"
      "dhashfn d' = dhashfn d" "dcmp d' = dcmp d"
    using hash_rehash_rep [OF rep tab sz few al, of w] by blast
  with dict_map_mset [OF rep s(2) refl refl s(7,6) u s(5)] show ?thesis by blast
qed

text \<open>
  C31: Iterating with \<^verbatim>\<open>hash_first\<close> and \<^verbatim>\<open>hash_next\<close> yields every item exactly once and then NULL,
  after as many steps as there are elements.
\<close>

theorem hash_iteration_complete:
  assumes "dict_rep d m bs"
  shows "\<exists>r as. hash_first d it = Some r \<and> hash_walk (Suc (delnum d)) d m r = Some as \<and>
           distinct as \<and> set as = fst ` set (concat bs) \<and> length as = delnum d"
proof -
  obtain r where "hash_first d it = Some r" "hash_walk (Suc (delnum d)) d m r = Some (addrs (concat bs))"
    using hash_walk_all [OF assms, of it] by blast
  with dict_rep_distinct [OF assms] dict_repD(5) [OF assms] show ?thesis by (metis length_map set_map)
qed

text \<open>
  C32: \<^verbatim>\<open>hash_cleanup\<close> with a finalizer that succeeds (or none) runs it once on every pair, in
  iteration order, frees every item and nothing else, and leaves an empty dictionary that can be
  used again.
\<close>

theorem hash_cleanup_frees_all:
  assumes rep: "dict_rep d m bs" and z: "fini_zero d"
  shows "\<exists>d' m'. hash_cleanup d m w =
             Some (d', m', fold (\<lambda>e. fini_pair d (fst (snd e)) (snd (snd e))) (concat bs) w) \<and>
           dict_rep d' m' (replicate (length bs) []) \<and> hash_is_empty d' \<and>
           (\<forall>x. m' x = (if x \<in> fst ` set (concat bs) then None else m x))"
proof -
  obtain d' m' where s: "hash_cleanup d m w = Some (d', m', fini_entries d (concat bs) w)"
      "dict_rep d' m' (replicate (length bs) [])" "\<forall>x. m' x = (if x \<in> fst ` set (concat bs) then None else m x)"
    using hash_cleanup_rep [OF rep z, of w] by blast
  have "concat (replicate n []) = []" for n by (induction n) simp_all
  then have "hash_is_empty d'" using dict_repD(5) [OF s(2)] by (metis hash_is_empty_def list.size(3))
  with s show ?thesis by (auto simp: fini_entries_def)
qed

subsection \<open>A concrete dictionary\<close>

definition demo_hash :: "(nat, nat, nat list) mnhash" where
  "demo_hash = \<lparr>dhashfn = word_of_nat, dcmp = mncmp, dfini = Some (\<lambda>k v w. (0, w @ [k])),
     dtable = \<lparr>elsz = 8, elnum = 2, data = Some [Some 10, Some 12], datasz = 16, init = Some null_init, fini = None\<rparr>,
     delnum = 3\<rparr>"

definition demo_store :: "(nat, nat) hstore" where
  "demo_store = [10 \<mapsto> \<lparr>hbucket = Some 0, hprev = None, hnext = Some 11, hkey = 4, hvalue = 40\<rparr>,
     11 \<mapsto> \<lparr>hbucket = None, hprev = Some 10, hnext = None, hkey = 2, hvalue = 20\<rparr>,
     12 \<mapsto> \<lparr>hbucket = Some 1, hprev = None, hnext = None, hkey = 7, hvalue = 70\<rparr>]"

definition demo_entries :: "(nat, nat) entry list list" where
  "demo_entries = [[(10, 4, 40), (11, 2, 20)], [(12, 7, 70)]]"

definition demo_malloc :: "(nat, nat) hmalloc" where
  "demo_malloc m = Some (99, \<lparr>hbucket = None, hprev = None, hnext = None, hkey = 0, hvalue = 0\<rparr>)"

lemma demo_key: "hash_key (word_of_nat :: nat \<Rightarrow> u64) mncmp"
  by unfold_locales (auto simp: mncmp_def of_bool_def split: if_splits)

interpretation demo_key: hash_key "word_of_nat :: nat \<Rightarrow> u64" mncmp
  by (rule demo_key)

lemma demo_hash_key: "hash_key (dhashfn demo_hash) (dcmp demo_hash)"
  using demo_key by (simp add: demo_hash_def)

lemma demo_pos: "hash_pos demo_hash k = unat (word_of_nat k :: u64) mod 2"
  by (simp add: hash_pos_def demo_hash_def)

lemma demo_bucket0: "bucket_ok demo_hash demo_store 0 [(10, 4, 40), (11, 2, 20)]"
  unfolding bucket_ok_def demo_pos by (simp add: demo_hash_def demo_store_def)

lemma demo_bucket1: "bucket_ok demo_hash demo_store 1 [(12, 7, 70)]"
  unfolding bucket_ok_def demo_pos by (simp add: demo_hash_def demo_store_def)

lemma demo_rep: "dict_rep demo_hash demo_store demo_entries"
proof -
  have "array_wf (dtable demo_hash)" "elnum (dtable demo_hash) = 2" "delnum demo_hash = 3"
    by (simp_all add: demo_hash_def array_wf_def)
  then show ?thesis
    using demo_bucket0 demo_bucket1
    by (simp add: dict_rep_def demo_entries_def All_less_Suc)
qed

lemma demo_heads: "heads_ok demo_store demo_entries"
  by (simp add: heads_ok_def demo_store_def demo_entries_def All_less_Suc numeral_2_eq_2)

lemma demo_uniq: "uniq_keys demo_hash demo_entries"
  by (simp add: uniq_keys_def uniq_on_def demo_hash_def demo_entries_def mncmp_def)

lemma demo_room: "demo_malloc demo_store = Some (99, \<lparr>hbucket = None, hprev = None, hnext = None, hkey = 0, hvalue = 0\<rparr>)"
  "demo_store 99 = None" "delnum demo_hash + 1 < 2 ^ 64"
  by (simp_all add: demo_malloc_def demo_store_def demo_hash_def)

lemma demo_table: "table_ok demo_hash" "size_ok 8 5" "(0::nat) < 5"
  by (simp_all add: table_ok_def demo_hash_def size_ok_def)

lemma demo_few: "delnum demo_hash < 2 ^ 32"
  by (simp add: demo_hash_def)

theorem hash_get_item_finds_witness:
  "case dict_map demo_hash demo_entries 2 of
     None \<Rightarrow> hash_get_item demo_hash demo_store 2 = Some None
   | Some v \<Rightarrow> \<exists>a it. hash_get_item demo_hash demo_store 2 = Some (Some a) \<and> demo_store a = Some it \<and>
                hvalue it = v \<and> dcmp demo_hash 2 (hkey it) = 0"
  by (rule hash_get_item_finds [OF demo_rep])

theorem hash_set_item_uniq_updates_witness:
  "\<exists>d' m' w' oldkey bs'. hash_set_item_uniq demo_hash demo_store [] 2 21 demo_malloc =
       Some (d', m', w', oldkey, dict_map demo_hash demo_entries 2) \<and>
     dict_rep d' m' bs' \<and> uniq_keys d' bs' \<and>
     dict_map d' bs' = (\<lambda>k'. if dcmp demo_hash k' 2 = 0 then Some 21 else dict_map demo_hash demo_entries k') \<and>
     delnum d' = delnum demo_hash + (if dict_map demo_hash demo_entries 2 = None then 1 else 0)"
  by (rule hash_set_item_uniq_updates [where malloc = demo_malloc, OF demo_rep demo_uniq demo_hash_key demo_room])

theorem hash_set_item_pushes_witness:
  "\<exists>d' m' bs'. hash_set_item demo_hash demo_store 2 21 demo_malloc = Some (d', m') \<and> dict_rep d' m' bs' \<and> heads_ok m' bs' \<and>
     mset (concat bs') = add_mset (99, 2, 21) (mset (concat demo_entries)) \<and> delnum d' = delnum demo_hash + 1 \<and>
     dict_map d' bs' = (\<lambda>k'. if dcmp demo_hash k' 2 = 0 then Some 21 else dict_map demo_hash demo_entries k')"
  by (rule hash_set_item_pushes [where malloc = demo_malloc, OF demo_rep demo_heads demo_hash_key demo_room])

theorem hash_remove_item_removes_witness:
  "\<exists>d' m' bs'. hash_remove_item demo_hash demo_store 2 = Some (d', m', dict_map demo_hash demo_entries 2) \<and>
     dict_rep d' m' bs' \<and> uniq_keys d' bs' \<and>
     dict_map d' bs' = (\<lambda>k'. if dcmp demo_hash k' 2 = 0 then None else dict_map demo_hash demo_entries k')"
  by (rule hash_remove_item_removes [OF demo_rep demo_uniq demo_hash_key])

theorem hash_delete_pair_unlinks_witness:
  "\<exists>d' m' bs'. hash_delete_pair_no_fini demo_hash demo_store 10 = Some (d', m') \<and> dict_rep d' m' bs' \<and> heads_ok m' bs' \<and>
     mset (concat demo_entries) = add_mset (10, 4, 40) (mset (concat bs')) \<and> delnum d' + 1 = delnum demo_hash \<and>
     10 \<in> dom demo_store \<and> dom m' = dom demo_store - {10}"
  by (rule hash_delete_pair_unlinks [OF demo_rep demo_heads]) (simp add: demo_entries_def)

theorem hash_rehash_preserves_witness:
  "\<exists>d' m' bs'. hash_rehash demo_hash demo_store [] 5 (std_alloc (\<lambda>_. None)) (std_alloc (\<lambda>_. None)) = Some (d', m', []) \<and>
     dict_rep d' m' bs' \<and> heads_ok m' bs' \<and> elnum (dtable d') = 5 \<and>
     mset (concat bs') = mset (concat demo_entries) \<and> dict_map d' bs' = dict_map demo_hash demo_entries"
  by (rule hash_rehash_preserves [OF demo_rep demo_table(1) demo_uniq demo_hash_key demo_few demo_table(2,3)
        std_total_allocator std_total_allocator])

theorem hash_iteration_complete_witness:
  "\<exists>r as. hash_first demo_hash \<lparr>hit_it = \<lparr>iter = 0\<rparr>, hit_phit = None, hit_hit = None\<rparr> = Some r \<and>
     hash_walk (Suc (delnum demo_hash)) demo_hash demo_store r = Some as \<and>
     distinct as \<and> set as = fst ` set (concat demo_entries) \<and> length as = delnum demo_hash"
  by (rule hash_iteration_complete [OF demo_rep])

theorem hash_cleanup_frees_all_witness:
  "\<exists>d' m'. hash_cleanup demo_hash demo_store [] =
       Some (d', m', fold (\<lambda>e. fini_pair demo_hash (fst (snd e)) (snd (snd e))) (concat demo_entries) []) \<and>
     dict_rep d' m' (replicate (length demo_entries) []) \<and> hash_is_empty d' \<and>
     (\<forall>x. m' x = (if x \<in> fst ` set (concat demo_entries) then None else demo_store x))"
  by (rule hash_cleanup_frees_all [OF demo_rep]) (simp add: fini_zero_def demo_hash_def)

subsection \<open>Where the table breaks\<close>

text \<open>
  \<^verbatim>\<open>hash_set_item_uniq\<close> does not write \<^verbatim>\<open>bucket\<close> and \<^verbatim>\<open>prev\<close> of an item it puts into a bucket
  that is not empty. Deleting that item with \<^verbatim>\<open>hash_delete_pair\<close> then uses what \<^verbatim>\<open>malloc\<close> left in
  the block: with zeroes the assertion on \<^verbatim>\<open>bucket\<close> fails.
\<close>

lemma hash_uniq_then_delete_faults:
  "\<exists>d' m'. hash_set_item_uniq demo_hash demo_store [] 6 60 demo_malloc = Some (d', m', [], None, None) \<and>
     hash_get_item d' m' 6 = Some (Some 99) \<and> hash_delete_pair d' m' [] 99 = None"
  by (simp add: hash_set_item_uniq_def hash_set_item_uniq_body_def bucket_of_def array_get_def slot_get_def
      slot_set_def demo_hash_def demo_store_def demo_malloc_def find_chain.simps displace_head_def upd_item_def
      mncmp_def hash_get_item_def hash_delete_pair_def hash_delete_pair_body_def
      hash_delete_pair_no_fini_body_def unsigned_of_nat take_bit_eq_mod Let_def SZ_def)

text \<open>
  \<^verbatim>\<open>hash_remove_item\<close> of the first item of a chain leaves its successor without a bucket pointer,
  so deleting the successor by its address fails the same assertion.
\<close>

lemma hash_remove_then_delete_faults:
  "\<exists>d' m'. hash_remove_item demo_hash demo_store 4 = Some (d', m', Some 40) \<and>
     hash_get_item d' m' 2 = Some (Some 11) \<and> hash_delete_pair d' m' [] 11 = None"
  by (simp add: hash_remove_item_def hash_remove_item_body_def bucket_of_def array_get_def slot_get_def
      slot_set_def demo_hash_def demo_store_def find_chain.simps upd_item_def free_item_def
      mncmp_def hash_get_item_def hash_delete_pair_def hash_delete_pair_body_def
      hash_delete_pair_no_fini_body_def unsigned_of_nat take_bit_eq_mod Let_def SZ_def)

text \<open>
  \<^verbatim>\<open>hash_cleanup\<close> with a finalizer that refuses a pair still drops the whole chain from the table:
  the refused item and those behind it stay allocated and counted, and nothing points to them.
\<close>

lemma hash_cleanup_leaks:
  "\<exists>d' m'. hash_cleanup (demo_hash\<lparr>dfini := Some (\<lambda>k v w. (if k = 4 then 1 else 0, w @ [k]))\<rparr>) demo_store [] =
       Some (d', m', [4, 7]) \<and>
     delnum d' = 2 \<and> slots (dtable d') = [None, None] \<and> m' 10 \<noteq> None \<and> m' 11 \<noteq> None"
  by (simp add: hash_cleanup_def hash_cleanup_body_def demo_hash_def demo_store_def slot_get_def slot_set_def
      free_chain.simps free_item_def upt_rec SZ_def Let_def)

end
