(* ===== verification/Mn_Hash_Set.thy ===== *)
theory Mn_Hash_Set
  imports Hash_Dict
begin

text \<open>
  The last part of \<^verbatim>\<open>src/src/hash.c\<close>: sets as dictionaries (union, difference, symmetric
  difference, intersection) and the table of sizes. The operations traverse one dictionary with a
  callback that looks up and inserts in others; all of them share one store of items. A set's
  values may be NULL, so a value is an option.
\<close>

definition hash_set_add ::
  "('k, 'v option, 'w) mnhash \<Rightarrow> ('k, 'v option) hstore \<Rightarrow> 'k \<Rightarrow> ('k, 'v option) hmalloc
     \<Rightarrow> (('k, 'v option, 'w) mnhash \<times> ('k, 'v option) hstore) option" where
  "hash_set_add hash m key malloc =
     do { g \<leftarrow> hash_get_item hash m key;
          if g = None then hash_set_item hash m key None malloc else Some (hash, m) }"

definition hash_set_remove ::
  "('k, 'v, 'w) mnhash \<Rightarrow> ('k, 'v) hstore \<Rightarrow> 'k \<Rightarrow> (('k, 'v, 'w) mnhash \<times> ('k, 'v) hstore) option" where
  "hash_set_remove hash m key =
     do { (hash', m', v) \<leftarrow> hash_remove_item hash m key; Some (hash', m') }"

text \<open>\<^verbatim>\<open>hash_set_item(res, hit->key, hit->value)\<close> in a callback.\<close>

definition copy_item ::
  "('k, 'v) hmalloc \<Rightarrow> ('k, 'v) hitem \<Rightarrow> ('k, 'v, 'w) mnhash \<Rightarrow> ('k, 'v) hstore
     \<Rightarrow> (('k, 'v, 'w) mnhash \<times> ('k, 'v) hstore) option" where
  "copy_item malloc it res m = hash_set_item res m (hkey it) (hvalue it) malloc"

definition hash_set_union2_cb ::
  "('k, 'v) hmalloc \<Rightarrow> ('k, 'v, 'w, ('k, 'v, 'w) mnhash) tcb" where
  "hash_set_union2_cb malloc hit st =
     (case st of (b, m, a) \<Rightarrow>
        do { it \<leftarrow> m hit;
             g \<leftarrow> hash_get_item a m (hkey it);
             (a', m') \<leftarrow> (if g = None then copy_item malloc it a m else Some (a, m));
             Some (0, b, m', a') })"

definition hash_set_union2 ::
  "('k, 'v) hmalloc \<Rightarrow> ('k, 'v, 'w) mnhash \<Rightarrow> ('k, 'v, 'w) mnhash \<Rightarrow> ('k, 'v) hstore
     \<Rightarrow> (('k, 'v, 'w) mnhash \<times> ('k, 'v) hstore) option" where
  "hash_set_union2 malloc a b m =
     do { (_, _, m', a') \<leftarrow> hash_traverse_item b m (hash_set_union2_cb malloc) a; Some (a', m') }"

definition hash_set_union3_cb ::
  "('k, 'v) hmalloc \<Rightarrow> ('k, 'v, 'w, ('k, 'v, 'w) mnhash) tcb" where
  "hash_set_union3_cb malloc hit st =
     (case st of (a, m, res) \<Rightarrow>
        do { it \<leftarrow> m hit;
             g \<leftarrow> hash_get_item res m (hkey it);
             (res', m') \<leftarrow> (if g = None then copy_item malloc it res m else Some (res, m));
             Some (0, a, m', res') })"

definition hash_set_union3 ::
  "('k, 'v) hmalloc \<Rightarrow> ('k, 'v, 'w) mnhash \<Rightarrow> ('k, 'v, 'w) mnhash \<Rightarrow> ('k, 'v, 'w) mnhash \<Rightarrow> ('k, 'v) hstore
     \<Rightarrow> (('k, 'v, 'w) mnhash \<times> ('k, 'v) hstore) option" where
  "hash_set_union3 malloc res a b m =
     do { (_, _, m1, res1) \<leftarrow> hash_traverse_item a m (hash_set_union3_cb malloc) res;
          (_, _, m2, res2) \<leftarrow> hash_traverse_item b m1 (hash_set_union3_cb malloc) res1;
          Some (res2, m2) }"

definition hash_set_diff3_cb ::
  "('k, 'v) hmalloc \<Rightarrow> ('k, 'v, 'w) mnhash \<Rightarrow> ('k, 'v, 'w, ('k, 'v, 'w) mnhash) tcb" where
  "hash_set_diff3_cb malloc b hit st =
     (case st of (a, m, res) \<Rightarrow>
        do { it \<leftarrow> m hit;
             g \<leftarrow> hash_get_item b m (hkey it);
             (res', m') \<leftarrow> (if g = None then copy_item malloc it res m else Some (res, m));
             Some (0, a, m', res') })"

definition hash_set_diff3 ::
  "('k, 'v) hmalloc \<Rightarrow> ('k, 'v, 'w) mnhash \<Rightarrow> ('k, 'v, 'w) mnhash \<Rightarrow> ('k, 'v, 'w) mnhash \<Rightarrow> ('k, 'v) hstore
     \<Rightarrow> (('k, 'v, 'w) mnhash \<times> ('k, 'v) hstore) option" where
  "hash_set_diff3 malloc res a b m =
     do { (_, _, m', res') \<leftarrow> hash_traverse_item a m (hash_set_diff3_cb malloc b) res; Some (res', m') }"

text \<open>The second traversal of the symmetric difference uses \<^verbatim>\<open>hash_set_item_uniq\<close> and so may run the result's finalizer.\<close>

definition hash_set_sdiff3_cb ::
  "('k, 'v) hmalloc \<Rightarrow> ('k, 'v, 'w) mnhash \<Rightarrow> ('k, 'v, 'w, ('k, 'v, 'w) mnhash \<times> 'w) tcb" where
  "hash_set_sdiff3_cb malloc a hit st =
     (case st of (b, m, res, w) \<Rightarrow>
        do { it \<leftarrow> m hit;
             g \<leftarrow> hash_get_item a m (hkey it);
             (res', m', w') \<leftarrow>
               (if g = None then
                  do { (res', m', w', oldkey, oldvalue) \<leftarrow> hash_set_item_uniq res m w (hkey it) (hvalue it) malloc;
                       Some (res', m', w') }
                else Some (res, m, w));
             Some (0, b, m', res', w') })"

definition hash_set_sdiff3 ::
  "('k, 'v) hmalloc \<Rightarrow> ('k, 'v, 'w) mnhash \<Rightarrow> ('k, 'v, 'w) mnhash \<Rightarrow> ('k, 'v, 'w) mnhash \<Rightarrow> ('k, 'v) hstore \<Rightarrow> 'w
     \<Rightarrow> (('k, 'v, 'w) mnhash \<times> ('k, 'v) hstore \<times> 'w) option" where
  "hash_set_sdiff3 malloc res a b m w =
     do { (_, _, m1, res1) \<leftarrow> hash_traverse_item a m (hash_set_diff3_cb malloc b) res;
          (_, _, m2, res2, w2) \<leftarrow> hash_traverse_item b m1 (hash_set_sdiff3_cb malloc a) (res1, w);
          Some (res2, m2, w2) }"

definition hash_set_intersect3_cb ::
  "('k, 'v) hmalloc \<Rightarrow> ('k, 'v, 'w) mnhash \<Rightarrow> ('k, 'v, 'w, ('k, 'v, 'w) mnhash) tcb" where
  "hash_set_intersect3_cb malloc b hit st =
     (case st of (a, m, res) \<Rightarrow>
        do { it \<leftarrow> m hit;
             g \<leftarrow> hash_get_item b m (hkey it);
             (res', m') \<leftarrow> (if g \<noteq> None then copy_item malloc it res m else Some (res, m));
             Some (0, a, m', res') })"

definition hash_set_intersect3 ::
  "('k, 'v) hmalloc \<Rightarrow> ('k, 'v, 'w) mnhash \<Rightarrow> ('k, 'v, 'w) mnhash \<Rightarrow> ('k, 'v, 'w) mnhash \<Rightarrow> ('k, 'v) hstore
     \<Rightarrow> (('k, 'v, 'w) mnhash \<times> ('k, 'v) hstore) option" where
  "hash_set_intersect3 malloc res a b m =
     do { (_, _, m', res') \<leftarrow> hash_traverse_item a m (hash_set_intersect3_cb malloc b) res; Some (res', m') }"

definition hash_primes :: "nat list" where
  "hash_primes = [7, 11, 17, 31, 61, 127, 251, 257, 509, 521, 1021, 1031, 2039, 2053, 4093, 4099, 8191, 8209,
     16381, 16411, 32749, 32771, 65213, 65537, 68111, 72073, 76147, 84631, 89041, 93563, 193939, 1046527, 27644437]"

definition hash_next_prime :: "nat \<Rightarrow> nat" where
  "hash_next_prime n = (case find (\<lambda>p. n \<le> p) hash_primes of Some p \<Rightarrow> p | None \<Rightarrow> n)"

subsection \<open>Membership\<close>

text \<open>What the set operations need of \<^verbatim>\<open>malloc\<close>: while finitely many items are allocated it finds room.\<close>

locale item_heap =
  fixes malloc :: "('k, 'v) hmalloc"
  assumes malloc_fresh: "finite (dom m) \<Longrightarrow> \<exists>a junk. malloc m = Some (a, junk) \<and> m a = None"

text \<open>The first free address; the content of the block is arbitrary.\<close>

partial_function (option) first_free :: "'i mem \<Rightarrow> addr \<Rightarrow> addr option" where
  "first_free m a = (case m a of None \<Rightarrow> Some a | Some _ \<Rightarrow> first_free m (Suc a))"

definition fit_malloc :: "('k, 'v) hitem \<Rightarrow> ('k, 'v) hmalloc" where
  "fit_malloc junk m = map_option (\<lambda>a. (a, junk)) (first_free m 1)"

lemma first_free_finds:
  assumes "m b = None" "a \<le> b"
  shows "\<exists>c. first_free m a = Some c \<and> m c = None"
  using assms(2)
proof (induction "b - a" arbitrary: a)
  case 0
  then show ?case using assms(1) by (subst first_free.simps) auto
next
  case (Suc k)
  then have "\<exists>c. first_free m (Suc a) = Some c \<and> m c = None" by (intro Suc.hyps(1)) auto
  then show ?case by (subst first_free.simps) (auto split: option.splits)
qed

interpretation fit: item_heap "fit_malloc junk"
proof
  fix m :: "('a, 'b) hstore" assume "finite (dom m)"
  then obtain b where "b \<notin> insert 0 (dom m)" using ex_new_if_finite [of "insert 0 (dom m)"] by auto
  then have "m b = None" "1 \<le> b" by (auto simp: dom_def)
  then show "\<exists>a j. fit_malloc junk m = Some (a, j) \<and> m a = None"
    using first_free_finds [of m b 1] by (auto simp: fit_malloc_def dom_def)
qed

definition has_key :: "('k \<Rightarrow> 'k \<Rightarrow> int) \<Rightarrow> ('k, 'v) entry list \<Rightarrow> 'k \<Rightarrow> bool" where
  "has_key cmp es k \<longleftrightarrow> (\<exists>e \<in> set es. cmp k (fst (snd e)) = 0)"

lemma has_key_simps [simp]:
  "has_key cmp [] k \<longleftrightarrow> False" "has_key cmp (es @ fs) k \<longleftrightarrow> has_key cmp es k \<or> has_key cmp fs k"
  "has_key cmp (e # es) k \<longleftrightarrow> cmp k (fst (snd e)) = 0 \<or> has_key cmp es k"
  by (auto simp: has_key_def)

lemma has_key_mset: "mset es = mset fs \<Longrightarrow> has_key cmp es = has_key cmp fs"
  by (auto simp: has_key_def fun_eq_iff dest: mset_eq_setD)

lemma has_key_get:
  assumes key: "hash_key (dhashfn d) (dcmp d)" and rep: "dict_rep d m bs"
  shows "\<exists>g. hash_get_item d m k = Some g \<and> (g = None \<longleftrightarrow> \<not> has_key (dcmp d) (concat bs) k)"
proof -
  note blookup_mem = hash_key.blookup_mem [OF key]
  have "hash_get_item d m k = Some (map_option fst (blookup d bs k))" by (rule hash_get_rep [OF rep])
  moreover have "blookup d bs k = None \<longleftrightarrow> \<not> has_key (dcmp d) (concat bs) k"
    unfolding has_key_def blookup_mem [OF rep refl refl, symmetric] by (metis not_Some_eq)
  ultimately show ?thesis by simp
qed

text \<open>
  One insertion into a set, next to others whose items are at the addresses \<open>K\<close>.
\<close>

definition set_at :: "addr set \<Rightarrow> ('k, 'v) hstore \<Rightarrow> ('k, 'v, 'w) mnhash \<Rightarrow> ('k, 'v) hstore \<Rightarrow> ('k, 'v, 'w) mnhash
    \<Rightarrow> ('k, 'v) entry list list \<Rightarrow> bool" where
  "set_at K m0 r0 m r bs \<longleftrightarrow> dict_rep r m bs \<and> same_fns r0 r \<and> finite (dom m) \<and> (\<forall>x \<in> K. m x = m0 x \<and> m0 x \<noteq> None) \<and>
     K \<inter> fst ` set (concat bs) = {}"

lemma set_at_insert:
  assumes at: "set_at K m0 r0 m r bs" and heap: "item_heap malloc" and n: "delnum r + 1 < 2 ^ 64"
  shows "\<exists>r' m' bs'. hash_set_item r m k v malloc = Some (r', m') \<and> set_at K m0 r0 m' r' bs' \<and>
           delnum r' = delnum r + 1 \<and>
           (\<forall>q. has_key cmp (concat bs') q \<longleftrightarrow> cmp q k = 0 \<or> has_key cmp (concat bs) q)"
proof -
  have rep: "dict_rep r m bs" using at by (simp add: set_at_def)
  let ?i = "hash_pos r k"
  have il: "?i < length bs" by (rule hash_pos_less [OF rep])
  obtain a junk where mal: "malloc m = Some (a, junk)" "m a = None"
    using item_heap.malloc_fresh [OF heap, of m] at unfolding set_at_def by blast
  let ?bs = "bs[?i := (a, k, v) # bs ! ?i]"
  obtain r' m' where s: "hash_set_item r m k v malloc = Some (r', m')" "dict_rep r' m' ?bs"
      "r' = put_slot r ?i (Some a) (delnum r + 1)"
      "\<forall>x. x \<noteq> a \<longrightarrow> x \<notin> fst ` set (bs ! ?i) \<longrightarrow> m' x = m x"
    using hash_set_item_rep [where malloc = malloc and m = m and a = a, OF rep mal n, of k v] by blast
  have ms: "mset (concat ?bs) = mset ((a, k, v) # concat bs)"
    using mset_concat_update [OF il, of "(a, k, v)"] by simp
  have sub: "fst ` set (bs ! ?i) \<subseteq> fst ` set (concat bs)" using il in_concat_nth [of _ bs] by blast
  have addr: "fst ` set (concat ?bs) = insert a (fst ` set (concat bs))" using mset_eq_setD [OF ms] by simp
  have aK: "a \<notin> K" using at mal(2) unfolding set_at_def by metis
  have keep: "m' x = m x" if "x \<in> K" for x
  proof -
    have "x \<notin> fst ` set (concat bs)" using at that unfolding set_at_def by blast
    moreover have "x \<noteq> a" using aK that by blast
    ultimately show ?thesis using s(4) sub by blast
  qed
  have "dom m' \<subseteq> insert a (dom m \<union> fst ` set (bs ! ?i))" using s(4) by (fastforce simp: dom_def)
  then have "finite (dom m')" using at by (auto simp: set_at_def intro: finite_subset)
  moreover have "K \<inter> insert a (fst ` set (concat bs)) = {}" using at aK unfolding set_at_def by blast
  moreover have "same_fns r0 r'" using at s(3) by (simp add: set_at_def same_fns_def)
  ultimately have "set_at K m0 r0 m' r' ?bs"
    unfolding set_at_def addr using s(2) keep at by (simp add: set_at_def)
  moreover have "has_key cmp (concat ?bs) q \<longleftrightarrow> cmp q k = 0 \<or> has_key cmp (concat bs) q" for q
    unfolding has_key_mset [OF ms] by simp
  ultimately show ?thesis using s(1,3) by auto
qed

text \<open>
  A traversal that copies items into the result. \<open>sel\<close> says which entries should be there at the
  end: the callback copies those, unless an equal key is there already.
\<close>

definition selects ::
  "('k, 'v) hmalloc \<Rightarrow> ('k, 'v, 'w, ('k, 'v, 'w) mnhash) tcb \<Rightarrow> addr set \<Rightarrow> ('k, 'v) hstore
     \<Rightarrow> ('k, 'v, 'w) mnhash \<Rightarrow> ('k, 'v, 'w) mnhash \<Rightarrow> ('k, 'v) entry list \<Rightarrow> (('k, 'v) entry \<Rightarrow> bool) \<Rightarrow> bool" where
  "selects malloc cb K m0 r0 a es sel \<longleftrightarrow>
     (\<forall>e \<in> set es. \<forall>m r bs it. set_at K m0 r0 m r bs \<longrightarrow> m (fst e) = Some it \<longrightarrow>
        hkey it = fst (snd e) \<longrightarrow> hvalue it = snd (snd e) \<longrightarrow>
        (\<exists>c. cb (fst e) (a, m, r) =
            (if c then do { (r', m') \<leftarrow> copy_item malloc it r m; Some (0, a, m', r') } else Some (0, a, m, r)) \<and>
          (c \<longrightarrow> sel e) \<and> (\<not> c \<longrightarrow> sel e \<longrightarrow> has_key (dcmp r0) (concat bs) (fst (snd e)))))"

definition selected :: "('k \<Rightarrow> 'k \<Rightarrow> int) \<Rightarrow> (('k, 'v) entry \<Rightarrow> bool) \<Rightarrow> ('k, 'v) entry list \<Rightarrow> 'k \<Rightarrow> bool" where
  "selected cmp sel es q \<longleftrightarrow> (\<exists>e \<in> set es. sel e \<and> cmp q (fst (snd e)) = 0)"

lemma select_traverse:
  assumes key: "hash_key (dhashfn r0) (dcmp r0)" and heap: "item_heap malloc"
    and a: "dict_rep a m0 ebs" "fst ` set (concat ebs) \<subseteq> K"
    and sel: "selects malloc cb K m0 r0 a (concat ebs) sel"
    and start: "set_at K m0 r0 m r bs" and n: "delnum r + length (concat ebs) < 2 ^ 64"
  shows "\<exists>m' r' bs'. hash_traverse_item a m cb r = Some (0, a, m', r') \<and> set_at K m0 r0 m' r' bs' \<and>
           delnum r' \<le> delnum r + length (concat ebs) \<and>
           (\<forall>q. has_key (dcmp r0) (concat bs') q \<longleftrightarrow>
              has_key (dcmp r0) (concat bs) q \<or> selected (dcmp r0) sel (concat ebs) q)"
proof -
  note key_sym = hash_key.key_sym [OF key]
    and key_trans = hash_key.key_trans [OF key]
  let ?J = "\<lambda>pre m' r'. \<exists>bs'. set_at K m0 r0 m' r' bs' \<and> delnum r' \<le> delnum r + length pre \<and>
           (\<forall>q. has_key (dcmp r0) (concat bs') q \<longleftrightarrow>
              has_key (dcmp r0) (concat bs) q \<or> selected (dcmp r0) sel pre q)"
  have arep: "dict_rep a m' ebs" if "set_at K m0 r0 m' r' bs'" for m' r' bs'
    using a that by (intro dict_rep_cong [OF a(1)]) (auto simp: set_at_def)
  have "visit_ok cb a ebs ?J"
    unfolding visit_ok_def
  proof (intro allI impI)
    fix pre e post m1 r1
    assume c: "concat ebs = pre @ e # post" and rep: "dict_rep a m1 ebs" and "?J pre m1 r1"
    then obtain bs1 where at: "set_at K m0 r0 m1 r1 bs1" and d1: "delnum r1 \<le> delnum r + length pre"
      and k1: "\<forall>q. has_key (dcmp r0) (concat bs1) q \<longleftrightarrow> has_key (dcmp r0) (concat bs) q \<or> selected (dcmp r0) sel pre q"
      by blast
    obtain it where it: "m1 (fst e) = Some it" "hkey it = fst (snd e)" "hvalue it = snd (snd e)"
      using visited_item [OF rep c] by blast
    have "e \<in> set (concat ebs)" using c by simp
    then obtain cp where cp: "cb (fst e) (a, m1, r1) =
            (if cp then do { (r', m') \<leftarrow> copy_item malloc it r1 m1; Some (0, a, m', r') } else Some (0, a, m1, r1))"
        "cp \<longrightarrow> sel e" "\<not> cp \<longrightarrow> sel e \<longrightarrow> has_key (dcmp r0) (concat bs1) (fst (snd e))"
      using sel at it unfolding selects_def by blast
    have snoc: "selected (dcmp r0) sel (pre @ [e]) q \<longleftrightarrow>
        selected (dcmp r0) sel pre q \<or> sel e \<and> dcmp r0 q (fst (snd e)) = 0" for q
      by (auto simp: selected_def)
    show "\<exists>m' r'. cb (fst e) (a, m1, r1) = Some (0, a, m', r') \<and> dict_rep a m' ebs \<and> ?J (pre @ [e]) m' r'"
    proof (cases cp)
      case True
      have n1: "delnum r1 + 1 < 2 ^ 64" using d1 c n by simp
      obtain r' m' bs' where s: "hash_set_item r1 m1 (hkey it) (hvalue it) malloc = Some (r', m')"
          "set_at K m0 r0 m' r' bs'" "delnum r' = delnum r1 + 1"
          "\<forall>q. has_key (dcmp r0) (concat bs') q \<longleftrightarrow> dcmp r0 q (hkey it) = 0 \<or> has_key (dcmp r0) (concat bs1) q"
        using set_at_insert [OF at heap n1] by blast
      have "cb (fst e) (a, m1, r1) = Some (0, a, m', r')" using cp(1) True s(1) by (simp add: copy_item_def)
      moreover have "?J (pre @ [e]) m' r'"
        using s(2,3,4) d1 k1 snoc cp(2) True it(2) by (intro exI [of _ bs']) auto
      ultimately show ?thesis using arep [OF s(2)] by blast
    next
      case False
      have "has_key (dcmp r0) (concat bs1) q" if "sel e" "dcmp r0 q (fst (snd e)) = 0" for q
        using cp(3) False that key_sym key_trans unfolding has_key_def by blast
      then have "?J (pre @ [e]) m1 r1" using at d1 k1 snoc by (intro exI [of _ bs1]) auto
      with cp(1) False rep show ?thesis by auto
    qed
  qed
  moreover have "?J [] m r" using start by (auto simp: selected_def)
  ultimately obtain m' r' where "hash_traverse_item a m cb r = Some (0, a, m', r')" "?J (concat ebs) m' r'"
    using hash_traverse_item_rule [OF _ arep [OF start], of cb ?J r] by blast
  then show ?thesis by blast
qed

lemma selected_all [simp]: "selected cmp (\<lambda>_. True) es q \<longleftrightarrow> has_key cmp es q"
  by (simp add: selected_def has_key_def)

lemma set_at_key:
  "hash_key (dhashfn r0) (dcmp r0) \<Longrightarrow> set_at K m0 r0 m r bs \<Longrightarrow> hash_key (dhashfn r) (dcmp r)"
  by (simp add: set_at_def same_fns_def)

lemma selects_union:
  assumes key: "hash_key (dhashfn r0) (dcmp r0)"
  shows "selects malloc (hash_set_union3_cb malloc) K m0 r0 a es (\<lambda>_. True)"
  unfolding selects_def
proof (intro ballI allI impI)
  fix e m r bs it
  assume at: "set_at K m0 r0 m r bs" and it: "m (fst e) = Some it" "hkey it = fst (snd e)"
  have rep: "dict_rep r m bs" and fn: "dcmp r = dcmp r0" using at by (auto simp: set_at_def same_fns_def)
  obtain g where g: "hash_get_item r m (hkey it) = Some g" "g = None \<longleftrightarrow> \<not> has_key (dcmp r0) (concat bs) (hkey it)"
    using has_key_get [OF set_at_key [OF key at] rep, of "hkey it"] fn by auto
  show "\<exists>c. hash_set_union3_cb malloc (fst e) (a, m, r) =
            (if c then do { (r', m') \<leftarrow> copy_item malloc it r m; Some (0, a, m', r') } else Some (0, a, m, r)) \<and>
          (c \<longrightarrow> True) \<and> (\<not> c \<longrightarrow> True \<longrightarrow> has_key (dcmp r0) (concat bs) (fst (snd e)))"
    using g it by (intro exI [of _ "g = None"]) (auto simp: hash_set_union3_cb_def)
qed

text \<open>The callbacks that look into a third set.\<close>

lemma other_get:
  assumes at: "set_at K m0 r0 m r bs" and b: "dict_rep b m0 bbs" "fst ` set (concat bbs) \<subseteq> K"
    and keyb: "hash_key (dhashfn b) (dcmp b)"
  shows "\<exists>g. hash_get_item b m k = Some g \<and> (g = None \<longleftrightarrow> \<not> has_key (dcmp b) (concat bbs) k)"
proof -
  have "dict_rep b m bbs" using at b by (intro dict_rep_cong [OF b(1)]) (auto simp: set_at_def)
  then show ?thesis by (rule has_key_get [OF keyb])
qed

lemma selects_diff:
  assumes b: "dict_rep b m0 bbs" "fst ` set (concat bbs) \<subseteq> K" and keyb: "hash_key (dhashfn b) (dcmp b)"
  shows "selects malloc (hash_set_diff3_cb malloc b) K m0 r0 a es (\<lambda>e. \<not> has_key (dcmp b) (concat bbs) (fst (snd e)))"
  unfolding selects_def
proof (intro ballI allI impI)
  fix e m r bs it
  assume at: "set_at K m0 r0 m r bs" and it: "m (fst e) = Some it" "hkey it = fst (snd e)"
  obtain g where g: "hash_get_item b m (hkey it) = Some g" "g = None \<longleftrightarrow> \<not> has_key (dcmp b) (concat bbs) (hkey it)"
    using other_get [OF at b keyb] by blast
  show "\<exists>c. hash_set_diff3_cb malloc b (fst e) (a, m, r) =
            (if c then do { (r', m') \<leftarrow> copy_item malloc it r m; Some (0, a, m', r') } else Some (0, a, m, r)) \<and>
          (c \<longrightarrow> \<not> has_key (dcmp b) (concat bbs) (fst (snd e))) \<and>
          (\<not> c \<longrightarrow> \<not> has_key (dcmp b) (concat bbs) (fst (snd e)) \<longrightarrow> has_key (dcmp r0) (concat bs) (fst (snd e)))"
    using g it by (intro exI [of _ "g = None"]) (auto simp: hash_set_diff3_cb_def)
qed

lemma selects_intersect:
  assumes b: "dict_rep b m0 bbs" "fst ` set (concat bbs) \<subseteq> K" and keyb: "hash_key (dhashfn b) (dcmp b)"
  shows "selects malloc (hash_set_intersect3_cb malloc b) K m0 r0 a es (\<lambda>e. has_key (dcmp b) (concat bbs) (fst (snd e)))"
  unfolding selects_def
proof (intro ballI allI impI)
  fix e m r bs it
  assume at: "set_at K m0 r0 m r bs" and it: "m (fst e) = Some it" "hkey it = fst (snd e)"
  obtain g where g: "hash_get_item b m (hkey it) = Some g" "g = None \<longleftrightarrow> \<not> has_key (dcmp b) (concat bbs) (hkey it)"
    using other_get [OF at b keyb] by blast
  show "\<exists>c. hash_set_intersect3_cb malloc b (fst e) (a, m, r) =
            (if c then do { (r', m') \<leftarrow> copy_item malloc it r m; Some (0, a, m', r') } else Some (0, a, m, r)) \<and>
          (c \<longrightarrow> has_key (dcmp b) (concat bbs) (fst (snd e))) \<and>
          (\<not> c \<longrightarrow> has_key (dcmp b) (concat bbs) (fst (snd e)) \<longrightarrow> has_key (dcmp r0) (concat bs) (fst (snd e)))"
    using g it by (intro exI [of _ "g \<noteq> None"]) (auto simp: hash_set_intersect3_cb_def)
qed

text \<open>Three sets in one store: what the operations start from.\<close>

definition three_sets ::
  "('k, 'v) hstore \<Rightarrow> ('k, 'v, 'w) mnhash \<Rightarrow> ('k, 'v) entry list list \<Rightarrow> ('k, 'v, 'w) mnhash \<Rightarrow> ('k, 'v) entry list list
     \<Rightarrow> ('k, 'v, 'w) mnhash \<Rightarrow> ('k, 'v) entry list list \<Rightarrow> bool" where
  "three_sets m r rs a as b bs \<longleftrightarrow>
     dict_rep r m rs \<and> dict_rep a m as \<and> dict_rep b m bs \<and> finite (dom m) \<and>
     fst ` set (concat rs) \<inter> (fst ` set (concat as) \<union> fst ` set (concat bs)) = {} \<and>
     hash_key (dhashfn r) (dcmp r) \<and> dhashfn a = dhashfn r \<and> dcmp a = dcmp r \<and> dhashfn b = dhashfn r \<and> dcmp b = dcmp r \<and>
     delnum r + delnum a + delnum b < 2 ^ 64"

lemma three_sets_at:
  assumes "three_sets m r rs a as b bs"
  shows "set_at (fst ` set (concat as) \<union> fst ` set (concat bs)) m r m r rs"
proof -
  have "m x \<noteq> None" if d: "dict_rep d m cs" and x: "x \<in> fst ` set (concat cs)" for x d cs
  proof -
    obtain e where e: "e \<in> set (concat cs)" "x = fst e" using x by blast
    then obtain pre post where "concat cs = pre @ e # post" using split_list by metis
    with visited_item [OF d this] e show ?thesis by auto
  qed
  with assms show ?thesis unfolding three_sets_def set_at_def same_fns_def by blast
qed

lemma set_at_keeps:
  assumes "set_at K m0 r0 m r bs" "dict_rep d m0 cs" "fst ` set (concat cs) \<subseteq> K"
  shows "dict_rep d m cs"
  by (rule dict_rep_cong [OF assms(2)]) (use assms(1,3) in \<open>auto simp: set_at_def\<close>)

lemma selected_has:
  assumes "hash_key hf cmp"
  shows "selected cmp (\<lambda>e. has_key cmp cs (fst (snd e))) es q \<longleftrightarrow> has_key cmp es q \<and> has_key cmp cs q"
    "selected cmp (\<lambda>e. \<not> has_key cmp cs (fst (snd e))) es q \<longleftrightarrow> has_key cmp es q \<and> \<not> has_key cmp cs q"
proof -
  note key_eq_cong = hash_key.key_eq_cong [OF assms]
  have "has_key cmp cs p \<longleftrightarrow> has_key cmp cs q" if "cmp q p = 0" for p
    using that key_eq_cong unfolding has_key_def by blast
  then show "selected cmp (\<lambda>e. has_key cmp cs (fst (snd e))) es q \<longleftrightarrow> has_key cmp es q \<and> has_key cmp cs q"
    "selected cmp (\<lambda>e. \<not> has_key cmp cs (fst (snd e))) es q \<longleftrightarrow> has_key cmp es q \<and> \<not> has_key cmp cs q"
    unfolding selected_def has_key_def [of cmp es] by blast+
qed

text \<open>
  \<^verbatim>\<open>hash_set_union3\<close> adds to the result exactly the keys of both sets, leaves both as they
  were, and never faults, whatever the result held before.
\<close>

theorem hash_set_union3_members:
  assumes ts: "three_sets m r rs a as b bs" and heap: "item_heap malloc"
  shows "\<exists>r' m' rs'. hash_set_union3 malloc r a b m = Some (r', m') \<and> dict_rep r' m' rs' \<and>
           dict_rep a m' as \<and> dict_rep b m' bs \<and>
           (\<forall>q. has_key (dcmp r) (concat rs') q \<longleftrightarrow>
              has_key (dcmp r) (concat rs) q \<or> has_key (dcmp r) (concat as) q \<or> has_key (dcmp r) (concat bs) q)"
proof -
  let ?K = "fst ` set (concat as) \<union> fst ` set (concat bs)"
  have T: "dict_rep a m as" "dict_rep b m bs" "hash_key (dhashfn r) (dcmp r)" using ts by (auto simp: three_sets_def)
  have n: "delnum r + length (concat as) + length (concat bs) < 2 ^ 64"
    using ts dict_repD(5) [OF T(1)] dict_repD(5) [OF T(2)] by (simp add: three_sets_def)
  obtain m1 r1 rs1 where s1: "hash_traverse_item a m (hash_set_union3_cb malloc) r = Some (0, a, m1, r1)"
      "set_at ?K m r m1 r1 rs1" "delnum r1 \<le> delnum r + length (concat as)"
      "\<forall>q. has_key (dcmp r) (concat rs1) q \<longleftrightarrow> has_key (dcmp r) (concat rs) q \<or> has_key (dcmp r) (concat as) q"
    using select_traverse [OF T(3) heap T(1) Un_upper1 selects_union [OF T(3)] three_sets_at [OF ts]] n by auto
  obtain m2 r2 rs2 where s2: "hash_traverse_item b m1 (hash_set_union3_cb malloc) r1 = Some (0, b, m2, r2)"
      "set_at ?K m r m2 r2 rs2"
      "\<forall>q. has_key (dcmp r) (concat rs2) q \<longleftrightarrow> has_key (dcmp r) (concat rs1) q \<or> has_key (dcmp r) (concat bs) q"
    using select_traverse [OF T(3) heap T(2) Un_upper2 selects_union [OF T(3)] s1(2)] n s1(3) by auto
  have "hash_set_union3 malloc r a b m = Some (r2, m2)" using s1(1) s2(1) by (simp add: hash_set_union3_def)
  moreover have "dict_rep r2 m2 rs2" using s2(2) by (simp add: set_at_def)
  ultimately show ?thesis
    using s1(4) s2(3) set_at_keeps [OF s2(2) T(1) Un_upper1] set_at_keeps [OF s2(2) T(2) Un_upper2] by blast
qed

text \<open>
  \<^verbatim>\<open>hash_set_diff3\<close> adds to the result exactly the keys of the first set that are not in the
  second, \<^verbatim>\<open>hash_set_intersect3\<close> exactly those that are; both sets stay as they were.
\<close>

theorem hash_set_diff_intersect_members:
  assumes ts: "three_sets m r rs a as b bs" and heap: "item_heap malloc"
  shows "(\<exists>r' m' rs'. hash_set_diff3 malloc r a b m = Some (r', m') \<and> dict_rep r' m' rs' \<and>
            dict_rep a m' as \<and> dict_rep b m' bs \<and>
            (\<forall>q. has_key (dcmp r) (concat rs') q \<longleftrightarrow>
               has_key (dcmp r) (concat rs) q \<or> has_key (dcmp r) (concat as) q \<and> \<not> has_key (dcmp r) (concat bs) q)) \<and>
         (\<exists>r' m' rs'. hash_set_intersect3 malloc r a b m = Some (r', m') \<and> dict_rep r' m' rs' \<and>
            dict_rep a m' as \<and> dict_rep b m' bs \<and>
            (\<forall>q. has_key (dcmp r) (concat rs') q \<longleftrightarrow>
               has_key (dcmp r) (concat rs) q \<or> has_key (dcmp r) (concat as) q \<and> has_key (dcmp r) (concat bs) q))"
proof -
  let ?K = "fst ` set (concat as) \<union> fst ` set (concat bs)"
  have T: "dict_rep a m as" "dict_rep b m bs" "hash_key (dhashfn r) (dcmp r)" and eb: "dcmp b = dcmp r" "dhashfn b = dhashfn r"
    using ts by (auto simp: three_sets_def)
  have kb: "hash_key (dhashfn b) (dcmp b)" unfolding eb by (rule T(3))
  have n: "delnum r + length (concat as) < 2 ^ 64"
    using ts dict_repD(5) [OF T(1)] by (simp add: three_sets_def)
  note run = select_traverse [OF T(3) heap T(1) Un_upper1 _ three_sets_at [OF ts] n]
  obtain m1 r1 rs1 where s1: "hash_traverse_item a m (hash_set_diff3_cb malloc b) r = Some (0, a, m1, r1)"
      "set_at ?K m r m1 r1 rs1" "\<forall>q. has_key (dcmp r) (concat rs1) q \<longleftrightarrow> has_key (dcmp r) (concat rs) q \<or>
         has_key (dcmp r) (concat as) q \<and> \<not> has_key (dcmp r) (concat bs) q"
    using run [OF selects_diff [OF T(2) Un_upper2 kb]] unfolding eb selected_has [OF T(3)] by blast
  obtain m2 r2 rs2 where s2: "hash_traverse_item a m (hash_set_intersect3_cb malloc b) r = Some (0, a, m2, r2)"
      "set_at ?K m r m2 r2 rs2" "\<forall>q. has_key (dcmp r) (concat rs2) q \<longleftrightarrow> has_key (dcmp r) (concat rs) q \<or>
         has_key (dcmp r) (concat as) q \<and> has_key (dcmp r) (concat bs) q"
    using run [OF selects_intersect [OF T(2) Un_upper2 kb]] unfolding eb selected_has [OF T(3)] by blast
  have "hash_set_diff3 malloc r a b m = Some (r1, m1)" "hash_set_intersect3 malloc r a b m = Some (r2, m2)"
    using s1(1) s2(1) by (simp_all add: hash_set_diff3_def hash_set_intersect3_def)
  moreover have "dict_rep r1 m1 rs1" "dict_rep r2 m2 rs2" using s1(2) s2(2) by (simp_all add: set_at_def)
  ultimately show ?thesis
    using s1(3) s2(3) set_at_keeps [OF s1(2) T(1) Un_upper1] set_at_keeps [OF s1(2) T(2) Un_upper2]
      set_at_keeps [OF s2(2) T(1) Un_upper1] set_at_keeps [OF s2(2) T(2) Un_upper2] by blast
qed

subsection \<open>Sizes\<close>

text \<open>
  \<^verbatim>\<open>hash_next_prime\<close> never returns less than it is asked for; up to its largest entry it
  returns the smallest size of its table that is enough, above it the argument itself.
\<close>

theorem hash_next_prime_enough:
  "n \<le> hash_next_prime n \<and>
   (if n \<le> 27644437 then hash_next_prime n \<in> set hash_primes \<and> (\<forall>p \<in> set hash_primes. n \<le> p \<longrightarrow> hash_next_prime n \<le> p)
    else hash_next_prime n = n)"
proof (cases "find (\<lambda>p. n \<le> p) hash_primes")
  case None
  then have "\<forall>p \<in> set hash_primes. \<not> n \<le> p" unfolding find_None_iff by blast
  then have "\<not> n \<le> 27644437" by (simp add: hash_primes_def)
  with None show ?thesis by (simp add: hash_next_prime_def)
next
  case (Some p)
  then obtain ys zs where s: "hash_primes = ys @ p # zs" "n \<le> p" "\<forall>y \<in> set ys. \<not> n \<le> y"
    using find_split by metis
  have "sorted hash_primes" by (simp add: hash_primes_def)
  then have "sorted (ys @ p # zs)" by (simp only: s(1))
  then have le: "\<forall>q \<in> set zs. p \<le> q" by (simp add: sorted_append)
  have p: "p \<in> set hash_primes" by (simp add: s(1))
  moreover have "p \<le> 27644437" using p by (auto simp: hash_primes_def)
  moreover have "\<forall>q \<in> set hash_primes. n \<le> q \<longrightarrow> p \<le> q" unfolding s(1) using s(3) le by auto
  moreover have "hash_next_prime n = p" using Some by (simp add: hash_next_prime_def)
  ultimately show ?thesis using s(2) by simp
qed

theorem hash_next_prime_enough_witness:
  "100 \<le> hash_next_prime 100 \<and> hash_next_prime 100 \<in> set hash_primes"
  using hash_next_prime_enough [of 100] by simp

subsection \<open>Concrete sets\<close>

definition demo_none :: "(nat, nat, nat list) mnhash" where
  "demo_none = demo_hash\<lparr>dtable := (dtable demo_hash)\<lparr>data := Some [None, None]\<rparr>, delnum := 0\<rparr>"

definition demo_one :: "(nat, nat, nat list) mnhash" where
  "demo_one = demo_hash\<lparr>dtable := (dtable demo_hash)\<lparr>data := Some [None, Some 20]\<rparr>, delnum := 1\<rparr>"

definition demo_sets :: "(nat, nat) hstore" where
  "demo_sets = demo_store(20 \<mapsto> \<lparr>hbucket = Some 1, hprev = None, hnext = None, hkey = 7, hvalue = 0\<rparr>)"

definition demo_item :: "(nat, nat) hitem" where
  "demo_item = \<lparr>hbucket = None, hprev = None, hnext = None, hkey = 0, hvalue = 0\<rparr>"

definition demo_none_entries :: "(nat, nat) entry list list" where
  "demo_none_entries = [[], []]"

definition demo_one_entries :: "(nat, nat) entry list list" where
  "demo_one_entries = [[], [(20, 7, 0)]]"

lemma demo_none_rep: "dict_rep demo_none demo_sets demo_none_entries"
  by (simp add: dict_rep_def demo_none_entries_def demo_none_def demo_hash_def array_wf_def bucket_ok_def All_less_Suc)

lemma demo_one_bucket: "bucket_ok demo_one demo_sets 1 [(20, 7, 0)]"
proof -
  have "hash_pos demo_one 7 = 1" by (simp add: hash_pos_def demo_one_def demo_hash_def)
  then show ?thesis by (simp add: bucket_ok_def demo_one_def demo_hash_def demo_sets_def)
qed

lemma demo_one_rep: "dict_rep demo_one demo_sets demo_one_entries"
proof -
  have "array_wf (dtable demo_one)" "elnum (dtable demo_one) = 2" "delnum demo_one = 1"
    "bucket_ok demo_one demo_sets 0 []"
    by (simp_all add: demo_one_def demo_hash_def array_wf_def bucket_ok_def)
  then show ?thesis using demo_one_bucket by (simp add: dict_rep_def demo_one_entries_def All_less_Suc)
qed

lemma demo_hash_rep_sets: "dict_rep demo_hash demo_sets demo_entries"
  by (rule dict_rep_cong [OF demo_rep]) (auto simp: demo_entries_def demo_sets_def)

lemma demo_three: "three_sets demo_sets demo_none demo_none_entries demo_hash demo_entries demo_one demo_one_entries"
proof -
  have "finite (dom demo_sets)" by (simp add: demo_sets_def demo_store_def)
  moreover have "dhashfn demo_none = dhashfn demo_hash" "dcmp demo_none = dcmp demo_hash" "delnum demo_none = 0"
    "dhashfn demo_one = dhashfn demo_hash" "dcmp demo_one = dcmp demo_hash" "delnum demo_one = 1" "delnum demo_hash = 3"
    by (simp_all add: demo_none_def demo_one_def demo_hash_def)
  ultimately show ?thesis
    using demo_none_rep demo_one_rep demo_hash_rep_sets demo_hash_key
    by (simp add: three_sets_def demo_none_entries_def)
qed

theorem hash_set_union3_members_witness:
  "\<exists>r' m' rs'. hash_set_union3 (fit_malloc demo_item) demo_none demo_hash demo_one demo_sets = Some (r', m') \<and>
     dict_rep r' m' rs' \<and> dict_rep demo_hash m' demo_entries \<and> dict_rep demo_one m' demo_one_entries \<and>
     (\<forall>q. has_key (dcmp demo_none) (concat rs') q \<longleftrightarrow>
        has_key (dcmp demo_none) (concat demo_none_entries) q \<or> has_key (dcmp demo_none) (concat demo_entries) q \<or>
        has_key (dcmp demo_none) (concat demo_one_entries) q)"
  by (rule hash_set_union3_members [OF demo_three fit.item_heap_axioms])

theorem hash_set_diff_intersect_members_witness:
  "(\<exists>r' m' rs'. hash_set_diff3 (fit_malloc demo_item) demo_none demo_hash demo_one demo_sets = Some (r', m') \<and>
      dict_rep r' m' rs' \<and> dict_rep demo_hash m' demo_entries \<and> dict_rep demo_one m' demo_one_entries \<and>
      (\<forall>q. has_key (dcmp demo_none) (concat rs') q \<longleftrightarrow>
         has_key (dcmp demo_none) (concat demo_none_entries) q \<or> has_key (dcmp demo_none) (concat demo_entries) q \<and>
         \<not> has_key (dcmp demo_none) (concat demo_one_entries) q)) \<and>
   (\<exists>r' m' rs'. hash_set_intersect3 (fit_malloc demo_item) demo_none demo_hash demo_one demo_sets = Some (r', m') \<and>
      dict_rep r' m' rs' \<and> dict_rep demo_hash m' demo_entries \<and> dict_rep demo_one m' demo_one_entries \<and>
      (\<forall>q. has_key (dcmp demo_none) (concat rs') q \<longleftrightarrow>
         has_key (dcmp demo_none) (concat demo_none_entries) q \<or> has_key (dcmp demo_none) (concat demo_entries) q \<and>
         has_key (dcmp demo_none) (concat demo_one_entries) q))"
  by (rule hash_set_diff_intersect_members [OF demo_three fit.item_heap_axioms])

end
