(* ===== verification/Mn_Hashfn.thy ===== *)
theory Mn_Hashfn
  imports Prelude_C
begin

text \<open>
  \<^verbatim>\<open>src/src/fasthash.c\<close> and \<^verbatim>\<open>src/src/fnvhash.c\<close>: the two hash functions, on 64-bit words that wrap
  around. The \<open>sz\<close> bytes at \<open>s\<close> are a list; eight of them read through a \<^verbatim>\<open>uint64_t *\<close> are a
  little-endian word (the library's targets). The counter of \<^verbatim>\<open>fnvhash64\<close> is 32 bits wide and its
  bound 64 bits: the loop is a partial function, and it is proved when it returns.
\<close>

unbundle bit_operations_syntax

fun le_nat :: "u8 list \<Rightarrow> nat" where
  "le_nat [] = 0"
| "le_nat (b # bs) = unat b + 256 * le_nat bs"

definition le_word :: "u8 list \<Rightarrow> u64" where
  "le_word bs = word_of_nat (le_nat bs)"

definition DJB2XOR :: "u64 \<Rightarrow> u64 \<Rightarrow> u64" where
  "DJB2XOR n c = (push_bit 5 n + n) XOR c"

text \<open>\<open>si[i]\<close>, and the tail of fewer than eight bytes, which the source reads backwards.\<close>

definition word_at :: "u8 list \<Rightarrow> nat \<Rightarrow> u64" where
  "word_at s i = le_word (take 8 (drop (8 * i) s))"

definition tail_word :: "u8 list \<Rightarrow> u64" where
  "tail_word s = le_word (map (\<lambda>i. s ! (length s - 1 - i)) [0..<length s mod 8])"

definition fasthash :: "u64 \<Rightarrow> u8 list \<Rightarrow> u64" where
  "fasthash n s =
     (let rem = length s mod 8;
          sz1 = length s - rem;
          n1 = n XOR word_of_nat (length s);
          n2 = fold (\<lambda>i n. DJB2XOR n (word_at s i)) [0..<sz1 div 8] n1
      in if rem \<noteq> 0 then DJB2XOR n2 (tail_word s) else n2)"

definition rotl64 :: "u64 \<Rightarrow> nat \<Rightarrow> u64" where
  "rotl64 n b = (if b = 0 then n else push_bit b n OR drop_bit (64 - b) n)"

definition rotr64 :: "u64 \<Rightarrow> nat \<Rightarrow> u64" where
  "rotr64 n b = (if b = 0 then n else drop_bit b n OR push_bit (64 - b) n)"

definition FNV_PRIME64 :: u64 where
  "FNV_PRIME64 = 1099511628211"

definition FNV_OFFSET_BASIS64 :: u64 where
  "FNV_OFFSET_BASIS64 = 14695981039346656037"

definition fnv_step :: "u8 \<Rightarrow> u64 \<Rightarrow> u64" where
  "fnv_step c n = (n XOR ucast c) * FNV_PRIME64"

partial_function (option) fnv_loop :: "32 word \<Rightarrow> u8 list \<Rightarrow> u64 \<Rightarrow> u64 option" where
  "fnv_loop i s n =
     (if unat i < length s then fnv_loop (i + 1) s (fnv_step (s ! unat i) n) else Some n)"

definition fnvhash64 :: "u64 \<Rightarrow> u8 list \<Rightarrow> u64 option" where
  "fnvhash64 n s = fnv_loop 0 s n"

subsection \<open>No step loses information\<close>

lemma unat_u8_less: "unat (b::u8) < 256"
  using unsigned_less [of b] by simp

lemma le_nat_bound: "le_nat bs < 256 ^ length bs"
proof (induction bs)
  case (Cons b bs)
  have "unat b < 256" using unat_u8_less [of b] .
  with Cons show ?case by simp
qed simp

lemma le_nat_inj: "length xs = length ys \<Longrightarrow> le_nat xs = le_nat ys \<Longrightarrow> xs = ys"
proof (induction xs ys rule: list_induct2)
  case (Cons x xs y ys)
  have b: "unat x < 256" "unat y < 256" using unat_u8_less [of x] unat_u8_less [of y] .
  have "(unat x + 256 * le_nat xs) mod 256 = (unat y + 256 * le_nat ys) mod 256"
    "(unat x + 256 * le_nat xs) div 256 = (unat y + 256 * le_nat ys) div 256"
    using Cons.prems by simp_all
  then have "unat x = unat y" "le_nat xs = le_nat ys" using b by simp_all
  with Cons.IH show ?case by (simp add: word_unat_eq_iff)
qed simp

lemma le_word_inj:
  assumes "length xs = length ys" "length xs \<le> 8" "le_word xs = le_word ys"
  shows "xs = ys"
proof -
  have "le_nat xs < 2 ^ 64" "le_nat ys < 2 ^ 64"
    using le_nat_bound [of xs] le_nat_bound [of ys] assms(1,2)
      power_increasing [of "length xs" 8 "256::nat"] power_increasing [of "length ys" 8 "256::nat"] by simp_all
  then have "le_nat xs = le_nat ys"
    using arg_cong [OF assms(3), of unat] by (simp add: le_word_def unat_of_nat)
  with assms(1) show ?thesis by (rule le_nat_inj)
qed

lemma odd_mult_inj:
  fixes b c x y :: u64
  assumes "b * c = 1" and "x * b = y * b"
  shows "x = y"
proof -
  have "x * b * c = y * b * c" by (simp only: assms(2))
  then show ?thesis by (simp only: mult.assoc assms(1) mult_1_right)
qed

lemma DJB2XOR_mult: "DJB2XOR n c = (n * 33) XOR c"
proof -
  have "push_bit 5 n = n * 32" by (simp add: push_bit_eq_mult)
  then have "push_bit 5 n + n = n * 33" by simp
  then show ?thesis by (simp only: DJB2XOR_def)
qed

lemma xor_cancel_right: "(a::u64) XOR c = b XOR c \<longleftrightarrow> a = b"
proof
  assume "a XOR c = b XOR c"
  then have "(a XOR c) XOR c = (b XOR c) XOR c" by (simp only:)
  then show "a = b" by (simp only: xor.assoc xor_self_eq xor.right_neutral)
qed simp

lemma xor_cancel_left: "(c::u64) XOR a = c XOR b \<longleftrightarrow> a = b"
  by (simp only: xor.commute [of c] xor_cancel_right)

lemma DJB2XOR_inj:
  "DJB2XOR n c = DJB2XOR n' c \<longleftrightarrow> n = n'"
  "DJB2XOR n c = DJB2XOR n c' \<longleftrightarrow> c = c'"
proof -
  have inv: "(33::u64) * 1117984489315730401 = 1" by simp
  show "DJB2XOR n c = DJB2XOR n' c \<longleftrightarrow> n = n'"
    unfolding DJB2XOR_mult xor_cancel_right using odd_mult_inj [OF inv] by blast
  show "DJB2XOR n c = DJB2XOR n c' \<longleftrightarrow> c = c'"
    unfolding DJB2XOR_mult by (rule xor_cancel_left)
qed

lemma ucast_u8_inj: "(ucast (c::u8) :: u64) = ucast c' \<longleftrightarrow> c = c'"
proof
  assume "(ucast c :: u64) = ucast c'"
  then have "unat (ucast c :: u64) = unat (ucast c' :: u64)" by (simp only:)
  then have "unat c = unat c'" by (simp add: unsigned_ucast_eq take_bit_nat_eq_self unat_u8_less [THEN less_trans])
  then show "c = c'" by (simp add: word_unat_eq_iff)
qed simp

lemma fnv_step_inj:
  "fnv_step c n = fnv_step c n' \<longleftrightarrow> n = n'"
  "fnv_step c n = fnv_step c' n \<longleftrightarrow> c = c'"
proof -
  have inv: "FNV_PRIME64 * 14886173955864302971 = 1" by (simp add: FNV_PRIME64_def)
  have m: "x * FNV_PRIME64 = y * FNV_PRIME64 \<longleftrightarrow> x = y" for x y using odd_mult_inj [OF inv] by blast
  show "fnv_step c n = fnv_step c n' \<longleftrightarrow> n = n'"
    unfolding fnv_step_def m by (rule xor_cancel_right)
  show "fnv_step c n = fnv_step c' n \<longleftrightarrow> c = c'"
    unfolding fnv_step_def m xor_cancel_left by (rule ucast_u8_inj)
qed

lemma fold_inj:
  "(\<And>c n n'. f c n = f c n' \<longleftrightarrow> n = n') \<Longrightarrow> fold f cs n = fold f cs n' \<longleftrightarrow> n = n'"
  by (induction cs arbitrary: n n') simp_all

text \<open>Changing one of the values folded in changes the result.\<close>

lemma fold_one_change:
  assumes s: "\<And>c n n'. f c n = f c n' \<longleftrightarrow> n = n'" and c: "\<And>c c' n. f c n = f c' n \<longleftrightarrow> c = c'"
    and i: "i < length cs"
  shows "fold f (cs[i := c']) n = fold f cs n \<longleftrightarrow> c' = cs ! i"
proof -
  have "cs = take i cs @ cs ! i # drop (Suc i) cs" using i by (simp add: id_take_nth_drop)
  moreover have "cs[i := c'] = take i cs @ c' # drop (Suc i) cs" using i by (simp add: upd_conv_take_nth_drop)
  ultimately have "fold f (cs[i := c']) n = fold f cs n
      \<longleftrightarrow> fold f (drop (Suc i) cs) (f c' (fold f (take i cs) n))
        = fold f (drop (Suc i) cs) (f (cs ! i) (fold f (take i cs) n))"
    by (metis (no_types, lifting) fold_Cons fold_append comp_apply)
  then show ?thesis by (simp only: fold_inj [of f, OF s] c)
qed

subsection \<open>The words fasthash folds in\<close>

definition hash_words :: "u8 list \<Rightarrow> u64 list" where
  "hash_words s = map (word_at s) [0..<length s div 8] @ (if length s mod 8 \<noteq> 0 then [tail_word s] else [])"

lemma fasthash_fold:
  "fasthash n s = fold (\<lambda>c n. DJB2XOR n c) (hash_words s) (n XOR word_of_nat (length s))"
proof -
  have "(length s - length s mod 8) div 8 = length s div 8" by (simp add: minus_mod_eq_mult_div)
  then show ?thesis by (simp add: fasthash_def hash_words_def fold_map comp_def Let_def)
qed

lemma div8_split: "8 * (p div 8) + p mod 8 = p" "p mod 8 < (8::nat)"
  by simp_all

lemma block_update:
  "take 8 (drop (8 * i) (list_update s p c))
    = (if i = p div 8 then list_update (take 8 (drop (8 * i) s)) (p mod 8) c else take 8 (drop (8 * i) s))"
proof (cases "p < 8 * i")
  case True
  then have "i \<noteq> p div 8" using div8_split [of p] by linarith
  with True show ?thesis by (simp add: drop_update_cancel)
next
  case False
  then have *: "take 8 (drop (8 * i) (list_update s p c)) = list_update (take 8 (drop (8 * i) s)) (p - 8 * i) c"
    by (simp add: drop_update_swap take_update_swap)
  show ?thesis
  proof (cases "p - 8 * i < 8")
    case True
    with False have i: "i = p div 8" using div_nat_eqI [of 8 i p] by simp
    then have "p mod 8 = p - 8 * i" by (simp add: minus_mult_div_eq_mod)
    with i have "i = p div 8" "p mod 8 = p - 8 * i" by simp_all
    then show ?thesis unfolding * by simp
  next
    case f: False
    then have "i \<noteq> p div 8" using div8_split [of p] by linarith
    with f show ?thesis unfolding * by (simp add: list_update_beyond)
  qed
qed

lemma block_nth:
  assumes "p div 8 < length s div 8"
  shows "p mod 8 < length (take 8 (drop (8 * (p div 8)) s))" "take 8 (drop (8 * (p div 8)) s) ! (p mod 8) = s ! p"
proof -
  have "8 * (p div 8) + 8 \<le> length s" using assms div8_split [of "length s"] by linarith
  then show "p mod 8 < length (take 8 (drop (8 * (p div 8)) s))" by simp
  show "take 8 (drop (8 * (p div 8)) s) ! (p mod 8) = s ! p"
    using \<open>8 * (p div 8) + 8 \<le> length s\<close> by simp
qed

lemma list_update_eq_iff: "i < length xs \<Longrightarrow> list_update xs i x = xs \<longleftrightarrow> x = xs ! i"
  by (metis list_update_id nth_list_update_eq)

lemma word_at_update_change:
  assumes "p div 8 < length s div 8"
  shows "word_at (list_update s p c) (p div 8) = word_at s (p div 8) \<longleftrightarrow> c = s ! p"
proof -
  let ?b = "take 8 (drop (8 * (p div 8)) s)"
  have "word_at (list_update s p c) (p div 8) = word_at s (p div 8) \<longleftrightarrow> list_update ?b (p mod 8) c = ?b"
    unfolding word_at_def block_update using le_word_inj [of "list_update ?b (p mod 8) c" ?b] by auto
  then show ?thesis using list_update_eq_iff [OF block_nth(1) [OF assms]] block_nth(2) [OF assms] by simp
qed

lemma tail_word_update_change:
  assumes "p < length s" "length s div 8 \<le> p div 8"
  shows "tail_word (list_update s p c) = tail_word s \<longleftrightarrow> c = s ! p"
proof -
  let ?k = "length s mod 8" and ?t = "\<lambda>s. map (\<lambda>i. s ! (length s - 1 - i)) [0..<length s mod 8]"
  have p: "length s - 1 - p < ?k" using assms div8_split [of "length s"] div8_split [of p] by linarith
  have "?t (list_update s p c) = ?t s \<longleftrightarrow> c = s ! p"
  proof
    assume "?t (list_update s p c) = ?t s"
    then have "?t (list_update s p c) ! (length s - 1 - p) = ?t s ! (length s - 1 - p)" by (simp only:)
    then show "c = s ! p" using p assms(1) by simp
  qed (simp only: list_update_id length_list_update)
  moreover have "tail_word (list_update s p c) = tail_word s \<longleftrightarrow> ?t (list_update s p c) = ?t s"
    unfolding tail_word_def
  proof
    assume "le_word (?t (list_update s p c)) = le_word (?t s)"
    then show "?t (list_update s p c) = ?t s" by (intro le_word_inj) simp_all
  qed (simp only:)
  ultimately show ?thesis by simp
qed

lemma hash_words_update:
  assumes p: "p < length s"
  obtains w where "hash_words (list_update s p c) = list_update (hash_words s) (p div 8) w"
    "p div 8 < length (hash_words s)" "w = hash_words s ! (p div 8) \<longleftrightarrow> c = s ! p"
proof (cases "p div 8 < length s div 8")
  case True
  let ?w = "word_at (list_update s p c) (p div 8)"
  have "map (word_at (list_update s p c)) [0..<length s div 8]
      = list_update (map (word_at s) [0..<length s div 8]) (p div 8) ?w"
    by (rule nth_equalityI) (auto simp: nth_list_update word_at_def block_update)
  moreover have "tail_word (list_update s p c) = tail_word s"
  proof -
    have "length s - 1 - i \<noteq> p" if "i < length s mod 8" for i using that True p div8_split [of "length s"] div8_split [of p] by linarith
    then have "list_update s p c ! (length s - 1 - i) = s ! (length s - 1 - i)" if "i < length s mod 8" for i
      using that by (metis nth_list_update_neq)
    then show ?thesis unfolding tail_word_def length_list_update
      by (intro arg_cong [of _ _ le_word] map_cong refl) simp
  qed
  ultimately have "hash_words (list_update s p c) = list_update (hash_words s) (p div 8) ?w"
    using True by (simp add: hash_words_def list_update_append1)
  moreover have "?w = hash_words s ! (p div 8) \<longleftrightarrow> c = s ! p"
    using word_at_update_change [OF True] True by (simp add: hash_words_def nth_append)
  ultimately show ?thesis using True that by (simp add: hash_words_def)
next
  case False
  then have le: "length s div 8 \<le> p div 8" by simp
  have e: "p div 8 = length s div 8" "length s mod 8 \<noteq> 0"
    using p le div8_split [of "length s"] div8_split [of p] div_le_mono [of p "length s" 8] by linarith+
  have "word_at (list_update s p c) i = word_at s i" if "i < length s div 8" for i
    using that le by (simp add: word_at_def block_update)
  then have "hash_words (list_update s p c) = list_update (hash_words s) (p div 8) (tail_word (list_update s p c))"
    using e by (simp add: hash_words_def list_update_append)
  moreover have "tail_word (list_update s p c) = hash_words s ! (p div 8) \<longleftrightarrow> c = s ! p"
    using tail_word_update_change [OF p le] e by (simp add: hash_words_def nth_append)
  ultimately show ?thesis using e that by (simp add: hash_words_def)
qed

subsection \<open>Properties\<close>

lemma fnv_loop_fold:
  "length s < 2 ^ 32 \<Longrightarrow> unat i \<le> length s \<Longrightarrow> fnv_loop i s n = Some (fold fnv_step (drop (unat i) s) n)"
proof (induction "length s - unat i" arbitrary: i n)
  case 0
  then show ?case by (simp add: fnv_loop.simps [of i])
next
  case (Suc k)
  then have l: "unat i < length s" by simp
  have "unat (i + 1) = Suc (unat i)" using l Suc.prems by (simp add: unat_word_ariths)
  then have "fnv_loop (i + 1) s (fnv_step (s ! unat i) n) = Some (fold fnv_step (drop (Suc (unat i)) s) (fnv_step (s ! unat i) n))"
    using Suc.hyps(1) [of "i + 1"] Suc.hyps(2) Suc.prems l by simp
  then show ?case using l by (simp add: fnv_loop.simps [of i] Cons_nth_drop_Suc [symmetric])
qed

lemma fnv_loop_returns_short:
  assumes "fnv_loop i s n = Some r"
  shows "length s < 2 ^ 32"
proof (rule fnv_loop.raw_induct [where P = "\<lambda>i s n r. length s < 2 ^ 32", OF _ assms])
  fix loop :: "32 word \<Rightarrow> u8 list \<Rightarrow> u64 \<Rightarrow> u64 option" and i :: "32 word" and s :: "u8 list" and n r
  assume IH: "\<And>i s n r. loop i s n = Some r \<Longrightarrow> length s < 2 ^ 32"
    and r: "(if unat i < length s then loop (i + 1) s (fnv_step (s ! unat i) n) else Some n) = Some r"
  show "length s < 2 ^ 32"
  proof (cases "unat i < length s")
    case True
    with r have "loop (i + 1) s (fnv_step (s ! unat i) n) = Some r" by simp
    then show ?thesis using IH by blast
  next
    case False
    moreover have "unat i < 2 ^ 32" using unsigned_less [where 'a = nat, of i] by simp
    ultimately show ?thesis by simp
  qed
qed

text \<open>
  \<^verbatim>\<open>fnvhash64\<close> returns exactly for strings shorter than \<open>2 ^ 32\<close> bytes (its 32-bit counter never
  reaches a longer size), and then it is the FNV-1a fold over the bytes.
\<close>

theorem fnvhash64_returns:
  "fnvhash64 n s = (if length s < 2 ^ 32 then Some (fold fnv_step s n) else None)"
  using fnv_loop_fold [of s 0 n] fnv_loop_returns_short [of 0 s n]
  by (cases "fnv_loop 0 s n") (auto simp: fnvhash64_def)

text \<open>
  C40: For strings of one length, below \<^verbatim>\<open>2^32\<close>, neither hash function loses the difference of a single byte, and
  neither loses the difference of two seeds: replacing byte \<open>p\<close> by another value always changes
  \<^verbatim>\<open>fasthash\<close> (whole words and the backwards-read tail alike) and \<^verbatim>\<open>fnvhash64\<close>, and for a fixed
  string both are injective in the seed.
\<close>

theorem hash_detects_byte_change:
  assumes "p < length s" "length s < 2 ^ 32"
  shows "(fasthash n (list_update s p c) = fasthash n s \<longleftrightarrow> c = s ! p)
    \<and> (fnvhash64 n (list_update s p c) = fnvhash64 n s \<longleftrightarrow> c = s ! p)
    \<and> (fasthash n s = fasthash n' s \<longleftrightarrow> n = n')
    \<and> (fnvhash64 n s = fnvhash64 n' s \<longleftrightarrow> n = n')"
proof (intro conjI)
  obtain w where w: "hash_words (list_update s p c) = list_update (hash_words s) (p div 8) w"
    "p div 8 < length (hash_words s)" "w = hash_words s ! (p div 8) \<longleftrightarrow> c = s ! p"
    using hash_words_update [OF assms(1)] .
  show "fasthash n (list_update s p c) = fasthash n s \<longleftrightarrow> c = s ! p"
    unfolding fasthash_fold length_list_update w(1)
    using fold_one_change [of "\<lambda>c n. DJB2XOR n c", OF DJB2XOR_inj w(2)] w(3) by blast
  show "fnvhash64 n (list_update s p c) = fnvhash64 n s \<longleftrightarrow> c = s ! p"
    using fold_one_change [of fnv_step, OF fnv_step_inj assms(1)] assms(2)
      fnv_loop_fold [of s 0] fnv_loop_fold [of "list_update s p c" 0] by (simp add: fnvhash64_def)
  show "fasthash n s = fasthash n' s \<longleftrightarrow> n = n'"
    unfolding fasthash_fold using fold_inj [of "\<lambda>c n. DJB2XOR n c", OF DJB2XOR_inj(1)] xor_cancel_right by blast
  show "fnvhash64 n s = fnvhash64 n' s \<longleftrightarrow> n = n'"
    using fold_inj [of fnv_step, OF fnv_step_inj(1)] assms(2) fnv_loop_fold [of s 0] by (simp add: fnvhash64_def)
qed

theorem hash_detects_byte_change_witness:
  "fasthash 7 [1, 2, 3, 4, 5, 6, 7, 8, 9, 11] \<noteq> fasthash 7 [1, 2, 3, 4, 5, 6, 7, 8, 9, 10]"
  using hash_detects_byte_change [of 9 "[1, 2, 3, 4, 5, 6, 7, 8, 9, 10]" 7 11] by simp

end
