(* ===== verification/Mn_Base64.thy ===== *)
theory Mn_Base64
  imports Prelude_C
begin

text \<open>
  \<^verbatim>\<open>src/src/base64.c\<close>: the encoder and the decoder for the MIME and the URL alphabet.

  The encoder reads one buffer and writes another. The decoder is also called in place
  (\<^verbatim>\<open>mnbase64_decode_mime_inplace\<close>), so it is modelled on one memory of bytes, with the source and
  the destination as offsets into it that may overlap: every read of a block sees the writes
  that come before it. Reads and writes outside of a buffer are faults.
\<close>

unbundle bit_operations_syntax

definition bytes_of :: "string \<Rightarrow> u8 list" where
  "bytes_of s = map of_char s"

definition MN_BASE64_ALPHABET :: "char \<Rightarrow> char \<Rightarrow> u8 list" where
  "MN_BASE64_ALPHABET c62 c63 =
     (let q = bytes_of (''ABCDEFGHIJKLMNOPQRSTUVWXYZabcdefghijklmnopqrstuvwxyz0123456789'' @ [c62, c63])
      in q @ q @ q @ q @ bytes_of ''='')"

definition alphabet_mime :: "u8 list" where
  "alphabet_mime = MN_BASE64_ALPHABET (CHR ''+'') (CHR ''/'')"

definition alphabet_url_std :: "u8 list" where
  "alphabet_url_std = MN_BASE64_ALPHABET (CHR ''-'') (CHR ''_'')"

definition codes_mime :: "u8 list" where
  "codes_mime = [
   0x00, 0x00, 0x00, 0x00, 0x00, 0x00, 0x00, 0x00, 0x00, 0x00, 0x00, 0x00, 0x00, 0x00, 0x00, 0x00,
   0x00, 0x00, 0x00, 0x00, 0x00, 0x00, 0x00, 0x00, 0x00, 0x00, 0x00, 0x00, 0x00, 0x00, 0x00, 0x00,
   0x00, 0x00, 0x00, 0x00, 0x00, 0x00, 0x00, 0x00, 0x00, 0x00, 0x00, 0x3e, 0x00, 0x00, 0x00, 0x3f,
   0x34, 0x35, 0x36, 0x37, 0x38, 0x39, 0x3a, 0x3b, 0x3c, 0x3d, 0x00, 0x00, 0x00, 0x00, 0x00, 0x00,
   0x00, 0x00, 0x01, 0x02, 0x03, 0x04, 0x05, 0x06, 0x07, 0x08, 0x09, 0x0a, 0x0b, 0x0c, 0x0d, 0x0e,
   0x0f, 0x10, 0x11, 0x12, 0x13, 0x14, 0x15, 0x16, 0x17, 0x18, 0x19, 0x00, 0x00, 0x00, 0x00, 0x00,
   0x00, 0x1a, 0x1b, 0x1c, 0x1d, 0x1e, 0x1f, 0x20, 0x21, 0x22, 0x23, 0x24, 0x25, 0x26, 0x27, 0x28,
   0x29, 0x2a, 0x2b, 0x2c, 0x2d, 0x2e, 0x2f, 0x30, 0x31, 0x32, 0x33, 0x00, 0x00, 0x00, 0x00, 0x00,
   0x00, 0x00, 0x00, 0x00, 0x00, 0x00, 0x00, 0x00, 0x00, 0x00, 0x00, 0x00, 0x00, 0x00, 0x00, 0x00,
   0x00, 0x00, 0x00, 0x00, 0x00, 0x00, 0x00, 0x00, 0x00, 0x00, 0x00, 0x00, 0x00, 0x00, 0x00, 0x00,
   0x00, 0x00, 0x00, 0x00, 0x00, 0x00, 0x00, 0x00, 0x00, 0x00, 0x00, 0x00, 0x00, 0x00, 0x00, 0x00,
   0x00, 0x00, 0x00, 0x00, 0x00, 0x00, 0x00, 0x00, 0x00, 0x00, 0x00, 0x00, 0x00, 0x00, 0x00, 0x00,
   0x00, 0x00, 0x00, 0x00, 0x00, 0x00, 0x00, 0x00, 0x00, 0x00, 0x00, 0x00, 0x00, 0x00, 0x00, 0x00,
   0x00, 0x00, 0x00, 0x00, 0x00, 0x00, 0x00, 0x00, 0x00, 0x00, 0x00, 0x00, 0x00, 0x00, 0x00, 0x00,
   0x00, 0x00, 0x00, 0x00, 0x00, 0x00, 0x00, 0x00, 0x00, 0x00, 0x00, 0x00, 0x00, 0x00, 0x00, 0x00,
   0x00, 0x00, 0x00, 0x00, 0x00, 0x00, 0x00, 0x00, 0x00, 0x00, 0x00, 0x00, 0x00, 0x00, 0x00, 0x00]"

definition codes_url_std :: "u8 list" where
  "codes_url_std = [
   0x00, 0x00, 0x00, 0x00, 0x00, 0x00, 0x00, 0x00, 0x00, 0x00, 0x00, 0x00, 0x00, 0x00, 0x00, 0x00,
   0x00, 0x00, 0x00, 0x00, 0x00, 0x00, 0x00, 0x00, 0x00, 0x00, 0x00, 0x00, 0x00, 0x00, 0x00, 0x00,
   0x00, 0x00, 0x00, 0x00, 0x00, 0x00, 0x00, 0x00, 0x00, 0x00, 0x00, 0x3e, 0x00, 0x00, 0x00, 0x00,
   0x34, 0x35, 0x36, 0x37, 0x38, 0x39, 0x3a, 0x3b, 0x3c, 0x3d, 0x00, 0x00, 0x00, 0x00, 0x00, 0x00,
   0x00, 0x00, 0x01, 0x02, 0x03, 0x04, 0x05, 0x06, 0x07, 0x08, 0x09, 0x0a, 0x0b, 0x0c, 0x0d, 0x0e,
   0x0f, 0x10, 0x11, 0x12, 0x13, 0x14, 0x15, 0x16, 0x17, 0x18, 0x19, 0x00, 0x00, 0x00, 0x00, 0x3f,
   0x00, 0x1a, 0x1b, 0x1c, 0x1d, 0x1e, 0x1f, 0x20, 0x21, 0x22, 0x23, 0x24, 0x25, 0x26, 0x27, 0x28,
   0x29, 0x2a, 0x2b, 0x2c, 0x2d, 0x2e, 0x2f, 0x30, 0x31, 0x32, 0x33, 0x00, 0x00, 0x00, 0x00, 0x00,
   0x00, 0x00, 0x00, 0x00, 0x00, 0x00, 0x00, 0x00, 0x00, 0x00, 0x00, 0x00, 0x00, 0x00, 0x00, 0x00,
   0x00, 0x00, 0x00, 0x00, 0x00, 0x00, 0x00, 0x00, 0x00, 0x00, 0x00, 0x00, 0x00, 0x00, 0x00, 0x00,
   0x00, 0x00, 0x00, 0x00, 0x00, 0x00, 0x00, 0x00, 0x00, 0x00, 0x00, 0x00, 0x00, 0x00, 0x00, 0x00,
   0x00, 0x00, 0x00, 0x00, 0x00, 0x00, 0x00, 0x00, 0x00, 0x00, 0x00, 0x00, 0x00, 0x00, 0x00, 0x00,
   0x00, 0x00, 0x00, 0x00, 0x00, 0x00, 0x00, 0x00, 0x00, 0x00, 0x00, 0x00, 0x00, 0x00, 0x00, 0x00,
   0x00, 0x00, 0x00, 0x00, 0x00, 0x00, 0x00, 0x00, 0x00, 0x00, 0x00, 0x00, 0x00, 0x00, 0x00, 0x00,
   0x00, 0x00, 0x00, 0x00, 0x00, 0x00, 0x00, 0x00, 0x00, 0x00, 0x00, 0x00, 0x00, 0x00, 0x00, 0x00,
   0x00, 0x00, 0x00, 0x00, 0x00, 0x00, 0x00, 0x00, 0x00, 0x00, 0x00, 0x00, 0x00, 0x00, 0x00, 0x00]"

subsection \<open>Encoding\<close>

definition pad_char :: u8 where
  "pad_char = 61"

definition encode3 :: "u8 list \<Rightarrow> u8 list \<Rightarrow> nat \<Rightarrow> u8 list \<Rightarrow> nat \<Rightarrow> u8 list option" where
  "encode3 a src i dst o' = do {
     i0 \<leftarrow> peek src i; i1 \<leftarrow> peek src (i + 1); i2 \<leftarrow> peek src (i + 2);
     c0 \<leftarrow> peek a (unat (drop_bit 2 i0));
     dst \<leftarrow> poke dst o' c0;
     c1 \<leftarrow> peek a (unat (push_bit 4 i0 OR drop_bit 4 i1));
     dst \<leftarrow> poke dst (o' + 1) c1;
     c2 \<leftarrow> peek a (unat (push_bit 2 i1 OR drop_bit 6 i2));
     dst \<leftarrow> poke dst (o' + 2) c2;
     c3 \<leftarrow> peek a (unat i2);
     poke dst (o' + 3) c3
   }"

definition encode2 :: "u8 list \<Rightarrow> u8 list \<Rightarrow> nat \<Rightarrow> u8 list \<Rightarrow> nat \<Rightarrow> u8 list option" where
  "encode2 a src i dst o' = do {
     i0 \<leftarrow> peek src i; i1 \<leftarrow> peek src (i + 1);
     c0 \<leftarrow> peek a (unat (drop_bit 2 i0));
     dst \<leftarrow> poke dst o' c0;
     c1 \<leftarrow> peek a (unat (push_bit 4 i0 OR drop_bit 4 i1));
     dst \<leftarrow> poke dst (o' + 1) c1;
     c2 \<leftarrow> peek a (unat (push_bit 2 i1));
     dst \<leftarrow> poke dst (o' + 2) c2;
     poke dst (o' + 3) pad_char
   }"

definition encode1 :: "u8 list \<Rightarrow> u8 list \<Rightarrow> nat \<Rightarrow> u8 list \<Rightarrow> nat \<Rightarrow> u8 list option" where
  "encode1 a src i dst o' = do {
     i0 \<leftarrow> peek src i;
     c0 \<leftarrow> peek a (unat (drop_bit 2 i0));
     dst \<leftarrow> poke dst o' c0;
     c1 \<leftarrow> peek a (unat (push_bit 4 i0));
     dst \<leftarrow> poke dst (o' + 1) c1;
     dst \<leftarrow> poke dst (o' + 2) pad_char;
     poke dst (o' + 3) pad_char
   }"

fun encode_loop :: "u8 list \<Rightarrow> u8 list \<Rightarrow> nat list \<Rightarrow> u8 list \<Rightarrow> u8 list option" where
  "encode_loop a src [] dst = Some dst"
| "encode_loop a src (i # is) dst = do {
     dst \<leftarrow> encode3 a src (i * 3) dst (i * 4);
     encode_loop a src is dst
   }"

definition MNBASE64_ENCODE_BODY ::
  "u8 list \<Rightarrow> u8 list \<Rightarrow> nat \<Rightarrow> u8 list \<Rightarrow> nat \<Rightarrow> (rc \<times> u8 list) option" where
  "MNBASE64_ENCODE_BODY a src srcsz dst dstsz =
     (if dstsz < SZ ((srcsz div 3 + 1) * 4) then Some (Rc (- 1), dst)
      else do {
        let sz = srcsz div 3;
        dst \<leftarrow> encode_loop a src [0..<sz] dst;
        dst \<leftarrow> (if srcsz mod 3 = 2 then encode2 a src (sz * 3) dst (sz * 4)
               else if srcsz mod 3 = 1 then encode1 a src (sz * 3) dst (sz * 4)
               else Some dst);
        Some (rc_ok, dst)
      })"

definition mnbase64_encode_mime :: "u8 list \<Rightarrow> nat \<Rightarrow> u8 list \<Rightarrow> nat \<Rightarrow> (rc \<times> u8 list) option" where
  "mnbase64_encode_mime = MNBASE64_ENCODE_BODY alphabet_mime"

definition mnbase64_encode_url_std :: "u8 list \<Rightarrow> nat \<Rightarrow> u8 list \<Rightarrow> nat \<Rightarrow> (rc \<times> u8 list) option" where
  "mnbase64_encode_url_std = MNBASE64_ENCODE_BODY alphabet_url_std"

subsection \<open>Decoding\<close>

text \<open>How an iteration of the loop leaves: it goes on, \<^verbatim>\<open>break\<close>s, or returns -1.\<close>

datatype loop_exit = Next | Break | Fail

definition MNBASE64_DECODE_LOOP ::
  "u8 list \<Rightarrow> nat \<Rightarrow> nat \<Rightarrow> nat \<Rightarrow> u8 list \<Rightarrow> nat \<Rightarrow> (loop_exit \<times> u8 list \<times> nat) option" where
  "MNBASE64_DECODE_LOOP codes src dst i m n = do {
     q0 \<leftarrow> peek m (src + i * 4); q1 \<leftarrow> peek m (src + i * 4 + 1);
     q2 \<leftarrow> peek m (src + i * 4 + 2); q3 \<leftarrow> peek m (src + i * 4 + 3);
     if list_ex (\<lambda>q. q AND 0x80 \<noteq> 0) [q0, q1, q2, q3] \<or> list_all (\<lambda>q. q AND 0xe0 = 0) [q0, q1, q2, q3]
     then Some (Fail, m, n)
     else if q0 = pad_char \<or> q1 = pad_char then Some (Break, m, n)
     else do {
       k0 \<leftarrow> peek codes (unat q0); k1 \<leftarrow> peek codes (unat q1);
       m \<leftarrow> poke m (dst + i * 3) (push_bit 2 k0 OR drop_bit 4 k1);
       q2 \<leftarrow> peek m (src + i * 4 + 2);
       if q2 = pad_char then Some (Break, m, SZ (n + 1))
       else do {
         q1 \<leftarrow> peek m (src + i * 4 + 1);
         k1 \<leftarrow> peek codes (unat q1); k2 \<leftarrow> peek codes (unat q2);
         m \<leftarrow> poke m (dst + i * 3 + 1) (push_bit 4 k1 OR drop_bit 2 k2);
         q3 \<leftarrow> peek m (src + i * 4 + 3);
         if q3 = pad_char then Some (Break, m, SZ (n + 2))
         else do {
           q2 \<leftarrow> peek m (src + i * 4 + 2);
           k2 \<leftarrow> peek codes (unat q2); k3 \<leftarrow> peek codes (unat q3);
           m \<leftarrow> poke m (dst + i * 3 + 2) (push_bit 6 k2 OR k3);
           Some (Next, m, SZ (n + 3))
         }
       }
     }
   }"

fun decode_loop ::
  "u8 list \<Rightarrow> nat \<Rightarrow> nat \<Rightarrow> nat list \<Rightarrow> u8 list \<Rightarrow> nat \<Rightarrow> (rc \<times> u8 list \<times> nat) option" where
  "decode_loop codes src dst [] m n = Some (rc_ok, m, n)"
| "decode_loop codes src dst (i # is) m n = do {
     (x, m, n) \<leftarrow> MNBASE64_DECODE_LOOP codes src dst i m n;
     (case x of
        Fail \<Rightarrow> Some (Rc (- 1), m, n)
      | Break \<Rightarrow> Some (rc_ok, m, n)
      | Next \<Rightarrow> decode_loop codes src dst is m n)
   }"

text \<open>
  The memory, the offset of the source and its size, the offset of the destination and the
  value \<^verbatim>\<open>*dstsz\<close>; the result has the new memory and the new \<^verbatim>\<open>*dstsz\<close>.
\<close>

definition base64_decode_body ::
  "u8 list \<Rightarrow> u8 list \<Rightarrow> nat \<Rightarrow> nat \<Rightarrow> nat \<Rightarrow> nat \<Rightarrow> (rc \<times> u8 list \<times> nat) option" where
  "base64_decode_body codes mem src srcsz dst dstsz =
     (let m = srcsz mod 4 in
      if m \<noteq> 0 \<or> SZ ((dstsz div 3) * 4) < srcsz then Some (Rc (- 1), mem, dstsz)
      else decode_loop codes src dst [0..<(srcsz + (if m \<noteq> 0 then 4 - m else 0)) div 4] mem 0)"

definition mnbase64_decode_mime ::
  "u8 list \<Rightarrow> nat \<Rightarrow> nat \<Rightarrow> nat \<Rightarrow> nat \<Rightarrow> (rc \<times> u8 list \<times> nat) option" where
  "mnbase64_decode_mime = base64_decode_body codes_mime"

definition mnbase64_decode_url_std ::
  "u8 list \<Rightarrow> nat \<Rightarrow> nat \<Rightarrow> nat \<Rightarrow> nat \<Rightarrow> (rc \<times> u8 list \<times> nat) option" where
  "mnbase64_decode_url_std = base64_decode_body codes_url_std"

definition mnbase64_decode_mime_inplace :: "u8 list \<Rightarrow> nat \<Rightarrow> nat \<Rightarrow> (rc \<times> u8 list \<times> nat) option" where
  "mnbase64_decode_mime_inplace mem s sz = mnbase64_decode_mime mem s sz s sz"

definition mnbase64_decode_url_std_inplace :: "u8 list \<Rightarrow> nat \<Rightarrow> nat \<Rightarrow> (rc \<times> u8 list \<times> nat) option" where
  "mnbase64_decode_url_std_inplace mem s sz = mnbase64_decode_url_std mem s sz s sz"

subsection \<open>The tables\<close>

definition quarter :: "nat \<Rightarrow> nat \<Rightarrow> nat list" where
  "quarter c62 c63 = [65..<91] @ [97..<123] @ [48..<58] @ [c62, c63]"

lemma quarter_length: "length (quarter c62 c63) = 64"
  by (simp add: quarter_def)

lemma nth_four_copies: "n < 4 * length q \<Longrightarrow> (q @ q @ q @ q @ r) ! n = q ! (n mod length q)"
proof -
  assume n: "n < 4 * length q"
  consider "n < length q" | "length q \<le> n" "n < 2 * length q" | "2 * length q \<le> n" "n < 3 * length q"
    | "3 * length q \<le> n" "n < 4 * length q" using n by linarith
  moreover have "q \<noteq> []" using n by auto
  ultimately show ?thesis
    by cases (auto simp: nth_append le_mod_geq)
qed

lemma alphabet_nth:
  assumes "n < 256"
  shows "alphabet_mime ! n = of_nat (quarter 43 47 ! (n mod 64))" 
    "alphabet_url_std ! n = of_nat (quarter 45 95 ! (n mod 64))"
proof -
  have q: "bytes_of (''ABCDEFGHIJKLMNOPQRSTUVWXYZabcdefghijklmnopqrstuvwxyz0123456789'' @ [CHR ''+'', CHR ''/''])
      = map of_nat (quarter 43 47)"
    "bytes_of (''ABCDEFGHIJKLMNOPQRSTUVWXYZabcdefghijklmnopqrstuvwxyz0123456789'' @ [CHR ''-'', CHR ''_''])
      = map of_nat (quarter 45 95)"
    by (simp_all add: bytes_of_def quarter_def upt_rec)
  show "alphabet_mime ! n = of_nat (quarter 43 47 ! (n mod 64))" 
    "alphabet_url_std ! n = of_nat (quarter 45 95 ! (n mod 64))"
    using assms nth_four_copies [of n "map of_nat (quarter 43 47)"] nth_four_copies [of n "map of_nat (quarter 45 95)"]
    unfolding alphabet_mime_def alphabet_url_std_def MN_BASE64_ALPHABET_def Let_def q
    by (simp_all add: quarter_length)
qed

text \<open>
  What the decoder's table says of the alphabet's characters; \<open>lost\<close> is a character it does not
  know. There is none for the MIME alphabet, but the URL table has the code of \<open>-\<close> at \<open>+\<close>.
\<close>

definition decodes_quarter :: "u8 list \<Rightarrow> nat list \<Rightarrow> nat \<Rightarrow> bool" where
  "decodes_quarter codes q lost =
     list_all (\<lambda>(v, c). (c \<noteq> lost \<longrightarrow> codes ! c = of_nat v) \<and> c < 128 \<and> 32 \<le> c \<and> c \<noteq> 61) (enumerate 0 q)"

lemma decodes_quarter_tables:
  "decodes_quarter codes_mime (quarter 43 47) 0"
  "decodes_quarter codes_url_std (quarter 45 95) 45"
  by (simp_all add: decodes_quarter_def quarter_def upt_rec codes_mime_def codes_url_std_def)

lemma alphabet_lengths:
  "length alphabet_mime = 257" "length alphabet_url_std = 257" "length codes_mime = 256" "length codes_url_std = 256"
  by (simp_all add: alphabet_mime_def alphabet_url_std_def MN_BASE64_ALPHABET_def bytes_of_def Let_def
      codes_mime_def codes_url_std_def)

lemma decodes_quarter_nth:
  assumes "decodes_quarter codes q lost" "v < length q"
  shows "q ! v \<noteq> lost \<Longrightarrow> codes ! (q ! v) = of_nat v" "q ! v < 128" "32 \<le> q ! v" "q ! v \<noteq> 61"
proof -
  have "(v, q ! v) \<in> set (enumerate 0 q)" using assms(2) by (force simp: in_set_enumerate_eq)
  with assms(1) show "q ! v \<noteq> lost \<Longrightarrow> codes ! (q ! v) = of_nat v" "q ! v < 128" "32 \<le> q ! v" "q ! v \<noteq> 61"
    by (auto simp: decodes_quarter_def list_all_iff)
qed

text \<open>What the encoder and the decoder rely on of an alphabet and its table of codes.\<close>

locale base64_tables =
  fixes a codes :: "u8 list" and lost :: u8
  assumes a_length: "length a = 257"
    and codes_length: "length codes = 256"
    and a_codes: "a ! unat (v::u8) \<noteq> lost \<Longrightarrow> codes ! unat (a ! unat v) = v AND mask 6"
    and a_ascii: "unat (a ! unat v) < 128"
    and a_printable: "32 \<le> unat (a ! unat v)"
    and a_no_pad: "a ! unat v \<noteq> pad_char"

lemma base64_tablesI:
  assumes q: "decodes_quarter codes q lost" "length q = 64" "lost < 256"
    and a: "\<And>n. n < 256 \<Longrightarrow> a ! n = of_nat (q ! (n mod 64))"
    and l: "length a = 257" "length codes = 256"
  shows "base64_tables a codes (of_nat lost)"
proof
  fix v :: u8
  let ?n = "unat v mod 64"
  have v: "unat v < 256" using unsigned_less [where 'a = nat, of v] by simp
  have n: "?n < length q" using q(2) by simp
  note c = decodes_quarter_nth [OF q(1) n]
  have av: "a ! unat v = of_nat (q ! ?n)" by (rule a [OF v])
  moreover have uv: "unat (a ! unat v) = q ! ?n" using c(2) unfolding av by (simp add: unat_of_nat)
  moreover have "of_nat ?n = v AND mask 6"
    by (simp add: word_unat_eq_iff unat_of_nat take_bit_eq_mod unat_mod flip: take_bit_eq_mask)
  ultimately show "codes ! unat (a ! unat v) = v AND mask 6" if "a ! unat v \<noteq> of_nat lost" using c(1) that by force
  show "unat (a ! unat v) < 128" "32 \<le> unat (a ! unat v)" using uv c by simp_all
  show "a ! unat v \<noteq> pad_char" using uv c(4) by (auto simp: pad_char_def)
qed (use l in simp_all)

interpretation mime: base64_tables alphabet_mime codes_mime 0
  using base64_tablesI [OF decodes_quarter_tables(1) quarter_length] by (simp add: alphabet_nth alphabet_lengths)

interpretation url_std: base64_tables alphabet_url_std codes_url_std 45
  using base64_tablesI [OF decodes_quarter_tables(2) quarter_length] by (simp add: alphabet_nth alphabet_lengths)

subsection \<open>The text of an encoding\<close>

definition quad :: "u8 list \<Rightarrow> u8 \<Rightarrow> u8 \<Rightarrow> u8 \<Rightarrow> u8 list" where
  "quad a x y z = [a ! unat (drop_bit 2 x), a ! unat (push_bit 4 x OR drop_bit 4 y),
                   a ! unat (push_bit 2 y OR drop_bit 6 z), a ! unat z]"

fun base64_text :: "u8 list \<Rightarrow> u8 list \<Rightarrow> u8 list" where
  "base64_text a (x # y # z # r) = quad a x y z @ base64_text a r"
| "base64_text a [x, y] = take 3 (quad a x y 0) @ [pad_char]"
| "base64_text a [x] = take 2 (quad a x 0 0) @ [pad_char, pad_char]"
| "base64_text a [] = []"

lemma length_quad [simp]: "length (quad a x y z) = 4"
  by (simp add: quad_def)

lemma base64_text_length: "length (base64_text a bs) = (length bs + 2) div 3 * 4"
proof (induction a bs rule: base64_text.induct)
  case (1 a x y z r)
  have "(length (x # y # z # r) + 2) div 3 = Suc ((length r + 2) div 3)"
    using div_add_self1 [of 3 "length r + 2"] by (simp add: add.assoc [symmetric])
  with 1 show ?case by simp
qed simp_all

lemma take3 [simp]: "take (3 + n) (x # y # z # t) = x # y # z # take n t"
  by (simp add: numeral_3_eq_3)

text \<open>Bytes stored at an offset.\<close>

definition put_bytes :: "u8 list \<Rightarrow> nat \<Rightarrow> u8 list \<Rightarrow> u8 list" where
  "put_bytes m p bs = take p m @ bs @ drop (p + length bs) m"

lemma length_put_bytes [simp]: "p + length bs \<le> length m \<Longrightarrow> length (put_bytes m p bs) = length m"
  by (simp add: put_bytes_def)

lemma put_bytes_Nil [simp]: "put_bytes m p [] = m"
  by (simp add: put_bytes_def)

lemma put_bytes_put_bytes:
  "p + length bs + length cs \<le> length m \<Longrightarrow>
     put_bytes (put_bytes m p bs) (p + length bs) cs = put_bytes m p (bs @ cs)"
  by (simp add: put_bytes_def ac_simps)

lemma put_bytes_nth:
  assumes "p + length bs \<le> length m" "k < length m"
  shows "put_bytes m p bs ! k = (if p \<le> k \<and> k < p + length bs then bs ! (k - p) else m ! k)"
  using assms by (auto simp: put_bytes_def nth_append min_def)

lemma put_bytes_Cons:
  assumes "p + Suc (length bs) \<le> length m"
  shows "put_bytes (m[p := b]) (Suc p) bs = put_bytes m p (b # bs)"
  using assms by (intro nth_equalityI) (auto simp: put_bytes_nth nth_list_update nth_Cons' not_less_eq_eq Suc_diff_le)

lemma put_bytes_single:
  "p < length m \<Longrightarrow> m[p := b] = put_bytes m p [b]"
  using put_bytes_Cons [of p "[]" m b] by simp

lemma updates_put_bytes:
  "p + 3 < length m \<Longrightarrow> m[p := b0, p + 1 := b1, p + 2 := b2, p + 3 := b3] = put_bytes m p [b0, b1, b2, b3]"
  "p + 2 < length m \<Longrightarrow> m[p := b0, p + 1 := b1, p + 2 := b2] = put_bytes m p [b0, b1, b2]"
  "p + 1 < length m \<Longrightarrow> m[p := b0, p + 1 := b1] = put_bytes m p [b0, b1]"
  by (auto intro!: nth_equalityI simp: put_bytes_nth nth_list_update nth_Cons')

lemma unat_u8_257: "unat (v::u8) < 257"
  using unsigned_less [where 'a = nat, of v] by simp

context base64_tables
begin

lemma encode3_put:
  assumes "i + 2 < length src" "p + 3 < length dst"
  shows "encode3 a src i dst p = Some (put_bytes dst p (quad a (src ! i) (src ! (i + 1)) (src ! (i + 2))))"
  using assms unat_u8_257 by (simp add: encode3_def a_length quad_def flip: updates_put_bytes(1))

lemma encode2_put:
  assumes "i + 1 < length src" "p + 3 < length dst"
  shows "encode2 a src i dst p = Some (put_bytes dst p (take 3 (quad a (src ! i) (src ! (i + 1)) 0) @ [pad_char]))"
  using assms unat_u8_257 by (simp add: encode2_def a_length quad_def flip: updates_put_bytes(1))

lemma encode1_put:
  assumes "i < length src" "p + 3 < length dst"
  shows "encode1 a src i dst p = Some (put_bytes dst p (take 2 (quad a (src ! i) 0 0) @ [pad_char, pad_char]))"
  using assms unat_u8_257 by (simp add: encode1_def a_length quad_def flip: updates_put_bytes(1))

lemma base64_text_snoc:
  assumes "3 * k \<le> length src"
  shows "base64_text a (take (3 * k) src @ r) = base64_text a (take (3 * k) src) @ base64_text a r"
  using assms
proof (induction k arbitrary: src)
  case (Suc k)
  then obtain x y z t where s: "src = x # y # z # t"
    by (cases src; cases "tl src"; cases "tl (tl src)") auto
  with Suc show ?case by simp
qed simp

lemma encode_loop_put:
  assumes "3 * k \<le> length src" "4 * k \<le> length dst" "i \<le> k"
  shows "encode_loop a src [i..<k] (put_bytes dst 0 (base64_text a (take (3 * i) src)))
    = Some (put_bytes dst 0 (base64_text a (take (3 * k) src)))"
  using assms(3)
proof (induction "k - i" arbitrary: i)
  case (Suc n)
  let ?t = "\<lambda>i. base64_text a (take (3 * i) src)"
  from Suc have i: "i < k" by simp
  have len: "length (?t i) = 4 * i" using i assms(1) by (simp add: base64_text_length)
  have b: "3 * i + 2 < length src" "4 * i + 3 < length dst" using i assms by linarith+
  have "take (3 * Suc i) src = take (3 * i) src @ [src ! (3 * i), src ! (3 * i + 1), src ! (3 * i + 2)]"
    using b(1) by (simp add: take_Suc_conv_app_nth numeral_3_eq_3)
  then have "?t (Suc i) = ?t i @ quad a (src ! (3 * i)) (src ! (3 * i + 1)) (src ! (3 * i + 2))"
    using base64_text_snoc [of i src "[src ! (3 * i), src ! (3 * i + 1), src ! (3 * i + 2)]"] b by simp
  then have "encode3 a src (i * 3) (put_bytes dst 0 (?t i)) (i * 4) = Some (put_bytes dst 0 (?t (Suc i)))"
    using encode3_put [of "i * 3" src "i * 4" "put_bytes dst 0 (?t i)"] b len
      put_bytes_put_bytes [of 0 "?t i" "quad a (src ! (3 * i)) (src ! (3 * i + 1)) (src ! (3 * i + 2))" dst]
    by (simp add: mult.commute)
  moreover have "encode_loop a src [Suc i..<k] (put_bytes dst 0 (?t (Suc i))) = Some (put_bytes dst 0 (?t k))"
    using Suc.hyps i by (intro Suc.hyps(1)) simp_all
  ultimately show ?case using i by (simp add: upt_conv_Cons del: mult_Suc_right)
qed simp

end

context base64_tables
begin

lemma encode_body_put:
  assumes room: "(srcsz div 3 + 1) * 4 \<le> dstsz" "dstsz \<le> length dst" "length dst < 2 ^ 64"
    and src: "srcsz \<le> length src"
  shows "MNBASE64_ENCODE_BODY a src srcsz dst dstsz = Some (rc_ok, put_bytes dst 0 (base64_text a (take srcsz src)))"
proof -
  define k where "k = srcsz div 3"
  let ?t = "base64_text a (take (3 * k) src)"
  have len: "length ?t = 4 * k" using src by (simp add: base64_text_length k_def)
  have bounds: "3 * k \<le> length src" "4 * k + 4 \<le> length dst" using room src by (simp_all add: k_def)
  have loop: "encode_loop a src [0..<k] dst = Some (put_bytes dst 0 ?t)"
    using encode_loop_put [of k src dst 0] bounds by simp
  have srcsz: "srcsz = 3 * k + srcsz mod 3" by (simp add: k_def)
  have last: "put_bytes (put_bytes dst 0 ?t) (4 * k) r = put_bytes dst 0 (?t @ r)" if "length r = 4" for r
    using put_bytes_put_bytes [of 0 ?t r dst] bounds len that by simp
  have more: "base64_text a (take srcsz src) = ?t @ base64_text a (drop (3 * k) (take srcsz src))"
    using base64_text_snoc [of k src "drop (3 * k) (take srcsz src)"] bounds(1)
    using srcsz by (metis append_take_drop_id min.absorb1 le_add1 take_take)
  consider "srcsz mod 3 = 0" | "srcsz mod 3 = 1" | "srcsz mod 3 = 2" by linarith
  then have "(if srcsz mod 3 = 2 then encode2 a src (k * 3) (put_bytes dst 0 ?t) (k * 4)
       else if srcsz mod 3 = 1 then encode1 a src (k * 3) (put_bytes dst 0 ?t) (k * 4)
       else Some (put_bytes dst 0 ?t)) = Some (put_bytes dst 0 (base64_text a (take srcsz src)))"
  proof cases
    case 1
    then have "3 * k = srcsz" using srcsz by linarith
    with 1 show ?thesis by simp
  next
    case 2
    then have e: "srcsz = Suc (3 * k)" using srcsz by linarith
    then have i: "k * 3 < length src" using srcsz src by linarith
    have "take srcsz src = take (3 * k) src @ [src ! (k * 3)]"
      using i unfolding e by (simp add: take_Suc_conv_app_nth mult.commute)
    then have "drop (3 * k) (take srcsz src) = [src ! (k * 3)]" using bounds(1) by simp
    then show ?thesis using 2 encode1_put [OF i, of "k * 4" "put_bytes dst 0 ?t"] bounds len more last by (simp add: mult.commute)
  next
    case 3
    then have e: "srcsz = Suc (Suc (3 * k))" using srcsz by linarith
    then have i: "k * 3 + 1 < length src" using srcsz src by linarith
    have "take srcsz src = take (3 * k) src @ [src ! (k * 3), src ! (k * 3 + 1)]"
      using i unfolding e by (simp add: take_Suc_conv_app_nth mult.commute numeral_2_eq_2)
    then have "drop (3 * k) (take srcsz src) = [src ! (k * 3), src ! (k * 3 + 1)]" using bounds(1) by simp
    then show ?thesis using 3 encode2_put [OF i, of "k * 4" "put_bytes dst 0 ?t"] bounds len more last by (simp add: mult.commute)
  qed
  moreover have "SZ ((k + 1) * 4) = (k + 1) * 4" using room by (simp add: k_def)
  ultimately show ?thesis using loop room(1) by (simp add: MNBASE64_ENCODE_BODY_def Let_def flip: k_def)
qed

end

subsection \<open>The text of a decoding\<close>

definition dec_quad :: "u8 list \<Rightarrow> u8 \<Rightarrow> u8 \<Rightarrow> u8 \<Rightarrow> u8 \<Rightarrow> loop_exit \<times> u8 list" where
  "dec_quad codes q0 q1 q2 q3 =
     (let k = (\<lambda>q. codes ! unat q);
          b0 = push_bit 2 (k q0) OR drop_bit 4 (k q1);
          b1 = push_bit 4 (k q1) OR drop_bit 2 (k q2);
          b2 = push_bit 6 (k q2) OR k q3
      in if list_ex (\<lambda>q. q AND 0x80 \<noteq> 0) [q0, q1, q2, q3] \<or> list_all (\<lambda>q. q AND 0xe0 = 0) [q0, q1, q2, q3]
         then (Fail, [])
         else if q0 = pad_char \<or> q1 = pad_char then (Break, [])
         else if q2 = pad_char then (Break, [b0])
         else if q3 = pad_char then (Break, [b0, b1])
         else (Next, [b0, b1, b2]))"

fun base64_bytes :: "u8 list \<Rightarrow> u8 list \<Rightarrow> bool \<times> u8 list" where
  "base64_bytes codes (q0 # q1 # q2 # q3 # r) =
     (case dec_quad codes q0 q1 q2 q3 of
        (Fail, bs) \<Rightarrow> (False, bs)
      | (Break, bs) \<Rightarrow> (True, bs)
      | (Next, bs) \<Rightarrow> (case base64_bytes codes r of (ok, bs') \<Rightarrow> (ok, bs @ bs')))"
| "base64_bytes codes _ = (True, [])"

lemma dec_quad_length: "dec_quad codes q0 q1 q2 q3 = (x, bs) \<Longrightarrow> length bs \<le> 3 \<and> (x = Next \<longrightarrow> length bs = 3)"
  by (auto simp: dec_quad_def Let_def split: if_splits)

lemma base64_bytes_length: "base64_bytes codes qs = (ok, bs) \<Longrightarrow> length bs \<le> 3 * (length qs div 4)"
proof (induction codes qs arbitrary: ok bs rule: base64_bytes.induct)
  case (1 codes q0 q1 q2 q3 r)
  have "length (q0 # q1 # q2 # q3 # r) div 4 = Suc (length r div 4)" by simp
  with 1 show ?case by (fastforce split: prod.splits loop_exit.splits dest: dec_quad_length)
qed simp_all

text \<open>
  The destination may be apart from what is still to be read of the source, or not behind it (as
  when decoding in place): then no read of a block sees a byte already overwritten.
\<close>

lemma high_bit_less: "(q::u8) AND 0x80 = 0 \<Longrightarrow> unat q < 128"
proof -
  assume "q AND 0x80 = 0"
  then have "\<not> bit q 7" using and_exp_eq_0_iff_not_bit [of q 7] by simp
  then have "\<not> bit (unat q) 7" by (simp add: bit_unsigned_iff)
  then have "even (unat q div 128)" by (simp add: bit_iff_odd)
  moreover have "unat q div 128 = 0 \<or> unat q div 128 = 1"
    using unsigned_less [where 'a = nat, of q] by (simp add: div_eq_0_iff) linarith
  ultimately show ?thesis by auto
qed

lemma decode_quad_put:
  assumes c: "length codes = 256"
    and b: "src + i * 4 + 3 < length m" "dst + i * 3 + 2 < length m" "n + 3 < 2 ^ 64"
    and apart: "dst + i * 3 \<le> src + i * 4 \<or> src + i * 4 + 4 \<le> dst + i * 3"
  shows "MNBASE64_DECODE_LOOP codes src dst i m n =
    (case dec_quad codes (m ! (src + i * 4)) (m ! (src + i * 4 + 1)) (m ! (src + i * 4 + 2)) (m ! (src + i * 4 + 3)) of
       (x, bs) \<Rightarrow> Some (x, put_bytes m (dst + i * 3) bs, n + length bs))"
proof -
  define S D where "S = src + i * 4" and "D = dst + i * 3"
  define q where "q j = m ! (S + j)" for j
  have b': "S + 3 < length m" "D + 2 < length m" and ne: "D \<noteq> S + 1" "D \<noteq> S + 2" "D \<noteq> S + 3" "D + 1 \<noteq> S + 2" "D + 1 \<noteq> S + 3"
    using b apart by (auto simp: S_def D_def)
  have peeks: "peek m S = Some (q 0)" "peek m (S + 1) = Some (q 1)" "peek m (S + 2) = Some (q 2)" "peek m (S + 3) = Some (q 3)"
    using b' by (simp_all add: q_def)
  let ?bad = "list_ex (\<lambda>q. q AND 0x80 \<noteq> 0) [q 0, q 1, q 2, q 3] \<or> list_all (\<lambda>q. q AND 0xe0 = 0) [q 0, q 1, q 2, q 3]"
  have "MNBASE64_DECODE_LOOP codes src dst i m n =
    (case dec_quad codes (q 0) (q 1) (q 2) (q 3) of (x, bs) \<Rightarrow> Some (x, put_bytes m D bs, n + length bs))"
  proof (cases ?bad)
    case True
    then show ?thesis
      unfolding MNBASE64_DECODE_LOOP_def dec_quad_def Let_def S_def [symmetric] peeks bind.bind_lunit by simp
  next
    case False
    then have "q j AND 0x80 = 0" if "j \<in> {0, 1, 2, 3}" for j using that by auto
    then have "unat (q j) < 256" if "j \<in> {0, 1, 2, 3}" for j using high_bit_less [of "q j"] that by fastforce
    then have codes: "peek codes (unat (q j)) = Some (codes ! unat (q j))" if "j \<in> {0, 1, 2, 3}" for j using that c by simp
    define b0 b1 b2 where "b0 = push_bit 2 (codes ! unat (q 0)) OR drop_bit 4 (codes ! unat (q 1))"
      and "b1 = push_bit 4 (codes ! unat (q 1)) OR drop_bit 2 (codes ! unat (q 2))"
      and "b2 = push_bit 6 (codes ! unat (q 2)) OR codes ! unat (q 3)"
    have after0: "peek (m[D := b0]) (S + 1) = Some (q 1)" "peek (m[D := b0]) (S + 2) = Some (q 2)"
      using b' ne by (simp_all add: q_def)
    have after1: "peek (m[D := b0, D + 1 := b1]) (S + 2) = Some (q 2)" "peek (m[D := b0, D + 1 := b1]) (S + 3) = Some (q 3)"
      using b' ne by (simp_all add: q_def)
    have pokes: "poke m D b0 = Some (m[D := b0])" "poke (m[D := b0]) (D + 1) b1 = Some (m[D := b0, D + 1 := b1])"
      "poke (m[D := b0, D + 1 := b1]) (D + 2) b2 = Some (m[D := b0, D + 1 := b1, D + 2 := b2])"
      using b' by simp_all
    have puts: "m[D := b0] = put_bytes m D [b0]" "m[D := b0, D + 1 := b1] = put_bytes m D [b0, b1]"
      "m[D := b0, D + 1 := b1, D + 2 := b2] = put_bytes m D [b0, b1, b2]"
      using b' updates_put_bytes(2,3) [of D m] by (simp_all add: put_bytes_single)
    have sz: "SZ (n + 1) = n + 1" "SZ (n + 2) = n + 2" "SZ (n + 3) = n + 3" using b by simp_all
    show ?thesis
      unfolding MNBASE64_DECODE_LOOP_def dec_quad_def Let_def
      unfolding S_def [symmetric] D_def [symmetric] peeks bind.bind_lunit
      using False
      by (simp only: if_False codes insertI1 insertI2 bind.bind_lunit b0_def [symmetric] b1_def [symmetric] b2_def [symmetric]
          pokes after0 after1 sz) (simp flip: puts)
  qed
  then show ?thesis by (simp add: q_def S_def D_def)
qed


lemma put_bytes_unchanged:
  assumes "p + length bs \<le> length m" "p + length bs \<le> k \<or> k + n \<le> p" "k + n \<le> length m"
  shows "take n (drop k (put_bytes m p bs)) = take n (drop k m)"
  using assms by (intro nth_equalityI) (auto simp: put_bytes_nth)

lemma take_Cons4:
  assumes "k + 4 * Suc n \<le> length m"
  shows "take (4 * Suc n) (drop k m)
    = m ! k # m ! (k + 1) # m ! (k + 2) # m ! (k + 3) # take (4 * n) (drop (k + 4) m)"
proof -
  have "drop k m = m ! k # m ! (k + 1) # m ! (k + 2) # m ! (k + 3) # drop (k + 4) m"
    using assms by (simp add: Cons_nth_drop_Suc numeral_2_eq_2 numeral_3_eq_3 eval_nat_numeral)
  then show ?thesis by (simp add: numeral_Bit0 eval_nat_numeral)
qed

lemma decode_loop_put:
  assumes c: "length codes = 256"
    and b: "src + 4 * k \<le> length m" "dst + 3 * k \<le> length m"
    and apart: "dst \<le> src \<or> src + 4 * k \<le> dst"
    and n: "n + 3 * (k - i) < 2 ^ 64" and i: "i \<le> k"
  shows "decode_loop codes src dst [i..<k] m n =
    (case base64_bytes codes (take (4 * (k - i)) (drop (src + 4 * i) m)) of
       (ok, bs) \<Rightarrow> Some (if ok then rc_ok else Rc (- 1), put_bytes m (dst + 3 * i) bs, n + length bs))"
  using b n i
proof (induction "k - i" arbitrary: i m n)
  case 0
  then show ?case by simp
next
  case (Suc l)
  then have i: "i < k" and l: "k - i = Suc l" "k - Suc i = l" by simp_all
  let ?q = "\<lambda>j. m ! (src + i * 4 + j)"
  obtain x bs where x: "dec_quad codes (?q 0) (?q 1) (?q 2) (?q 3) = (x, bs)" by fastforce
  have bs: "length bs \<le> 3" "x = Next \<Longrightarrow> length bs = 3" using dec_quad_length [OF x] by simp_all
  have room: "src + i * 4 + 3 < length m" "dst + i * 3 + 2 < length m" "n + 3 < 2 ^ 64"
    using Suc.prems i l by simp_all
  have step: "MNBASE64_DECODE_LOOP codes src dst i m n = Some (x, put_bytes m (dst + 3 * i) bs, n + length bs)"
    using decode_quad_put [OF c room] x apart i by (auto simp: add.assoc mult.commute)
  have quads: "take (4 * (k - i)) (drop (src + 4 * i) m)
      = ?q 0 # ?q 1 # ?q 2 # ?q 3 # take (4 * l) (drop (src + 4 * Suc i) m)"
    using take_Cons4 [of "src + 4 * i" l m] Suc.prems i l by (simp add: ac_simps)
  show ?case
  proof (cases x)
    case Next
    with bs have three: "length bs = 3" by simp
    let ?m = "put_bytes m (dst + 3 * i) bs"
    obtain ok bs' where r: "base64_bytes codes (take (4 * l) (drop (src + 4 * Suc i) m)) = (ok, bs')" by fastforce
    have "length bs' \<le> 3 * l" using base64_bytes_length [OF r] by simp
    have same: "take (4 * l) (drop (src + 4 * Suc i) ?m) = take (4 * l) (drop (src + 4 * Suc i) m)"
      using apart i l Suc.prems three by (intro put_bytes_unchanged) auto
    have "decode_loop codes src dst [Suc i..<k] ?m (n + 3) =
      (case base64_bytes codes (take (4 * (k - Suc i)) (drop (src + 4 * Suc i) ?m)) of
       (ok, bs) \<Rightarrow> Some (if ok then rc_ok else Rc (- 1), put_bytes ?m (dst + 3 * Suc i) bs, n + 3 + length bs))"
      using Suc.hyps(2) Suc.prems i l three by (intro Suc.hyps(1)) auto
    also have "\<dots> = Some (if ok then rc_ok else Rc (- 1), put_bytes m (dst + 3 * i) (bs @ bs'), n + length (bs @ bs'))"
    proof -
      have at: "dst + 3 * Suc i = dst + 3 * i + length bs" using three by simp
      have "put_bytes (put_bytes m (dst + 3 * i) bs) (dst + 3 * i + length bs) bs' = put_bytes m (dst + 3 * i) (bs @ bs')"
        using \<open>length bs' \<le> 3 * l\<close> Suc.prems i l three by (intro put_bytes_put_bytes) simp
      then show ?thesis unfolding l same r prod.case at by (simp add: three)
    qed
    finally show ?thesis
      unfolding quads using i x r Next by (simp add: upt_conv_Cons step three)
  qed (unfold quads, use i x in \<open>simp_all add: upt_conv_Cons step\<close>)
qed


text \<open>The whole decoder: what it returns, writes and counts.\<close>

lemma decode_body_put:
  assumes c: "length codes = 256"
    and len: "srcsz mod 4 = 0" "srcsz \<le> SZ ((dstsz div 3) * 4)"
    and room: "src + srcsz \<le> length mem" "dst + dstsz \<le> length mem" "length mem < 2 ^ 64"
    and apart: "dst \<le> src \<or> src + srcsz \<le> dst"
  shows "base64_decode_body codes mem src srcsz dst dstsz =
    (case base64_bytes codes (take srcsz (drop src mem)) of
       (ok, bs) \<Rightarrow> Some (if ok then rc_ok else Rc (- 1), put_bytes mem dst bs, length bs))"
proof -
  define k where "k = srcsz div 4"
  have s: "srcsz = 4 * k" using len(1) div_mult_mod_eq [of srcsz 4] by (simp add: k_def)
  have "SZ ((dstsz div 3) * 4) \<le> (dstsz div 3) * 4" by (simp add: SZ_def)
  then have "k \<le> dstsz div 3" using len(2) s by linarith
  then have d: "3 * k \<le> dstsz" by linarith
  have "decode_loop codes src dst [0..<k] mem 0 =
    (case base64_bytes codes (take (4 * (k - 0)) (drop (src + 4 * 0) mem)) of
       (ok, bs) \<Rightarrow> Some (if ok then rc_ok else Rc (- 1), put_bytes mem (dst + 3 * 0) bs, 0 + length bs))"
    using d s room apart by (intro decode_loop_put [OF c]) auto
  then show ?thesis using len by (simp add: base64_decode_body_def s)
qed

lemma decode_body_refuses:
  "srcsz mod 4 \<noteq> 0 \<or> SZ ((dstsz div 3) * 4) < srcsz \<Longrightarrow>
     base64_decode_body codes mem src srcsz dst dstsz = Some (Rc (- 1), mem, dstsz)"
  by (auto simp: base64_decode_body_def Let_def)

subsection \<open>Round trip\<close>

lemma all_bits_u8:
  "(\<And>n. n \<in> {0, 1, 2, 3, 4, 5, 6, 7} \<Longrightarrow> bit a n \<longleftrightarrow> bit b n) \<Longrightarrow> (a::u8) = b"
proof (rule bit_word_eqI)
  fix n assume "\<And>n. n \<in> {0, 1, 2, 3, 4, 5, 6, 7} \<Longrightarrow> bit a n \<longleftrightarrow> bit b n" "n < LENGTH(8)"
  moreover have "n \<in> {0, 1, 2, 3, 4, 5, 6, 7}" using \<open>n < LENGTH(8)\<close> by (simp, linarith)
  ultimately show "bit a n \<longleftrightarrow> bit b n" by blast
qed

lemma sextets:
  fixes x y z :: u8
  shows "push_bit 2 (drop_bit 2 x AND mask 6) OR drop_bit 4 ((push_bit 4 x OR drop_bit 4 y) AND mask 6) = x"
    and "push_bit 4 ((push_bit 4 x OR drop_bit 4 y) AND mask 6) OR drop_bit 2 ((push_bit 2 y OR drop_bit 6 z) AND mask 6) = y"
    and "push_bit 6 ((push_bit 2 y OR drop_bit 6 z) AND mask 6) OR (z AND mask 6) = z"
    and "push_bit 2 (drop_bit 2 x AND mask 6) OR drop_bit 4 (push_bit 4 x AND mask 6) = x"
    and "push_bit 4 ((push_bit 4 x OR drop_bit 4 y) AND mask 6) OR drop_bit 2 (push_bit 2 y AND mask 6) = y"
  by (rule all_bits_u8, auto simp: bit_simps simp flip: numeral_2_eq_2)+

lemma low_half: "unat (q::u8) < 128 \<Longrightarrow> q AND 0x80 = 0"
proof -
  assume "unat q < 128"
  then have "\<not> bit (unat q) 7" by (simp add: bit_iff_odd)
  then have "\<not> bit q 7" by (simp add: bit_unsigned_iff)
  then show ?thesis using and_exp_eq_0_iff_not_bit [of q 7] by simp
qed

lemma printable: "32 \<le> unat (q::u8) \<Longrightarrow> q AND 0xe0 \<noteq> 0"
proof
  assume le: "32 \<le> unat q" and z: "q AND 0xe0 = 0"
  have "bit (q AND 0xe0) 5 \<longleftrightarrow> bit q 5" "bit (q AND 0xe0) 6 \<longleftrightarrow> bit q 6" "bit (q AND 0xe0) 7 \<longleftrightarrow> bit q 7"
    by (simp_all add: bit_and_iff)
  then have "\<not> bit q 5" "\<not> bit q 6" "\<not> bit q 7" unfolding z by simp_all
  then have "take_bit 5 q = q" by (intro all_bits_u8) (auto simp: bit_take_bit_iff)
  then have "unat q = take_bit 5 (unat q)" by (metis unsigned_take_bit_eq)
  moreover have "take_bit 5 (unat q) < 32" using take_bit_nat_less_exp [of 5 "unat q"] by simp
  ultimately show False using le by simp
qed

context base64_tables
begin

lemma ascii_char: "(a ! unat (v::u8)) AND 0x80 = 0" "(a ! unat (v::u8)) AND 0xe0 \<noteq> 0" "a ! unat (v::u8) \<noteq> pad_char"
  using low_half [OF a_ascii] printable [OF a_printable] a_no_pad by simp_all

lemma dec_quad_text:
  assumes "lost \<notin> set (quad a x y z)"
  shows "dec_quad codes (a ! unat (drop_bit 2 x)) (a ! unat (push_bit 4 x OR drop_bit 4 y))
      (a ! unat (push_bit 2 y OR drop_bit 6 z)) (a ! unat z) = (Next, [x, y, z])"
proof -
  have k: "codes ! unat (a ! unat (drop_bit 2 x)) = (drop_bit 2 x) AND mask 6"
    "codes ! unat (a ! unat (push_bit 4 x OR drop_bit 4 y)) = (push_bit 4 x OR drop_bit 4 y) AND mask 6"
    "codes ! unat (a ! unat (push_bit 2 y OR drop_bit 6 z)) = (push_bit 2 y OR drop_bit 6 z) AND mask 6"
    "codes ! unat (a ! unat (z)) = (z) AND mask 6"
    using assms by (auto intro!: a_codes simp: quad_def)
  show ?thesis unfolding dec_quad_def Let_def k sextets by (simp add: ascii_char)
qed

lemma dec_quad_text2:
  assumes "lost \<notin> set (take 3 (quad a x y 0))"
  shows "dec_quad codes (a ! unat (drop_bit 2 x)) (a ! unat (push_bit 4 x OR drop_bit 4 y))
      (a ! unat (push_bit 2 y)) pad_char = (Break, [x, y])"
proof -
  have k: "codes ! unat (a ! unat (drop_bit 2 x)) = (drop_bit 2 x) AND mask 6"
    "codes ! unat (a ! unat (push_bit 4 x OR drop_bit 4 y)) = (push_bit 4 x OR drop_bit 4 y) AND mask 6"
    "codes ! unat (a ! unat (push_bit 2 y)) = (push_bit 2 y) AND mask 6"
    using assms by (auto intro!: a_codes simp: quad_def)
  have "pad_char AND 0x80 = 0" by (simp add: pad_char_def)
  then show ?thesis unfolding dec_quad_def Let_def k sextets by (simp add: ascii_char)
qed

lemma dec_quad_text1:
  assumes "lost \<notin> set (take 2 (quad a x 0 0))"
  shows "dec_quad codes (a ! unat (drop_bit 2 x)) (a ! unat (push_bit 4 x)) pad_char pad_char = (Break, [x])"
proof -
  have k: "codes ! unat (a ! unat (drop_bit 2 x)) = (drop_bit 2 x) AND mask 6"
    "codes ! unat (a ! unat (push_bit 4 x)) = (push_bit 4 x) AND mask 6"
    using assms by (auto intro!: a_codes simp: quad_def numeral_2_eq_2 [symmetric])
  have "pad_char AND 0x80 = 0" by (simp add: pad_char_def)
  then show ?thesis unfolding dec_quad_def Let_def k sextets by (simp add: ascii_char)
qed

lemma base64_bytes_text: "lost \<notin> set (base64_text a bs) \<Longrightarrow> base64_bytes codes (base64_text a bs) = (True, bs)"
proof (induction bs rule: measure_induct_rule [of length])
  case (less bs)
  consider "bs = []" | x where "bs = [x]" | x y where "bs = [x, y]" | x y z r where "bs = x # y # z # r"
    by (metis neq_Nil_conv)
  then show ?case
  proof cases
    case 2
    then show ?thesis using less.prems dec_quad_text1 [of x] by (auto simp: quad_def numeral_2_eq_2)
  next
    case 3
    then show ?thesis using less.prems dec_quad_text2 [of x y] by (auto simp: quad_def)
  next
    case 4
    then show ?thesis using less dec_quad_text [of x y z] by (auto simp: quad_def)
  qed simp
qed

end

context base64_tables
begin

lemma base64_text_printable: "c \<in> set (base64_text a bs) \<Longrightarrow> 32 \<le> unat c"
proof (induction bs rule: measure_induct_rule [of length])
  case (less bs)
  have pad: "32 \<le> unat pad_char" by (simp add: pad_char_def)
  consider "bs = []" | x where "bs = [x]" | x y where "bs = [x, y]" | x y z r where "bs = x # y # z # r"
    by (metis neq_Nil_conv)
  then show ?case
  proof cases
    case 4
    then show ?thesis using less.IH [of r] less.prems a_printable by (auto simp: quad_def)
  qed (use less.prems a_printable pad in \<open>auto simp: quad_def numeral_2_eq_2 numeral_3_eq_3\<close>)
qed

end

subsection \<open>Properties\<close>

text \<open>
  C33: With a destination of at least \<^verbatim>\<open>(srcsz / 3 + 1) * 4\<close> bytes both encoders return 0 and write
  exactly the base64 text of the \<open>srcsz\<close> source bytes, four characters for every three bytes begun,
  at the front of the destination, leaving the rest of it as it was.
\<close>

theorem base64_encode_writes:
  assumes "(srcsz div 3 + 1) * 4 \<le> dstsz" "dstsz \<le> length dst" "length dst < 2 ^ 64" "srcsz \<le> length src"
  shows "mnbase64_encode_mime src srcsz dst dstsz
        = Some (rc_ok, put_bytes dst 0 (base64_text alphabet_mime (take srcsz src)))
    \<and> mnbase64_encode_url_std src srcsz dst dstsz
        = Some (rc_ok, put_bytes dst 0 (base64_text alphabet_url_std (take srcsz src)))
    \<and> length (base64_text alphabet_mime (take srcsz src)) = (srcsz + 2) div 3 * 4
    \<and> length (base64_text alphabet_url_std (take srcsz src)) = (srcsz + 2) div 3 * 4"
  unfolding mnbase64_encode_mime_def mnbase64_encode_url_std_def
  using mime.encode_body_put [OF assms] url_std.encode_body_put [OF assms] assms(4)
  by (simp add: base64_text_length)

theorem base64_encode_writes_witness:
  "mnbase64_encode_mime [77, 110] 2 [0, 0, 0, 0, 9] 5 = Some (rc_ok, [84, 87, 52, 61, 9])"
  using base64_encode_writes [of 2 5 "[0, 0, 0, 0, 9]" "[77, 110]"]
  by (simp add: put_bytes_def quad_def alphabet_mime_def MN_BASE64_ALPHABET_def bytes_of_def pad_char_def)

text \<open>
  C34: For a source whose size is a multiple of 4 and at most \<^verbatim>\<open>dstsz / 3 * 4\<close> (any other size makes
  the code return -1 before it reads anything), decoding never faults and never writes outside of the destination, for
  any source bytes and also when source and destination are the same buffer or overlap with the destination in front: a
  decoder writes exactly the bytes that the source text read beforehand stands for, from the start
  of the destination, counts them in \<^verbatim>\<open>*dstsz\<close>, at most the size it was given, and then returns -1
  only if it meets a group with a byte above 127 or with four control characters.
\<close>

theorem base64_decode_safe:
  assumes "srcsz mod 4 = 0" "srcsz \<le> SZ ((dstsz div 3) * 4)"
    and "src + srcsz \<le> length mem" "dst + dstsz \<le> length mem" "length mem < 2 ^ 64"
    and "dst \<le> src \<or> src + srcsz \<le> dst"
    and codes: "(decode, codes) \<in> {(mnbase64_decode_mime, codes_mime), (mnbase64_decode_url_std, codes_url_std)}"
  shows "\<exists>ok bs. base64_bytes codes (take srcsz (drop src mem)) = (ok, bs) \<and> length bs \<le> dstsz
    \<and> decode mem src srcsz dst dstsz = Some (if ok then rc_ok else Rc (- 1), put_bytes mem dst bs, length bs)"
proof -
  obtain ok bs where b: "base64_bytes codes (take srcsz (drop src mem)) = (ok, bs)" by fastforce
  have "length codes = 256" using codes by (auto simp: alphabet_lengths)
  note d = decode_body_put [OF this assms(1-6)]
  have "length bs \<le> 3 * (srcsz div 4)" using base64_bytes_length [OF b] assms(3) by simp
  moreover have "SZ ((dstsz div 3) * 4) \<le> (dstsz div 3) * 4" by (simp add: SZ_def)
  ultimately have "length bs \<le> dstsz" using assms(1,2) by linarith
  moreover have "decode mem src srcsz dst dstsz = base64_decode_body codes mem src srcsz dst dstsz"
    using codes by (auto simp: mnbase64_decode_mime_def mnbase64_decode_url_std_def)
  ultimately show ?thesis using b d by simp
qed

theorem base64_decode_safe_witness:
  "\<exists>r mem n. mnbase64_decode_mime [84, 87, 52, 61] 0 4 0 4 = Some (r, mem, n) \<and> n \<le> 4"
  using base64_decode_safe [of 4 4 0 "[84, 87, 52, 61]" 0 mnbase64_decode_mime codes_mime] by auto

text \<open>
  C35: Decoding in place what an encoder wrote gives back the encoded bytes and their number. For
  the URL alphabet this holds for every text without the character \<open>-\<close>, which the URL decoder's
  table does not know.
\<close>

theorem base64_roundtrip:
  assumes room: "(length bs div 3 + 1) * 4 \<le> length dst" "length dst < 2 ^ 63"
    and enc: "(encode, decode, a) \<in> {(mnbase64_encode_mime, mnbase64_decode_mime_inplace, alphabet_mime),
         (mnbase64_encode_url_std, mnbase64_decode_url_std_inplace, alphabet_url_std)}"
    and lost: "a = alphabet_url_std \<Longrightarrow> 45 \<notin> set (base64_text a bs)"
  shows "\<exists>mem mem'. encode bs (length bs) dst (length dst) = Some (rc_ok, mem)
    \<and> decode mem 0 ((length bs + 2) div 3 * 4) = Some (rc_ok, mem', length bs)
    \<and> take (length bs) mem' = bs"
proof -
  let ?t = "base64_text a bs" and ?mem = "put_bytes dst 0 (base64_text a bs)"
  let ?n = "(length bs + 2) div 3 * 4"
  have t: "length ?t = ?n" by (simp add: base64_text_length)
  have n: "?n \<le> length dst" using room(1) div_add_self2 [of 3 "length bs"] div_le_mono [of "length bs + 2" "length bs + 3" 3] by simp
  have len: "length ?mem = length dst" using n t by simp
  have at_front: "take ?n (drop 0 ?mem) = ?t" using t by (simp add: put_bytes_def)
  have "?n \<le> SZ ((?n div 3) * 4)"
  proof -
    have "(?n div 3) * 3 \<le> ?n" by (rule div_times_less_eq_dividend)
    then have "(?n div 3) * 4 < 2 ^ 64" using n room(2) by simp
    moreover have "(length bs + 2) div 3 \<le> ?n div 3"
      using div_le_mono [of "(length bs + 2) div 3 * 3" ?n 3] by simp
    then have "?n \<le> (?n div 3) * 4" by simp
    ultimately show ?thesis by simp
  qed
  then have dec: "base64_decode_body codes ?mem 0 ?n 0 ?n = Some (rc_ok, put_bytes ?mem 0 bs, length bs)"
    if "length codes = 256" "base64_bytes codes ?t = (True, bs)" for codes
    using decode_body_put [OF that(1), of ?n ?n 0 ?mem 0] n room(2) unfolding at_front that(2) len by simp
  have "length bs \<le> length ?mem"
    using room(1) div_mult_mod_eq [of "length bs" 3] mod_less_divisor [of 3 "length bs"] unfolding len by simp
  then have take: "take (length bs) (put_bytes ?mem 0 bs) = bs" by (simp add: put_bytes_def)
  have "0 \<notin> set (base64_text alphabet_mime bs)" using mime.base64_text_printable [of 0 bs] by auto
  then have "base64_bytes codes_mime (base64_text alphabet_mime bs) = (True, bs)" by (rule mime.base64_bytes_text)
  moreover have "base64_bytes codes_url_std (base64_text alphabet_url_std bs) = (True, bs)" if "a = alphabet_url_std"
    using lost that by (intro url_std.base64_bytes_text) simp
  moreover have "encode bs (length bs) dst (length dst) = Some (rc_ok, ?mem)"
    using enc mime.encode_body_put [OF room(1), of dst bs] url_std.encode_body_put [OF room(1), of dst bs] room(2)
    by (auto simp: mnbase64_encode_mime_def mnbase64_encode_url_std_def)
  ultimately show ?thesis
    using enc dec [of codes_mime] dec [of codes_url_std] take
    by (auto simp: mnbase64_decode_mime_inplace_def mnbase64_decode_url_std_inplace_def
        mnbase64_decode_mime_def mnbase64_decode_url_std_def alphabet_lengths)
qed

theorem base64_roundtrip_witness:
  "\<exists>mem mem'. mnbase64_encode_mime [1, 2, 3, 255] 4 [0, 0, 0, 0, 0, 0, 0, 0] 8 = Some (rc_ok, mem)
    \<and> mnbase64_decode_mime_inplace mem 0 8 = Some (rc_ok, mem', 4) \<and> take 4 mem' = [1, 2, 3, 255]"
proof -
  have "alphabet_mime ! 62 = 43" "alphabet_url_std ! 62 = 45"
    by (simp_all add: alphabet_nth quarter_def nth_append)
  then have "alphabet_mime \<noteq> alphabet_url_std" by auto
  moreover have l: "length [1, 2, 3, 255 :: u8] = 4" "length [0, 0, 0, 0, 0, 0, 0, 0 :: u8] = 8" by simp_all
  ultimately show ?thesis
    using base64_roundtrip [of "[1, 2, 3, 255]" "[0, 0, 0, 0, 0, 0, 0, 0]" mnbase64_encode_mime
        mnbase64_decode_mime_inplace alphabet_mime] unfolding l by simp
qed

subsection \<open>What the model shows\<close>

text \<open>
  The URL decoder's table has 62 at \<open>+\<close> (line 63 of \<^verbatim>\<open>base64.c\<close>), which is not in its alphabet, and 0 at
  \<open>-\<close>: a text with \<open>-\<close> decodes to other bytes than were encoded, without an error.
\<close>

lemma base64_url_minus_lost:
  "mnbase64_encode_url_std [251] 1 [0, 0, 0, 0] 4 = Some (rc_ok, [45, 119, 61, 61])"
  "mnbase64_decode_url_std_inplace [45, 119, 61, 61] 0 4 = Some (rc_ok, [3, 119, 61, 61], 1)"
  by (simp_all add: mnbase64_encode_url_std_def MNBASE64_ENCODE_BODY_def encode1_def peek_def poke_def
      alphabet_lengths alphabet_nth quarter_def nth_append pad_char_def
      mnbase64_decode_url_std_inplace_def mnbase64_decode_url_std_def base64_decode_body_def
      MNBASE64_DECODE_LOOP_def codes_url_std_def upt_rec)

text \<open>A group with one printable and three control characters passes the check of line 230.\<close>

lemma base64_decode_accepts_controls:
  "mnbase64_decode_mime_inplace [65, 1, 1, 1] 0 4 = Some (rc_ok, [0, 0, 0, 1], 3)"
  by (simp add: mnbase64_decode_mime_inplace_def mnbase64_decode_mime_def base64_decode_body_def
      MNBASE64_DECODE_LOOP_def peek_def poke_def pad_char_def codes_mime_def upt_rec)

end
