(* ===== verification/Mn_Bytes.thy ===== *)
theory Mn_Bytes
  imports Mn_Hashfn Mn_Base64 Hash_Refine
begin

text \<open>
  \<^verbatim>\<open>src/src/bytes.c\<close>: reference-counted byte strings. A \<^verbatim>\<open>mnbytes_t\<close> is a record with the bytes of
  its flexible array, which is longer than \<^verbatim>\<open>sz\<close> (the allocation is rounded up); a read or write
  outside of that array is a fault. A C string is a list of bytes read up to its first zero byte.
  The allocator of a constructor is an argument, \<^verbatim>\<open>malloc\<close> or a pool's.

  Not modelled: the two wrappers of \<^verbatim>\<open>vsnprintf\<close>, the comparisons by \<^verbatim>\<open>strncmp\<close>/\<^verbatim>\<open>strncasecmp\<close> and
  \<^verbatim>\<open>strcasestr\<close>.
\<close>

unbundle bit_operations_syntax

record mnbytes =
  nref :: int
  bsz :: nat
  bhash :: u64
  bdata :: "u8 list"

subsection \<open>C strings and blocks of memory\<close>

definition cstr :: "u8 list \<Rightarrow> u8 list option" where
  "cstr d = (if 0 \<in> set d then Some (takeWhile (\<lambda>c. c \<noteq> 0) d) else None)"

definition memcpy_to :: "u8 list \<Rightarrow> nat \<Rightarrow> u8 list \<Rightarrow> nat \<Rightarrow> nat \<Rightarrow> u8 list option" where
  "memcpy_to dst p src q n =
     (if p + n \<le> length dst \<and> q + n \<le> length src then Some (put_bytes dst p (take n (drop q src))) else None)"

definition strstr :: "u8 list \<Rightarrow> u8 list \<Rightarrow> nat option" where
  "strstr big little = find (\<lambda>i. take (length little) (drop i big) = little) [0..<Suc (length big)]"

partial_function (option) strrstr_loop ::
  "u8 list \<Rightarrow> u8 list \<Rightarrow> nat \<Rightarrow> nat option \<Rightarrow> nat option option" where
  "strrstr_loop big little p res =
     (case strstr (drop p big) little of
        None \<Rightarrow> Some res
      | Some k \<Rightarrow> if p + length little \<le> length big then strrstr_loop big little (p + length little) (Some (p + k)) else None)"

definition strrstr :: "u8 list \<Rightarrow> u8 list \<Rightarrow> nat option option" where
  "strrstr big little =
     (if little = [] then Some (Some (length big)) else strrstr_loop big little 0 None)"

subsection \<open>Constructors\<close>

definition bytes_msz :: "nat \<Rightarrow> nat" where
  "bytes_msz sz = (let m = sz mod 8 in SZ (sz + (if m \<noteq> 0 then 8 - m else 8)))"

definition bytes_alloc :: "u8 alloc \<Rightarrow> nat \<Rightarrow> u8 list option" where
  "bytes_alloc malloc sz = map_option (drop 24) (malloc (SZ (24 + bytes_msz sz)))"

definition bytes_new :: "u8 alloc \<Rightarrow> nat \<Rightarrow> mnbytes option" where
  "bytes_new malloc sz = do {
     guard (sz > 0);
     d \<leftarrow> bytes_alloc malloc sz;
     Some \<lparr>nref = 0, bsz = sz, bhash = 0, bdata = d\<rparr>
   }"

definition bytes_new_from_str :: "u8 alloc \<Rightarrow> u8 list \<Rightarrow> mnbytes option" where
  "bytes_new_from_str malloc s = do {
     str \<leftarrow> cstr s;
     let sz = length str + 1;
     d \<leftarrow> bytes_alloc malloc sz;
     d \<leftarrow> memcpy_to d 0 s 0 sz;
     Some \<lparr>nref = 0, bsz = sz, bhash = 0, bdata = d\<rparr>
   }"

definition bytes_new_from_bytes :: "u8 alloc \<Rightarrow> mnbytes \<Rightarrow> mnbytes option" where
  "bytes_new_from_bytes malloc s = do {
     guard (bsz s > 0);
     d \<leftarrow> bytes_alloc malloc (bsz s);
     d \<leftarrow> memcpy_to d 0 (bdata s) 0 (bsz s);
     Some \<lparr>nref = 0, bsz = bsz s, bhash = 0, bdata = d\<rparr>
   }"

text \<open>The body after \<open>__a0\<close>, which is \<^verbatim>\<open>++sz\<close> or empty.\<close>

definition bytes_from_str_len_body :: "u8 alloc \<Rightarrow> u8 list \<Rightarrow> nat \<Rightarrow> mnbytes option" where
  "bytes_from_str_len_body malloc s sz = do {
     d \<leftarrow> bytes_alloc malloc sz;
     d \<leftarrow> memcpy_to d 0 s 0 sz;
     d \<leftarrow> poke d (SZ (sz + 2 ^ 64 - 1)) 0;
     Some \<lparr>nref = 0, bsz = sz, bhash = 0, bdata = d\<rparr>
   }"

definition bytes_new_from_str_len :: "u8 alloc \<Rightarrow> u8 list \<Rightarrow> nat \<Rightarrow> mnbytes option" where
  "bytes_new_from_str_len malloc s sz = bytes_from_str_len_body malloc s (SZ (sz + 1))"

definition bytes_new_from_buf_len :: "u8 alloc \<Rightarrow> u8 list \<Rightarrow> nat \<Rightarrow> mnbytes option" where
  "bytes_new_from_buf_len malloc s sz = bytes_from_str_len_body malloc s sz"

definition bytes_new_from_mem_len :: "u8 alloc \<Rightarrow> u8 list \<Rightarrow> nat \<Rightarrow> mnbytes option" where
  "bytes_new_from_mem_len malloc s sz = do {
     d \<leftarrow> bytes_alloc malloc sz;
     d \<leftarrow> memcpy_to d 0 s 0 sz;
     Some \<lparr>nref = 0, bsz = sz, bhash = 0, bdata = d\<rparr>
   }"

definition bytes_memset :: "mnbytes \<Rightarrow> u8 \<Rightarrow> mnbytes option" where
  "bytes_memset s c = do {
     d \<leftarrow> memcpy_to (bdata s) 0 (replicate (bsz s) c) 0 (bsz s);
     Some (s\<lparr>bhash := 0, bdata := d\<rparr>)
   }"

definition bytes_memsetz :: "mnbytes \<Rightarrow> u8 \<Rightarrow> mnbytes option" where
  "bytes_memsetz s c = do {
     let n = SZ (bsz s + 2 ^ 64 - 1);
     d \<leftarrow> memcpy_to (bdata s) 0 (replicate n c) 0 n;
     d \<leftarrow> poke d n 0;
     Some (s\<lparr>bhash := 0, bdata := d\<rparr>)
   }"

text \<open>
  \<^verbatim>\<open>BYTES_DECREF\<close> sets the caller's pointer to NULL, whether or not the object is freed; the
  result is the object if it is still allocated.
\<close>

definition bytes_incref :: "mnbytes \<Rightarrow> mnbytes" where
  "bytes_incref b = b\<lparr>nref := nref b + 1\<rparr>"

definition bytes_decref_fast :: "mnbytes \<Rightarrow> mnbytes option" where
  "bytes_decref_fast b = (let b' = b\<lparr>nref := nref b - 1\<rparr> in if nref b' \<le> 0 then None else Some b')"

definition bytes_decref :: "mnbytes option \<Rightarrow> mnbytes option" where
  "bytes_decref p = (case p of None \<Rightarrow> None | Some b \<Rightarrow> bytes_decref_fast b)"

subsection \<open>Predicates and comparison\<close>

fun startswith_loop :: "u8 list \<Rightarrow> u8 list \<Rightarrow> nat list \<Rightarrow> bool option" where
  "startswith_loop big small [] = Some True"
| "startswith_loop big small (i # is) = do {
     c \<leftarrow> peek small i;
     if c = 0 then Some True
     else do { b \<leftarrow> peek big i; if b \<noteq> c then Some False else startswith_loop big small is }
   }"

definition bytes_startswith :: "mnbytes \<Rightarrow> mnbytes \<Rightarrow> bool option" where
  "bytes_startswith big small =
     (if bsz big \<ge> bsz small then startswith_loop (bdata big) (bdata small) [0..<bsz small] else Some False)"

fun endswith_loop :: "u8 list \<Rightarrow> u8 list \<Rightarrow> nat \<Rightarrow> nat list \<Rightarrow> bool option" where
  "endswith_loop big small k [] = Some True"
| "endswith_loop big small k (i # is) = do {
     b \<leftarrow> peek big (i + k); c \<leftarrow> peek small i;
     if b \<noteq> c then Some False else endswith_loop big small k is
   }"

definition bytes_endswith :: "mnbytes \<Rightarrow> mnbytes \<Rightarrow> bool option" where
  "bytes_endswith big small =
     (if bsz big \<ge> bsz small
      then endswith_loop (bdata big) (bdata small) (bsz big - bsz small) (rev [0..<bsz small - 1])
      else Some False)"

definition bytes_is_null_or_empty :: "mnbytes option \<Rightarrow> bool option" where
  "bytes_is_null_or_empty p =
     (case p of
        None \<Rightarrow> Some True
      | Some s \<Rightarrow> if bsz s = 1 then do { c \<leftarrow> peek (bdata s) 0; Some (c = 0) } else Some (bsz s = 0))"

fun ascii_words :: "u8 list \<Rightarrow> nat list \<Rightarrow> bool option" where
  "ascii_words d [] = Some True"
| "ascii_words d (i # is) =
     (if i + 8 \<le> length d
      then if le_word (take 8 (drop i d)) AND 0x8080808080808080 \<noteq> 0 then Some False else ascii_words d is
      else None)"

fun ascii_tail :: "u8 list \<Rightarrow> nat list \<Rightarrow> bool option" where
  "ascii_tail d [] = Some True"
| "ascii_tail d (i # is) =
     do { c \<leftarrow> peek d i; if c AND 0x80 \<noteq> 0 then Some False else ascii_tail d is }"

definition bytes_is_ascii :: "mnbytes \<Rightarrow> bool option" where
  "bytes_is_ascii s = do {
     let m = bsz s mod 8;
     let sz = bsz s - m;
     w \<leftarrow> ascii_words (bdata s) (map (\<lambda>k. 8 * k) [0..<sz div 8]);
     if w then ascii_tail (bdata s) (map (\<lambda>k. sz + k) (rev [0..<m])) else Some False
   }"

text \<open>Computing the hash caches it in the object.\<close>

definition bytes_hash :: "mnbytes \<Rightarrow> (u64 \<times> mnbytes) option" where
  "bytes_hash b =
     (if bhash b = 0 then do {
        guard (bsz b \<le> length (bdata b));
        let h = fasthash 0 (take (bsz b) (bdata b));
        Some (h, b\<lparr>bhash := h\<rparr>)
      } else Some (bhash b, b))"

text \<open>Only the sign of the result of \<^verbatim>\<open>memcmp\<close> is specified: the sign of the first difference.\<close>

fun memcmp :: "u8 list \<Rightarrow> u8 list \<Rightarrow> int" where
  "memcmp (x # xs) (y # ys) = (if x < y then -1 else if y < x then 1 else memcmp xs ys)"
| "memcmp _ _ = 0"

definition bytes_cmp :: "mnbytes \<Rightarrow> mnbytes \<Rightarrow> (int \<times> mnbytes \<times> mnbytes) option" where
  "bytes_cmp a b = do {
     (ha, a) \<leftarrow> bytes_hash a;
     (hb, b) \<leftarrow> bytes_hash b;
     let diff = sint (ha - hb);
     if diff = 0 then do {
       let diff = sint (word_of_nat (bsz a) - word_of_nat (bsz b) :: u64);
       if diff = 0 then do {
         guard (bsz a \<le> length (bdata a) \<and> bsz a \<le> length (bdata b));
         Some (memcmp (take (bsz a) (bdata a)) (take (bsz a) (bdata b)), a, b)
       } else Some (if diff > 0 then 1 else -1, a, b)
     } else Some (if diff > 0 then 1 else -1, a, b)
   }"

definition bytes_cmp_safe ::
  "mnbytes option \<Rightarrow> mnbytes option \<Rightarrow> (int \<times> mnbytes option \<times> mnbytes option) option" where
  "bytes_cmp_safe a b =
     (case (a, b) of
        (None, None) \<Rightarrow> Some (0, a, b)
      | (None, Some _) \<Rightarrow> Some (- 1, a, b)
      | (Some _, None) \<Rightarrow> Some (1, a, b)
      | (Some x, Some y) \<Rightarrow> do { (r, x, y) \<leftarrow> bytes_cmp x y; Some (r, Some x, Some y) })"

definition bytes_contains :: "mnbytes \<Rightarrow> mnbytes \<Rightarrow> bool option" where
  "bytes_contains a b = do {
     x \<leftarrow> peek (bdata a) (SZ (bsz a + 2 ^ 64 - 1));
     if x \<noteq> 0 then Some False
     else do {
       y \<leftarrow> peek (bdata b) (SZ (bsz b + 2 ^ 64 - 1));
       if y \<noteq> 0 then Some False
       else do {
         big \<leftarrow> cstr (bdata a);
         little \<leftarrow> cstr (bdata b);
         Some (strstr big little \<noteq> None)
       }
     }
   }"

subsection \<open>Changing the bytes\<close>

fun tr_byte :: "u8 list \<Rightarrow> u8 list \<Rightarrow> nat list \<Rightarrow> u8 \<Rightarrow> u8 option" where
  "tr_byte from to [] c = Some c"
| "tr_byte from to (j # js) c = do {
     f \<leftarrow> peek from j;
     c \<leftarrow> (if c = f then peek to j else Some c);
     tr_byte from to js c
   }"

fun each_byte :: "(u8 \<Rightarrow> u8 option) \<Rightarrow> nat list \<Rightarrow> u8 list \<Rightarrow> u8 list option" where
  "each_byte f [] d = Some d"
| "each_byte f (i # is) d = do { c \<leftarrow> peek d i; c \<leftarrow> f c; d \<leftarrow> poke d i c; each_byte f is d }"

definition bytes_tr :: "mnbytes \<Rightarrow> u8 list \<Rightarrow> u8 list \<Rightarrow> nat \<Rightarrow> mnbytes option" where
  "bytes_tr s from to sz = do {
     d \<leftarrow> each_byte (tr_byte from to [0..<sz]) [0..<bsz s] (bdata s);
     Some (s\<lparr>bhash := 0, bdata := d\<rparr>)
   }"

text \<open>\<^verbatim>\<open>tolower\<close> and \<^verbatim>\<open>toupper\<close> in the C locale.\<close>

definition tolower :: "u8 \<Rightarrow> u8" where
  "tolower c = (if 65 \<le> c \<and> c \<le> 90 then c + 32 else c)"

definition toupper :: "u8 \<Rightarrow> u8" where
  "toupper c = (if 97 \<le> c \<and> c \<le> 122 then c - 32 else c)"

definition bytes_set_lower :: "mnbytes \<Rightarrow> mnbytes option" where
  "bytes_set_lower s = do {
     d \<leftarrow> each_byte (\<lambda>c. Some (tolower c)) (rev [0..<bsz s]) (bdata s);
     Some (s\<lparr>bhash := 0, bdata := d\<rparr>)
   }"

definition bytes_set_upper :: "mnbytes \<Rightarrow> mnbytes option" where
  "bytes_set_upper s = do {
     d \<leftarrow> each_byte (\<lambda>c. Some (toupper c)) (rev [0..<bsz s]) (bdata s);
     Some (s\<lparr>bhash := 0, bdata := d\<rparr>)
   }"

definition bytes_copy :: "mnbytes \<Rightarrow> mnbytes \<Rightarrow> nat \<Rightarrow> mnbytes option" where
  "bytes_copy dst src off = do {
     guard (SZ (off + bsz src) \<le> bsz dst);
     d \<leftarrow> memcpy_to (bdata dst) off (bdata src) 0 (bsz src);
     Some (dst\<lparr>bdata := d\<rparr>)
   }"

definition bytes_copyz :: "mnbytes \<Rightarrow> mnbytes \<Rightarrow> nat \<Rightarrow> mnbytes option" where
  "bytes_copyz dst src off = do {
     guard (SZ (off + bsz src + 2 ^ 64 - 1) \<le> bsz dst);
     d \<leftarrow> memcpy_to (bdata dst) off (bdata src) 0 (SZ (bsz src + 2 ^ 64 - 1));
     d \<leftarrow> poke d (SZ (off + bsz src + 2 ^ 64 - 1)) 0;
     Some (dst\<lparr>bdata := d\<rparr>)
   }"

subsection \<open>A word test for eight bytes\<close>

lemma le_nat_Cons_or: "le_nat (b # bs) = unat b OR push_bit 8 (le_nat bs)"
proof -
  have "unat b AND push_bit 8 (le_nat bs) = 0"
    by (rule bit_eqI) (auto simp: bit_simps dest: bit_imp_le_length)
  then show ?thesis by (simp add: disjunctive_add_eq_or push_bit_eq_mult mult.commute)
qed

lemma bit_le_nat:
  "bit (le_nat bs) n \<longleftrightarrow> n div 8 < length bs \<and> bit (bs ! (n div 8)) (n mod 8)"
proof (induction bs arbitrary: n)
  case (Cons b bs)
  show ?case
  proof (cases "n < 8")
    case True
    then show ?thesis unfolding le_nat_Cons_or by (simp add: bit_simps)
  next
    case False
    then obtain m where m: "n = m + 8" by (metis add.commute le_Suc_ex not_less)
    have "\<not> bit b n" using False by (auto dest: bit_imp_le_length)
    moreover have "(m + 8) div 8 = Suc (m div 8)" "(m + 8) mod 8 = m mod 8" by simp_all
    ultimately show ?thesis unfolding le_nat_Cons_or m using Cons.IH [of m] by (simp add: bit_simps)
  qed
qed simp

lemma bit_le_word:
  "bit (le_word bs) n \<longleftrightarrow> n < 64 \<and> n div 8 < length bs \<and> bit (bs ! (n div 8)) (n mod 8)"
  by (auto simp: le_word_def bit_simps bit_le_nat)

lemma high_bits_word: "0x8080808080808080 = le_word (replicate 8 0x80)"
proof -
  have "replicate 8 (0x80::u8) = [0x80, 0x80, 0x80, 0x80, 0x80, 0x80, 0x80, 0x80]" by (simp add: numeral_eq_Suc)
  then show ?thesis by (simp only:) (simp add: le_word_def)
qed

lemma and_exp7: "(c::u8) AND 0x80 = 0 \<longleftrightarrow> \<not> bit c 7"
  using and_exp_eq_0_iff_not_bit [of c 7] by simp

lemma word_all_ascii:
  assumes "length bs = 8"
  shows "le_word bs AND 0x8080808080808080 = 0 \<longleftrightarrow> (\<forall>c \<in> set bs. c AND 0x80 = 0)"
proof -
  have c: "bit (0x8080808080808080 :: u64) n \<longleftrightarrow> n < 64 \<and> n mod 8 = 7" for n
  proof -
    have "bit (0x80 :: u8) m \<longleftrightarrow> m = 7" if "m < 8" for m
      using that by (auto simp: bit_simps less_Suc_eq numeral_eq_Suc)
    then show ?thesis unfolding high_bits_word bit_le_word by auto
  qed
  have "le_word bs AND 0x8080808080808080 = 0 \<longleftrightarrow> (\<forall>n < 64. n mod 8 = 7 \<longrightarrow> \<not> bit (le_word bs) n)"
    unfolding bit_eq_iff [of "le_word bs AND 0x8080808080808080"] bit_and_iff c by auto
  also have "\<dots> \<longleftrightarrow> (\<forall>k < 8. \<not> bit (bs ! k) 7)"
  proof safe
    fix k :: nat assume "\<forall>n < 64. n mod 8 = 7 \<longrightarrow> \<not> bit (le_word bs) n" "k < 8" "bit (bs ! k) 7"
    then show False using assms by (auto simp: bit_le_word dest!: spec [of _ "8 * k + 7"])
  next
    fix n :: nat assume "\<forall>k < 8. \<not> bit (bs ! k) 7" "n < 64" "n mod 8 = 7" "bit (le_word bs) n"
    then show False using assms by (auto simp: bit_le_word)
  qed
  finally show ?thesis using assms by (simp add: and_exp7 all_set_conv_all_nth)
qed

definition bytes_wf :: "mnbytes \<Rightarrow> bool" where
  "bytes_wf b \<longleftrightarrow> bsz b < length (bdata b) \<and> length (bdata b) < 2 ^ 63"

abbreviation content :: "mnbytes \<Rightarrow> u8 list" where
  "content b \<equiv> take (bsz b) (bdata b)"

lemma ascii_iff: "(c::u8) AND 0x80 = 0 \<longleftrightarrow> c < 128"
  using high_bit_less [of c] low_half [of c] by (auto simp: word_less_nat_alt)

lemma ascii_words_all:
  "\<forall>i \<in> set is. i + 8 \<le> length d \<Longrightarrow>
     ascii_words d is = Some (\<forall>i \<in> set is. \<forall>c \<in> set (take 8 (drop i d)). c < 128)"
  by (induction "is") (auto simp: word_all_ascii ascii_iff)

lemma ascii_tail_all:
  "\<forall>i \<in> set is. i < length d \<Longrightarrow> ascii_tail d is = Some (\<forall>i \<in> set is. d ! i < 128)"
  by (induction "is") (auto simp: ascii_iff)

lemma all_shift: "(\<forall>k < m. P (w + k)) \<longleftrightarrow> (\<forall>j. w \<le> j \<and> j < w + m \<longrightarrow> P j)" for w m :: nat
proof safe
  fix j assume "\<forall>k < m. P (w + k)" "w \<le> j" "j < w + m"
  then show "P j" by (metis le_add_diff_inverse nat_add_left_cancel_less)
qed simp

text \<open>
  C36: The word-at-a-time test for ASCII is the test of every byte: \<^verbatim>\<open>bytes_is_ascii\<close> is true exactly
  if each of the \<open>sz\<close> bytes is below 128, however long the string is and whatever the bytes after it.
\<close>

theorem bytes_is_ascii_all:
  assumes "bytes_wf s"
  shows "bytes_is_ascii s = Some (\<forall>c \<in> set (content s). c < 128)"
proof -
  let ?n = "bsz s" and ?d = "bdata s"
  let ?w = "?n - ?n mod 8"
  have w: "?w = 8 * (?n div 8)" by (simp add: minus_mod_eq_mult_div)
  have len: "?n < length ?d" using assms by (simp add: bytes_wf_def)
  have words: "ascii_words ?d (map (\<lambda>k. 8 * k) [0..<?w div 8])
      = Some (\<forall>k < ?n div 8. \<forall>c \<in> set (take 8 (drop (8 * k) ?d)). c < 128)"
  proof -
    have "8 * k + 8 \<le> length ?d" if "k < ?n div 8" for k
      using that len div_times_less_eq_dividend [of ?n 8] by linarith
    then show ?thesis by (subst ascii_words_all) (auto simp: w)
  qed
  have block: "(\<forall>c \<in> set (take 8 (drop (8 * k) ?d)). c < 128) \<longleftrightarrow> (\<forall>j. 8 * k \<le> j \<and> j < 8 * k + 8 \<longrightarrow> ?d ! j < 128)"
    if "k < ?n div 8" for k
  proof -
    have "8 * k + 8 \<le> length ?d" using that len div_times_less_eq_dividend [of ?n 8] by linarith
    then have "(\<forall>c \<in> set (take 8 (drop (8 * k) ?d)). c < 128) \<longleftrightarrow> (\<forall>i < 8. ?d ! (8 * k + i) < 128)"
      by (simp add: all_set_conv_all_nth)
    then show ?thesis using all_shift [of 8 "\<lambda>j. ?d ! j < 128" "8 * k"] by simp
  qed
  have tail: "ascii_tail ?d (map (\<lambda>k. ?w + k) (rev [0..<?n mod 8])) = Some (\<forall>j. ?w \<le> j \<and> j < ?n \<longrightarrow> ?d ! j < 128)"
  proof -
    have "?w + k < ?n" if "k < ?n mod 8" for k using that w div_mult_mod_eq [of ?n 8] by linarith
    then have "ascii_tail ?d (map (\<lambda>k. ?w + k) (rev [0..<?n mod 8])) = Some (\<forall>k < ?n mod 8. ?d ! (?w + k) < 128)"
      using len by (subst ascii_tail_all) (auto intro: less_trans)
    moreover have "?w + ?n mod 8 = ?n" by simp
    ultimately show ?thesis using all_shift [of "?n mod 8" "\<lambda>j. ?d ! j < 128" ?w] by simp
  qed
  have all: "(\<forall>k < ?n div 8. \<forall>j. 8 * k \<le> j \<and> j < 8 * k + 8 \<longrightarrow> ?d ! j < 128) \<longleftrightarrow> (\<forall>j < ?w. ?d ! j < 128)"
  proof safe
    fix j assume a: "\<forall>k < ?n div 8. \<forall>j. 8 * k \<le> j \<and> j < 8 * k + 8 \<longrightarrow> ?d ! j < 128" and j: "j < ?w"
    have "j div 8 < ?n div 8" "8 * (j div 8) \<le> j" "j < 8 * (j div 8) + 8"
      using j w div_mult_mod_eq [of j 8] mod_less_divisor [of 8 j] by linarith+
    with a show "?d ! j < 128" by blast
  next
    fix k j assume "\<forall>j < ?w. ?d ! j < 128" "k < ?n div 8" "j < 8 * k + 8"
    then show "?d ! j < 128" unfolding w by simp
  qed
  have "bytes_is_ascii s = Some ((\<forall>j < ?w. ?d ! j < 128) \<and> (\<forall>j. ?w \<le> j \<and> j < ?n \<longrightarrow> ?d ! j < 128))"
    unfolding bytes_is_ascii_def Let_def words bind.bind_lunit tail using block all by simp
  also have "((\<forall>j < ?w. ?d ! j < 128) \<and> (\<forall>j. ?w \<le> j \<and> j < ?n \<longrightarrow> ?d ! j < 128)) \<longleftrightarrow> (\<forall>j < ?n. ?d ! j < 128)"
    by (meson diff_le_self less_le_trans not_less)
  also have "\<dots> \<longleftrightarrow> (\<forall>c \<in> set (content s). c < 128)"
    using len by (auto simp: all_set_conv_all_nth)
  finally show ?thesis .
qed

theorem bytes_is_ascii_all_witness:
  "bytes_is_ascii \<lparr>nref = 1, bsz = 9, bhash = 0, bdata = [97, 97, 97, 97, 97, 97, 97, 97, 200, 0]\<rparr> = Some False"
  using bytes_is_ascii_all [of "\<lparr>nref = 1, bsz = 9, bhash = 0, bdata = [97, 97, 97, 97, 97, 97, 97, 97, 200, 0]\<rparr>"]
  by (simp add: bytes_wf_def)

subsection \<open>Comparison\<close>

text \<open>The cached hash is absent or that of the bytes.\<close>

definition cached :: "mnbytes \<Rightarrow> bool" where
  "cached b \<longleftrightarrow> bhash b = 0 \<or> bhash b = fasthash 0 (content b)"

text \<open>What \<^verbatim>\<open>bytes_cmp\<close> makes of the bytes of its arguments.\<close>

definition bytes_key_cmp :: "u8 list \<Rightarrow> u8 list \<Rightarrow> int" where
  "bytes_key_cmp xs ys =
     (let d = sint (fasthash 0 xs - fasthash 0 ys) in
      if d \<noteq> 0 then (if d > 0 then 1 else -1)
      else if length xs \<noteq> length ys then (if length xs > length ys then 1 else -1)
      else memcmp xs ys)"

lemma memcmp_zero: "length xs = length ys \<Longrightarrow> memcmp xs ys = 0 \<longleftrightarrow> xs = ys"
  by (induction xs ys rule: list_induct2) auto

lemma bytes_key_cmp_zero: "bytes_key_cmp xs ys = 0 \<longleftrightarrow> xs = ys"
  using memcmp_zero [of xs ys] by (auto simp: bytes_key_cmp_def Let_def)

text \<open>Byte strings are keys of the hash table, by \<^verbatim>\<open>bytes_hash\<close> and \<^verbatim>\<open>bytes_cmp\<close>.\<close>

interpretation bytes_key: hash_key "fasthash 0" bytes_key_cmp
  by unfold_locales (simp_all add: bytes_key_cmp_zero)

lemma bytes_hash_cached:
  "bytes_wf b \<Longrightarrow> cached b \<Longrightarrow> bytes_hash b = Some (fasthash 0 (content b), b\<lparr>bhash := fasthash 0 (content b)\<rparr>)"
  by (auto simp: bytes_hash_def bytes_wf_def cached_def Let_def)

lemma size_diff:
  assumes "m < 2 ^ 63" "n < 2 ^ 63"
  shows "sint (word_of_nat m - word_of_nat n :: u64) = int m - int n"
proof -
  have "word_of_nat m - word_of_nat n = (word_of_int (int m - int n) :: u64)" by simp
  moreover have "signed_take_bit (LENGTH(64) - Suc 0) (int m - int n) = int m - int n"
    using assms by (intro signed_take_bit_int_eq_self) simp_all
  ultimately show ?thesis by (simp only: signed_of_int) simp
qed

lemma bytes_cmp_key:
  assumes "bytes_wf a" "bytes_wf b" "cached a" "cached b"
  shows "bytes_cmp a b = Some (bytes_key_cmp (content a) (content b),
     a\<lparr>bhash := fasthash 0 (content a)\<rparr>, b\<lparr>bhash := fasthash 0 (content b)\<rparr>)"
proof -
  have len: "length (content a) = bsz a" "length (content b) = bsz b" "bsz a < 2 ^ 63" "bsz b < 2 ^ 63"
    using assms(1,2) by (simp_all add: bytes_wf_def)
  then show ?thesis
    using assms by (auto simp: bytes_cmp_def bytes_hash_cached bytes_key_cmp_def Let_def size_diff) (auto simp: bytes_wf_def)
qed

text \<open>
  \<^verbatim>\<open>bytes_cmp\<close> is 0 exactly if the two strings hold the same bytes, provided their cached hashes
  are absent or right; it caches both hashes and changes nothing else.
\<close>

theorem bytes_cmp_equality:
  assumes "bytes_wf a" "bytes_wf b" "cached a" "cached b"
  shows "\<exists>r. bytes_cmp a b = Some (r, a\<lparr>bhash := fasthash 0 (content a)\<rparr>, b\<lparr>bhash := fasthash 0 (content b)\<rparr>)
    \<and> (r = 0 \<longleftrightarrow> content a = content b)"
  using bytes_cmp_key [OF assms] bytes_key_cmp_zero by blast

theorem bytes_cmp_equality_witness:
  "\<exists>r a b. bytes_cmp \<lparr>nref = 1, bsz = 1, bhash = 0, bdata = [97, 5]\<rparr> \<lparr>nref = 1, bsz = 1, bhash = 0, bdata = [97, 6]\<rparr>
     = Some (r, a, b) \<and> r = 0"
  using bytes_cmp_equality [of "\<lparr>nref = 1, bsz = 1, bhash = 0, bdata = [97, 5]\<rparr>"
      "\<lparr>nref = 1, bsz = 1, bhash = 0, bdata = [97, 6]\<rparr>"]
  by (auto simp: bytes_wf_def cached_def)

text \<open>
  The order is not transitive: it is the sign of a wrapped difference of hashes. Three strings, each
  before the next and the last before the first.
\<close>

lemma bytes_cmp_cycle:
  "bytes_key_cmp [1, 0, 0, 0, 0, 0, 0, 0] [94, 84, 85, 85, 85, 85, 85, 85] = -1"
  "bytes_key_cmp [94, 84, 85, 85, 85, 85, 85, 85] [179, 171, 170, 170, 170, 170, 170, 170] = -1"
  "bytes_key_cmp [179, 171, 170, 170, 170, 170, 170, 170] [1, 0, 0, 0, 0, 0, 0, 0] = -1"
  by (simp_all add: bytes_key_cmp_def fasthash_def word_at_def le_word_def DJB2XOR_def)

subsection \<open>Searching from the right\<close>

definition occurs_at :: "u8 list \<Rightarrow> u8 list \<Rightarrow> nat \<Rightarrow> bool" where
  "occurs_at big little p \<longleftrightarrow> p + length little \<le> length big \<and> take (length little) (drop p big) = little"

lemma take_occurs_at:
  "i \<le> length big \<Longrightarrow> take (length little) (drop i big) = little \<longleftrightarrow> occurs_at big little i"
proof -
  assume i: "i \<le> length big"
  have "i + length little \<le> length big" if "take (length little) (drop i big) = little"
  proof -
    have "length (take (length little) (drop i big)) = length little" using that by simp
    then show ?thesis using i by (simp add: min_def split: if_splits)
  qed
  then show ?thesis by (auto simp: occurs_at_def)
qed

lemma strstr_Some: "strstr big little = Some k \<Longrightarrow> occurs_at big little k \<and> (\<forall>i < k. \<not> occurs_at big little i)"
  by (auto simp: strstr_def find_Some_iff take_occurs_at nth_append simp del: upt_Suc)

lemma strstr_None: "strstr big little = None \<longleftrightarrow> (\<forall>i. \<not> occurs_at big little i)"
proof -
  have "strstr big little = None \<longleftrightarrow> (\<forall>i \<le> length big. \<not> occurs_at big little i)"
    by (auto simp: strstr_def find_None_iff take_occurs_at less_Suc_eq_le simp del: upt_Suc)
  then show ?thesis by (auto simp: occurs_at_def)
qed

lemma occurs_at_drop: "p \<le> length big \<Longrightarrow> occurs_at (drop p big) little k \<longleftrightarrow> occurs_at big little (p + k)"
  by (auto simp: occurs_at_def add.commute)

lemma strrstr_loop_near_last:
  assumes "little \<noteq> []" "p \<le> length big"
  shows "(\<exists>q. strrstr_loop big little p res = Some (Some q) \<and> occurs_at big little q \<and>
            (\<forall>l. occurs_at big little l \<longrightarrow> l < q + length little) \<and> p \<le> q)
    \<or> (strrstr_loop big little p res = Some res \<and> (\<forall>l \<ge> p. \<not> occurs_at big little l))"
  using assms(2)
proof (induction "length big - p" arbitrary: p res rule: less_induct)
  case less
  show ?case
  proof (cases "strstr (drop p big) little")
    case None
    then have "\<not> occurs_at big little l" if "p \<le> l" for l
      using that less.prems occurs_at_drop [of p big little "l - p"] by (simp add: strstr_None)
    with None show ?thesis by (simp add: strrstr_loop.simps)
  next
    case (Some k)
    then have k: "occurs_at big little (p + k)" and first: "\<forall>i < k. \<not> occurs_at big little (p + i)"
      using strstr_Some [OF Some] occurs_at_drop [OF less.prems] by auto
    let ?p = "p + length little"
    have le: "?p \<le> length big" using k by (simp add: occurs_at_def)
    then have step: "strrstr_loop big little p res = strrstr_loop big little ?p (Some (p + k))"
      using Some by (simp add: strrstr_loop.simps [of big little p])
    have "length big - ?p < length big - p" using assms(1) le by (cases little) simp_all
    from less.hyps [OF this le, of "Some (p + k)"] show ?thesis
    proof
      assume "\<exists>q. strrstr_loop big little ?p (Some (p + k)) = Some (Some q) \<and> occurs_at big little q \<and>
            (\<forall>l. occurs_at big little l \<longrightarrow> l < q + length little) \<and> ?p \<le> q"
      then show ?thesis unfolding step by auto
    next
      assume "strrstr_loop big little ?p (Some (p + k)) = Some (Some (p + k)) \<and> (\<forall>l \<ge> ?p. \<not> occurs_at big little l)"
      moreover from this have "l < p + k + length little" if "occurs_at big little l" for l
        using that by (meson add_le_mono1 le_add1 not_less order_trans)
      ultimately show ?thesis using k unfolding step by auto
    qed
  qed
qed

text \<open>
  C37: \<^verbatim>\<open>strrstr\<close> terminates, finds an occurrence exactly if there is one, and the one it finds
  overlaps the last one: no occurrence starts at its end or later. So it is the last one unless
  occurrences overlap.
\<close>

theorem strrstr_near_last:
  "(\<exists>q. strrstr big little = Some (Some q) \<and> occurs_at big little q \<and> (little = [] \<or> (\<forall>l. occurs_at big little l \<longrightarrow> l < q + length little)))
    \<or> (strrstr big little = Some None \<and> (\<forall>l. \<not> occurs_at big little l))"
  using strrstr_loop_near_last [of little 0 big None]
  by (cases "little = []") (auto simp: strrstr_def occurs_at_def)

theorem strrstr_near_last_witness:
  "\<exists>q. strrstr [1, 2, 1, 2, 3] [1, 2] = Some (Some q) \<and> 2 < q + 2"
proof -
  have "occurs_at [1, 2, 1, 2, 3] [1, 2] 2" by (simp add: occurs_at_def)
  then show ?thesis using strrstr_near_last [of "[1, 2, 1, 2, 3]" "[1, 2]"] by fastforce
qed

text \<open>Overlapping occurrences: the last one is at 1 here, and \<^verbatim>\<open>strrstr\<close> returns the one at 0.\<close>

lemma strrstr_misses_overlap:
  "strrstr [97, 97, 97] [97, 97] = Some (Some 0)" "occurs_at [97, 97, 97] [97, 97] 1"
  by (simp_all add: strrstr_def strrstr_loop.simps strstr_def occurs_at_def upt_rec)

subsection \<open>Construction\<close>

lemma bytes_msz_room: "sz < 2 ^ 62 \<Longrightarrow> sz < bytes_msz sz \<and> bytes_msz sz \<le> sz + 8"
  using mod_less_divisor [of 8 sz] by (auto simp: bytes_msz_def Let_def)

lemma bytes_alloc_room:
  assumes "total_allocator malloc" "sz < 2 ^ 62"
  obtains d where "bytes_alloc malloc sz = Some d" "length d = bytes_msz sz"
proof -
  obtain blk where b: "malloc (SZ (24 + bytes_msz sz)) = Some blk"
    using total_allocator.alloc_total [OF assms(1)] by blast
  have "length blk = SZ (24 + bytes_msz sz)"
    using allocator.alloc_len [OF total_allocator.axioms(1) [OF assms(1)]] b by blast
  then have "length blk = 24 + bytes_msz sz" using bytes_msz_room [OF assms(2)] assms(2) by simp
  with b that show thesis by (simp add: bytes_alloc_def)
qed

lemma bytes_new_spec:
  assumes "total_allocator malloc" "0 < sz" "sz < 2 ^ 62"
  obtains b where "bytes_new malloc sz = Some b" "bytes_wf b" "bsz b = sz" "bhash b = 0" "nref b = 0"
    "length (bdata b) = bytes_msz sz"
proof -
  obtain d where "bytes_alloc malloc sz = Some d" "length d = bytes_msz sz"
    using bytes_alloc_room [OF assms(1,3)] .
  with that assms(2,3) bytes_msz_room [OF assms(3)] show thesis
    by (simp add: bytes_new_def bytes_wf_def)
qed

lemma cstr_terminated: "0 \<notin> set s \<Longrightarrow> cstr (s @ 0 # r) = Some s"
proof -
  assume "0 \<notin> set s"
  then have "takeWhile (\<lambda>c. c \<noteq> 0) (s @ 0 # r) = s" by (induction s) auto
  then show ?thesis by (simp add: cstr_def)
qed

text \<open>
  A byte string made of a C string holds its characters and the terminating zero, has room for
  at least one byte more, no cached hash and no reference.
\<close>

theorem bytes_new_from_str_content:
  assumes "total_allocator malloc" "0 \<notin> set s" "length s < 2 ^ 61"
  shows "\<exists>b. bytes_new_from_str malloc (s @ 0 # r) = Some b \<and> content b = s @ [0] \<and> bytes_wf b \<and> bhash b = 0 \<and> nref b = 0"
proof -
  let ?n = "length s + 1"
  have n: "?n < 2 ^ 62" using assms(3) by simp
  obtain d where d: "bytes_alloc malloc ?n = Some d" "length d = bytes_msz ?n" using bytes_alloc_room [OF assms(1) n] .
  have room: "?n < bytes_msz ?n" "bytes_msz ?n \<le> ?n + 8" using bytes_msz_room [OF n] by simp_all
  let ?d = "put_bytes d 0 (s @ [0])"
  have "bytes_new_from_str malloc (s @ 0 # r) = Some \<lparr>nref = 0, bsz = ?n, bhash = 0, bdata = ?d\<rparr>"
    using assms(2) d room by (simp add: bytes_new_from_str_def cstr_terminated memcpy_to_def)
  moreover have "take ?n ?d = s @ [0]" by (simp add: put_bytes_def)
  moreover have "length ?d = bytes_msz ?n" using d room by simp
  ultimately show ?thesis using room assms(3) by (simp add: bytes_wf_def)
qed

theorem bytes_new_from_str_content_witness:
  "\<exists>b. bytes_new_from_str (std_alloc (\<lambda>_. 170)) [104, 105, 0, 7] = Some b \<and> content b = [104, 105, 0]"
  using bytes_new_from_str_content [OF std_total.total_allocator_axioms, of "[104, 105]" "\<lambda>_. 170" "[7]"] by auto

text \<open>\<^verbatim>\<open>bytes_new_from_str_len\<close> reads one byte more than it is told the string has.\<close>

lemma bytes_new_from_str_len_overread: "bytes_new_from_str_len malloc [97, 98] 2 = None"
  by (cases "bytes_alloc malloc 3") (simp_all add: bytes_new_from_str_len_def bytes_from_str_len_body_def memcpy_to_def)

text \<open>\<^verbatim>\<open>bytes_copy\<close> leaves the cached hash of the old bytes.\<close>

lemma bytes_copy_stale_hash:
  "\<exists>d. bytes_copy \<lparr>nref = 1, bsz = 1, bhash = fasthash 0 [97], bdata = [97, 0]\<rparr>
         \<lparr>nref = 1, bsz = 1, bhash = 0, bdata = [98, 0]\<rparr> 0 = Some d \<and> content d = [98] \<and> \<not> cached d"
  by (simp add: bytes_copy_def memcpy_to_def put_bytes_def cached_def fasthash_def Let_def tail_word_def
      le_word_def DJB2XOR_def)

text \<open>The assertion of \<^verbatim>\<open>bytes_copyz\<close> lets the terminator fall behind the destination's last byte.\<close>

lemma bytes_copyz_unterminated:
  "\<exists>d. bytes_copyz \<lparr>nref = 1, bsz = 2, bhash = 0, bdata = [1, 1, 1, 1]\<rparr>
         \<lparr>nref = 1, bsz = 3, bhash = 0, bdata = [97, 98, 0, 0]\<rparr> 0 = Some d \<and> content d = [97, 98]"
  by (simp add: bytes_copyz_def memcpy_to_def put_bytes_def SZ_def peek_def poke_def)

end
