(* ===== verification/Bytes_Text.thy ===== *)
theory Bytes_Text
  imports Mn_Bytes
begin

text \<open>
  The textual operations of \<^verbatim>\<open>src/src/bytes.c\<close>: JSON escapes, URL encoding, trimming, base64 of a
  byte string and splitting. The in-place loops carry their read and write positions and the
  array, so that a read sees what was written before it.
\<close>

unbundle bit_operations_syntax

subsection \<open>JSON escapes\<close>

text \<open>The character after the backslash for a character that is escaped.\<close>

definition json_esc :: "u8 \<Rightarrow> u8 option" where
  "json_esc ch =
     (if ch = 92 \<or> ch = 34 \<or> ch = 47 then Some ch
      else if ch = 8 then Some 98
      else if ch = 12 then Some 102
      else if ch = 10 then Some 110
      else if ch = 13 then Some 114
      else if ch = 9 then Some 116
      else None)"

fun escape_loop :: "u8 list \<Rightarrow> nat list \<Rightarrow> nat \<Rightarrow> u8 list \<Rightarrow> (nat \<times> u8 list) option" where
  "escape_loop s [] j d = Some (j, d)"
| "escape_loop s (i # is) j d = do {
     ch \<leftarrow> peek s i;
     (case json_esc ch of
        Some e \<Rightarrow> do {
          d \<leftarrow> poke d j 92;
          d \<leftarrow> poke d (j + 1) e;
          escape_loop s is (j + 2) d
        }
      | None \<Rightarrow> do {
          d \<leftarrow> poke d j ch;
          escape_loop s is (j + 1) d
        })
   }"

definition bytes_json_escape :: "u8 alloc \<Rightarrow> mnbytes \<Rightarrow> mnbytes option" where
  "bytes_json_escape malloc src = do {
     dest \<leftarrow> bytes_new malloc (SZ (bsz src * 2));
     (j, d) \<leftarrow> escape_loop (bdata src) [0..<bsz src] 0 (bdata dest);
     d \<leftarrow> poke d (SZ (j + 2 ^ 64 - 1)) 0;
     Some (dest\<lparr>bsz := j, bdata := d\<rparr>)
   }"

definition json_unesc :: "u8 \<Rightarrow> u8" where
  "json_unesc ch =
     (if ch = 98 then 8
      else if ch = 102 then 12
      else if ch = 110 then 10
      else if ch = 114 then 13
      else if ch = 116 then 9
      else ch)"

function unescape_loop :: "nat \<Rightarrow> nat \<Rightarrow> nat \<Rightarrow> u8 list \<Rightarrow> (nat \<times> u8 list) option" where
  "unescape_loop sz i j d =
     (if i < sz then do {
        ch \<leftarrow> peek d i;
        if ch = 92 then
          (if i + 1 < sz then do {
             ch \<leftarrow> peek d (i + 1);
             d \<leftarrow> poke d j (json_unesc ch);
             unescape_loop sz (i + 2) (j + 1) d
           } else Some (j, d))
        else do {
          d \<leftarrow> poke d j ch;
          unescape_loop sz (i + 1) (j + 1) d
        }
      } else Some (j, d))"
  by pat_completeness auto
termination by (relation "measure (\<lambda>(sz, i, j, d). sz - i)") auto

definition bytes_json_unescape :: "mnbytes \<Rightarrow> mnbytes option" where
  "bytes_json_unescape src = do {
     (j, d) \<leftarrow> unescape_loop (bsz src) 0 0 (bdata src);
     d \<leftarrow> poke d (SZ (j + 2 ^ 64 - 1)) 0;
     Some (src\<lparr>bsz := j, bhash := 0, bdata := d\<rparr>)
   }"

subsection \<open>URL encoding\<close>

definition RFC3986_UNRESERVED :: u8 where
  "RFC3986_UNRESERVED = 4"

definition charflags :: "u8 list" where
  "charflags = [
   2, 2, 2, 2, 2, 2, 2, 2, 2, 2, 2, 2, 2, 2, 2, 2, 2, 2, 2, 2, 2, 2, 2, 2, 2, 2, 2, 2, 2, 2, 2, 2,
   2, 1, 2, 1, 1, 2, 1, 1, 1, 1, 1, 1, 1, 4, 4, 1, 4, 4, 4, 4, 4, 4, 4, 4, 4, 4, 1, 1, 2, 1, 2, 1,
   1, 4, 4, 4, 4, 4, 4, 4, 4, 4, 4, 4, 4, 4, 4, 4, 4, 4, 4, 4, 4, 4, 4, 4, 4, 4, 4, 1, 2, 1, 2, 4,
   2, 4, 4, 4, 4, 4, 4, 4, 4, 4, 4, 4, 4, 4, 4, 4, 4, 4, 4, 4, 4, 4, 4, 4, 4, 4, 4, 2, 2, 2, 4, 2,
   2, 2, 2, 2, 2, 2, 2, 2, 2, 2, 2, 2, 2, 2, 2, 2, 2, 2, 2, 2, 2, 2, 2, 2, 2, 2, 2, 2, 2, 2, 2, 2,
   2, 2, 2, 2, 2, 2, 2, 2, 2, 2, 2, 2, 2, 2, 2, 2, 2, 2, 2, 2, 2, 2, 2, 2, 2, 2, 2, 2, 2, 2, 2, 2,
   2, 2, 2, 2, 2, 2, 2, 2, 2, 2, 2, 2, 2, 2, 2, 2, 2, 2, 2, 2, 2, 2, 2, 2, 2, 2, 2, 2, 2, 2, 2, 2,
   2, 2, 2, 2, 2, 2, 2, 2, 2, 2, 2, 2, 2, 2, 2, 2, 2, 2, 2, 2, 2, 2, 2, 2, 2, 2, 2, 2, 2, 2, 2, 2]"

definition unreserved :: "u8 \<Rightarrow> bool" where
  "unreserved c \<longleftrightarrow> charflags ! unat c AND RFC3986_UNRESERVED \<noteq> 0"

definition hex_val :: "u8 \<Rightarrow> u8 option" where
  "hex_val c =
     (if 48 \<le> c \<and> c \<le> 57 then Some (c - 48)
      else if 65 \<le> c \<and> c \<le> 70 then Some (c - 55)
      else if 97 \<le> c \<and> c \<le> 102 then Some (c - 87)
      else None)"

definition hex_digit :: "u8 \<Rightarrow> u8" where
  "hex_digit cc = (if cc < 10 then 48 + cc else 65 + cc - 10)"

text \<open>\<open>src\<close> is at the percent sign.\<close>

definition pct_decode :: "nat \<Rightarrow> nat \<Rightarrow> u8 list \<Rightarrow> u8 list option" where
  "pct_decode src dst d = do {
     c \<leftarrow> peek d (src + 1);
     d \<leftarrow> (case hex_val c of Some v \<Rightarrow> poke d dst (push_bit 4 v) | None \<Rightarrow> Some d);
     c \<leftarrow> peek d (src + 2);
     (case hex_val c of
        Some v \<Rightarrow> do { old \<leftarrow> peek d dst; poke d dst (old OR v) }
      | None \<Rightarrow> Some d)
   }"

function urldecode_loop :: "nat \<Rightarrow> nat \<Rightarrow> nat \<Rightarrow> u8 list \<Rightarrow> (nat \<times> u8 list) option" where
  "urldecode_loop end src dst d =
     (if src < end then do {
        c \<leftarrow> peek d src;
        if c = 37 \<and> src + 2 < end then do {
          d \<leftarrow> pct_decode src dst d;
          urldecode_loop end (src + 3) (dst + 1) d
        } else do {
          d \<leftarrow> poke d dst (if c = 43 then 32 else c);
          urldecode_loop end (src + 1) (dst + 1) d
        }
      } else Some (dst, d))"
  by pat_completeness auto
termination by (relation "measure (\<lambda>(end, src, dst, d). end - src)") auto

definition bytes_urldecode :: "mnbytes \<Rightarrow> mnbytes option" where
  "bytes_urldecode str = do {
     (dst, d) \<leftarrow> urldecode_loop (bsz str) 0 0 (bdata str);
     guard (dst > 0);
     d \<leftarrow> poke d (dst - 1) 0;
     Some (str\<lparr>bsz := dst, bhash := 0, bdata := d\<rparr>)
   }"

text \<open>The counters are \<^verbatim>\<open>unsigned int\<close>s, the size a \<^verbatim>\<open>size_t\<close>.\<close>

partial_function (option) urlencode_loop ::
  "u8 list \<Rightarrow> nat \<Rightarrow> nat \<Rightarrow> nat \<Rightarrow> u8 list \<Rightarrow> (nat \<times> u8 list) option" where
  "urlencode_loop src sz i j d =
     (if i < sz then do {
        c \<leftarrow> peek src i;
        if \<not> unreserved c then do {
          d \<leftarrow> poke d j 37;
          d \<leftarrow> poke d (U32 (j + 1)) (hex_digit (drop_bit 4 c));
          d \<leftarrow> poke d (U32 (j + 2)) (hex_digit (c AND 15));
          urlencode_loop src sz (U32 (i + 1)) (U32 (j + 3)) d
        } else do {
          d \<leftarrow> poke d j c;
          urlencode_loop src sz (U32 (i + 1)) (U32 (j + 1)) d
        }
      } else Some (j, d))"

definition urlencode_reserved :: "u8 list \<Rightarrow> u8 list \<Rightarrow> nat \<Rightarrow> (nat \<times> u8 list) option" where
  "urlencode_reserved dst src sz = do {
     (j, d) \<leftarrow> urlencode_loop src sz 0 0 dst;
     d \<leftarrow> poke d j 0;
     Some (U32 (j + 1), d)
   }"

definition bytes_urlencode2 :: "mnbytes \<Rightarrow> mnbytes \<Rightarrow> mnbytes option" where
  "bytes_urlencode2 dst src = do {
     guard (bsz dst \<ge> SZ (bsz src * 3 + 1));
     (n, d) \<leftarrow> urlencode_reserved (bdata dst) (bdata src) (bsz src);
     Some (dst\<lparr>bsz := n, bhash := 0, bdata := d\<rparr>)
   }"

definition bytes_str_urlencode2 :: "mnbytes \<Rightarrow> mnbytes \<Rightarrow> mnbytes option" where
  "bytes_str_urlencode2 dst src = do {
     guard (bsz dst \<ge> SZ (bsz src * 3 + 1));
     (n, d) \<leftarrow> urlencode_reserved (bdata dst) (bdata src) (SZ (bsz src + 2 ^ 64 - 1));
     Some (dst\<lparr>bsz := n, bhash := 0, bdata := d\<rparr>)
   }"

subsection \<open>Blanks\<close>

text \<open>The signed index is shifted by one: \<open>n\<close> is \<^verbatim>\<open>idx\<close> before \<^verbatim>\<open>--idx\<close>, and 0 ends the loop.\<close>

fun rstrip_loop :: "nat \<Rightarrow> u8 list \<Rightarrow> (nat \<times> u8 list) option" where
  "rstrip_loop 0 d = Some (0, d)"
| "rstrip_loop (Suc idx) d = do {
     c \<leftarrow> peek d idx;
     if c = 32 \<or> c = 10 \<or> c = 9 then do {
       d \<leftarrow> poke d idx 0;
       rstrip_loop idx d
     } else do {
       d \<leftarrow> poke d (idx + 1) 0;
       Some (Suc idx, d)
     }
   }"

text \<open>For an empty array \<^verbatim>\<open>idx\<close> starts at -1, ends at -2 and the size stays 0.\<close>

definition bytes_rstrip_blanks :: "mnbytes \<Rightarrow> mnbytes option" where
  "bytes_rstrip_blanks str =
     (if bsz str = 0 then Some (str\<lparr>bhash := 0\<rparr>)
      else do {
        (n, d) \<leftarrow> rstrip_loop (bsz str - 1) (bdata str);
        Some (str\<lparr>bsz := n + 1, bhash := 0, bdata := d\<rparr>)
      })"

text \<open>\<open>dst\<close> moves back over a space, before the start of the array only until the next \<^verbatim>\<open>++dst\<close>.\<close>

function brushdown_loop :: "nat \<Rightarrow> nat \<Rightarrow> nat \<Rightarrow> u8 list \<Rightarrow> (nat \<times> u8 list) option" where
  "brushdown_loop end src dst d =
     (if src < end then do {
        c \<leftarrow> peek d src;
        if c = 37 \<and> src + 2 < end then do {
          d \<leftarrow> pct_decode src dst d;
          o' \<leftarrow> peek d dst;
          brushdown_loop end (src + 3) (if o' = 32 then dst else dst + 1) d
        } else do {
          d \<leftarrow> poke d dst c;
          brushdown_loop end (src + 1) (if c = 32 then dst else dst + 1) d
        }
      } else Some (dst, d))"
  by pat_completeness auto
termination by (relation "measure (\<lambda>(end, src, dst, d). end - src)") auto

definition bytes_brushdown :: "mnbytes \<Rightarrow> mnbytes option" where
  "bytes_brushdown str = do {
     (dst, d) \<leftarrow> brushdown_loop (bsz str) 0 0 (bdata str);
     guard (dst > 0);
     d \<leftarrow> poke d (dst - 1) 0;
     Some (str\<lparr>bsz := dst, bhash := 0, bdata := d\<rparr>)
   }"

subsection \<open>Base64 of a byte string\<close>

definition bytes_base64_encode_url_str :: "u8 alloc \<Rightarrow> mnbytes \<Rightarrow> mnbytes option option" where
  "bytes_base64_encode_url_str malloc s =
     (if bsz s = 0 then Some None
      else do {
        let sz0 = bsz s - 1;
        let m = sz0 mod 3;
        let sz1 = SZ (SZ (sz0 + (if m \<noteq> 0 then 3 - m else 0)) * 4) div 3;
        res \<leftarrow> bytes_new malloc (SZ (sz1 + 1));
        (r, d) \<leftarrow> mnbase64_encode_url_std (bdata s) sz0 (bdata res) sz1;
        if r \<noteq> rc_ok then Some (bytes_decref (Some res))
        else do {
          d \<leftarrow> poke d sz1 0;
          Some (Some (res\<lparr>bdata := d\<rparr>))
        }
      })"

definition bytes_base64_decode_url :: "mnbytes \<Rightarrow> (rc \<times> mnbytes) option" where
  "bytes_base64_decode_url s = do {
     (r, d, sz) \<leftarrow> mnbase64_decode_url_std_inplace (bdata s) 0 (SZ (bsz s + 2 ^ 64 - 1));
     d \<leftarrow> poke d sz 0;
     (h, s) \<leftarrow> bytes_hash (s\<lparr>bsz := SZ (sz + 1), bdata := d\<rparr>);
     Some (r, s)
   }"

subsection \<open>Splitting\<close>

type_synonym 'w split_cb = "mnbytes \<Rightarrow> 'w \<Rightarrow> int \<times> 'w"

text \<open>The piece of \<open>sz\<close> bytes at \<open>p\<close>, copied to the temporary.\<close>

definition split_piece :: "mnbytes \<Rightarrow> u8 list \<Rightarrow> nat \<Rightarrow> nat \<Rightarrow> mnbytes option" where
  "split_piece tmp d p sz = do {
     t \<leftarrow> memcpy_to (bdata tmp) 0 d p sz;
     t \<leftarrow> poke t sz 0;
     Some (tmp\<lparr>bsz := sz + 1, bhash := 0, bdata := t\<rparr>)
   }"

partial_function (option) split_loop ::
  "u8 list \<Rightarrow> nat \<Rightarrow> u8 list \<Rightarrow> 'w split_cb \<Rightarrow> mnbytes \<Rightarrow> nat \<Rightarrow> 'w \<Rightarrow> (int \<times> 'w) option" where
  "split_loop d fin delim cb tmp p0 w = do {
     h \<leftarrow> cstr (drop p0 d);
     (case strstr h delim of
        Some k \<Rightarrow> do {
          tmp \<leftarrow> split_piece tmp d p0 k;
          (case cb tmp w of (r, w) \<Rightarrow>
             if r \<noteq> 0 then Some (r, w)
             else split_loop d fin delim cb tmp (p0 + k + length delim) w)
        }
      | None \<Rightarrow> do {
          guard (p0 \<le> fin);
          tmp \<leftarrow> split_piece tmp d p0 (fin - p0);
          Some (cb tmp w)
        })
   }"

definition bytes_split_iter ::
  "u8 alloc \<Rightarrow> mnbytes \<Rightarrow> u8 list \<Rightarrow> 'w split_cb \<Rightarrow> 'w \<Rightarrow> (int \<times> 'w) option" where
  "bytes_split_iter malloc str delim cb w = do {
     dl \<leftarrow> cstr delim;
     if dl = [] then Some (0, w)
     else do {
       tmp \<leftarrow> bytes_new malloc (bsz str);
       split_loop (bdata str) (bsz str - 1) dl cb tmp 0 w
     }
   }"

subsection \<open>The text of the escapes\<close>

definition json_text :: "u8 list \<Rightarrow> u8 list" where
  "json_text s = concat (map (\<lambda>c. case json_esc c of Some e \<Rightarrow> [92, e] | None \<Rightarrow> [c]) s)"

fun json_untext :: "u8 list \<Rightarrow> u8 list" where
  "json_untext [] = []"
| "json_untext [c] = (if c = 92 then [] else [c])"
| "json_untext (c # e # r) = (if c = 92 then json_unesc e # json_untext r else c # json_untext (e # r))"

lemma json_text_simps [simp]:
  "json_text [] = []"
  "json_text (c # s) = (case json_esc c of Some e \<Rightarrow> [92, e] | None \<Rightarrow> [c]) @ json_text s"
  by (simp_all add: json_text_def)

lemma json_text_append: "json_text (s @ t) = json_text s @ json_text t"
  by (simp add: json_text_def)

lemma json_text_length: "length s \<le> length (json_text s) \<and> length (json_text s) \<le> 2 * length s"
  by (induction s) (auto split: option.splits)

lemma json_esc_unesc: "json_esc c = Some e \<Longrightarrow> json_unesc e = c"
  by (auto simp: json_esc_def json_unesc_def split: if_splits)

lemma json_untext_plain: "c \<noteq> 92 \<Longrightarrow> json_untext (c # r) = c # json_untext r"
  by (cases r) auto

lemma json_untext_text: "json_untext (json_text s @ [0]) = s @ [0]"
proof (induction s)
  case (Cons c s)
  show ?case
  proof (cases "json_esc c")
    case None
    then have "c \<noteq> 92" by (auto simp: json_esc_def)
    with None Cons show ?thesis by (simp add: json_untext_plain)
  next
    case (Some e)
    with Cons json_esc_unesc [OF Some] show ?thesis by simp
  qed
qed simp

lemma escape_loop_put:
  assumes "\<forall>i \<in> set is. i < length s" "j + 2 * length is \<le> length d"
  shows "escape_loop s is j d = (let t = json_text (map (\<lambda>i. s ! i) is) in Some (j + length t, put_bytes d j t))"
  using assms
proof (induction "is" arbitrary: j d)
  case (Cons i "is")
  show ?case
  proof (cases "json_esc (s ! i)")
    case None
    let ?t = "json_text (map (\<lambda>i. s ! i) is)"
    have "length ?t \<le> 2 * length is" using json_text_length [of "map (\<lambda>i. s ! i) is"] by simp
    then have "put_bytes (d[j := s ! i]) (j + 1) ?t = put_bytes d j (s ! i # ?t)"
      using Cons.prems put_bytes_Cons [of j ?t d "s ! i"] by simp
    with None Cons show ?thesis by (simp add: Let_def)
  next
    case (Some e)
    let ?t = "json_text (map (\<lambda>i. s ! i) is)"
    have l: "length ?t \<le> 2 * length is" using json_text_length [of "map (\<lambda>i. s ! i) is"] by simp
    then have "put_bytes (d[j := 92, j + 1 := e]) (j + 2) ?t = put_bytes d j (92 # e # ?t)"
      using Cons.prems put_bytes_Cons [of j "e # ?t" d 92] put_bytes_Cons [of "Suc j" ?t "d[j := 92]" e] by simp
    with Some Cons show ?thesis by (simp add: Let_def)
  qed
qed simp

lemma json_untext_length: "length (json_untext s) \<le> length s"
  by (induction s rule: json_untext.induct) auto

lemma drop_take_step: "i < n \<Longrightarrow> n \<le> length d \<Longrightarrow> take (n - i) (drop i d) = d ! i # take (n - Suc i) (drop (Suc i) d)"
  by (metis Cons_nth_drop_Suc Suc_diff_Suc dual_order.strict_trans1 take_Suc_Cons)

declare unescape_loop.simps [simp del]

lemma unescape_loop_put:
  assumes "j \<le> i" "i \<le> sz" "sz \<le> length d"
  shows "unescape_loop sz i j d = (let t = json_untext (take (sz - i) (drop i d)) in Some (j + length t, put_bytes d j t))"
  using assms
proof (induction "sz - i" arbitrary: i j d rule: less_induct)
  case less
  show ?case
  proof (cases "i < sz")
    case False
    with less.prems show ?thesis by (simp add: unescape_loop.simps [of sz sz])
  next
    case i: True
    define c where "c = d ! i"
    have ip: "peek d i = Some c" using i less.prems by (simp add: c_def)
    have jl: "j < length d" using i less.prems by simp
    show ?thesis
    proof (cases "c = 92")
      case False
      let ?d = "d[j := c]" and ?t = "json_untext (take (sz - Suc i) (drop (Suc i) d))"
      have same: "drop (Suc i) ?d = drop (Suc i) d" using less.prems by simp
      have "length ?t \<le> sz - Suc i" using json_untext_length [of "take (sz - Suc i) (drop (Suc i) d)"] by simp
      then have "put_bytes ?d (Suc j) ?t = put_bytes d j (c # ?t)" using less.prems i by (intro put_bytes_Cons) simp
      moreover have "unescape_loop sz (Suc i) (Suc j) ?d = Some (Suc j + length ?t, put_bytes ?d (Suc j) ?t)"
        using less.hyps [of "Suc i" "Suc j" ?d] less.prems i unfolding same by (simp add: Let_def)
      ultimately show ?thesis
        using i ip jl False less.prems
        by (simp add: unescape_loop.simps [of sz i] drop_take_step c_def [symmetric] json_untext_plain Let_def)
    next
      case True
      show ?thesis
      proof (cases "Suc i < sz")
        case False
        then have "take (sz - i) (drop i d) = [92]" using i less.prems True by (simp add: drop_take_step c_def)
        with i ip True False show ?thesis by (simp add: unescape_loop.simps [of sz i])
      next
        case si: True
        define e where "e = json_unesc (d ! Suc i)"
        let ?d = "d[j := e]" and ?t = "json_untext (take (sz - Suc (Suc i)) (drop (Suc (Suc i)) d))"
        have same: "drop (Suc (Suc i)) ?d = drop (Suc (Suc i)) d" using less.prems by simp
        have "length ?t \<le> sz - Suc (Suc i)"
          using json_untext_length [of "take (sz - Suc (Suc i)) (drop (Suc (Suc i)) d)"] by simp
        then have "put_bytes ?d (Suc j) ?t = put_bytes d j (e # ?t)" using less.prems si by (intro put_bytes_Cons) simp
        moreover have "unescape_loop sz (Suc (Suc i)) (Suc j) ?d = Some (Suc j + length ?t, put_bytes ?d (Suc j) ?t)"
          using less.hyps [of "Suc (Suc i)" "Suc j" ?d] less.prems si unfolding same by (simp add: Let_def)
        moreover have "take (sz - i) (drop i d) = 92 # d ! Suc i # take (sz - Suc (Suc i)) (drop (Suc (Suc i)) d)"
          using i si less.prems True by (simp add: drop_take_step c_def)
        ultimately show ?thesis
          using i si ip jl True less.prems
          by (simp add: unescape_loop.simps [of sz i] Let_def e_def [symmetric])
      qed
    qed
  qed
qed

subsection \<open>Escaping and unescaping\<close>

lemma bytes_json_escape_spec:
  assumes malloc: "total_allocator malloc" and wf: "bytes_wf src" "bsz src < 2 ^ 60" and c: "content src = s @ [0]"
  obtains e where "bytes_json_escape malloc src = Some e" "bytes_wf e" "content e = json_text s @ [0]"
proof -
  let ?n = "bsz src"
  have len: "length (content src) = ?n" using wf(1) by (simp add: bytes_wf_def)
  then have n: "?n = length s + 1" using c by simp
  have "SZ (?n * 2) = ?n * 2" using wf(2) by simp
  moreover have "0 < ?n * 2" "?n * 2 < 2 ^ 62" using n wf(2) by simp_all
  ultimately obtain b where b: "bytes_new malloc (SZ (?n * 2)) = Some b" "bytes_wf b" "bsz b = ?n * 2" "bhash b = 0"
    using bytes_new_spec [OF malloc, of "?n * 2"] by metis
  let ?d = "bdata b" and ?t = "json_text s @ [0]"
  have room: "?n * 2 < length ?d" "length ?d < 2 ^ 63" using b by (simp_all add: bytes_wf_def)
  have "map (\<lambda>i. bdata src ! i) [0..<?n] = content src" using wf(1) by (intro nth_equalityI) (simp_all add: bytes_wf_def)
  moreover have "json_text (s @ [0]) = ?t" by (simp add: json_text_append json_esc_def)
  ultimately have loop: "escape_loop (bdata src) [0..<?n] 0 ?d = Some (length ?t, put_bytes ?d 0 ?t)"
    using escape_loop_put [of "[0..<?n]" "bdata src" 0 ?d] room wf(1) c by (simp add: Let_def bytes_wf_def)
  have tl: "length ?t \<le> ?n * 2" using json_text_length [of s] n by simp
  have "put_bytes ?d 0 ?t ! (length ?t - 1) = 0" using tl room by (simp add: put_bytes_nth nth_append)
  then have "(put_bytes ?d 0 ?t)[length ?t - 1 := 0] = put_bytes ?d 0 ?t" by (metis list_update_id)
  moreover have "SZ (length ?t + 2 ^ 64 - 1) = length ?t - 1" using tl room by (simp add: SZ_def)
  moreover have "length (put_bytes ?d 0 ?t) = length ?d" using tl room by simp
  ultimately have "bytes_json_escape malloc src = Some (b\<lparr>bsz := length ?t, bdata := put_bytes ?d 0 ?t\<rparr>)"
    using b loop tl room by (simp add: bytes_json_escape_def)
  moreover have "content (b\<lparr>bsz := length ?t, bdata := put_bytes ?d 0 ?t\<rparr>) = ?t" by (simp add: put_bytes_def)
  moreover have "bytes_wf (b\<lparr>bsz := length ?t, bdata := put_bytes ?d 0 ?t\<rparr>)" using tl room by (simp add: bytes_wf_def)
  ultimately show thesis using that by blast
qed

lemma bytes_json_unescape_spec:
  assumes wf: "bytes_wf e" and t: "json_untext (content e) = s @ [0]"
  obtains u where "bytes_json_unescape e = Some u" "bytes_wf u" "content u = s @ [0]" "bhash u = 0"
proof -
  let ?n = "bsz e" and ?d = "bdata e" and ?t = "s @ [0]"
  have n: "?n < length ?d" "length ?d < 2 ^ 63" using wf by (simp_all add: bytes_wf_def)
  have tl: "length ?t \<le> ?n" using json_untext_length [of "content e"] n unfolding t by simp
  have loop: "unescape_loop ?n 0 0 ?d = Some (length ?t, put_bytes ?d 0 ?t)"
    using unescape_loop_put [of 0 0 ?n ?d] n t by (simp add: Let_def)
  have "put_bytes ?d 0 ?t ! (length ?t - 1) = 0" using tl n by (simp add: put_bytes_nth nth_append)
  then have "(put_bytes ?d 0 ?t)[length ?t - 1 := 0] = put_bytes ?d 0 ?t" by (metis list_update_id)
  moreover have "SZ (length ?t + 2 ^ 64 - 1) = length ?t - 1" using tl n by (simp add: SZ_def)
  moreover have "length (put_bytes ?d 0 ?t) = length ?d" using tl n by simp
  ultimately have "bytes_json_unescape e = Some (e\<lparr>bsz := length ?t, bhash := 0, bdata := put_bytes ?d 0 ?t\<rparr>)"
    using loop tl n by (simp add: bytes_json_unescape_def)
  then show thesis using that tl n by (simp add: put_bytes_def bytes_wf_def)
qed

text \<open>
  C38: Escaping a terminated string and unescaping the result in place gives back its bytes, zero
  bytes inside of it included; the escaped string fits in the twice as large allocation, and neither
  operation faults.
\<close>

theorem bytes_json_roundtrip:
  assumes "total_allocator malloc" "bytes_wf src" "bsz src < 2 ^ 60" "content src = s @ [0]"
  shows "\<exists>e u. bytes_json_escape malloc src = Some e \<and> bytes_json_unescape e = Some u \<and> content u = content src"
proof -
  obtain e where e: "bytes_json_escape malloc src = Some e" "bytes_wf e" "content e = json_text s @ [0]"
    using bytes_json_escape_spec [OF assms] .
  obtain u where "bytes_json_unescape e = Some u" "content u = s @ [0]"
    using bytes_json_unescape_spec [OF e(2), of s] e(3) json_untext_text by metis
  with e assms(4) show ?thesis by metis
qed

theorem bytes_json_roundtrip_witness:
  "\<exists>e u. bytes_json_escape (std_alloc (\<lambda>_. 0)) \<lparr>nref = 1, bsz = 3, bhash = 0, bdata = [34, 10, 0, 0]\<rparr> = Some e
     \<and> bytes_json_unescape e = Some u \<and> content u = [34, 10, 0]"
proof -
  have "bytes_wf \<lparr>nref = 1, bsz = 3, bhash = 0, bdata = [34, 10, 0, 0]\<rparr>" by (simp add: bytes_wf_def)
  then show ?thesis
    using bytes_json_roundtrip [OF std_total.total_allocator_axioms, of "\<lparr>nref = 1, bsz = 3, bhash = 0, bdata = [34, 10, 0, 0]\<rparr>" "[34, 10]" "\<lambda>_. 0"]
    by simp
qed

text \<open>Unescaping a lone backslash writes before the array.\<close>

lemma bytes_json_unescape_lone: "bytes_json_unescape \<lparr>nref = 1, bsz = 1, bhash = 0, bdata = [92, 0]\<rparr> = None"
  by (simp add: bytes_json_unescape_def unescape_loop.simps peek_def poke_def SZ_def)

subsection \<open>The text of the percent encoding\<close>

definition url_text :: "u8 list \<Rightarrow> u8 list" where
  "url_text s = concat (map (\<lambda>c. if unreserved c then [c] else [37, hex_digit (drop_bit 4 c), hex_digit (c AND 15)]) s)"

text \<open>What a text with no invalid sequence decodes to.\<close>

fun url_bytes :: "u8 list \<Rightarrow> u8 list option" where
  "url_bytes (c # a # b # r) =
     (if c = 37 then
        (case (hex_val a, hex_val b) of
           (Some x, Some y) \<Rightarrow> map_option (Cons (push_bit 4 x OR y)) (url_bytes r)
         | _ \<Rightarrow> None)
      else map_option (Cons (if c = 43 then 32 else c)) (url_bytes (a # b # r)))"
| "url_bytes s = Some (map (\<lambda>c. if c = 43 then 32 else c) s)"

lemma hex_val_digit: "v < 16 \<Longrightarrow> hex_val (hex_digit v) = Some v"
proof -
  assume "v < 16"
  then have "unat v < 16" by (simp add: word_less_nat_alt)
  then have "unat v \<in> {0, 1, 2, 3, 4, 5, 6, 7, 8, 9, 10, 11, 12, 13, 14, 15}" by (simp only: insert_iff empty_iff) presburger
  moreover have "v = word_of_nat (unat v)" by simp
  ultimately obtain n where "v = word_of_nat n" "n \<in> {0, 1, 2, 3, 4, 5, 6, 7, 8, 9, 10, 11, 12, 13, 14, 15}" by metis
  then show ?thesis by (elim insertE emptyE) (simp_all add: hex_val_def hex_digit_def)
qed

lemma nibbles: "(drop_bit 4 c :: u8) < 16" "(c AND 15 :: u8) < 16" "push_bit 4 (drop_bit 4 c) OR (c AND 15) = (c::u8)"
proof -
  have "unat (drop_bit 4 c) < 16"
    using unsigned_less [where 'a = nat, of c] by (simp add: unsigned_drop_bit_eq drop_bit_eq_div unat_div less_mult_imp_div_less)
  then show "drop_bit 4 c < 16" by (simp add: word_less_nat_alt)
  have m: "c AND 15 = take_bit 4 c" by (simp add: take_bit_eq_mask mask_eq_exp_minus_1)
  have "unat (take_bit 4 c) < 16" using take_bit_nat_less_exp [of 4 "unat c"] by (simp add: unsigned_take_bit_eq)
  then show "c AND 15 < 16" unfolding m by (simp add: word_less_nat_alt)
  show "push_bit 4 (drop_bit 4 c) OR (c AND 15) = c"
    unfolding m by (rule all_bits_u8) (auto simp: bit_simps)
qed

lemma unreserved_plain: "unreserved c \<Longrightarrow> c \<noteq> 37 \<and> c \<noteq> 43"
  by (auto simp: unreserved_def charflags_def RFC3986_UNRESERVED_def)

lemma url_text_simps [simp]:
  "url_text [] = []"
  "url_text (c # s) = (if unreserved c then [c] else [37, hex_digit (drop_bit 4 c), hex_digit (c AND 15)]) @ url_text s"
  by (simp_all add: url_text_def)

lemma url_text_length: "length s \<le> length (url_text s) \<and> length (url_text s) \<le> 3 * length s"
  by (induction s) auto

lemma url_bytes_other:
  "\<not> (c = 37 \<and> 2 \<le> length r) \<Longrightarrow> url_bytes (c # r) = map_option (Cons (if c = 43 then 32 else c)) (url_bytes r)"
proof (cases r)
  case (Cons a r')
  assume "\<not> (c = 37 \<and> 2 \<le> length r)"
  then show ?thesis using Cons by (cases r') auto
qed simp

lemma url_bytes_plain: "c \<noteq> 37 \<Longrightarrow> c \<noteq> 43 \<Longrightarrow> url_bytes (c # r) = map_option (Cons c) (url_bytes r)"
  by (simp add: url_bytes_other)

lemma url_bytes_text: "url_bytes (url_text s @ [0]) = Some (s @ [0])"
  by (induction s) (auto simp: url_bytes_plain unreserved_plain hex_val_digit nibbles)

lemma url_bytes_length: "url_bytes s = Some t \<Longrightarrow> length t \<le> length s"
  by (induction s arbitrary: t rule: url_bytes.induct) (force split: if_splits option.splits)+

subsection \<open>Encoding\<close>

lemma urlencode_loop_put:
  assumes "sz \<le> length src" "i \<le> sz" "j + 3 * (sz - i) \<le> length d" "j + 3 * (sz - i) < 2 ^ 32" "sz < 2 ^ 32"
  shows "urlencode_loop src sz i j d
    = (let t = url_text (take (sz - i) (drop i src)) in Some (j + length t, put_bytes d j t))"
  using assms(2-4)
proof (induction "sz - i" arbitrary: i j d)
  case 0
  then show ?case by (simp add: urlencode_loop.simps [of src i i])
next
  case (Suc k)
  then have i: "i < sz" and k: "sz - Suc i = k" by simp_all
  define c where "c = src ! i"
  let ?t = "url_text (take (sz - Suc i) (drop (Suc i) src))"
  have t: "length ?t \<le> 3 * (sz - Suc i)" using url_text_length [of "take (sz - Suc i) (drop (Suc i) src)"] assms(1) by (simp add: min_absorb2 diff_le_mono)
  have rest: "take (sz - i) (drop i src) = c # take (sz - Suc i) (drop (Suc i) src)"
    using i assms(1) by (simp add: drop_take_step c_def)
  have c: "peek src i = Some c" using i assms(1) by (simp add: c_def)
  have si: "U32 (i + 1) = Suc i" using i assms(5) by simp
  show ?case
  proof (cases "unreserved c")
    case True
    have "urlencode_loop src sz (Suc i) (Suc j) (d[j := c])
        = Some (Suc j + length ?t, put_bytes (d[j := c]) (Suc j) ?t)"
      using Suc.hyps(1) [of "Suc i" "Suc j" "d[j := c]"] Suc.prems i k by (simp add: Let_def)
    moreover have "put_bytes (d[j := c]) (Suc j) ?t = put_bytes d j (c # ?t)"
      using Suc.prems i t by (intro put_bytes_Cons) simp
    moreover have "U32 (j + 1) = Suc j" using Suc.prems i by simp
    ultimately show ?thesis
      using i c si True Suc.prems by (simp add: urlencode_loop.simps [of src sz i] rest Let_def)
  next
    case False
    let ?a = "hex_digit (drop_bit 4 c)" and ?b = "hex_digit (c AND 15)"
    let ?d = "d[j := 37, j + 1 := ?a, j + 2 := ?b]"
    have "urlencode_loop src sz (Suc i) (j + 3) ?d = Some (j + 3 + length ?t, put_bytes ?d (j + 3) ?t)"
      using Suc.hyps(1) [of "Suc i" "j + 3" ?d] Suc.prems i k by (simp add: Let_def)
    moreover have "?d = put_bytes d j [37, ?a, ?b]" using Suc.prems i by (intro updates_put_bytes) simp
    then have "put_bytes ?d (j + 3) ?t = put_bytes d j (37 # ?a # ?b # ?t)"
    proof -
      have three: "length [37, ?a, ?b] = 3" by simp
      have "j + 3 + length ?t \<le> length d" using Suc.prems i t by linarith
      then show ?thesis
        using put_bytes_put_bytes [of j "[37, ?a, ?b]" ?t d] \<open>?d = put_bytes d j [37, ?a, ?b]\<close> unfolding three by simp
    qed
    moreover have "U32 (j + 1) = j + 1" "U32 (j + 2) = j + 2" "U32 (j + 3) = j + 3" using Suc.prems i by simp_all
    ultimately show ?thesis
      using i c si False Suc.prems by (simp add: urlencode_loop.simps [of src sz i] rest Let_def)
  qed
qed

subsection \<open>Decoding in place\<close>

declare urldecode_loop.simps [simp del]

lemma pct_decode_put:
  assumes "dst \<le> src" "src + 2 < length d" "hex_val (d ! (src + 1)) = Some x" "hex_val (d ! (src + 2)) = Some y"
  shows "pct_decode src dst d = Some (d[dst := push_bit 4 x OR y])"
  using assms by (simp add: pct_decode_def)

lemma urldecode_loop_put:
  assumes "dst \<le> src" "src \<le> end" "end \<le> length d" "url_bytes (take (end - src) (drop src d)) = Some t"
  shows "urldecode_loop end src dst d = Some (dst + length t, put_bytes d dst t)"
  using assms
proof (induction "end - src" arbitrary: src dst d t rule: less_induct)
  case less
  show ?case
  proof (cases "src < end")
    case False
    with less.prems have "t = []" "src = end" by auto
    then show ?thesis by (simp add: urldecode_loop.simps [of "end" "end"])
  next
    case i: True
    define c where "c = d ! src"
    have p: "peek d src = Some c" "dst < length d" using i less.prems by (simp_all add: c_def)
    have rest: "take (end - src) (drop src d) = c # take (end - Suc src) (drop (Suc src) d)"
      using i less.prems by (simp add: drop_take_step c_def)
    have one: ?thesis if v: "url_bytes (take (end - Suc src) (drop (Suc src) d)) = Some t'" "t = v # t'"
      and s: "urldecode_loop end src dst d = urldecode_loop end (Suc src) (Suc dst) (d[dst := v])" for v t'
    proof -
      have "drop (Suc src) (d[dst := v]) = drop (Suc src) d" using less.prems by simp
      then have "urldecode_loop end (Suc src) (Suc dst) (d[dst := v]) = Some (Suc dst + length t', put_bytes (d[dst := v]) (Suc dst) t')"
        using less.prems i v by (intro less.hyps) simp_all
      moreover have "put_bytes (d[dst := v]) (Suc dst) t' = put_bytes d dst (v # t')"
        using url_bytes_length [OF v(1)] less.prems i by (intro put_bytes_Cons) simp
      ultimately show ?thesis using s v by simp
    qed
    show ?thesis
    proof (cases "c = 37 \<and> src + 2 < end")
      case True
      let ?r = "take (end - (src + 3)) (drop (src + 3) d)"
      have rest3: "take (end - src) (drop src d) = 37 # d ! (src + 1) # d ! (src + 2) # ?r"
        using True i less.prems unfolding rest by (simp add: drop_take_step numeral_3_eq_3)
      with less.prems(4) obtain x y t' where x: "hex_val (d ! (src + 1)) = Some x" "hex_val (d ! (src + 2)) = Some y"
        "url_bytes ?r = Some t'" "t = (push_bit 4 x OR y) # t'"
        by (auto split: option.splits)
      let ?d = "d[dst := push_bit 4 x OR y]"
      have "drop (src + 3) ?d = drop (src + 3) d" using less.prems by simp
      then have "urldecode_loop end (src + 3) (Suc dst) ?d = Some (Suc dst + length t', put_bytes ?d (Suc dst) t')"
        using less.prems True x by (intro less.hyps) auto
      moreover have "put_bytes ?d (Suc dst) t' = put_bytes d dst ((push_bit 4 x OR y) # t')"
        using url_bytes_length [OF x(3)] less.prems True by (intro put_bytes_Cons) auto
      moreover have "pct_decode src dst d = Some ?d" using x True less.prems by (intro pct_decode_put) simp_all
      ultimately show ?thesis using i p True x by (simp add: urldecode_loop.simps [of "end" src])
    next
      case False
      have "\<not> (c = 37 \<and> 2 \<le> length (take (end - Suc src) (drop (Suc src) d)))" using False less.prems by auto
      then have "\<exists>t'. url_bytes (take (end - Suc src) (drop (Suc src) d)) = Some t' \<and> t = (if c = 43 then 32 else c) # t'"
        using less.prems(4) url_bytes_other [of c "take (end - Suc src) (drop (Suc src) d)"]
        unfolding rest by (cases "url_bytes (take (end - Suc src) (drop (Suc src) d))") (auto split: if_splits)
      then show ?thesis using one i p False by (auto simp: urldecode_loop.simps [of "end" src])
    qed
  qed
qed


subsection \<open>Encoding and decoding\<close>

lemma bytes_str_urlencode2_spec:
  assumes "bytes_wf src" "bytes_wf dst" "content src = s @ [0]" "bsz src * 3 + 1 \<le> bsz dst" "bsz src * 3 + 1 < 2 ^ 32"
  obtains e where "bytes_str_urlencode2 dst src = Some e" "bytes_wf e" "content e = url_text s @ [0]"
proof -
  let ?n = "bsz src - 1" and ?d = "bdata dst" and ?t = "url_text s"
  have len: "length (content src) = bsz src" using assms(1) by (simp add: bytes_wf_def)
  then have n: "bsz src = length s + 1" using assms(3) by simp
  have "take ?n (bdata src) = take ?n (content src)" using n by simp
  then have s: "take ?n (bdata src) = s" unfolding assms(3) using n by simp
  have room: "bsz dst < length ?d" "length ?d < 2 ^ 63" "?n \<le> length (bdata src)" using assms(1,2) by (auto simp: bytes_wf_def)
  have tl: "length ?t \<le> 3 * ?n" using url_text_length [of s] n by simp
  have "urlencode_loop (bdata src) ?n 0 0 ?d = Some (length ?t, put_bytes ?d 0 ?t)"
    using urlencode_loop_put [of ?n "bdata src" 0 0 ?d] room assms(4,5) n s by (simp add: Let_def)
  moreover have "(put_bytes ?d 0 ?t)[length ?t := 0] = put_bytes ?d 0 (?t @ [0])"
  proof -
    have "length (put_bytes ?d 0 ?t) = length ?d" using tl room assms(4) n by simp
    then have "(put_bytes ?d 0 ?t)[length ?t := 0] = put_bytes (put_bytes ?d 0 ?t) (length ?t) [0]"
      using tl room assms(4) n by (intro put_bytes_single) simp
    also have "\<dots> = put_bytes ?d 0 (?t @ [0])"
      using put_bytes_put_bytes [of 0 ?t "[0]" ?d] tl room assms(4) n by simp
    finally show ?thesis .
  qed
  moreover have "U32 (length ?t + 1) = length ?t + 1" using tl assms(5) n by simp
  moreover have "length ?t < length (put_bytes ?d 0 ?t)" using tl room assms(4) n by simp
  ultimately have enc: "urlencode_reserved ?d (bdata src) ?n = Some (length ?t + 1, put_bytes ?d 0 (?t @ [0]))"
    by (simp add: urlencode_reserved_def)
  let ?e = "dst\<lparr>bsz := length ?t + 1, bhash := 0, bdata := put_bytes ?d 0 (?t @ [0])\<rparr>"
  have "SZ (bsz src + 2 ^ 64 - 1) = ?n" "SZ (bsz src * 3 + 1) \<le> bsz dst"
    using n assms(4,5) by (simp_all add: SZ_def)
  then have "bytes_str_urlencode2 dst src = Some ?e" using enc by (simp add: bytes_str_urlencode2_def)
  moreover have "content ?e = ?t @ [0]" by (simp add: put_bytes_def)
  moreover have "bytes_wf ?e" using tl room assms(4) n by (simp add: bytes_wf_def)
  ultimately show thesis using that by blast
qed

lemma bytes_urldecode_spec:
  assumes wf: "bytes_wf e" and t: "url_bytes (content e) = Some (s @ [0])"
  obtains u where "bytes_urldecode e = Some u" "bytes_wf u" "content u = s @ [0]" "bhash u = 0"
proof -
  let ?n = "bsz e" and ?d = "bdata e" and ?t = "s @ [0]"
  have n: "?n < length ?d" "length ?d < 2 ^ 63" using wf by (simp_all add: bytes_wf_def)
  have tl: "length ?t \<le> ?n" using url_bytes_length [OF t] n by simp
  have loop: "urldecode_loop ?n 0 0 ?d = Some (length ?t, put_bytes ?d 0 ?t)"
    using urldecode_loop_put [of 0 0 ?n ?d ?t] n t by simp
  have "put_bytes ?d 0 ?t ! (length ?t - 1) = 0" using tl n by (simp add: put_bytes_nth nth_append)
  then have "(put_bytes ?d 0 ?t)[length ?t - 1 := 0] = put_bytes ?d 0 ?t" by (metis list_update_id)
  moreover have "length (put_bytes ?d 0 ?t) = length ?d" using tl n by simp
  ultimately have "bytes_urldecode e = Some (e\<lparr>bsz := length ?t, bhash := 0, bdata := put_bytes ?d 0 ?t\<rparr>)"
    using loop tl n by (simp add: bytes_urldecode_def)
  then show thesis using that tl n by (simp add: put_bytes_def bytes_wf_def)
qed

text \<open>
  C39: Percent-encoding a terminated string into a destination of the size the code asserts and
  decoding the result in place gives back its bytes, whatever they are; neither operation faults. The size
  stays below \<^verbatim>\<open>2^32\<close>.
\<close>

theorem bytes_url_roundtrip:
  assumes "bytes_wf src" "bytes_wf dst" "content src = s @ [0]" "bsz src * 3 + 1 \<le> bsz dst" "bsz src * 3 + 1 < 2 ^ 32"
  shows "\<exists>e u. bytes_str_urlencode2 dst src = Some e \<and> bytes_urldecode e = Some u \<and> content u = content src"
proof -
  obtain e where e: "bytes_str_urlencode2 dst src = Some e" "bytes_wf e" "content e = url_text s @ [0]"
    using bytes_str_urlencode2_spec [OF assms] .
  then have "url_bytes (content e) = Some (s @ [0])" by (simp only: url_bytes_text)
  from bytes_urldecode_spec [OF e(2) this] e assms(3) show ?thesis by metis
qed

theorem bytes_url_roundtrip_witness:
  "\<exists>e u. bytes_str_urlencode2 \<lparr>nref = 1, bsz = 7, bhash = 0, bdata = [9, 9, 9, 9, 9, 9, 9, 9]\<rparr>
         \<lparr>nref = 1, bsz = 2, bhash = 0, bdata = [43, 0, 0]\<rparr> = Some e
     \<and> bytes_urldecode e = Some u \<and> content u = [43, 0]"
proof -
  have "bytes_wf \<lparr>nref = 1, bsz = 7, bhash = 0, bdata = [9, 9, 9, 9, 9, 9, 9, 9]\<rparr>"
    "bytes_wf \<lparr>nref = 1, bsz = 2, bhash = 0, bdata = [43, 0, 0]\<rparr>" by (simp_all add: bytes_wf_def)
  then show ?thesis
    using bytes_url_roundtrip [of "\<lparr>nref = 1, bsz = 2, bhash = 0, bdata = [43, 0, 0]\<rparr>"
        "\<lparr>nref = 1, bsz = 7, bhash = 0, bdata = [9, 9, 9, 9, 9, 9, 9, 9]\<rparr>" "[43]"] by simp
qed

subsection \<open>Trailing blanks\<close>

definition is_blank :: "u8 \<Rightarrow> bool" where
  "is_blank c \<longleftrightarrow> c = 32 \<or> c = 10 \<or> c = 9"

definition rstripped :: "u8 list \<Rightarrow> u8 list" where
  "rstripped s = rev (dropWhile is_blank (rev s))"

lemma rstripped_snoc: "rstripped (s @ [c]) = (if is_blank c then rstripped s else s @ [c])"
  by (simp add: rstripped_def)

lemma rstripped_length: "length (rstripped s) \<le> length s"
  using length_dropWhile_le [of is_blank "rev s"] by (simp add: rstripped_def)

lemma rstrip_loop_put:
  "n < length d \<Longrightarrow> d ! n = 0 \<Longrightarrow>
     \<exists>d'. rstrip_loop n d = Some (length (rstripped (take n d)), d') \<and> length d' = length d
       \<and> take (length (rstripped (take n d)) + 1) d' = rstripped (take n d) @ [0]"
proof (induction n arbitrary: d)
  case 0
  then show ?case by (cases d) (simp_all add: rstripped_def)
next
  case (Suc n)
  then have t: "take (Suc n) d = take n d @ [d ! n]" by (simp add: take_Suc_conv_app_nth)
  show ?case
  proof (cases "is_blank (d ! n)")
    case True
    then have "rstrip_loop (Suc n) d = rstrip_loop n (d[n := 0])" using Suc.prems by (auto simp: is_blank_def)
    moreover have "rstripped (take (Suc n) d) = rstripped (take n (d[n := 0]))" using True unfolding t rstripped_snoc by simp
    ultimately show ?thesis using Suc.IH [of "d[n := 0]"] Suc.prems by simp
  next
    case False
    then have "rstrip_loop (Suc n) d = Some (Suc n, d[Suc n := 0])" using Suc.prems by (auto simp: is_blank_def)
    moreover have "rstripped (take (Suc n) d) = take (Suc n) d" using False unfolding t rstripped_snoc by simp
    moreover have "d[Suc n := 0] = d" using Suc.prems by (metis list_update_id)
    moreover have "take (Suc (Suc n)) d = take (Suc n) d @ [0]" using Suc.prems by (simp add: take_Suc_conv_app_nth)
    ultimately show ?thesis using Suc.prems by simp
  qed
qed

text \<open>
  \<^verbatim>\<open>bytes_rstrip_blanks\<close> removes exactly the blanks at the end of a terminated string and ends it
  again with a zero; an all-blank string becomes the empty one.
\<close>

theorem bytes_rstrip_blanks_strips:
  assumes "bytes_wf str" "content str = s @ [0]"
  shows "\<exists>u. bytes_rstrip_blanks str = Some u \<and> content u = rstripped s @ [0] \<and> bytes_wf u \<and> bhash u = 0"
proof -
  let ?n = "bsz str - 1" and ?d = "bdata str"
  have len: "bsz str < length ?d" using assms(1) by (simp add: bytes_wf_def)
  have n: "bsz str = length s + 1" using arg_cong [OF assms(2), of length] len by simp
  have "take ?n ?d = take ?n (content str)" using n by simp
  then have s: "take ?n ?d = s" unfolding assms(2) using n by simp
  have "?d ! ?n = content str ! ?n" using n by simp
  then have z: "?d ! ?n = 0" unfolding assms(2) using n by simp
  obtain d' where d: "rstrip_loop ?n ?d = Some (length (rstripped s), d')" "length d' = length ?d"
    "take (length (rstripped s) + 1) d' = rstripped s @ [0]"
    using rstrip_loop_put [of ?n ?d] len z n unfolding s by auto
  then have "bytes_rstrip_blanks str = Some (str\<lparr>bsz := length (rstripped s) + 1, bhash := 0, bdata := d'\<rparr>)"
    using n by (simp add: bytes_rstrip_blanks_def)
  then show ?thesis using d n len rstripped_length [of s] assms(1) by (simp add: bytes_wf_def)
qed

theorem bytes_rstrip_blanks_strips_witness:
  "\<exists>u. bytes_rstrip_blanks \<lparr>nref = 1, bsz = 4, bhash = 5, bdata = [97, 9, 32, 0, 1]\<rparr> = Some u \<and> content u = [97, 0]"
  using bytes_rstrip_blanks_strips [of "\<lparr>nref = 1, bsz = 4, bhash = 5, bdata = [97, 9, 32, 0, 1]\<rparr>" "[97, 9, 32]"]
  by (auto simp: bytes_wf_def rstripped_def is_blank_def)

subsection \<open>Base64 of a string whose size is a multiple of three\<close>

text \<open>
  \<^verbatim>\<open>bytes_base64_encode_url_str\<close> passes the encoder the exact size of the text, and the encoder
  wants room for one group more when the size is a multiple of three: the result is then NULL.
\<close>

lemma bytes_base64_encode_url_str_null:
  assumes malloc: "total_allocator malloc" and s: "0 < bsz s" "bsz s < 2 ^ 60" "(bsz s - 1) mod 3 = 0"
  shows "bytes_base64_encode_url_str malloc s = Some None"
proof -
  obtain k where k: "bsz s - Suc 0 = 3 * k" using s(3) by (metis One_nat_def dvd_def mod_eq_0_iff_dvd)
  have kb: "k < 2 ^ 60" using k s(2) by linarith
  obtain b where b: "bytes_new malloc (4 * k + 1) = Some b" "nref b = 0"
    using bytes_new_spec [OF malloc, of "4 * k + 1"] kb by auto
  have "SZ (SZ (3 * k) * 4) div 3 = 4 * k" "SZ (4 * k + 1) = 4 * k + 1" "SZ ((k + 1) * 4) = (k + 1) * 4"
    using kb by simp_all
  then show ?thesis
    using b s(1) by (simp add: bytes_base64_encode_url_str_def k Let_def mnbase64_encode_url_std_def
        MNBASE64_ENCODE_BODY_def bytes_decref_def bytes_decref_fast_def)
qed

subsection \<open>Splitting\<close>

function pieces :: "u8 list \<Rightarrow> u8 list \<Rightarrow> u8 list list" where
  "pieces dl s =
     (case strstr s dl of
        None \<Rightarrow> [s]
      | Some k \<Rightarrow> if dl = [] then [s] else take k s # pieces dl (drop (k + length dl) s))"
  by pat_completeness auto
termination
proof (relation "measure (\<lambda>(dl, s). length s)", simp)
  fix dl s :: "u8 list" and k assume "strstr s dl = Some k" "dl \<noteq> []"
  then have "k + length dl \<le> length s" "0 < length dl" using strstr_Some [of s dl k] by (auto simp: occurs_at_def)
  then show "((dl, drop (k + length dl) s), dl, s) \<in> measure (\<lambda>(dl, s). length s)"
    by (simp del: length_greater_0_conv)
qed

declare pieces.simps [simp del]

fun join :: "u8 list \<Rightarrow> u8 list list \<Rightarrow> u8 list" where
  "join dl [] = []"
| "join dl [p] = p"
| "join dl (p # ps) = p @ dl @ join dl ps"

lemma pieces_ne: "pieces dl s \<noteq> []"
  by (subst pieces.simps) (auto split: option.splits)

lemma join_Cons: "ps \<noteq> [] \<Longrightarrow> join dl (p # ps) = p @ dl @ join dl ps"
  by (cases ps) auto

lemma pieces_join:
  assumes "dl \<noteq> []"
  shows "join dl (pieces dl s) = s \<and> (\<forall>p \<in> set (pieces dl s). \<forall>i. \<not> occurs_at p dl i)"
proof (induction s rule: measure_induct_rule [of length])
  case (less s)
  show ?case
  proof (cases "strstr s dl")
    case None
    then have "\<forall>i. \<not> occurs_at s dl i" using strstr_None by blast
    moreover have "pieces dl s = [s]" by (subst pieces.simps) (simp add: None)
    ultimately show ?thesis by auto
  next
    case (Some k)
    let ?r = "drop (k + length dl) s"
    have k: "occurs_at s dl k" "\<forall>i < k. \<not> occurs_at s dl i" using strstr_Some [OF Some] by auto
    then have len: "k + length dl \<le> length s" "0 < length dl" using assms by (auto simp: occurs_at_def)
    then have "length ?r < length s" by (simp del: length_greater_0_conv)
    then have IH: "join dl (pieces dl ?r) = ?r" "\<forall>p \<in> set (pieces dl ?r). \<forall>i. \<not> occurs_at p dl i"
      using less [of ?r] by blast+
    have p: "pieces dl s = take k s # pieces dl ?r" using Some assms by (subst pieces.simps) simp
    have "take k s @ dl @ ?r = s"
      using k(1) by (metis append_assoc append_take_drop_id drop_drop add.commute occurs_at_def)
    then have "join dl (pieces dl s) = s" unfolding p using IH(1) by (simp add: join_Cons pieces_ne)
    moreover have "\<not> occurs_at (take k s) dl i" for i
    proof
      assume o: "occurs_at (take k s) dl i"
      then have i: "i + length dl \<le> k" using len by (simp add: occurs_at_def)
      then have "take (length dl) (drop i (take k s)) = take (length dl) (drop i s)" by (simp add: drop_take)
      then have "occurs_at s dl i" using o i len by (simp add: occurs_at_def)
      moreover have "i < k" using i len by linarith
      ultimately show False using k(2) by blast
    qed
    ultimately show ?thesis unfolding p using IH(2) by auto
  qed
qed

text \<open>A callback that keeps what it is given.\<close>

definition keep_pieces :: "u8 list list split_cb" where
  "keep_pieces b w = (0, w @ [content b])"

lemma split_piece_put:
  assumes "p + n \<le> length d" "n < length (bdata tmp)"
  obtains t where "split_piece tmp d p n = Some t" "content t = take n (drop p d) @ [0]" "length (bdata t) = length (bdata tmp)"
proof -
  let ?t = "(put_bytes (bdata tmp) 0 (take n (drop p d)))[n := 0]"
  have l: "length (put_bytes (bdata tmp) 0 (take n (drop p d))) = length (bdata tmp)" using assms by simp
  have "split_piece tmp d p n = Some (tmp\<lparr>bsz := n + 1, bhash := 0, bdata := ?t\<rparr>)"
    using assms l by (simp add: split_piece_def memcpy_to_def)
  moreover have "take (n + 1) ?t = take n (drop p d) @ [0]"
    using assms l by (simp add: take_Suc_conv_app_nth put_bytes_def)
  ultimately show thesis using that l by simp
qed

lemma split_loop_pieces:
  assumes "dl \<noteq> []" "0 \<notin> set s" "d = s @ 0 # r" "p \<le> length s" "length s < length (bdata tmp)"
  shows "split_loop d (length s) dl keep_pieces tmp p w = Some (0, w @ map (\<lambda>q. q @ [0]) (pieces dl (drop p s)))"
  using assms(4,5)
proof (induction "length s - p" arbitrary: p tmp w rule: less_induct)
  case less
  have "drop p d = drop p s @ 0 # r" using less.prems assms(3) by simp
  moreover have "0 \<notin> set (drop p s)" using assms(2) by (meson in_set_dropD)
  ultimately have c: "cstr (drop p d) = Some (drop p s)" by (simp add: cstr_terminated)
  show ?case
  proof (cases "strstr (drop p s) dl")
    case None
    have "length s - p < length (bdata tmp)" using less.prems by linarith
    then obtain t where t: "split_piece tmp d p (length s - p) = Some t" "content t = take (length s - p) (drop p d) @ [0]"
      using split_piece_put [of p "length s - p" d tmp] less.prems assms(3) by auto
    have "take (length s - p) (drop p d) = drop p s" using less.prems assms(3) by simp
    with t None less.prems show ?thesis
      by (simp add: split_loop.simps [of d] c keep_pieces_def pieces.simps [of dl "drop p s"])
  next
    case (Some k)
    then have k: "p + k + length dl \<le> length s" "0 < length dl"
      using strstr_Some [OF Some] assms(1) less.prems by (auto simp: occurs_at_def)
    obtain t where t: "split_piece tmp d p k = Some t" "content t = take k (drop p d) @ [0]" "length (bdata t) = length (bdata tmp)"
      using split_piece_put [of p k d tmp] less.prems k assms(3) by auto
    have "take k (drop p d) = take k (drop p s)" using k assms(3) by simp
    moreover have "split_loop d (length s) dl keep_pieces t (p + k + length dl) (w @ [content t])
        = Some (0, (w @ [content t]) @ map (\<lambda>q. q @ [0]) (pieces dl (drop (p + k + length dl) s)))"
      using k t(3) less.prems by (intro less.hyps) (simp_all del: length_greater_0_conv)
    moreover have "pieces dl (drop p s) = take k (drop p s) # pieces dl (drop (p + k + length dl) s)"
      using Some assms(1) by (subst pieces.simps) (simp add: ac_simps)
    ultimately show ?thesis
      using Some t by (simp add: split_loop.simps [of d "length s" dl keep_pieces tmp p] c keep_pieces_def)
  qed
qed

text \<open>
  \<^verbatim>\<open>bytes_split_iter\<close> calls back once for each piece between delimiters, in order, with the piece
  terminated by a zero: joined by the delimiter the pieces are the string, and no piece contains the
  delimiter. It terminates and does not fault.
\<close>

theorem bytes_split_iter_pieces:
  assumes "total_allocator malloc" "bytes_wf str" "content str = s @ [0]" "0 \<notin> set s" "bsz str < 2 ^ 62"
    and "dl \<noteq> []" "0 \<notin> set dl"
  shows "\<exists>ps. bytes_split_iter malloc str (dl @ [0]) keep_pieces [] = Some (0, map (\<lambda>p. p @ [0]) ps)
    \<and> join dl ps = s \<and> (\<forall>p \<in> set ps. \<forall>i. \<not> occurs_at p dl i)"
proof -
  have len: "bsz str < length (bdata str)" using assms(2) by (simp add: bytes_wf_def)
  have n: "bsz str = length s + 1" using arg_cong [OF assms(3), of length] len by simp
  have d: "bdata str = s @ 0 # drop (bsz str) (bdata str)"
    using append_take_drop_id [of "bsz str" "bdata str"] unfolding assms(3) by simp
  obtain tmp where tmp: "bytes_new malloc (bsz str) = Some tmp" "bytes_wf tmp" "bsz tmp = bsz str"
    using bytes_new_spec [OF assms(1), of "bsz str"] n assms(5) by auto
  have "length s < length (bdata tmp)" using tmp n by (simp add: bytes_wf_def)
  then have "split_loop (bdata str) (length s) dl keep_pieces tmp 0 [] = Some (0, [] @ map (\<lambda>q. q @ [0]) (pieces dl (drop 0 s)))"
    using assms(4,6) d by (intro split_loop_pieces) simp_all
  moreover have "cstr (dl @ [0]) = Some dl" using cstr_terminated [OF assms(7), of "[]"] by simp
  ultimately have "bytes_split_iter malloc str (dl @ [0]) keep_pieces [] = Some (0, map (\<lambda>p. p @ [0]) (pieces dl s))"
    using tmp assms(6) n by (simp add: bytes_split_iter_def)
  then show ?thesis using pieces_join [OF assms(6), of s] by blast
qed

theorem bytes_split_iter_pieces_witness:
  "\<exists>ps. bytes_split_iter (std_alloc (\<lambda>_. 0)) \<lparr>nref = 1, bsz = 4, bhash = 0, bdata = [97, 44, 98, 0, 0]\<rparr> ([44] @ [0]) keep_pieces []
      = Some (0, map (\<lambda>p. p @ [0]) ps) \<and> join [44] ps = [97, 44, 98]"
proof -
  have "bytes_wf \<lparr>nref = 1, bsz = 4, bhash = 0, bdata = [97, 44, 98, 0, 0]\<rparr>" by (simp add: bytes_wf_def)
  then show ?thesis
    using bytes_split_iter_pieces [OF std_total.total_allocator_axioms,
        of "\<lparr>nref = 1, bsz = 4, bhash = 0, bdata = [97, 44, 98, 0, 0]\<rparr>" "[97, 44, 98]" "[44]" "\<lambda>_. 0"] by auto
qed

end
