(* ===== verification/Mn_Cm.thy ===== *)
theory Mn_Cm
  imports Mn_Hashfn Hash_Dict
begin

text \<open>
  \<^verbatim>\<open>src/src/cm.c\<close>: the count-min sketch \<^verbatim>\<open>cm_t\<close>, the vector of row indexes \<^verbatim>\<open>cmhash_t\<close> and the
  priority set \<^verbatim>\<open>pset_t\<close> over the hash table. A key is the list of the bytes the caller points
  to. The counters are \<^verbatim>\<open>int64_t\<close>: an overflowing sum is undefined and so a fault. An
  allocation that fails ends the program (\<^verbatim>\<open>FAIL\<close>), a fault as well.
\<close>

subsection \<open>The sketch\<close>

record cm =
  cm_w :: nat
  cm_d :: nat
  cm_v :: "int list option"

definition CMMAX :: int where
  "CMMAX = 9223372036854775807"

definition s64 :: "int \<Rightarrow> bool" where
  "s64 n \<longleftrightarrow> - (2 ^ 63) \<le> n \<and> n < 2 ^ 63"

definition cm_init :: "int alloc \<Rightarrow> nat \<Rightarrow> nat \<Rightarrow> cm option" where
  "cm_init alloc w d =
     do { blk \<leftarrow> alloc (SZ (w * d));
          Some \<lparr>cm_w = w, cm_d = d, cm_v = Some (map (\<lambda>_. 0) blk)\<rparr> }"

definition cm_fini :: "cm \<Rightarrow> cm" where
  "cm_fini cm = cm\<lparr>cm_v := None\<rparr>"

text \<open>\<^verbatim>\<open>fasthash(i, key, ksz) % cm->d\<close>, and the index of the cell.\<close>

definition row_index :: "nat \<Rightarrow> u8 list \<Rightarrow> nat \<Rightarrow> nat option" where
  "row_index i key d = do { _ \<leftarrow> guard (d > 0); Some (unat (fasthash (word_of_nat i) key) mod d) }"

definition cm_cell :: "cm \<Rightarrow> nat \<Rightarrow> u8 list \<Rightarrow> nat option" where
  "cm_cell cm i key = do { j \<leftarrow> row_index i key (cm_d cm); Some (SZ (cm_d cm * i + j)) }"

fun cm_add_rows :: "nat list \<Rightarrow> cm \<Rightarrow> u8 list \<Rightarrow> int \<Rightarrow> cm option" where
  "cm_add_rows [] cm key val = Some cm"
| "cm_add_rows (i # is) cm key val =
     do { c \<leftarrow> cm_cell cm i key;
          v \<leftarrow> cm_v cm;
          x \<leftarrow> peek v c;
          _ \<leftarrow> guard (s64 (x + val));
          v' \<leftarrow> poke v c (x + val);
          cm_add_rows is (cm\<lparr>cm_v := Some v'\<rparr>) key val }"

definition cm_add :: "cm \<Rightarrow> u8 list \<Rightarrow> int \<Rightarrow> cm option" where
  "cm_add cm key val = cm_add_rows [0..<cm_w cm] cm key val"

text \<open>The result is \<^verbatim>\<open>*val\<close>, which the caller sets first.\<close>

fun cm_get_rows :: "nat list \<Rightarrow> cm \<Rightarrow> u8 list \<Rightarrow> int \<Rightarrow> int option" where
  "cm_get_rows [] cm key val = Some val"
| "cm_get_rows (i # is) cm key val =
     do { c \<leftarrow> cm_cell cm i key;
          vs \<leftarrow> cm_v cm;
          v \<leftarrow> peek vs c;
          cm_get_rows is cm key (MNMIN val v) }"

definition cm_get :: "cm \<Rightarrow> u8 list \<Rightarrow> int \<Rightarrow> int option" where
  "cm_get cm key val = cm_get_rows [0..<cm_w cm] cm key val"

subsection \<open>What a sketch stands for\<close>

text \<open>
  The abstract state is the history: the list of the additions. A cell holds the sum of the
  values whose key falls into its column in that row.
\<close>

type_synonym cm_log = "(u8 list \<times> int) list"

definition row_col :: "nat \<Rightarrow> nat \<Rightarrow> u8 list \<Rightarrow> nat" where
  "row_col d i key = unat (fasthash (word_of_nat i) key) mod d"

definition cell_sum :: "nat \<Rightarrow> nat \<Rightarrow> nat \<Rightarrow> cm_log \<Rightarrow> int" where
  "cell_sum d i j log = sum_list (map snd (filter (\<lambda>e. row_col d i (fst e) = j) log))"

definition key_sum :: "u8 list \<Rightarrow> cm_log \<Rightarrow> int" where
  "key_sum key log = sum_list (map snd (filter (\<lambda>e. fst e = key) log))"

definition log_total :: "cm_log \<Rightarrow> int" where
  "log_total log = sum_list (map snd log)"

definition log_ok :: "cm_log \<Rightarrow> bool" where
  "log_ok log \<longleftrightarrow> (\<forall>e \<in> set log. 0 \<le> snd e) \<and> log_total log < 2 ^ 63"

definition cm_rep :: "cm \<Rightarrow> cm_log \<Rightarrow> bool" where
  "cm_rep cm log \<longleftrightarrow> cm_d cm > 0 \<and> cm_w cm * cm_d cm < 2 ^ 64 \<and>
     (\<exists>v. cm_v cm = Some v \<and> length v = cm_w cm * cm_d cm \<and>
        (\<forall>i < cm_w cm. \<forall>j < cm_d cm. v ! (cm_d cm * i + j) = cell_sum (cm_d cm) i j log))"

fun cm_add_all :: "cm_log \<Rightarrow> cm \<Rightarrow> cm option" where
  "cm_add_all [] cm = Some cm"
| "cm_add_all (e # es) cm = do { cm' \<leftarrow> cm_add cm (fst e) (snd e); cm_add_all es cm' }"

lemma sum_filter_le:
  "\<forall>e \<in> set log. (0::int) \<le> f e \<Longrightarrow> sum_list (map f (filter P log)) \<le> sum_list (map f log)"
  by (induction log) auto

lemma sum_filter_mono:
  "\<forall>e \<in> set log. (0::int) \<le> f e \<Longrightarrow> (\<And>e. e \<in> set log \<Longrightarrow> P e \<Longrightarrow> Q e) \<Longrightarrow>
     sum_list (map f (filter P log)) \<le> sum_list (map f (filter Q log))"
  by (induction log) (auto simp: add_increasing)

lemma sum_filter_nonneg:
  "\<forall>e \<in> set log. (0::int) \<le> f e \<Longrightarrow> 0 \<le> sum_list (map f (filter P log))"
  by (induction log) auto

lemma cell_bounds:
  assumes "log_ok log"
  shows "key_sum key log \<le> cell_sum d i (row_col d i key) log" "cell_sum d i j log \<le> log_total log"
    "0 \<le> cell_sum d i j log"
  using assms sum_filter_mono [of log snd "\<lambda>e. fst e = key" "\<lambda>e. row_col d i (fst e) = row_col d i key"]
    sum_filter_le [of log snd] sum_filter_nonneg [of log snd]
  by (auto simp: log_ok_def key_sum_def cell_sum_def log_total_def)

lemma cell_sum_snoc:
  "cell_sum d i j (log @ [(key, val)]) = cell_sum d i j log + (if row_col d i key = j then val else 0)"
  by (simp add: cell_sum_def)

lemma cell_less: "i < w \<Longrightarrow> j < d \<Longrightarrow> d * i + j < w * (d::nat)"
proof -
  assume "i < w" "j < d"
  then have "d * i + j < d * i + d" "Suc i \<le> w" by simp_all
  moreover have "d * Suc i \<le> d * w" using \<open>Suc i \<le> w\<close> by (rule mult_le_mono2)
  ultimately show ?thesis by (simp add: algebra_simps)
qed

lemma cell_inj: "j < d \<Longrightarrow> j' < d \<Longrightarrow> d * i + j = d * i' + j' \<Longrightarrow> i = i' \<and> j = (j'::nat)"
  by (metis Suc_leI add.commute add_left_cancel div_mult_self4 div_less le_zero_eq less_eq_Suc_le
      less_nat_zero_code not_less_zero add_cancel_left_right)

lemma cm_cell_in:
  assumes "cm_d cm > 0" "cm_w cm * cm_d cm < 2 ^ 64" "i < cm_w cm"
  shows "cm_cell cm i key = Some (cm_d cm * i + row_col (cm_d cm) i key)"
    "cm_d cm * i + row_col (cm_d cm) i key < cm_w cm * cm_d cm"
proof -
  have "row_col (cm_d cm) i key < cm_d cm" using assms(1) by (simp add: row_col_def)
  then show l: "cm_d cm * i + row_col (cm_d cm) i key < cm_w cm * cm_d cm" using cell_less assms(3) by blast
  show "cm_cell cm i key = Some (cm_d cm * i + row_col (cm_d cm) i key)"
    using assms(1,2) l by (simp add: cm_cell_def row_index_def row_col_def)
qed

text \<open>The rows before \<open>k\<close> have the new value, the others not yet.\<close>

lemma cm_add_rows_rep:
  assumes d: "cm_d cm > 0" "cm_w cm * cm_d cm < 2 ^ 64" and ok: "log_ok (log @ [(key, val)])"
  shows "k \<le> cm_w cm \<Longrightarrow> cm_v cm = Some v \<Longrightarrow> length v = cm_w cm * cm_d cm \<Longrightarrow>
     (\<forall>i < cm_w cm. \<forall>j < cm_d cm. v ! (cm_d cm * i + j) =
        cell_sum (cm_d cm) i j (if i < k then log @ [(key, val)] else log)) \<Longrightarrow>
     \<exists>cm'. cm_add_rows [k..<cm_w cm] cm key val = Some cm' \<and> cm_rep cm' (log @ [(key, val)]) \<and>
       cm_w cm' = cm_w cm \<and> cm_d cm' = cm_d cm"
  using d
proof (induction "cm_w cm - k" arbitrary: k cm v)
  case 0
  then show ?case by (auto simp: cm_rep_def)
next
  case (Suc n)
  let ?d = "cm_d cm" and ?j = "row_col (cm_d cm) k key"
  let ?c = "?d * k + ?j"
  have k: "k < cm_w cm" and n: "n = cm_w cm - Suc k" using Suc.hyps(2) by simp_all
  note cell = cm_cell_in [OF Suc.prems(5,6) k, of key]
  have j: "?j < ?d" using Suc.prems(5) by (simp add: row_col_def)
  have x: "v ! ?c = cell_sum ?d k ?j log" using Suc.prems(4) k j by simp
  have y: "cell_sum ?d k ?j log + val = cell_sum ?d k ?j (log @ [(key, val)])" by (simp add: cell_sum_snoc)
  have "s64 (cell_sum ?d k ?j (log @ [(key, val)]))"
    using cell_bounds(2,3) [OF ok, of ?d k ?j] ok by (simp add: s64_def log_ok_def)
  then have s: "s64 (v ! ?c + val)" using x y by simp
  let ?cm = "cm\<lparr>cm_v := Some (v[?c := v ! ?c + val])\<rparr>"
  have step: "cm_add_rows [k..<cm_w cm] cm key val = cm_add_rows [Suc k..<cm_w cm] ?cm key val"
    using k cell s Suc.prems(2,3) by (simp add: upt_conv_Cons)
  have new: "\<forall>i < cm_w ?cm. \<forall>i' < cm_d ?cm. (v[?c := v ! ?c + val]) ! (cm_d ?cm * i + i') =
        cell_sum (cm_d ?cm) i i' (if i < Suc k then log @ [(key, val)] else log)"
  proof (intro allI impI)
    fix i i' assume i: "i < cm_w ?cm" "i' < cm_d ?cm"
    have len: "?c < length v" using cell(2) Suc.prems(3) by simp
    show "(v[?c := v ! ?c + val]) ! (cm_d ?cm * i + i') =
        cell_sum (cm_d ?cm) i i' (if i < Suc k then log @ [(key, val)] else log)"
    proof (cases "i = k \<and> i' = ?j")
      case True
      then show ?thesis using len x y by simp
    next
      case False
      then have "?d * i + i' \<noteq> ?c" using cell_inj [of i' ?d ?j i k] i(2) j by auto
      then show ?thesis using Suc.prems(4) i False by (auto simp: cell_sum_snoc less_Suc_eq)
    qed
  qed
  have "\<exists>cm'. cm_add_rows [Suc k..<cm_w ?cm] ?cm key val = Some cm' \<and> cm_rep cm' (log @ [(key, val)]) \<and>
       cm_w cm' = cm_w ?cm \<and> cm_d cm' = cm_d ?cm"
    by (rule Suc.hyps(1)) (use n k new Suc.prems in auto)
  with step show ?case by simp
qed

lemma cm_add_rep:
  assumes rep: "cm_rep cm log" and ok: "log_ok (log @ [(key, val)])"
  shows "\<exists>cm'. cm_add cm key val = Some cm' \<and> cm_rep cm' (log @ [(key, val)]) \<and>
           cm_w cm' = cm_w cm \<and> cm_d cm' = cm_d cm"
proof -
  obtain v where "cm_d cm > 0" "cm_w cm * cm_d cm < 2 ^ 64" "cm_v cm = Some v" "length v = cm_w cm * cm_d cm"
      "\<forall>i < cm_w cm. \<forall>j < cm_d cm. v ! (cm_d cm * i + j) = cell_sum (cm_d cm) i j log"
    using rep by (auto simp: cm_rep_def)
  then show ?thesis using cm_add_rows_rep [of cm log key val 0 v] ok by (simp add: cm_add_def)
qed

lemma log_ok_prefix: "log_ok (a @ b) \<Longrightarrow> log_ok a"
proof -
  assume ok: "log_ok (a @ b)"
  then have "0 \<le> sum_list (map snd b)" by (intro sum_list_nonneg) (auto simp: log_ok_def)
  with ok show "log_ok a" by (auto simp: log_ok_def log_total_def)
qed

lemma cm_add_all_rep:
  "cm_rep cm log \<Longrightarrow> log_ok (log @ es) \<Longrightarrow>
     \<exists>cm'. cm_add_all es cm = Some cm' \<and> cm_rep cm' (log @ es) \<and> cm_w cm' = cm_w cm \<and> cm_d cm' = cm_d cm"
proof (induction es arbitrary: cm log)
  case (Cons e es)
  have "log_ok (log @ [(fst e, snd e)])" using Cons.prems(2) log_ok_prefix [of "log @ [e]" es] by simp
  from cm_add_rep [OF Cons.prems(1) this] obtain cm1 where c: "cm_add cm (fst e) (snd e) = Some cm1"
      "cm_rep cm1 (log @ [e])" "cm_w cm1 = cm_w cm" "cm_d cm1 = cm_d cm" by auto
  then show ?case using Cons.IH [OF c(2)] Cons.prems(2) by auto
qed simp

text \<open>The smallest of the cells, by rows.\<close>

lemma cm_get_rows_min:
  assumes rep: "cm_rep cm log"
  shows "set is \<subseteq> {..<cm_w cm} \<Longrightarrow>
     cm_get_rows is cm key val =
       Some (foldl min val (map (\<lambda>i. cell_sum (cm_d cm) i (row_col (cm_d cm) i key) log) is))"
proof (induction "is" arbitrary: val)
  case (Cons i "is")
  then have i: "i < cm_w cm" by simp
  obtain v where v: "cm_d cm > 0" "cm_w cm * cm_d cm < 2 ^ 64" "cm_v cm = Some v" "length v = cm_w cm * cm_d cm"
      "\<forall>i < cm_w cm. \<forall>j < cm_d cm. v ! (cm_d cm * i + j) = cell_sum (cm_d cm) i j log"
    using rep by (auto simp: cm_rep_def)
  have j: "row_col (cm_d cm) i key < cm_d cm" using v(1) by (simp add: row_col_def)
  then have "v ! (cm_d cm * i + row_col (cm_d cm) i key) = cell_sum (cm_d cm) i (row_col (cm_d cm) i key) log"
    using v(5) i by blast
  then show ?case using cm_cell_in [OF v(1,2) i, of key] v Cons by (simp add: MNMIN_eq_min)
qed simp

lemma foldl_min_bounds:
  "\<forall>x \<in> set xs. lo \<le> x \<Longrightarrow> lo \<le> a \<Longrightarrow> lo \<le> foldl min a xs"
  "x \<in> set xs \<Longrightarrow> foldl min a xs \<le> (x::int)" "foldl min a xs \<le> a"
proof -
  show le: "foldl min a xs \<le> a" for a and xs :: "int list"
  proof (induction xs arbitrary: a)
    case (Cons y ys)
    then show ?case using Cons.IH [of "min a y"] by simp
  qed simp
  show "\<forall>x \<in> set xs. lo \<le> x \<Longrightarrow> lo \<le> a \<Longrightarrow> lo \<le> foldl min a xs"
    by (induction xs arbitrary: a) simp_all
  show "x \<in> set xs \<Longrightarrow> foldl min a xs \<le> x"
  proof (induction xs arbitrary: a)
    case (Cons y ys)
    then show ?case using le [of "min a y" ys] by auto
  qed simp
qed

lemma cm_init_rep:
  assumes "total_allocator alloc" "0 < d" "w * d < 2 ^ 64"
  shows "\<exists>cm. cm_init alloc w d = Some cm \<and> cm_rep cm [] \<and> cm_w cm = w \<and> cm_d cm = d"
proof -
  obtain blk where b: "alloc (w * d) = Some blk" using total_allocator.alloc_total [OF assms(1)] by blast
  then have "length blk = w * d"
    using allocator.alloc_len [OF total_allocator.axioms(1) [OF assms(1)]] by blast
  then show ?thesis using b assms(2,3) cell_less by (auto simp: cm_init_def cm_rep_def cell_sum_def)
qed

text \<open>
  C14: The estimate of a sketch: after any additions of non-negative values whose total is an
  \<^verbatim>\<open>int64_t\<close>, \<^verbatim>\<open>cm_get\<close> returns (no access is out of range, no sum overflows) at least the
  true sum of the key and at most the sum of everything; and exactly the true sum when in some
  row no other added key falls into the key's column.
\<close>

theorem cm_estimate:
  assumes al: "total_allocator alloc" and w: "0 < w" and d: "0 < d" "w * d < 2 ^ 64" and ok: "log_ok log"
  shows "\<exists>r. do { c0 \<leftarrow> cm_init alloc w d; c \<leftarrow> cm_add_all log c0; cm_get c key CMMAX } = Some r \<and>
           key_sum key log \<le> r \<and> r \<le> log_total log \<and>
           ((\<exists>i < w. \<forall>e \<in> set log. row_col d i (fst e) = row_col d i key \<longrightarrow> fst e = key) \<longrightarrow> r = key_sum key log)"
proof -
  obtain c0 where c0: "cm_init alloc w d = Some c0" "cm_rep c0 []" "cm_w c0 = w" "cm_d c0 = d"
    using cm_init_rep [OF al d] by blast
  obtain c where c: "cm_add_all log c0 = Some c" "cm_rep c log" "cm_w c = w" "cm_d c = d"
    using cm_add_all_rep [OF c0(2), of log] ok c0(3,4) by auto
  let ?xs = "map (\<lambda>i. cell_sum d i (row_col d i key) log) [0..<w]"
  let ?r = "foldl min CMMAX ?xs"
  have g: "cm_get c key CMMAX = Some ?r"
    using cm_get_rows_min [OF c(2), of "[0..<w]" key CMMAX] c(3,4) by (simp add: cm_get_def atLeast0LessThan)
  have "key_sum key log \<le> CMMAX"
    using cell_bounds(1) [OF ok, of key d 0] cell_bounds(2) [OF ok, of d 0 "row_col d 0 key"] ok
    by (simp add: CMMAX_def log_ok_def)
  then have lo: "key_sum key log \<le> ?r"
    using foldl_min_bounds(1) [of ?xs "key_sum key log" CMMAX] cell_bounds(1) [OF ok] by simp
  have hi: "?r \<le> cell_sum d i (row_col d i key) log" if "i < w" for i
    using foldl_min_bounds(2) [of _ ?xs CMMAX] that by simp
  have "?r \<le> log_total log" using hi [OF w] cell_bounds(2) [OF ok, of d 0 "row_col d 0 key"] by simp
  moreover have "?r = key_sum key log"
    if ex: "\<exists>i < w. \<forall>e \<in> set log. row_col d i (fst e) = row_col d i key \<longrightarrow> fst e = key"
  proof -
    obtain i where i: "i < w" "\<forall>e \<in> set log. row_col d i (fst e) = row_col d i key \<longrightarrow> fst e = key"
      using ex by blast
    then have "filter (\<lambda>e. row_col d i (fst e) = row_col d i key) log = filter (\<lambda>e. fst e = key) log"
      by (intro filter_cong) auto
    then have "cell_sum d i (row_col d i key) log = key_sum key log" by (simp add: cell_sum_def key_sum_def)
    then show ?thesis using hi [OF i(1)] lo by simp
  qed
  ultimately show ?thesis using c0(1) c(1) g lo by auto
qed

theorem cm_estimate_witness:
  "\<exists>r. do { c0 \<leftarrow> cm_init (std_alloc (\<lambda>_. 7)) 2 3; c \<leftarrow> cm_add_all [([1], 4), ([2], 5), ([1], 6)] c0;
           cm_get c [1] CMMAX } = Some r \<and>
     10 \<le> r \<and> r \<le> 15 \<and>
     ((\<exists>i < 2. \<forall>e \<in> set [([1], 4), ([2], 5), ([1], 6 :: int)]. row_col 3 i (fst e) = row_col 3 i [1] \<longrightarrow> fst e = [1]) \<longrightarrow> r = 10)"
  using cm_estimate [OF std_total.total_allocator_axioms [of "\<lambda>_. 7"], of 2 3 "[([1], 4), ([2], 5), ([1], 6)]" "[1]"]
  by (simp add: log_ok_def log_total_def key_sum_def)

text \<open>A sketch without columns cannot be used: the first addition divides by zero.\<close>

lemma cm_no_columns_faults: "cm_w cm > 0 \<Longrightarrow> cm_d cm = 0 \<Longrightarrow> cm_add cm key val = None"
  by (simp add: cm_add_def cm_cell_def row_index_def upt_conv_Cons)

subsection \<open>The vector of indexes\<close>

text \<open>
  \<^verbatim>\<open>cmhash_t\<close>: the indexes are stored in an \<^verbatim>\<open>int\<close>. Both blocks hold what the allocator left
  there until they are written; \<^verbatim>\<open>o\<close> is the address of the bytes that are hashed.
\<close>

record cmhash =
  ch_v :: "int list option"
  ch_w :: nat
  ch_d :: nat
  ch_h :: u64
  ch_o :: "nat option"
  ch_osz :: nat
  ch_oh :: u64

definition cmhash_new :: "cmhash option \<Rightarrow> int alloc \<Rightarrow> nat \<Rightarrow> nat \<Rightarrow> cmhash option" where
  "cmhash_new struct alloc w d =
     do { h \<leftarrow> struct;
          v \<leftarrow> alloc (SZ (4 * w) div 4);
          Some (h\<lparr>ch_w := w, ch_d := d, ch_v := Some v\<rparr>) }"

definition cmhash_destroy :: "cmhash option \<Rightarrow> cmhash option" where
  "cmhash_destroy ph = None"

fun cmhash_rows :: "nat list \<Rightarrow> cmhash \<Rightarrow> u8 list \<Rightarrow> cmhash option" where
  "cmhash_rows [] cmh bs = Some cmh"
| "cmhash_rows (i # is) cmh bs =
     do { j \<leftarrow> row_index i bs (ch_d cmh);
          v \<leftarrow> ch_v cmh;
          v' \<leftarrow> poke v i (S32 (int j));
          cmhash_rows is (cmh\<lparr>ch_v := Some v'\<rparr>) bs }"

definition cmhash_hash :: "cmhash \<Rightarrow> nat \<Rightarrow> u8 list \<Rightarrow> cmhash option" where
  "cmhash_hash cmh o' bs =
     cmhash_rows [0..<ch_w cmh] (cmh\<lparr>ch_o := Some o', ch_osz := length bs, ch_oh := fasthash 0 bs\<rparr>) bs"

lemma cmhash_rows_spec:
  "ch_v cmh = Some v \<Longrightarrow> length v = w \<Longrightarrow> 0 < ch_d cmh \<Longrightarrow> k \<le> w \<Longrightarrow>
     cmhash_rows [k..<w] cmh bs =
       Some (cmh\<lparr>ch_v := Some (take k v @ map (\<lambda>i. S32 (int (row_col (ch_d cmh) i bs))) [k..<w])\<rparr>)"
proof (induction "w - k" arbitrary: k cmh v)
  case (Suc n)
  then have k: "k < w" "n = w - Suc k" by simp_all
  let ?x = "S32 (int (row_col (ch_d cmh) k bs))"
  let ?v = "v[k := ?x]"
  have "take (Suc k) ?v = take k v @ [?x]" using k Suc.prems(2) by (simp add: take_Suc_conv_app_nth)
  then show ?case
    using Suc.hyps(1) [OF k(2), of "cmh\<lparr>ch_v := Some ?v\<rparr>" ?v] Suc.prems k
    by (simp add: upt_conv_Cons row_index_def row_col_def)
qed simp

text \<open>The vector is the list of the columns the sketch uses for the same bytes.\<close>

lemma cmhash_hash_columns:
  assumes "ch_v cmh = Some v" "length v = ch_w cmh" "0 < ch_d cmh" "ch_d cmh \<le> 2 ^ 31"
  shows "\<exists>cmh'. cmhash_hash cmh a bs = Some cmh' \<and> ch_oh cmh' = fasthash 0 bs \<and>
           ch_v cmh' = Some (map (\<lambda>i. int (row_col (ch_d cmh) i bs)) [0..<ch_w cmh])"
proof -
  have "S32 (int (row_col (ch_d cmh) i bs)) = int (row_col (ch_d cmh) i bs)" for i
  proof -
    have "row_col (ch_d cmh) i bs < ch_d cmh" using assms(3) by (simp add: row_col_def)
    then have "row_col (ch_d cmh) i bs < 2147483648" using assms(4) by simp
    then show ?thesis by simp
  qed
  then show ?thesis
    using cmhash_rows_spec [of "cmh\<lparr>ch_o := Some a, ch_osz := length bs, ch_oh := fasthash 0 bs\<rparr>" v "ch_w cmh" 0 bs] assms
    by (simp add: cmhash_hash_def)
qed

subsection \<open>A traversal that only reads\<close>

text \<open>
  The entries one by one, until a visit returns non-zero: what a traversal does whose callback
  leaves the dictionary and the store alone.
\<close>

fun visit_until :: "('e \<Rightarrow> 'u \<Rightarrow> int \<times> 'u) \<Rightarrow> 'e list \<Rightarrow> 'u \<Rightarrow> int \<times> 'u" where
  "visit_until f [] u = (0, u)"
| "visit_until f (e # es) u = (case f e u of (r, u') \<Rightarrow> if r \<noteq> 0 then (r, u') else visit_until f es u')"

definition reads_only ::
  "('k, 'v, 'w, 'u) tcb \<Rightarrow> ('k, 'v, 'w) mnhash \<Rightarrow> ('k, 'v) hstore \<Rightarrow> ('k, 'v) entry list
     \<Rightarrow> (('k, 'v) entry \<Rightarrow> 'u \<Rightarrow> int \<times> 'u) \<Rightarrow> ('u \<Rightarrow> bool) \<Rightarrow> bool" where
  "reads_only cb d m es f P \<longleftrightarrow>
     (\<forall>e \<in> set es. \<forall>u. P u \<longrightarrow> cb (fst e) (d, m, u) = Some (fst (f e u), d, m, snd (f e u)) \<and> P (snd (f e u)))"

lemma visit_until_append:
  "visit_until f (xs @ ys) u =
     (case visit_until f xs u of (r, u') \<Rightarrow> if r \<noteq> 0 then (r, u') else visit_until f ys u')"
  by (induction xs arbitrary: u) (auto split: prod.splits)

lemma trav_chain_reads:
  assumes rep: "dict_rep d m bs" and i: "i < length bs"
    and ro: "reads_only cb d m (bs ! i) f P"
  shows "bs ! i = pre @ post \<Longrightarrow> P u \<Longrightarrow>
     trav_chain cb (first_of (addrs post) None) (d, m, u) =
       Some (fst (visit_until f post u), d, m, snd (visit_until f post u)) \<and> P (snd (visit_until f post u))"
proof (induction post arbitrary: pre u)
  case Nil
  then show ?case by (subst trav_chain.simps) simp
next
  case (Cons e post)
  obtain it where it: "m (fst e) = Some it" "hnext it = first_of (addrs post) None"
    using chain_next [OF rep i Cons.prems(1)] by blast
  have c: "cb (fst e) (d, m, u) = Some (fst (f e u), d, m, snd (f e u))" "P (snd (f e u))"
    using ro Cons.prems by (simp_all add: reads_only_def)
  show ?case
    using Cons.IH [of "pre @ [e]" "snd (f e u)"] Cons.prems(1) c it
    by (subst trav_chain.simps) (auto split: prod.splits)
qed

lemma trav_buckets_reads:
  assumes rep: "dict_rep d m bs" and ro: "reads_only cb d m (concat bs) f P"
  shows "p \<le> length bs \<Longrightarrow> P u \<Longrightarrow>
     (\<exists>r u'. visit_until f (concat (drop p bs)) u = (r, u') \<and> P u' \<and>
        trav_buckets cb (at_bucket (length bs) p) (d, m, u) = Some (r, d, m, u'))"
proof (induction "length bs - p" arbitrary: p u)
  case 0
  then show ?case by (subst trav_buckets.simps) simp
next
  case (Suc k)
  then have p: "p < length bs" and k: "k = length bs - Suc p" by simp_all
  have "reads_only cb d m (bs ! p) f P" using ro in_concat_nth [of _ bs] p unfolding reads_only_def by blast
  from trav_chain_reads [OF rep p this, of "[]" "bs ! p" u]
  obtain r u' where t: "visit_until f (bs ! p) u = (r, u')" "P u'"
      "trav_chain cb (first_of (addrs (bs ! p)) None) (d, m, u) = Some (r, d, m, u')"
    using Suc.prems(2) by (cases "visit_until f (bs ! p) u") auto
  have dr: "concat (drop p bs) = bs ! p @ concat (drop (Suc p) bs)" using p by (metis Cons_nth_drop_Suc concat.simps(2))
  have nx: "array_next (dtable d) \<lparr>iter = p\<rparr> = at_bucket (length bs) (Suc p)"
    using array_next_at dict_repD(1,3) [OF rep] p by metis
  show ?case
  proof (cases "r = 0")
    case True
    then show ?thesis
      using Suc.hyps(1) [OF k Suc_leI [OF p] t(2)] t nx p dr slot_get_rep [OF rep p]
      by (subst trav_buckets.simps) (auto simp: visit_until_append)
  next
    case False
    then show ?thesis
      using t p dr slot_get_rep [OF rep p] by (subst trav_buckets.simps) (simp add: visit_until_append)
  qed
qed

lemma hash_traverse_reads:
  assumes rep: "dict_rep d m bs" and P: "P u"
    and ro: "\<forall>e \<in> set (concat bs). \<forall>u. P u \<longrightarrow>
       cb (fst (snd e)) (snd (snd e)) (d, m, u) = Some (fst (f e u), d, m, snd (f e u)) \<and> P (snd (f e u))"
  shows "\<exists>r u'. visit_until f (concat bs) u = (r, u') \<and> P u' \<and> hash_traverse d m cb u = Some (r, d, m, u')"
proof -
  let ?cb = "\<lambda>a st. do { it \<leftarrow> fst (snd st) a; cb (hkey it) (hvalue it) st }"
  have "reads_only ?cb d m (concat bs) f P"
    unfolding reads_only_def
  proof (intro ballI allI impI)
    fix e u assume e: "e \<in> set (concat bs)" and u: "P u"
    obtain pre post where "concat bs = pre @ e # post" using split_list [OF e] by blast
    then obtain it where "m (fst e) = Some it" "hkey it = fst (snd e)" "hvalue it = snd (snd e)"
      using visited_item [OF rep] by blast
    then show "?cb (fst e) (d, m, u) = Some (fst (f e u), d, m, snd (f e u)) \<and> P (snd (f e u))"
      using ro [rule_format, OF e u] by simp
  qed
  from trav_buckets_reads [OF rep this, of 0 u] P dict_repD(3) [OF rep] show ?thesis
    unfolding hash_traverse_as_item hash_traverse_item_def array_first_at by simp
qed

subsection \<open>The priority set\<close>

text \<open>
  The keys of the table are the addresses of the caller's items; \<open>its\<close> holds the items. The
  values are NULL. \<open>it0\<close> is the address of the local variable of \<^verbatim>\<open>pset_pop\<close>, which is no
  address of an item any more when the function has returned.
\<close>

record pset_item =
  pi_v :: "addr option"
  cmprop :: int

type_synonym pitems = "addr \<rightharpoonup> pset_item"

record 'w pset =
  nleft :: int
  pd :: "(addr, addr option, 'w) mnhash"
  minthresh :: int
  fast_pop_thresh :: int

type_synonym pstore = "(addr, addr option) hstore"

text \<open>The wheel: \<open>i\<close> is an \<^verbatim>\<open>int\<close>, \<open>p\<close> and \<open>n\<close> are \<^verbatim>\<open>size_t\<close>.\<close>

partial_function (option) wheel_loop :: "nat \<Rightarrow> int \<Rightarrow> nat \<Rightarrow> nat option" where
  "wheel_loop n i p =
     (if p < n then
        do { _ \<leftarrow> guard (6 * i + 5 < 2 ^ 31);
             wheel_loop n (i + 1) (if i mod 5 \<noteq> 0 then nat (6 * i + 5) else p) }
      else Some p)"

definition wheel_2x3_find_prime :: "nat \<Rightarrow> nat option" where
  "wheel_2x3_find_prime n = wheel_loop n 1 5"

definition pset_init ::
  "int \<Rightarrow> (addr \<Rightarrow> u64) \<Rightarrow> (addr \<Rightarrow> addr \<Rightarrow> int) \<Rightarrow> (addr \<Rightarrow> addr option \<Rightarrow> 'w \<Rightarrow> int \<times> 'w) option
     \<Rightarrow> int \<Rightarrow> addr option alloc \<Rightarrow> 'w \<Rightarrow> ('w pset \<times> 'w) option" where
  "pset_init thresh hash cmp fin mint alloc w =
     do { sz \<leftarrow> wheel_2x3_find_prime (nat (thresh mod 2 ^ 64));
          (d, w') \<leftarrow> hash_init sz hash cmp fin alloc w;
          Some (\<lparr>nleft = thresh, pd = d, minthresh = mint, fast_pop_thresh = mint\<rparr>, w') }"

definition pset_fini :: "'w pset \<Rightarrow> pstore \<Rightarrow> 'w \<Rightarrow> ('w pset \<times> pstore \<times> 'w) option" where
  "pset_fini ps m w = do { (d, m', w') \<leftarrow> hash_fini (pd ps) m w; Some (ps\<lparr>pd := d\<rparr>, m', w') }"

text \<open>The traversal's data is \<^verbatim>\<open>params->it\<close>.\<close>

definition pset_mingen_fast ::
  "pitems \<Rightarrow> addr \<Rightarrow> addr option \<Rightarrow> (addr, addr option, 'w, addr) tstate
     \<Rightarrow> (int \<times> (addr, addr option, 'w, addr) tstate) option" where
  "pset_mingen_fast its k val st =
     (case st of (d, m, p) \<Rightarrow>
        do { it \<leftarrow> its k;
             cur \<leftarrow> its p;
             let p' = (if cmprop it < cmprop cur then k else p);
             best \<leftarrow> its p';
             Some (of_bool (cmprop best = 1), d, m, p') })"

definition pset_peek :: "'w pset \<Rightarrow> pstore \<Rightarrow> addr \<Rightarrow> addr option option" where
  "pset_peek ps m it =
     do { r \<leftarrow> hash_get_item (pd ps) m it;
          case r of None \<Rightarrow> Some None | Some a \<Rightarrow> do { dit \<leftarrow> m a; Some (Some (hkey dit)) } }"

text \<open>\<^verbatim>\<open>params.it\<close> is never NULL, so the branch is always taken.\<close>

definition pset_pop :: "pitems \<Rightarrow> addr \<Rightarrow> 'w pset \<Rightarrow> pstore \<Rightarrow> ('w pset \<times> pstore \<times> addr option) option" where
  "pset_pop its it0 ps m =
     do { let its' = its(it0 \<mapsto> \<lparr>pi_v = None, cmprop = CMMAX\<rparr>);
          (_, d1, m1, p) \<leftarrow> hash_traverse (pd ps) m (pset_mingen_fast its') it0;
          (d2, m2, _) \<leftarrow> hash_remove_item d1 m1 p;
          let nl = nleft ps + 1;
          _ \<leftarrow> guard (s64 nl);
          if nl \<le> 0 then
            do { best \<leftarrow> its' p;
                 Some (ps\<lparr>pd := d2, nleft := nl, fast_pop_thresh := MNMAX (cmprop best) (minthresh ps)\<rparr>, m2, Some p) }
          else Some (ps\<lparr>pd := d2, nleft := nl, fast_pop_thresh := minthresh ps\<rparr>, m2, Some p) }"

definition pset_push ::
  "pitems \<Rightarrow> addr \<Rightarrow> 'w pset \<Rightarrow> pstore \<Rightarrow> addr \<Rightarrow> (addr, addr option) hmalloc
     \<Rightarrow> ('w pset \<times> pstore \<times> addr option) option" where
  "pset_push its it0 ps m it malloc =
     do { x \<leftarrow> its it;
          if cmprop x \<le> fast_pop_thresh ps then Some (ps, m, Some it)
          else
            do { r \<leftarrow> hash_get_item (pd ps) m it;
                 (ps1, m1) \<leftarrow>
                   (case r of
                      None \<Rightarrow>
                        do { (d1, m1) \<leftarrow> hash_set_item (pd ps) m it None malloc;
                             _ \<leftarrow> guard (s64 (nleft ps - 1));
                             Some (ps\<lparr>pd := d1, nleft := nleft ps - 1\<rparr>, m1) }
                    | Some _ \<Rightarrow> Some (ps, m));
                 if nleft ps1 < 0 then pset_pop its it0 ps1 m1 else Some (ps1, m1, None) } }"

definition pset_traverse ::
  "'w pset \<Rightarrow> pstore \<Rightarrow> (addr \<Rightarrow> addr option \<Rightarrow> (addr, addr option, 'w, 'u) tstate
     \<Rightarrow> (int \<times> (addr, addr option, 'w, 'u) tstate) option) \<Rightarrow> 'u \<Rightarrow> (int \<times> (addr, addr option, 'w, 'u) tstate) option" where
  "pset_traverse ps m cb u = hash_traverse (pd ps) m cb u"

subsection \<open>The wheel\<close>

lemma wheel_loop_spec:
  assumes n: "n < 2147483624"
  shows "1 \<le> i \<Longrightarrow> 6 * i \<le> p + (if i mod 5 = 1 then 7 else 1) \<Longrightarrow> p < n + 12 \<or> p = 5 \<Longrightarrow>
     p = 5 \<or> p mod 6 = 5 \<and> p mod 5 \<noteq> 0 \<Longrightarrow>
     \<exists>q. wheel_loop n (int i) p = Some q \<and> n \<le> q \<and> (q < n + 12 \<or> q = 5) \<and> (q = 5 \<or> q mod 6 = 5 \<and> q mod 5 \<noteq> 0)"
proof (induction "n + 24 - 6 * i" arbitrary: i p rule: less_induct)
  case less
  show ?case
  proof (cases "p < n")
    case False
    then show ?thesis using less.prems by (subst wheel_loop.simps) auto
  next
    case True
    let ?p = "if i mod 5 \<noteq> 0 then 6 * i + 5 else p"
    have i: "6 * i \<le> p + 7" using less.prems(2) by (simp split: if_splits)
    have g: "6 * int i + 5 < 2147483648" using i True n by simp
    have m: "int i mod 5 \<noteq> 0 \<longleftrightarrow> i mod 5 \<noteq> 0" by (metis of_nat_0_eq_iff of_nat_numeral zmod_int)
    have nt: "nat (6 * int i + 5) = 6 * i + 5" by simp
    have step: "wheel_loop n (int i) p = wheel_loop n (int (Suc i)) ?p"
      using True g m nt by (subst wheel_loop.simps) (simp add: add.commute)
    have md: "i mod 5 \<noteq> 0 \<Longrightarrow> (6 * i + 5) mod 5 \<noteq> 0"
    proof -
      have "(6 * i + 5) mod 5 = i mod 5" by presburger
      then show "i mod 5 \<noteq> 0 \<Longrightarrow> (6 * i + 5) mod 5 \<noteq> 0" by simp
    qed
    have "\<exists>q. wheel_loop n (int (Suc i)) ?p = Some q \<and> n \<le> q \<and> (q < n + 12 \<or> q = 5) \<and>
            (q = 5 \<or> q mod 6 = 5 \<and> q mod 5 \<noteq> 0)"
    proof (rule less.hyps)
      show "n + 24 - 6 * Suc i < n + 24 - 6 * i" using i True by simp
      show "6 * Suc i \<le> ?p + (if Suc i mod 5 = 1 then 7 else 1)"
        using less.prems(2) by (auto simp: mod_Suc split: if_splits)
      show "?p < n + 12 \<or> ?p = 5" using i True by simp
      show "?p = 5 \<or> ?p mod 6 = 5 \<and> ?p mod 5 \<noteq> 0"
        using md less.prems(4) by auto
    qed simp
    then show ?thesis using step by simp
  qed
qed

text \<open>
  What \<^verbatim>\<open>wheel_2x3_find_prime\<close> gives for a size of at most 31 bits: a number at least as large, less
  than twelve more, without the divisors 2, 3 and 5 (unless it is 5). That is no prime: for 72 it
  is 77.
\<close>

lemma wheel_enough:
  assumes "n < 2147483624"
  shows "\<exists>q. wheel_2x3_find_prime n = Some q \<and> n \<le> q \<and> (q < n + 12 \<or> q = 5) \<and> (q = 5 \<or> q mod 6 = 5 \<and> q mod 5 \<noteq> 0)"
  using wheel_loop_spec [OF assms, of 1 5] by (simp add: wheel_2x3_find_prime_def)

lemma wheel_not_prime: "wheel_2x3_find_prime 72 = Some (7 * 11)"
  by (simp add: wheel_2x3_find_prime_def wheel_loop.simps)

subsection \<open>The smallest item\<close>

definition pkeys :: "(addr, addr option) entry list list \<Rightarrow> addr list" where
  "pkeys bs = map (fst \<circ> snd) (concat bs)"

definition items_ok :: "pitems \<Rightarrow> addr set \<Rightarrow> bool" where
  "items_ok its A \<longleftrightarrow> (\<forall>a \<in> A. \<exists>x. its a = Some x \<and> 1 \<le> cmprop x \<and> cmprop x < CMMAX)"

definition prop_of :: "pitems \<Rightarrow> addr \<Rightarrow> int" where
  "prop_of its a = (case its a of None \<Rightarrow> 0 | Some x \<Rightarrow> cmprop x)"

definition min_visit :: "pitems \<Rightarrow> (addr, addr option) entry \<Rightarrow> addr \<Rightarrow> int \<times> addr" where
  "min_visit its e p =
     (let p' = if prop_of its (fst (snd e)) < prop_of its p then fst (snd e) else p
      in (of_bool (prop_of its p' = 1), p'))"

lemma visit_min:
  "visit_until (min_visit its) es p = (r, p') \<Longrightarrow> (\<And>e. e \<in> set es \<Longrightarrow> 1 \<le> prop_of its (fst (snd e))) \<Longrightarrow>
     (p' = p \<or> p' \<in> (fst \<circ> snd) ` set es) \<and> prop_of its p' \<le> prop_of its p \<and>
     (\<forall>e \<in> set es. prop_of its p' \<le> prop_of its (fst (snd e)))"
proof (induction es arbitrary: p)
  case (Cons e es)
  let ?q = "if prop_of its (fst (snd e)) < prop_of its p then fst (snd e) else p"
  have m: "min_visit its e p = (of_bool (prop_of its ?q = 1), ?q)" by (simp add: min_visit_def Let_def)
  have q: "prop_of its ?q \<le> prop_of its p" "prop_of its ?q \<le> prop_of its (fst (snd e))" by simp_all
  show ?case
  proof (cases "prop_of its ?q = 1")
    case True
    then have "p' = ?q" using Cons.prems(1) m by simp
    then show ?thesis using True q Cons.prems(2) by fastforce
  next
    case False
    then have "visit_until (min_visit its) es ?q = (r, p')"
      using Cons.prems(1) m by simp
    from Cons.IH [OF this] Cons.prems(2) show ?thesis using q by (auto split: if_splits)
  qed
qed simp

lemma pset_traverse_min:
  assumes rep: "dict_rep d m bs" and ok: "items_ok its (set (pkeys bs))" and it0: "it0 \<notin> set (pkeys bs)"
    and its': "its' = its(it0 \<mapsto> \<lparr>pi_v = None, cmprop = CMMAX\<rparr>)"
  shows "\<exists>r p. hash_traverse d m (pset_mingen_fast its') it0 = Some (r, d, m, p) \<and>
           (concat bs = [] \<and> p = it0 \<or>
            concat bs \<noteq> [] \<and> p \<in> set (pkeys bs) \<and> (\<forall>a \<in> set (pkeys bs). prop_of its p \<le> prop_of its a))"
proof -
  let ?K = "insert it0 (set (pkeys bs))" and ?f = "min_visit its'"
  have def: "\<exists>x. its' a = Some x" if "a \<in> ?K" for a
    using that ok its' by (auto simp: items_ok_def)
  have step: "\<forall>e \<in> set (concat bs). \<forall>u. u \<in> ?K \<longrightarrow>
       pset_mingen_fast its' (fst (snd e)) (snd (snd e)) (d, m, u) = Some (fst (?f e u), d, m, snd (?f e u)) \<and> snd (?f e u) \<in> ?K"
  proof (intro ballI allI impI)
    fix e u assume e: "e \<in> set (concat bs)" and u: "u \<in> ?K"
    have k: "fst (snd e) \<in> ?K" using e by (force simp: pkeys_def)
    obtain x y where "its' (fst (snd e)) = Some x" "its' u = Some y" using def k u by blast
    then show "pset_mingen_fast its' (fst (snd e)) (snd (snd e)) (d, m, u) =
        Some (fst (?f e u), d, m, snd (?f e u)) \<and> snd (?f e u) \<in> ?K"
      using k u by (simp add: pset_mingen_fast_def min_visit_def prop_of_def Let_def)
  qed
  from hash_traverse_reads [where P = "\<lambda>u. u \<in> ?K" and u = it0 and f = ?f, OF rep _ step]
  obtain r p where t: "visit_until ?f (concat bs) it0 = (r, p)" "hash_traverse d m (pset_mingen_fast its') it0 = Some (r, d, m, p)"
    by auto
  have same: "prop_of its' a = prop_of its a" if "a \<in> set (pkeys bs)" for a
    using that it0 its' by (auto simp: prop_of_def)
  have rng: "1 \<le> prop_of its a \<and> prop_of its a < CMMAX" if "a \<in> set (pkeys bs)" for a
    using that ok by (fastforce simp: items_ok_def prop_of_def)
  have pk: "fst (snd e) \<in> set (pkeys bs)" if "e \<in> set (concat bs)" for e using that by (force simp: pkeys_def)
  have v: "(p = it0 \<or> p \<in> set (pkeys bs)) \<and> (\<forall>e \<in> set (concat bs). prop_of its' p \<le> prop_of its' (fst (snd e)))"
    using visit_min [OF t(1)] same rng pk by (auto simp: pkeys_def)
  show ?thesis
  proof (cases "concat bs = []")
    case True
    have "p = it0" using t(1) unfolding True by simp
    with True t(2) show ?thesis by blast
  next
    case False
    then obtain e where e: "e \<in> set (concat bs)" by (meson last_in_set)
    have "p \<noteq> it0"
    proof
      assume "p = it0"
      then have "CMMAX \<le> prop_of its' (fst (snd e))" using v e its' by (force simp: prop_of_def)
      then show False using same rng pk e by fastforce
    qed
    then have p: "p \<in> set (pkeys bs)" using v by simp
    have "\<forall>a \<in> set (pkeys bs). prop_of its p \<le> prop_of its a"
    proof
      fix a assume a: "a \<in> set (pkeys bs)"
      then obtain e where "e \<in> set (concat bs)" "a = fst (snd e)" by (auto simp: pkeys_def)
      then have "prop_of its' p \<le> prop_of its' a" using v by blast
      then show "prop_of its p \<le> prop_of its a" using same a p by simp
    qed
    then show ?thesis using t(2) False p by blast
  qed
qed

subsection \<open>Removing and adding\<close>

lemma mset_pkeys: "mset (pkeys bs) = image_mset (fst \<circ> snd) (mset (concat bs))"
  by (simp add: pkeys_def del: mset_concat)

lemma set_pkeys: "set (pkeys bs) = (fst \<circ> snd) ` set (concat bs)"
  by (simp add: pkeys_def)

lemma delnum_pkeys: "dict_rep d m bs \<Longrightarrow> delnum d = length (pkeys bs)"
  using dict_repD(5) by (simp add: pkeys_def)

text \<open>Removing a key that is there takes out this key and no other.\<close>

lemma remove_key:
  assumes rep: "dict_rep d m bs" and u: "uniq_keys d bs" and key: "hash_key (dhashfn d) (dcmp d)"
    and p: "p \<in> set (pkeys bs)"
  shows "\<exists>d' m' bs' v. hash_remove_item d m p = Some (d', m', v) \<and> dict_rep d' m' bs' \<and> uniq_keys d' bs' \<and>
           same_fns d d' \<and> mset (pkeys bs') = mset (pkeys bs) - {#p#}"
proof -
  note blookup_in = hash_key.blookup_in [OF key rep refl]
    and bremove_map = hash_key.bremove_map [OF key]
    and key_refl = hash_key.key_refl [OF key]
  obtain e0 where e0: "e0 \<in> set (concat bs)" "fst (snd e0) = p" using p by (auto simp: pkeys_def)
  obtain e where e: "blookup d bs p = Some e"
    using hash_key.blookup_mem [OF key rep refl refl, of p] e0 key_refl by blast
  have "fst e0 = fst e" using u blookup_in [OF e] e0 unfolding uniq_keys_def by (metis uniq_onD)
  then have "e0 = e" using e0(1) blookup_in(1) [OF e] dict_rep_distinct [OF rep]
    by (metis distinct_map inj_onD)
  then have k: "fst (snd e) = p" using e0 by simp
  obtain d' m' where s: "hash_remove_item d m p = Some (d', m', map_option (snd \<circ> snd) (blookup d bs p))"
      "dict_rep d' m' (bremove d bs p)" "same_fns d d'"
    using hash_remove_rep [OF rep, of p] by blast
  have f: "dcmp d' = dcmp d" "dhashfn d' = dhashfn d" using s(3) by (simp_all add: same_fns_def)
  obtain ys zs where b: "bs ! hash_pos d p = ys @ e # zs"
    using find_split [OF e [unfolded blookup_def]] by blast
  have "mset (concat bs) = add_mset e (mset (concat (bremove d bs p)))"
    using drop_entry_concat [OF hash_pos_less [OF rep] rep b] e by (simp add: bremove_def del: mset_concat)
  then have "mset (pkeys (bremove d bs p)) = mset (pkeys bs) - {#p#}"
    using k by (simp add: mset_pkeys del: mset_concat)
  moreover have "uniq_keys d' (bremove d bs p)" using bremove_map [OF rep s(2) refl refl f u] by simp
  ultimately show ?thesis using s by blast
qed

lemma insert_key:
  assumes rep: "dict_rep d m bs" and u: "uniq_keys d bs" and key: "hash_key (dhashfn d) (dcmp d)"
    and new: "blookup d bs k = None" and mal: "malloc m = Some (a, junk)" "m a = None" and n: "delnum d + 1 < 2 ^ 64"
  shows "\<exists>d' m' bs'. hash_set_item d m k v malloc = Some (d', m') \<and> dict_rep d' m' bs' \<and> uniq_keys d' bs' \<and>
           same_fns d d' \<and> mset (pkeys bs') = add_mset k (mset (pkeys bs))"
proof -
  let ?bs = "bs[hash_pos d k := (a, k, v) # bs ! hash_pos d k]"
  obtain d' m' where s: "hash_set_item d m k v malloc = Some (d', m')" "dict_rep d' m' ?bs"
      "d' = put_slot d (hash_pos d k) (Some a) (delnum d + 1)"
    using hash_set_item_rep [where malloc = malloc and m = m and a = a, OF rep mal n, of k v] by blast
  have ms: "mset (concat ?bs) = add_mset (a, k, v) (mset (concat bs))"
    by (rule mset_concat_update [OF hash_pos_less [OF rep]])
  then have st: "set (concat ?bs) = insert (a, k, v) (set (concat bs))" by (metis set_mset_add_mset_insert set_mset_mset)
  have none: "dcmp d k (fst (snd e)) \<noteq> 0" if "e \<in> set (concat bs)" for e
    using hash_key.blookup_mem [OF key rep refl refl, of k] new that by auto
  have "uniq_on (dcmp d) (set (concat ?bs))"
    unfolding st
  proof (rule uniq_on_insert)
    show "uniq_on (dcmp d) (set (concat bs))" using u by (simp add: uniq_keys_def)
    show "fst e = fst (a, k, v)"
      if "e \<in> set (concat bs)" "dcmp d (fst (snd (a, k, v))) (fst (snd e)) = 0 \<or> dcmp d (fst (snd e)) (fst (snd (a, k, v))) = 0" for e
      using none [OF that(1)] that(2) hash_key.key_sym [OF key] by auto
  qed
  moreover have "dcmp d' = dcmp d" using s(3) by simp
  ultimately have "uniq_keys d' ?bs" by (simp add: uniq_keys_def)
  moreover have "mset (pkeys ?bs) = add_mset k (mset (pkeys bs))" using ms by (simp add: mset_pkeys del: mset_concat)
  ultimately show ?thesis using s by auto
qed

text \<open>What holds of a priority set and its table between the operations.\<close>

definition pset_rep :: "pitems \<Rightarrow> 'w pset \<Rightarrow> pstore \<Rightarrow> (addr, addr option) entry list list \<Rightarrow> bool" where
  "pset_rep its ps m bs \<longleftrightarrow> dict_rep (pd ps) m bs \<and> uniq_keys (pd ps) bs \<and> items_ok its (set (pkeys bs))"

lemma pset_pop_rep:
  assumes rep: "pset_rep its ps m bs" and key: "hash_key (dhashfn (pd ps)) (dcmp (pd ps))"
    and it0: "it0 \<notin> set (pkeys bs)" and ne: "pkeys bs \<noteq> []" and n: "- (2 ^ 63) \<le> nleft ps + 1" "nleft ps + 1 < 2 ^ 63"
  shows "\<exists>ps' m' bs' p. pset_pop its it0 ps m = Some (ps', m', Some p) \<and> p \<in> set (pkeys bs) \<and>
           (\<forall>a \<in> set (pkeys bs). prop_of its p \<le> prop_of its a) \<and> pset_rep its ps' m' bs' \<and>
           mset (pkeys bs') = mset (pkeys bs) - {#p#} \<and> same_fns (pd ps) (pd ps') \<and>
           nleft ps' = nleft ps + 1 \<and> minthresh ps' = minthresh ps \<and>
           fast_pop_thresh ps' = (if nleft ps' \<le> 0 then max (prop_of its p) (minthresh ps) else minthresh ps)"
proof -
  have d: "dict_rep (pd ps) m bs" "uniq_keys (pd ps) bs" and ok: "items_ok its (set (pkeys bs))"
    using rep by (simp_all add: pset_rep_def)
  have "concat bs \<noteq> []" using ne unfolding pkeys_def by blast
  then obtain r p where t: "hash_traverse (pd ps) m (pset_mingen_fast (its(it0 \<mapsto> \<lparr>pi_v = None, cmprop = CMMAX\<rparr>))) it0 =
        Some (r, pd ps, m, p)" "p \<in> set (pkeys bs)" "\<forall>a \<in> set (pkeys bs). prop_of its p \<le> prop_of its a"
    using pset_traverse_min [OF d(1) ok it0 refl] by blast
  obtain d' m' bs' v where h: "hash_remove_item (pd ps) m p = Some (d', m', v)" "dict_rep d' m' bs'" "uniq_keys d' bs'"
      "same_fns (pd ps) d'" "mset (pkeys bs') = mset (pkeys bs) - {#p#}"
    using remove_key [OF d key t(2)] by blast
  have sub: "set (pkeys bs') \<subseteq> set (pkeys bs)" using h(5) by (metis diff_subset_eq_self set_mset_mono set_mset_mset)
  obtain x where x: "its p = Some x" using ok t(2) by (auto simp: items_ok_def)
  have "p \<noteq> it0" using t(2) it0 by blast
  then have val: "(its(it0 \<mapsto> \<lparr>pi_v = None, cmprop = CMMAX\<rparr>)) p = Some x" "prop_of its p = cmprop x"
    using x by (simp_all add: prop_of_def)
  have ok': "items_ok its (set (pkeys bs'))" using ok sub by (auto simp: items_ok_def)
  have s: "s64 (nleft ps + 1)" using n by (simp add: s64_def)
  show ?thesis
  proof (cases "nleft ps + 1 \<le> 0")
    case True
    let ?ps = "ps\<lparr>pd := d', nleft := nleft ps + 1, fast_pop_thresh := MNMAX (cmprop x) (minthresh ps)\<rparr>"
    have "pset_pop its it0 ps m = Some (?ps, m', Some p)"
      using t(1) h(1) s True val(1) by (simp add: pset_pop_def Let_def)
    then show ?thesis using h t ok' True val(2)
      by (intro exI [of _ ?ps] exI [of _ m'] exI [of _ bs'] exI [of _ p]) (simp add: pset_rep_def MNMAX_eq_max)
  next
    case False
    let ?ps = "ps\<lparr>pd := d', nleft := nleft ps + 1, fast_pop_thresh := minthresh ps\<rparr>"
    have "pset_pop its it0 ps m = Some (?ps, m', Some p)"
      using t(1) h(1) s False by (simp add: pset_pop_def Let_def)
    then show ?thesis using h t ok' False
      by (intro exI [of _ ?ps] exI [of _ m'] exI [of _ bs'] exI [of _ p]) (simp add: pset_rep_def)
  qed
qed

text \<open>
  On an empty set \<^verbatim>\<open>pset_pop\<close> counts an item that was not there as removed and returns the address
  of its own local variable.
\<close>

lemma pset_pop_empty:
  assumes rep: "pset_rep its ps m bs" and e: "pkeys bs = []" and n: "0 \<le> nleft ps" "nleft ps + 1 < 2 ^ 63"
  shows "\<exists>ps' m'. pset_pop its it0 ps m = Some (ps', m', Some it0) \<and> nleft ps' = nleft ps + 1"
proof -
  have d: "dict_rep (pd ps) m bs" using rep by (simp add: pset_rep_def)
  have c: "concat bs = []" using e by (simp add: pkeys_def)
  obtain r where t: "hash_traverse (pd ps) m (pset_mingen_fast (its(it0 \<mapsto> \<lparr>pi_v = None, cmprop = CMMAX\<rparr>))) it0 =
        Some (r, pd ps, m, it0)"
    using pset_traverse_min [OF d _ _ refl, of its it0] e c by (auto simp: items_ok_def)
  obtain d' m' where "hash_remove_item (pd ps) m it0 = Some (d', m', map_option (snd \<circ> snd) (blookup (pd ps) bs it0))"
    using hash_remove_rep [OF d, of it0] by blast
  then show ?thesis using t n by (simp add: pset_pop_def s64_def Let_def)
qed

subsection \<open>The set keeps the best\<close>

definition push_outcome ::
  "pitems \<Rightarrow> 'w pset \<Rightarrow> (addr, addr option) entry list list \<Rightarrow> addr \<Rightarrow> 'w pset
     \<Rightarrow> (addr, addr option) entry list list \<Rightarrow> addr option \<Rightarrow> bool" where
  "push_outcome its ps bs it ps' bs' r \<longleftrightarrow>
     (if prop_of its it \<le> fast_pop_thresh ps then r = Some it \<and> ps' = ps \<and> bs' = bs
      else if \<exists>b \<in> set (pkeys bs). dcmp (pd ps) it b = 0 then r = None \<and> ps' = ps \<and> bs' = bs
      else if 0 < nleft ps then r = None \<and> mset (pkeys bs') = add_mset it (mset (pkeys bs))
      else (\<exists>p \<in> set (it # pkeys bs). r = Some p \<and> (\<forall>b \<in> set (it # pkeys bs). prop_of its p \<le> prop_of its b) \<and>
              mset (pkeys bs') = add_mset it (mset (pkeys bs)) - {#p#} \<and>
              fast_pop_thresh ps' = max (prop_of its p) (minthresh ps)))"

text \<open>
  C15: If the new item and all those in the set have a cmprop of at least 1 (below that, the search for
  the smallest stops too early), \<^verbatim>\<open>pset_push\<close> keeps the best items within the capacity. An item that does not beat the threshold
  comes straight back; one that is there already changes nothing; one that finds a place goes in;
  and without a place the smallest of all the items, the new one included, is returned and the
  others are kept. The places and the elements always add up to the capacity.
\<close>

theorem pset_push_keeps_best:
  assumes rep: "pset_rep its ps m bs" and key: "hash_key (dhashfn (pd ps)) (dcmp (pd ps))"
    and x: "its it = Some x" "1 \<le> cmprop x" "cmprop x < CMMAX" and it0: "it0 \<notin> set (it # pkeys bs)"
    and mal: "malloc m = Some (a, junk)" "m a = None" and n: "delnum (pd ps) + 1 < 2 ^ 64"
    and left: "0 \<le> nleft ps" "nleft ps < 2 ^ 63"
  shows "\<exists>ps' m' bs' r. pset_push its it0 ps m it malloc = Some (ps', m', r) \<and> pset_rep its ps' m' bs' \<and>
           0 \<le> nleft ps' \<and> nleft ps' + int (delnum (pd ps')) = nleft ps + int (delnum (pd ps)) \<and>
           push_outcome its ps bs it ps' bs' r"
proof (cases "cmprop x \<le> fast_pop_thresh ps")
  case True
  then have "push_outcome its ps bs it ps bs (Some it)" "pset_push its it0 ps m it malloc = Some (ps, m, Some it)"
    using x by (simp_all add: push_outcome_def prop_of_def pset_push_def)
  then show ?thesis using rep left by blast
next
  case beats: False
  have px: "prop_of its it = cmprop x" using x by (simp add: prop_of_def)
  have d: "dict_rep (pd ps) m bs" "uniq_keys (pd ps) bs" and ok: "items_ok its (set (pkeys bs))"
    using rep by (simp_all add: pset_rep_def)
  have g: "hash_get_item (pd ps) m it = Some (map_option fst (blookup (pd ps) bs it))" by (rule hash_get_rep [OF d(1)])
  have mem: "(\<exists>b \<in> set (pkeys bs). dcmp (pd ps) it b = 0) \<longleftrightarrow> blookup (pd ps) bs it \<noteq> None"
    using hash_key.blookup_mem [OF key d(1) refl refl, of it] by (auto simp: set_pkeys simp del: set_concat)
  show ?thesis
  proof (cases "blookup (pd ps) bs it")
    case (Some e)
    then have "push_outcome its ps bs it ps bs None" using mem px beats by (simp add: push_outcome_def)
    moreover have "pset_push its it0 ps m it malloc = Some (ps, m, None)"
      using Some x left beats g by (simp add: pset_push_def)
    ultimately show ?thesis using rep left by blast
  next
    case None
    obtain d1 m1 bs1 where i: "hash_set_item (pd ps) m it None malloc = Some (d1, m1)" "dict_rep d1 m1 bs1" "uniq_keys d1 bs1"
        "same_fns (pd ps) d1" "mset (pkeys bs1) = add_mset it (mset (pkeys bs))"
      using insert_key [OF d key None, of malloc a junk None] mal n by blast
    let ?ps = "ps\<lparr>pd := d1, nleft := nleft ps - 1\<rparr>"
    have st: "set (pkeys bs1) = set (it # pkeys bs)"
      using i(5) by (metis list.simps(15) set_mset_add_mset_insert set_mset_mset)
    have ok1: "items_ok its (set (pkeys bs1))" using ok x st by (auto simp: items_ok_def)
    have rep1: "pset_rep its ?ps m1 bs1" using i ok1 by (simp add: pset_rep_def)
    have cnt: "delnum d1 = Suc (delnum (pd ps))"
      using delnum_pkeys [OF i(2)] delnum_pkeys [OF d(1)] arg_cong [OF i(5), of size] by simp
    have push: "pset_push its it0 ps m it malloc =
        (if nleft ps - 1 < 0 then pset_pop its it0 ?ps m1 else Some (?ps, m1, None))"
      using x beats g None i(1) left by (simp add: pset_push_def s64_def)
    have absent: "\<not> (\<exists>b \<in> set (pkeys bs). dcmp (pd ps) it b = 0)" using mem None by simp
    show ?thesis
    proof (cases "0 < nleft ps")
      case True
      then have "pset_push its it0 ps m it malloc = Some (?ps, m1, None)" using push by simp
      moreover have "0 \<le> nleft ?ps" "nleft ?ps + int (delnum (pd ?ps)) = nleft ps + int (delnum (pd ps))"
        using True cnt by simp_all
      moreover have "push_outcome its ps bs it ?ps bs1 None"
        using absent beats True i(5) px by (simp add: push_outcome_def)
      ultimately show ?thesis using rep1 by blast
    next
      case False
      then have z: "nleft ps = 0" using left by simp
      have key1: "hash_key (dhashfn (pd ?ps)) (dcmp (pd ?ps))" using key i(4) by (simp add: same_fns_def)
      have b: "it0 \<notin> set (pkeys bs1)" using it0 unfolding st .
      have b2: "pkeys bs1 \<noteq> []" using i(5) by force
      obtain ps' m' bs' p where p: "pset_pop its it0 ?ps m1 = Some (ps', m', Some p)" "p \<in> set (pkeys bs1)"
          "\<forall>b \<in> set (pkeys bs1). prop_of its p \<le> prop_of its b" "pset_rep its ps' m' bs'"
          "mset (pkeys bs') = mset (pkeys bs1) - {#p#}" "nleft ps' = nleft ?ps + 1" "minthresh ps' = minthresh ?ps"
          "fast_pop_thresh ps' = (if nleft ps' \<le> 0 then max (prop_of its p) (minthresh ?ps) else minthresh ?ps)"
        using pset_pop_rep [OF rep1 key1 b b2] z by auto
      have "length (pkeys bs') = length (pkeys bs)"
        using arg_cong [OF p(5), of size] p(2) arg_cong [OF i(5), of size] by (simp add: size_Diff_singleton)
      then have "delnum (pd ps') = delnum (pd ps)"
        using delnum_pkeys [OF d(1)] p(4) delnum_pkeys [of "pd ps'" m' bs'] by (simp add: pset_rep_def)
      moreover have "pset_push its it0 ps m it malloc = Some (ps', m', Some p)" using push p(1) z by simp
      moreover have "nleft ps' = 0" "fast_pop_thresh ps' = max (prop_of its p) (minthresh ps)" using p(6,8) z by simp_all
      moreover have "\<exists>q \<in> set (it # pkeys bs). Some p = Some q \<and> (\<forall>b \<in> set (it # pkeys bs). prop_of its q \<le> prop_of its b) \<and>
          mset (pkeys bs') = add_mset it (mset (pkeys bs)) - {#q#} \<and> fast_pop_thresh ps' = max (prop_of its q) (minthresh ps)"
        using p(2,3,5) calculation(4) unfolding st i(5) by blast
      then have "push_outcome its ps bs it ps' bs' (Some p)"
        unfolding push_outcome_def px if_not_P [OF beats] if_not_P [OF absent] if_not_P [OF False] .
      moreover have "0 \<le> nleft ps'" "nleft ps' + int (delnum (pd ps')) = nleft ps + int (delnum (pd ps))"
        using calculation(1,3) z by simp_all
      ultimately show ?thesis using p(4) by blast
    qed
  qed
qed

definition demo_items :: pitems where
  "demo_items = [100 \<mapsto> \<lparr>pi_v = None, cmprop = 3\<rparr>, 101 \<mapsto> \<lparr>pi_v = None, cmprop = 7\<rparr>]"

definition demo_pset :: "unit pset" where
  "demo_pset = \<lparr>nleft = 0,
     pd = \<lparr>dhashfn = word_of_nat, dcmp = mncmp, dfini = None,
       dtable = \<lparr>elsz = 8, elnum = 1, data = Some [Some 10], datasz = 8, init = Some null_init, fini = None\<rparr>,
       delnum = 1\<rparr>,
     minthresh = 1, fast_pop_thresh = 1\<rparr>"

definition demo_pstore :: pstore where
  "demo_pstore = [10 \<mapsto> \<lparr>hbucket = Some 0, hprev = None, hnext = None, hkey = 100, hvalue = None\<rparr>]"

lemma demo_pset_rep: "pset_rep demo_items demo_pset demo_pstore [[(10, 100, None)]]"
  "hash_key (dhashfn (pd demo_pset)) (dcmp (pd demo_pset))"
proof -
  have "array_wf (dtable (pd demo_pset))" by (simp add: demo_pset_def array_wf_def)
  then show "pset_rep demo_items demo_pset demo_pstore [[(10, 100, None)]]"
    by (simp add: pset_rep_def dict_rep_def bucket_ok_def hash_pos_def uniq_keys_def uniq_on_def
        items_ok_def pkeys_def demo_items_def demo_pset_def demo_pstore_def CMMAX_def)
  show "hash_key (dhashfn (pd demo_pset)) (dcmp (pd demo_pset))"
    using demo_key by (simp add: demo_pset_def)
qed

abbreviation demo_pbuckets :: "(addr, addr option) entry list list" where
  "demo_pbuckets \<equiv> [[(10, 100, None)]]"

definition demo_pmalloc :: "(addr, addr option) hmalloc" where
  "demo_pmalloc m = Some (20, \<lparr>hbucket = None, hprev = None, hnext = None, hkey = 0, hvalue = None\<rparr>)"

lemma demo_pset_simps:
  "pkeys demo_pbuckets = [100]" "nleft demo_pset = 0" "minthresh demo_pset = 1" "fast_pop_thresh demo_pset = 1"
  "delnum (pd demo_pset) = 1" "dcmp (pd demo_pset) 101 100 = 1" "demo_items 101 = Some \<lparr>pi_v = None, cmprop = 7\<rparr>"
  "demo_pstore 20 = None"
  "demo_pmalloc demo_pstore = Some (20, \<lparr>hbucket = None, hprev = None, hnext = None, hkey = 0, hvalue = None\<rparr>)"
  by (simp_all add: pkeys_def demo_pset_def demo_items_def demo_pstore_def demo_pmalloc_def mncmp_def)

theorem pset_push_keeps_best_witness:
  "\<exists>ps' m' bs' r. pset_push demo_items 1 demo_pset demo_pstore 101 demo_pmalloc = Some (ps', m', r) \<and>
     pset_rep demo_items ps' m' bs' \<and>
     0 \<le> nleft ps' \<and> nleft ps' + int (delnum (pd ps')) = nleft demo_pset + int (delnum (pd demo_pset)) \<and>
     push_outcome demo_items demo_pset demo_pbuckets 101 ps' bs' r"
  by (rule pset_push_keeps_best [OF demo_pset_rep, of 101 "\<lparr>pi_v = None, cmprop = 7\<rparr>" 1 demo_pmalloc 20
        "\<lparr>hbucket = None, hprev = None, hnext = None, hkey = 0, hvalue = None\<rparr>"])
     (simp_all add: demo_pset_simps CMMAX_def)

end
