(* ===== verification/Mn_Mpool.thy ===== *)
theory Mn_Mpool
  imports Mn_Hashfn Mn_Base64
begin

text \<open>
  \<^verbatim>\<open>src/src/mpool.c\<close>: the pool allocator, on bytes. The arena is an array of pointers to chunks;
  a slot that was never written holds no chunk. A pointer into the pool is the chunk's index and
  an offset (a chunk never moves); the eight bytes before the data are the item's \<^verbatim>\<open>size_t\<close> size,
  little-endian. Writing outside of a chunk is a fault, and so are the assertions on the system's
  allocator: \<open>alloc\<close> yields chunks and \<open>ralloc\<close> arenas, in bytes and in pointers. The model is the
  build with assertions, which fills new and freed blocks with a pattern.
\<close>

subsection \<open>State\<close>

record mpool =
  arenasz :: nat
  chunksz :: nat
  current_chunk :: nat
  last_chunk :: nat
  current_pos :: nat
  arena :: "u8 list option list option"

type_synonym mptr = "nat \<times> nat"

fun le_bytes :: "nat \<Rightarrow> nat \<Rightarrow> u8 list" where
  "le_bytes 0 n = []"
| "le_bytes (Suc k) n = word_of_nat n # le_bytes k (n div 256)"

definition chunk_of :: "mpool \<Rightarrow> nat \<Rightarrow> u8 list option" where
  "chunk_of mp c = do { slots \<leftarrow> arena mp; ch \<leftarrow> peek slots c; ch }"

definition set_chunk :: "mpool \<Rightarrow> nat \<Rightarrow> u8 list \<Rightarrow> mpool" where
  "set_chunk mp c ch = mp\<lparr>arena := map_option (\<lambda>slots. slots[c := Some ch]) (arena mp)\<rparr>"

definition chunk_write :: "mpool \<Rightarrow> nat \<Rightarrow> nat \<Rightarrow> u8 list \<Rightarrow> mpool option" where
  "chunk_write mp c p bs =
     do { ch \<leftarrow> chunk_of mp c;
          _ \<leftarrow> guard (p + length bs \<le> length ch);
          Some (set_chunk mp c (put_bytes ch p bs)) }"

definition chunk_read :: "mpool \<Rightarrow> nat \<Rightarrow> nat \<Rightarrow> nat \<Rightarrow> u8 list option" where
  "chunk_read mp c p n =
     do { ch \<leftarrow> chunk_of mp c; _ \<leftarrow> guard (p + n \<le> length ch); Some (take n (drop p ch)) }"

text \<open>\<^verbatim>\<open>((struct _mpool_item *)q)->sz\<close>\<close>

definition item_sz :: "mpool \<Rightarrow> nat \<Rightarrow> nat \<Rightarrow> nat option" where
  "item_sz mp c p = map_option le_nat (chunk_read mp c p 8)"

subsection \<open>Operations\<close>

definition mpool_ctx_reset :: "mpool \<Rightarrow> mpool" where
  "mpool_ctx_reset mp =
     mp\<lparr>last_chunk := MNMAX (last_chunk mp) (current_chunk mp), current_chunk := 0, current_pos := 0\<rparr>"

text \<open>The result is the index of the chunk's slot.\<close>

definition new_chunk ::
  "u8 alloc \<Rightarrow> u8 list option alloc \<Rightarrow> mpool \<Rightarrow> nat \<Rightarrow> (mpool \<times> nat) option" where
  "new_chunk alloc ralloc mp sz =
     do { let cc = Suc (current_chunk mp);
          _ \<leftarrow> guard (cc < 2 ^ 31);
          mp1 \<leftarrow>
            (if last_chunk mp \<le> current_chunk mp then
               do { mp1 \<leftarrow>
                      (if cc * 8 = arenasz mp then
                         do { slots \<leftarrow> arena mp;
                              blk \<leftarrow> realloc_blk ralloc slots (SZ (arenasz mp * 2) div 8);
                              Some (mp\<lparr>arenasz := SZ (arenasz mp * 2), arena := Some blk\<rparr>) }
                       else Some mp);
                    slots \<leftarrow> arena mp1;
                    ch \<leftarrow> alloc sz;
                    slots' \<leftarrow> poke slots cc (Some ch);
                    Some (mp1\<lparr>arena := Some slots'\<rparr>) }
             else Some mp);
          Some (mp1\<lparr>current_chunk := cc, current_pos := 0\<rparr>, cc) }"

definition round8 :: "nat \<Rightarrow> nat" where
  "round8 sz = (let m = sz mod 8 in SZ (sz + (if m \<noteq> 0 then 8 - m else 0)))"

definition mpool_malloc ::
  "u8 alloc \<Rightarrow> u8 list option alloc \<Rightarrow> mpool \<Rightarrow> nat \<Rightarrow> (mpool \<times> mptr) option" where
  "mpool_malloc alloc ralloc mp sz0 =
     do { let sz = round8 sz0;
          let sz1 = SZ (sz + 8);
          (mp2, c, p) \<leftarrow>
            (if chunksz mp < sz1 then
               do { (mp1, c) \<leftarrow> new_chunk alloc ralloc mp sz1;
                    mp2 \<leftarrow> chunk_write mp1 c 0 (le_bytes 8 sz);
                    (mp3, _) \<leftarrow> new_chunk alloc ralloc mp2 (chunksz mp2);
                    Some (mp3, c, 0) }
             else
               do { let nleft = SZ (chunksz mp + (2 ^ 64 - current_pos mp));
                    (mp1, c) \<leftarrow>
                      (if nleft < sz1 then new_chunk alloc ralloc mp (chunksz mp)
                       else Some (mp, current_chunk mp));
                    let p = current_pos mp1;
                    mp2 \<leftarrow> chunk_write mp1 c p (le_bytes 8 sz);
                    Some (mp2\<lparr>current_pos := p + sz1\<rparr>, c, p) });
          n \<leftarrow> item_sz mp2 c p;
          mp4 \<leftarrow> chunk_write mp2 c (p + 8) (replicate n 0xa5);
          Some (mp4, c, p + 8) }"

definition mpool_realloc ::
  "u8 alloc \<Rightarrow> u8 list option alloc \<Rightarrow> mpool \<Rightarrow> mptr option \<Rightarrow> nat \<Rightarrow> (mpool \<times> mptr) option" where
  "mpool_realloc alloc ralloc mp q sz =
     (case q of
        None \<Rightarrow> mpool_malloc alloc ralloc mp sz
      | Some (c, off) \<Rightarrow>
          do { _ \<leftarrow> guard (8 \<le> off);
               n \<leftarrow> item_sz mp c (off - 8);
               if n < sz then
                 do { (mp1, c', off') \<leftarrow> mpool_malloc alloc ralloc mp sz;
                      bs \<leftarrow> chunk_read mp1 c off n;
                      mp2 \<leftarrow> chunk_write mp1 c' off' bs;
                      Some (mp2, c', off') }
               else
                 do { mp1 \<leftarrow> chunk_write mp c (off + sz) (replicate (n - sz) 0xa5);
                      Some (mp1, c, off) } })"

definition mpool_free :: "mpool \<Rightarrow> mptr option \<Rightarrow> mpool option" where
  "mpool_free mp q =
     (case q of
        None \<Rightarrow> Some mp
      | Some (c, off) \<Rightarrow>
          do { _ \<leftarrow> guard (8 \<le> off);
               n \<leftarrow> item_sz mp c (off - 8);
               chunk_write mp c off (replicate n 0x5a) })"

definition mpool_ctx_init :: "u8 alloc \<Rightarrow> u8 list option alloc \<Rightarrow> nat \<Rightarrow> mpool option" where
  "mpool_ctx_init alloc ralloc sz =
     do { a \<leftarrow> ralloc 1;
          ch \<leftarrow> alloc sz;
          a' \<leftarrow> poke a 0 (Some ch);
          Some \<lparr>arenasz = 8, chunksz = sz, current_chunk = 0, last_chunk = 0, current_pos = 0, arena = Some a'\<rparr> }"

text \<open>\<^verbatim>\<open>sizeof(mpool_ctx_t)\<close> is 40. Every slot of the arena is counted.\<close>

definition mpool_ctx_size :: "mpool \<Rightarrow> nat" where
  "mpool_ctx_size mp = fold (\<lambda>_ sz. SZ (sz + chunksz mp)) [0..<arenasz mp div 8] (SZ (40 + arenasz mp))"

text \<open>A freed chunk leaves the arena, so that freeing it again, or a slot never written, is a fault.\<close>

fun free_chunks :: "nat list \<Rightarrow> u8 list option list \<Rightarrow> u8 list option list option" where
  "free_chunks [] slots = Some slots"
| "free_chunks (i # is) slots =
     do { ch \<leftarrow> peek slots i; _ \<leftarrow> ch; slots' \<leftarrow> poke slots i None; free_chunks is slots' }"

definition mpool_ctx_fini :: "mpool \<Rightarrow> mpool option" where
  "mpool_ctx_fini mp =
     do { let l = MNMAX (last_chunk mp) (current_chunk mp);
          slots \<leftarrow> arena mp;
          _ \<leftarrow> free_chunks (rev [0..<Suc l]) slots;
          Some (mp\<lparr>last_chunk := l, arena := None\<rparr>) }"

subsection \<open>Bytes\<close>

lemma length_le_bytes [simp]: "length (le_bytes k n) = k"
  by (induction k arbitrary: n) auto

lemma le_nat_le_bytes: "n < 256 ^ k \<Longrightarrow> le_nat (le_bytes k n) = n"
proof (induction k arbitrary: n)
  case (Suc k)
  have "n div 256 < 256 ^ k" using Suc.prems by (simp add: less_mult_imp_div_less mult.commute)
  moreover have "unat (word_of_nat n :: u8) = n mod 256" by (simp add: unat_of_nat)
  ultimately show ?case using Suc.IH [of "n div 256"] by simp
qed simp

lemma round8:
  assumes "sz < 2 ^ 63"
  shows "sz \<le> round8 sz" "round8 sz < sz + 8" "8 dvd round8 sz"
proof -
  let ?n = "sz + (if sz mod 8 \<noteq> 0 then 8 - sz mod 8 else 0)"
  have "?n < sz + 8" by auto
  then have "round8 sz = ?n" using assms unfolding round8_def Let_def by (intro SZ_small) simp
  moreover have "8 dvd ?n"
  proof -
    have "8 dvd sz + (8 - sz mod 8)" by presburger
    then show ?thesis by auto
  qed
  ultimately show "sz \<le> round8 sz" "round8 sz < sz + 8" "8 dvd round8 sz" using \<open>?n < sz + 8\<close> by auto
qed

lemma put_bytes_take_drop:
  assumes "p + length bs \<le> length m"
  shows "take (length bs) (drop p (put_bytes m p bs)) = bs"
  using assms by (simp add: put_bytes_def)

lemma put_bytes_apart:
  assumes "p + length bs \<le> length m" "q + n \<le> p \<or> p + length bs \<le> q"
  shows "take n (drop q (put_bytes m p bs)) = take n (drop q m)"
  using assms by (intro nth_equalityI) (auto simp: put_bytes_nth)

subsection \<open>The chunks\<close>

text \<open>
  Every chunk up to the last one in use is there and has at least the chunk size; the position
  in the current one is within it and aligned.
\<close>

definition mpool_wf :: "mpool \<Rightarrow> bool" where
  "mpool_wf mp \<longleftrightarrow>
     (\<exists>slots. arena mp = Some slots \<and> length slots * 8 = arenasz mp) \<and>
     (\<forall>i \<le> max (last_chunk mp) (current_chunk mp). \<exists>ch. chunk_of mp i = Some ch \<and> chunksz mp \<le> length ch) \<and>
     current_pos mp \<le> chunksz mp \<and> 8 dvd current_pos mp \<and> chunksz mp < 2 ^ 63"

lemma chunk_of_slot: "chunk_of mp c = Some ch \<Longrightarrow> \<exists>slots. arena mp = Some slots \<and> c < length slots"
  by (auto simp: chunk_of_def peek_eq_Some split: option.splits bind_splits)

lemma chunk_of_set:
  "chunk_of mp c = Some old \<Longrightarrow> chunk_of (set_chunk mp c ch) c' = (if c' = c then Some ch else chunk_of mp c')"
  by (auto simp: chunk_of_def set_chunk_def peek_def split: bind_splits)

lemma set_chunk_simps [simp]:
  "arenasz (set_chunk mp c ch) = arenasz mp" "chunksz (set_chunk mp c ch) = chunksz mp"
  "current_chunk (set_chunk mp c ch) = current_chunk mp" "last_chunk (set_chunk mp c ch) = last_chunk mp"
  "current_pos (set_chunk mp c ch) = current_pos mp"
  by (simp_all add: set_chunk_def)

lemma chunk_of_fields [simp]:
  "chunk_of (mp\<lparr>current_pos := p\<rparr>) c = chunk_of mp c"
  "chunk_of (mp\<lparr>current_chunk := i\<rparr>) c = chunk_of mp c"
  "chunk_of (mp\<lparr>last_chunk := i\<rparr>) c = chunk_of mp c"
  by (simp_all add: chunk_of_def)

lemma chunk_write_ok:
  "chunk_of mp c = Some ch \<Longrightarrow> p + length bs \<le> length ch \<Longrightarrow>
     chunk_write mp c p bs = Some (set_chunk mp c (put_bytes ch p bs))"
  by (simp add: chunk_write_def)

lemma set_chunk_wf:
  assumes wf: "mpool_wf mp" and c: "chunk_of mp c = Some old" "length ch = length old"
  shows "mpool_wf (set_chunk mp c ch)"
proof -
  obtain slots where s: "arena mp = Some slots" "length slots * 8 = arenasz mp" using wf by (auto simp: mpool_wf_def)
  have "\<exists>ch'. chunk_of (set_chunk mp c ch) i = Some ch' \<and> chunksz mp \<le> length ch'"
    if "i \<le> max (last_chunk mp) (current_chunk mp)" for i
    using wf that c chunk_of_set [OF c(1), of ch i] unfolding mpool_wf_def by fastforce
  moreover have "arena (set_chunk mp c ch) = Some (slots[c := Some ch])" using s by (simp add: set_chunk_def)
  ultimately show ?thesis using wf s by (simp add: mpool_wf_def)
qed

lemma new_chunk_rep:
  assumes wf: "mpool_wf mp" and al: "total_allocator alloc" "total_allocator ralloc"
    and b: "Suc (current_chunk mp) < 2 ^ 31" "arenasz mp * 2 < 2 ^ 64" and sz: "chunksz mp \<le> sz"
  shows "\<exists>mp' ch. new_chunk alloc ralloc mp sz = Some (mp', Suc (current_chunk mp)) \<and> mpool_wf mp' \<and>
           current_chunk mp' = Suc (current_chunk mp) \<and> current_pos mp' = 0 \<and> chunksz mp' = chunksz mp \<and>
           last_chunk mp' = last_chunk mp \<and> arenasz mp' \<le> 2 * arenasz mp \<and>
           (\<forall>i \<le> current_chunk mp. chunk_of mp' i = chunk_of mp i) \<and>
           chunk_of mp' (Suc (current_chunk mp)) = Some ch \<and> chunksz mp \<le> length ch \<and>
           (last_chunk mp \<le> current_chunk mp \<longrightarrow> length ch = sz)"
proof -
  let ?cc = "Suc (current_chunk mp)"
  obtain slots where s: "arena mp = Some slots" "length slots * 8 = arenasz mp" using wf by (auto simp: mpool_wf_def)
  have ch: "\<exists>ch. chunk_of mp i = Some ch \<and> chunksz mp \<le> length ch"
    if "i \<le> max (last_chunk mp) (current_chunk mp)" for i
    using wf that by (auto simp: mpool_wf_def)
  show ?thesis
  proof (cases "last_chunk mp \<le> current_chunk mp")
    case False
    then have "?cc \<le> max (last_chunk mp) (current_chunk mp)" by simp
    then obtain c where c: "chunk_of mp ?cc = Some c" "chunksz mp \<le> length c" using ch by blast
    let ?mp = "mp\<lparr>current_chunk := ?cc, current_pos := 0\<rparr>"
    have "max (last_chunk mp) ?cc = max (last_chunk mp) (current_chunk mp)" using False by simp
    then have "mpool_wf ?mp" using wf by (simp add: mpool_wf_def)
    moreover have "new_chunk alloc ralloc mp sz = Some (?mp, ?cc)" using False b by (simp add: new_chunk_def)
    ultimately show ?thesis using c False by (intro exI [of _ ?mp] exI [of _ c]) simp
  next
    case True
    obtain c0 where "chunk_of mp (current_chunk mp) = Some c0" using ch [of "current_chunk mp"] by auto
    then have lt: "current_chunk mp < length slots" using chunk_of_slot s by fastforce
    obtain c where c: "alloc sz = Some c" "length c = sz"
      using total_allocator.alloc_total [OF al(1)] allocator.alloc_len [OF total_allocator.axioms(1) [OF al(1)]] by blast
    obtain mp1 slots1 where m1: "(if ?cc * 8 = arenasz mp then
           do { slots \<leftarrow> arena mp;
                blk \<leftarrow> realloc_blk ralloc slots (SZ (arenasz mp * 2) div 8);
                Some (mp\<lparr>arenasz := SZ (arenasz mp * 2), arena := Some blk\<rparr>) }
         else Some mp) = Some mp1" "arena mp1 = Some slots1" "length slots1 * 8 = arenasz mp1" "?cc < length slots1"
        "take (length slots) slots1 = slots" "arenasz mp1 \<le> 2 * arenasz mp" "chunksz mp1 = chunksz mp"
        "current_chunk mp1 = current_chunk mp" "last_chunk mp1 = last_chunk mp"
    proof (cases "?cc * 8 = arenasz mp")
      case False
      then have "?cc < length slots" using lt s(2) by (cases "?cc = length slots") auto
      with False s show ?thesis by (intro that [of mp slots]) auto
    next
      case grow: True
      have z: "SZ (arenasz mp * 2) = arenasz mp * 2" using b(2) by (rule SZ_small)
      have d: "arenasz mp * 2 div 8 = 2 * length slots" using s(2) by simp
      obtain blk where blk: "realloc_blk ralloc slots (2 * length slots) = Some blk"
        using total_allocator.realloc_total [OF al(2)] by blast
      have "length blk = 2 * length slots"
        by (rule allocator.realloc_len [OF total_allocator.axioms(1) [OF al(2)] blk])
      moreover have "take (length slots) blk = slots"
        using allocator.realloc_prefix [OF total_allocator.axioms(1) [OF al(2)] blk, of "length slots"] by simp
      ultimately show ?thesis using grow s blk z d lt
        by (intro that [of "mp\<lparr>arenasz := arenasz mp * 2, arena := Some blk\<rparr>" blk]) simp_all
    qed
    let ?mp = "mp1\<lparr>arena := Some (slots1[?cc := Some c]), current_chunk := ?cc, current_pos := 0\<rparr>"
    have n: "new_chunk alloc ralloc mp sz = Some (?mp, ?cc)"
      using True b(1) m1(1,2,4) c(1) unfolding new_chunk_def Let_def by simp
    have old: "chunk_of ?mp i = chunk_of mp i" if i: "i \<le> current_chunk mp" for i
    proof -
      have "i < length slots" "i \<noteq> ?cc" using i lt by simp_all
      moreover have "slots1 ! i = slots ! i" using m1(5) \<open>i < length slots\<close> by (metis nth_take)
      ultimately show ?thesis using s(1) m1(4) i by (simp add: chunk_of_def)
    qed
    have new: "chunk_of ?mp ?cc = Some c" using m1(4) by (simp add: chunk_of_def)
    have "\<exists>ch. chunk_of ?mp i = Some ch \<and> chunksz mp \<le> length ch" if "i \<le> max (last_chunk mp) ?cc" for i
    proof (cases "i = ?cc")
      case True
      then show ?thesis using new c(2) sz by simp
    next
      case False
      then have "i \<le> current_chunk mp" using that True by auto
      then show ?thesis using old [of i] ch [of i] by simp
    qed
    then have "mpool_wf ?mp" using wf m1 by (simp add: mpool_wf_def)
    then show ?thesis using n old new c(2) sz m1 by (intro exI [of _ ?mp] exI [of _ c]) simp
  qed
qed

subsection \<open>The blocks in use\<close>

text \<open>
  A block is its chunk, its offset and its size. Two blocks are apart when their bytes, headers
  included, are.
\<close>

type_synonym mblock = "nat \<times> nat \<times> nat"

definition block_ok :: "mpool \<Rightarrow> mblock \<Rightarrow> bool" where
  "block_ok mp b \<longleftrightarrow> (case b of (c, off, n) \<Rightarrow>
     8 \<le> off \<and> 8 dvd off \<and> c \<le> current_chunk mp \<and> (c = current_chunk mp \<longrightarrow> off + n \<le> current_pos mp) \<and>
     (\<exists>ch. chunk_of mp c = Some ch \<and> off + n \<le> length ch \<and> le_nat (take 8 (drop (off - 8) ch)) = n))"

definition contents :: "mpool \<Rightarrow> mblock \<Rightarrow> u8 list option" where
  "contents mp b = (case b of (c, off, n) \<Rightarrow> chunk_read mp c off n)"

definition apart :: "mblock \<Rightarrow> mblock \<Rightarrow> bool" where
  "apart a b \<longleftrightarrow> (case (a, b) of ((c, off, n), (c', off', n')) \<Rightarrow>
     c \<noteq> c' \<or> off + n \<le> off' - 8 \<or> off' + n' \<le> off - 8)"

definition pool_rep :: "mpool \<Rightarrow> mblock list \<Rightarrow> bool" where
  "pool_rep mp bs \<longleftrightarrow> mpool_wf mp \<and> (\<forall>b \<in> set bs. block_ok mp b) \<and> sorted_wrt apart bs"

lemma block_header:
  assumes "p + 8 + n \<le> length ch" "n < 2 ^ 64"
  shows "le_nat (take 8 (drop p (put_bytes ch p (le_bytes 8 n @ bs)))) = n"
proof -
  have "take 8 (drop p (put_bytes ch p (le_bytes 8 n @ bs))) = le_bytes 8 n"
    using assms(1) by (simp add: put_bytes_def)
  then show ?thesis using assms(2) by (simp add: le_nat_le_bytes)
qed

lemma block_placed:
  assumes ok: "\<forall>b \<in> set bs. block_ok mp b" and wf: "mpool_wf mp2"
    and c: "chunk_of mp2 c = Some (put_bytes ch p (le_bytes 8 n))" and room: "p + 8 + n \<le> length ch"
    and n: "n < 2 ^ 64" and p: "8 dvd p"
    and frame: "\<And>i. i \<le> current_chunk mp \<Longrightarrow> i \<noteq> c \<Longrightarrow> chunk_of mp2 i = chunk_of mp i"
    and same: "c \<le> current_chunk mp \<Longrightarrow> chunk_of mp c = Some ch"
    and before: "\<forall>b \<in> set bs. fst b \<noteq> c \<or> fst (snd b) + snd (snd b) \<le> p"
    and cur: "current_chunk mp \<le> current_chunk mp2" "c \<le> current_chunk mp2"
      "c = current_chunk mp2 \<Longrightarrow> p + 8 + n \<le> current_pos mp2"
      "current_chunk mp2 = current_chunk mp \<Longrightarrow> current_pos mp \<le> current_pos mp2"
  shows "\<exists>mp4. item_sz mp2 c p = Some n \<and> chunk_write mp2 c (p + 8) (replicate n x) = Some mp4 \<and>
           mpool_wf mp4 \<and> block_ok mp4 (c, p + 8, n) \<and> contents mp4 (c, p + 8, n) = Some (replicate n x) \<and>
           (\<forall>b \<in> set bs. block_ok mp4 b \<and> contents mp4 b = contents mp b \<and> apart (c, p + 8, n) b)"
proof -
  let ?h = "le_bytes 8 n" and ?d = "replicate n x"
  let ?new = "put_bytes ch p (?h @ ?d)"
  let ?mp = "set_chunk mp2 c ?new"
  have len: "length ?new = length ch" "length (put_bytes ch p ?h) = length ch" using room by simp_all
  have sz: "item_sz mp2 c p = Some n"
    using c room n block_header [of p n ch "[]"] by (simp add: item_sz_def chunk_read_def)
  have "put_bytes (put_bytes ch p ?h) (p + length ?h) ?d = ?new"
    by (rule put_bytes_put_bytes) (use room in simp)
  then have w: "chunk_write mp2 c (p + 8) ?d = Some ?mp"
    using c len(2) room by (simp add: chunk_write_def)
  have chk: "chunk_of ?mp i = (if i = c then Some ?new else chunk_of mp2 i)" for i
    by (rule chunk_of_set [OF c])
  have wf': "mpool_wf ?mp" by (rule set_chunk_wf [OF wf c]) (use len in simp)
  have b: "block_ok ?mp (c, p + 8, n)"
    using p room cur(2,3) chk [of c] len block_header [OF room n, of ?d]
    by (auto simp: block_ok_def)
  have "take n (drop (p + 8) ?new) = ?d" using room by (simp add: put_bytes_def)
  then have cont: "contents ?mp (c, p + 8, n) = Some ?d" using chk [of c] len room by (simp add: contents_def chunk_read_def)
  have old: "block_ok ?mp b \<and> contents ?mp b = contents mp b \<and> apart (c, p + 8, n) b" if "b \<in> set bs" for b
  proof -
    obtain c' o' n' where b: "b = (c', o', n')" by (cases b)
    have ok': "block_ok mp (c', o', n')" using ok that b by blast
    obtain ch' where ch': "chunk_of mp c' = Some ch'" "o' + n' \<le> length ch'" "le_nat (take 8 (drop (o' - 8) ch')) = n'"
      and o': "8 \<le> o'" "8 dvd o'" "c' \<le> current_chunk mp" "c' = current_chunk mp \<longrightarrow> o' + n' \<le> current_pos mp"
      using ok' by (auto simp: block_ok_def)
    have bf: "c' \<noteq> c \<or> o' + n' \<le> p" using before that b by force
    have wm: "c' = current_chunk mp2 \<longrightarrow> o' + n' \<le> current_pos mp2" using o' cur(1,4) by fastforce
    show ?thesis
    proof (cases "c' = c")
      case False
      then have "chunk_of ?mp c' = Some ch'" using chk [of c'] frame [OF o'(3)] ch' by simp
      then show ?thesis using b False ch' o' wm cur(1)
        by (auto simp: block_ok_def contents_def chunk_read_def apart_def)
    next
      case True
      then have e: "ch' = ch" using same o'(3) ch'(1) by simp
      have q: "o' + n' \<le> p" using bf True by simp
      have fit: "p + length (?h @ ?d) \<le> length ch" using room by simp
      have hd: "take 8 (drop (o' - 8) ?new) = take 8 (drop (o' - 8) ch)"
        by (rule put_bytes_apart [OF fit]) (use q o'(1) in simp)
      have dt: "take n' (drop o' ?new) = take n' (drop o' ch)"
        by (rule put_bytes_apart [OF fit]) (use q in simp)
      show ?thesis using b True ch' e o' wm cur(1) chk [of c] hd dt len q
        by (auto simp: block_ok_def contents_def chunk_read_def apart_def)
    qed
  qed
  show ?thesis using sz w wf' b cont old by blast
qed

subsection \<open>Allocation\<close>

lemma pos_wf: "mpool_wf mp \<Longrightarrow> p \<le> chunksz mp \<Longrightarrow> 8 dvd p \<Longrightarrow> mpool_wf (mp\<lparr>current_pos := p\<rparr>)"
  by (simp add: mpool_wf_def)

text \<open>What remains is what a call of \<^verbatim>\<open>mpool_malloc\<close> does before it fills the block.\<close>

definition placed :: "mpool \<Rightarrow> mblock list \<Rightarrow> nat \<Rightarrow> mpool \<Rightarrow> nat \<Rightarrow> nat \<Rightarrow> bool" where
  "placed mp bs n mp2 c p \<longleftrightarrow>
     (\<exists>mp4. item_sz mp2 c p = Some n \<and> chunk_write mp2 c (p + 8) (replicate n 0xa5) = Some mp4 \<and>
        mpool_wf mp4 \<and> block_ok mp4 (c, p + 8, n) \<and> contents mp4 (c, p + 8, n) = Some (replicate n 0xa5) \<and>
        (\<forall>b \<in> set bs. block_ok mp4 b \<and> contents mp4 b = contents mp b \<and> apart (c, p + 8, n) b))"

lemma malloc_in_place:
  assumes wf: "mpool_wf mp" and ok: "\<forall>b \<in> set bs. block_ok mp b" and n: "n < 2 ^ 63" "8 dvd n"
    and fit: "current_pos mp + (n + 8) \<le> chunksz mp"
  shows "\<exists>mp2. chunk_write mp (current_chunk mp) (current_pos mp) (le_bytes 8 n) = Some mp2 \<and>
           placed mp bs n (mp2\<lparr>current_pos := current_pos mp + (n + 8)\<rparr>) (current_chunk mp) (current_pos mp)"
proof -
  let ?c = "current_chunk mp" and ?p = "current_pos mp"
  obtain ch where ch: "chunk_of mp ?c = Some ch" "chunksz mp \<le> length ch"
    using wf by (auto simp: mpool_wf_def dest: spec [of _ ?c])
  let ?mp1 = "set_chunk mp ?c (put_bytes ch ?p (le_bytes 8 n))"
  let ?mp2 = "?mp1\<lparr>current_pos := ?p + (n + 8)\<rparr>"
  have room: "?p + 8 + n \<le> length ch" using fit ch(2) by simp
  have w: "chunk_write mp ?c ?p (le_bytes 8 n) = Some ?mp1" using chunk_write_ok [OF ch(1)] room by simp
  have d: "8 dvd ?p" using wf by (simp add: mpool_wf_def)
  have "mpool_wf ?mp1" by (rule set_chunk_wf [OF wf ch(1)]) (use room in simp)
  then have wf2: "mpool_wf ?mp2" by (rule pos_wf) (use fit d n(2) in simp_all)
  have "\<exists>mp4. item_sz ?mp2 ?c ?p = Some n \<and> chunk_write ?mp2 ?c (?p + 8) (replicate n 0xa5) = Some mp4 \<and>
           mpool_wf mp4 \<and> block_ok mp4 (?c, ?p + 8, n) \<and> contents mp4 (?c, ?p + 8, n) = Some (replicate n 0xa5) \<and>
           (\<forall>b \<in> set bs. block_ok mp4 b \<and> contents mp4 b = contents mp b \<and> apart (?c, ?p + 8, n) b)"
  proof (rule block_placed [OF ok wf2 _ room])
    show "chunk_of ?mp2 ?c = Some (put_bytes ch ?p (le_bytes 8 n))" using chunk_of_set [OF ch(1)] by simp
    show "chunk_of ?mp2 i = chunk_of mp i" if "i \<noteq> ?c" for i using chunk_of_set [OF ch(1)] that by simp
    show "\<forall>b \<in> set bs. fst b \<noteq> ?c \<or> fst (snd b) + snd (snd b) \<le> ?p" using ok by (fastforce simp: block_ok_def)
  qed (use n d ch in simp_all)
  then show ?thesis using w by (auto simp: placed_def)
qed

lemma malloc_new_chunk:
  assumes wf: "mpool_wf mp" and ok: "\<forall>b \<in> set bs. block_ok mp b" and n: "n < 2 ^ 63" "8 dvd n"
    and fit: "n + 8 \<le> chunksz mp" and al: "total_allocator alloc" "total_allocator ralloc"
    and b: "Suc (current_chunk mp) < 2 ^ 31" "arenasz mp * 2 < 2 ^ 64"
  shows "\<exists>mp1 mp2. new_chunk alloc ralloc mp (chunksz mp) = Some (mp1, Suc (current_chunk mp)) \<and> current_pos mp1 = 0 \<and>
           chunk_write mp1 (Suc (current_chunk mp)) 0 (le_bytes 8 n) = Some mp2 \<and>
           placed mp bs n (mp2\<lparr>current_pos := n + 8\<rparr>) (Suc (current_chunk mp)) 0"
proof -
  let ?c = "Suc (current_chunk mp)"
  obtain mp1 ch where m1: "new_chunk alloc ralloc mp (chunksz mp) = Some (mp1, ?c)" "mpool_wf mp1"
      "current_chunk mp1 = ?c" "current_pos mp1 = 0" "chunksz mp1 = chunksz mp"
      "\<forall>i \<le> current_chunk mp. chunk_of mp1 i = chunk_of mp i" "chunk_of mp1 ?c = Some ch" "chunksz mp \<le> length ch"
    using new_chunk_rep [OF wf al b le_refl] by blast
  let ?mp1 = "set_chunk mp1 ?c (put_bytes ch 0 (le_bytes 8 n))"
  let ?mp2 = "?mp1\<lparr>current_pos := n + 8\<rparr>"
  have room: "0 + 8 + n \<le> length ch" using fit m1(8) by simp
  have w: "chunk_write mp1 ?c 0 (le_bytes 8 n) = Some ?mp1" using chunk_write_ok [OF m1(7)] room by simp
  have "mpool_wf ?mp1" by (rule set_chunk_wf [OF m1(2,7)]) (use room in simp)
  then have wf2: "mpool_wf ?mp2" by (rule pos_wf) (use fit n(2) m1(5) in simp_all)
  have "\<exists>mp4. item_sz ?mp2 ?c 0 = Some n \<and> chunk_write ?mp2 ?c (0 + 8) (replicate n 0xa5) = Some mp4 \<and>
           mpool_wf mp4 \<and> block_ok mp4 (?c, 0 + 8, n) \<and> contents mp4 (?c, 0 + 8, n) = Some (replicate n 0xa5) \<and>
           (\<forall>b \<in> set bs. block_ok mp4 b \<and> contents mp4 b = contents mp b \<and> apart (?c, 0 + 8, n) b)"
  proof (rule block_placed [OF ok wf2 _ room])
    show "chunk_of ?mp2 ?c = Some (put_bytes ch 0 (le_bytes 8 n))" using chunk_of_set [OF m1(7)] by simp
    show "chunk_of ?mp2 i = chunk_of mp i" if "i \<le> current_chunk mp" for i
      using chunk_of_set [OF m1(7)] m1(6) that by simp
    show "\<forall>b \<in> set bs. fst b \<noteq> ?c \<or> fst (snd b) + snd (snd b) \<le> 0" using ok by (fastforce simp: block_ok_def)
  qed (use n m1 in simp_all)
  then show ?thesis using m1(1,4) w unfolding placed_def by blast
qed

lemma malloc_big:
  assumes wf: "mpool_wf mp" and ok: "\<forall>b \<in> set bs. block_ok mp b" and n: "n < 2 ^ 63" "8 dvd n"
    and big: "chunksz mp < n + 8" "last_chunk mp \<le> current_chunk mp"
    and al: "total_allocator alloc" "total_allocator ralloc"
    and b: "Suc (Suc (current_chunk mp)) < 2 ^ 31" "arenasz mp * 4 < 2 ^ 64"
  shows "\<exists>mp1 mp2 mp3 c'. new_chunk alloc ralloc mp (n + 8) = Some (mp1, Suc (current_chunk mp)) \<and>
           chunk_write mp1 (Suc (current_chunk mp)) 0 (le_bytes 8 n) = Some mp2 \<and>
           new_chunk alloc ralloc mp2 (chunksz mp2) = Some (mp3, c') \<and>
           placed mp bs n mp3 (Suc (current_chunk mp)) 0"
proof -
  let ?c = "Suc (current_chunk mp)"
  have b1: "Suc (current_chunk mp) < 2 ^ 31" "arenasz mp * 2 < 2 ^ 64" "chunksz mp \<le> n + 8" using b big by simp_all
  obtain mp1 ch where m1: "new_chunk alloc ralloc mp (n + 8) = Some (mp1, ?c)" "mpool_wf mp1"
      "current_chunk mp1 = ?c" "chunksz mp1 = chunksz mp" "last_chunk mp1 = last_chunk mp" "arenasz mp1 \<le> 2 * arenasz mp"
      "\<forall>i \<le> current_chunk mp. chunk_of mp1 i = chunk_of mp i" "chunk_of mp1 ?c = Some ch" "length ch = n + 8"
    using new_chunk_rep [OF wf al b1] big(2) by blast
  let ?mp2 = "set_chunk mp1 ?c (put_bytes ch 0 (le_bytes 8 n))"
  have room: "0 + 8 + n \<le> length ch" using m1(9) by simp
  have w: "chunk_write mp1 ?c 0 (le_bytes 8 n) = Some ?mp2" using chunk_write_ok [OF m1(8)] room by simp
  have wf2: "mpool_wf ?mp2" by (rule set_chunk_wf [OF m1(2,8)]) (use room in simp)
  have b2: "Suc (current_chunk ?mp2) < 2 ^ 31" "arenasz ?mp2 * 2 < 2 ^ 64" using b m1 by simp_all
  obtain mp3 where m3: "new_chunk alloc ralloc ?mp2 (chunksz ?mp2) = Some (mp3, Suc ?c)" "mpool_wf mp3"
      "current_chunk mp3 = Suc ?c" "\<forall>i \<le> ?c. chunk_of mp3 i = chunk_of ?mp2 i"
    using new_chunk_rep [OF wf2 al b2 le_refl] m1(3) by auto
  have "\<exists>mp4. item_sz mp3 ?c 0 = Some n \<and> chunk_write mp3 ?c (0 + 8) (replicate n 0xa5) = Some mp4 \<and>
           mpool_wf mp4 \<and> block_ok mp4 (?c, 0 + 8, n) \<and> contents mp4 (?c, 0 + 8, n) = Some (replicate n 0xa5) \<and>
           (\<forall>b \<in> set bs. block_ok mp4 b \<and> contents mp4 b = contents mp b \<and> apart (?c, 0 + 8, n) b)"
  proof (rule block_placed [OF ok m3(2) _ room])
    show "chunk_of mp3 ?c = Some (put_bytes ch 0 (le_bytes 8 n))" using m3(4) chunk_of_set [OF m1(8)] by simp
    show "chunk_of mp3 i = chunk_of mp i" if "i \<le> current_chunk mp" for i
      using m3(4) chunk_of_set [OF m1(8)] m1(7) that by simp
    show "\<forall>b \<in> set bs. fst b \<noteq> ?c \<or> fst (snd b) + snd (snd b) \<le> 0" using ok by (fastforce simp: block_ok_def)
  qed (use n m1 m3 in simp_all)
  then show ?thesis using m1(1) w m3(1) unfolding placed_def by blast
qed

lemma mpool_malloc_rep:
  assumes rep: "pool_rep mp bs" and al: "total_allocator alloc" "total_allocator ralloc" and sz: "sz < 2 ^ 62"
    and b: "Suc (Suc (current_chunk mp)) < 2 ^ 31" "arenasz mp * 4 < 2 ^ 64"
    and big: "round8 sz + 8 \<le> chunksz mp \<or> last_chunk mp \<le> current_chunk mp"
  shows "\<exists>mp' c off. mpool_malloc alloc ralloc mp sz = Some (mp', c, off) \<and> pool_rep mp' ((c, off, round8 sz) # bs) \<and>
           contents mp' (c, off, round8 sz) = Some (replicate (round8 sz) 0xa5) \<and>
           (\<forall>b \<in> set bs. contents mp' b = contents mp b)"
proof -
  have wf: "mpool_wf mp" and ok: "\<forall>b \<in> set bs. block_ok mp b" and srt: "sorted_wrt apart bs"
    using rep by (simp_all add: pool_rep_def)
  let ?n = "round8 sz"
  have r: "sz \<le> ?n" "?n < sz + 8" "8 dvd ?n" using round8 [of sz] sz by simp_all
  then have n: "?n < 2 ^ 63" "8 dvd ?n" using sz by simp_all
  have z: "SZ (?n + 8) = ?n + 8" using n(1) by (intro SZ_small) simp
  have nl: "SZ (chunksz mp + (2 ^ 64 - current_pos mp)) = chunksz mp - current_pos mp"
  proof -
    have "current_pos mp \<le> chunksz mp" "chunksz mp < 2 ^ 63" using wf by (simp_all add: mpool_wf_def)
    then have "chunksz mp + (2 ^ 64 - current_pos mp) = (chunksz mp - current_pos mp) + 2 ^ 64" by simp
    moreover have "chunksz mp - current_pos mp < 2 ^ 64" using \<open>chunksz mp < 2 ^ 63\<close> by simp
    ultimately show ?thesis unfolding SZ_def by (metis mod_add_self2 mod_less)
  qed
  have fin: ?thesis if "mpool_malloc alloc ralloc mp sz =
        do { n \<leftarrow> item_sz mp2 c p; mp4 \<leftarrow> chunk_write mp2 c (p + 8) (replicate n 0xa5); Some (mp4, c, p + 8) }"
      "placed mp bs ?n mp2 c p" for mp2 c p
    using that srt unfolding placed_def pool_rep_def by auto
  show ?thesis
  proof (cases "chunksz mp < ?n + 8")
    case True
    then have "last_chunk mp \<le> current_chunk mp" using big by simp
    from malloc_big [OF wf ok n True this al b] obtain mp1 mp2 mp3 c'
      where m: "new_chunk alloc ralloc mp (?n + 8) = Some (mp1, Suc (current_chunk mp))"
        "chunk_write mp1 (Suc (current_chunk mp)) 0 (le_bytes 8 ?n) = Some mp2"
        "new_chunk alloc ralloc mp2 (chunksz mp2) = Some (mp3, c')" "placed mp bs ?n mp3 (Suc (current_chunk mp)) 0"
      by blast
    show ?thesis by (rule fin [OF _ m(4)]) (use True m z in \<open>simp add: mpool_malloc_def Let_def\<close>)
  next
    case False
    show ?thesis
    proof (cases "chunksz mp - current_pos mp < ?n + 8")
      case True
      have "?n + 8 \<le> chunksz mp" "Suc (current_chunk mp) < 2 ^ 31" "arenasz mp * 2 < 2 ^ 64" using False b by simp_all
      from malloc_new_chunk [OF wf ok n this(1) al this(2,3)] obtain mp1 mp2
        where m: "new_chunk alloc ralloc mp (chunksz mp) = Some (mp1, Suc (current_chunk mp))" "current_pos mp1 = 0"
          "chunk_write mp1 (Suc (current_chunk mp)) 0 (le_bytes 8 ?n) = Some mp2"
          "placed mp bs ?n (mp2\<lparr>current_pos := ?n + 8\<rparr>) (Suc (current_chunk mp)) 0"
        by blast
      show ?thesis by (rule fin [OF _ m(4)]) (use False True m z nl in \<open>simp add: mpool_malloc_def Let_def\<close>)
    next
      case fits: False
      have "current_pos mp + (?n + 8) \<le> chunksz mp" using fits False wf by (simp add: mpool_wf_def)
      from malloc_in_place [OF wf ok n this] obtain mp2
        where m: "chunk_write mp (current_chunk mp) (current_pos mp) (le_bytes 8 ?n) = Some mp2"
          "placed mp bs ?n (mp2\<lparr>current_pos := current_pos mp + (?n + 8)\<rparr>) (current_chunk mp) (current_pos mp)"
        by blast
      show ?thesis by (rule fin [OF _ m(2)]) (use False fits m z nl in \<open>simp add: mpool_malloc_def Let_def\<close>)
    qed
  qed
qed

subsection \<open>Writing into a block\<close>

text \<open>A write into the data of one block leaves its header and all blocks apart from it alone.\<close>

lemma write_in_block:
  assumes wf: "mpool_wf mp" and b: "block_ok mp (c, off, n)" and r: "off \<le> p" "p + length xs \<le> off + n"
  shows "\<exists>mp' ch. chunk_write mp c p xs = Some mp' \<and> mpool_wf mp' \<and> block_ok mp' (c, off, n) \<and>
           chunk_of mp c = Some ch \<and> off + n \<le> length ch \<and> chunk_of mp' c = Some (put_bytes ch p xs) \<and>
           (\<forall>x. block_ok mp x \<longrightarrow> apart (c, off, n) x \<longrightarrow> block_ok mp' x \<and> contents mp' x = contents mp x)"
proof -
  obtain ch where ch: "chunk_of mp c = Some ch" "off + n \<le> length ch" "le_nat (take 8 (drop (off - 8) ch)) = n" "8 \<le> off"
    using b by (auto simp: block_ok_def)
  let ?mp = "set_chunk mp c (put_bytes ch p xs)"
  have fit: "p + length xs \<le> length ch" using r ch(2) by simp
  have w: "chunk_write mp c p xs = Some ?mp" by (rule chunk_write_ok [OF ch(1) fit])
  have wf': "mpool_wf ?mp" by (rule set_chunk_wf [OF wf ch(1)]) (use fit in simp)
  have chk: "chunk_of ?mp i = (if i = c then Some (put_bytes ch p xs) else chunk_of mp i)" for i
    by (rule chunk_of_set [OF ch(1)])
  have "take 8 (drop (off - 8) (put_bytes ch p xs)) = take 8 (drop (off - 8) ch)"
    by (rule put_bytes_apart [OF fit]) (use r(1) ch(4) in simp)
  then have b': "block_ok ?mp (c, off, n)" using b ch fit chk [of c] by (simp add: block_ok_def)
  have "block_ok ?mp x \<and> contents ?mp x = contents mp x" if x: "block_ok mp x" "apart (c, off, n) x" for x
  proof -
    obtain c' o' n' where e: "x = (c', o', n')" by (cases x)
    show ?thesis
    proof (cases "c' = c")
      case False
      then show ?thesis using x(1) e chk [of c'] by (simp add: block_ok_def contents_def chunk_read_def)
    next
      case True
      have a: "off + n \<le> o' - 8 \<or> o' + n' \<le> off - 8" "8 \<le> o'"
        using x True e by (auto simp: apart_def block_ok_def)
      have hd: "take 8 (drop (o' - 8) (put_bytes ch p xs)) = take 8 (drop (o' - 8) ch)"
        by (rule put_bytes_apart [OF fit]) (use a r in auto)
      have dt: "take n' (drop o' (put_bytes ch p xs)) = take n' (drop o' ch)"
        by (rule put_bytes_apart [OF fit]) (use a r in auto)
      show ?thesis using x(1) e True chk [of c] ch(1) fit hd dt
        by (simp add: block_ok_def contents_def chunk_read_def)
    qed
  qed
  then show ?thesis using w wf' b' ch(1,2) chk [of c] by fastforce
qed

lemma block_size: "block_ok mp (c, off, n) \<Longrightarrow> item_sz mp c (off - 8) = Some n"
  by (auto simp: block_ok_def item_sz_def chunk_read_def)

lemma pool_repD:
  assumes "pool_rep mp (b # bs)"
  shows "mpool_wf mp" "block_ok mp b" "\<forall>x \<in> set bs. block_ok mp x \<and> apart b x" "sorted_wrt apart bs"
  using assms by (simp_all add: pool_rep_def)

lemma apart_sym: "apart a b \<longleftrightarrow> apart b a"
  by (auto simp: apart_def split: prod.splits)

lemma pool_rep_rotate: "pool_rep mp (a # b # bs) \<Longrightarrow> pool_rep mp (b # a # bs)"
  using apart_sym by (auto simp: pool_rep_def)

text \<open>A write into the first block of the list.\<close>

lemma pool_write:
  assumes rep: "pool_rep mp ((c, off, n) # bs)" and r: "off \<le> p" "p + length xs \<le> off + n"
  shows "\<exists>mp' ch. chunk_write mp c p xs = Some mp' \<and> pool_rep mp' ((c, off, n) # bs) \<and>
           chunk_of mp c = Some ch \<and> off + n \<le> length ch \<and> chunk_of mp' c = Some (put_bytes ch p xs) \<and>
           (\<forall>x \<in> set bs. contents mp' x = contents mp x)"
  using write_in_block [OF pool_repD(1,2) [OF rep] r] pool_repD [OF rep]
  by (fastforce simp: pool_rep_def)

subsection \<open>Life of a pool\<close>

lemma mpool_ctx_init_rep:
  assumes al: "total_allocator alloc" "total_allocator ralloc" and sz: "sz < 2 ^ 63"
  shows "\<exists>mp. mpool_ctx_init alloc ralloc sz = Some mp \<and> pool_rep mp [] \<and> chunksz mp = sz \<and> last_chunk mp = 0 \<and>
           current_chunk mp = 0 \<and> arenasz mp = 8"
proof -
  obtain a ch where a: "ralloc 1 = Some a" "alloc sz = Some ch"
    using total_allocator.alloc_total [OF al(1)] total_allocator.alloc_total [OF al(2)] by blast
  have "length a = 1" "length ch = sz"
    using allocator.alloc_len [OF total_allocator.axioms(1) [OF al(1)] a(2)]
      allocator.alloc_len [OF total_allocator.axioms(1) [OF al(2)] a(1)] by simp_all
  then show ?thesis using a sz
    by (simp add: mpool_ctx_init_def pool_rep_def mpool_wf_def chunk_of_def)
qed

text \<open>A reset forgets the blocks and keeps the chunks.\<close>

lemma mpool_ctx_reset_rep: "pool_rep mp bs \<Longrightarrow> pool_rep (mpool_ctx_reset mp) []"
  by (auto simp: pool_rep_def mpool_wf_def mpool_ctx_reset_def MNMAX_eq_max chunk_of_def)

lemma free_chunks_ok:
  "distinct is \<Longrightarrow> \<forall>i \<in> set is. i < length slots \<and> slots ! i \<noteq> None \<Longrightarrow>
     \<exists>slots'. free_chunks is slots = Some slots' \<and> length slots' = length slots \<and>
       (\<forall>i < length slots. slots' ! i = (if i \<in> set is then None else slots ! i))"
proof (induction "is" arbitrary: slots)
  case (Cons i "is")
  then obtain ch where i: "i < length slots" "slots ! i = Some ch" by auto
  have "\<forall>j \<in> set is. j < length (slots[i := None]) \<and> (slots[i := None]) ! j \<noteq> None"
    using Cons.prems by (auto simp: nth_list_update)
  from Cons.IH [OF _ this] Cons.prems(1) obtain slots' where
    s: "free_chunks is (slots[i := None]) = Some slots'" "length slots' = length slots"
      "\<forall>j < length slots. slots' ! j = (if j \<in> set is then None else (slots[i := None]) ! j)"
    by auto
  show ?case using s i by (auto simp: nth_list_update)
qed simp

text \<open>The end of a pool frees every chunk it was given, each once.\<close>

lemma mpool_ctx_fini_frees:
  assumes "pool_rep mp bs"
  shows "\<exists>mp' slots slots'. mpool_ctx_fini mp = Some mp' \<and> arena mp' = None \<and> arena mp = Some slots \<and>
           free_chunks (rev [0..<Suc (max (last_chunk mp) (current_chunk mp))]) slots = Some slots' \<and>
           (\<forall>i \<le> max (last_chunk mp) (current_chunk mp). slots ! i \<noteq> None \<and> slots' ! i = None)"
proof -
  let ?l = "max (last_chunk mp) (current_chunk mp)"
  have wf: "mpool_wf mp" using assms by (simp add: pool_rep_def)
  then obtain slots where s: "arena mp = Some slots" by (auto simp: mpool_wf_def)
  have ch: "\<exists>ch. chunk_of mp i = Some ch" if "i \<le> ?l" for i using wf that by (auto simp: mpool_wf_def)
  have in_: "i < length slots \<and> slots ! i \<noteq> None" if "i \<le> ?l" for i
    using ch [OF that] s by (auto simp: chunk_of_def peek_eq_Some split: bind_splits)
  then have "\<forall>i \<in> set (rev [0..<Suc ?l]). i < length slots \<and> slots ! i \<noteq> None" by (simp add: less_Suc_eq_le)
  from free_chunks_ok [OF _ this] obtain slots' where
    f: "free_chunks (rev [0..<Suc ?l]) slots = Some slots'"
      "\<forall>i < length slots. slots' ! i = (if i \<in> set (rev [0..<Suc ?l]) then None else slots ! i)"
    by auto
  have "mpool_ctx_fini mp = Some (mp\<lparr>last_chunk := ?l, arena := None\<rparr>)"
    using s f(1) by (simp add: mpool_ctx_fini_def MNMAX_eq_max del: upt_Suc)
  then show ?thesis using f in_ s by (auto simp: less_Suc_eq_le simp del: upt_Suc)
qed

text \<open>
  After a reset a large request takes the next old chunk whatever its size: if the chunk is
  smaller, the item is written over the chunk's end.
\<close>

lemma mpool_reuse_overflows:
  assumes ch: "chunk_of mp (Suc (current_chunk mp)) = Some ch" and c: "current_chunk mp < last_chunk mp"
    and sz: "sz < 2 ^ 62" "chunksz mp < round8 sz + 8" "length ch < round8 sz + 8"
    and more: "Suc (current_chunk mp) < last_chunk mp"
  shows "mpool_malloc alloc ralloc mp sz = None"
proof -
  let ?n = "round8 sz" and ?c = "Suc (current_chunk mp)"
  have n: "?n < 2 ^ 63" using round8(2) [of sz] sz(1) by simp
  have z: "SZ (?n + 8) = ?n + 8" using n by (intro SZ_small) simp
  let ?mp1 = "mp\<lparr>current_chunk := ?c, current_pos := 0\<rparr>"
  let ?mp2 = "set_chunk ?mp1 ?c (put_bytes ch 0 (le_bytes 8 ?n))"
  let ?mp3 = "?mp2\<lparr>current_chunk := Suc ?c, current_pos := 0\<rparr>"
  have c1: "chunk_of ?mp1 ?c = Some ch" using ch by simp
  have c3: "chunk_of ?mp3 ?c = Some (put_bytes ch 0 (le_bytes 8 ?n))" using chunk_of_set [OF c1] by simp
  show ?thesis
  proof (cases "8 \<le> length ch")
    case True
    have "item_sz ?mp3 ?c 0 = Some ?n"
      using c3 True n by (simp add: item_sz_def chunk_read_def put_bytes_def le_nat_le_bytes)
    moreover have "chunk_write ?mp3 ?c 8 (replicate ?n 0xa5) = None"
      using c3 True sz(3) by (simp add: chunk_write_def)
    moreover have "chunk_write ?mp1 ?c 0 (le_bytes 8 ?n) = Some ?mp2" using chunk_write_ok [OF c1] True by simp
    moreover have "new_chunk alloc ralloc mp (?n + 8) = (if ?c < 2 ^ 31 then Some (?mp1, ?c) else None)"
      using c by (simp add: new_chunk_def)
    moreover have "new_chunk alloc ralloc ?mp2 (chunksz ?mp2) = (if Suc ?c < 2 ^ 31 then Some (?mp3, Suc ?c) else None)"
      using more by (simp add: new_chunk_def)
    ultimately show ?thesis using sz(2) z by (simp add: mpool_malloc_def Let_def)
  next
    case False
    then have "chunk_write ?mp1 ?c 0 (le_bytes 8 ?n) = None" using c1 by (simp add: chunk_write_def)
    moreover have "new_chunk alloc ralloc mp (?n + 8) = (if ?c < 2 ^ 31 then Some (?mp1, ?c) else None)"
      using c by (simp add: new_chunk_def)
    ultimately show ?thesis using sz(2) z by (simp add: mpool_malloc_def Let_def)
  qed
qed

subsection \<open>Allocation and reallocation\<close>

text \<open>
  C12: \<^verbatim>\<open>mpool_malloc\<close> returns a block of at least the size asked for, aligned to eight bytes, inside a
  chunk and apart from every block in use, headers included; the bytes of those blocks do not
  change. This holds for requests below \<^verbatim>\<open>2^62\<close> bytes, in every pool that was not reset, and after a
  reset for requests that fit in a chunk.
\<close>

theorem mpool_malloc_fresh:
  assumes "pool_rep mp bs" "total_allocator alloc" "total_allocator ralloc" "sz < 2 ^ 62"
    "Suc (Suc (current_chunk mp)) < 2 ^ 31" "arenasz mp * 4 < 2 ^ 64"
    "round8 sz + 8 \<le> chunksz mp \<or> last_chunk mp \<le> current_chunk mp"
  shows "\<exists>mp' c off n. mpool_malloc alloc ralloc mp sz = Some (mp', c, off) \<and> sz \<le> n \<and> n < sz + 8 \<and>
           pool_rep mp' ((c, off, n) # bs) \<and> contents mp' (c, off, n) = Some (replicate n 0xa5) \<and>
           (\<forall>b \<in> set bs. contents mp' b = contents mp b)"
  using mpool_malloc_rep [OF assms] round8 [of sz] assms(4) by fastforce

text \<open>
  C13: \<^verbatim>\<open>mpool_realloc\<close> of a block in use keeps its bytes up to the smaller of the two sizes, whether
  it stays or moves; the result has room for the size asked for and is apart from the other
  blocks, whose bytes do not change. This holds for sizes below \<^verbatim>\<open>2^62\<close>, in every pool that was not reset,
  and after a reset for sizes that fit in a chunk (a larger one may run over the end of an old chunk).
\<close>

theorem mpool_realloc_keeps:
  assumes rep: "pool_rep mp ((c, off, n) # bs)" and al: "total_allocator alloc" "total_allocator ralloc"
    and sz: "sz < 2 ^ 62" and b: "Suc (Suc (current_chunk mp)) < 2 ^ 31" "arenasz mp * 4 < 2 ^ 64"
    and big: "round8 sz + 8 \<le> chunksz mp \<or> last_chunk mp \<le> current_chunk mp"
    and old: "contents mp (c, off, n) = Some bytes"
  shows "\<exists>mp' c' off' n' bytes'. mpool_realloc alloc ralloc mp (Some (c, off)) sz = Some (mp', c', off') \<and>
           sz \<le> n' \<and> pool_rep mp' ((c', off', n') # bs) \<and> contents mp' (c', off', n') = Some bytes' \<and>
           take (min n sz) bytes' = take (min n sz) bytes \<and> (\<forall>x \<in> set bs. contents mp' x = contents mp x)"
proof -
  have o8: "8 \<le> off" using pool_repD(2) [OF rep] by (simp add: block_ok_def)
  have isz: "item_sz mp c (off - 8) = Some n" by (rule block_size [OF pool_repD(2) [OF rep]])
  show ?thesis
  proof (cases "n < sz")
    case True
    obtain mp1 c' off' where m: "mpool_malloc alloc ralloc mp sz = Some (mp1, c', off')"
        "pool_rep mp1 ((c', off', round8 sz) # (c, off, n) # bs)"
        "\<forall>x \<in> set ((c, off, n) # bs). contents mp1 x = contents mp x"
      using mpool_malloc_rep [OF rep al sz b big] by blast
    have r: "sz \<le> round8 sz" using round8 [of sz] sz by simp
    have rd: "chunk_read mp1 c off n = Some bytes" using m(3) old by (simp add: contents_def)
    then have len: "length bytes = n" by (auto simp: chunk_read_def split: bind_splits)
    obtain mp2 ch where w: "chunk_write mp1 c' off' bytes = Some mp2"
        "pool_rep mp2 ((c', off', round8 sz) # (c, off, n) # bs)" "off' + round8 sz \<le> length ch"
        "chunk_of mp2 c' = Some (put_bytes ch off' bytes)"
        "\<forall>x \<in> set ((c, off, n) # bs). contents mp2 x = contents mp1 x"
      using pool_write [OF m(2) le_refl, of bytes] len True r by auto
    have rep2: "pool_rep mp2 ((c', off', round8 sz) # bs)" using w(2) by (simp add: pool_rep_def)
    have "contents mp2 (c', off', round8 sz) = Some (take (round8 sz) (drop off' (put_bytes ch off' bytes)))"
      using w(3,4) len True r by (simp add: contents_def chunk_read_def)
    moreover have "take n (take (round8 sz) (drop off' (put_bytes ch off' bytes))) = bytes"
      using put_bytes_take_drop [of off' bytes ch] w(3) len True r by (simp add: min_absorb1)
    moreover have "mpool_realloc alloc ralloc mp (Some (c, off)) sz = Some (mp2, c', off')"
      using o8 isz True m(1) rd w(1) by (simp add: mpool_realloc_def)
    ultimately show ?thesis using True r rep2 len m(3) w(5)
      by (intro exI [of _ mp2] exI [of _ c'] exI [of _ off'] exI [of _ "round8 sz"]) simp
  next
    case False
    obtain mp1 ch where w: "chunk_write mp c (off + sz) (replicate (n - sz) 0xa5) = Some mp1"
        "pool_rep mp1 ((c, off, n) # bs)" "chunk_of mp c = Some ch" "off + n \<le> length ch"
        "chunk_of mp1 c = Some (put_bytes ch (off + sz) (replicate (n - sz) 0xa5))"
        "\<forall>x \<in> set bs. contents mp1 x = contents mp x"
      using pool_write [OF rep, of "off + sz" "replicate (n - sz) 0xa5"] False by auto
    let ?ch = "put_bytes ch (off + sz) (replicate (n - sz) 0xa5)"
    have "contents mp1 (c, off, n) = Some (take n (drop off ?ch))"
      using w(4,5) False by (simp add: contents_def chunk_read_def)
    moreover have "take sz (take n (drop off ?ch)) = take sz bytes"
    proof -
      have "bytes = take n (drop off ch)" using old w(3,4) by (simp add: contents_def chunk_read_def)
      moreover have "take sz (drop off ?ch) = take sz (drop off ch)"
        by (rule put_bytes_apart) (use w(4) False in simp_all)
      ultimately show ?thesis using False by (simp add: min_absorb1)
    qed
    moreover have "mpool_realloc alloc ralloc mp (Some (c, off)) sz = Some (mp1, c, off)"
      using o8 isz False w(1) by (simp add: mpool_realloc_def)
    ultimately show ?thesis using False w(2,6)
      by (intro exI [of _ mp1] exI [of _ c] exI [of _ off] exI [of _ n]) (simp add: min_absorb2)
  qed
qed

text \<open>A pool with one chunk of 32 bytes, in which a block of 8 bytes is in use.\<close>

definition demo_pool :: mpool where
  "demo_pool = \<lparr>arenasz = 8, chunksz = 32, current_chunk = 0, last_chunk = 0, current_pos = 16,
     arena = Some [Some ([8, 0, 0, 0, 0, 0, 0, 0] @ [1, 2, 3, 4, 5, 6, 7, 8] @ replicate 16 0)]\<rparr>"

lemma demo_pool_rep: "pool_rep demo_pool [(0, 8, 8)]"
  by (simp add: pool_rep_def mpool_wf_def demo_pool_def chunk_of_def block_ok_def)

lemma demo_pool_contents: "contents demo_pool (0, 8, 8) = Some [1, 2, 3, 4, 5, 6, 7, 8]"
  by (simp add: contents_def chunk_read_def demo_pool_def chunk_of_def)

theorem mpool_malloc_fresh_witness:
  "\<exists>mp' c off n. mpool_malloc (std_alloc (\<lambda>_. 0)) (std_alloc (\<lambda>_. None)) demo_pool 100 = Some (mp', c, off) \<and>
     100 \<le> n \<and> n < 100 + 8 \<and> pool_rep mp' ((c, off, n) # [(0, 8, 8)]) \<and>
     contents mp' (c, off, n) = Some (replicate n 0xa5) \<and>
     (\<forall>b \<in> set [(0, 8, 8)]. contents mp' b = contents demo_pool b)"
  by (rule mpool_malloc_fresh [OF demo_pool_rep std_total.total_allocator_axioms std_total.total_allocator_axioms])
     (simp_all add: demo_pool_def)

theorem mpool_realloc_keeps_witness:
  "\<exists>mp' c' off' n' bytes'.
     mpool_realloc (std_alloc (\<lambda>_. 0)) (std_alloc (\<lambda>_. None)) demo_pool (Some (0, 8)) 20 = Some (mp', c', off') \<and>
     20 \<le> n' \<and> pool_rep mp' ((c', off', n') # []) \<and> contents mp' (c', off', n') = Some bytes' \<and>
     take (min 8 20) bytes' = take (min 8 20) [1, 2, 3, 4, 5, 6, 7, 8] \<and>
     (\<forall>x \<in> set []. contents mp' x = contents demo_pool x)"
  by (rule mpool_realloc_keeps [OF demo_pool_rep std_total.total_allocator_axioms std_total.total_allocator_axioms
        _ _ _ _ demo_pool_contents])
     (simp_all add: demo_pool_def)

end
