(* ===== verification/Mn_Btrie.thy ===== *)
theory Mn_Btrie
  imports Prelude_C Queue_Spec
begin

text \<open>
  \<^verbatim>\<open>src/src/btrie.c\<close>: the binary trie over \<^verbatim>\<open>uintmax_t\<close> keys. A key with its highest bit at position
  \<open>i\<close> belongs to the root \<open>i\<close>; the bits below it, from the highest to the lowest, are the path.
  The nodes live in a store (a map from addresses); the 64 roots are part of the trie's structure
  and have the addresses \<open>root_at\<close>. \<^verbatim>\<open>free\<close> removes an address from the store (the pool's free
  overwrites the block), so that a later use of it is a fault. The source has pairs of
  functions that are mirror images of each other, for the two directions; the model has one
  function with the side as a parameter.
\<close>

unbundle bit_operations_syntax

subsection \<open>State\<close>

record 'v btnode =
  bparent :: "addr option"
  bchild :: "bool \<Rightarrow> addr option"
  bvalue :: "'v option"
  bdigit :: "16 word"
  bidx :: nat

record btrie =
  tbase :: addr
  volume :: nat
  nvals :: nat

type_synonym 'v btstore = "'v btnode mem"
type_synonym 'v btmalloc = "'v btstore \<Rightarrow> addr option"

definition TREE_DEPTH :: nat where
  "TREE_DEPTH = 64"

definition root_at :: "btrie \<Rightarrow> nat \<Rightarrow> addr" where
  "root_at tr i = tbase tr + 40 * i"

definition upd_node :: "'v btstore \<Rightarrow> addr \<Rightarrow> ('v btnode \<Rightarrow> 'v btnode) \<Rightarrow> 'v btstore option" where
  "upd_node m a f = map_option (\<lambda>n. m(a \<mapsto> f n)) (m a)"

definition free_node :: "'v btstore \<Rightarrow> addr \<Rightarrow> 'v btstore option" where
  "free_node m a = map_option (\<lambda>_. m(a := None)) (m a)"

definition dec_volume :: "btrie \<Rightarrow> btrie" where
  "dec_volume tr = tr\<lparr>volume := SZ (volume tr + (2 ^ 64 - 1))\<rparr>"

text \<open>The position of the highest bit, counted from one; zero for zero.\<close>

fun fls_nat :: "nat \<Rightarrow> nat" where
  "fls_nat n = (if n = 0 then 0 else Suc (fls_nat (n div 2)))"

declare fls_nat.simps [simp del]

definition flsl :: "u64 \<Rightarrow> nat" where
  "flsl key = fls_nat (unat key)"

text \<open>A selector is a boolean; \<open>digit | (sel << CHILD_SELECTOR_SHIFT)\<close> and its inverse.\<close>

definition digit_of :: "nat \<Rightarrow> bool \<Rightarrow> 16 word" where
  "digit_of digit sel = word_of_nat digit OR push_bit 15 (of_bool sel)"

definition MNBTRIE_NODESEL0 :: "'v btnode \<Rightarrow> bool" where
  "MNBTRIE_NODESEL0 n \<longleftrightarrow> drop_bit 15 (bdigit n) \<noteq> 0"

definition MNBTRIE_CHILDSEL :: "'v btnode \<Rightarrow> u64 \<Rightarrow> bool" where
  "MNBTRIE_CHILDSEL n key \<longleftrightarrow> bit key (bidx n - 1)"

definition btrie_node_init :: "addr option \<Rightarrow> nat \<Rightarrow> 16 word \<Rightarrow> 'v option \<Rightarrow> 'v btnode" where
  "btrie_node_init parent idx digit value =
     \<lparr>bparent = parent, bchild = (\<lambda>_. None), bvalue = value, bdigit = digit, bidx = idx\<rparr>"

definition btrie_init :: "addr \<Rightarrow> 'v btstore \<Rightarrow> btrie \<times> 'v btstore" where
  "btrie_init base m =
     (let tr = \<lparr>tbase = base, volume = 0, nvals = 0\<rparr>
      in (tr, fold (\<lambda>i m. m(root_at tr i \<mapsto> btrie_node_init None i 0 None)) [0..<TREE_DEPTH] m))"

subsection \<open>Destruction and cleaning\<close>

partial_function (option) BTRIE_NODE_FINI_BODY ::
  "btrie \<Rightarrow> 'v btstore \<Rightarrow> addr \<Rightarrow> (btrie \<times> 'v btstore) option" where
  "BTRIE_NODE_FINI_BODY tr m a =
     do { n \<leftarrow> m a;
          (tr1, m1) \<leftarrow>
            (case bchild n False of
               None \<Rightarrow> Some (tr, m)
             | Some c \<Rightarrow>
                 do { (tr1, m1) \<leftarrow> BTRIE_NODE_FINI_BODY tr m c;
                      m2 \<leftarrow> free_node m1 c;
                      m3 \<leftarrow> upd_node m2 a (\<lambda>n. n\<lparr>bchild := (bchild n)(False := None)\<rparr>);
                      Some (dec_volume tr1, m3) });
          n1 \<leftarrow> m1 a;
          (tr2, m2) \<leftarrow>
            (case bchild n1 True of
               None \<Rightarrow> Some (tr1, m1)
             | Some c \<Rightarrow>
                 do { (tr2, m2) \<leftarrow> BTRIE_NODE_FINI_BODY tr1 m1 c;
                      m3 \<leftarrow> free_node m2 c;
                      m4 \<leftarrow> upd_node m3 a (\<lambda>n. n\<lparr>bchild := (bchild n)(True := None)\<rparr>);
                      Some (dec_volume tr2, m4) });
          m3 \<leftarrow> upd_node m2 a (\<lambda>n. n\<lparr>bparent := None\<rparr>);
          Some (tr2, m3) }"

definition btrie_node_fini :: "btrie \<Rightarrow> 'v btstore \<Rightarrow> addr \<Rightarrow> (btrie \<times> 'v btstore) option" where
  "btrie_node_fini tr m n = BTRIE_NODE_FINI_BODY tr m n"

definition btrie_node_fini_mpool :: "btrie \<Rightarrow> 'v btstore \<Rightarrow> addr \<Rightarrow> (btrie \<times> 'v btstore) option" where
  "btrie_node_fini_mpool tr m n = BTRIE_NODE_FINI_BODY tr m n"

text \<open>The loop over the roots, shared by the operations on the whole trie.\<close>

fun each_root ::
  "(btrie \<Rightarrow> 'v btstore \<Rightarrow> addr \<Rightarrow> (btrie \<times> 'v btstore) option) \<Rightarrow> nat list \<Rightarrow> btrie \<Rightarrow> 'v btstore
     \<Rightarrow> (btrie \<times> 'v btstore) option" where
  "each_root f [] tr m = Some (tr, m)"
| "each_root f (i # is) tr m = do { (tr1, m1) \<leftarrow> f tr m (root_at tr i); each_root f is tr1 m1 }"

definition btrie_fini :: "btrie \<Rightarrow> 'v btstore \<Rightarrow> (btrie \<times> 'v btstore) option" where
  "btrie_fini tr m = each_root btrie_node_fini [0..<TREE_DEPTH] tr m"

definition btrie_fini_mpool :: "btrie \<Rightarrow> 'v btstore \<Rightarrow> (btrie \<times> 'v btstore) option" where
  "btrie_fini_mpool tr m = each_root btrie_node_fini_mpool [0..<TREE_DEPTH] tr m"

definition btrie_node_is_orphan :: "'v btnode \<Rightarrow> bool" where
  "btrie_node_is_orphan n \<longleftrightarrow> bchild n False = None \<and> bchild n True = None \<and> bvalue n = None"

definition drop_child :: "btrie \<Rightarrow> 'v btstore \<Rightarrow> addr \<Rightarrow> bool \<Rightarrow> addr \<Rightarrow> (btrie \<times> 'v btstore) option" where
  "drop_child tr m a s c =
     do { m1 \<leftarrow> free_node m c;
          m2 \<leftarrow> upd_node m1 a (\<lambda>n. n\<lparr>bchild := (bchild n)(s := None)\<rparr>);
          Some (dec_volume tr, m2) }"

partial_function (option) BTRIE_NODE_CLEANUP_BODY ::
  "btrie \<Rightarrow> 'v btstore \<Rightarrow> addr \<Rightarrow> (btrie \<times> 'v btstore) option" where
  "BTRIE_NODE_CLEANUP_BODY tr m a =
     do { n \<leftarrow> m a;
          if btrie_node_is_orphan n then Some (tr, m)
          else
            do { (tr1, m1) \<leftarrow>
                   (case bchild n False of
                      None \<Rightarrow> Some (tr, m)
                    | Some c \<Rightarrow>
                        do { x \<leftarrow> m c;
                             if \<not> btrie_node_is_orphan x then
                               do { (tr1, m1) \<leftarrow> BTRIE_NODE_CLEANUP_BODY tr m c;
                                    y \<leftarrow> m1 c;
                                    if btrie_node_is_orphan y then drop_child tr1 m1 a False c else Some (tr1, m1) }
                             else drop_child tr m a False c });
                 n1 \<leftarrow> m1 a;
                 case bchild n1 True of
                   None \<Rightarrow> Some (tr1, m1)
                 | Some c \<Rightarrow>
                     do { x \<leftarrow> m1 c;
                          if \<not> btrie_node_is_orphan x then
                            do { (tr2, m2) \<leftarrow> BTRIE_NODE_CLEANUP_BODY tr1 m1 c;
                                 y \<leftarrow> m2 c;
                                 if btrie_node_is_orphan y then drop_child tr2 m2 a True c else Some (tr2, m2) }
                          else drop_child tr1 m1 a True c } } }"

definition btrie_node_cleanup :: "btrie \<Rightarrow> 'v btstore \<Rightarrow> addr \<Rightarrow> (btrie \<times> 'v btstore) option" where
  "btrie_node_cleanup tr m n = BTRIE_NODE_CLEANUP_BODY tr m n"

definition btrie_node_cleanup_mpool :: "btrie \<Rightarrow> 'v btstore \<Rightarrow> addr \<Rightarrow> (btrie \<times> 'v btstore) option" where
  "btrie_node_cleanup_mpool tr m n = BTRIE_NODE_CLEANUP_BODY tr m n"

definition btrie_cleanup :: "btrie \<Rightarrow> 'v btstore \<Rightarrow> (btrie \<times> 'v btstore) option" where
  "btrie_cleanup tr m = each_root btrie_node_cleanup [0..<TREE_DEPTH] tr m"

definition btrie_cleanup_mpool :: "btrie \<Rightarrow> 'v btstore \<Rightarrow> (btrie \<times> 'v btstore) option" where
  "btrie_cleanup_mpool tr m = each_root btrie_node_cleanup_mpool [0..<TREE_DEPTH] tr m"

subsection \<open>Traversal\<close>

text \<open>The callback gets a node or NULL, the store and the client's data.\<close>

type_synonym ('v, 'u) btcb = "addr option \<Rightarrow> 'v btstore \<Rightarrow> 'u \<Rightarrow> (int \<times> 'v btstore \<times> 'u) option"

partial_function (option) btrie_node_traverse ::
  "('v, 'u) btcb \<Rightarrow> addr \<Rightarrow> 'v btstore \<Rightarrow> 'u \<Rightarrow> (int \<times> 'v btstore \<times> 'u) option" where
  "btrie_node_traverse cb a m u =
     do { (r, m1, u1) \<leftarrow> cb (Some a) m u;
          if r \<noteq> 0 then Some (r, m1, u1)
          else
            do { n \<leftarrow> m1 a;
                 (r, m2, u2) \<leftarrow>
                   (case bchild n False of
                      Some c \<Rightarrow> btrie_node_traverse cb c m1 u1
                    | None \<Rightarrow> cb None m1 u1);
                 if r \<noteq> 0 then Some (r, m2, u2)
                 else
                   do { n \<leftarrow> m2 a;
                        case bchild n True of
                          Some c \<Rightarrow> btrie_node_traverse cb c m2 u2
                        | None \<Rightarrow> cb None m2 u2 } } }"

fun traverse_roots ::
  "('v, 'u) btcb \<Rightarrow> nat list \<Rightarrow> btrie \<Rightarrow> 'v btstore \<Rightarrow> 'u \<Rightarrow> (int \<times> 'v btstore \<times> 'u) option" where
  "traverse_roots cb [] tr m u = Some (0, m, u)"
| "traverse_roots cb (i # is) tr m u =
     do { (r, m1, u1) \<leftarrow> btrie_node_traverse cb (root_at tr i) m u;
          if r \<noteq> 0 then Some (r, m1, u1) else traverse_roots cb is tr m1 u1 }"

definition btrie_traverse ::
  "btrie \<Rightarrow> ('v, 'u) btcb \<Rightarrow> 'v btstore \<Rightarrow> 'u \<Rightarrow> (int \<times> 'v btstore \<times> 'u) option" where
  "btrie_traverse tr cb m u = traverse_roots cb [0..<TREE_DEPTH] tr m u"

subsection \<open>Adding and finding\<close>

text \<open>The loop over the bits below the highest: \<open>k\<close> of them are left, so \<^verbatim>\<open>idx\<close> is \<open>k - 1\<close>.\<close>

fun add_loop ::
  "'v btmalloc \<Rightarrow> u64 \<Rightarrow> nat \<Rightarrow> nat \<Rightarrow> addr \<Rightarrow> btrie \<Rightarrow> 'v btstore \<Rightarrow> (addr \<times> btrie \<times> 'v btstore) option" where
  "add_loop malloc key 0 digit cur tr m = Some (cur, tr, m)"
| "add_loop malloc key (Suc idx) digit cur tr m =
     do { let sel = bit key idx;
          n \<leftarrow> m cur;
          case bchild n sel of
            Some c \<Rightarrow> add_loop malloc key idx (digit + 1) c tr m
          | None \<Rightarrow>
              do { c \<leftarrow> malloc m;
                   m1 \<leftarrow> upd_node m cur (\<lambda>n. n\<lparr>bchild := (bchild n)(sel := Some c)\<rparr>);
                   let m2 = m1(c \<mapsto> btrie_node_init (Some cur) idx (digit_of digit sel) None);
                   add_loop malloc key idx (digit + 1) c (tr\<lparr>volume := SZ (volume tr + 1)\<rparr>) m2 } }"

definition BTRIE_ADD_NODE_BODY ::
  "'v btmalloc \<Rightarrow> btrie \<Rightarrow> 'v btstore \<Rightarrow> u64 \<Rightarrow> (addr option \<times> btrie \<times> 'v btstore) option" where
  "BTRIE_ADD_NODE_BODY malloc tr m key =
     (if flsl key = 0 then Some (None, tr, m)
      else
        do { (c, tr', m') \<leftarrow> add_loop malloc key (flsl key - 1) 1 (root_at tr (flsl key - 1)) tr m;
             Some (Some c, tr', m') })"

definition btrie_add_node where "btrie_add_node malloc tr m key = BTRIE_ADD_NODE_BODY malloc tr m key"

definition btrie_add_node_mpool where "btrie_add_node_mpool pool tr m key = BTRIE_ADD_NODE_BODY pool tr m key"

fun exact_loop :: "u64 \<Rightarrow> nat \<Rightarrow> addr option \<Rightarrow> 'v btstore \<Rightarrow> addr option option" where
  "exact_loop key 0 cur m = Some cur"
| "exact_loop key (Suc idx) cur m =
     (case cur of
        None \<Rightarrow> Some None
      | Some c \<Rightarrow> do { n \<leftarrow> m c; exact_loop key idx (bchild n (bit key idx)) m })"

definition btrie_find_exact :: "btrie \<Rightarrow> 'v btstore \<Rightarrow> u64 \<Rightarrow> addr option option" where
  "btrie_find_exact tr m key =
     (if flsl key = 0 then Some None
      else exact_loop key (flsl key - 1) (Some (root_at tr (flsl key - 1))) m)"

text \<open>
  \<^verbatim>\<open>find_value_reverse\<close> looks at the child 1 first (\<open>s\<close> is true), \<^verbatim>\<open>find_value_traverse\<close> at the
  child 0.
\<close>

partial_function (option) find_value :: "bool \<Rightarrow> 'v btstore \<Rightarrow> addr \<Rightarrow> addr option option" where
  "find_value s m a =
     do { n \<leftarrow> m a;
          if bvalue n \<noteq> None then Some (Some a)
          else
            do { r \<leftarrow>
                   (case bchild n s of
                      None \<Rightarrow> Some None
                    | Some c \<Rightarrow> do { x \<leftarrow> m c; if bvalue x \<noteq> None then Some (Some c) else find_value s m c });
                 case r of
                   Some c \<Rightarrow> Some (Some c)
                 | None \<Rightarrow>
                     (case bchild n (\<not> s) of
                        None \<Rightarrow> Some None
                      | Some c \<Rightarrow> do { x \<leftarrow> m c; if bvalue x \<noteq> None then Some (Some c) else find_value s m c }) } }"

definition find_value_reverse :: "'v btstore \<Rightarrow> addr \<Rightarrow> addr option option" where
  "find_value_reverse m node = find_value True m node"

definition find_value_traverse :: "'v btstore \<Rightarrow> addr \<Rightarrow> addr option option" where
  "find_value_traverse m node = find_value False m node"

text \<open>The inner loop: up while the node is the child \<open>d\<close> of its parent.\<close>

partial_function (option) climb :: "bool \<Rightarrow> 'v btstore \<Rightarrow> addr \<Rightarrow> bool \<Rightarrow> addr option" where
  "climb d m a mysel =
     do { n \<leftarrow> m a;
          case bparent n of
            None \<Rightarrow> Some a
          | Some p \<Rightarrow> if mysel = d then do { x \<leftarrow> m p; climb d m p (MNBTRIE_NODESEL0 x) } else Some a }"

text \<open>\<^verbatim>\<open>find_value_lean_right\<close> for \<open>d\<close> true, \<^verbatim>\<open>find_value_lean_left\<close> for \<open>d\<close> false.\<close>

partial_function (option) find_value_lean :: "bool \<Rightarrow> 'v btstore \<Rightarrow> addr option \<Rightarrow> addr option option" where
  "find_value_lean d m node =
     (case node of
        None \<Rightarrow> Some None
      | Some a \<Rightarrow>
          do { n \<leftarrow> m a;
               tmp \<leftarrow> (case bchild n d of None \<Rightarrow> Some None | Some c \<Rightarrow> find_value (\<not> d) m c);
               case tmp of
                 Some b \<Rightarrow> Some (Some b)
               | None \<Rightarrow>
                   (case bparent n of
                      None \<Rightarrow> Some None
                    | Some p \<Rightarrow>
                        if MNBTRIE_NODESEL0 n \<noteq> d then find_value_lean d m (Some p)
                        else do { b \<leftarrow> climb d m a d; x \<leftarrow> m b; find_value_lean d m (bparent x) }) })"

definition find_value_lean_left :: "'v btstore \<Rightarrow> addr option \<Rightarrow> addr option option" where
  "find_value_lean_left m node = find_value_lean False m node"

definition find_value_lean_right :: "'v btstore \<Rightarrow> addr option \<Rightarrow> addr option option" where
  "find_value_lean_right m node = find_value_lean True m node"

text \<open>The loop down the path, until a child is missing.\<close>

partial_function (option) partial_loop :: "bool \<Rightarrow> 'v btstore \<Rightarrow> u64 \<Rightarrow> addr \<Rightarrow> addr option option" where
  "partial_loop d m key a =
     do { n \<leftarrow> m a;
          if bidx n = 0 then Some (Some a)
          else (case bchild n (MNBTRIE_CHILDSEL n key) of
                  Some c \<Rightarrow> partial_loop d m key c
                | None \<Rightarrow> find_value_lean d m (Some a)) }"

definition find_closest_partial :: "bool \<Rightarrow> 'v btstore \<Rightarrow> addr \<Rightarrow> u64 \<Rightarrow> addr option option" where
  "find_closest_partial d m a key =
     do { n \<leftarrow> m a;
          if bidx n = 0 then Some (if bvalue n = None then None else Some a)
          else partial_loop d m key a }"

definition find_closest_partial_back :: "'v btstore \<Rightarrow> addr \<Rightarrow> u64 \<Rightarrow> addr option option" where
  "find_closest_partial_back m node key = find_closest_partial False m node key"

definition find_closest_partial_forw :: "'v btstore \<Rightarrow> addr \<Rightarrow> u64 \<Rightarrow> addr option option" where
  "find_closest_partial_forw m node key = find_closest_partial True m node key"

fun first_root :: "('v btstore \<Rightarrow> addr \<Rightarrow> addr option option) \<Rightarrow> btrie \<Rightarrow> 'v btstore \<Rightarrow> nat list \<Rightarrow> addr option option" where
  "first_root f tr m [] = Some None"
| "first_root f tr m (i # is) =
     do { r \<leftarrow> f m (root_at tr i); case r of Some a \<Rightarrow> Some (Some a) | None \<Rightarrow> first_root f tr m is }"

definition btrie_find_closest :: "btrie \<Rightarrow> 'v btstore \<Rightarrow> u64 \<Rightarrow> int \<Rightarrow> addr option option" where
  "btrie_find_closest tr m key direction =
     (if flsl key = 0 then Some None
      else
        let idx = flsl key - 1
        in if direction \<noteq> 0 then
             do { r \<leftarrow> find_closest_partial_forw m (root_at tr idx) key;
                  case r of
                    Some a \<Rightarrow> Some (Some a)
                  | None \<Rightarrow> first_root find_value_traverse tr m [idx + 1..<TREE_DEPTH] }
           else
             do { r \<leftarrow> find_closest_partial_back m (root_at tr idx) key;
                  case r of
                    Some a \<Rightarrow> Some (Some a)
                  | None \<Rightarrow> first_root find_value_reverse tr m (rev [0..<idx]) })"

subsection \<open>Removal\<close>

partial_function (option) CLEANUP_ORPHANS_BODY ::
  "btrie \<Rightarrow> 'v btstore \<Rightarrow> addr option \<Rightarrow> (btrie \<times> 'v btstore) option" where
  "CLEANUP_ORPHANS_BODY tr m node =
     (case node of
        None \<Rightarrow> Some (tr, m)
      | Some a \<Rightarrow>
          do { n \<leftarrow> m a;
               case bparent n of
                 None \<Rightarrow> Some (tr, m)
               | Some p \<Rightarrow>
                   if btrie_node_is_orphan n then
                     do { x \<leftarrow> m p;
                          m1 \<leftarrow>
                            (if bchild x False = Some a then upd_node m p (\<lambda>x. x\<lparr>bchild := (bchild x)(False := None)\<rparr>)
                             else do { _ \<leftarrow> guard (bchild x True = Some a);
                                       upd_node m p (\<lambda>x. x\<lparr>bchild := (bchild x)(True := None)\<rparr>) });
                          m2 \<leftarrow> free_node m1 a;
                          CLEANUP_ORPHANS_BODY (dec_volume tr) m2 (Some p) }
                   else Some (tr, m) })"

definition cleanup_orphans where "cleanup_orphans tr m n = CLEANUP_ORPHANS_BODY tr m n"

definition cleanup_orphans_mpool where "cleanup_orphans_mpool tr m n = CLEANUP_ORPHANS_BODY tr m n"

text \<open>The result holds the parent too, for the cleaning that may follow.\<close>

definition BTRIE_REMOVE_NODE_BODY ::
  "btrie \<Rightarrow> 'v btstore \<Rightarrow> addr \<Rightarrow> (addr option \<times> btrie \<times> 'v btstore) option" where
  "BTRIE_REMOVE_NODE_BODY tr m a =
     do { n \<leftarrow> m a;
          _ \<leftarrow> guard (bvalue n = None);
          case bparent n of
            None \<Rightarrow> do { (tr1, m1) \<leftarrow> btrie_node_fini tr m a; Some (None, tr1, m1) }
          | Some p \<Rightarrow>
              do { x \<leftarrow> m p;
                   m1 \<leftarrow>
                     (if bchild x False = Some a then upd_node m p (\<lambda>x. x\<lparr>bchild := (bchild x)(False := None)\<rparr>)
                      else if bchild x True = Some a then upd_node m p (\<lambda>x. x\<lparr>bchild := (bchild x)(True := None)\<rparr>)
                      else None);
                   (tr1, m2) \<leftarrow> btrie_node_fini tr m1 a;
                   m3 \<leftarrow> free_node m2 a;
                   Some (Some p, dec_volume tr1, m3) } }"

definition btrie_remove_node_no_cleanup :: "btrie \<Rightarrow> 'v btstore \<Rightarrow> addr \<Rightarrow> (btrie \<times> 'v btstore) option" where
  "btrie_remove_node_no_cleanup tr m n = do { (_, tr1, m1) \<leftarrow> BTRIE_REMOVE_NODE_BODY tr m n; Some (tr1, m1) }"

definition btrie_remove_node_no_cleanup_mpool :: "btrie \<Rightarrow> 'v btstore \<Rightarrow> addr \<Rightarrow> (btrie \<times> 'v btstore) option" where
  "btrie_remove_node_no_cleanup_mpool tr m n = do { (_, tr1, m1) \<leftarrow> BTRIE_REMOVE_NODE_BODY tr m n; Some (tr1, m1) }"

definition btrie_remove_node :: "btrie \<Rightarrow> 'v btstore \<Rightarrow> addr \<Rightarrow> (btrie \<times> 'v btstore) option" where
  "btrie_remove_node tr m n =
     do { (parent, tr1, m1) \<leftarrow> BTRIE_REMOVE_NODE_BODY tr m n; cleanup_orphans tr1 m1 parent }"

definition btrie_remove_node_mpool :: "btrie \<Rightarrow> 'v btstore \<Rightarrow> addr \<Rightarrow> (btrie \<times> 'v btstore) option" where
  "btrie_remove_node_mpool tr m n =
     do { (parent, tr1, m1) \<leftarrow> BTRIE_REMOVE_NODE_BODY tr m n; cleanup_orphans_mpool tr1 m1 parent }"

definition btrie_get_volume :: "btrie \<Rightarrow> nat" where
  "btrie_get_volume tr = volume tr"

definition btrie_get_nvals :: "btrie \<Rightarrow> nat" where
  "btrie_get_nvals tr = nvals tr"

end
