(* ===== verification/Btrie_Refine.thy ===== *)
theory Btrie_Refine
  imports Mn_Btrie "HOL-Library.Sublist"
begin

text \<open>
  The tries as trees. \<open>bt_at\<close> relates a tree to the nodes of the store, with their parents,
  positions and selectors; \<open>look\<close> is the node at a path.
\<close>

subsection \<open>Trees in the store\<close>

datatype 'v bt = BLeaf | BNode addr "'v option" "'v bt" "'v bt"

fun sub_bt :: "'v bt \<Rightarrow> bool \<Rightarrow> 'v bt" where
  "sub_bt BLeaf s = BLeaf"
| "sub_bt (BNode a v l r) s = (if s then r else l)"

fun put_bt :: "'v bt \<Rightarrow> bool \<Rightarrow> 'v bt \<Rightarrow> 'v bt" where
  "put_bt BLeaf s t = BLeaf"
| "put_bt (BNode a v l r) s t = (if s then BNode a v l t else BNode a v t r)"

fun baddrs :: "'v bt \<Rightarrow> addr list" where
  "baddrs BLeaf = []"
| "baddrs (BNode a v l r) = a # baddrs l @ baddrs r"

fun root_bt :: "'v bt \<Rightarrow> addr option" where
  "root_bt BLeaf = None"
| "root_bt (BNode a v l r) = Some a"

fun at_bt :: "'v bt \<Rightarrow> bool list \<Rightarrow> 'v bt" where
  "at_bt t [] = t"
| "at_bt t (b # bs) = at_bt (sub_bt t b) bs"

definition look :: "'v bt \<Rightarrow> bool list \<Rightarrow> (addr \<times> 'v option) option" where
  "look t p = (case at_bt t p of BLeaf \<Rightarrow> None | BNode a v l r \<Rightarrow> Some (a, v))"

fun bt_at :: "'v btstore \<Rightarrow> addr option \<Rightarrow> addr option \<Rightarrow> nat \<Rightarrow> bool \<Rightarrow> 'v bt \<Rightarrow> bool" where
  "bt_at m q par i s BLeaf \<longleftrightarrow> q = None"
| "bt_at m q par i s (BNode a v l r) \<longleftrightarrow>
     q = Some a \<and> (i = 0 \<longrightarrow> l = BLeaf \<and> r = BLeaf) \<and>
     (\<exists>n. m a = Some n \<and> bparent n = par \<and> bvalue n = v \<and> bidx n = i \<and> MNBTRIE_NODESEL0 n = s \<and>
        bt_at m (bchild n False) (Some a) (i - 1) False l \<and> bt_at m (bchild n True) (Some a) (i - 1) True r)"

lemma at_BLeaf [simp]: "at_bt BLeaf p = BLeaf"
  by (induction p) auto

lemma at_append: "at_bt t (p @ q) = at_bt (at_bt t p) q"
  by (induction t p rule: at_bt.induct) auto

lemma look_Nil [simp]: "look BLeaf p = None" "look (BNode a v l r) [] = Some (a, v)"
  by (simp_all add: look_def)

lemma look_Cons [simp]: "look (BNode a v l r) (b # p) = look (if b then r else l) p"
  by (simp add: look_def)

lemma bt_at_root: "bt_at m q par i s t \<Longrightarrow> q = root_bt t"
  by (cases t) auto

lemma bt_at_cong: "(\<And>a. a \<in> set (baddrs t) \<Longrightarrow> m' a = m a) \<Longrightarrow> bt_at m' q par i s t \<longleftrightarrow> bt_at m q par i s t"
  by (induction t arbitrary: q par i s) auto

lemma bt_at_upd [simp]: "a \<notin> set (baddrs t) \<Longrightarrow> bt_at (m(a := x)) q par i s t \<longleftrightarrow> bt_at m q par i s t"
  by (rule bt_at_cong) auto

lemma bt_at_alloc: "bt_at m q par i s t \<Longrightarrow> a \<in> set (baddrs t) \<Longrightarrow> m a \<noteq> None"
  by (induction t arbitrary: q par i s) auto

lemma bt_at_sub:
  assumes "bt_at m q par i s (BNode a v l r)"
  shows "\<exists>n. m a = Some n \<and> q = Some a \<and> bparent n = par \<and> bvalue n = v \<and> bidx n = i \<and> MNBTRIE_NODESEL0 n = s \<and>
           (\<forall>b. bt_at m (bchild n b) (Some a) (i - 1) b (sub_bt (BNode a v l r) b) \<and>
              bchild n b = root_bt (sub_bt (BNode a v l r) b))"
  using assms bt_at_root by fastforce

lemma sub_addrs: "set (baddrs (sub_bt t b)) \<subseteq> set (baddrs t)"
  by (cases t) auto

lemma distinct_sub: "distinct (baddrs t) \<Longrightarrow> distinct (baddrs (sub_bt t b))"
  by (cases t) auto

subsection \<open>The path of a key\<close>

definition bt_path :: "u64 \<Rightarrow> nat \<Rightarrow> bool list" where
  "bt_path key n = map (bit key) (rev [0..<n])"

lemma bt_path_simps [simp]:
  "bt_path key 0 = []" "bt_path key (Suc n) = bit key n # bt_path key n" "length (bt_path key n) = n"
  by (simp_all add: bt_path_def)

lemma exact_loop_path:
  "bt_at m q par n s t \<Longrightarrow> exact_loop key n q m = Some (root_bt (at_bt t (bt_path key n)))"
proof (induction n arbitrary: q par s t)
  case 0
  then show ?case using bt_at_root by auto
next
  case (Suc n)
  show ?case
  proof (cases t)
    case BLeaf
    with Suc.prems show ?thesis by simp
  next
    case (BNode a v l r)
    obtain nd where n: "m a = Some nd" "q = Some a"
        "bt_at m (bchild nd (bit key n)) (Some a) n (bit key n) (sub_bt (BNode a v l r) (bit key n))"
      using bt_at_sub [OF Suc.prems [unfolded BNode]] by auto
    then show ?thesis using Suc.IH [OF n(3)] BNode by simp
  qed
qed

lemma root_look: "root_bt (at_bt t p) = map_option fst (look t p)"
  by (cases "at_bt t p") (auto simp: look_def)

text \<open>The highest bit.\<close>

lemma fls_nat_bounds: "0 < n \<Longrightarrow> 0 < fls_nat n \<and> 2 ^ (fls_nat n - 1) \<le> n \<and> n < 2 ^ fls_nat n"
proof (induction n rule: fls_nat.induct)
  case (1 n)
  show ?case
  proof (cases "n div 2 = 0")
    case True
    then have "n = 1" using 1(2) by linarith
    then show ?thesis by (simp add: fls_nat.simps)
  next
    case False
    with 1 have IH: "0 < fls_nat (n div 2)" "2 ^ (fls_nat (n div 2) - 1) \<le> n div 2" "n div 2 < 2 ^ fls_nat (n div 2)" by auto
    obtain k where k: "fls_nat (n div 2) = Suc k" using IH(1) by (cases "fls_nat (n div 2)") auto
    have f: "fls_nat n = Suc (Suc k)" using 1(2) k by (subst fls_nat.simps) simp
    have "n = 2 * (n div 2) + n mod 2" "n mod 2 < 2" by simp_all
    then have "2 * 2 ^ k \<le> n" "n < 2 * (2 * 2 ^ k)" using IH(2,3) unfolding k power_Suc diff_Suc_1 by linarith+
    then show ?thesis unfolding f by simp
  qed
qed

lemma fls_nat_zero [simp]: "fls_nat 0 = 0"
  by (simp add: fls_nat.simps)

lemma fls_nat_unique: "2 ^ k \<le> n \<Longrightarrow> n < 2 ^ Suc k \<Longrightarrow> fls_nat n = Suc k"
proof -
  assume a: "2 ^ k \<le> n" "n < 2 ^ Suc k"
  have "(0::nat) < 2 ^ k" by simp
  with a(1) have p: "0 < n" by linarith
  note b = fls_nat_bounds [OF p]
  have "2 ^ k < (2::nat) ^ fls_nat n" using a(1) b by linarith
  then have "k < fls_nat n" by simp
  moreover have "(2::nat) ^ (fls_nat n - 1) < 2 ^ Suc k" using a(2) b by linarith
  then have "fls_nat n - 1 < Suc k" by (simp only: power_strict_increasing_iff)
  ultimately show ?thesis by simp
qed

lemma flsl_bounds: "key \<noteq> 0 \<Longrightarrow> 0 < flsl key \<and> flsl key \<le> 64 \<and> 2 ^ (flsl key - 1) \<le> unat key \<and> unat key < 2 ^ flsl key"
proof -
  assume "key \<noteq> 0"
  then have p: "0 < unat key" by (simp add: unat_gt_0)
  have b: "0 < flsl key" "2 ^ (flsl key - 1) \<le> unat key" "unat key < 2 ^ flsl key"
    using fls_nat_bounds [OF p] by (simp_all add: flsl_def)
  have "unat key < 2 ^ 64" using unsigned_less [of key] by simp
  then have "(2::nat) ^ (flsl key - 1) < 2 ^ 64" using b(2) by linarith
  then have "flsl key - 1 < 64" by (simp only: power_strict_increasing_iff)
  with b show ?thesis by simp
qed

lemma flsl_zero [simp]: "flsl key = 0 \<longleftrightarrow> key = 0"
proof
  show "key = 0" if "flsl key = 0" using flsl_bounds [of key] that by auto
qed (simp add: flsl_def)

subsection \<open>Adding a path\<close>

text \<open>
  The allocator hands out an address that is not in use, as long as finitely many are.
\<close>

definition fresh_malloc :: "'v btmalloc \<Rightarrow> bool" where
  "fresh_malloc malloc \<longleftrightarrow> (\<forall>m. finite (dom m) \<longrightarrow> (\<exists>c. malloc m = Some c \<and> m c = None))"

text \<open>What adding a path does to a tree: nothing goes, and only nodes on the path come.\<close>

definition grown :: "'v bt \<Rightarrow> 'v bt \<Rightarrow> bool list \<Rightarrow> bool" where
  "grown t t' p \<longleftrightarrow>
     (\<forall>q. look t q \<noteq> None \<longrightarrow> look t' q = look t q) \<and>
     (\<forall>q. look t q = None \<longrightarrow> prefix q p \<longrightarrow> map_option snd (look t' q) = Some None) \<and>
     (\<forall>q. look t q = None \<longrightarrow> \<not> prefix q p \<longrightarrow> look t' q = None)"

lemma digit_of_sel:
  assumes "digit < 2 ^ 15"
  shows "drop_bit 15 (digit_of digit sel) \<noteq> 0 \<longleftrightarrow> sel"
proof -
  have d: "drop_bit 15 (word_of_nat digit :: 16 word) = 0"
  proof -
    have "unat (word_of_nat digit :: 16 word) = digit" using assms by (simp add: unat_of_nat)
    then have "unat (drop_bit 15 (word_of_nat digit :: 16 word)) = 0"
      using assms by (simp only: unat_drop_bit_eq) (simp add: drop_bit_eq_div)
    then show ?thesis by (simp add: unat_eq_zero)
  qed
  have "drop_bit 15 (digit_of digit sel) = drop_bit 15 (push_bit 15 (of_bool sel :: 16 word))"
    unfolding digit_of_def drop_bit_or d by simp
  also have "\<dots> = of_bool sel" by (cases sel) (simp_all add: push_bit_of_1)
  finally show ?thesis by simp
qed

lemma sel_init [simp]:
  "digit < 32768 \<Longrightarrow> MNBTRIE_NODESEL0 (btrie_node_init par i (digit_of digit sel) v) \<longleftrightarrow> sel"
  using digit_of_sel [of digit sel] by (simp add: MNBTRIE_NODESEL0_def btrie_node_init_def)

lemma grown_step:
  assumes g: "grown (sub_bt (BNode a v l r) b) t' p"
  shows "grown (BNode a v l r) (put_bt (BNode a v l r) b t') (b # p)"
  unfolding grown_def
proof (intro conjI allI impI)
  fix q
  show "look (put_bt (BNode a v l r) b t') q = look (BNode a v l r) q" if "look (BNode a v l r) q \<noteq> None"
    using that g by (cases q) (auto simp: grown_def split: if_splits)
  show "map_option snd (look (put_bt (BNode a v l r) b t') q) = Some None"
    if "look (BNode a v l r) q = None" "prefix q (b # p)"
    using that g by (cases q) (auto simp: grown_def split: if_splits)
  show "look (put_bt (BNode a v l r) b t') q = None" if "look (BNode a v l r) q = None" "\<not> prefix q (b # p)"
    using that g by (cases q) (auto simp: grown_def split: if_splits)
qed

lemma grown_new:
  assumes g: "grown (BNode c None BLeaf BLeaf) t' p"
  shows "grown BLeaf t' p"
  unfolding grown_def
proof (intro conjI allI impI)
  fix q
  show "look t' q = look BLeaf q" if "look BLeaf q \<noteq> None" using that by simp
  have n: "look (BNode c None BLeaf BLeaf) q = (if q = [] then Some (c, None) else None)" for q :: "bool list"
    by (cases q) auto
  show "map_option snd (look t' q) = Some None" if "prefix q p" for q
  proof (cases "q = []")
    case True
    then have "look t' q = Some (c, None)" using g n unfolding grown_def by (metis option.distinct(1))
    then show ?thesis by simp
  next
    case False
    then have "look (BNode c None BLeaf BLeaf) q = None" by (simp add: n)
    then show ?thesis using g that unfolding grown_def by blast
  qed
  show "look t' q = None" if "\<not> prefix q p" for q
  proof -
    have "q \<noteq> []" using that by auto
    then have "look (BNode c None BLeaf BLeaf) q = None" by (simp add: n)
    then show ?thesis using g that unfolding grown_def by blast
  qed
qed

lemma grown_refl: "t \<noteq> BLeaf \<Longrightarrow> grown t t []"
  by (cases t) (auto simp: grown_def)

lemma put_addrs:
  "t = BNode a v l r \<Longrightarrow> set (baddrs (put_bt t b x)) = insert a (set (baddrs x) \<union> set (baddrs (sub_bt t (\<not> b))))"
  by (cases b) auto

lemma put_distinct:
  assumes "distinct (baddrs (BNode a v l r))" "distinct (baddrs x)" "a \<notin> set (baddrs x)"
    "set (baddrs x) \<inter> set (baddrs (sub_bt (BNode a v l r) (\<not> b))) = {}"
  shows "distinct (baddrs (put_bt (BNode a v l r) b x))"
  using assms by (cases b) auto

lemma put_length:
  "length (baddrs (put_bt (BNode a v l r) b x)) + length (baddrs (sub_bt (BNode a v l r) b)) =
     length (baddrs (BNode a v l r)) + length (baddrs x)"
  by (cases b) auto

lemma bt_at_put:
  assumes "m a = Some n" "bparent n = par" "bvalue n = v" "bidx n = Suc i" "MNBTRIE_NODESEL0 n = s"
    "bt_at m (bchild n b) (Some a) i b x" "bt_at m (bchild n (\<not> b)) (Some a) i (\<not> b) (sub_bt (BNode a v l r) (\<not> b))"
  shows "bt_at m (Some a) par (Suc i) s (put_bt (BNode a v l r) b x)"
  using assms by (cases b) auto

definition path_added ::
  "u64 \<Rightarrow> nat \<Rightarrow> addr option \<Rightarrow> bool \<Rightarrow> 'v bt \<Rightarrow> btrie \<Rightarrow> 'v btstore \<Rightarrow> addr \<Rightarrow> addr \<Rightarrow> btrie \<Rightarrow> 'v btstore
     \<Rightarrow> 'v bt \<Rightarrow> bool" where
  "path_added key n par s t tr m cur c tr' m' t' \<longleftrightarrow>
     bt_at m' (Some cur) par n s t' \<and>
     root_bt (at_bt t' (bt_path key n)) = Some c \<and> grown t t' (bt_path key n) \<and> distinct (baddrs t') \<and>
     set (baddrs t) \<subseteq> set (baddrs t') \<and> (\<forall>x. x \<notin> set (baddrs t') \<longrightarrow> m' x = m x) \<and>
     (\<forall>x \<in> set (baddrs t') - set (baddrs t). m x = None) \<and> finite (dom m') \<and>
     tbase tr' = tbase tr \<and> nvals tr' = nvals tr \<and>
     (\<exists>k \<le> n. length (baddrs t') = length (baddrs t) + k \<and> volume tr' = ((\<lambda>v. SZ (v + 1)) ^^ k) (volume tr))"

lemma add_loop_rep:
  assumes mal: "fresh_malloc malloc"
  shows "bt_at m (Some cur) par n s t \<Longrightarrow> distinct (baddrs t) \<Longrightarrow> finite (dom m) \<Longrightarrow> lvl + n < 32768 \<Longrightarrow>
     \<exists>c tr' m' t'. add_loop malloc key n lvl cur tr m = Some (c, tr', m') \<and> path_added key n par s t tr m cur c tr' m' t'"
proof (induction n arbitrary: cur par s t tr m lvl)
  case 0
  then obtain a v l r where t: "t = BNode a v l r" by (cases t) auto
  have "path_added key 0 par s t tr m cur cur tr m t"
    using 0 t grown_refl [of t] by (auto simp: path_added_def intro: exI [of _ 0])
  then show ?case by auto
next
  case (Suc n)
  then obtain v l r where t: "t = BNode cur v l r" by (cases t) auto
  let ?b = "bit key n"
  obtain nd where n: "m cur = Some nd" "bparent nd = par" "bvalue nd = v" "bidx nd = Suc n" "MNBTRIE_NODESEL0 nd = s"
      "\<forall>b. bt_at m (bchild nd b) (Some cur) n b (sub_bt t b) \<and> bchild nd b = root_bt (sub_bt t b)"
    using bt_at_sub [OF Suc.prems(1) [unfolded t]] t by auto
  have other: "bt_at m (bchild nd (\<not> ?b)) (Some cur) n (\<not> ?b) (sub_bt t (\<not> ?b))" using n(6) by blast
  have disj: "cur \<notin> set (baddrs (sub_bt t b))" "set (baddrs (sub_bt t ?b)) \<inter> set (baddrs (sub_bt t (\<not> ?b))) = {}" for b
    using Suc.prems(2) t by (cases ?b; auto)+
  have alloc: "m x \<noteq> None" if "x \<in> set (baddrs t)" for x using bt_at_alloc [OF Suc.prems(1)] that .
  show ?case
  proof (cases "sub_bt t ?b")
    case (BNode c v1 l1 r1)
    have ch: "bchild nd ?b = Some c" using n(6) BNode by simp
    have sub: "bt_at m (Some c) (Some cur) n ?b (sub_bt t ?b)" using n(6) ch by metis
    obtain c' tr' m' x where ih: "add_loop malloc key n (lvl + 1) c tr m = Some (c', tr', m')"
        "bt_at m' (Some c) (Some cur) n ?b x"
        "root_bt (at_bt x (bt_path key n)) = Some c'" "grown (sub_bt t ?b) x (bt_path key n)" "distinct (baddrs x)"
        "set (baddrs (sub_bt t ?b)) \<subseteq> set (baddrs x)" "\<forall>y. y \<notin> set (baddrs x) \<longrightarrow> m' y = m y"
        "\<forall>y \<in> set (baddrs x) - set (baddrs (sub_bt t ?b)). m y = None" "finite (dom m')"
        "tbase tr' = tbase tr" "nvals tr' = nvals tr"
        "\<exists>k \<le> n. length (baddrs x) = length (baddrs (sub_bt t ?b)) + k \<and> volume tr' = ((\<lambda>v. SZ (v + 1)) ^^ k) (volume tr)"
      using Suc.IH [OF sub distinct_sub [OF Suc.prems(2)] Suc.prems(3), of "lvl + 1" tr] Suc.prems(4) by (fastforce simp: path_added_def)
    let ?t = "put_bt t ?b x"
    have cx: "cur \<notin> set (baddrs x)" using ih(8) alloc disj(1) t by force
    have ox: "set (baddrs x) \<inter> set (baddrs (sub_bt t (\<not> ?b))) = {}"
    proof -
      have "m y \<noteq> None \<and> y \<notin> set (baddrs (sub_bt t ?b))" if "y \<in> set (baddrs (sub_bt t (\<not> ?b)))" for y
        using that disj(2) alloc [of y] sub_addrs [of t "\<not> ?b"] by blast
      with ih(8) show ?thesis by blast
    qed
    have "bt_at m' (Some cur) par (Suc n) s ?t"
      unfolding t
    proof (rule bt_at_put)
      show "m' cur = Some nd" using ih(7) cx n(1) by simp
      show "bt_at m' (bchild nd ?b) (Some cur) n ?b x" using ih(2) ch by simp
      have "bt_at m' (bchild nd (\<not> ?b)) (Some cur) n (\<not> ?b) (sub_bt t (\<not> ?b)) \<longleftrightarrow>
          bt_at m (bchild nd (\<not> ?b)) (Some cur) n (\<not> ?b) (sub_bt t (\<not> ?b))"
        by (rule bt_at_cong) (use ih(7) ox in blast)
      then show "bt_at m' (bchild nd (\<not> ?b)) (Some cur) n (\<not> ?b) (sub_bt (BNode cur v l r) (\<not> ?b))"
        using other t by simp
    qed (use n in simp_all)
    moreover have "distinct (baddrs ?t)"
      unfolding t by (rule put_distinct) (use Suc.prems(2) ih(5) cx ox t in simp_all)
    moreover have "grown t ?t (bt_path key (Suc n))"
      using grown_step [of cur v l r ?b x "bt_path key n"] ih(4) t by simp
    moreover have "root_bt (at_bt ?t (bt_path key (Suc n))) = Some c'" using ih(3) t by simp
    moreover have st: "set (baddrs ?t) = insert cur (set (baddrs x) \<union> set (baddrs (sub_bt t (\<not> ?b))))"
      by (rule put_addrs [OF t])
    moreover have "set (baddrs t) = insert cur (set (baddrs (sub_bt t ?b)) \<union> set (baddrs (sub_bt t (\<not> ?b))))"
      using t by (cases ?b) auto
    moreover have "\<exists>k \<le> Suc n. length (baddrs ?t) = length (baddrs t) + k \<and> volume tr' = ((\<lambda>v. SZ (v + 1)) ^^ k) (volume tr)"
      using ih(12) put_length [of cur v l r ?b x] t by (auto intro: le_SucI)
    moreover have "add_loop malloc key (Suc n) lvl cur tr m = Some (c', tr', m')" using n(1) ch ih(1) by simp
    ultimately have "add_loop malloc key (Suc n) lvl cur tr m = Some (c', tr', m')"
        "path_added key (Suc n) par s t tr m cur c' tr' m' ?t"
      using ih(6,7,8,9,10,11) unfolding path_added_def by blast+
    then show ?thesis by blast
  next
    case BLeaf
    have ch: "bchild nd ?b = None" using n(6) BLeaf by simp
    obtain c where c: "malloc m = Some c" "m c = None" using mal Suc.prems(3) by (auto simp: fresh_malloc_def)
    have ct: "c \<noteq> cur" "c \<notin> set (baddrs t)" using c(2) n(1) alloc [of c] by auto
    let ?nd = "nd\<lparr>bchild := (bchild nd)(?b := Some c)\<rparr>"
    let ?m = "m(cur \<mapsto> ?nd, c \<mapsto> btrie_node_init (Some cur) n (digit_of lvl ?b) None)"
    let ?tr = "tr\<lparr>volume := SZ (volume tr + 1)\<rparr>"
    let ?new = "BNode c None BLeaf BLeaf :: 'a bt"
    have sub: "bt_at ?m (Some c) (Some cur) n ?b ?new"
      using Suc.prems(4) sel_init [of lvl "Some cur" n ?b None] ct(1) by (simp add: btrie_node_init_def del: sel_init)
    obtain c' tr' m' x where ih: "add_loop malloc key n (lvl + 1) c ?tr ?m = Some (c', tr', m')"
        "bt_at m' (Some c) (Some cur) n ?b x"
        "root_bt (at_bt x (bt_path key n)) = Some c'" "grown ?new x (bt_path key n)" "distinct (baddrs x)"
        "set (baddrs ?new) \<subseteq> set (baddrs x)" "\<forall>y. y \<notin> set (baddrs x) \<longrightarrow> m' y = ?m y"
        "\<forall>y \<in> set (baddrs x) - set (baddrs ?new). ?m y = None" "finite (dom m')"
        "tbase tr' = tbase ?tr" "nvals tr' = nvals ?tr"
        "\<exists>k \<le> n. length (baddrs x) = length (baddrs ?new) + k \<and> volume tr' = ((\<lambda>v. SZ (v + 1)) ^^ k) (volume ?tr)"
      using Suc.IH [OF sub, of "lvl + 1" ?tr] Suc.prems(3,4) by (fastforce simp: path_added_def)
    let ?t = "put_bt t ?b x"
    have fr: "m y = None" if "y \<in> set (baddrs x)" for y
      using ih(8) c(2) that by (auto split: if_splits)
    have cx: "cur \<notin> set (baddrs x)" using fr n(1) by force
    have ox: "set (baddrs x) \<inter> set (baddrs (sub_bt t (\<not> ?b))) = {}"
      using fr alloc sub_addrs [of t "\<not> ?b"] by blast
    have "bt_at m' (Some cur) par (Suc n) s ?t"
      unfolding t
    proof (rule bt_at_put)
      show "m' cur = Some ?nd" using ih(7) cx ct(1) by simp
      show "bt_at m' (bchild ?nd ?b) (Some cur) n ?b x" using ih(2) by simp
      have "m' y = m y" if "y \<in> set (baddrs (sub_bt t (\<not> ?b)))" for y
      proof -
        have "y \<notin> set (baddrs x)" "y \<noteq> cur" "y \<noteq> c" using ox that disj(1) [of "\<not> ?b"] ct sub_addrs [of t "\<not> ?b"] by blast+
        then show ?thesis using ih(7) by simp
      qed
      then have "bt_at m' (bchild nd (\<not> ?b)) (Some cur) n (\<not> ?b) (sub_bt t (\<not> ?b)) \<longleftrightarrow>
          bt_at m (bchild nd (\<not> ?b)) (Some cur) n (\<not> ?b) (sub_bt t (\<not> ?b))"
        by (rule bt_at_cong)
      then show "bt_at m' (bchild ?nd (\<not> ?b)) (Some cur) n (\<not> ?b) (sub_bt (BNode cur v l r) (\<not> ?b))"
        using other t by simp
    qed (use n in \<open>simp_all add: MNBTRIE_NODESEL0_def\<close>)
    moreover have "distinct (baddrs ?t)"
      unfolding t by (rule put_distinct) (use Suc.prems(2) ih(5) cx ox t in simp_all)
    moreover have "grown t ?t (bt_path key (Suc n))"
      using grown_step [of cur v l r ?b x "bt_path key n"] grown_new [OF ih(4)] t BLeaf by simp
    moreover have "root_bt (at_bt ?t (bt_path key (Suc n))) = Some c'" using ih(3) t by simp
    moreover have st: "set (baddrs ?t) = insert cur (set (baddrs x) \<union> set (baddrs (sub_bt t (\<not> ?b))))"
      by (rule put_addrs [OF t])
    moreover have tt: "set (baddrs t) = insert cur (set (baddrs (sub_bt t (\<not> ?b))))"
      using t BLeaf by (cases ?b) auto
    moreover have "\<exists>k \<le> Suc n. length (baddrs ?t) = length (baddrs t) + k \<and> volume tr' = ((\<lambda>v. SZ (v + 1)) ^^ k) (volume tr)"
    proof -
      obtain k where k: "k \<le> n" "length (baddrs x) = Suc k" "volume tr' = ((\<lambda>v. SZ (v + 1)) ^^ k) (volume ?tr)" using ih(12) by auto
      then have "length (baddrs ?t) = length (baddrs t) + Suc k" using put_length [of cur v l r ?b x] t BLeaf by simp
      moreover have "volume tr' = ((\<lambda>v. SZ (v + 1)) ^^ Suc k) (volume tr)" using k(3) unfolding funpow_Suc_right by simp
      ultimately show ?thesis using k(1) Suc_le_mono by blast
    qed
    moreover have "add_loop malloc key (Suc n) lvl cur tr m = Some (c', tr', m')"
      using n(1) ch ih(1) c(1) by (simp add: upd_node_def Let_def)
    moreover have "\<forall>y. y \<notin> set (baddrs ?t) \<longrightarrow> m' y = m y"
      using ih(6,7) st by auto
    moreover have "\<forall>y \<in> set (baddrs ?t) - set (baddrs t). m y = None"
      using st tt fr by blast
    moreover have "set (baddrs t) \<subseteq> set (baddrs ?t)" using st tt by blast
    moreover have "tbase tr' = tbase tr" "nvals tr' = nvals tr" using ih(10,11) by simp_all
    ultimately have "add_loop malloc key (Suc n) lvl cur tr m = Some (c', tr', m')"
        "path_added key (Suc n) par s t tr m cur c' tr' m' ?t"
      using ih(9) unfolding path_added_def by blast+
    then show ?thesis by blast
  qed
qed

subsection \<open>Keys and paths\<close>

definition bits_val :: "nat \<Rightarrow> bool list \<Rightarrow> nat" where
  "bits_val x p = foldl (\<lambda>x b. 2 * x + of_bool b) x p"

lemma bits_val_simps [simp]:
  "bits_val x [] = x" "bits_val x (b # p) = bits_val (2 * x + of_bool b) p"
  "bits_val x (p @ q) = bits_val (bits_val x p) q"
  by (simp_all add: bits_val_def)

lemma bits_val_range: "x * 2 ^ length p \<le> bits_val x p \<and> bits_val x p < (x + 1) * 2 ^ length p"
proof (induction p arbitrary: x)
  case (Cons b p)
  show ?case using Cons.IH [of "2 * x + of_bool b"] by (cases b) (auto simp: algebra_simps)
qed simp

lemma bits_val_inj: "bits_val x p = bits_val y q \<Longrightarrow> length p = length q \<Longrightarrow> x = y \<and> p = q"
proof (induction p arbitrary: q rule: rev_induct)
  case (snoc b p)
  obtain q' c where q: "q = q' @ [c]" using snoc.prems(2) by (cases q rule: rev_cases) auto
  have e: "2 * bits_val x p + of_bool b = 2 * bits_val y q' + of_bool c" using snoc.prems(1) q by simp
  then have "b = c" by (cases b; cases c; simp; presburger)
  then show ?case using e snoc.IH [of q'] snoc.prems(2) q by simp
qed simp

lemma bit_unat: "bit key n \<longleftrightarrow> odd (unat key div 2 ^ n)" for key :: u64
proof -
  have "bit (unat key) n \<longleftrightarrow> bit key n" by (simp add: bit_unsigned_iff)
  then show ?thesis by (simp add: bit_iff_odd)
qed

lemma path_val: "bits_val (unat key div 2 ^ n) (bt_path key n) = unat key"
proof (induction n)
  case (Suc n)
  have "unat key div 2 ^ Suc n = unat key div 2 ^ n div 2" by (metis div_mult2_eq mult.commute power_Suc)
  then have "2 * (unat key div 2 ^ Suc n) + of_bool (bit key n) = unat key div 2 ^ n"
    by (simp add: bit_unat odd_two_times_div_two_succ)
  then show ?case using Suc.IH by simp
qed simp

lemma top_div: "flsl key = Suc n \<Longrightarrow> unat key div 2 ^ n = 1"
proof -
  assume f: "flsl key = Suc n"
  then have "key \<noteq> 0" by (metis flsl_zero nat.distinct(1))
  from flsl_bounds [OF this] f show ?thesis by (simp add: div_nat_eqI)
qed

lemma key_val: "flsl key = Suc n \<Longrightarrow> bits_val 1 (bt_path key n) = unat key"
  using path_val [of key n] top_div [of key n] by simp

lemma path_of_key:
  assumes "length p < 64"
  shows "flsl (word_of_nat (bits_val 1 p)) = Suc (length p) \<and>
         bt_path (word_of_nat (bits_val 1 p)) (length p) = p \<and> unat (word_of_nat (bits_val 1 p) :: u64) = bits_val 1 p"
proof -
  let ?n = "bits_val 1 p" and ?k = "word_of_nat (bits_val 1 p) :: u64"
  have r: "2 ^ length p \<le> ?n" "?n < 2 ^ Suc (length p)" using bits_val_range [of 1 p] by simp_all
  have "(2::nat) ^ Suc (length p) \<le> 2 ^ 64" using assms by (intro power_increasing) simp_all
  then have "?n < 2 ^ 64" using r(2) by linarith
  then have u: "unat ?k = ?n" by (simp add: unat_of_nat)
  have f: "flsl ?k = Suc (length p)" unfolding flsl_def u by (rule fls_nat_unique [OF r])
  have "bits_val 1 (bt_path ?k (length p)) = bits_val 1 p" using key_val [OF f] u by simp
  then have "bt_path ?k (length p) = p" using bits_val_inj [of 1 "bt_path ?k (length p)" 1 p] by simp
  with f u show ?thesis by simp
qed

lemma key_inj: "flsl k = Suc n \<Longrightarrow> flsl k' = Suc n \<Longrightarrow> bt_path k n = bt_path k' n \<Longrightarrow> k = k'"
  using key_val [of k n] key_val [of k' n] by (simp add: word_unat_eq_iff)

subsection \<open>The trie\<close>

definition btrie_rep :: "btrie \<Rightarrow> 'v btstore \<Rightarrow> 'v bt list \<Rightarrow> bool" where
  "btrie_rep tr m ts \<longleftrightarrow>
     length ts = TREE_DEPTH \<and>
     (\<forall>i < TREE_DEPTH. bt_at m (Some (root_at tr i)) None i False (ts ! i)) \<and>
     distinct (concat (map baddrs ts)) \<and>
     length (concat (map baddrs ts)) = volume tr + TREE_DEPTH \<and> volume tr < 2 ^ 64 \<and> finite (dom m)"

text \<open>The node of a key, and its value.\<close>

definition look_key :: "'v bt list \<Rightarrow> u64 \<Rightarrow> (addr \<times> 'v option) option" where
  "look_key ts key = (if key = 0 then None else look (ts ! (flsl key - 1)) (bt_path key (flsl key - 1)))"

lemma flsl_index: "key \<noteq> 0 \<Longrightarrow> flsl key - 1 < TREE_DEPTH"
  using flsl_bounds [of key] unfolding TREE_DEPTH_def by linarith

lemma btrie_repD:
  assumes "btrie_rep tr m ts"
  shows "length ts = TREE_DEPTH" "i < TREE_DEPTH \<Longrightarrow> bt_at m (Some (root_at tr i)) None i False (ts ! i)"
    "distinct (concat (map baddrs ts))" "length (concat (map baddrs ts)) = volume tr + TREE_DEPTH" "volume tr < 2 ^ 64"
    "finite (dom m)"
  using assms by (simp_all add: btrie_rep_def)

lemma find_exact_look:
  assumes "btrie_rep tr m ts"
  shows "btrie_find_exact tr m key = Some (map_option fst (look_key ts key))"
proof (cases "key = 0")
  case False
  show ?thesis
    using False exact_loop_path [OF btrie_repD(2) [OF assms flsl_index [OF False]], of key] root_look
    by (simp add: btrie_find_exact_def look_key_def)
qed (simp add: btrie_find_exact_def look_key_def)

lemma concat_split:
  "i < length ts \<Longrightarrow> concat (map f ts) = concat (map f (take i ts)) @ f (ts ! i) @ concat (map f (drop (Suc i) ts))"
  by (metis append_take_drop_id concat.simps(2) concat_append Cons_nth_drop_Suc list.simps(9) map_append)

lemma concat_put:
  "i < length ts \<Longrightarrow>
     concat (map f (ts[i := t])) = concat (map f (take i ts)) @ f t @ concat (map f (drop (Suc i) ts))"
  by (simp add: upd_conv_take_nth_drop)

lemma trees_apart:
  assumes d: "distinct (concat (map baddrs ts))" and ij: "i < length ts" "j < length ts" "i \<noteq> j"
    and a: "a \<in> set (baddrs (ts ! i))"
  shows "a \<notin> set (baddrs (ts ! j))"
proof
  assume b: "a \<in> set (baddrs (ts ! j))"
  have "ts ! j \<in> set (take i ts) \<union> set (drop (Suc i) ts)"
  proof (cases "j < i")
    case True
    then show ?thesis using ij by (auto simp: in_set_conv_nth intro!: exI [of _ j])
  next
    case False
    then have "drop (Suc i) ts ! (j - Suc i) = ts ! j" "j - Suc i < length (drop (Suc i) ts)" using ij by auto
    then show ?thesis by (metis UnI2 nth_mem)
  qed
  with b have "a \<in> set (concat (map baddrs (take i ts)) @ concat (map baddrs (drop (Suc i) ts)))" by auto
  then show False using d a unfolding concat_split [OF ij(1)] by auto
qed

text \<open>One tree grows; the others stay as they are.\<close>

lemma btrie_rep_update:
  assumes rep: "btrie_rep tr m ts" and i: "i < TREE_DEPTH"
    and t: "bt_at m' (Some (root_at tr i)) None i False t" and d: "distinct (baddrs t)"
    and fr: "\<And>x. x \<notin> set (baddrs t) \<Longrightarrow> x \<notin> set (baddrs (ts ! i)) \<Longrightarrow> m' x = m x"
    and new: "\<And>x. x \<in> set (baddrs t) \<Longrightarrow> x \<notin> set (baddrs (ts ! i)) \<Longrightarrow> m x = None"
    and tr': "tbase tr' = tbase tr" "volume tr' + length (baddrs (ts ! i)) = volume tr + length (baddrs t)"
      "volume tr' < 2 ^ 64"
    and fin: "finite (dom m')"
  shows "btrie_rep tr' m' (ts[i := t])"
proof -
  have len: "i < length ts" "length ts = TREE_DEPTH" using btrie_repD(1) [OF rep] i by simp_all
  have oth: "x \<notin> set (baddrs t)" if j: "j < length ts" "j \<noteq> i" "x \<in> set (baddrs (ts ! j))" for j x
  proof -
    have "bt_at m (Some (root_at tr j)) None j False (ts ! j)" using btrie_repD(2) [OF rep] j(1) len(2) by simp
    then have "m x \<noteq> None" using j(3) by (rule bt_at_alloc)
    moreover have "x \<notin> set (baddrs (ts ! i))" using trees_apart [OF btrie_repD(3) [OF rep] j(1) len(1) j(2) j(3)] .
    ultimately show ?thesis using new [of x] by (meson)
  qed
  have "bt_at m' (Some (root_at tr' j)) None j False (ts[i := t] ! j)" if j: "j < TREE_DEPTH" for j
  proof (cases "j = i")
    case True
    then show ?thesis using t len tr'(1) by (simp add: root_at_def)
  next
    case False
    have "bt_at m' (Some (root_at tr j)) None j False (ts ! j) \<longleftrightarrow> bt_at m (Some (root_at tr j)) None j False (ts ! j)"
    proof (rule bt_at_cong)
      fix x assume x: "x \<in> set (baddrs (ts ! j))"
      have "x \<notin> set (baddrs (ts ! i))" using trees_apart [OF btrie_repD(3) [OF rep], of j i] x j False len by simp
      then show "m' x = m x" using oth [of j x] fr x j False len by simp
    qed
    then show ?thesis using btrie_repD(2) [OF rep j] False tr'(1) by (simp add: root_at_def)
  qed
  moreover have "distinct (concat (map baddrs (ts[i := t])))"
  proof -
    have dd: "distinct (concat (map baddrs (take i ts)) @ baddrs (ts ! i) @ concat (map baddrs (drop (Suc i) ts)))"
      using btrie_repD(3) [OF rep] concat_split [OF len(1)] by metis
    have "x \<notin> set (baddrs t)" if x: "x \<in> set (concat (map baddrs (take i ts))) \<union> set (concat (map baddrs (drop (Suc i) ts)))" for x
    proof -
      have "x \<in> set (concat (map baddrs ts))" using x concat_split [OF len(1), of baddrs] by auto
      then obtain u where "u \<in> set ts" "x \<in> set (baddrs u)" by auto
      then obtain j where j: "j < length ts" "x \<in> set (baddrs (ts ! j))" by (metis in_set_conv_nth)
      have "x \<notin> set (baddrs (ts ! i))" using x dd by auto
      then have "j \<noteq> i" using j by blast
      then show ?thesis using oth j by blast
    qed
    then show ?thesis using dd d unfolding concat_put [OF len(1)] by auto
  qed
  moreover have "length (concat (map baddrs (ts[i := t]))) = volume tr' + TREE_DEPTH"
    using btrie_repD(4) [OF rep] tr'(2) unfolding concat_put [OF len(1)] concat_split [OF len(1), of baddrs] by simp
  ultimately show ?thesis using len tr' fin by (simp add: btrie_rep_def)
qed

lemma SZ_iter: "v + k < 2 ^ 64 \<Longrightarrow> ((\<lambda>v. SZ (v + 1)) ^^ k) v = v + k"
  by (induction k) (auto simp: SZ_small)

lemma grown_length: 
  "bt_at m q par n s t \<Longrightarrow> look t p \<noteq> None \<Longrightarrow> length p \<le> n"
proof (induction p arbitrary: t q par n s)
  case (Cons b p)
  then obtain a v l r where t: "t = BNode a v l r" by (cases t) auto
  then obtain k where "n = Suc k" using Cons.prems by (cases n) (auto split: if_splits)
  then show ?case using Cons.IH [of _ "Some a" k b "sub_bt t b"] bt_at_sub [OF Cons.prems(1) [unfolded t]] t Cons.prems(2)
    by auto
qed simp

end
