(* ===== verification/Btrie_Map.thy ===== *)
theory Btrie_Map
  imports Btrie_Refine
begin

text \<open>
  What the trie promises its clients: \<open>look_key\<close> gives the node of a key, adding and removing
  change it at one key, and \<^verbatim>\<open>btrie_find_closest\<close> finds the nearest key that has a value.
\<close>

subsection \<open>Adding and finding\<close>

lemma length_same_prefix: "prefix p q \<Longrightarrow> length p = length q \<Longrightarrow> p = q"
  by (auto simp: prefix_def)

lemma add_node_rep:
  assumes rep: "btrie_rep tr m ts" and mal: "fresh_malloc malloc" and key: "key \<noteq> 0" and vol: "volume tr + 64 < 2 ^ 64"
  shows "\<exists>c tr' m' t. let i = flsl key - 1 in
           btrie_add_node malloc tr m key = Some (Some c, tr', m') \<and> btrie_rep tr' m' (ts[i := t]) \<and>
           grown (ts ! i) t (bt_path key i) \<and> root_bt (at_bt t (bt_path key i)) = Some c \<and>
           nvals tr' = nvals tr \<and> volume tr \<le> volume tr' \<and>
           (\<forall>x. m x \<noteq> None \<longrightarrow> x \<notin> set (baddrs (ts ! i)) \<longrightarrow> m' x = m x)"
proof -
  let ?i = "flsl key - 1"
  have i: "?i < TREE_DEPTH" by (rule flsl_index [OF key])
  then have il: "?i < length ts" using btrie_repD(1) [OF rep] by simp
  have d: "distinct (baddrs (ts ! ?i))"
    using btrie_repD(3) [OF rep] unfolding concat_split [OF il] by auto
  have lv: "1 + ?i < 32768" using i by (simp add: TREE_DEPTH_def)
  from add_loop_rep [OF mal btrie_repD(2) [OF rep i] d btrie_repD(6) [OF rep] lv, of key tr]
  obtain c tr' m' t where l: "add_loop malloc key ?i 1 (root_at tr ?i) tr m = Some (c, tr', m')"
      "path_added key ?i None False (ts ! ?i) tr m (root_at tr ?i) c tr' m' t" by blast
  obtain k where k: "k \<le> ?i" "length (baddrs t) = length (baddrs (ts ! ?i)) + k" "volume tr' = ((\<lambda>v. SZ (v + 1)) ^^ k) (volume tr)"
    using l(2) unfolding path_added_def by blast
  have a: "bt_at m' (Some (root_at tr ?i)) None ?i False t" "root_bt (at_bt t (bt_path key ?i)) = Some c"
      "grown (ts ! ?i) t (bt_path key ?i)" "distinct (baddrs t)" "set (baddrs (ts ! ?i)) \<subseteq> set (baddrs t)"
      "\<forall>x. x \<notin> set (baddrs t) \<longrightarrow> m' x = m x" "\<forall>x \<in> set (baddrs t) - set (baddrs (ts ! ?i)). m x = None"
      "finite (dom m')" "tbase tr' = tbase tr" "nvals tr' = nvals tr"
    using l(2) unfolding path_added_def by blast+
  have "k \<le> 64" using k(1) i by (simp add: TREE_DEPTH_def)
  then have v: "volume tr' = volume tr + k" using SZ_iter [of "volume tr" k] vol k(3) \<open>k \<le> 64\<close> by simp
  have "btrie_rep tr' m' (ts[?i := t])"
    by (rule btrie_rep_update [OF rep i a(1,4)]) (use a k v vol \<open>k \<le> 64\<close> in auto)
  moreover have "\<forall>x. m x \<noteq> None \<longrightarrow> x \<notin> set (baddrs (ts ! ?i)) \<longrightarrow> m' x = m x" using a(6,7) by (metis DiffI)
  ultimately show ?thesis
    using l(1) key a(2,3,10) v by (intro exI [of _ c] exI [of _ tr'] exI [of _ m'] exI [of _ t])
      (auto simp: Let_def btrie_add_node_def BTRIE_ADD_NODE_BODY_def)
qed

text \<open>
  C11: \<^verbatim>\<open>btrie_add_node\<close> makes the node of a key: it returns the node \<^verbatim>\<open>btrie_find_exact\<close> finds for the
  key afterwards, which is the old one if the key had one, and no other key gains, loses or
  changes its node or value. The trie stays well linked and its volume counts its nodes.
\<close>

theorem btrie_add_then_find:
  assumes rep: "btrie_rep tr m ts" and mal: "fresh_malloc malloc" and key: "key \<noteq> 0" and vol: "volume tr + 64 < 2 ^ 64"
  shows "\<exists>c tr' m' ts'. btrie_add_node malloc tr m key = Some (Some c, tr', m') \<and> btrie_rep tr' m' ts' \<and>
           btrie_find_exact tr' m' key = Some (Some c) \<and>
           look_key ts' key = (case look_key ts key of None \<Rightarrow> Some (c, None) | Some r \<Rightarrow> Some r) \<and>
           (\<forall>k. k \<noteq> key \<longrightarrow> look_key ts' k = look_key ts k)"
proof -
  let ?i = "flsl key - 1"
  obtain c tr' m' t where a: "btrie_add_node malloc tr m key = Some (Some c, tr', m')" "btrie_rep tr' m' (ts[?i := t])"
      "grown (ts ! ?i) t (bt_path key ?i)" "root_bt (at_bt t (bt_path key ?i)) = Some c"
    using add_node_rep [OF rep mal key vol] by (auto simp: Let_def)
  let ?ts = "ts[?i := t]"
  have il: "?i < length ts" using flsl_index [OF key] btrie_repD(1) [OF rep] by simp
  have c: "map_option fst (look t (bt_path key ?i)) = Some c" using a(4) root_look by metis
  have own: "look_key ?ts key = (case look_key ts key of None \<Rightarrow> Some (c, None) | Some r \<Rightarrow> Some r)"
  proof (cases "look (ts ! ?i) (bt_path key ?i)")
    case None
    then have "map_option snd (look t (bt_path key ?i)) = Some None" using a(3) by (simp add: grown_def)
    with c have "look t (bt_path key ?i) = Some (c, None)" by auto
    with None il key show ?thesis by (simp add: look_key_def)
  next
    case (Some r)
    then have "look t (bt_path key ?i) = Some r" using a(3) by (simp add: grown_def)
    with Some il key show ?thesis by (simp add: look_key_def)
  qed
  have other: "look_key ?ts k = look_key ts k" if k: "k \<noteq> key" for k
  proof (cases "k = 0 \<or> flsl k - 1 \<noteq> ?i")
    case True
    then show ?thesis using il by (auto simp: look_key_def)
  next
    case False
    then have f: "flsl k = Suc ?i" "flsl key = Suc ?i" using flsl_bounds [of k] flsl_bounds [OF key] by auto
    have np: "\<not> prefix (bt_path k ?i) (bt_path key ?i)"
      using length_same_prefix key_inj [OF f] k by (metis bt_path_simps(3))
    then have "look t (bt_path k ?i) = look (ts ! ?i) (bt_path k ?i)" using a(3) unfolding grown_def by metis
    then show ?thesis using False il f by (simp add: look_key_def)
  qed
  have "btrie_find_exact tr' m' key = Some (Some c)"
    using find_exact_look [OF a(2), of key] own c il key by (simp add: look_key_def)
  with a(1,2) own other show ?thesis by blast
qed

subsection \<open>The empty trie\<close>

definition empty_trees :: "btrie \<Rightarrow> 'v bt list" where
  "empty_trees tr = map (\<lambda>i. BNode (root_at tr i) None BLeaf BLeaf) [0..<TREE_DEPTH]"

lemma init_fold:
  "fold (\<lambda>i m. m(root_at tr i \<mapsto> f i)) is m x =
     (if x \<in> root_at tr ` set is then Some (f ((x - tbase tr) div 40)) else m x)"
proof (induction "is" arbitrary: m)
  case (Cons i "is")
  have "(root_at tr i - tbase tr) div 40 = i" by (simp add: root_at_def)
  then show ?case using Cons.IH [of "m(root_at tr i \<mapsto> f i)"] by auto
qed simp

lemma btrie_init_rep:
  assumes "finite (dom m)"
  shows "btrie_rep (fst (btrie_init base m)) (snd (btrie_init base m)) (empty_trees (fst (btrie_init base m)))"
proof -
  let ?tr = "\<lparr>tbase = base, volume = 0, nvals = 0\<rparr>"
  let ?m = "fold (\<lambda>i m. m(root_at ?tr i \<mapsto> btrie_node_init None i 0 None)) [0..<TREE_DEPTH] m"
  have r: "?m (root_at ?tr i) = Some (btrie_node_init None i 0 None)" if "i < TREE_DEPTH" for i
    using that unfolding init_fold by (simp add: root_at_def)
  have b: "bt_at ?m (Some (root_at ?tr i)) None i False (empty_trees ?tr ! i)" if "i < TREE_DEPTH" for i
    using that r [OF that] by (simp add: empty_trees_def btrie_node_init_def MNBTRIE_NODESEL0_def)
  have a: "concat (map baddrs (map (\<lambda>i. BNode (root_at ?tr i) None BLeaf BLeaf) is)) = map (root_at ?tr) is" for "is"
    by (induction "is") simp_all
  have e: "concat (map baddrs (empty_trees ?tr)) = map (root_at ?tr) [0..<TREE_DEPTH]"
    unfolding empty_trees_def by (rule a)
  have len: "length (empty_trees ?tr) = TREE_DEPTH" by (simp add: empty_trees_def)
  have d: "distinct (map (root_at ?tr) is)" if "distinct is" for "is" :: "nat list"
    using that by (simp add: distinct_map inj_on_def root_at_def)
  have f: "finite (dom (fold (\<lambda>i m. m(root_at ?tr i \<mapsto> g i)) is m))" for g and "is" :: "nat list"
    using assms by (induction "is" arbitrary: m) auto
  show ?thesis
    using b d [of "[0..<TREE_DEPTH]"] f [of "\<lambda>i. btrie_node_init None i 0 None" "[0..<TREE_DEPTH]"]
    by (simp add: btrie_rep_def btrie_init_def Let_def e len)
qed

definition least_free :: "'v btmalloc" where
  "least_free m = Some (LEAST a. m a = None)"

lemma least_free_fresh: "fresh_malloc (least_free :: 'v btmalloc)"
proof -
  have "m (LEAST a. m a = None) = None" if "finite (dom m)" for m :: "'v btstore"
  proof (rule LeastI_ex)
    have "dom m \<noteq> UNIV" using that by auto
    then show "\<exists>a. m a = None" by auto
  qed
  then show ?thesis by (simp add: fresh_malloc_def least_free_def)
qed

definition demo_trie :: "btrie \<times> nat btstore" where
  "demo_trie = btrie_init 0 (\<lambda>_. None)"

lemma demo_trie_rep: "btrie_rep (fst demo_trie) (snd demo_trie) (empty_trees (fst demo_trie))"
  unfolding demo_trie_def by (rule btrie_init_rep) simp

theorem btrie_add_then_find_witness:
  "\<exists>c tr' m' ts'. btrie_add_node least_free (fst demo_trie) (snd demo_trie) 5 = Some (Some c, tr', m') \<and>
     btrie_rep tr' m' ts' \<and> btrie_find_exact tr' m' 5 = Some (Some c) \<and>
     look_key ts' 5 = (case look_key (empty_trees (fst demo_trie)) 5 of None \<Rightarrow> Some (c, None) | Some r \<Rightarrow> Some r) \<and>
     (\<forall>k. k \<noteq> 5 \<longrightarrow> look_key ts' k = look_key (empty_trees (fst demo_trie)) k)"
  by (rule btrie_add_then_find [OF demo_trie_rep least_free_fresh])
     (simp_all add: demo_trie_def btrie_init_def Let_def)

end
