(* ===== verification/Btrie_Closest.thy ===== *)
theory Btrie_Closest
  imports Btrie_Map
begin

text \<open>
  \<^verbatim>\<open>btrie_find_closest\<close>. The nodes with a value, listed in the order of their keys; the searches of
  the source find the head of such a list. \<open>d\<close> is the direction: true is forward.
\<close>

subsection \<open>The values of a tree in order\<close>

text \<open>The keys and nodes with a value, the child \<open>s\<close> before the other one.\<close>

fun kvs :: "bool \<Rightarrow> nat \<Rightarrow> 'v bt \<Rightarrow> (nat \<times> addr) list" where
  "kvs s x BLeaf = []"
| "kvs s x (BNode a v l r) =
     (if v \<noteq> None then [(x, a)] else []) @
     kvs s (2 * x + of_bool s) (if s then r else l) @ kvs s (2 * x + of_bool (\<not> s)) (if s then l else r)"

definition hd_node :: "(nat \<times> addr) list \<Rightarrow> addr option" where
  "hd_node xs = (case xs of [] \<Rightarrow> None | x # _ \<Rightarrow> Some (snd x))"

lemma hd_node_simps [simp]: "hd_node [] = None" "hd_node (x # xs) = Some (snd x)"
  by (simp_all add: hd_node_def)

lemma hd_node_append: "hd_node (xs @ ys) = (if xs = [] then hd_node ys else hd_node xs)"
  by (cases xs) auto

lemma hd_node_None [simp]: "hd_node xs = None \<longleftrightarrow> xs = []"
  by (cases xs) auto

lemma kvs_sub:
  "kvs s x (BNode a v l r) =
     (if v \<noteq> None then [(x, a)] else []) @
     kvs s (2 * x + of_bool s) (sub_bt (BNode a v l r) s) @ kvs s (2 * x + of_bool (\<not> s)) (sub_bt (BNode a v l r) (\<not> s))"
  by simp

lemma bt_at_nodeE:
  assumes "bt_at m q par i s t" "t = BNode a v l r"
  obtains n where "m a = Some n" "q = Some a" "bparent n = par" "bvalue n = v" "bidx n = i" "MNBTRIE_NODESEL0 n = s"
    "\<forall>b. bt_at m (bchild n b) (Some a) (i - 1) b (sub_bt t b)" "\<forall>b. bchild n b = root_bt (sub_bt t b)"
proof -
  obtain n where n: "m a = Some n \<and> q = Some a \<and> bparent n = par \<and> bvalue n = v \<and> bidx n = i \<and> MNBTRIE_NODESEL0 n = s \<and>
      (\<forall>b. bt_at m (bchild n b) (Some a) (i - 1) b (sub_bt t b) \<and> bchild n b = root_bt (sub_bt t b))"
    using bt_at_sub [OF assms(1) [unfolded assms(2)]] unfolding assms(2) by (elim exE)
  show thesis by (rule that [of n]) (use n in \<open>blast+\<close>)
qed

lemma find_value_kvs:
  "bt_at m (Some a) par i sel t \<Longrightarrow> find_value s m a = Some (hd_node (kvs s x t))"
proof (induction t arbitrary: a par i sel x)
  case BLeaf
  then show ?case by simp
next
  case (BNode b v l r)
  let ?t = "BNode b v l r"
  have ba: "b = a" using BNode.prems by simp
  obtain n where n0: "m b = Some n" "bvalue n = v"
      "\<forall>c. bt_at m (bchild n c) (Some b) (i - 1) c (sub_bt ?t c)" "\<forall>c. bchild n c = root_bt (sub_bt ?t c)"
    by (rule bt_at_nodeE [OF BNode.prems refl]) blast
  note n = n0(1) [unfolded ba] ba n0(2) n0(3) [unfolded ba, rule_format] n0(4) [unfolded ba, rule_format]
  have child: "(case bchild n c of
          None \<Rightarrow> Some None
        | Some y \<Rightarrow> do { z \<leftarrow> m y; if bvalue z \<noteq> None then Some (Some y) else find_value s m y }) =
        Some (hd_node (kvs s y (sub_bt ?t c)))" for c y
  proof (cases "sub_bt ?t c")
    case BLeaf
    then show ?thesis using n(5) [of c] by simp
  next
    case (BNode e w l' r')
    have ch: "bchild n c = Some e" using n(5) [of c] BNode by simp
    have at: "bt_at m (Some e) (Some a) (i - 1) c (sub_bt ?t c)" using n(4) [of c] ch by simp
    have fv: "find_value s m e = Some (hd_node (kvs s y (sub_bt ?t c)))"
      using BNode.IH(1) [of e "Some a" "i - 1" c y] BNode.IH(2) [of e "Some a" "i - 1" c y] at by (cases c) auto
    have "\<exists>z. m e = Some z \<and> bvalue z = w" using at BNode by auto
    then show ?thesis using ch fv BNode by (cases w) auto
  qed
  show ?case
    using n(1,2,3) child [of s "2 * x + of_bool s"] child [of "\<not> s" "2 * x + of_bool (\<not> s)"]
    by (subst find_value.simps) (auto simp: hd_node_append simp del: sub_bt.simps kvs.simps simp: kvs_sub split: option.splits)
qed

text \<open>What lies beyond the node at a path, the nearest first.\<close>

fun beyond :: "bool \<Rightarrow> nat \<Rightarrow> 'v bt \<Rightarrow> bool list \<Rightarrow> (nat \<times> addr) list" where
  "beyond d x t [] = []"
| "beyond d x t (b # p) =
     beyond d (2 * x + of_bool b) (sub_bt t b) p @
     (if b = d then [] else kvs (\<not> d) (2 * x + of_bool d) (sub_bt t d))"

lemma beyond_snoc:
  "beyond d x t (p @ [b]) =
     (if b = d then [] else kvs (\<not> d) (2 * bits_val x p + of_bool d) (sub_bt (at_bt t p) d)) @ beyond d x t p"
  by (induction p arbitrary: x t) auto

text \<open>The node at a path, seen from the store.\<close>

lemma bt_at_path:
  "bt_at m q par i s t \<Longrightarrow> at_bt t p = BNode a v l r \<Longrightarrow>
     \<exists>par' s'. bt_at m (Some a) par' (i - length p) s' (BNode a v l r) \<and>
       (p = [] \<longrightarrow> par' = par \<and> s' = s) \<and>
       (\<forall>p' b. p = p' @ [b] \<longrightarrow> s' = b \<and> par' = root_bt (at_bt t p') \<and> par' \<noteq> None)"
proof (induction p arbitrary: q par i s t)
  case Nil
  then show ?case using bt_at_root by fastforce
next
  case (Cons b p)
  then obtain a0 v0 l0 r0 where t: "t = BNode a0 v0 l0 r0" by (cases t) auto
  obtain n :: "'a btnode" where n: "bt_at m (bchild n b) (Some a0) (i - 1) b (sub_bt t b)"
    by (rule bt_at_nodeE [OF Cons.prems(1) t]) blast
  obtain par' s' where ih: "bt_at m (Some a) par' (i - 1 - length p) s' (BNode a v l r)"
      "p = [] \<longrightarrow> par' = Some a0 \<and> s' = b"
      "\<forall>p' c. p = p' @ [c] \<longrightarrow> s' = c \<and> par' = root_bt (at_bt (sub_bt t b) p') \<and> par' \<noteq> None"
    using Cons.IH [OF n] Cons.prems(2) by auto
  have "s' = c \<and> par' = root_bt (at_bt t p') \<and> par' \<noteq> None" if "b # p = p' @ [c]" for p' c
    using that ih(2,3) t by (cases p') auto
  with ih(1) show ?case by auto
qed

lemma bt_at_pathE:
  assumes "bt_at m q par i s t" "at_bt t p = BNode a v l r"
  obtains par' s' where "bt_at m (Some a) par' (i - length p) s' (BNode a v l r)" "p = [] \<longrightarrow> par' = par \<and> s' = s"
    "\<forall>p' b. p = p' @ [b] \<longrightarrow> s' = b \<and> par' = root_bt (at_bt t p') \<and> par' \<noteq> None"
  using bt_at_path [OF assms] by (elim exE conjE) (rule that)

lemma climb_path:
  assumes bt: "bt_at m q None i False t"
  shows "at_bt t p = BNode a v l r \<Longrightarrow> (\<forall>p' b. p = p' @ [b] \<longrightarrow> mysel = b) \<Longrightarrow>
     \<exists>p' c v' l' r'. climb d m a mysel = Some c \<and> at_bt t p' = BNode c v' l' r' \<and> length p' \<le> length p \<and>
       beyond d x t p = beyond d x t p' \<and> (p' = [] \<or> (\<exists>p''. p' = p'' @ [\<not> d]))"
proof (induction p arbitrary: a v l r mysel rule: rev_induct)
  case Nil
  obtain par' s' where b: "bt_at m (Some a) par' i s' (BNode a v l r)" "par' = None"
    using bt_at_path [OF bt Nil(1)] by auto
  then have "climb d m a mysel = Some a" by (subst climb.simps) auto
  then show ?case using Nil(1) by blast
next
  case (snoc b p)
  obtain par' s' where b0: "bt_at m (Some a) par' (i - length (p @ [b])) s' (BNode a v l r)"
      "p @ [b] = [] \<longrightarrow> par' = None \<and> s' = False"
      "\<forall>p' c. p @ [b] = p' @ [c] \<longrightarrow> s' = c \<and> par' = root_bt (at_bt t p') \<and> par' \<noteq> None"
    by (rule bt_at_pathE [OF bt snoc.prems(1)])
  have bb: "bt_at m (Some a) par' (i - length (p @ [b])) s' (BNode a v l r)" "par' = root_bt (at_bt t p)" "par' \<noteq> None"
    using b0(1,3) by blast+
  obtain e w l' r' where e: "at_bt t p = BNode e w l' r'" using bb(2,3) by (cases "at_bt t p") auto
  obtain n where n: "m a = Some n" "bparent n = Some e" using bb e by auto
  have ms: "mysel = b" using snoc.prems(2) by simp
  show ?case
  proof (cases "b = d")
    case False
    then have "climb d m a mysel = Some a" using n ms by (subst climb.simps) simp
    moreover have "p @ [b] = [] \<or> (\<exists>p''. p @ [b] = p'' @ [\<not> d])" using False by simp
    ultimately show ?thesis using snoc.prems(1) by blast
  next
    case True
    obtain par'' s'' where pb: "bt_at m (Some e) par'' (i - length p) s'' (BNode e w l' r')"
        "p = [] \<longrightarrow> par'' = None \<and> s'' = False"
        "\<forall>p' c. p = p' @ [c] \<longrightarrow> s'' = c \<and> par'' = root_bt (at_bt t p') \<and> par'' \<noteq> None"
      by (rule bt_at_pathE [OF bt e])
    have pb2: "\<forall>p' c. p = p' @ [c] \<longrightarrow> s'' = c" using pb(3) by blast
    obtain x' where x': "m e = Some x'" "MNBTRIE_NODESEL0 x' = s''" using pb(1) by auto
    have c1: "climb d m a mysel = climb d m e s''" using n ms True x' by (subst climb.simps) simp
    have c2: "beyond d x t (p @ [b]) = beyond d x t p" using True by (simp add: beyond_snoc)
    obtain p' c v' l'' r'' where ih: "climb d m e s'' = Some c" "at_bt t p' = BNode c v' l'' r''" "length p' \<le> length p"
        "beyond d x t p = beyond d x t p'" "p' = [] \<or> (\<exists>p''. p' = p'' @ [\<not> d])"
      using snoc.IH [OF e pb2] by blast
    have "climb d m a mysel = Some c" "beyond d x t (p @ [b]) = beyond d x t p'" "length p' \<le> length (p @ [b])"
      using c1 c2 ih(1,3,4) by simp_all
    with ih(2,5) show ?thesis by blast
  qed
qed

lemma lean_path:
  assumes bt: "bt_at m q None i False t"
  shows "at_bt t p = BNode a v l r \<Longrightarrow>
     find_value_lean d m (Some a) =
       Some (hd_node (kvs (\<not> d) (2 * bits_val x p + of_bool d) (sub_bt (at_bt t p) d) @ beyond d x t p))"
proof (induction p arbitrary: a v l r rule: length_induct)
  case (1 p)
  let ?x = "2 * bits_val x p + of_bool d" and ?sub = "sub_bt (at_bt t p) d"
  obtain par' s' where b: "bt_at m (Some a) par' (i - length p) s' (BNode a v l r)"
      "p = [] \<longrightarrow> par' = None \<and> s' = False"
      "\<forall>p' b. p = p' @ [b] \<longrightarrow> s' = b \<and> par' = root_bt (at_bt t p') \<and> par' \<noteq> None"
    by (rule bt_at_pathE [OF bt 1(2)])
  obtain n where n: "m a = Some n" "bparent n = par'" "MNBTRIE_NODESEL0 n = s'"
      "bt_at m (bchild n d) (Some a) (i - length p - 1) d ?sub" "bchild n d = root_bt ?sub"
    by (rule bt_at_nodeE [OF b(1) refl]) (use 1(2) in metis)
  have tmp: "(case bchild n d of None \<Rightarrow> Some None | Some c \<Rightarrow> find_value (\<not> d) m c) = Some (hd_node (kvs (\<not> d) ?x ?sub))"
  proof (cases "bchild n d")
    case None
    then have "?sub = BLeaf" using n(5) by (cases ?sub) auto
    then show ?thesis using None by simp
  next
    case (Some c)
    then show ?thesis using find_value_kvs [of m c "Some a" _ d ?sub "\<not> d" ?x] n(4) by simp
  qed
  show ?case
  proof (cases "kvs (\<not> d) ?x ?sub = []")
    case False
    then obtain c where "hd_node (kvs (\<not> d) ?x ?sub) = Some c" by fastforce
    with False show ?thesis using n(1) tmp by (subst find_value_lean.simps) (simp add: hd_node_append)
  next
    case none: True
    show ?thesis
    proof (cases p rule: rev_cases)
      case Nil
      then show ?thesis using n tmp none b(2) by (subst find_value_lean.simps) simp
    next
      case (snoc p' c)
      obtain e w l' r' where e: "at_bt t p' = BNode e w l' r'" "par' = Some e"
        using b(3) snoc by (cases "at_bt t p'") auto
      have sc: "s' = c" using b(3) snoc by simp
      show ?thesis
      proof (cases "c = d")
        case False
        have "find_value_lean d m (Some a) = find_value_lean d m (Some e)"
          using n tmp none e(2) sc False by (subst find_value_lean.simps) simp
        moreover have "find_value_lean d m (Some e) =
            Some (hd_node (kvs (\<not> d) (2 * bits_val x p' + of_bool d) (sub_bt (at_bt t p') d) @ beyond d x t p'))"
          using 1(1) e(1) snoc by auto
        moreover have "beyond d x t p = kvs (\<not> d) (2 * bits_val x p' + of_bool d) (sub_bt (at_bt t p') d) @ beyond d x t p'"
          using snoc False by (simp add: beyond_snoc)
        ultimately show ?thesis using none by simp
      next
        case True
        have "\<forall>p' b. p = p' @ [b] \<longrightarrow> d = b" using snoc True by simp
        from climb_path [OF bt 1(2) this, of d x]
        obtain p'' f v'' l'' r'' where f: "climb d m a d = Some f" "at_bt t p'' = BNode f v'' l'' r''" "length p'' \<le> length p"
            "beyond d x t p = beyond d x t p''" "p'' = [] \<or> (\<exists>u. p'' = u @ [\<not> d])"
          by blast
        obtain fp s'' where fb: "bt_at m (Some f) fp (i - length p'') s'' (BNode f v'' l'' r'')"
            "p'' = [] \<longrightarrow> fp = None \<and> s'' = False"
            "\<forall>p' b. p'' = p' @ [b] \<longrightarrow> s'' = b \<and> fp = root_bt (at_bt t p') \<and> fp \<noteq> None"
          by (rule bt_at_pathE [OF bt f(2)])
        obtain z where z: "m f = Some z" "bparent z = fp" using fb(1) by auto
        have step: "find_value_lean d m (Some a) = find_value_lean d m fp"
          using n tmp none e(2) sc True f(1) z by (subst find_value_lean.simps) simp
        show ?thesis
        proof (cases "p'' = []")
          case True
          then have "find_value_lean d m fp = Some None" using fb(2) by (subst find_value_lean.simps) simp
          then show ?thesis using step none f(4) True by simp
        next
          case False
          then obtain u where u: "p'' = u @ [\<not> d]" using f(5) by blast
          obtain g w' l3 r3 where g: "at_bt t u = BNode g w' l3 r3" "fp = Some g"
            using fb(3) u by (cases "at_bt t u") auto
          have "length u < length p" using f(3) u by simp
          then have "find_value_lean d m (Some g) =
              Some (hd_node (kvs (\<not> d) (2 * bits_val x u + of_bool d) (sub_bt (at_bt t u) d) @ beyond d x t u))"
            using 1(1) g(1) by blast
          then show ?thesis using step g(2) none f(4) u by (simp add: beyond_snoc)
        qed
      qed
    qed
  qed
qed

subsection \<open>The descent\<close>

fun near :: "bool \<Rightarrow> u64 \<Rightarrow> nat \<Rightarrow> nat \<Rightarrow> 'v bt \<Rightarrow> (nat \<times> addr) list" where
  "near d key n x BLeaf = []"
| "near d key 0 x (BNode a v l r) = [(x, a)]"
| "near d key (Suc n) x (BNode a v l r) =
     near d key n (2 * x + of_bool (bit key n)) (if bit key n then r else l) @
     (if bit key n = d then [] else kvs (\<not> d) (2 * x + of_bool d) (if d then r else l))"

lemma near_Suc:
  "near d key (Suc n) x t =
     near d key n (2 * x + of_bool (bit key n)) (sub_bt t (bit key n)) @
     (if bit key n = d then [] else kvs (\<not> d) (2 * x + of_bool d) (sub_bt t d))"
  by (cases t) auto

lemma partial_loop_near:
  assumes bt: "bt_at m q None i False t"
  shows "at_bt t p = BNode a v l r \<Longrightarrow> length p + n = i \<Longrightarrow>
     partial_loop d m key a = Some (hd_node (near d key n (bits_val x p) (at_bt t p) @ beyond d x t p))"
proof (induction n arbitrary: p a v l r)
  case 0
  obtain par' s' where b: "bt_at m (Some a) par' (i - length p) s' (BNode a v l r)"
    using bt_at_path [OF bt 0(1)] by blast
  then obtain nd where n: "m a = Some nd" "bidx nd = i - length p" by auto
  then have "partial_loop d m key a = Some (Some a)" using 0 by (subst partial_loop.simps) simp
  then show ?case unfolding 0(1) by (simp add: hd_node_append)
next
  case (Suc n)
  let ?b = "bit key n" and ?t = "at_bt t p"
  obtain par' s' where b: "bt_at m (Some a) par' (i - length p) s' (BNode a v l r)"
    using bt_at_path [OF bt Suc.prems(1)] by blast
  obtain nd :: "'a btnode" where nd: "m a = Some nd" "bidx nd = i - length p" "\<forall>b. bchild nd b = root_bt (sub_bt (BNode a v l r) b)"
    by (rule bt_at_nodeE [OF b refl]) blast
  have ix: "bidx nd = Suc n" using nd(2) Suc.prems(2) by simp
  have ch: "bchild nd ?b = root_bt (sub_bt ?t ?b)" unfolding Suc.prems(1) using nd(3) by blast
  have sel: "MNBTRIE_CHILDSEL nd key = ?b" using ix by (simp add: MNBTRIE_CHILDSEL_def)
  have nx: "at_bt t (p @ [?b]) = sub_bt ?t ?b" by (simp add: at_append)
  show ?case
  proof (cases "sub_bt ?t ?b")
    case (BNode c w l' r')
    have "partial_loop d m key a = partial_loop d m key c"
      using nd(1) ix sel ch BNode by (subst partial_loop.simps) simp
    also have "\<dots> = Some (hd_node (near d key n (bits_val x (p @ [?b])) (at_bt t (p @ [?b])) @ beyond d x t (p @ [?b])))"
      using Suc.IH [of "p @ [?b]" c w l' r'] nx BNode Suc.prems(2) by simp
    also have "\<dots> = Some (hd_node (near d key (Suc n) (bits_val x p) ?t @ beyond d x t p))"
      unfolding nx near_Suc beyond_snoc by simp
    finally show ?thesis .
  next
    case BLeaf
    have "partial_loop d m key a = find_value_lean d m (Some a)"
      using nd(1) ix sel ch BLeaf by (subst partial_loop.simps) simp
    also have "\<dots> = Some (hd_node (kvs (\<not> d) (2 * bits_val x p + of_bool d) (sub_bt ?t d) @ beyond d x t p))"
      by (rule lean_path [OF bt Suc.prems(1)])
    also have "\<dots> = Some (hd_node (near d key (Suc n) (bits_val x p) ?t @ beyond d x t p))"
      unfolding near_Suc BLeaf using BLeaf by (cases "?b = d") auto
    finally show ?thesis .
  qed
qed

subsection \<open>The order of the keys\<close>

text \<open>
  Values are only where keys end, at position zero; with \<open>f\<close>, a node at position zero has one.
\<close>

fun values_ok :: "bool \<Rightarrow> nat \<Rightarrow> 'v bt \<Rightarrow> bool" where
  "values_ok f i BLeaf \<longleftrightarrow> True"
| "values_ok f i (BNode a v l r) \<longleftrightarrow>
     (v \<noteq> None \<longrightarrow> i = 0) \<and> (f \<and> i = 0 \<longrightarrow> v \<noteq> None) \<and> (i = 0 \<longrightarrow> l = BLeaf \<and> r = BLeaf) \<and>
     values_ok f (i - 1) l \<and> values_ok f (i - 1) r"

lemma values_sub: "values_ok f (Suc i) t \<Longrightarrow> values_ok f i (sub_bt t b)"
  by (cases t) auto

lemma kvs_Suc:
  "values_ok f (Suc i) t \<Longrightarrow>
     kvs s x t = kvs s (2 * x + of_bool s) (sub_bt t s) @ kvs s (2 * x + of_bool (\<not> s)) (sub_bt t (\<not> s))"
  by (cases t) auto

lemma half_range:
  fixes y x k P :: nat
  assumes "(2 * x + of_bool b) * P \<le> k" "k < (2 * x + of_bool b + 1) * P"
  shows "x * (2 * P) \<le> k" "k < (x + 1) * (2 * P)"
  using assms by (cases b; simp add: algebra_simps)+

lemma kvs_range: "values_ok f i t \<Longrightarrow> e \<in> set (kvs s x t) \<Longrightarrow> x * 2 ^ i \<le> fst e \<and> fst e < (x + 1) * 2 ^ i"
proof (induction i arbitrary: t x)
  case 0
  then show ?case by (cases t) (auto split: if_splits)
next
  case (Suc i)
  from Suc.prems(2) have "e \<in> set (kvs s (2 * x + of_bool s) (sub_bt t s)) \<or> e \<in> set (kvs s (2 * x + of_bool (\<not> s)) (sub_bt t (\<not> s)))"
    unfolding kvs_Suc [OF Suc.prems(1)] set_append by (rule UnE) (blast+)
  then have "\<exists>b. e \<in> set (kvs s (2 * x + of_bool b) (sub_bt t b))" by blast
  then obtain b where "e \<in> set (kvs s (2 * x + of_bool b) (sub_bt t b))" by blast
  from Suc.IH [OF values_sub [OF Suc.prems(1)] this]
  show ?case using half_range [of x b "2 ^ i" "fst e"] by simp
qed

abbreviation before :: "bool \<Rightarrow> nat \<Rightarrow> nat \<Rightarrow> bool" where
  "before s i j \<equiv> (if s then j < i else i < j)"

lemma halves_before:
  fixes j k :: nat
  assumes "(2 * x + of_bool s) * P \<le> j" "j < (2 * x + of_bool s + 1) * P"
    "(2 * x + of_bool (\<not> s)) * P \<le> k" "k < (2 * x + of_bool (\<not> s) + 1) * P"
  shows "before s j k"
  using assms by (cases s; simp add: algebra_simps)

lemma kvs_sorted: "values_ok f i t \<Longrightarrow> sorted_wrt (\<lambda>e e'. before s (fst e) (fst e')) (kvs s x t)"
proof (induction i arbitrary: t x)
  case 0
  then show ?case by (cases t) auto
next
  case (Suc i)
  have v: "values_ok f i (sub_bt t b)" for b by (rule values_sub [OF Suc.prems])
  have "before s (fst e) (fst e')"
    if "e \<in> set (kvs s (2 * x + of_bool s) (sub_bt t s))" "e' \<in> set (kvs s (2 * x + of_bool (\<not> s)) (sub_bt t (\<not> s)))" for e e'
    using kvs_range [OF v that(1)] kvs_range [OF v that(2)] halves_before by blast
  then show ?case using Suc.IH [OF v] unfolding kvs_Suc [OF Suc.prems] sorted_wrt_append by blast
qed

text \<open>The direction's test.\<close>

abbreviation reach :: "bool \<Rightarrow> nat \<Rightarrow> nat \<Rightarrow> bool" where
  "reach d i j \<equiv> (if d then i \<le> j else j \<le> i)"

lemma near_filter:
  "values_ok True n t \<Longrightarrow> unat key div 2 ^ n = x \<Longrightarrow>
     near d key n x t = filter (\<lambda>e. reach d (unat key) (fst e)) (kvs (\<not> d) x t)"
proof (induction n arbitrary: t x)
  case 0
  then show ?case by (cases t) auto
next
  case (Suc n)
  let ?b = "bit key n" and ?P = "\<lambda>e :: nat \<times> addr. reach d (unat key) (fst e)" and ?k = "unat key"
  let ?kvs = "\<lambda>b. kvs (\<not> d) (2 * x + of_bool b) (sub_bt t b)"
  have v: "values_ok True n (sub_bt t b)" for b by (rule values_sub [OF Suc.prems(1)])
  have half: "?k div 2 ^ n div 2 = x" using Suc.prems(2) by (metis div_mult2_eq mult.commute power_Suc)
  have "odd (?k div 2 ^ n) = ?b" unfolding bit_iff_odd [symmetric] by (simp add: bit_unsigned_iff)
  then have parity: "(?k div 2 ^ n) mod 2 = of_bool ?b" unfolding mod_2_eq_odd by simp
  have kb: "?k div 2 ^ n = 2 * x + of_bool ?b"
    unfolding half [symmetric] parity [symmetric] by (simp only: mult_div_mod_eq)
  have kr: "(2 * x + of_bool ?b) * 2 ^ n \<le> ?k" "?k < (2 * x + of_bool ?b + 1) * 2 ^ n"
    unfolding kb [symmetric] by (simp_all add: div_times_less_eq_dividend dividend_less_div_times)
  have ih: "near d key n (2 * x + of_bool ?b) (sub_bt t ?b) = filter ?P (?kvs ?b)"
    by (rule Suc.IH [OF v kb])
  have rng: "(2 * x + of_bool b) * 2 ^ n \<le> fst e \<and> fst e < (2 * x + of_bool b + 1) * 2 ^ n" if "e \<in> set (?kvs b)" for b e
    by (rule kvs_range [OF v that])
  have kv: "kvs (\<not> d) x t = ?kvs (\<not> d) @ ?kvs d" using kvs_Suc [OF Suc.prems(1), of "\<not> d" x] by simp
  show ?case
  proof (cases "?b = d")
    case True
    have "\<not> ?P e" if "e \<in> set (?kvs (\<not> d))" for e
      using halves_before [of x d "2 ^ n" ?k "fst e"] kr rng [OF that] unfolding True by (cases d) auto
    then have "filter ?P (?kvs (\<not> d)) = []" by (simp add: filter_empty_conv)
    then show ?thesis using ih True unfolding near_Suc kv by simp
  next
    case False
    then have nb: "?b = (\<not> d)" by blast
    have "?P e" if "e \<in> set (?kvs d)" for e
      using halves_before [of x "\<not> d" "2 ^ n" ?k "fst e"] kr rng [OF that] unfolding nb by (cases d) auto
    then have "filter ?P (?kvs d) = ?kvs d" by (simp add: filter_id_conv)
    then show ?thesis using ih nb unfolding near_Suc kv by simp
  qed
qed

text \<open>The entries are the nodes with a value.\<close>

lemma kvs_look: "(k, a) \<in> set (kvs s x t) \<longleftrightarrow> (\<exists>p v. look t p = Some (a, Some v) \<and> k = bits_val x p)"
proof (induction t arbitrary: x)
  case (BNode b w l r)
  let ?t = "BNode b w l r"
  have "(\<exists>p v. look ?t p = Some (a, Some v) \<and> k = bits_val x p) \<longleftrightarrow>
      (\<exists>v. w = Some v \<and> b = a \<and> k = x) \<or>
      (\<exists>p v. look l p = Some (a, Some v) \<and> k = bits_val (2 * x) p) \<or>
      (\<exists>p v. look r p = Some (a, Some v) \<and> k = bits_val (2 * x + 1) p)" (is "?L \<longleftrightarrow> ?R")
  proof
    assume ?L
    then obtain p v where p: "look ?t p = Some (a, Some v)" "k = bits_val x p" by blast
    show ?R
    proof (cases p)
      case Nil
      then show ?thesis using p by simp
    next
      case (Cons c p')
      then show ?thesis using p by (cases c) auto
    qed
  next
    assume ?R
    then show ?L
    proof (elim disjE exE conjE)
      fix v assume "w = Some v" "b = a" "k = x"
      then show ?L by (intro exI [of _ "[]"]) simp
    next
      fix p v assume "look l p = Some (a, Some v)" "k = bits_val (2 * x) p"
      then show ?L by (intro exI [of _ "False # p"]) simp
    next
      fix p v assume "look r p = Some (a, Some v)" "k = bits_val (2 * x + 1) p"
      then show ?L by (intro exI [of _ "True # p"]) simp
    qed
  qed
  moreover have "(k, a) \<in> set (kvs s x ?t) \<longleftrightarrow> (\<exists>v. w = Some v \<and> b = a \<and> k = x) \<or>
      (k, a) \<in> set (kvs s (2 * x) l) \<or> (k, a) \<in> set (kvs s (2 * x + 1) r)"
    by (cases s; cases w) (auto simp del: One_nat_def)
  ultimately show ?case unfolding BNode.IH by blast
qed simp

lemma values_length: "values_ok f i t \<Longrightarrow> look t p = Some (a, Some v) \<Longrightarrow> length p = i"
proof (induction p arbitrary: t i)
  case Nil
  then show ?case by (cases t) auto
next
  case (Cons b p)
  then obtain c w l r where t: "t = BNode c w l r" by (cases t) auto
  have lk: "look (sub_bt t b) p = Some (a, Some v)" using Cons.prems(2) unfolding t by simp
  have "i \<noteq> 0"
  proof
    assume "i = 0"
    then have "sub_bt t b = BLeaf" using Cons.prems(1) unfolding t by simp
    with lk show False by simp
  qed
  then obtain j where i: "i = Suc j" by (cases i) simp_all
  have "length p = j" by (rule Cons.IH [OF values_sub [OF Cons.prems(1) [unfolded i]] lk])
  then show ?case using i by simp
qed

subsection \<open>The nearest key\<close>

text \<open>Every node that was added for a key has a value, the root of the key 1 excepted.\<close>

definition complete :: "'v bt list \<Rightarrow> bool" where
  "complete ts \<longleftrightarrow> (\<forall>i < TREE_DEPTH. values_ok (0 < i) i (ts ! i))"

definition stored :: "'v bt list \<Rightarrow> u64 \<Rightarrow> addr \<Rightarrow> bool" where
  "stored ts k a \<longleftrightarrow> (\<exists>v. look_key ts k = Some (a, Some v))"

abbreviation in_reach :: "bool \<Rightarrow> u64 \<Rightarrow> u64 \<Rightarrow> bool" where
  "in_reach d key k \<equiv> (if d then key \<le> k else k \<le> key)"

lemma kvs_stored:
  assumes c: "complete ts" and i: "i < TREE_DEPTH"
  shows "(j, a) \<in> set (kvs s 1 (ts ! i)) \<longleftrightarrow> (\<exists>k. j = unat k \<and> stored ts k a \<and> flsl k = Suc i)" (is "?L \<longleftrightarrow> ?R")
proof
  assume ?L
  then obtain p v where p: "look (ts ! i) p = Some (a, Some v)" "j = bits_val 1 p" unfolding kvs_look by blast
  have "values_ok (0 < i) i (ts ! i)" using c i by (simp add: complete_def)
  then have l: "length p = i" by (rule values_length [OF _ p(1)])
  let ?k = "word_of_nat j :: u64"
  have "flsl ?k = Suc i \<and> bt_path ?k i = p \<and> unat ?k = j"
    using path_of_key [of p] l i p(2) by (simp add: TREE_DEPTH_def)
  moreover from this have "?k \<noteq> 0" using flsl_zero by (metis nat.distinct(1))
  ultimately have "stored ts ?k a" using p(1) by (auto simp: stored_def look_key_def)
  then show ?R using \<open>flsl ?k = Suc i \<and> bt_path ?k i = p \<and> unat ?k = j\<close> by metis
next
  assume ?R
  then obtain k v where k: "j = unat k" "look_key ts k = Some (a, Some v)" "flsl k = Suc i"
    by (auto simp: stored_def)
  then have "look (ts ! i) (bt_path k i) = Some (a, Some v)" by (auto simp: look_key_def split: if_splits)
  then show ?L unfolding kvs_look k(1) using key_val [OF k(3)] by metis
qed

lemma stored_tree: "stored ts k a \<Longrightarrow> \<exists>i < TREE_DEPTH. flsl k = Suc i"
proof -
  assume "stored ts k a"
  then have "k \<noteq> 0" by (auto simp: stored_def look_key_def)
  from flsl_bounds [OF this] flsl_index [OF this] show ?thesis by (intro exI [of _ "flsl k - 1"]) simp
qed

text \<open>The roots the search goes on with.\<close>

definition rest_roots :: "bool \<Rightarrow> nat \<Rightarrow> nat list" where
  "rest_roots d i = (if d then [i + 1..<TREE_DEPTH] else rev [0..<i])"

definition candidates :: "bool \<Rightarrow> u64 \<Rightarrow> 'v bt list \<Rightarrow> (nat \<times> addr) list" where
  "candidates d key ts =
     (let i = flsl key - 1
      in filter (\<lambda>e. reach d (unat key) (fst e)) (kvs (\<not> d) 1 (ts ! i)) @
         concat (map (\<lambda>j. kvs (\<not> d) 1 (ts ! j)) (rest_roots d i)))"

lemma first_root_kvs:
  assumes "btrie_rep tr m ts" "set is \<subseteq> {..<TREE_DEPTH}"
  shows "first_root (find_value s) tr m is = Some (hd_node (concat (map (\<lambda>j. kvs s 1 (ts ! j)) is)))"
  using assms(2)
proof (induction "is")
  case (Cons i "is")
  then have "find_value s m (root_at tr i) = Some (hd_node (kvs s 1 (ts ! i)))"
    using find_value_kvs [OF btrie_repD(2) [OF assms(1)]] by simp
  then show ?case using Cons by (auto simp: hd_node_append split: option.splits)
qed simp

lemma partial_closest:
  assumes rep: "btrie_rep tr m ts" and c: "complete ts" and key: "key \<noteq> 0"
  shows "find_closest_partial d m (root_at tr (flsl key - 1)) key =
    Some (hd_node (filter (\<lambda>e. reach d (unat key) (fst e)) (kvs (\<not> d) 1 (ts ! (flsl key - 1)))))"
proof -
  let ?i = "flsl key - 1"
  let ?a = "root_at tr ?i"
  have i: "?i < TREE_DEPTH" by (rule flsl_index [OF key])
  have bt: "bt_at m (Some ?a) None ?i False (ts ! ?i)" by (rule btrie_repD(2) [OF rep i])
  then obtain v l r where t: "ts ! ?i = BNode ?a v l r" by (cases "ts ! ?i") auto
  obtain n :: "'a btnode" where n: "m ?a = Some n" "bvalue n = v" "bidx n = ?i"
    by (rule bt_at_nodeE [OF bt t]) blast
  have vo: "values_ok (0 < ?i) ?i (ts ! ?i)" using c i unfolding complete_def by blast
  have b: "2 ^ ?i \<le> unat key" "unat key < 2 ^ Suc ?i" using flsl_bounds [OF key] by auto
  show ?thesis
  proof (cases "?i = 0")
    case True
    then have "unat key = 1" using b by simp
    moreover have "l = BLeaf" "r = BLeaf" using vo True t by simp_all
    ultimately show ?thesis using n t True unfolding find_closest_partial_def by (cases v) auto
  next
    case False
    have x: "unat key div 2 ^ ?i = 1" using b by (intro div_nat_eqI) simp_all
    have "near d key ?i 1 (ts ! ?i) = filter (\<lambda>e. reach d (unat key) (fst e)) (kvs (\<not> d) 1 (ts ! ?i))"
      by (rule near_filter [OF _ x]) (use vo False in simp)
    moreover have "partial_loop d m key ?a = Some (hd_node (near d key ?i (bits_val 1 []) (at_bt (ts ! ?i) []) @ beyond d 1 (ts ! ?i) []))"
      by (rule partial_loop_near [OF bt, of "[]" ?a v l r]) (simp_all only: at_bt.simps t list.size add_0)
    ultimately show ?thesis using n False unfolding find_closest_partial_def by simp
  qed
qed

lemma find_closest_candidates:
  assumes rep: "btrie_rep tr m ts" and c: "complete ts" and key: "key \<noteq> 0"
  shows "btrie_find_closest tr m key direction = Some (hd_node (candidates (direction \<noteq> 0) key ts))"
proof -
  have f: "flsl key \<noteq> 0" using key by simp
  have i: "flsl key - 1 < TREE_DEPTH" by (rule flsl_index [OF key])
  have r: "set (rest_roots d (flsl key - 1)) \<subseteq> {..<TREE_DEPTH}" for d using i by (auto simp: rest_roots_def)
  note first_root_kvs [OF rep r, of "\<not> d" d for d]
  note this [of True, simplified] this [of False, simplified] 
  with partial_closest [OF rep c key] f show ?thesis
    unfolding btrie_find_closest_def candidates_def find_value_traverse_def [abs_def] find_value_reverse_def [abs_def]
      find_closest_partial_forw_def find_closest_partial_back_def Let_def rest_roots_def
    by (auto simp: hd_node_append split: option.splits)
qed

lemma flsl_less: "flsl k < flsl k' \<Longrightarrow> k < k'" for k k' :: u64
proof -
  assume f: "flsl k < flsl k'"
  then have "flsl k' \<noteq> 0" by linarith
  then have "k' \<noteq> 0" unfolding flsl_zero .
  from flsl_bounds [OF this] have b: "2 ^ (flsl k' - 1) \<le> unat k'" by simp
  have "unat k < 2 ^ flsl k"
  proof (cases "k = 0")
    case False
    then show ?thesis using flsl_bounds [OF False] by simp
  qed simp
  also have "(2::nat) ^ flsl k \<le> 2 ^ (flsl k' - 1)" using f by (intro power_increasing) simp_all
  finally show ?thesis using b by (simp add: word_less_nat_alt)
qed

lemma candidates_stored:
  assumes c: "complete ts" and key: "key \<noteq> 0"
  shows "(j, a) \<in> set (candidates d key ts) \<longleftrightarrow> (\<exists>k. j = unat k \<and> stored ts k a \<and> in_reach d key k)" (is "?L \<longleftrightarrow> ?R")
proof -
  let ?i = "flsl key - 1"
  have i: "?i < TREE_DEPTH" by (rule flsl_index [OF key])
  have f: "flsl key = Suc ?i" using key flsl_zero [of key] by linarith
  have rr: "j' < TREE_DEPTH \<and> (if d then ?i < j' else j' < ?i)" if "j' \<in> set (rest_roots d ?i)" for j'
    using that i by (auto simp: rest_roots_def split: if_splits)
  have L: "?L \<longleftrightarrow> reach d (unat key) j \<and> (j, a) \<in> set (kvs (\<not> d) 1 (ts ! ?i)) \<or>
      (\<exists>j' \<in> set (rest_roots d ?i). (j, a) \<in> set (kvs (\<not> d) 1 (ts ! j')))"
    by (auto simp: candidates_def Let_def)
  show ?thesis
  proof
    assume ?L
    then consider "reach d (unat key) j" "(j, a) \<in> set (kvs (\<not> d) 1 (ts ! ?i))"
      | j' where "j' \<in> set (rest_roots d ?i)" "(j, a) \<in> set (kvs (\<not> d) 1 (ts ! j'))" unfolding L by blast
    then show ?R
    proof cases
      case 1
      obtain k where k: "j = unat k" "stored ts k a" using 1(2) unfolding kvs_stored [OF c i] by blast
      then have "in_reach d key k" using 1(1) by (simp add: word_le_nat_alt split: if_splits)
      with k show ?R by blast
    next
      case 2
      obtain k where k: "j = unat k" "stored ts k a" "flsl k = Suc j'"
        using 2(2) rr [OF 2(1)] kvs_stored [OF c] by blast
      have "in_reach d key k" using rr [OF 2(1)] flsl_less [of key k] flsl_less [of k key] f k(3) by (auto simp: less_imp_le)
      with k show ?R by blast
    qed
  next
    assume ?R
    then obtain k where k: "j = unat k" "stored ts k a" "in_reach d key k" by blast
    obtain i' where i': "i' < TREE_DEPTH" "flsl k = Suc i'" using stored_tree [OF k(2)] by blast
    have m: "(j, a) \<in> set (kvs (\<not> d) 1 (ts ! i'))" unfolding kvs_stored [OF c i'(1)] using k(1,2) i'(2) by blast
    show ?L
    proof (cases "i' = ?i")
      case True
      have "reach d (unat key) j" using k(1,3) by (simp add: word_le_nat_alt split: if_splits)
      then show ?thesis unfolding L using m True by blast
    next
      case False
      have "\<not> flsl k < flsl key" if d using flsl_less [of k key] k(3) that by auto
      moreover have "\<not> flsl key < flsl k" if "\<not> d" using flsl_less [of key k] k(3) that by auto
      ultimately have "if d then ?i < i' else i' < ?i" using False i'(2) f by (cases d) simp_all
      then have "i' \<in> set (rest_roots d ?i)" using i'(1) by (auto simp: rest_roots_def split: if_splits)
      then show ?thesis unfolding L using m by blast
    qed
  qed
qed

lemma roots_sorted:
  assumes c: "complete ts"
  shows "sorted_wrt (before (\<not> d)) is \<Longrightarrow> set is \<subseteq> {..<TREE_DEPTH} \<Longrightarrow>
    sorted_wrt (\<lambda>e e'. before (\<not> d) (fst e) (fst e')) (concat (map (\<lambda>j. kvs (\<not> d) 1 (ts ! j)) is))"
proof (induction "is")
  case (Cons i "is")
  have own: "sorted_wrt (\<lambda>e e'. before (\<not> d) (fst e) (fst e')) (kvs (\<not> d) 1 (ts ! i))"
    by (rule kvs_sorted [of "0 < i" i]) (use c Cons.prems(2) in \<open>simp add: complete_def\<close>)
  have cross: "before (\<not> d) (fst e) (fst e')"
    if e: "e \<in> set (kvs (\<not> d) 1 (ts ! i))" "j \<in> set is" "e' \<in> set (kvs (\<not> d) 1 (ts ! j))" for e e' j
  proof -
    have ij: "i < TREE_DEPTH" "j < TREE_DEPTH" "before (\<not> d) i j" using Cons.prems e(2) by auto
    have "(fst e, snd e) \<in> set (kvs (\<not> d) 1 (ts ! i))" "(fst e', snd e') \<in> set (kvs (\<not> d) 1 (ts ! j))" using e by simp_all
    then obtain k k' where "fst e = unat k" "flsl k = Suc i" "fst e' = unat k'" "flsl k' = Suc j"
      unfolding kvs_stored [OF c ij(1)] kvs_stored [OF c ij(2)] by blast
    then show ?thesis using flsl_less [of k k'] flsl_less [of k' k] ij(3) by (auto simp: word_less_nat_alt split: if_splits)
  qed
  let ?rest = "concat (map (\<lambda>j. kvs (\<not> d) 1 (ts ! j)) is)"
  have "sorted_wrt (\<lambda>e e'. before (\<not> d) (fst e) (fst e')) ?rest" by (rule Cons.IH) (use Cons.prems in auto)
  moreover have "\<forall>e \<in> set (kvs (\<not> d) 1 (ts ! i)). \<forall>e' \<in> set ?rest. before (\<not> d) (fst e) (fst e')"
  proof (intro ballI)
    fix e e' assume e: "e \<in> set (kvs (\<not> d) 1 (ts ! i))" and e': "e' \<in> set ?rest"
    from e' obtain j where "j \<in> set is" "e' \<in> set (kvs (\<not> d) 1 (ts ! j))" by auto
    then show "before (\<not> d) (fst e) (fst e')" by (rule cross [OF e])
  qed
  ultimately show ?case using own by (simp only: list.map concat.simps sorted_wrt_append)
qed simp

lemma candidates_sorted:
  assumes c: "complete ts" and key: "key \<noteq> 0"
  shows "sorted_wrt (\<lambda>e e'. before (\<not> d) (fst e) (fst e')) (candidates d key ts)"
proof -
  let ?i = "flsl key - 1" and ?R = "\<lambda>e e' :: nat \<times> addr. before (\<not> d) (fst e) (fst e')"
  have i: "?i < TREE_DEPTH" by (rule flsl_index [OF key])
  have r: "sorted_wrt (before (\<not> d)) (?i # rest_roots d ?i)"
    by (cases d) (auto simp: rest_roots_def sorted_wrt_rev)
  have "set (?i # rest_roots d ?i) \<subseteq> {..<TREE_DEPTH}" using i by (auto simp: rest_roots_def)
  from roots_sorted [OF c r this]
  have "sorted_wrt ?R (kvs (\<not> d) 1 (ts ! ?i) @ concat (map (\<lambda>j. kvs (\<not> d) 1 (ts ! j)) (rest_roots d ?i)))" by simp
  note w = this [unfolded sorted_wrt_append]
  have "sorted_wrt ?R (filter (\<lambda>e. reach d (unat key) (fst e)) (kvs (\<not> d) 1 (ts ! ?i)))"
    by (rule sorted_wrt_filter) (use w in blast)
  then show ?thesis using w unfolding candidates_def Let_def sorted_wrt_append
    by (meson filter_is_subset subsetD)
qed

text \<open>
  C10: In a trie in which every node that was added holds a value, and for a key other than 0,
  \<^verbatim>\<open>btrie_find_closest\<close> finds the nearest key with a value: it returns NULL only if no such key lies in
  the direction asked for, the key itself included, and otherwise the node of the one that is
  nearest of all of them. (For key 0 the code returns NULL whatever the trie holds, and it does not test
  the node at the end of the key's path for a value.)
\<close>

theorem btrie_find_closest_nearest:
  assumes rep: "btrie_rep tr m ts" and c: "complete ts" and key: "key \<noteq> 0"
  shows "\<exists>r. btrie_find_closest tr m key direction = Some r \<and>
    (case r of
       None \<Rightarrow> \<forall>k a. stored ts k a \<longrightarrow> \<not> in_reach (direction \<noteq> 0) key k
     | Some a \<Rightarrow> \<exists>k. stored ts k a \<and> in_reach (direction \<noteq> 0) key k \<and>
         (\<forall>k' a'. stored ts k' a' \<and> in_reach (direction \<noteq> 0) key k' \<longrightarrow> in_reach (direction \<noteq> 0) k k'))"
proof -
  define d where "d \<longleftrightarrow> direction \<noteq> 0"
  note mem = candidates_stored [OF c key, of _ _ d] and srt = candidates_sorted [OF c key, of d]
  have cl: "btrie_find_closest tr m key direction = Some (hd_node (candidates d key ts))"
    unfolding d_def by (rule find_closest_candidates [OF rep c key])
  show ?thesis
  proof (cases "candidates d key ts")
    case Nil
    then have "\<forall>k a. stored ts k a \<longrightarrow> \<not> in_reach d key k" using mem by auto
    with cl Nil show ?thesis unfolding d_def by simp
  next
    case (Cons e es)
    obtain j a where e: "e = (j, a)" by (cases e)
    then obtain k where k: "j = unat k" "stored ts k a" "in_reach d key k" using mem [of j a] Cons by auto
    have "in_reach d k k'" if s: "stored ts k' a'" "in_reach d key k'" for k' a'
    proof -
      have "(unat k', a') \<in> set (e # es)" using mem [of "unat k'" a'] s Cons by auto
      then have "unat k' = j \<or> before (\<not> d) j (unat k')" using srt unfolding Cons e by auto
      then show ?thesis using k(1) by (auto simp: word_le_nat_alt split: if_splits)
    qed
    with cl Cons e k(2,3) show ?thesis unfolding d_def by auto
  qed
qed

text \<open>A trie with the one key 5, for the witness: the root 2, a node for the bit 0, a node for the bit 1.\<close>

definition five_tree :: "nat bt" where
  "five_tree = BNode 80 None (BNode 5000 None BLeaf (BNode 5001 (Some 7) BLeaf BLeaf)) BLeaf"

definition five_store :: "nat btstore" where
  "five_store = (snd demo_trie)
     (80 \<mapsto> \<lparr>bparent = None, bchild = (\<lambda>s. if s then None else Some 5000), bvalue = None, bdigit = 0, bidx = 2\<rparr>,
      5000 \<mapsto> \<lparr>bparent = Some 80, bchild = (\<lambda>s. if s then Some 5001 else None), bvalue = None,
               bdigit = digit_of 0 False, bidx = 1\<rparr>,
      5001 \<mapsto> \<lparr>bparent = Some 5000, bchild = (\<lambda>_. None), bvalue = Some 7, bdigit = digit_of 1 True, bidx = 0\<rparr>)"

definition five_trie :: btrie where
  "five_trie = \<lparr>tbase = 0, volume = 2, nvals = 1\<rparr>"

lemma five_rep: "btrie_rep five_trie five_store ((empty_trees (fst demo_trie))[2 := five_tree])"
proof (rule btrie_rep_update [OF demo_trie_rep])
  have r: "snd demo_trie x = None" if "\<forall>i < TREE_DEPTH. x \<noteq> 40 * i" for x
    using that unfolding demo_trie_def btrie_init_def Let_def snd_conv init_fold by (auto simp: root_at_def)
  have old: "empty_trees (fst demo_trie) ! 2 = BNode 80 None BLeaf BLeaf"
    by (simp add: empty_trees_def TREE_DEPTH_def demo_trie_def btrie_init_def Let_def root_at_def)
  show "bt_at five_store (Some (root_at (fst demo_trie) 2)) None 2 False five_tree"
    by (simp add: five_tree_def five_store_def demo_trie_def btrie_init_def Let_def root_at_def MNBTRIE_NODESEL0_def digit_of_def)
  show "five_store x = snd demo_trie x" if "x \<notin> set (baddrs five_tree)" for x
    using that by (simp add: five_tree_def five_store_def)
  show "snd demo_trie x = None" if "x \<in> set (baddrs five_tree)" "x \<notin> set (baddrs (empty_trees (fst demo_trie) ! 2))" for x
    using that r [of x] unfolding old by (auto simp: five_tree_def TREE_DEPTH_def)
  show "finite (dom five_store)" using btrie_repD(6) [OF demo_trie_rep] by (simp add: five_store_def)
  show "distinct (baddrs five_tree)" by (simp add: five_tree_def)
  show "tbase five_trie = tbase (fst demo_trie)" "volume five_trie < 2 ^ 64"
    by (simp_all add: five_trie_def demo_trie_def btrie_init_def Let_def)
  show "volume five_trie + length (baddrs (empty_trees (fst demo_trie) ! 2)) = volume (fst demo_trie) + length (baddrs five_tree)"
    unfolding old by (simp add: five_trie_def demo_trie_def btrie_init_def Let_def five_tree_def)
qed (simp add: TREE_DEPTH_def)

lemma five_complete: "complete ((empty_trees (fst demo_trie))[2 := five_tree])"
proof -
  have len: "length (empty_trees (fst demo_trie) :: nat bt list) = TREE_DEPTH" by (simp add: empty_trees_def)
  have "values_ok (0 < i) i ((empty_trees (fst demo_trie))[2 := five_tree] ! i)" if i: "i < TREE_DEPTH" for i
  proof (cases "i = 2")
    case True
    have "(empty_trees (fst demo_trie))[2 := five_tree] ! i = five_tree"
      using len i unfolding True by (intro nth_list_update_eq) simp
    then show ?thesis unfolding True by (simp add: five_tree_def)
  next
    case False
    then have "(empty_trees (fst demo_trie))[2 := five_tree] ! i = BNode (root_at (fst demo_trie) i) None BLeaf BLeaf"
      using i by (simp add: empty_trees_def)
    then show ?thesis by (cases i) simp_all
  qed
  then show ?thesis by (simp add: complete_def)
qed

theorem btrie_find_closest_nearest_witness:
  "\<exists>r. btrie_find_closest five_trie five_store 9 0 = Some r \<and>
    (case r of
       None \<Rightarrow> \<forall>k a. stored ((empty_trees (fst demo_trie))[2 := five_tree]) k a \<longrightarrow> \<not> in_reach (0 \<noteq> (0::int)) 9 k
     | Some a \<Rightarrow> \<exists>k. stored ((empty_trees (fst demo_trie))[2 := five_tree]) k a \<and> in_reach (0 \<noteq> (0::int)) 9 k \<and>
         (\<forall>k' a'. stored ((empty_trees (fst demo_trie))[2 := five_tree]) k' a' \<and> in_reach (0 \<noteq> (0::int)) 9 k' \<longrightarrow>
            in_reach (0 \<noteq> (0::int)) k k'))"
  by (rule btrie_find_closest_nearest [OF five_rep five_complete]) simp

end
