(* ===== verification/Mn_Rbt.thy ===== *)
theory Mn_Rbt
  imports Prelude_C Queue_Spec "HOL-Library.Tree"
begin

text \<open>
  \<^verbatim>\<open>src/src/rbt.c\<close>: the red-black tree of the client's nodes, which are chained in the order of their
  keys as well. The nodes live in a store (a map from addresses); following a pointer that is NULL or
  has no node is a fault, as is a failed assertion. The two rotations are mirror images: the model has
  one, with the side of the child that goes up. The functions that print the tree are left out.
\<close>

subsection \<open>State\<close>

record 'd rbnode =
  rparent :: "addr option"
  rleft :: "addr option"
  rright :: "addr option"
  rprev :: "addr option"
  rnext :: "addr option"
  rred :: bool
  rkey :: u64
  rdata :: "'d option"

record mnrbt =
  rroot :: "addr option"
  rhead :: "addr option"
  rtail :: "addr option"
  rnelem :: nat

type_synonym 'd rbstore = "'d rbnode mem"
type_synonym 'd rbstate = "mnrbt \<times> 'd rbstore"

definition rbt_node_init :: "'d rbstore \<Rightarrow> addr \<Rightarrow> u64 \<Rightarrow> 'd option \<Rightarrow> 'd rbstore" where
  "rbt_node_init m node key dat =
     m(node \<mapsto> \<lparr>rparent = None, rleft = None, rright = None, rprev = None, rnext = None, rred = False,
               rkey = key, rdata = dat\<rparr>)"

definition rbt_init :: mnrbt where
  "rbt_init = \<lparr>rroot = None, rhead = None, rtail = None, rnelem = 0\<rparr>"

definition upd_rb :: "'d rbstore \<Rightarrow> addr \<Rightarrow> ('d rbnode \<Rightarrow> 'd rbnode) \<Rightarrow> 'd rbstore option" where
  "upd_rb m a f = map_option (\<lambda>n. m(a \<mapsto> f n)) (m a)"

text \<open>Writing through a pointer, or not at all when it is NULL.\<close>

definition upd_opt :: "'d rbstore \<Rightarrow> addr option \<Rightarrow> ('d rbnode \<Rightarrow> 'd rbnode) \<Rightarrow> 'd rbstore option" where
  "upd_opt m q f = (case q of None \<Rightarrow> Some m | Some a \<Rightarrow> upd_rb m a f)"

text \<open>The child on a side, true is right.\<close>

definition kid :: "bool \<Rightarrow> 'd rbnode \<Rightarrow> addr option" where
  "kid s n = (if s then rright n else rleft n)"

definition set_kid :: "bool \<Rightarrow> addr option \<Rightarrow> 'd rbnode \<Rightarrow> 'd rbnode" where
  "set_kid s q n = (if s then n\<lparr>rright := q\<rparr> else n\<lparr>rleft := q\<rparr>)"

definition RBT_ISRED :: "'d rbstore \<Rightarrow> addr option \<Rightarrow> bool option" where
  "RBT_ISRED m q = (case q of None \<Rightarrow> Some False | Some a \<Rightarrow> map_option rred (m a))"

definition RBT_SET :: "bool \<Rightarrow> 'd rbstore \<Rightarrow> addr \<Rightarrow> 'd rbstore option" where
  "RBT_SET red m a = upd_rb m a (rred_update (\<lambda>_. red))"

definition RBT_SETBLACK :: "'d rbstore \<Rightarrow> addr \<Rightarrow> 'd rbstore option" where
  "RBT_SETBLACK m a = RBT_SET False m a"

definition RBT_SETRED :: "'d rbstore \<Rightarrow> addr \<Rightarrow> 'd rbstore option" where
  "RBT_SETRED m a = RBT_SET True m a"

definition RBT_SETCOLOR :: "'d rbstore \<Rightarrow> addr \<Rightarrow> addr option \<Rightarrow> 'd rbstore option" where
  "RBT_SETCOLOR m a q = do { r \<leftarrow> RBT_ISRED m q; if r then RBT_SETRED m a else RBT_SETBLACK m a }"

definition inc_nelem :: "mnrbt \<Rightarrow> mnrbt" where
  "inc_nelem rbt = rbt\<lparr>rnelem := SZ (rnelem rbt + 1)\<rparr>"

subsection \<open>Lookup\<close>

partial_function (option) find_loop :: "'d rbstore \<Rightarrow> u64 \<Rightarrow> addr option \<Rightarrow> addr option option" where
  "find_loop m key tmp =
     (case tmp of
        None \<Rightarrow> Some None
      | Some a \<Rightarrow>
          do { n \<leftarrow> m a;
               if key = rkey n then Some (Some a)
               else if key < rkey n then find_loop m key (rleft n)
               else find_loop m key (rright n) })"

definition rbt_find :: "'d rbstate \<Rightarrow> u64 \<Rightarrow> addr option option" where
  "rbt_find s key = find_loop (snd s) key (rroot (fst s))"

subsection \<open>Insertion\<close>

text \<open>
  Hanging the target on a side of the source, and chaining it before (left) or behind (right) it.
\<close>

definition attach_left :: "'d rbstate \<Rightarrow> addr \<Rightarrow> addr \<Rightarrow> 'd rbstate option" where
  "attach_left s source target =
     do { m1 \<leftarrow> upd_rb (snd s) source (rleft_update (\<lambda>_. Some target));
          m2 \<leftarrow> RBT_SETRED m1 target;
          let rbt1 = inc_nelem (fst s);
          m3 \<leftarrow> upd_rb m2 target (rparent_update (\<lambda>_. Some source));
          n \<leftarrow> m3 source;
          m4 \<leftarrow> upd_rb m3 target (rprev_update (\<lambda>_. rprev n));
          (rbt2, m5) \<leftarrow>
            (case rprev n of
               None \<Rightarrow> Some (rbt1\<lparr>rhead := Some target\<rparr>, m4)
             | Some p \<Rightarrow> do { m5 \<leftarrow> upd_rb m4 p (rnext_update (\<lambda>_. Some target)); Some (rbt1, m5) });
          m6 \<leftarrow> upd_rb m5 target (rnext_update (\<lambda>_. Some source));
          m7 \<leftarrow> upd_rb m6 source (rprev_update (\<lambda>_. Some target));
          Some (rbt2, m7) }"

definition attach_right :: "'d rbstate \<Rightarrow> addr \<Rightarrow> addr \<Rightarrow> 'd rbstate option" where
  "attach_right s source target =
     do { m1 \<leftarrow> upd_rb (snd s) source (rright_update (\<lambda>_. Some target));
          m2 \<leftarrow> RBT_SETRED m1 target;
          let rbt1 = inc_nelem (fst s);
          m3 \<leftarrow> upd_rb m2 target (rparent_update (\<lambda>_. Some source));
          n \<leftarrow> m3 source;
          m4 \<leftarrow> upd_rb m3 target (rnext_update (\<lambda>_. rnext n));
          (rbt2, m5) \<leftarrow>
            (case rnext n of
               None \<Rightarrow> Some (rbt1\<lparr>rtail := Some target\<rparr>, m4)
             | Some p \<Rightarrow> do { m5 \<leftarrow> upd_rb m4 p (rprev_update (\<lambda>_. Some target)); Some (rbt1, m5) });
          m6 \<leftarrow> upd_rb m5 target (rprev_update (\<lambda>_. Some source));
          m7 \<leftarrow> upd_rb m6 source (rnext_update (\<lambda>_. Some target));
          Some (rbt2, m7) }"

text \<open>The result: the code, the duplicate when there is one, and the new state.\<close>

partial_function (option) insert_at ::
  "'d rbstate \<Rightarrow> addr option \<Rightarrow> addr \<Rightarrow> (int \<times> addr option \<times> 'd rbstate) option" where
  "insert_at s source target =
     (case source of
        None \<Rightarrow>
          do { m1 \<leftarrow> RBT_SETRED (snd s) target;
               let rbt1 = inc_nelem ((fst s)\<lparr>rroot := Some target\<rparr>);
               Some (-2, None, rbt1\<lparr>rhead := Some target, rtail := Some target\<rparr>, m1) }
      | Some a \<Rightarrow>
          do { n \<leftarrow> snd s a;
               t \<leftarrow> snd s target;
               if rkey t < rkey n then
                 (if rleft n \<noteq> None then insert_at s (rleft n) target
                  else do { s' \<leftarrow> attach_left s a target; Some (-1, None, s') })
               else if rkey n < rkey t then
                 (if rright n \<noteq> None then insert_at s (rright n) target
                  else do { s' \<leftarrow> attach_right s a target; Some (1, None, s') })
               else Some (0, Some a, s) })"

text \<open>\<^verbatim>\<open>_rbt_rotate_left\<close> for the side \<open>d\<close> right, \<^verbatim>\<open>_rbt_rotate_right\<close> for the side left.\<close>

definition rotate_up :: "bool \<Rightarrow> 'd rbstate \<Rightarrow> addr \<Rightarrow> 'd rbstate option" where
  "rotate_up d s a =
     do { n \<leftarrow> snd s a;
          c \<leftarrow> kid d n;
          cn \<leftarrow> snd s c;
          let inner = kid (\<not> d) cn;
          (rbt1, m1) \<leftarrow>
            (case rparent n of
               None \<Rightarrow> Some ((fst s)\<lparr>rroot := Some c\<rparr>, snd s)
             | Some p \<Rightarrow>
                 do { pn \<leftarrow> snd s p;
                      m1 \<leftarrow> upd_rb (snd s) p (set_kid (rleft pn \<noteq> Some a) (Some c));
                      Some (fst s, m1) });
          m2 \<leftarrow> upd_rb m1 c (rparent_update (\<lambda>_. rparent n));
          m3 \<leftarrow> upd_rb m2 a (rparent_update (\<lambda>_. Some c));
          m4 \<leftarrow> upd_rb m3 c (set_kid (\<not> d) (Some a));
          m5 \<leftarrow> upd_opt m4 inner (rparent_update (\<lambda>_. Some a));
          m6 \<leftarrow> upd_rb m5 a (set_kid d inner);
          Some (rbt1, m6) }"

definition rbt_rotate_left :: "'d rbstate \<Rightarrow> addr \<Rightarrow> 'd rbstate option" where
  "rbt_rotate_left s a = rotate_up True s a"

definition rbt_rotate_right :: "'d rbstate \<Rightarrow> addr \<Rightarrow> 'd rbstate option" where
  "rbt_rotate_right s a = rotate_up False s a"

text \<open>Case 4: the state, and the parent and grandparent read again after a rotation.\<close>

definition insert_case4 ::
  "'d rbstate \<Rightarrow> addr \<Rightarrow> addr \<Rightarrow> addr \<Rightarrow> ('d rbstate \<times> addr \<times> addr option) option" where
  "insert_case4 s node p g =
     do { pn \<leftarrow> snd s p;
          gn \<leftarrow> snd s g;
          let reread = (\<lambda>s'. do { n \<leftarrow> snd s' node; p' \<leftarrow> rparent n; pn' \<leftarrow> snd s' p'; Some (s', p', rparent pn') });
          if rright pn = Some node \<and> rleft gn = Some p then do { s' \<leftarrow> rbt_rotate_left s p; reread s' }
          else if rleft pn = Some node \<and> rright gn = Some p then do { s' \<leftarrow> rbt_rotate_right s p; reread s' }
          else Some (s, p, Some g) }"

definition insert_case5 :: "'d rbstate \<Rightarrow> addr \<Rightarrow> addr \<Rightarrow> addr option \<Rightarrow> 'd rbstate option" where
  "insert_case5 s node p g =
     (case g of
        None \<Rightarrow> Some s
      | Some ga \<Rightarrow>
          do { pn \<leftarrow> snd s p;
               gn \<leftarrow> snd s ga;
               s1 \<leftarrow>
                 (if rleft pn = Some node \<and> rleft gn = Some p then rbt_rotate_right s ga
                  else if rright pn = Some node \<and> rright gn = Some p then rbt_rotate_left s ga
                  else Some s);
               m2 \<leftarrow> RBT_SETBLACK (snd s1) p;
               m3 \<leftarrow> RBT_SETRED m2 ga;
               Some (fst s1, m3) })"

partial_function (option) rbt_adjust_on_insert :: "'d rbstate \<Rightarrow> addr \<Rightarrow> 'd rbstate option" where
  "rbt_adjust_on_insert s node =
     (if rroot (fst s) = Some node then do { m1 \<leftarrow> RBT_SETBLACK (snd s) node; Some (fst s, m1) }
      else
        do { n \<leftarrow> snd s node;
             pr \<leftarrow> RBT_ISRED (snd s) (rparent n);
             if \<not> pr then Some s
             else
               do { p \<leftarrow> rparent n;
                    pn \<leftarrow> snd s p;
                    u \<leftarrow>
                      (case rparent pn of
                         None \<Rightarrow> Some None
                       | Some g \<Rightarrow> do { gn \<leftarrow> snd s g; Some (if rleft gn \<noteq> Some p then rleft gn else rright gn) });
                    ur \<leftarrow> RBT_ISRED (snd s) u;
                    if ur then
                      do { ua \<leftarrow> u;
                           g \<leftarrow> rparent pn;
                           m1 \<leftarrow> RBT_SETBLACK (snd s) p;
                           m2 \<leftarrow> RBT_SETBLACK m1 ua;
                           m3 \<leftarrow> RBT_SETRED m2 g;
                           rbt_adjust_on_insert (fst s, m3) g }
                    else
                      (case rparent pn of
                         None \<Rightarrow> Some s
                       | Some g \<Rightarrow>
                           do { (s1, p1, g1) \<leftarrow> insert_case4 s node p g;
                                insert_case5 s1 node p1 g1 }) } })"

text \<open>The result: the code, \<^verbatim>\<open>*dup\<close> and the new state.\<close>

definition rbt_insert :: "'d rbstate \<Rightarrow> addr \<Rightarrow> (int \<times> addr option \<times> 'd rbstate) option" where
  "rbt_insert s node =
     do { (res, dup, s1) \<leftarrow> insert_at s (rroot (fst s)) node;
          if res = 0 then do { _ \<leftarrow> guard (dup \<noteq> None); Some (0, dup, s1) }
          else do { s2 \<leftarrow> rbt_adjust_on_insert s1 node; Some (res, dup, s2) } }"

subsection \<open>Removal\<close>

definition sibling_of :: "'d rbnode \<Rightarrow> addr \<Rightarrow> addr option" where
  "sibling_of pn node = (if rleft pn = Some node then rright pn else rleft pn)"

text \<open>Case 2: a red sibling goes up; the parent and the sibling are read again.\<close>

definition remove_case2 :: "'d rbstate \<Rightarrow> addr \<Rightarrow> addr \<Rightarrow> ('d rbstate \<times> addr \<times> addr option) option" where
  "remove_case2 s node p =
     do { pn \<leftarrow> snd s p;
          let sib = sibling_of pn node;
          sr \<leftarrow> RBT_ISRED (snd s) sib;
          if sr then
            do { sa \<leftarrow> sib;
                 m1 \<leftarrow> RBT_SETBLACK (snd s) sa;
                 m2 \<leftarrow> RBT_SETRED m1 p;
                 s3 \<leftarrow>
                   (if rleft pn = Some node then rbt_rotate_left (fst s, m2) p
                    else rbt_rotate_right (fst s, m2) p);
                 n \<leftarrow> snd s3 node;
                 p' \<leftarrow> rparent n;
                 pn' \<leftarrow> snd s3 p';
                 Some (s3, p', sibling_of pn' node) }
          else Some (s, p, sib) }"

text \<open>Case 5: the sibling's inner child goes up. Again the parent and the sibling.\<close>

definition remove_case5 ::
  "'d rbstate \<Rightarrow> addr \<Rightarrow> addr \<Rightarrow> addr \<Rightarrow> ('d rbstate \<times> addr \<times> addr) option" where
  "remove_case5 s node p sib =
     do { pn \<leftarrow> snd s p;
          sn \<leftarrow> snd s sib;
          lr \<leftarrow> RBT_ISRED (snd s) (rleft sn);
          rr \<leftarrow> RBT_ISRED (snd s) (rright sn);
          let reread = (\<lambda>s'. do { n \<leftarrow> snd s' node; p' \<leftarrow> rparent n; pn' \<leftarrow> snd s' p'; sib' \<leftarrow> sibling_of pn' node; Some (s', p', sib') });
          if rred sn then Some (s, p, sib)
          else if rleft pn = Some node \<and> lr \<and> \<not> rr then
            do { m1 \<leftarrow> RBT_SETRED (snd s) sib;
                 m2 \<leftarrow> upd_opt m1 (rleft sn) (rred_update (\<lambda>_. False));
                 s' \<leftarrow> rbt_rotate_right (fst s, m2) sib;
                 reread s' }
          else if rright pn = Some node \<and> rr \<and> \<not> lr then
            do { m1 \<leftarrow> RBT_SETRED (snd s) sib;
                 m2 \<leftarrow> upd_opt m1 (rright sn) (rred_update (\<lambda>_. False));
                 s' \<leftarrow> rbt_rotate_left (fst s, m2) sib;
                 reread s' }
          else Some (s, p, sib) }"

definition remove_case6 :: "'d rbstate \<Rightarrow> addr \<Rightarrow> addr \<Rightarrow> addr \<Rightarrow> 'd rbstate option" where
  "remove_case6 s node p sib =
     do { m1 \<leftarrow> RBT_SETCOLOR (snd s) sib (Some p);
          m2 \<leftarrow> RBT_SETBLACK m1 p;
          pn \<leftarrow> m2 p;
          sn \<leftarrow> m2 sib;
          if rleft pn = Some node then
            do { m3 \<leftarrow> upd_opt m2 (rright sn) (rred_update (\<lambda>_. False)); rbt_rotate_left (fst s, m3) p }
          else
            do { m3 \<leftarrow> upd_opt m2 (rleft sn) (rred_update (\<lambda>_. False)); rbt_rotate_right (fst s, m3) p } }"

partial_function (option) rbt_adjust_on_remove :: "'d rbstate \<Rightarrow> addr \<Rightarrow> 'd rbstate option" where
  "rbt_adjust_on_remove s node =
     do { n \<leftarrow> snd s node;
          case rparent n of
            None \<Rightarrow> Some s
          | Some p0 \<Rightarrow>
              do { (s1, p, sib0) \<leftarrow> remove_case2 s node p0;
                   case sib0 of
                     None \<Rightarrow> Some s1
                   | Some sib \<Rightarrow>
                       do { pn \<leftarrow> snd s1 p;
                            sn \<leftarrow> snd s1 sib;
                            lr \<leftarrow> RBT_ISRED (snd s1) (rleft sn);
                            rr \<leftarrow> RBT_ISRED (snd s1) (rright sn);
                            if \<not> rred pn \<and> \<not> rred sn \<and> \<not> lr \<and> \<not> rr then
                              do { m2 \<leftarrow> RBT_SETRED (snd s1) sib; rbt_adjust_on_remove (fst s1, m2) p }
                            else if rred pn \<and> \<not> rred sn \<and> \<not> lr \<and> \<not> rr then
                              do { m2 \<leftarrow> RBT_SETBLACK (snd s1) p; m3 \<leftarrow> RBT_SETRED m2 sib; Some (fst s1, m3) }
                            else
                              do { (s2, p', sib') \<leftarrow> remove_case5 s1 node p sib;
                                   remove_case6 s2 node p' sib' } } } }"

definition rbt_remove_list :: "'d rbstate \<Rightarrow> addr \<Rightarrow> 'd rbstate option" where
  "rbt_remove_list s node =
     do { n \<leftarrow> snd s node;
          (rbt1, m1) \<leftarrow>
            (case rnext n of
               Some x \<Rightarrow>
                 do { m1 \<leftarrow> upd_rb (snd s) x (rprev_update (\<lambda>_. rprev n));
                      m2 \<leftarrow> upd_opt m1 (rprev n) (rnext_update (\<lambda>_. rnext n));
                      Some (fst s, m2) }
             | None \<Rightarrow>
                 do { m2 \<leftarrow> upd_opt (snd s) (rprev n) (rnext_update (\<lambda>_. rnext n));
                      Some ((fst s)\<lparr>rtail := rprev n\<rparr>, m2) });
          n1 \<leftarrow> m1 node;
          (rbt2, m2) \<leftarrow>
            (case rprev n1 of
               Some x \<Rightarrow>
                 do { m2 \<leftarrow> upd_rb m1 x (rnext_update (\<lambda>_. rnext n1));
                      m3 \<leftarrow> upd_opt m2 (rnext n1) (rprev_update (\<lambda>_. rprev n1));
                      Some (rbt1, m3) }
             | None \<Rightarrow>
                 do { m3 \<leftarrow> upd_opt m1 (rnext n1) (rprev_update (\<lambda>_. rprev n1));
                      Some (rbt1\<lparr>rhead := rnext n1\<rparr>, m3) });
          m3 \<leftarrow> upd_rb m2 node (\<lambda>n. n\<lparr>rprev := None, rnext := None\<rparr>);
          Some (rbt2, m3) }"

text \<open>The end of the chain of children on a side.\<close>

partial_function (option) far_kid :: "bool \<Rightarrow> 'd rbstore \<Rightarrow> addr \<Rightarrow> addr option" where
  "far_kid d m a = do { n \<leftarrow> m a; case kid d n of None \<Rightarrow> Some a | Some c \<Rightarrow> far_kid d m c }"

text \<open>The replacement of a node and the child that replaces the replacement.\<close>

definition find_repl :: "'d rbstore \<Rightarrow> addr \<Rightarrow> (addr option \<times> addr option) option" where
  "find_repl m node =
     do { n \<leftarrow> m node;
          case rleft n of
            Some l \<Rightarrow> do { r \<leftarrow> far_kid True m l; rn \<leftarrow> m r; Some (Some r, rleft rn) }
          | None \<Rightarrow>
              (case rright n of
                 Some x \<Rightarrow> do { r \<leftarrow> far_kid False m x; rn \<leftarrow> m r; Some (Some r, rright rn) }
               | None \<Rightarrow> Some (None, None)) }"

text \<open>The replacement's child in place of the replacement, and the adjustment.\<close>

definition unhang_repl :: "'d rbstate \<Rightarrow> addr option \<Rightarrow> addr option \<Rightarrow> 'd rbstate option" where
  "unhang_repl s repl replchild =
     do { (m1, replparent) \<leftarrow>
            (case repl of
               None \<Rightarrow> Some (snd s, None)
             | Some r \<Rightarrow>
                 do { rn \<leftarrow> snd s r;
                      rp \<leftarrow> rparent rn;
                      pn \<leftarrow> snd s rp;
                      m1 \<leftarrow> upd_rb (snd s) rp (set_kid (rleft pn \<noteq> Some r) replchild);
                      Some (m1, Some rp) });
          m2 \<leftarrow> upd_opt m1 replchild (rparent_update (\<lambda>_. replparent));
          rr \<leftarrow> RBT_ISRED m2 repl;
          cr \<leftarrow> RBT_ISRED m2 replchild;
          if rr then Some (fst s, m2)
          else if cr then do { c \<leftarrow> replchild; m3 \<leftarrow> RBT_SETBLACK m2 c; Some (fst s, m3) }
          else (case replchild of None \<Rightarrow> Some (fst s, m2) | Some c \<Rightarrow> rbt_adjust_on_remove (fst s, m2) c) }"

text \<open>The replacement in place of the node.\<close>

definition put_repl :: "'d rbstate \<Rightarrow> addr \<Rightarrow> addr option \<Rightarrow> 'd rbstate option" where
  "put_repl s node repl =
     do { n \<leftarrow> snd s node;
          (rbt1, m1) \<leftarrow>
            (case rparent n of
               None \<Rightarrow> Some ((fst s)\<lparr>rroot := repl\<rparr>, snd s)
             | Some p \<Rightarrow>
                 do { pn \<leftarrow> snd s p;
                      m1 \<leftarrow> upd_rb (snd s) p (set_kid (rleft pn \<noteq> Some node) repl);
                      Some (fst s, m1) });
          m2 \<leftarrow> upd_opt m1 (rleft n) (rparent_update (\<lambda>_. repl));
          m3 \<leftarrow> upd_opt m2 (rright n) (rparent_update (\<lambda>_. repl));
          m4 \<leftarrow> upd_opt m3 repl (\<lambda>r. r\<lparr>rparent := rparent n, rleft := rleft n, rright := rright n, rred := rred n\<rparr>);
          Some (rbt1, m4) }"

definition rbt_remove_node :: "'d rbstate \<Rightarrow> addr \<Rightarrow> 'd rbstate option" where
  "rbt_remove_node s node =
     do { (repl, replchild) \<leftarrow> find_repl (snd s) node;
          s1 \<leftarrow> unhang_repl s repl replchild;
          s2 \<leftarrow> put_repl s1 node repl;
          s3 \<leftarrow> rbt_remove_list s2 node;
          m4 \<leftarrow> upd_rb (snd s3) node (\<lambda>n. n\<lparr>rparent := None, rleft := None, rright := None\<rparr>);
          Some ((fst s3)\<lparr>rnelem := (if rnelem (fst s3) = 0 then 2 ^ 64 - 1 else rnelem (fst s3) - 1)\<rparr>, m4) }"

definition rbt_remove_key :: "'d rbstate \<Rightarrow> u64 \<Rightarrow> (int \<times> 'd rbstate) option" where
  "rbt_remove_key s key =
     do { node \<leftarrow> rbt_find s key;
          case node of
            None \<Rightarrow> Some (1, s)
          | Some a \<Rightarrow> do { s' \<leftarrow> rbt_remove_node s a; Some (0, s') } }"

partial_function (option) rbt_fini :: "'d rbstate \<Rightarrow> 'd rbstate option" where
  "rbt_fini s =
     (case rhead (fst s) of
        None \<Rightarrow> Some s
      | Some e \<Rightarrow> do { s' \<leftarrow> rbt_remove_node s e; rbt_fini s' })"

end
