(* ===== verification/Rbt_Tree.thy ===== *)
theory Rbt_Tree
  imports Mn_Rbt
begin

text \<open>
  The red-black tree as a binary tree of addresses. \<open>tree_at\<close> relates the tree to the parents and
  children in the store, \<open>linked\<close> its in-order list to the chain; both look at a projection of the
  store, so that recolouring leaves them alone and a rotation leaves the chain alone. A position in
  a tree is a context \<open>c\<close> (the way to the root) with \<open>plug c t\<close> the whole tree.
\<close>

subsection \<open>Projections of the store\<close>

type_synonym rbshape = "addr \<Rightarrow> (addr option \<times> addr option \<times> addr option) option"
type_synonym rblinks = "addr \<Rightarrow> (addr option \<times> addr option) option"

definition shape :: "'d rbstore \<Rightarrow> rbshape" where
  "shape m a = map_option (\<lambda>n. (rparent n, rleft n, rright n)) (m a)"

definition links :: "'d rbstore \<Rightarrow> rblinks" where
  "links m a = map_option (\<lambda>n. (rprev n, rnext n)) (m a)"

definition keyof :: "'d rbstore \<Rightarrow> addr \<Rightarrow> (u64 \<times> 'd option) option" where
  "keyof m a = map_option (\<lambda>n. (rkey n, rdata n)) (m a)"

definition redof :: "'d rbstore \<Rightarrow> addr \<Rightarrow> bool option" where
  "redof m a = map_option rred (m a)"

lemma projections_upd [simp]:
  "shape (m(a \<mapsto> n)) = (shape m)(a \<mapsto> (rparent n, rleft n, rright n))"
  "links (m(a \<mapsto> n)) = (links m)(a \<mapsto> (rprev n, rnext n))"
  "keyof (m(a \<mapsto> n)) = (keyof m)(a \<mapsto> (rkey n, rdata n))"
  by (auto simp: shape_def links_def keyof_def fun_eq_iff)

lemma projections_some:
  "m a = Some n \<Longrightarrow> shape m a = Some (rparent n, rleft n, rright n)"
  "m a = Some n \<Longrightarrow> links m a = Some (rprev n, rnext n)"
  "m a = Some n \<Longrightarrow> keyof m a = Some (rkey n, rdata n)"
  by (simp_all add: shape_def links_def keyof_def)

lemma shape_some: "shape m a = Some (p, l, r) \<longleftrightarrow> (\<exists>n. m a = Some n \<and> rparent n = p \<and> rleft n = l \<and> rright n = r)"
  by (auto simp: shape_def)

lemma same_dom:
  "keyof m' = keyof m \<Longrightarrow> m' a = None \<longleftrightarrow> m a = None"
  by (metis (no_types, lifting) keyof_def option.map_disc_iff)

definition nkey :: "'d rbstore \<Rightarrow> addr \<Rightarrow> u64" where
  "nkey m a = fst (the (keyof m a))"

lemma nkey_some: "m a = Some n \<Longrightarrow> nkey m a = rkey n"
  by (simp add: nkey_def keyof_def)

subsection \<open>Trees and contexts\<close>

fun rootof :: "addr tree \<Rightarrow> addr option" where
  "rootof Leaf = None"
| "rootof (Node l a r) = Some a"

fun tree_at :: "rbshape \<Rightarrow> addr option \<Rightarrow> addr tree \<Rightarrow> bool" where
  "tree_at S p Leaf \<longleftrightarrow> True"
| "tree_at S p (Node l a r) \<longleftrightarrow> S a = Some (p, rootof l, rootof r) \<and> tree_at S (Some a) l \<and> tree_at S (Some a) r"

text \<open>A node with the subtree \<open>t\<close> on the side \<open>s\<close> and \<open>u\<close> on the other.\<close>

definition node_on :: "bool \<Rightarrow> addr \<Rightarrow> addr tree \<Rightarrow> addr tree \<Rightarrow> addr tree" where
  "node_on s a u t = (if s then Node u a t else Node t a u)"

lemma node_on_flip: "node_on (\<not> s) a u t = node_on s a t u"
  by (simp add: node_on_def)

lemma node_on_simps [simp]:
  "rootof (node_on s a u t) = Some a" "node_on s a u t \<noteq> Leaf"
  "set_tree (node_on s a u t) = insert a (set_tree u \<union> set_tree t)"
  "inorder (node_on s a u t) = (if s then inorder u @ a # inorder t else inorder t @ a # inorder u)"
  by (auto simp: node_on_def)

type_synonym rbctx = "(bool \<times> addr \<times> addr tree) list"

fun plug :: "rbctx \<Rightarrow> addr tree \<Rightarrow> addr tree" where
  "plug [] t = t"
| "plug ((s, a, u) # c) t = plug c (node_on s a u t)"

fun ctx_parent :: "rbctx \<Rightarrow> addr option" where
  "ctx_parent [] = None"
| "ctx_parent ((s, a, u) # c) = Some a"

fun ctx_at :: "rbshape \<Rightarrow> addr option \<Rightarrow> rbctx \<Rightarrow> bool" where
  "ctx_at S q [] \<longleftrightarrow> True"
| "ctx_at S q ((s, a, u) # c) \<longleftrightarrow>
     S a = Some (ctx_parent c, if s then rootof u else q, if s then q else rootof u) \<and>
     tree_at S (Some a) u \<and> ctx_at S (Some a) c"

fun ctx_set :: "rbctx \<Rightarrow> addr set" where
  "ctx_set [] = {}"
| "ctx_set ((s, a, u) # c) = insert a (set_tree u \<union> ctx_set c)"

fun ctx_pre :: "rbctx \<Rightarrow> addr list" where
  "ctx_pre [] = []"
| "ctx_pre ((s, a, u) # c) = ctx_pre c @ (if s then inorder u @ [a] else [])"

fun ctx_post :: "rbctx \<Rightarrow> addr list" where
  "ctx_post [] = []"
| "ctx_post ((s, a, u) # c) = (if s then [] else a # inorder u) @ ctx_post c"

lemma tree_at_node_on:
  "tree_at S p (node_on s a u t) \<longleftrightarrow>
     S a = Some (p, if s then rootof u else rootof t, if s then rootof t else rootof u) \<and>
     tree_at S (Some a) u \<and> tree_at S (Some a) t"
  by (auto simp: node_on_def)

lemma plug_at: "tree_at S None (plug c t) \<longleftrightarrow> ctx_at S (rootof t) c \<and> tree_at S (ctx_parent c) t"
  by (induction c t rule: plug.induct) (auto simp: tree_at_node_on)

lemma inorder_plug: "inorder (plug c t) = ctx_pre c @ inorder t @ ctx_post c"
  by (induction c t rule: plug.induct) auto

lemma ctx_set_lists: "ctx_set c = set (ctx_pre c) \<union> set (ctx_post c)"
  by (induction c rule: ctx_set.induct) auto

lemma set_plug [simp]: "set_tree (plug c t) = ctx_set c \<union> set_tree t"
  by (induction c t rule: plug.induct) auto

lemma root_plug: "c \<noteq> [] \<Longrightarrow> rootof (plug c t) = rootof (plug c t')"
proof (induction c t arbitrary: t' rule: plug.induct)
  case (2 s a u c t)
  then show ?case by (cases "c = []") auto
qed simp

lemma root_plug_same: "rootof t = rootof t' \<Longrightarrow> rootof (plug c t) = rootof (plug c t')"
  using root_plug by (cases "c = []") auto

lemma plug_append: "plug (c @ c') t = plug c' (plug c t)"
  by (induction c t rule: plug.induct) auto

lemma tree_split: "a \<in> set_tree t \<Longrightarrow> \<exists>c l r. t = plug c (Node l a r)"
proof (induction t)
  case (Node l b r)
  consider "a = b" | "a \<in> set_tree l" | "a \<in> set_tree r" using Node.prems by auto
  then show ?case
  proof cases
    case 1
    have "Node l b r = plug [] (Node l a r)" using 1 by simp
    then show ?thesis by blast
  next
    case 2
    then obtain c l' r' where "l = plug c (Node l' a r')" using Node.IH(1) by blast
    then have "Node l b r = plug (c @ [(False, b, r)]) (Node l' a r')" by (simp add: plug_append node_on_def)
    then show ?thesis by blast
  next
    case 3
    then obtain c l' r' where "r = plug c (Node l' a r')" using Node.IH(2) by blast
    then have "Node l b r = plug (c @ [(True, b, l)]) (Node l' a r')" by (simp add: plug_append node_on_def)
    then show ?thesis by blast
  qed
qed simp

lemma tree_at_cong: "(\<And>e. e \<in> set_tree t \<Longrightarrow> S' e = S e) \<Longrightarrow> tree_at S' p t = tree_at S p t"
  by (induction t arbitrary: p) auto

lemma ctx_at_cong: "(\<And>e. e \<in> ctx_set c \<Longrightarrow> S' e = S e) \<Longrightarrow> ctx_at S' q c = ctx_at S q c"
proof (induction c arbitrary: q rule: ctx_set.induct)
  case (2 s a u c)
  have "tree_at S' (Some a) u = tree_at S (Some a) u" by (rule tree_at_cong) (use 2 in auto)
  then show ?case using 2 by auto
qed simp

lemma root_in_set: "rootof t = Some a \<Longrightarrow> a \<in> set_tree t"
  by (cases t) auto

text \<open>Another parent for the root of a subtree.\<close>

definition reparent :: "rbshape \<Rightarrow> addr option \<Rightarrow> addr option \<Rightarrow> rbshape" where
  "reparent S q p = (case q of None \<Rightarrow> S | Some a \<Rightarrow> S(a := map_option (\<lambda>x. (p, snd x)) (S a)))"

lemma tree_at_reparent:
  assumes "tree_at S p t" "distinct (inorder t)"
  shows "tree_at (reparent S (rootof t) p') p' t"
proof (cases t)
  case (Node l a r)
  have "tree_at (reparent S (rootof t) p') (Some a) l = tree_at S (Some a) l"
    by (rule tree_at_cong) (use assms(2) Node in \<open>auto simp: reparent_def\<close>)
  moreover have "tree_at (reparent S (rootof t) p') (Some a) r = tree_at S (Some a) r"
    by (rule tree_at_cong) (use assms(2) Node in \<open>auto simp: reparent_def\<close>)
  ultimately have "tree_at (reparent S (rootof t) p') (Some a) l" "tree_at (reparent S (rootof t) p') (Some a) r"
    using assms(1) Node by simp_all
  then show ?thesis using assms Node by (simp add: reparent_def)
qed simp

lemma reparent_other: "q \<noteq> Some e \<Longrightarrow> reparent S q p e = S e"
  by (auto simp: reparent_def split: option.splits)

text \<open>Another child for the parent at a context.\<close>

definition rekid :: "rbshape \<Rightarrow> rbctx \<Rightarrow> addr option \<Rightarrow> rbshape" where
  "rekid S c q =
     (case c of
        [] \<Rightarrow> S
      | (s, p, u) # _ \<Rightarrow> S(p := map_option (\<lambda>x. (fst x, if s then fst (snd x) else q, if s then q else snd (snd x))) (S p)))"

lemma rekid_other: "ctx_parent c \<noteq> Some e \<Longrightarrow> rekid S c q e = S e"
  by (cases c) (auto simp: rekid_def)

lemma ctx_parent_set: "ctx_parent c = Some p \<Longrightarrow> p \<in> ctx_set c"
  by (cases c) auto

lemma ctx_at_rekid:
  assumes "ctx_at S q c" "distinct (ctx_pre c @ ctx_post c)"
  shows "ctx_at (rekid S c q') q' c"
proof (cases c)
  case (Cons x c')
  obtain s p u where x: "x = (s, p, u)" by (cases x)
  have d: "p \<notin> set_tree u" "p \<notin> ctx_set c'" using assms(2) Cons x by (auto simp: ctx_set_lists split: if_splits)
  have "tree_at (rekid S c q') (Some p) u = tree_at S (Some p) u"
    by (rule tree_at_cong) (use d Cons x in \<open>auto intro!: rekid_other\<close>)
  moreover have "ctx_at (rekid S c q') (Some p) c' = ctx_at S (Some p) c'"
    by (rule ctx_at_cong) (use d Cons x in \<open>auto intro!: rekid_other\<close>)
  ultimately show ?thesis using assms(1) Cons x by (simp add: rekid_def)
qed simp

lemma rotate_tree_at:
  assumes t: "tree_at S None (plug c (node_on d a l (node_on d b x y)))"
    and dd: "distinct (inorder (plug c (node_on d a l (node_on d b x y))))"
    and Sa: "S' a = Some (Some b, if d then rootof l else rootof x, if d then rootof x else rootof l)"
    and Sb: "S' b = Some (ctx_parent c, if d then Some a else rootof y, if d then rootof y else Some a)"
    and So: "\<And>e. e \<noteq> a \<Longrightarrow> e \<noteq> b \<Longrightarrow> S' e = reparent (rekid S c (Some b)) (rootof x) (Some a) e"
  shows "tree_at S' None (plug c (node_on d b (node_on d a l x) y))"
proof -
  have t': "ctx_at S (Some a) c" "tree_at S (Some a) l" "tree_at S (Some b) x" "tree_at S (Some b) y"
    using t by (auto simp: plug_at tree_at_node_on)
  have ds: "distinct (ctx_pre c @ ctx_post c)" "distinct (inorder x)" "a \<noteq> b"
    "insert a (insert b (set_tree l \<union> set_tree y)) \<inter> set_tree x = {}"
    "insert a (insert b (set_tree l \<union> set_tree y \<union> set_tree x)) \<inter> ctx_set c = {}"
    "a \<notin> set_tree l" "a \<notin> set_tree y" "b \<notin> set_tree l" "b \<notin> set_tree y"
    using dd unfolding inorder_plug ctx_set_lists by (cases d; fastforce)+
  have par: "ctx_parent c \<noteq> Some e" if "e \<notin> ctx_set c" for e using that ctx_parent_set by blast
  have rx: "rootof x \<noteq> Some e" if "e \<notin> set_tree x" for e using that root_in_set by blast
  have same: "S' e = S e" if "e \<noteq> a" "e \<noteq> b" "e \<notin> ctx_set c" "e \<notin> set_tree x" for e
    using So [OF that(1,2)] reparent_other [OF rx [OF that(4)]] rekid_other [OF par [OF that(3)]] by simp
  have l: "tree_at S' (Some a) l = tree_at S (Some a) l" by (rule tree_at_cong, rule same) (use ds in auto)
  have y: "tree_at S' (Some b) y = tree_at S (Some b) y" by (rule tree_at_cong, rule same) (use ds in auto)
  have "tree_at S' (Some a) x = tree_at (reparent S (rootof x) (Some a)) (Some a) x"
  proof (rule tree_at_cong)
    fix e assume e: "e \<in> set_tree x"
    then have "e \<noteq> a" "e \<noteq> b" "e \<notin> ctx_set c" using ds by auto
    then show "S' e = reparent S (rootof x) (Some a) e"
      using So [of e] rekid_other [OF par, of e S "Some b"] by (auto simp: reparent_def split: option.splits)
  qed
  then have x: "tree_at S' (Some a) x" using tree_at_reparent [OF t'(3) ds(2)] by simp
  have "ctx_at S' (Some b) c = ctx_at (rekid S c (Some b)) (Some b) c"
  proof (rule ctx_at_cong)
    fix e assume e: "e \<in> ctx_set c"
    then have "e \<noteq> a" "e \<noteq> b" "e \<notin> set_tree x" using ds by auto
    then show "S' e = rekid S c (Some b) e" using So [of e] reparent_other [OF rx, of e] by simp
  qed
  then have "ctx_at S' (Some b) c" using ctx_at_rekid [OF t'(1) ds(1)] by simp
  then show ?thesis using l y x t' Sa Sb by (simp add: plug_at tree_at_node_on)
qed

subsection \<open>Rotations\<close>

definition tree_rep :: "'d rbstate \<Rightarrow> addr tree \<Rightarrow> bool" where
  "tree_rep s t \<longleftrightarrow> tree_at (shape (snd s)) None t \<and> rroot (fst s) = rootof t \<and> distinct (inorder t)"

definition same_rest :: "'d rbstate \<Rightarrow> 'd rbstate \<Rightarrow> bool" where
  "same_rest s s' \<longleftrightarrow>
     rhead (fst s') = rhead (fst s) \<and> rtail (fst s') = rtail (fst s) \<and> rnelem (fst s') = rnelem (fst s) \<and>
     links (snd s') = links (snd s) \<and> keyof (snd s') = keyof (snd s)"

lemma same_rest_refl [simp]: "same_rest s s"
  by (simp add: same_rest_def)

lemma same_rest_trans: "same_rest s s' \<Longrightarrow> same_rest s' s'' \<Longrightarrow> same_rest s s''"
  by (simp add: same_rest_def)

lemma links_const:
  "m a = Some n \<Longrightarrow> rprev n' = rprev n \<Longrightarrow> rnext n' = rnext n \<Longrightarrow> links (m(a \<mapsto> n')) = links m"
  by (auto simp: links_def fun_eq_iff)

lemma keyof_const:
  "m a = Some n \<Longrightarrow> rkey n' = rkey n \<Longrightarrow> rdata n' = rdata n \<Longrightarrow> keyof (m(a \<mapsto> n')) = keyof m"
  by (auto simp: keyof_def fun_eq_iff)

lemma shape_const:
  "m a = Some n \<Longrightarrow> rparent n' = rparent n \<Longrightarrow> rleft n' = rleft n \<Longrightarrow> rright n' = rright n \<Longrightarrow> shape (m(a \<mapsto> n')) = shape m"
  by (auto simp: shape_def fun_eq_iff)

lemma set_kid_fields [simp]:
  "rparent (set_kid s q n) = rparent n" "rprev (set_kid s q n) = rprev n" "rnext (set_kid s q n) = rnext n"
  "rkey (set_kid s q n) = rkey n" "rdata (set_kid s q n) = rdata n" "rred (set_kid s q n) = rred n"
  "rleft (set_kid s q n) = (if s then rleft n else q)" "rright (set_kid s q n) = (if s then q else rright n)"
  by (simp_all add: set_kid_def)

text \<open>An update of one node that keeps links and keys.\<close>

definition tree_update :: "('d rbnode \<Rightarrow> 'd rbnode) \<Rightarrow> bool" where
  "tree_update f \<longleftrightarrow> (\<forall>n. rprev (f n) = rprev n \<and> rnext (f n) = rnext n \<and> rkey (f n) = rkey n \<and> rdata (f n) = rdata n)"

lemma tree_updates [simp]:
  "tree_update (rparent_update g)" "tree_update (set_kid s q)" "tree_update (rred_update h)"
  by (simp_all add: tree_update_def)

lemma upd_rbE:
  assumes "m a = Some n" "tree_update f"
  obtains m' where "upd_rb m a f = Some m'" "m' = m(a \<mapsto> f n)" "links m' = links m" "keyof m' = keyof m"
    "shape m' = (shape m)(a \<mapsto> (rparent (f n), rleft (f n), rright (f n)))" "rred (f n) = rred n \<Longrightarrow> redof m' = redof m"
proof -
  have "rred (f n) = rred n \<Longrightarrow> redof (m(a \<mapsto> f n)) = redof m"
    using assms(1) by (simp add: redof_def fun_eq_iff)
  moreover have "links (m(a \<mapsto> f n)) = links m" "keyof (m(a \<mapsto> f n)) = keyof m"
    using assms by (auto simp: tree_update_def intro!: links_const keyof_const simp del: projections_upd)
  moreover have "upd_rb m a f = Some (m(a \<mapsto> f n))" using assms(1) by (simp add: upd_rb_def)
  moreover have "shape (m(a \<mapsto> f n)) = (shape m)(a \<mapsto> (rparent (f n), rleft (f n), rright (f n)))" by (rule projections_upd)
  ultimately show thesis using that by blast
qed

text \<open>Another node in the place of a child: the parent's pointer, or the root.\<close>

lemma put_kidE:
  assumes c: "ctx_at (shape m) (Some a) c" and a: "a \<notin> ctx_set c" and par: "par = ctx_parent c"
  obtains rbt1 m1 where
    "(case par of None \<Rightarrow> Some (rbt\<lparr>rroot := q\<rparr>, m)
      | Some p \<Rightarrow> do { pn \<leftarrow> m p; m1 \<leftarrow> upd_rb m p (set_kid (rleft pn \<noteq> Some a) q); Some (rbt, m1) }) = Some (rbt1, m1)"
    "shape m1 = rekid (shape m) c q" "links m1 = links m" "keyof m1 = keyof m" "redof m1 = redof m"
    "\<forall>e. ctx_parent c \<noteq> Some e \<longrightarrow> m1 e = m e" "rroot rbt1 = (if c = [] then q else rroot rbt)"
    "rhead rbt1 = rhead rbt" "rtail rbt1 = rtail rbt" "rnelem rbt1 = rnelem rbt"
proof (cases c)
  case Nil
  show thesis by (rule that [of "rbt\<lparr>rroot := q\<rparr>" m]) (use Nil par in \<open>simp_all add: rekid_def\<close>)
next
  case (Cons e c')
  obtain z p u where e: "e = (z, p, u)" by (cases e)
  have "shape m p = Some (ctx_parent c', if z then rootof u else Some a, if z then Some a else rootof u)"
    using c Cons e by simp
  then obtain pn where pn: "m p = Some pn" "rleft pn = (if z then rootof u else Some a)"
    by (auto simp: shape_some)
  have "rootof u \<noteq> Some a" using a Cons e root_in_set by auto
  then have z: "rleft pn \<noteq> Some a \<longleftrightarrow> z" using pn(2) by simp
  obtain m1 where m1: "upd_rb m p (set_kid z q) = Some m1" "m1 = m(p \<mapsto> set_kid z q pn)"
      "links m1 = links m" "keyof m1 = keyof m"
      "shape m1 = (shape m)(p \<mapsto> (rparent (set_kid z q pn), rleft (set_kid z q pn), rright (set_kid z q pn)))"
      "redof m1 = redof m"
    by (rule upd_rbE [of m p pn "set_kid z q"]) (use pn(1) in simp_all)
  have "shape m1 = rekid (shape m) c q"
    unfolding m1(5) Cons e rekid_def by (simp add: projections_some(1) [of m p pn, OF pn(1)])
  then show thesis by (intro that [of rbt m1]) (use par pn(1) z m1(1-4,6) Cons e in simp_all)
qed

lemma put_parentE:
  assumes "\<And>e. q = Some e \<Longrightarrow> m e \<noteq> None"
  obtains m' where "upd_opt m q (rparent_update (\<lambda>_. p)) = Some m'" "shape m' = reparent (shape m) q p"
    "links m' = links m" "keyof m' = keyof m" "redof m' = redof m" "\<forall>e. q \<noteq> Some e \<longrightarrow> m' e = m e"
proof (cases q)
  case None
  show thesis by (rule that [of m]) (simp_all add: None upd_opt_def reparent_def)
next
  case (Some e)
  obtain en where en: "m e = Some en" using assms Some by blast
  obtain m' where m': "upd_rb m e (rparent_update (\<lambda>_. p)) = Some m'" "m' = m(e \<mapsto> en\<lparr>rparent := p\<rparr>)"
      "links m' = links m" "keyof m' = keyof m"
      "shape m' = (shape m)(e \<mapsto> (rparent (en\<lparr>rparent := p\<rparr>), rleft (en\<lparr>rparent := p\<rparr>), rright (en\<lparr>rparent := p\<rparr>)))"
      "redof m' = redof m"
    by (rule upd_rbE [of m e en "rparent_update (\<lambda>_. p)"]) (use en in simp_all)
  then show thesis
    by (intro that [of m']) (simp_all add: Some upd_opt_def reparent_def projections_some(1) [of m e en, OF en] del: projections_upd)
qed

lemma rotate_rep:
  assumes rep: "tree_rep s (plug c (node_on d a l (node_on d b x y)))"
  obtains s' where "rotate_up d s a = Some s'" "tree_rep s' (plug c (node_on d b (node_on d a l x) y))" "same_rest s s'"
    "redof (snd s') = redof (snd s)"
proof -
  obtain rbt m where s: "s = (rbt, m)" by (cases s)
  have t: "tree_at (shape m) None (plug c (node_on d a l (node_on d b x y)))"
    and root: "rroot rbt = rootof (plug c (node_on d a l (node_on d b x y)))"
    and dd: "distinct (inorder (plug c (node_on d a l (node_on d b x y))))"
    using rep s by (simp_all add: tree_rep_def)
  have sa: "shape m a = Some (ctx_parent c, if d then rootof l else Some b, if d then Some b else rootof l)"
    and sb: "shape m b = Some (Some a, if d then rootof x else rootof y, if d then rootof y else rootof x)"
    and sc: "ctx_at (shape m) (Some a) c" and sx: "tree_at (shape m) (Some b) x"
    using t by (auto simp: plug_at tree_at_node_on)
  obtain n where n: "m a = Some n" "rparent n = ctx_parent c" "kid d n = Some b" "kid (\<not> d) n = rootof l"
    using sa by (cases d) (auto simp: shape_some kid_def)
  obtain cn where cn: "m b = Some cn" "rparent cn = Some a" "kid (\<not> d) cn = rootof x" "kid d cn = rootof y"
    using sb by (cases d) (auto simp: shape_some kid_def)
  have ds: "a \<noteq> b" "a \<notin> set_tree x" "b \<notin> set_tree x" "a \<notin> ctx_set c" "b \<notin> ctx_set c" "set_tree x \<inter> ctx_set c = {}"
    using dd unfolding inorder_plug ctx_set_lists by (cases d; fastforce)+
  have pc: "ctx_parent c \<noteq> Some a" "ctx_parent c \<noteq> Some b" using ds(4,5) ctx_parent_set by blast+
  have rx: "rootof x \<noteq> Some a" "rootof x \<noteq> Some b" using ds(2,3) root_in_set by blast+
  have rxc: "rootof x \<noteq> Some e" if "ctx_parent c = Some e" for e using that ds(6) root_in_set ctx_parent_set by blast
  have an: "a \<notin> ctx_set c" using ds(4) .
  obtain rbt1 m1 where m1: "(case rparent n of None \<Rightarrow> Some (rbt\<lparr>rroot := Some b\<rparr>, m)
      | Some p \<Rightarrow> do { pn \<leftarrow> m p; m1 \<leftarrow> upd_rb m p (set_kid (rleft pn \<noteq> Some a) (Some b)); Some (rbt, m1) }) = Some (rbt1, m1)"
      "shape m1 = rekid (shape m) c (Some b)" "links m1 = links m" "keyof m1 = keyof m" "redof m1 = redof m"
      "\<forall>e. ctx_parent c \<noteq> Some e \<longrightarrow> m1 e = m e" "rroot rbt1 = (if c = [] then Some b else rroot rbt)"
      "rhead rbt1 = rhead rbt" "rtail rbt1 = rtail rbt" "rnelem rbt1 = rnelem rbt"
    by (rule put_kidE [OF sc an n(2), where rbt = rbt and q = "Some b"])
  have m1b: "m1 b = Some cn" and m1a: "m1 a = Some n" using m1(6) pc cn(1) n(1) by simp_all
  define cn2 where "cn2 = cn\<lparr>rparent := rparent n\<rparr>"
  define n3 where "n3 = n\<lparr>rparent := Some b\<rparr>"
  define cn4 where "cn4 = set_kid (\<not> d) (Some a) cn2"
  define m4 where "m4 = m1(b \<mapsto> cn2, a \<mapsto> n3, b \<mapsto> cn4)"
  have m4: "m4 a = Some n3" "m4 b = Some cn4" using ds(1) by (simp_all add: m4_def)
  have m4l: "links m4 = links m" "keyof m4 = keyof m" "redof m4 = redof m"
    unfolding m1(3) [symmetric] m1(4) [symmetric] m1(5) [symmetric] using m1a m1b ds(1)
    by (auto simp: fun_eq_iff links_def keyof_def redof_def m4_def cn2_def n3_def cn4_def)
  have m4x: "m4 e = m1 e" if "e \<noteq> a" "e \<noteq> b" for e using that by (simp add: m4_def)
  have xe: "m4 e \<noteq> None" if "rootof x = Some e" for e
  proof -
    have e: "e \<noteq> a" "e \<noteq> b" "ctx_parent c \<noteq> Some e" using rx that rxc by auto
    then have "m4 e = m e" using m4x m1(6) by simp
    moreover have "m e \<noteq> None" using sx that by (cases x) (auto simp: shape_some)
    ultimately show ?thesis by simp
  qed
  obtain m5 where m5: "upd_opt m4 (rootof x) (rparent_update (\<lambda>_. Some a)) = Some m5"
      "shape m5 = reparent (shape m4) (rootof x) (Some a)" "links m5 = links m4" "keyof m5 = keyof m4" "redof m5 = redof m4"
      "\<forall>e. rootof x \<noteq> Some e \<longrightarrow> m5 e = m4 e"
    by (rule put_parentE [of "rootof x" m4 "Some a"]) (use xe in simp_all)
  have m5ab: "m5 a = Some n3" "m5 b = Some cn4" using m5(6) rx m4 by simp_all
  define m6 where "m6 = m5(a \<mapsto> set_kid d (rootof x) n3)"
  have m6l: "links m6 = links m" "keyof m6 = keyof m"
    unfolding m4l(1,2) [symmetric] m5(3,4) [symmetric] m6_def using m5ab(1) by (auto intro!: links_const keyof_const simp del: projections_upd)
  have m6r: "redof m6 = redof m"
    unfolding m4l(3) [symmetric] m5(5) [symmetric] using m5ab(1) by (simp add: m6_def redof_def fun_eq_iff)
  have s2: "upd_rb m1 b (rparent_update (\<lambda>_. rparent n)) = Some (m1(b \<mapsto> cn2))"
    "upd_rb (m1(b \<mapsto> cn2)) a (rparent_update (\<lambda>_. Some b)) = Some (m1(b \<mapsto> cn2, a \<mapsto> n3))"
    "upd_rb (m1(b \<mapsto> cn2, a \<mapsto> n3)) b (set_kid (\<not> d) (Some a)) = Some m4"
    "upd_rb m5 a (set_kid d (rootof x)) = Some m6"
    using m1a m1b ds(1) m5ab(1) by (simp_all add: upd_rb_def cn2_def n3_def m4_def cn4_def m6_def)
  have run: "rotate_up d s a = Some (rbt1, m6)"
    unfolding rotate_up_def s fst_conv snd_conv using n(1,3) cn(1,3) m1(1) s2 m5(1) by (simp add: Let_def)
  have "shape m6 a = Some (Some b, if d then rootof l else rootof x, if d then rootof x else rootof l)"
    using n(3,4) by (cases d) (auto simp: m6_def n3_def kid_def)
  moreover have "shape m6 b = Some (ctx_parent c, if d then Some a else rootof y, if d then rootof y else Some a)"
  proof -
    have "m6 b = Some cn4" using m5ab(2) ds(1) by (simp add: m6_def)
    then show ?thesis using cn(4) n(2) by (cases d) (auto simp: shape_some cn4_def cn2_def kid_def)
  qed
  moreover have "shape m6 e = reparent (rekid (shape m) c (Some b)) (rootof x) (Some a) e" if "e \<noteq> a" "e \<noteq> b" for e
  proof -
    have "shape m6 e = shape m5 e" using that by (simp add: m6_def)
    moreover have "shape m4 e = rekid (shape m) c (Some b) e" unfolding m1(2) [symmetric] using m4x [OF that] by (simp add: shape_def)
    ultimately show ?thesis unfolding m5(2) by (auto simp: reparent_def split: option.splits)
  qed
  ultimately have "tree_at (shape m6) None (plug c (node_on d b (node_on d a l x) y))"
    by (rule rotate_tree_at [OF t dd])
  moreover have "rroot rbt1 = rootof (plug c (node_on d b (node_on d a l x) y))"
    using m1(7) root root_plug [of c] by (cases "c = []") auto
  moreover have "inorder (plug c (node_on d b (node_on d a l x) y)) = inorder (plug c (node_on d a l (node_on d b x y)))"
    unfolding inorder_plug by (cases d) simp_all
  ultimately have "tree_rep (rbt1, m6) (plug c (node_on d b (node_on d a l x) y))" using dd by (simp add: tree_rep_def)
  moreover have "same_rest s (rbt1, m6)" using m1(8-10) m6l s by (simp add: same_rest_def)
  moreover have "redof (snd (rbt1, m6)) = redof (snd s)" using m6r s by simp
  ultimately show thesis using that [OF run] by blast
qed

subsection \<open>Reading and colouring nodes\<close>

lemma in_ctxE:
  assumes "tree_rep s (plug ((b, p, u) # c) t)" "rootof t = Some a"
  obtains n pn where "snd s a = Some n" "rparent n = Some p" "snd s p = Some pn" "rparent pn = ctx_parent c"
    "kid b pn = Some a" "kid (\<not> b) pn = rootof u" "rleft pn = Some a \<longleftrightarrow> \<not> b" "rright pn = Some a \<longleftrightarrow> b" "a \<noteq> p"
    "sibling_of pn a = rootof u"
proof -
  obtain l r where t: "t = Node l a r" using assms(2) by (cases t) auto
  have at: "tree_at (shape (snd s)) None (plug ((b, p, u) # c) t)" and d: "distinct (inorder (plug ((b, p, u) # c) t))"
    using assms(1) by (simp_all add: tree_rep_def)
  have sp: "shape (snd s) p = Some (ctx_parent c, if b then rootof u else Some a, if b then Some a else rootof u)"
    and sa: "shape (snd s) a = Some (Some p, rootof l, rootof r)"
    using at unfolding plug_at by (simp_all add: t)
  have "a \<notin> set_tree u" "a \<noteq> p" using d unfolding inorder_plug t by (auto split: if_splits)
  then have "rootof u \<noteq> Some a" using root_in_set by blast
  with sp sa \<open>a \<noteq> p\<close> show thesis
    by (cases b) (auto simp: shape_some kid_def sibling_of_def intro!: that)
qed

lemma nodeE:
  assumes "tree_rep s (plug c (Node l a r))"
  obtains n where "snd s a = Some n" "rparent n = ctx_parent c" "rleft n = rootof l" "rright n = rootof r" "nkey (snd s) a = rkey n"
proof -
  have "shape (snd s) a = Some (ctx_parent c, rootof l, rootof r)" using assms by (simp add: tree_rep_def plug_at)
  then obtain n where n: "snd s a = Some n" "rparent n = ctx_parent c" "rleft n = rootof l" "rright n = rootof r"
    unfolding shape_some by blast
  then show thesis using that nkey_some [of "snd s" a n] by blast
qed

lemma tree_node:
  assumes "tree_rep s t" "a \<in> set_tree t"
  obtains n where "snd s a = Some n"
proof -
  obtain c l r where "t = plug c (Node l a r)" using tree_split [OF assms(2)] by blast
  then have "shape (snd s) a = Some (ctx_parent c, rootof l, rootof r)"
    using assms(1) by (simp add: tree_rep_def plug_at)
  then show thesis using that by (auto simp: shape_some)
qed

lemma isred_some: "tree_rep s t \<Longrightarrow> (\<And>a. q = Some a \<Longrightarrow> a \<in> set_tree t) \<Longrightarrow> \<exists>b. RBT_ISRED (snd s) q = Some b"
  by (cases q) (auto simp: RBT_ISRED_def elim: tree_node)

lemma recolourE:
  assumes "tree_rep s t" "a \<in> set_tree t"
  obtains m' where "RBT_SET r (snd s) a = Some m'" "tree_rep (fst s, m') t" "same_rest s (fst s, m')" "shape m' = shape (snd s)"
proof -
  obtain n where n: "snd s a = Some n" by (rule tree_node [OF assms])
  obtain m' where m': "upd_rb (snd s) a (rred_update (\<lambda>_. r)) = Some m'" "m' = (snd s)(a \<mapsto> n\<lparr>rred := r\<rparr>)"
      "links m' = links (snd s)" "keyof m' = keyof (snd s)"
    by (rule upd_rbE [of "snd s" a n "rred_update (\<lambda>_. r)"]) (use n in simp_all)
  have sh: "shape m' = shape (snd s)"
    unfolding m'(2) by (rule shape_const [of "snd s" a n]) (use n in simp_all)
  show thesis
    by (rule that [of m']) (use m' sh assms(1) in \<open>simp_all add: RBT_SET_def tree_rep_def same_rest_def\<close>)
qed

lemma recolour_optE:
  assumes "tree_rep s t" "\<And>a. q = Some a \<Longrightarrow> a \<in> set_tree t"
  obtains m' where "upd_opt (snd s) q (rred_update (\<lambda>_. r)) = Some m'" "tree_rep (fst s, m') t" "same_rest s (fst s, m')"
    "shape m' = shape (snd s)"
proof (cases q)
  case None
  show thesis by (rule that [of "snd s"]) (use None assms(1) in \<open>simp_all add: upd_opt_def\<close>)
next
  case (Some a)
  obtain m' where m': "RBT_SET r (snd s) a = Some m'" "tree_rep (fst s, m') t" "same_rest s (fst s, m')" "shape m' = shape (snd s)"
    by (rule recolourE [OF assms(1)]) (use assms(2) Some in simp_all)
  show thesis by (rule that [OF _ m'(2-4)]) (use Some m'(1) in \<open>simp add: upd_opt_def RBT_SET_def\<close>)
qed

text \<open>The same nodes in the same order, possibly another tree.\<close>

definition settled :: "'d rbstate \<Rightarrow> addr tree \<Rightarrow> 'd rbstate \<Rightarrow> bool" where
  "settled s t s' \<longleftrightarrow> (\<exists>t'. tree_rep s' t' \<and> inorder t' = inorder t) \<and> same_rest s s'"

lemma settledI: "tree_rep s' t' \<Longrightarrow> inorder t' = inorder t \<Longrightarrow> same_rest s s' \<Longrightarrow> settled s t s'"
  by (auto simp: settled_def)

lemma settled_first: "settled s' t s'' \<Longrightarrow> same_rest s s' \<Longrightarrow> settled s t s''"
  by (auto simp: settled_def intro: same_rest_trans)

lemma settled_inorder: "settled s t s' \<Longrightarrow> inorder t = inorder t' \<Longrightarrow> settled s t' s'"
  by (simp add: settled_def)

lemma inorder_set: "inorder t = inorder t' \<Longrightarrow> set_tree t = set_tree t'"
  by (metis set_inorder)

text \<open>The rotation at the parent, towards the parent's parent: the child goes up.\<close>

lemma rotate_childE:
  assumes rep: "tree_rep s (plug ((d, p, u) # c) t)" and a: "rootof t = Some a"
  obtains s' t' where "rotate_up d s p = Some s'" "tree_rep s' (plug c t')" "rootof t' = Some a" "same_rest s s'"
    "redof (snd s') = redof (snd s)" "inorder (plug c t') = inorder (plug ((d, p, u) # c) t)"
    "\<exists>x y. t = node_on d a x y \<and> t' = node_on d a (node_on d p u x) y"
proof -
  obtain x y where t: "t = node_on d a x y" using a by (cases t; cases d) (auto simp: node_on_def)
  obtain s' where s': "rotate_up d s p = Some s'" "tree_rep s' (plug c (node_on d a (node_on d p u x) y))" "same_rest s s'" "redof (snd s') = redof (snd s)"
    by (rule rotate_rep [of s c d p u a x y]) (use rep t in simp_all)
  have "inorder (plug c (node_on d a (node_on d p u x) y)) = inorder (plug ((d, p, u) # c) t)"
    unfolding t inorder_plug by (cases d) simp_all
  then show thesis using that [OF s'(1,2)] s'(3,4) t by auto
qed

lemma rotate_sides: "(if d then rbt_rotate_left s a else rbt_rotate_right s a) = rotate_up d s a"
  by (simp add: rbt_rotate_left_def rbt_rotate_right_def)

subsection \<open>The adjustment after an insertion\<close>

lemma insert_case5_settled:
  assumes rep: "tree_rep s (plug ((b, p, u) # c) t)" and a: "rootof t = Some node"
  shows "\<exists>s'. insert_case5 s node p (ctx_parent c) = Some s' \<and> settled s (plug ((b, p, u) # c) t) s'"
proof (cases c)
  case Nil
  then show ?thesis using rep by (auto simp: insert_case5_def intro: settledI)
next
  case (Cons e c')
  obtain b' g u' where e: "e = (b', g, u')" by (cases e)
  let ?t0 = "plug ((b, p, u) # c) t" and ?tp = "node_on b p u t"
  have rep': "tree_rep s (plug ((b', g, u') # c') ?tp)" using rep Cons e by simp
  obtain n pn where pn: "snd s p = Some pn" "rleft pn = Some node \<longleftrightarrow> \<not> b" "rright pn = Some node \<longleftrightarrow> b"
    by (rule in_ctxE [OF rep a]) blast
  obtain gn where gn: "snd s g = Some gn" "rleft gn = Some p \<longleftrightarrow> \<not> b'" "rright gn = Some p \<longleftrightarrow> b'"
    by (rule in_ctxE [OF rep', of p]) (simp, blast)
  let ?s1 = "if rleft pn = Some node \<and> rleft gn = Some p then rbt_rotate_right s g
     else if rright pn = Some node \<and> rright gn = Some p then rbt_rotate_left s g else Some s"
  have "\<exists>s1. ?s1 = Some s1 \<and> settled s ?t0 s1"
  proof (cases "b = b'")
    case True
    have r: "?s1 = rotate_up b s g"
      using pn(2,3) gn(2,3) True by (simp add: rbt_rotate_left_def rbt_rotate_right_def)
    obtain s1 t1 where s1: "rotate_up b' s g = Some s1" "tree_rep s1 (plug c' t1)" "same_rest s s1"
        "inorder (plug c' t1) = inorder (plug ((b', g, u') # c') ?tp)"
      by (rule rotate_childE [OF rep', of p]) simp_all
    have "settled s ?t0 s1" by (rule settledI [OF s1(2) _ s1(3)]) (use s1(4) Cons e in simp)
    then show ?thesis using r s1(1) True by simp
  next
    case False
    then have "?s1 = Some s" using pn(2,3) gn(2,3) by auto
    moreover have "settled s ?t0 s" by (rule settledI [OF rep]) simp_all
    ultimately show ?thesis by blast
  qed
  then obtain s1 t1 where s1: "?s1 = Some s1" "same_rest s s1" "tree_rep s1 t1" "inorder t1 = inorder ?t0"
    by (auto simp: settled_def)
  have set1: "p \<in> set_tree t1" "g \<in> set_tree t1" using inorder_set [OF s1(4)] Cons e by auto
  obtain m2 where m2: "RBT_SET False (snd s1) p = Some m2" "tree_rep (fst s1, m2) t1" "same_rest s1 (fst s1, m2)"
    by (rule recolourE [OF s1(3) set1(1)])
  obtain m3 where m3: "RBT_SET True m2 g = Some m3" "tree_rep (fst s1, m3) t1" "same_rest (fst s1, m2) (fst s1, m3)"
    using recolourE [OF m2(2) set1(2), of True] by (metis fst_conv snd_conv)
  have "insert_case5 s node p (ctx_parent c) = Some (fst s1, m3)"
    using Cons e pn(1) gn(1) s1(1) m2(1) m3(1) by (simp add: insert_case5_def RBT_SETBLACK_def RBT_SETRED_def)
  moreover have "settled s ?t0 (fst s1, m3)"
    by (rule settledI [OF m3(2) s1(4)]) (use s1(2) m2(3) m3(3) same_rest_trans in blast)
  ultimately show ?thesis by blast
qed

lemma insert_case4_moves:
  assumes rep: "tree_rep s (plug ((b, p, u) # (b', g, u') # c) t)" and a: "rootof t = Some node"
  shows "\<exists>s' b1 p1 u1 c1 t1. insert_case4 s node p g = Some (s', p1, ctx_parent c1) \<and>
    tree_rep s' (plug ((b1, p1, u1) # c1) t1) \<and> rootof t1 = Some node \<and> same_rest s s' \<and>
    inorder (plug ((b1, p1, u1) # c1) t1) = inorder (plug ((b, p, u) # (b', g, u') # c) t)"
proof -
  let ?tp = "node_on b p u t"
  have rep': "tree_rep s (plug ((b', g, u') # c) ?tp)" using rep by simp
  obtain pn where pn: "snd s p = Some pn" "rleft pn = Some node \<longleftrightarrow> \<not> b" "rright pn = Some node \<longleftrightarrow> b"
    by (rule in_ctxE [OF rep a]) blast
  obtain gn where gn: "snd s g = Some gn" "rleft gn = Some p \<longleftrightarrow> \<not> b'" "rright gn = Some p \<longleftrightarrow> b'"
    by (rule in_ctxE [OF rep', of p]) (simp, blast)
  show ?thesis
  proof (cases "b = b'")
    case True
    then have "insert_case4 s node p g = Some (s, p, Some g)"
      using pn gn by (auto simp: insert_case4_def)
    then show ?thesis using rep a by (intro exI [of _ s] exI [of _ b] exI [of _ p] exI [of _ u] exI [of _ "(b', g, u') # c"] exI [of _ t]) simp
  next
    case False
    obtain s1 t1 where s1: "rotate_up b s p = Some s1" "tree_rep s1 (plug ((b', g, u') # c) t1)" "rootof t1 = Some node" "same_rest s s1"
        "inorder (plug ((b', g, u') # c) t1) = inorder (plug ((b, p, u) # (b', g, u') # c) t)"
      by (rule rotate_childE [OF rep a])
    obtain n1 gn1 where n1: "snd s1 node = Some n1" "rparent n1 = Some g" "snd s1 g = Some gn1" "rparent gn1 = ctx_parent c"
      by (rule in_ctxE [OF s1(2,3)])
    have "insert_case4 s node p g = Some (s1, g, ctx_parent c)"
      using pn gn False s1(1) n1 by (cases b) (auto simp: insert_case4_def rbt_rotate_left_def rbt_rotate_right_def Let_def)
    then show ?thesis using s1(2-5) by blast
  qed
qed

lemma adjust_insert_settled:
  "tree_rep s (plug c t) \<Longrightarrow> rootof t = Some node \<Longrightarrow>
     \<exists>s'. rbt_adjust_on_insert s node = Some s' \<and> settled s (plug c t) s'"
proof (induction c arbitrary: s t node rule: length_induct)
  case (1 c)
  note rep = 1(2) and a = 1(3)
  have nt: "node \<in> set_tree (plug c t)" using root_in_set [OF a] by simp
  show ?case
  proof (cases "rroot (fst s) = Some node")
    case True
    obtain m' where m': "RBT_SET False (snd s) node = Some m'" "tree_rep (fst s, m') (plug c t)" "same_rest s (fst s, m')"
      by (rule recolourE [OF rep nt])
    have "rbt_adjust_on_insert s node = Some (fst s, m')"
      using True m'(1) by (subst rbt_adjust_on_insert.simps) (simp add: RBT_SETBLACK_def)
    then show ?thesis using settledI [OF m'(2) refl m'(3)] by blast
  next
    case nr: False
    have "c \<noteq> []" using nr rep a by (auto simp: tree_rep_def)
    then obtain b p u c1 where c: "c = (b, p, u) # c1" by (cases c) auto
    obtain n pn where n: "snd s node = Some n" "rparent n = Some p" "snd s p = Some pn" "rparent pn = ctx_parent c1"
      by (rule in_ctxE [OF rep [unfolded c] a])
    have pr: "RBT_ISRED (snd s) (rparent n) = Some (rred pn)" using n(2,3) by (simp add: RBT_ISRED_def)
    have here: "settled s (plug c t) s" by (rule settledI [OF rep]) simp_all
    show ?thesis
    proof (cases "rred pn")
      case False
      then have "rbt_adjust_on_insert s node = Some s" using nr n(1) pr by (subst rbt_adjust_on_insert.simps) simp
      then show ?thesis using here by blast
    next
      case red: True
      show ?thesis
      proof (cases c1)
        case Nil
        then have "rbt_adjust_on_insert s node = Some s"
          using nr n pr red by (subst rbt_adjust_on_insert.simps) (simp add: RBT_ISRED_def)
        then show ?thesis using here by blast
      next
        case (Cons e c2)
        obtain b' g u' where e: "e = (b', g, u')" by (cases e)
        have rep': "tree_rep s (plug ((b', g, u') # c2) (node_on b p u t))" using rep c Cons e by simp
        obtain gn where gn: "snd s g = Some gn" "sibling_of gn p = rootof u'" "rleft gn = Some p \<longleftrightarrow> \<not> b'"
            "kid b' gn = Some p" "kid (\<not> b') gn = rootof u'"
          by (rule in_ctxE [OF rep', of p]) (simp, blast)
        have u: "(if rleft gn \<noteq> Some p then rleft gn else rright gn) = rootof u'"
          using gn(3-5) by (cases b') (auto simp: kid_def)
        have inu: "x \<in> set_tree (plug c t)" if "rootof u' = Some x" for x
          using root_in_set [OF that] c Cons e by simp
        obtain ur where ur: "RBT_ISRED (snd s) (rootof u') = Some ur" using isred_some [OF rep, of "rootof u'"] inu by blast
        have gp: "rparent pn = Some g" using n(4) Cons e by simp
        show ?thesis
        proof (cases ur)
          case True
          then obtain ua where ua: "rootof u' = Some ua" using ur by (cases "rootof u'") (auto simp: RBT_ISRED_def)
          have ins: "p \<in> set_tree (plug c t)" "g \<in> set_tree (plug c t)" "ua \<in> set_tree (plug c t)"
            using c Cons e inu [OF ua] by auto
          obtain m1 where m1: "RBT_SET False (snd s) p = Some m1" "tree_rep (fst s, m1) (plug c t)" "same_rest s (fst s, m1)"
            by (rule recolourE [OF rep ins(1)])
          obtain m2 where m2: "RBT_SET False m1 ua = Some m2" "tree_rep (fst s, m2) (plug c t)" "same_rest (fst s, m1) (fst s, m2)"
            using recolourE [OF m1(2) ins(3), of False] by (metis fst_conv snd_conv)
          obtain m3 where m3: "RBT_SET True m2 g = Some m3" "tree_rep (fst s, m3) (plug c t)" "same_rest (fst s, m2) (fst s, m3)"
            using recolourE [OF m2(2) ins(2), of True] by (metis fst_conv snd_conv)
          have same: "same_rest s (fst s, m3)" using m1(3) m2(3) m3(3) same_rest_trans by blast
          let ?t2 = "node_on b' g u' (node_on b p u t)"
          have pl: "plug c t = plug c2 ?t2" using c Cons e by simp
          have "\<exists>s'. rbt_adjust_on_insert (fst s, m3) g = Some s' \<and> settled (fst s, m3) (plug c2 ?t2) s'"
            using 1(1) [rule_format, of c2] m3(2) pl c Cons by simp
          then obtain s' where s': "rbt_adjust_on_insert (fst s, m3) g = Some s'" "settled s (plug c t) s'"
            unfolding pl using settled_first [OF _ same] by blast
          have "rbt_adjust_on_insert s node = rbt_adjust_on_insert (fst s, m3) g"
            using nr n(1,2,3) pr red gp gn(1) u ur True ua m1(1) m2(1) m3(1)
            by (subst rbt_adjust_on_insert.simps) (simp add: RBT_SETBLACK_def RBT_SETRED_def)
          then show ?thesis using s' by auto
        next
          case False
          obtain s1 b1 p1 u1 c3 t1 where k4: "insert_case4 s node p g = Some (s1, p1, ctx_parent c3)"
              "tree_rep s1 (plug ((b1, p1, u1) # c3) t1)" "rootof t1 = Some node" "same_rest s s1"
              "inorder (plug ((b1, p1, u1) # c3) t1) = inorder (plug c t)"
            using insert_case4_moves [of s b p u b' g u' c2 t node] rep a c Cons e by auto
          obtain s2 where s2: "insert_case5 s1 node p1 (ctx_parent c3) = Some s2" "settled s1 (plug ((b1, p1, u1) # c3) t1) s2"
            using insert_case5_settled [OF k4(2,3)] by blast
          have "settled s (plug c t) s2"
            by (rule settled_first [OF settled_inorder [OF s2(2) k4(5)] k4(4)])
          moreover have "rbt_adjust_on_insert s node = Some s2"
            using nr n(1,2,3) pr red gp gn(1) u ur False k4(1) s2(1)
            by (subst rbt_adjust_on_insert.simps) simp
          ultimately show ?thesis by blast
        qed
      qed
    qed
  qed
qed

subsection \<open>The adjustment before a removal\<close>

lemma plug_flip: "plug ((b, p, u) # c) t = plug ((\<not> b, p, t) # c) u"
  by (simp add: node_on_def)

lemma isred_redof: "RBT_ISRED m (Some a) = redof m a"
  by (simp add: RBT_ISRED_def redof_def)

lemma set_red_redof: "RBT_SET r m a = Some m' \<Longrightarrow> redof m' = (redof m)(a \<mapsto> r)"
proof -
  assume "RBT_SET r m a = Some m'"
  then obtain n where "m a = Some n" "m' = m(a \<mapsto> n\<lparr>rred := r\<rparr>)" by (auto simp: RBT_SET_def upd_rb_def)
  then show ?thesis by (simp add: redof_def fun_eq_iff)
qed

text \<open>The sibling goes up: the parent stays the node's parent.\<close>

lemma rotate_sibling:
  assumes rep: "tree_rep s (plug ((b, p, u) # c) t)" and u: "u \<noteq> Leaf" and a: "rootof t = Some a"
  obtains s' u' c' where "(if b then rbt_rotate_right s p else rbt_rotate_left s p) = Some s'"
    "tree_rep s' (plug ((b, p, u') # c') t)" "same_rest s s'" "redof (snd s') = redof (snd s)"
    "inorder (plug ((b, p, u') # c') t) = inorder (plug ((b, p, u) # c) t)"
proof -
  obtain e where e: "rootof u = Some e" using u by (cases u) auto
  have rep': "tree_rep s (plug ((\<not> b, p, t) # c) u)" using rep plug_flip by metis
  obtain s' t' where s': "rotate_up (\<not> b) s p = Some s'" "tree_rep s' (plug c t')" "same_rest s s'" "redof (snd s') = redof (snd s)"
      "inorder (plug c t') = inorder (plug ((\<not> b, p, t) # c) u)"
      "\<exists>x y. u = node_on (\<not> b) e x y \<and> t' = node_on (\<not> b) e (node_on (\<not> b) p t x) y"
    by (rule rotate_childE [OF rep' e])
  then obtain x y where xy: "t' = node_on (\<not> b) e (node_on (\<not> b) p t x) y" by blast
  have pl: "plug c t' = plug ((b, p, x) # (b, e, y) # c) t" unfolding xy by (simp add: node_on_def)
  have "inorder (plug ((b, p, x) # (b, e, y) # c) t) = inorder (plug ((b, p, u) # c) t)"
    using s'(5) pl plug_flip by metis
  moreover have "(if b then rbt_rotate_right s p else rbt_rotate_left s p) = Some s'"
    using s'(1) by (cases b) (simp_all add: rbt_rotate_right_def rbt_rotate_left_def)
  ultimately show thesis using that s'(2-4) pl by metis
qed

lemma remove_case2_moves:
  assumes rep: "tree_rep s (plug ((b, p, u) # c) t)" and a: "rootof t = Some node"
  shows "\<exists>s' u' c'. remove_case2 s node p = Some (s', p, rootof u') \<and> tree_rep s' (plug ((b, p, u') # c') t) \<and> same_rest s s' \<and>
    inorder (plug ((b, p, u') # c') t) = inorder (plug ((b, p, u) # c) t) \<and> (redof (snd s') p = Some True \<or> s' = s \<and> u' = u \<and> c' = c)"
proof -
  let ?t = "plug ((b, p, u) # c) t"
  obtain pn where pn: "snd s p = Some pn" "sibling_of pn node = rootof u" "rleft pn = Some node \<longleftrightarrow> \<not> b"
    by (rule in_ctxE [OF rep a]) blast
  have inu: "x \<in> set_tree ?t" if "rootof u = Some x" for x using root_in_set [OF that] by simp
  obtain sr where sr: "RBT_ISRED (snd s) (rootof u) = Some sr" using isred_some [OF rep, of "rootof u"] inu by blast
  show ?thesis
  proof (cases sr)
    case False
    then have "remove_case2 s node p = Some (s, p, rootof u)" using pn sr by (simp add: remove_case2_def Let_def)
    then show ?thesis using rep by auto
  next
    case True
    then obtain e where e: "rootof u = Some e" using sr by (cases "rootof u") (auto simp: RBT_ISRED_def)
    have ins: "e \<in> set_tree ?t" "p \<in> set_tree ?t" using inu [OF e] by simp_all
    obtain m1 where m1: "RBT_SET False (snd s) e = Some m1" "tree_rep (fst s, m1) ?t" "same_rest s (fst s, m1)"
      by (rule recolourE [OF rep ins(1)])
    obtain m2 where m2: "RBT_SET True m1 p = Some m2" "tree_rep (fst s, m2) ?t" "same_rest (fst s, m1) (fst s, m2)"
      using recolourE [OF m1(2) ins(2), of True] by (metis fst_conv snd_conv)
    have un: "u \<noteq> Leaf" using e by auto
    obtain s3 u' c' where s3: "(if b then rbt_rotate_right (fst s, m2) p else rbt_rotate_left (fst s, m2) p) = Some s3"
        "tree_rep s3 (plug ((b, p, u') # c') t)" "same_rest (fst s, m2) s3" "redof (snd s3) = redof (snd (fst s, m2))"
        "inorder (plug ((b, p, u') # c') t) = inorder ?t"
      by (rule rotate_sibling [OF m2(2) un a])
    obtain n3 pn3 where n3: "snd s3 node = Some n3" "rparent n3 = Some p" "snd s3 p = Some pn3" "sibling_of pn3 node = rootof u'"
      by (rule in_ctxE [OF s3(2) a]) blast
    have "remove_case2 s node p = Some (s3, p, rootof u')"
      using pn sr True e m1(1) m2(1) s3(1) n3
      by (cases b) (simp_all add: remove_case2_def Let_def RBT_SETBLACK_def RBT_SETRED_def)
    moreover have "redof (snd s3) p = Some True" using s3(4) set_red_redof [OF m2(1)] by simp
    moreover have "same_rest s s3" using m1(3) m2(3) s3(3) same_rest_trans by blast
    ultimately show ?thesis using s3(2,5) by blast
  qed
qed

lemma remove_case5_moves:
  assumes rep: "tree_rep s (plug ((b, p, u) # c) t)" and a: "rootof t = Some node" and e: "rootof u = Some sib"
  shows "\<exists>s' u' sib'. remove_case5 s node p sib = Some (s', p, sib') \<and> tree_rep s' (plug ((b, p, u') # c) t) \<and> rootof u' = Some sib' \<and>
    same_rest s s' \<and> inorder (plug ((b, p, u') # c) t) = inorder (plug ((b, p, u) # c) t)"
proof -
  let ?t = "plug ((b, p, u) # c) t"
  obtain pn where pn: "snd s p = Some pn" "rleft pn = Some node \<longleftrightarrow> \<not> b" "rright pn = Some node \<longleftrightarrow> b"
    by (rule in_ctxE [OF rep a]) blast
  obtain l r where u: "u = Node l sib r" using e by (cases u) auto
  have repu: "tree_rep s (plug ((\<not> b, p, t) # c) (Node l sib r))" using rep plug_flip u by metis
  obtain sn where sn: "snd s sib = Some sn" "rleft sn = rootof l" "rright sn = rootof r"
    by (rule nodeE [OF repu])
  have ins: "sib \<in> set_tree ?t" "\<And>x. rootof l = Some x \<Longrightarrow> x \<in> set_tree ?t" "\<And>x. rootof r = Some x \<Longrightarrow> x \<in> set_tree ?t"
    using u root_in_set by fastforce+
  obtain lr where lr: "RBT_ISRED (snd s) (rootof l) = Some lr" using isred_some [OF rep, of "rootof l"] ins(2) by blast
  obtain rr where rr: "RBT_ISRED (snd s) (rootof r) = Some rr" using isred_some [OF rep, of "rootof r"] ins(3) by blast
  let ?inner = "if b then r else l"
  text \<open>The inner child of the sibling goes up.\<close>
  have up: "\<exists>m1 m2 s' u' sib' n' pn'. RBT_SETRED (snd s) sib = Some m1 \<and> upd_opt m1 (rootof ?inner) (rred_update (\<lambda>_. False)) = Some m2 \<and>
      rotate_up b (fst s, m2) sib = Some s' \<and> tree_rep s' (plug ((b, p, u') # c) t) \<and> rootof u' = Some sib' \<and>
      same_rest s s' \<and> inorder (plug ((b, p, u') # c) t) = inorder ?t \<and>
      snd s' node = Some n' \<and> rparent n' = Some p \<and> snd s' p = Some pn' \<and> sibling_of pn' node = Some sib'"
    if i: "?inner \<noteq> Leaf"
  proof -
    obtain x where x: "rootof ?inner = Some x" using i by (cases ?inner) auto
    have xin: "\<And>y. rootof ?inner = Some y \<Longrightarrow> y \<in> set_tree ?t" using ins by (cases b) auto
    obtain m1 where m1: "RBT_SET True (snd s) sib = Some m1" "tree_rep (fst s, m1) ?t" "same_rest s (fst s, m1)"
      by (rule recolourE [OF rep ins(1)])
    obtain m2 where m2: "upd_opt m1 (rootof ?inner) (rred_update (\<lambda>_. False)) = Some m2" "tree_rep (fst s, m2) ?t" "same_rest (fst s, m1) (fst s, m2)"
      using recolour_optE [OF m1(2) xin, where r = False] by (metis fst_conv snd_conv)
    let ?outer = "if b then l else r"
    have "plug ((\<not> b, p, t) # c) u = plug ((b, sib, ?outer) # (\<not> b, p, t) # c) ?inner"
      unfolding u by (cases b) (simp_all add: node_on_def)
    then have rep2: "tree_rep (fst s, m2) (plug ((b, sib, ?outer) # (\<not> b, p, t) # c) ?inner)"
      and io: "inorder (plug ((b, sib, ?outer) # (\<not> b, p, t) # c) ?inner) = inorder ?t"
      using m2(2) plug_flip by metis+
    obtain s' t' where s': "rotate_up b (fst s, m2) sib = Some s'" "tree_rep s' (plug ((\<not> b, p, t) # c) t')" "rootof t' = Some x"
        "same_rest (fst s, m2) s'" "inorder (plug ((\<not> b, p, t) # c) t') = inorder (plug ((b, sib, ?outer) # (\<not> b, p, t) # c) ?inner)"
      by (rule rotate_childE [OF rep2 x])
    have rep3: "tree_rep s' (plug ((b, p, t') # c) t)" and io3: "inorder (plug ((b, p, t') # c) t) = inorder ?t"
      using s'(2,5) io plug_flip [of b p t' c t] by simp_all
    obtain n' pn' where n': "snd s' node = Some n'" "rparent n' = Some p" "snd s' p = Some pn'" "sibling_of pn' node = rootof t'"
      by (rule in_ctxE [OF rep3 a]) blast
    have "same_rest s s'" using m1(3) m2(3) s'(4) same_rest_trans by blast
    then show ?thesis using m1(1) m2(1) s'(1,3) rep3 io3 n'(1-3) n'(4) [unfolded s'(3)]
      unfolding RBT_SETRED_def by blast
  qed
  have stay: ?thesis if "remove_case5 s node p sib = Some (s, p, sib)" using that rep e by auto
  show ?thesis
  proof (cases "\<not> rred sn \<and> (if b then rr \<and> \<not> lr else lr \<and> \<not> rr)")
    case False
    then have "remove_case5 s node p sib = Some (s, p, sib)"
      using pn sn lr rr by (cases b) (auto simp: remove_case5_def Let_def)
    then show ?thesis by (rule stay)
  next
    case True
    then have "?inner \<noteq> Leaf" using lr rr by (cases b) (auto simp: RBT_ISRED_def)
    from up [OF this] obtain m1 m2 s' u' sib' n' pn' where f: "RBT_SETRED (snd s) sib = Some m1"
        "upd_opt m1 (rootof ?inner) (rred_update (\<lambda>_. False)) = Some m2"
        "rotate_up b (fst s, m2) sib = Some s'" "tree_rep s' (plug ((b, p, u') # c) t)" "rootof u' = Some sib'"
        "same_rest s s'" "inorder (plug ((b, p, u') # c) t) = inorder ?t"
        "snd s' node = Some n'" "rparent n' = Some p" "snd s' p = Some pn'" "sibling_of pn' node = Some sib'" by blast
    have "remove_case5 s node p sib = Some (s', p, sib')"
      using True pn sn lr rr f by (cases b) (simp_all add: remove_case5_def Let_def rbt_rotate_left_def rbt_rotate_right_def)
    then show ?thesis using f(4-7) by blast
  qed
qed

lemma remove_case6_settled:
  assumes rep: "tree_rep s (plug ((b, p, u) # c) t)" and a: "rootof t = Some node" and e: "rootof u = Some sib"
  shows "\<exists>s'. remove_case6 s node p sib = Some s' \<and> settled s (plug ((b, p, u) # c) t) s'"
proof -
  let ?t = "plug ((b, p, u) # c) t"
  obtain l r where u: "u = Node l sib r" using e by (cases u) auto
  have ins: "sib \<in> set_tree ?t" "p \<in> set_tree ?t" "\<And>x. rootof l = Some x \<Longrightarrow> x \<in> set_tree ?t" "\<And>x. rootof r = Some x \<Longrightarrow> x \<in> set_tree ?t"
    using u root_in_set by fastforce+
  obtain pr where pr: "RBT_ISRED (snd s) (Some p) = Some pr" using isred_some [OF rep, of "Some p"] ins(2) by blast
  obtain m1 where m1: "RBT_SET pr (snd s) sib = Some m1" "tree_rep (fst s, m1) ?t" "same_rest s (fst s, m1)"
    by (rule recolourE [OF rep ins(1)])
  obtain m2 where m2: "RBT_SET False m1 p = Some m2" "tree_rep (fst s, m2) ?t" "same_rest (fst s, m1) (fst s, m2)"
    using recolourE [OF m1(2) ins(2), of False] by (metis fst_conv snd_conv)
  obtain pn where pn: "m2 p = Some pn" "rleft pn = Some node \<longleftrightarrow> \<not> b"
    using in_ctxE [OF m2(2) a] by (metis snd_conv)
  have repu: "tree_rep (fst s, m2) (plug ((\<not> b, p, t) # c) (Node l sib r))" using m2(2) plug_flip u by metis
  obtain sn where sn: "m2 sib = Some sn" "rleft sn = rootof l" "rright sn = rootof r"
    using nodeE [OF repu] by (metis snd_conv)
  let ?outer = "if b then l else r"
  have oin: "\<And>y. rootof ?outer = Some y \<Longrightarrow> y \<in> set_tree ?t" using ins by (cases b) auto
  obtain m3 where m3: "upd_opt m2 (rootof ?outer) (rred_update (\<lambda>_. False)) = Some m3" "tree_rep (fst s, m3) ?t" "same_rest (fst s, m2) (fst s, m3)"
    using recolour_optE [OF m2(2) oin, where r = False] by (metis fst_conv snd_conv)
  have un: "u \<noteq> Leaf" using u by simp
  obtain s' u' c' where s': "(if b then rbt_rotate_right (fst s, m3) p else rbt_rotate_left (fst s, m3) p) = Some s'"
      "tree_rep s' (plug ((b, p, u') # c') t)" "same_rest (fst s, m3) s'" "inorder (plug ((b, p, u') # c') t) = inorder ?t"
    by (rule rotate_sibling [OF m3(2) un a])
  have "RBT_SETCOLOR (snd s) sib (Some p) = Some m1"
    using pr m1(1) by (cases pr) (simp_all add: RBT_SETCOLOR_def RBT_SETRED_def RBT_SETBLACK_def)
  then have "remove_case6 s node p sib = Some s'"
    using m2(1) pn sn m3(1) s'(1) by (cases b) (simp_all add: remove_case6_def RBT_SETBLACK_def)
  moreover have "same_rest s s'" using m1(3) m2(3) m3(3) s'(3) same_rest_trans by blast
  ultimately show ?thesis using settledI [OF s'(2,4)] by blast
qed

lemma adjust_remove_settled:
  "tree_rep s (plug c t) \<Longrightarrow> rootof t = Some node \<Longrightarrow>
     \<exists>s'. rbt_adjust_on_remove s node = Some s' \<and> settled s (plug c t) s'"
proof (induction c arbitrary: s t node rule: length_induct)
  case (1 c)
  note rep = 1(2) and a = 1(3)
  show ?case
  proof (cases c)
    case Nil
    obtain l r where t: "t = Node l node r" using a by (cases t) auto
    obtain n where n: "snd s node = Some n" "rparent n = None"
      by (rule nodeE [OF rep [unfolded t]]) (simp add: Nil)
    then have "rbt_adjust_on_remove s node = Some s" by (subst rbt_adjust_on_remove.simps) simp
    then show ?thesis using settledI [OF rep] by auto
  next
    case (Cons e c0)
    obtain b p u where e: "e = (b, p, u)" by (cases e)
    have c: "c = (b, p, u) # c0" using Cons e by simp
    obtain n where n: "snd s node = Some n" "rparent n = Some p"
      by (rule in_ctxE [OF rep [unfolded c] a])
    obtain s1 u1 c1 where k2: "remove_case2 s node p = Some (s1, p, rootof u1)" "tree_rep s1 (plug ((b, p, u1) # c1) t)"
        "same_rest s s1" "inorder (plug ((b, p, u1) # c1) t) = inorder (plug c t)" "redof (snd s1) p = Some True \<or> s1 = s \<and> u1 = u \<and> c1 = c0"
      using remove_case2_moves [OF rep [unfolded c] a] unfolding c by blast
    let ?t1 = "plug ((b, p, u1) # c1) t"
    have here: "settled s (plug c t) s1" by (rule settledI [OF k2(2,4,3)])
    show ?thesis
    proof (cases u1)
      case Leaf
      then have "rbt_adjust_on_remove s node = Some s1" using n k2(1) by (subst rbt_adjust_on_remove.simps) simp
      then show ?thesis using here by blast
    next
      case (Node l sib r)
      have repu: "tree_rep s1 (plug ((\<not> b, p, t) # c1) (Node l sib r))" using k2(2) plug_flip Node by metis
      obtain sn where sn: "snd s1 sib = Some sn" "rleft sn = rootof l" "rright sn = rootof r"
        by (rule nodeE [OF repu])
      obtain pn where pn: "snd s1 p = Some pn" by (rule in_ctxE [OF k2(2) a])
      have ins: "sib \<in> set_tree ?t1" "p \<in> set_tree ?t1" "\<And>x. rootof l = Some x \<Longrightarrow> x \<in> set_tree ?t1" "\<And>x. rootof r = Some x \<Longrightarrow> x \<in> set_tree ?t1"
        using Node root_in_set by fastforce+
      obtain lr where lr: "RBT_ISRED (snd s1) (rootof l) = Some lr" using isred_some [OF k2(2), of "rootof l"] ins(3) by blast
      obtain rr where rr: "RBT_ISRED (snd s1) (rootof r) = Some rr" using isred_some [OF k2(2), of "rootof r"] ins(4) by blast
      consider "\<not> rred pn \<and> \<not> rred sn \<and> \<not> lr \<and> \<not> rr" | "rred pn \<and> \<not> rred sn \<and> \<not> lr \<and> \<not> rr"
        | "\<not> (\<not> rred sn \<and> \<not> lr \<and> \<not> rr)" by blast
      then show ?thesis
      proof cases
        case k3: 1
        have s1: "s1 = s" "u1 = u" "c1 = c0" using k2(5) k3 pn by (auto simp: redof_def)
        obtain m2 where m2: "RBT_SET True (snd s1) sib = Some m2" "tree_rep (fst s1, m2) ?t1" "same_rest s1 (fst s1, m2)"
          by (rule recolourE [OF k2(2) ins(1)])
        let ?t2 = "node_on b p u1 t"
        have pl: "?t1 = plug c0 ?t2" using s1 by simp
        have "\<exists>s'. rbt_adjust_on_remove (fst s1, m2) p = Some s' \<and> settled (fst s1, m2) (plug c0 ?t2) s'"
          using 1(1) [rule_format, of c0 "(fst s1, m2)" ?t2 p] m2(2) pl c by simp
        then obtain s' where s': "rbt_adjust_on_remove (fst s1, m2) p = Some s'" "settled (fst s1, m2) ?t1 s'"
          unfolding pl by blast
        have "rbt_adjust_on_remove s node = Some s'"
          using n k2(1) Node sn pn lr rr k3 m2(1) s'(1) by (subst rbt_adjust_on_remove.simps) (simp add: RBT_SETRED_def)
        moreover have "settled s (plug c t) s'"
          by (rule settled_first [OF settled_inorder [OF s'(2) k2(4)]]) (use k2(3) m2(3) same_rest_trans in blast)
        ultimately show ?thesis by blast
      next
        case k4: 2
        obtain m2 where m2: "RBT_SET False (snd s1) p = Some m2" "tree_rep (fst s1, m2) ?t1" "same_rest s1 (fst s1, m2)"
          by (rule recolourE [OF k2(2) ins(2)])
        obtain m3 where m3: "RBT_SET True m2 sib = Some m3" "tree_rep (fst s1, m3) ?t1" "same_rest (fst s1, m2) (fst s1, m3)"
          using recolourE [OF m2(2) ins(1), of True] by (metis fst_conv snd_conv)
        have "rbt_adjust_on_remove s node = Some (fst s1, m3)"
          using n k2(1) Node sn pn lr rr k4 m2(1) m3(1)
          by (subst rbt_adjust_on_remove.simps) (simp add: RBT_SETRED_def RBT_SETBLACK_def)
        moreover have "settled s (plug c t) (fst s1, m3)"
          by (rule settledI [OF m3(2) k2(4)]) (use k2(3) m2(3) m3(3) same_rest_trans in blast)
        ultimately show ?thesis by blast
      next
        case k5: 3
        have root: "rootof u1 = Some sib" using Node by simp
        obtain s2 u2 sib2 where m5: "remove_case5 s1 node p sib = Some (s2, p, sib2)" "tree_rep s2 (plug ((b, p, u2) # c1) t)"
            "rootof u2 = Some sib2" "same_rest s1 s2" "inorder (plug ((b, p, u2) # c1) t) = inorder ?t1"
          using remove_case5_moves [OF k2(2) a root] by blast
        obtain s3 where m6: "remove_case6 s2 node p sib2 = Some s3" "settled s2 (plug ((b, p, u2) # c1) t) s3"
          using remove_case6_settled [OF m5(2) a m5(3)] by blast
        have "rbt_adjust_on_remove s node = Some s3"
          using n k2(1) Node sn pn lr rr k5 m5(1) m6(1) by (subst rbt_adjust_on_remove.simps) auto
        moreover have "settled s (plug c t) s3"
          by (rule settled_first [OF settled_inorder [OF m6(2)]])
             (use m5(4,5) k2(3,4) same_rest_trans in \<open>simp, blast\<close>)
        ultimately show ?thesis by blast
      qed
    qed
  qed
qed

end
