(* ===== verification/Rbt_Refine.thy ===== *)
theory Rbt_Refine
  imports Rbt_Tree
begin

text \<open>
  What the red-black tree promises: \<open>rbt_rep s xs\<close> says that the nodes of the structure are \<open>xs\<close> in the
  order of their keys, in the tree and in the chain alike. Insertion, lookup and removal act on that
  list; they keep it whatever the colours of the nodes are, since the colours are not always right
  (the two lemmas at the end).
\<close>

subsection \<open>The chain\<close>

fun linked :: "rblinks \<Rightarrow> addr option \<Rightarrow> addr list \<Rightarrow> addr option \<Rightarrow> bool" where
  "linked L p [] q \<longleftrightarrow> True"
| "linked L p (a # xs) q \<longleftrightarrow> L a = Some (p, first_of xs q) \<and> linked L (Some a) xs q"

lemma linked_append [simp]: "linked L p (xs @ ys) q \<longleftrightarrow> linked L p xs (first_of ys q) \<and> linked L (last_of p xs) ys q"
  by (induction xs arbitrary: p) auto

lemma linked_cong: "(\<And>e. e \<in> set xs \<Longrightarrow> L' e = L e) \<Longrightarrow> linked L' p xs q = linked L p xs q"
  by (induction xs arbitrary: p) auto

definition renext :: "rblinks \<Rightarrow> addr option \<Rightarrow> addr option \<Rightarrow> rblinks" where
  "renext L q n = (case q of None \<Rightarrow> L | Some a \<Rightarrow> L(a := map_option (\<lambda>x. (fst x, n)) (L a)))"

definition reprev :: "rblinks \<Rightarrow> addr option \<Rightarrow> addr option \<Rightarrow> rblinks" where
  "reprev L q p = (case q of None \<Rightarrow> L | Some a \<Rightarrow> L(a := map_option (\<lambda>x. (p, snd x)) (L a)))"

lemma relink_other: "q \<noteq> Some e \<Longrightarrow> renext L q n e = L e" "q \<noteq> Some e \<Longrightarrow> reprev L q n e = L e"
  by (auto simp: renext_def reprev_def split: option.splits)

lemma last_of_in: "last_of None xs = Some a \<Longrightarrow> a \<in> set xs"
  by (auto simp: last_of_def split: if_splits)

lemma first_of_in: "first_of xs None = Some a \<Longrightarrow> a \<in> set xs"
  by (cases xs) auto

lemma linked_renext:
  assumes "linked L p xs q" "distinct xs"
  shows "linked (renext L (last_of None xs) q') p xs q'"
proof (cases xs rule: rev_cases)
  case (snoc ys a)
  have "linked (renext L (Some a) q') p ys (Some a) = linked L p ys (Some a)"
    by (rule linked_cong) (use assms(2) snoc in \<open>auto intro!: relink_other\<close>)
  then show ?thesis using assms(1) snoc by (simp add: renext_def)
qed simp

lemma linked_reprev:
  assumes "linked L p xs q" "distinct xs"
  shows "linked (reprev L (first_of xs None) p') p' xs q"
proof (cases xs)
  case (Cons a ys)
  have "linked (reprev L (Some a) p') (Some a) ys q = linked L (Some a) ys q"
    by (rule linked_cong) (use assms(2) Cons in \<open>auto intro!: relink_other\<close>)
  then show ?thesis using assms(1) Cons by (simp add: reprev_def)
qed simp

text \<open>Two neighbouring parts of a chain, relinked where they meet.\<close>

lemma linked_meet:
  assumes l: "linked L None xs q" "linked L p ys None" and d: "distinct (xs @ ys)"
    and L': "\<And>e. e \<in> set (xs @ ys) \<Longrightarrow> L' e = reprev (renext L (last_of None xs) q') (first_of ys None) p' e"
  shows "linked L' None xs q' \<and> linked L' p' ys None"
proof
  have "linked L' None xs q' = linked (renext L (last_of None xs) q') None xs q'"
  proof (rule linked_cong)
    fix e assume e: "e \<in> set xs"
    then have "first_of ys None \<noteq> Some e" using d first_of_in by fastforce
    then show "L' e = renext L (last_of None xs) q' e" using L' e relink_other(2) by simp
  qed
  then show "linked L' None xs q'" using linked_renext [OF l(1)] d by simp
  have "linked L' p' ys None = linked (reprev L (first_of ys None) p') p' ys None"
  proof (rule linked_cong)
    fix e assume e: "e \<in> set ys"
    then have "last_of None xs \<noteq> Some e" using d last_of_in by fastforce
    then have "renext L (last_of None xs) q' e = L e" by (rule relink_other(1))
    then show "L' e = reprev L (first_of ys None) p' e" using L' e by (auto simp: reprev_def split: option.splits)
  qed
  then show "linked L' p' ys None" using linked_reprev [OF l(2)] d by simp
qed

subsection \<open>The whole structure\<close>

definition chain_rep :: "'d rbstate \<Rightarrow> addr list \<Rightarrow> bool" where
  "chain_rep s xs \<longleftrightarrow>
     linked (links (snd s)) None xs None \<and> rhead (fst s) = first_of xs None \<and> rtail (fst s) = last_of None xs \<and>
     rnelem (fst s) = length xs \<and> length xs < 2 ^ 64"

lemma chain_same: "same_rest s s' \<Longrightarrow> chain_rep s' xs \<longleftrightarrow> chain_rep s xs"
  by (simp add: same_rest_def chain_rep_def)

abbreviation key_sorted :: "'d rbstore \<Rightarrow> addr list \<Rightarrow> bool" where
  "key_sorted m xs \<equiv> sorted_wrt (\<lambda>a b. nkey m a < nkey m b) xs"

definition rbt_rep :: "'d rbstate \<Rightarrow> addr list \<Rightarrow> bool" where
  "rbt_rep s xs \<longleftrightarrow> (\<exists>t. tree_rep s t \<and> inorder t = xs) \<and> chain_rep s xs \<and> key_sorted (snd s) xs"

text \<open>A node as \<^verbatim>\<open>rbt_node_init\<close> and removal leave it.\<close>

definition unlinked :: "'d rbstore \<Rightarrow> addr \<Rightarrow> bool" where
  "unlinked m a \<longleftrightarrow> shape m a = Some (None, None, None) \<and> links m a = Some (None, None)"

lemma rbt_node_init_unlinked: "unlinked (rbt_node_init m a key d) a"
  by (simp add: unlinked_def rbt_node_init_def)

lemma rbt_init_rep: "rbt_rep (rbt_init, m) []"
  by (auto simp: rbt_rep_def tree_rep_def chain_rep_def rbt_init_def intro: exI [of _ Leaf])

subsection \<open>Hanging a node\<close>

definition attach :: "bool \<Rightarrow> 'd rbstate \<Rightarrow> addr \<Rightarrow> addr \<Rightarrow> 'd rbstate option" where
  "attach b s a x = (if b then attach_right s a x else attach_left s a x)"

lemma attach_left_run:
  assumes "m a = Some n" "m x = Some t" "a \<noteq> x" "\<forall>p. rprev n = Some p \<longrightarrow> m p = Some (pn p) \<and> p \<noteq> a \<and> p \<noteq> x"
  shows "attach_left (rbt, m) a x =
    Some ((case rprev n of None \<Rightarrow> (inc_nelem rbt)\<lparr>rhead := Some x\<rparr> | Some p \<Rightarrow> inc_nelem rbt),
      (case rprev n of None \<Rightarrow> m | Some p \<Rightarrow> m(p \<mapsto> pn p\<lparr>rnext := Some x\<rparr>))
        (a \<mapsto> n\<lparr>rleft := Some x, rprev := Some x\<rparr>,
         x \<mapsto> t\<lparr>rred := True, rparent := Some a, rprev := rprev n, rnext := Some a\<rparr>))"
proof (cases "rprev n")
  case None
  then show ?thesis using assms(1-3)
    by (simp add: attach_left_def upd_rb_def RBT_SETRED_def RBT_SET_def Let_def fun_upd_twist)
next
  case (Some p)
  then show ?thesis using assms(1-3) assms(4) [rule_format, OF Some]
    by (simp add: attach_left_def upd_rb_def RBT_SETRED_def RBT_SET_def Let_def fun_eq_iff)
qed

lemma attach_right_run:
  assumes "m a = Some n" "m x = Some t" "a \<noteq> x" "\<forall>p. rnext n = Some p \<longrightarrow> m p = Some (pn p) \<and> p \<noteq> a \<and> p \<noteq> x"
  shows "attach_right (rbt, m) a x =
    Some ((case rnext n of None \<Rightarrow> (inc_nelem rbt)\<lparr>rtail := Some x\<rparr> | Some p \<Rightarrow> inc_nelem rbt),
      (case rnext n of None \<Rightarrow> m | Some p \<Rightarrow> m(p \<mapsto> pn p\<lparr>rprev := Some x\<rparr>))
        (a \<mapsto> n\<lparr>rright := Some x, rnext := Some x\<rparr>,
         x \<mapsto> t\<lparr>rred := True, rparent := Some a, rnext := rnext n, rprev := Some a\<rparr>))"
proof (cases "rnext n")
  case None
  then show ?thesis using assms(1-3)
    by (simp add: attach_right_def upd_rb_def RBT_SETRED_def RBT_SET_def Let_def fun_upd_twist)
next
  case (Some p)
  then show ?thesis using assms(1-3) assms(4) [rule_format, OF Some]
    by (simp add: attach_right_def upd_rb_def RBT_SETRED_def RBT_SET_def Let_def fun_eq_iff)
qed

lemma attach_tree:
  assumes t: "tree_at S None (plug c Leaf)" and d: "distinct (ctx_pre c @ ctx_post c)" and x: "x \<notin> ctx_set c"
    and S': "\<And>e. e \<noteq> x \<Longrightarrow> S' e = rekid S c (Some x) e" "S' x = Some (ctx_parent c, None, None)"
  shows "tree_at S' None (plug c (Node Leaf x Leaf))"
proof -
  have "ctx_at S None c" using t by (simp add: plug_at)
  then have "ctx_at (rekid S c (Some x)) (Some x) c" using d by (rule ctx_at_rekid)
  moreover have "ctx_at S' (Some x) c = ctx_at (rekid S c (Some x)) (Some x) c"
    by (rule ctx_at_cong, rule S'(1)) (use x in auto)
  ultimately show ?thesis using S'(2) by (simp add: plug_at)
qed

lemma attach_links:
  assumes l: "linked L None (xs @ ys) None" and d: "distinct (xs @ x # ys)"
    and L': "\<And>e. e \<noteq> x \<Longrightarrow> L' e = reprev (renext L (last_of None xs) (Some x)) (first_of ys None) (Some x) e"
      "L' x = Some (last_of None xs, first_of ys None)"
  shows "linked L' None (xs @ x # ys) None"
proof -
  have "linked L' None xs (Some x) \<and> linked L' (Some x) ys None"
  proof (rule linked_meet [of L xs "first_of ys None" "last_of None xs" ys])
    show "L' e = reprev (renext L (last_of None xs) (Some x)) (first_of ys None) (Some x) e" if "e \<in> set (xs @ ys)" for e
      by (rule L'(1)) (use d that in auto)
  qed (use l d in auto)
  then show ?thesis using L'(2) by simp
qed

lemma attach_rep:
  assumes rep: "tree_rep s (plug ((b, a, u) # c) Leaf)" and ch: "chain_rep s (inorder (plug ((b, a, u) # c) Leaf))"
    and un: "unlinked (snd s) x" and x: "x \<notin> set_tree (plug ((b, a, u) # c) Leaf)"
    and len: "length (inorder (plug ((b, a, u) # c) Leaf)) + 1 < 2 ^ 64"
  shows "\<exists>s'. attach b s a x = Some s' \<and> tree_rep s' (plug ((b, a, u) # c) (Node Leaf x Leaf)) \<and>
    chain_rep s' (inorder (plug ((b, a, u) # c) (Node Leaf x Leaf))) \<and> keyof (snd s') = keyof (snd s)"
proof -
  obtain rbt m where s: "s = (rbt, m)" by (cases s)
  let ?c = "(b, a, u) # c" and ?xs = "ctx_pre ((b, a, u) # c)" and ?ys = "ctx_post ((b, a, u) # c)"
  have t: "tree_at (shape m) None (plug ?c Leaf)" and root: "rroot rbt = rootof (plug ?c Leaf)" and d: "distinct (?xs @ ?ys)"
    using rep s unfolding tree_rep_def inorder_plug by simp_all
  have l: "linked (links m) None (?xs @ ?ys) None" and hd: "rhead rbt = first_of (?xs @ ?ys) None"
    and tl: "rtail rbt = last_of None (?xs @ ?ys)" and nel: "rnelem rbt = length (?xs @ ?ys)"
    using ch s unfolding chain_rep_def inorder_plug by simp_all
  have xn: "x \<notin> ctx_set ?c" "a \<noteq> x" using x by auto
  have xl: "x \<notin> set (?xs @ ?ys)" using xn(1) unfolding ctx_set_lists by simp
  obtain tn where tn: "m x = Some tn" "rparent tn = None" "rleft tn = None" "rright tn = None" "rprev tn = None" "rnext tn = None"
    using un s by (auto simp: unlinked_def shape_def links_def)
  have sa: "shape m a = Some (ctx_parent c, if b then rootof u else None, if b then None else rootof u)"
    using t unfolding plug_at by simp
  then obtain n where n: "m a = Some n" "rparent n = ctx_parent c" "rleft n = (if b then rootof u else None)"
      "rright n = (if b then None else rootof u)" by (auto simp: shape_some)
  have la: "links m a = Some (rprev n, rnext n)" by (rule projections_some(2) [of m a n, OF n(1)])
  have run: "\<exists>rbt' m'. attach b s a x = Some (rbt', m') \<and>
      rroot rbt' = rroot rbt \<and> rnelem rbt' = SZ (rnelem rbt + 1) \<and>
      rhead rbt' = first_of (?xs @ x # ?ys) None \<and> rtail rbt' = last_of None (?xs @ x # ?ys) \<and>
      (\<forall>e. e \<noteq> x \<longrightarrow> shape m' e = rekid (shape m) ?c (Some x) e) \<and> shape m' x = Some (Some a, None, None) \<and>
      (\<forall>e. e \<noteq> x \<longrightarrow> links m' e = reprev (renext (links m) (last_of None ?xs) (Some x)) (first_of ?ys None) (Some x) e) \<and>
      links m' x = Some (last_of None ?xs, first_of ?ys None) \<and> keyof m' = keyof m"
  proof (cases b)
    case False
    have pv: "rprev n = last_of None ?xs" using l la False by simp
    have ys: "first_of ?ys None = Some a" using False by simp
    have "\<exists>pn. m p = Some pn \<and> p \<noteq> a \<and> p \<noteq> x" if "rprev n = Some p" for p
    proof -
      have p: "p \<in> set ?xs" using pv that last_of_in by metis
      then have "p \<noteq> a" "p \<noteq> x" using d xl False by auto
      moreover have "p \<in> set_tree (plug ?c Leaf)" using p by (auto simp: ctx_set_lists split: if_splits)
      then have "\<exists>pn. m p = Some pn" using tree_node [OF rep] s by (metis snd_conv)
      ultimately show ?thesis by blast
    qed
    then obtain pn where pn: "\<forall>p. rprev n = Some p \<longrightarrow> m p = Some (pn p) \<and> p \<noteq> a \<and> p \<noteq> x" by metis
    note r = attach_left_run [OF n(1) tn(1) xn(2) pn, of rbt]
    show ?thesis
    proof (cases "rprev n")
      case None
      then have e: "?xs = []" using pv by (simp add: last_of_def split: if_splits)
      obtain rbt' m' where eq: "attach b s a x = Some (rbt', m')" and eqs: "Some (rbt', m') = attach_left (rbt, m) a x"
        using r False s by (simp add: attach_def)
      note eqs = eqs [unfolded r None option.case, simplified]
      show ?thesis unfolding eq
        by (intro exI conjI, rule refl)
           (use eqs None False e s n tn hd tl ys xn(2) la in \<open>auto simp: inc_nelem_def rekid_def shape_def links_def keyof_def reprev_def renext_def last_of_def\<close>)
    next
      case (Some p)
      then have e: "?xs \<noteq> []" "last_of None ?xs = Some p" using pv by (auto simp: last_of_def split: if_splits)
      have h: "first_of (ctx_pre c) (Some a) = first_of (ctx_pre c) (Some x)" using e(1) False by (cases "ctx_pre c") auto
      have tl': "last_of None (?xs @ x # ?ys) = last_of None (?xs @ ?ys)" using False by simp
      obtain rbt' m' where eq: "attach b s a x = Some (rbt', m')" and eqs: "Some (rbt', m') = attach_left (rbt, m) a x"
        using r False s by (simp add: attach_def)
      note eqs = eqs [unfolded r Some option.case, simplified]
      show ?thesis unfolding eq
        by (intro exI conjI, rule refl)
           (use eqs Some False e(2) s n tn hd tl tl' h ys xn(2) la pn [rule_format, OF Some] in \<open>auto simp: inc_nelem_def rekid_def shape_def links_def keyof_def reprev_def renext_def\<close>)
    qed
  next
    case True
    have xs: "last_of None ?xs = Some a" using True by simp
    have nx: "rnext n = first_of ?ys None" using l la True by simp
    have "\<exists>pn. m p = Some pn \<and> p \<noteq> a \<and> p \<noteq> x" if "rnext n = Some p" for p
    proof -
      have p: "p \<in> set ?ys" using nx that first_of_in by metis
      then have "p \<noteq> a" "p \<noteq> x" using d xl True by auto
      moreover have "p \<in> set_tree (plug ?c Leaf)" using p by (auto simp: ctx_set_lists split: if_splits)
      then have "\<exists>pn. m p = Some pn" using tree_node [OF rep] s by (metis snd_conv)
      ultimately show ?thesis by blast
    qed
    then obtain pn where pn: "\<forall>p. rnext n = Some p \<longrightarrow> m p = Some (pn p) \<and> p \<noteq> a \<and> p \<noteq> x" by metis
    note r = attach_right_run [OF n(1) tn(1) xn(2) pn, of rbt]
    have h: "first_of (?xs @ x # ?ys) None = first_of (?xs @ ?ys) None" using True by (cases "ctx_pre c"; cases "inorder u") auto
    show ?thesis
    proof (cases "rnext n")
      case None
      then have e: "?ys = []" using nx True by simp
      obtain rbt' m' where eq: "attach b s a x = Some (rbt', m')" and eqs: "Some (rbt', m') = attach_right (rbt, m) a x"
        using r True s by (simp add: attach_def)
      note eqs = eqs [unfolded r None option.case, simplified]
      show ?thesis unfolding eq
        by (intro exI conjI, rule refl)
           (use eqs None True e s n tn hd tl h xs xn(2) la in \<open>auto simp: inc_nelem_def rekid_def shape_def links_def keyof_def reprev_def renext_def\<close>)
    next
      case (Some p)
      then have e: "first_of ?ys None = Some p" "?ys \<noteq> []" using nx by auto
      have tl': "last_of None (?xs @ x # ?ys) = last_of None (?xs @ ?ys)" using e(2) by (auto simp: last_of_def)
      obtain rbt' m' where eq: "attach b s a x = Some (rbt', m')" and eqs: "Some (rbt', m') = attach_right (rbt, m) a x"
        using r True s by (simp add: attach_def)
      note eqs = eqs [unfolded r Some option.case, simplified]
      show ?thesis unfolding eq
        by (intro exI conjI, rule refl)
           (use eqs Some True e(1) s n tn hd tl tl' h xs xn(2) la pn [rule_format, OF Some] in \<open>auto simp: inc_nelem_def rekid_def shape_def links_def keyof_def reprev_def renext_def\<close>)
    qed
  qed
  then obtain rbt' m' where r: "attach b s a x = Some (rbt', m')"
      "rroot rbt' = rroot rbt" "rnelem rbt' = SZ (rnelem rbt + 1)"
      "rhead rbt' = first_of (?xs @ x # ?ys) None" "rtail rbt' = last_of None (?xs @ x # ?ys)"
      "\<And>e. e \<noteq> x \<Longrightarrow> shape m' e = rekid (shape m) ?c (Some x) e" "shape m' x = Some (Some a, None, None)"
      "\<And>e. e \<noteq> x \<Longrightarrow> links m' e = reprev (renext (links m) (last_of None ?xs) (Some x)) (first_of ?ys None) (Some x) e"
      "links m' x = Some (last_of None ?xs, first_of ?ys None)" "keyof m' = keyof m" by blast
  have dx: "distinct (?xs @ x # ?ys)" using d xl by auto
  have "tree_at (shape m') None (plug ?c (Node Leaf x Leaf))"
    by (rule attach_tree [OF t d xn(1) r(6)]) (simp_all add: r(7))
  moreover have "rroot rbt' = rootof (plug ?c (Node Leaf x Leaf))"
    using root r(2) root_plug [of ?c Leaf "Node Leaf x Leaf"] by simp
  ultimately have tr: "tree_rep (rbt', m') (plug ?c (Node Leaf x Leaf))"
    unfolding tree_rep_def inorder_plug using dx by simp
  have "linked (links m') None (?xs @ x # ?ys) None"
    by (rule attach_links [OF l dx r(8,9)])
  moreover have "rnelem rbt' = length (?xs @ x # ?ys)" using r(3) nel len unfolding inorder_plug by (simp add: SZ_def)
  moreover have "length (?xs @ x # ?ys) < 2 ^ 64" using len unfolding inorder_plug by (cases b) simp_all
  ultimately have "chain_rep (rbt', m') (?xs @ x # ?ys)"
    unfolding chain_rep_def fst_conv snd_conv using r(4,5) by blast
  moreover have "inorder (plug ?c (Node Leaf x Leaf)) = ?xs @ x # ?ys" unfolding inorder_plug by simp
  ultimately have "chain_rep (rbt', m') (inorder (plug ?c (Node Leaf x Leaf)))" by simp
  then show ?thesis using r(1,10) tr s by auto
qed

subsection \<open>The search\<close>

lemma plug_left: "plug c (Node l a r) = plug ((False, a, r) # c) l"
  and plug_right: "plug c (Node l a r) = plug ((True, a, l) # c) r"
  by (simp_all add: node_on_def)

lemma sorted_node:
  assumes "key_sorted m (inorder (plug c (Node l a r)))"
  shows "\<forall>y \<in> set_tree l. nkey m y < nkey m a" "\<forall>y \<in> set_tree r. nkey m a < nkey m y"
  using assms unfolding inorder_plug by (auto simp: sorted_wrt_append)

lemma find_loop_rep:
  "tree_rep s (plug c t) \<Longrightarrow> key_sorted (snd s) (inorder (plug c t)) \<Longrightarrow>
     \<exists>r. find_loop (snd s) key (rootof t) = Some r \<and>
       (case r of None \<Rightarrow> \<forall>a \<in> set_tree t. nkey (snd s) a \<noteq> key | Some a \<Rightarrow> a \<in> set_tree t \<and> nkey (snd s) a = key)"
proof (induction t arbitrary: c)
  case Leaf
  show ?case by (subst find_loop.simps) simp
next
  case (Node l a r)
  let ?k = "nkey (snd s)"
  obtain n where n: "snd s a = Some n" "rleft n = rootof l" "rright n = rootof r" "?k a = rkey n"
    by (rule nodeE [OF Node.prems(1)])
  note so = sorted_node [OF Node.prems(2)]
  consider "key = rkey n" | "key < rkey n" | "key > rkey n" by (rule linorder_cases)
  then show ?case
  proof cases
    case 1
    then have "find_loop (snd s) key (rootof (Node l a r)) = Some (Some a)" using n(1) by (subst find_loop.simps) simp
    then show ?thesis using n(4) 1 by auto
  next
    case 2
    then have f: "find_loop (snd s) key (rootof (Node l a r)) = find_loop (snd s) key (rootof l)"
      using n(1,2) by (subst find_loop.simps) auto
    obtain x where "find_loop (snd s) key (rootof l) = Some x"
        "case x of None \<Rightarrow> \<forall>a \<in> set_tree l. ?k a \<noteq> key | Some a \<Rightarrow> a \<in> set_tree l \<and> ?k a = key"
      using Node.IH(1) [of "(False, a, r) # c"] Node.prems unfolding plug_left by blast
    then show ?thesis using f so(2) n(4) 2 by (cases x) auto
  next
    case 3
    then have f: "find_loop (snd s) key (rootof (Node l a r)) = find_loop (snd s) key (rootof r)"
      using n(1,3) by (subst find_loop.simps) auto
    obtain x where "find_loop (snd s) key (rootof r) = Some x"
        "case x of None \<Rightarrow> \<forall>a \<in> set_tree r. ?k a \<noteq> key | Some a \<Rightarrow> a \<in> set_tree r \<and> ?k a = key"
      using Node.IH(2) [of "(True, a, l) # c"] Node.prems unfolding plug_right by blast
    then show ?thesis using f so(1) n(4) 3 by (cases x) auto
  qed
qed

text \<open>The new node is hung where the search ends.\<close>

definition hung :: "'d rbstate \<Rightarrow> addr tree \<Rightarrow> addr \<Rightarrow> 'd rbstate \<Rightarrow> bool" where
  "hung s t x s' \<longleftrightarrow>
     (\<exists>c. tree_rep s' (plug c (Node Leaf x Leaf)) \<and> chain_rep s' (ctx_pre c @ x # ctx_post c) \<and>
        keyof (snd s') = keyof (snd s) \<and> ctx_pre c @ ctx_post c = inorder t \<and>
        (\<forall>y \<in> set (ctx_pre c). nkey (snd s) y < nkey (snd s) x) \<and> (\<forall>y \<in> set (ctx_post c). nkey (snd s) x < nkey (snd s) y))"

lemma attach_hung:
  assumes "tree_rep s (plug ((b, a, u) # c) Leaf)" "chain_rep s (inorder (plug ((b, a, u) # c) Leaf))"
    "unlinked (snd s) x" "x \<notin> set_tree (plug ((b, a, u) # c) Leaf)"
    "length (inorder (plug ((b, a, u) # c) Leaf)) + 1 < 2 ^ 64"
    "\<forall>y \<in> set (ctx_pre ((b, a, u) # c)). nkey (snd s) y < nkey (snd s) x"
    "\<forall>y \<in> set (ctx_post ((b, a, u) # c)). nkey (snd s) x < nkey (snd s) y"
  obtains s' where "attach b s a x = Some s'" "hung s (plug ((b, a, u) # c) Leaf) x s'"
proof -
  obtain s' where s': "attach b s a x = Some s'" "tree_rep s' (plug ((b, a, u) # c) (Node Leaf x Leaf))"
      "chain_rep s' (inorder (plug ((b, a, u) # c) (Node Leaf x Leaf)))" "keyof (snd s') = keyof (snd s)"
    using attach_rep [OF assms(1-5)] by blast
  have "inorder (plug ((b, a, u) # c) (Node Leaf x Leaf)) = ctx_pre ((b, a, u) # c) @ x # ctx_post ((b, a, u) # c)"
    "inorder (plug ((b, a, u) # c) Leaf) = ctx_pre ((b, a, u) # c) @ ctx_post ((b, a, u) # c)"
    unfolding inorder_plug by simp_all
  then have "hung s (plug ((b, a, u) # c) Leaf) x s'"
    unfolding hung_def using s'(2-4) assms(6,7) by (intro exI [of _ "(b, a, u) # c"]) metis
  then show thesis using that [OF s'(1)] by blast
qed

lemma insert_at_rep:
  "tree_rep s (plug c t) \<Longrightarrow> chain_rep s (inorder (plug c t)) \<Longrightarrow> key_sorted (snd s) (inorder (plug c t)) \<Longrightarrow>
   unlinked (snd s) x \<Longrightarrow> x \<notin> set_tree (plug c t) \<Longrightarrow> length (inorder (plug c t)) + 1 < 2 ^ 64 \<Longrightarrow> t \<noteq> Leaf \<Longrightarrow>
   \<forall>y \<in> set (ctx_pre c). nkey (snd s) y < nkey (snd s) x \<Longrightarrow> \<forall>y \<in> set (ctx_post c). nkey (snd s) x < nkey (snd s) y \<Longrightarrow>
   (\<exists>a \<in> set_tree t. nkey (snd s) a = nkey (snd s) x \<and> insert_at s (rootof t) x = Some (0, Some a, s)) \<or>
   (\<exists>r s'. insert_at s (rootof t) x = Some (r, None, s') \<and> r \<noteq> 0 \<and> hung s (plug c t) x s')"
proof (induction t arbitrary: c)
  case (Node l a r)
  let ?k = "nkey (snd s)"
  obtain n where n: "snd s a = Some n" "rleft n = rootof l" "rright n = rootof r" "?k a = rkey n"
    by (rule nodeE [OF Node.prems(1)])
  obtain tn where tn: "snd s x = Some tn" "?k x = rkey tn"
    using Node.prems(4) nkey_some by (auto simp: unlinked_def shape_some)
  note so = sorted_node [OF Node.prems(3)]
  consider "rkey tn = rkey n" | "rkey tn < rkey n" | "rkey tn > rkey n" by (rule linorder_cases)
  then show ?case
  proof cases
    case 1
    then have "insert_at s (rootof (Node l a r)) x = Some (0, Some a, s)"
      using n(1) tn(1) by (subst insert_at.simps) simp
    then show ?thesis using n(4) tn(2) 1 by auto
  next
    case 2
    have k: "\<forall>y \<in> set (ctx_pre ((False, a, r) # c)). ?k y < ?k x" "\<forall>y \<in> set (ctx_post ((False, a, r) # c)). ?k x < ?k y"
      using Node.prems(8,9) so(2) n(4) tn(2) 2 by auto
    note prems = Node.prems(1-6) [unfolded plug_left]
    show ?thesis
    proof (cases l)
      case Leaf
      obtain s' where s': "attach False s a x = Some s'" "hung s (plug ((False, a, r) # c) l) x s'"
        unfolding Leaf by (rule attach_hung [OF prems(1,2,4-6) [unfolded Leaf] k])
      have "insert_at s (rootof (Node l a r)) x = Some (-1, None, s')"
        using n tn 2 Leaf s'(1) by (subst insert_at.simps) (simp add: attach_def)
      then show ?thesis using s'(2) plug_left by fastforce
    next
      case sub: (Node l1 b l2)
      then have "insert_at s (rootof (Node l a r)) x = insert_at s (rootof l) x"
        using n tn 2 by (subst insert_at.simps) auto
      moreover have "l \<noteq> Leaf" using sub by simp
      ultimately show ?thesis using Node.IH(1) [OF prems _ k] plug_left by auto
    qed
  next
    case 3
    have ng: "\<not> rkey tn < rkey n" using 3 by auto
    have k: "\<forall>y \<in> set (ctx_pre ((True, a, l) # c)). ?k y < ?k x" "\<forall>y \<in> set (ctx_post ((True, a, l) # c)). ?k x < ?k y"
      using Node.prems(8,9) so(1) n(4) tn(2) 3 by auto
    note prems = Node.prems(1-6) [unfolded plug_right]
    show ?thesis
    proof (cases r)
      case Leaf
      obtain s' where s': "attach True s a x = Some s'" "hung s (plug ((True, a, l) # c) r) x s'"
        unfolding Leaf by (rule attach_hung [OF prems(1,2,4-6) [unfolded Leaf] k])
      have "insert_at s (rootof (Node l a r)) x = Some (1, None, s')"
        using n tn 3 ng Leaf s'(1) by (subst insert_at.simps) (simp add: attach_def)
      then show ?thesis using s'(2) plug_right by fastforce
    next
      case sub: (Node l1 b l2)
      then have "insert_at s (rootof (Node l a r)) x = insert_at s (rootof r) x"
        using n tn 3 ng by (subst insert_at.simps) auto
      moreover have "r \<noteq> Leaf" using sub by simp
      ultimately show ?thesis using Node.IH(2) [OF prems _ k] plug_right by auto
    qed
  qed
qed simp

lemma rbt_find_rep:
  assumes "rbt_rep s xs"
  shows "rbt_find s key = Some (find (\<lambda>a. nkey (snd s) a = key) xs)"
proof -
  obtain t where t: "tree_rep s t" "inorder t = xs" using assms by (auto simp: rbt_rep_def)
  have srt: "key_sorted (snd s) xs" using assms by (simp add: rbt_rep_def)
  obtain r where r: "find_loop (snd s) key (rootof t) = Some r"
      "case r of None \<Rightarrow> \<forall>a \<in> set_tree t. nkey (snd s) a \<noteq> key | Some a \<Rightarrow> a \<in> set_tree t \<and> nkey (snd s) a = key"
    using find_loop_rep [of s "[]" t key] t srt by auto
  have f: "rbt_find s key = Some r" using r(1) t(1) by (simp add: rbt_find_def tree_rep_def)
  have xs: "set_tree t = set xs" using t(2) by auto
  show ?thesis
  proof (cases r)
    case None
    then have "find (\<lambda>a. nkey (snd s) a = key) xs = None" using r(2) xs by (simp add: find_None_iff)
    then show ?thesis using f None by simp
  next
    case (Some a)
    then have a: "a \<in> set xs" "nkey (snd s) a = key" using r(2) xs by auto
    then obtain b where b: "find (\<lambda>a. nkey (snd s) a = key) xs = Some b"
      by (cases "find (\<lambda>a. nkey (snd s) a = key) xs") (auto simp: find_None_iff)
    then have "b \<in> set xs" "nkey (snd s) b = key" by (auto simp: find_Some_iff)
    then have "b = a" using a srt by (metis (no_types, lifting) in_set_conv_nth linorder_neqE_nat order_less_irrefl sorted_wrt_nth_less)
    then show ?thesis using f Some b by simp
  qed
qed

subsection \<open>Insertion\<close>

lemma insort_between:
  fixes f :: "'a \<Rightarrow> 'b::linorder"
  shows "\<forall>y \<in> set xs. f y < f x \<Longrightarrow> \<forall>y \<in> set ys. f x < f y \<Longrightarrow> insort_key f x (xs @ ys) = xs @ x # ys"
proof (induction xs)
  case Nil
  then show ?case by (cases ys) auto
next
  case (Cons a xs)
  then have "\<not> f x \<le> f a" by auto
  then show ?case using Cons by simp
qed

lemma nkey_same: "keyof m' = keyof m \<Longrightarrow> nkey m' = nkey m"
  by (simp add: nkey_def fun_eq_iff)

lemma insert_empty:
  assumes rep: "rbt_rep s []" and un: "unlinked (snd s) x"
  shows "\<exists>s'. insert_at s (rroot (fst s)) x = Some (-2, None, s') \<and> hung s Leaf x s'"
proof -
  obtain rbt m where s: "s = (rbt, m)" by (cases s)
  have r: "rroot rbt = None" "rnelem rbt = 0" using rep s by (auto simp: rbt_rep_def tree_rep_def chain_rep_def)
  obtain n where n: "m x = Some n" "rparent n = None" "rleft n = None" "rright n = None" "rprev n = None" "rnext n = None"
    using un s by (auto simp: unlinked_def shape_def links_def)
  let ?m = "m(x \<mapsto> n\<lparr>rred := True\<rparr>)"
  let ?s = "((inc_nelem (rbt\<lparr>rroot := Some x\<rparr>))\<lparr>rhead := Some x, rtail := Some x\<rparr>, ?m)"
  have "insert_at s (rroot (fst s)) x = Some (-2, None, ?s)"
    using r n(1) s by (subst insert_at.simps) (simp add: RBT_SETRED_def RBT_SET_def upd_rb_def Let_def)
  moreover have "keyof ?m = keyof m" by (rule keyof_const [of m x n]) (use n in simp_all)
  then have "hung s Leaf x ?s"
    unfolding hung_def using r(2) n s
    by (intro exI [of _ "[]"]) (simp add: tree_rep_def chain_rep_def inc_nelem_def SZ_def)
  ultimately show ?thesis by blast
qed

lemma hung_insert:
  assumes h: "hung s t x s1" and srt: "key_sorted (snd s) (inorder t)"
  obtains s2 where "rbt_adjust_on_insert s1 x = Some s2" "rbt_rep s2 (insort_key (nkey (snd s)) x (inorder t))"
    "keyof (snd s2) = keyof (snd s)"
proof -
  let ?k = "nkey (snd s)"
  obtain c where c: "tree_rep s1 (plug c (Node Leaf x Leaf))" "chain_rep s1 (ctx_pre c @ x # ctx_post c)"
      "keyof (snd s1) = keyof (snd s)" "ctx_pre c @ ctx_post c = inorder t"
      "\<forall>y \<in> set (ctx_pre c). ?k y < ?k x" "\<forall>y \<in> set (ctx_post c). ?k x < ?k y"
    using h unfolding hung_def by blast
  obtain s2 where s2: "rbt_adjust_on_insert s1 x = Some s2" "settled s1 (plug c (Node Leaf x Leaf)) s2"
    using adjust_insert_settled [OF c(1)] by auto
  obtain t2 where t2: "tree_rep s2 t2" "inorder t2 = ctx_pre c @ x # ctx_post c" "same_rest s1 s2"
    using s2(2) unfolding settled_def inorder_plug by auto
  have k2: "keyof (snd s2) = keyof (snd s)" using t2(3) c(3) by (simp add: same_rest_def)
  have "key_sorted (snd s) (ctx_pre c @ x # ctx_post c)"
    using srt unfolding c(4) [symmetric] using c(5,6) by (auto simp: sorted_wrt_append)
  then have "rbt_rep s2 (ctx_pre c @ x # ctx_post c)"
    unfolding rbt_rep_def nkey_same [OF k2] using t2(1,2) chain_same [OF t2(3)] c(2) by blast
  moreover have "insort_key ?k x (inorder t) = ctx_pre c @ x # ctx_post c"
    unfolding c(4) [symmetric] by (rule insort_between [OF c(5,6)])
  ultimately show thesis using that [OF s2(1)] k2 by simp
qed

text \<open>
  C6: \<^verbatim>\<open>rbt_insert\<close> puts a node that is not linked anywhere into the structure: if a node has its key already,
  that one is reported and nothing changes; otherwise the nodes are those before and the new one, the chain
  and the tree in the order of the keys, whatever colours the nodes have.
\<close>

theorem rbt_insert_inserts:
  assumes rep: "rbt_rep s xs" and un: "unlinked (snd s) x" and new: "x \<notin> set xs" and len: "length xs + 1 < 2 ^ 64"
  shows "\<exists>res dup s'. rbt_insert s x = Some (res, dup, s') \<and>
    (case find (\<lambda>a. nkey (snd s) a = nkey (snd s) x) xs of
       Some a \<Rightarrow> res = 0 \<and> dup = Some a \<and> s' = s
     | None \<Rightarrow> res \<noteq> 0 \<and> dup = None \<and> rbt_rep s' (insort_key (nkey (snd s)) x xs) \<and> keyof (snd s') = keyof (snd s))"
proof -
  let ?k = "nkey (snd s)"
  obtain t where t: "tree_rep s t" "inorder t = xs" using rep by (auto simp: rbt_rep_def)
  have srt: "key_sorted (snd s) (inorder t)" and ch: "chain_rep s (inorder t)" using rep t(2) by (simp_all add: rbt_rep_def)
  have rt: "rroot (fst s) = rootof t" using t(1) by (simp add: tree_rep_def)
  have hung: "\<exists>res s1. insert_at s (rroot (fst s)) x = Some (res, None, s1) \<and> res \<noteq> 0 \<and> hung s t x s1 \<Longrightarrow> ?thesis"
  proof -
    assume "\<exists>res s1. insert_at s (rroot (fst s)) x = Some (res, None, s1) \<and> res \<noteq> 0 \<and> hung s t x s1"
    then obtain res s1 where i: "insert_at s (rroot (fst s)) x = Some (res, None, s1)" "res \<noteq> 0" "hung s t x s1" by blast
    obtain s2 where s2: "rbt_adjust_on_insert s1 x = Some s2" "rbt_rep s2 (insort_key ?k x (inorder t))"
        "keyof (snd s2) = keyof (snd s)"
      by (rule hung_insert [OF i(3) srt])
    have "find (\<lambda>a. ?k a = ?k x) xs = None"
      using i(3) t(2) unfolding hung_def find_None_iff by (metis Un_iff less_irrefl set_append)
    moreover have "rbt_insert s x = Some (res, None, s2)" using i(1,2) s2(1) by (simp add: rbt_insert_def)
    ultimately show ?thesis using i(2) s2(2,3) t(2) by simp
  qed
  show ?thesis
  proof (cases "t = Leaf")
    case True
    then show ?thesis using insert_empty [of s x] rep t(2) un hung by fastforce
  next
    case False
    consider a where "a \<in> set_tree t" "?k a = ?k x" "insert_at s (rootof t) x = Some (0, Some a, s)"
      | r s' where "insert_at s (rootof t) x = Some (r, None, s')" "r \<noteq> 0" "hung s t x s'"
      using insert_at_rep [of s "[]" t x] t ch srt un new len False by auto
    then show ?thesis
    proof cases
      case 1
      have a: "a \<in> set xs" using 1(1) t(2) by auto
      obtain b where b: "find (\<lambda>a. ?k a = ?k x) xs = Some b"
        using a 1(2) by (cases "find (\<lambda>a. ?k a = ?k x) xs") (auto simp: find_None_iff)
      then have "b \<in> set xs" "?k b = ?k x" by (auto simp: find_Some_iff)
      then have "b = a" using a 1(2) srt t(2)
        by (metis (no_types, lifting) in_set_conv_nth linorder_neqE_nat order_less_irrefl sorted_wrt_nth_less)
      moreover have "rbt_insert s x = Some (0, Some a, s)" using 1(3) rt by (simp add: rbt_insert_def)
      ultimately show ?thesis using b by simp
    next
      case 2
      then show ?thesis using hung rt by auto
    qed
  qed
qed

subsection \<open>Taking the replacement out\<close>

text \<open>A subtree in the place of a tree that holds it.\<close>

lemma sub_up_tree:
  assumes c: "ctx_at S q c" and x: "tree_at S p x" and d: "distinct (inorder (plug c x))"
    and S': "\<And>e. e \<in> ctx_set c \<union> set_tree x \<Longrightarrow> S' e = reparent (rekid S c (rootof x)) (rootof x) (ctx_parent c) e"
  shows "tree_at S' None (plug c x)"
proof -
  have ds: "distinct (ctx_pre c @ ctx_post c)" "distinct (inorder x)" "set_tree x \<inter> ctx_set c = {}"
    using d unfolding inorder_plug ctx_set_lists by auto
  have "ctx_at S' (rootof x) c = ctx_at (rekid S c (rootof x)) (rootof x) c"
  proof (rule ctx_at_cong)
    fix e assume e: "e \<in> ctx_set c"
    then have "rootof x \<noteq> Some e" using ds(3) root_in_set by blast
    then show "S' e = rekid S c (rootof x) e" using S' e reparent_other by simp
  qed
  moreover have "tree_at S' (ctx_parent c) x = tree_at (reparent S (rootof x) (ctx_parent c)) (ctx_parent c) x"
  proof (rule tree_at_cong)
    fix e assume e: "e \<in> set_tree x"
    then have "rekid S c (rootof x) e = S e" using ds(3) ctx_parent_set by (intro rekid_other) blast
    then show "S' e = reparent S (rootof x) (ctx_parent c) e" using S' e by (auto simp: reparent_def split: option.splits)
  qed
  ultimately show ?thesis
    using ctx_at_rekid [OF c ds(1)] tree_at_reparent [OF x ds(2)] by (simp add: plug_at)
qed

lemma far_kid_rep:
  "tree_rep s (plug c t) \<Longrightarrow> rootof t = Some a \<Longrightarrow>
     \<exists>c2 r x. far_kid d (snd s) a = Some r \<and> t = plug c2 (node_on d r x Leaf) \<and> (if d then ctx_post c2 = [] else ctx_pre c2 = [])"
proof (induction t arbitrary: c a)
  case (Node l b r)
  let ?near = "if d then l else r" and ?far = "if d then r else l"
  have t: "Node l b r = node_on d b ?near ?far" by (simp add: node_on_def)
  obtain n where n: "snd s b = Some n" "rleft n = rootof l" "rright n = rootof r"
    by (rule nodeE [OF Node.prems(1)])
  have ab: "a = b" using Node.prems(2) by simp
  have k: "kid d n = rootof ?far" using n by (simp add: kid_def)
  show ?case
  proof (cases "rootof ?far")
    case None
    then have "far_kid d (snd s) a = Some b" using n(1) k ab by (subst far_kid.simps) simp
    moreover have "?far = Leaf" using None by (cases ?far) auto
    then have "Node l b r = plug [] (node_on d b ?near Leaf)" using t by simp
    ultimately show ?thesis by (intro exI [of _ "[]"] exI [of _ b] exI [of _ ?near]) simp
  next
    case (Some e)
    have rep: "tree_rep s (plug ((d, b, ?near) # c) ?far)" using Node.prems(1) t by simp
    obtain c2 x r' where ih: "far_kid d (snd s) e = Some r'" "?far = plug c2 (node_on d r' x Leaf)"
        "if d then ctx_post c2 = [] else ctx_pre c2 = []"
      using Node.IH(1) [of "(d, b, ?near) # c" e] Node.IH(2) [of "(d, b, ?near) # c" e] rep Some by (cases d) (simp, blast)+
    have "far_kid d (snd s) a = Some r'" using n(1) k ab Some ih(1) by (subst far_kid.simps) simp
    moreover have "Node l b r = plug (c2 @ [(d, b, ?near)]) (node_on d r' x Leaf)"
      unfolding plug_append ih(2) [symmetric] using t by simp
    moreover have "ctx_post (c2 @ c3) = ctx_post c2 @ ctx_post c3" "ctx_pre (c2 @ c3) = ctx_pre c3 @ ctx_pre c2" for c3
      by (induction c2 rule: ctx_set.induct) auto
    then have "if d then ctx_post (c2 @ [(d, b, ?near)]) = [] else ctx_pre (c2 @ [(d, b, ?near)]) = []"
      using ih(3) by (cases d) simp_all
    ultimately show ?thesis by blast
  qed
qed simp

lemma unhang_rep:
  assumes rep: "tree_rep s (plug ((b, q, u) # c) (node_on d r x Leaf))"
  shows "\<exists>s'. unhang_repl s (Some r) (rootof x) = Some s' \<and> settled s (plug ((b, q, u) # c) x) s'"
proof -
  let ?c = "(b, q, u) # c"
  let ?t = "plug ((b, q, u) # c) x"
  obtain rbt m where s: "s = (rbt, m)" by (cases s)
  have at: "tree_at (shape m) None (plug ?c (node_on d r x Leaf))" and root: "rroot rbt = rootof (plug ?c (node_on d r x Leaf))"
    and dd: "distinct (inorder (plug ?c (node_on d r x Leaf)))" using rep s by (simp_all add: tree_rep_def)
  have ctx: "ctx_at (shape m) (Some r) ?c" and xt: "tree_at (shape m) (Some r) x"
    using at unfolding plug_at by (auto simp: tree_at_node_on)
  have dx: "distinct (inorder ?t)" "r \<notin> set_tree ?t" using dd unfolding inorder_plug set_plug ctx_set_lists by (cases d; force)+
  obtain rn pn where rn: "m r = Some rn" "rparent rn = Some q" "m q = Some pn" "rleft pn = Some r \<longleftrightarrow> \<not> b"
    using in_ctxE [OF rep, of r] s by (metis node_on_simps(1) snd_conv)
  obtain m1 where m1: "upd_rb m q (set_kid b (rootof x)) = Some m1" "m1 = m(q \<mapsto> set_kid b (rootof x) pn)" "links m1 = links m" "keyof m1 = keyof m"
      "shape m1 = (shape m)(q \<mapsto> (rparent (set_kid b (rootof x) pn), rleft (set_kid b (rootof x) pn), rright (set_kid b (rootof x) pn)))"
    by (rule upd_rbE [of m q pn "set_kid b (rootof x)"]) (use rn(3) in simp_all)
  have sh1: "shape m1 = rekid (shape m) ?c (rootof x)"
    unfolding m1(5) rekid_def by (simp add: projections_some(1) [of m q pn, OF rn(3)])
  have xe: "m1 e \<noteq> None" if "rootof x = Some e" for e
  proof -
    have "m e \<noteq> None" using xt that by (cases x) (auto simp: shape_some)
    then show ?thesis using m1(2) by simp
  qed
  obtain m2 where m2: "upd_opt m1 (rootof x) (rparent_update (\<lambda>_. Some q)) = Some m2"
      "shape m2 = reparent (shape m1) (rootof x) (Some q)" "links m2 = links m1" "keyof m2 = keyof m1"
    by (rule put_parentE [of "rootof x" m1 "Some q"]) (use xe in simp_all)
  have "tree_at (shape m2) None ?t"
    by (rule sub_up_tree [OF ctx xt dx(1)]) (simp add: m2(2) sh1)
  moreover have "rroot rbt = rootof ?t" using root root_plug [of ?c "node_on d r x Leaf" x] by simp
  ultimately have rep2: "tree_rep (rbt, m2) ?t" using dx(1) by (simp add: tree_rep_def)
  have same: "same_rest s (rbt, m2)" using m2(3,4) m1(3,4) s by (simp add: same_rest_def)
  have here: "settled s ?t (rbt, m2)" by (rule settledI [OF rep2 refl same])
  obtain rn2 where "m2 r = Some rn2" using same_dom [of m2 m r] m2(4) m1(4) rn(1) by auto
  then obtain rr where rr: "RBT_ISRED m2 (Some r) = Some rr" by (simp add: RBT_ISRED_def)
  have inx: "e \<in> set_tree ?t" if "rootof x = Some e" for e using root_in_set [OF that] by simp
  obtain cr where cr: "RBT_ISRED m2 (rootof x) = Some cr" using isred_some [OF rep2, of "rootof x"] inx by auto
  have run: "unhang_repl s (Some r) (rootof x) =
      (if rr then Some (rbt, m2) else if cr then do { c \<leftarrow> rootof x; m3 \<leftarrow> RBT_SETBLACK m2 c; Some (rbt, m3) }
       else (case rootof x of None \<Rightarrow> Some (rbt, m2) | Some c \<Rightarrow> rbt_adjust_on_remove (rbt, m2) c))"
    unfolding unhang_repl_def s fst_conv snd_conv using rn m1(1) m2(1) rr cr by simp
  show ?thesis
  proof (cases "rr \<or> rootof x = None")
    case True
    then have "unhang_repl s (Some r) (rootof x) = Some (rbt, m2)" using run cr by (auto simp: RBT_ISRED_def)
    then show ?thesis using here by blast
  next
    case False
    then obtain e where e: "\<not> rr" "rootof x = Some e" by auto
    show ?thesis
    proof (cases cr)
      case True
      obtain m3 where m3: "RBT_SET False m2 e = Some m3" "tree_rep (rbt, m3) ?t" "same_rest (rbt, m2) (rbt, m3)"
        using recolourE [OF rep2 inx [OF e(2)], of False] by (metis fst_conv snd_conv)
      have "unhang_repl s (Some r) (rootof x) = Some (rbt, m3)" using run e True m3(1) by (simp add: RBT_SETBLACK_def)
      moreover have "settled s ?t (rbt, m3)" by (rule settledI [OF m3(2) refl same_rest_trans [OF same m3(3)]])
      ultimately show ?thesis by blast
    next
      case False
      obtain s3 where s3: "rbt_adjust_on_remove (rbt, m2) e = Some s3" "settled (rbt, m2) ?t s3"
        using adjust_remove_settled [OF rep2 e(2)] by blast
      have "unhang_repl s (Some r) (rootof x) = Some s3" using run e False s3(1) by simp
      then show ?thesis using settled_first [OF s3(2) same] by blast
    qed
  qed
qed

subsection \<open>The replacement in the place of the node\<close>

lemma put_repl_none:
  assumes rep: "tree_rep s (plug c (Node Leaf a Leaf))"
  shows "\<exists>s'. put_repl s a None = Some s' \<and> tree_rep s' (plug c Leaf) \<and> same_rest s s'"
proof -
  obtain rbt m where s: "s = (rbt, m)" by (cases s)
  have at: "ctx_at (shape m) (Some a) c" and root: "rroot rbt = rootof (plug c (Node Leaf a Leaf))"
    and dd: "distinct (inorder (plug c (Node Leaf a Leaf)))" using rep s by (simp_all add: tree_rep_def plug_at)
  have an: "a \<notin> ctx_set c" "distinct (ctx_pre c @ ctx_post c)" using dd unfolding inorder_plug ctx_set_lists by auto
  obtain n where n: "m a = Some n" "rparent n = ctx_parent c" "rleft n = None" "rright n = None"
    using nodeE [OF rep] s by (metis rootof.simps(1) snd_conv)
  obtain rbt1 m1 where m1: "(case rparent n of None \<Rightarrow> Some (rbt\<lparr>rroot := None\<rparr>, m)
      | Some p \<Rightarrow> do { pn \<leftarrow> m p; m1 \<leftarrow> upd_rb m p (set_kid (rleft pn \<noteq> Some a) None); Some (rbt, m1) }) = Some (rbt1, m1)"
      "shape m1 = rekid (shape m) c None" "links m1 = links m" "keyof m1 = keyof m"
      "rroot rbt1 = (if c = [] then None else rroot rbt)"
      "rhead rbt1 = rhead rbt" "rtail rbt1 = rtail rbt" "rnelem rbt1 = rnelem rbt"
    by (rule put_kidE [OF at an(1) n(2), where rbt = rbt and q = None])
  have "put_repl s a None = Some (rbt1, m1)"
    unfolding put_repl_def s fst_conv snd_conv using n m1(1) by (simp add: upd_opt_def)
  moreover have "tree_at (shape m1) None (plug c Leaf)"
    by (rule sub_up_tree [OF at, of None]) (use an(2) m1(2) in \<open>simp_all add: inorder_plug reparent_def\<close>)
  then have "tree_rep (rbt1, m1) (plug c Leaf)"
    using m1(5) root root_plug [of c Leaf "Node Leaf a Leaf"] an(2) by (cases "c = []") (simp_all add: tree_rep_def inorder_plug)
  ultimately show ?thesis using m1(3,4,6-8) s by (auto simp: same_rest_def)
qed

lemma put_repl_some:
  assumes rep: "tree_rep s (plug c (Node l a r))" and x: "x \<notin> set_tree (plug c (Node l a r))" "snd s x \<noteq> None"
  shows "\<exists>s'. put_repl s a (Some x) = Some s' \<and> tree_rep s' (plug c (Node l x r)) \<and> same_rest s s'"
proof -
  obtain rbt m where s: "s = (rbt, m)" by (cases s)
  have at: "ctx_at (shape m) (Some a) c" "tree_at (shape m) (Some a) l" "tree_at (shape m) (Some a) r"
    and root: "rroot rbt = rootof (plug c (Node l a r))"
    and dd: "distinct (inorder (plug c (Node l a r)))" using rep s by (simp_all add: tree_rep_def plug_at)
  have an: "a \<notin> ctx_set c" "distinct (ctx_pre c @ ctx_post c)" "distinct (inorder l)" "distinct (inorder r)"
      "set_tree l \<inter> set_tree r = {}" "set_tree l \<inter> ctx_set c = {}" "set_tree r \<inter> ctx_set c = {}"
    using dd unfolding inorder_plug ctx_set_lists by auto
  have xn: "x \<notin> ctx_set c" "x \<notin> set_tree l" "x \<notin> set_tree r" "x \<noteq> a" using x by auto
  obtain n where n: "m a = Some n" "rparent n = ctx_parent c" "rleft n = rootof l" "rright n = rootof r"
    using nodeE [OF rep] s by (metis snd_conv)
  obtain rbt1 m1 where m1: "(case rparent n of None \<Rightarrow> Some (rbt\<lparr>rroot := Some x\<rparr>, m)
      | Some p \<Rightarrow> do { pn \<leftarrow> m p; m1 \<leftarrow> upd_rb m p (set_kid (rleft pn \<noteq> Some a) (Some x)); Some (rbt, m1) }) = Some (rbt1, m1)"
      "shape m1 = rekid (shape m) c (Some x)" "links m1 = links m" "keyof m1 = keyof m"
      "rroot rbt1 = (if c = [] then Some x else rroot rbt)"
      "rhead rbt1 = rhead rbt" "rtail rbt1 = rtail rbt" "rnelem rbt1 = rnelem rbt"
    by (rule put_kidE [OF at(1) an(1) n(2), where rbt = rbt and q = "Some x"])
  have dom: "m' e \<noteq> None" if "keyof m' = keyof m" "rootof t = Some e" "tree_at (shape m) p t" for m' e t p
    using that same_dom [OF that(1), of e] by (cases t) (auto simp: shape_some)
  obtain m2 where m2: "upd_opt m1 (rootof l) (rparent_update (\<lambda>_. Some x)) = Some m2"
      "shape m2 = reparent (shape m1) (rootof l) (Some x)" "links m2 = links m1" "keyof m2 = keyof m1"
    by (rule put_parentE [of "rootof l" m1 "Some x"]) (use dom [OF m1(4) _ at(2)] in simp_all)
  have k2: "keyof m2 = keyof m" using m1(4) m2(4) by simp
  obtain m3 where m3: "upd_opt m2 (rootof r) (rparent_update (\<lambda>_. Some x)) = Some m3"
      "shape m3 = reparent (shape m2) (rootof r) (Some x)" "links m3 = links m2" "keyof m3 = keyof m2"
    by (rule put_parentE [of "rootof r" m2 "Some x"]) (use dom [OF k2 _ at(3)] in simp_all)
  obtain xn3 where xn3: "m3 x = Some xn3" using same_dom [of m3 m x] k2 m3(4) x(2) s by auto
  let ?xn = "xn3\<lparr>rparent := rparent n, rleft := rleft n, rright := rright n, rred := rred n\<rparr>"
  let ?m4 = "m3(x \<mapsto> ?xn)"
  have run: "put_repl s a (Some x) = Some (rbt1, ?m4)"
    unfolding put_repl_def s fst_conv snd_conv using n(1,3,4) m1(1) m2(1) m3(1) xn3 by (simp add: upd_opt_def upd_rb_def)
  have l4: "links ?m4 = links m" "keyof ?m4 = keyof m"
    using links_const [of m3 x xn3 ?xn, OF xn3] keyof_const [of m3 x xn3 ?xn, OF xn3] m3(3,4) m2(3,4) m1(3,4) by (simp_all del: projections_upd)
  let ?S = "shape ?m4"
  have Sx: "?S x = Some (ctx_parent c, rootof l, rootof r)" using n by simp
  have lr: "rootof l \<noteq> Some e \<or> e \<in> set_tree l" "rootof r \<noteq> Some e \<or> e \<in> set_tree r" "ctx_parent c \<noteq> Some e \<or> e \<in> ctx_set c" for e
    using root_in_set ctx_parent_set by blast+
  have "ctx_at ?S (Some x) c = ctx_at (rekid (shape m) c (Some x)) (Some x) c"
  proof (rule ctx_at_cong)
    fix e assume e: "e \<in> ctx_set c"
    then have "e \<noteq> x" "rootof l \<noteq> Some e" "rootof r \<noteq> Some e" using xn(1) an(6,7) lr by blast+
    then show "?S e = rekid (shape m) c (Some x) e" using m3(2) m2(2) m1(2) by (simp add: reparent_other)
  qed
  then have c4: "ctx_at ?S (Some x) c" using ctx_at_rekid [OF at(1) an(2)] by simp
  have "tree_at ?S (Some x) l = tree_at (reparent (shape m) (rootof l) (Some x)) (Some x) l"
  proof (rule tree_at_cong)
    fix e assume e: "e \<in> set_tree l"
    then have "e \<noteq> x" "rootof r \<noteq> Some e" "ctx_parent c \<noteq> Some e" using xn(2) an(5,6) lr by blast+
    then show "?S e = reparent (shape m) (rootof l) (Some x) e"
      using m3(2) m2(2) m1(2) rekid_other [of c e "shape m" "Some x"] by (auto simp: reparent_def split: option.splits)
  qed
  then have l4': "tree_at ?S (Some x) l" using tree_at_reparent [OF at(2) an(3)] by simp
  have "tree_at ?S (Some x) r = tree_at (reparent (shape m) (rootof r) (Some x)) (Some x) r"
  proof (rule tree_at_cong)
    fix e assume e: "e \<in> set_tree r"
    then have "e \<noteq> x" "rootof l \<noteq> Some e" "ctx_parent c \<noteq> Some e" using xn(3) an(5,7) lr by blast+
    then show "?S e = reparent (shape m) (rootof r) (Some x) e"
      using m3(2) m2(2) m1(2) rekid_other [of c e "shape m" "Some x"] by (auto simp: reparent_def split: option.splits)
  qed
  then have r4': "tree_at ?S (Some x) r" using tree_at_reparent [OF at(3) an(4)] by simp
  have "tree_at ?S None (plug c (Node l x r))" unfolding plug_at using c4 l4' r4' Sx by simp
  moreover have "rroot rbt1 = rootof (plug c (Node l x r))"
    using m1(5) root root_plug [of c "Node l x r" "Node l a r"] by (cases "c = []") simp_all
  moreover have "distinct (inorder (plug c (Node l x r)))"
    using dd xn unfolding inorder_plug ctx_set_lists by auto
  ultimately have "tree_rep (rbt1, ?m4) (plug c (Node l x r))" by (simp add: tree_rep_def del: projections_upd)
  moreover have "same_rest s (rbt1, ?m4)" using m1(6-8) l4 s by (simp add: same_rest_def del: projections_upd)
  ultimately show ?thesis using run by blast
qed

subsection \<open>Leaving the chain\<close>

lemma put_nextE:
  assumes "\<And>e. q = Some e \<Longrightarrow> m e \<noteq> None"
  obtains m' where "upd_opt m q (rnext_update (\<lambda>_. p)) = Some m'" "links m' = renext (links m) q p"
    "shape m' = shape m" "keyof m' = keyof m" "\<forall>e. q \<noteq> Some e \<longrightarrow> m' e = m e"
proof (cases q)
  case None
  show thesis by (rule that [of m]) (simp_all add: None upd_opt_def renext_def)
next
  case (Some e)
  obtain en where en: "m e = Some en" using assms Some by blast
  have "shape (m(e \<mapsto> en\<lparr>rnext := p\<rparr>)) = shape m" by (rule shape_const [of m e en]) (use en in simp_all)
  moreover have "keyof (m(e \<mapsto> en\<lparr>rnext := p\<rparr>)) = keyof m" by (rule keyof_const [of m e en]) (use en in simp_all)
  moreover have "links (m(e \<mapsto> en\<lparr>rnext := p\<rparr>)) = renext (links m) q p"
    using Some by (simp add: renext_def projections_some(2) [of m e en, OF en])
  ultimately show thesis
    by (intro that [of "m(e \<mapsto> en\<lparr>rnext := p\<rparr>)"]) (simp_all add: Some en upd_opt_def upd_rb_def del: projections_upd)
qed

lemma put_prevE:
  assumes "\<And>e. q = Some e \<Longrightarrow> m e \<noteq> None"
  obtains m' where "upd_opt m q (rprev_update (\<lambda>_. p)) = Some m'" "links m' = reprev (links m) q p"
    "shape m' = shape m" "keyof m' = keyof m" "\<forall>e. q \<noteq> Some e \<longrightarrow> m' e = m e"
proof (cases q)
  case None
  show thesis by (rule that [of m]) (simp_all add: None upd_opt_def reprev_def)
next
  case (Some e)
  obtain en where en: "m e = Some en" using assms Some by blast
  have "shape (m(e \<mapsto> en\<lparr>rprev := p\<rparr>)) = shape m" by (rule shape_const [of m e en]) (use en in simp_all)
  moreover have "keyof (m(e \<mapsto> en\<lparr>rprev := p\<rparr>)) = keyof m" by (rule keyof_const [of m e en]) (use en in simp_all)
  moreover have "links (m(e \<mapsto> en\<lparr>rprev := p\<rparr>)) = reprev (links m) q p"
    using Some by (simp add: reprev_def projections_some(2) [of m e en, OF en])
  ultimately show thesis
    by (intro that [of "m(e \<mapsto> en\<lparr>rprev := p\<rparr>)"]) (simp_all add: Some en upd_opt_def upd_rb_def del: projections_upd)
qed

lemma linked_some: "linked L p xs q \<Longrightarrow> e \<in> set xs \<Longrightarrow> L e \<noteq> None"
  by (induction xs arbitrary: p) auto

lemma relink_dom: "renext L q p e = None \<longleftrightarrow> L e = None" "reprev L q p e = None \<longleftrightarrow> L e = None"
  by (auto simp: renext_def reprev_def split: option.splits)

lemma links_dom: "links m e \<noteq> None \<longleftrightarrow> m e \<noteq> None"
  by (simp add: links_def)

lemma relink_twice:
  assumes "p \<noteq> n \<or> p = None"
  shows "renext (reprev (reprev (renext L p n) n p) n p) p n = reprev (renext L p n) n p"
    "reprev (renext (reprev (renext L p n) n p) p n) n p = reprev (renext L p n) n p"
    "renext (reprev L n p) p n = reprev (renext L p n) n p"
  using assms by (auto simp: renext_def reprev_def fun_eq_iff option.map_comp comp_def split: option.splits)

lemma first_prepend: "first_of (xs @ zs) None = (if xs = [] then first_of zs None else first_of xs None)"
  by (cases xs) auto

lemma last_append: "last_of None (xs @ zs) = (if zs = [] then last_of None xs else last_of None zs)"
  by (auto simp: last_of_def)

lemma remove_list_rep:
  assumes l: "linked (links (snd s)) None (xs @ a # ys) None" and d: "distinct (xs @ a # ys)"
    and hd: "rhead (fst s) = first_of (xs @ a # ys) None" and tl: "rtail (fst s) = last_of None (xs @ a # ys)"
  shows "\<exists>s'. rbt_remove_list s a = Some s' \<and> linked (links (snd s')) None (xs @ ys) None \<and>
    rhead (fst s') = first_of (xs @ ys) None \<and> rtail (fst s') = last_of None (xs @ ys) \<and> rnelem (fst s') = rnelem (fst s) \<and>
    rroot (fst s') = rroot (fst s) \<and> links (snd s') a = Some (None, None) \<and> shape (snd s') = shape (snd s) \<and>
    keyof (snd s') = keyof (snd s)"
proof -
  obtain rbt m where s: "s = (rbt, m)" by (cases s)
  let ?p = "last_of None xs" and ?q = "first_of ys None"
  have la: "links m a = Some (?p, ?q)" and lx: "linked (links m) None xs (Some a)" and ly: "linked (links m) (Some a) ys None"
    using l s by simp_all
  then obtain n where n: "m a = Some n" "rprev n = ?p" "rnext n = ?q" by (auto simp: links_def)
  have pa: "?p \<noteq> Some a" "?q \<noteq> Some a" using d last_of_in [of xs a] first_of_in [of ys a] by auto
  have pq: "?p \<noteq> ?q \<or> ?p = None" using d last_of_in [of xs] first_of_in [of ys] by (cases ?p) force+
  have pe: "m e \<noteq> None" if "?p = Some e" for e
    using linked_some [OF lx] last_of_in [OF that] links_dom by blast
  have qe: "m e \<noteq> None" if "?q = Some e" for e
    using linked_some [OF ly] first_of_in [OF that] links_dom by blast
  let ?L = "reprev (renext (links m) ?p ?q) ?q ?p"
  obtain ma where ma: "upd_opt m ?q (rprev_update (\<lambda>_. ?p)) = Some ma" "links ma = reprev (links m) ?q ?p"
      "shape ma = shape m" "keyof ma = keyof m" "\<forall>e. ?q \<noteq> Some e \<longrightarrow> ma e = m e"
    by (rule put_prevE [of ?q m ?p]) (use qe in simp_all)
  obtain mb where mb: "upd_opt ma ?p (rnext_update (\<lambda>_. ?q)) = Some mb" "links mb = renext (links ma) ?p ?q"
      "shape mb = shape ma" "keyof mb = keyof ma" "\<forall>e. ?p \<noteq> Some e \<longrightarrow> mb e = ma e"
    by (rule put_nextE [of ?p ma ?q]) (use pe same_dom [OF ma(4)] in simp_all)
  have lb: "links mb = ?L" unfolding mb(2) ma(2) by (rule relink_twice(3) [OF pq])
  have kb: "keyof mb = keyof m" using mb(4) ma(4) by simp
  have ab: "mb a = Some n" using mb(5) ma(5) pa n(1) by simp
  obtain mc where mc: "upd_opt mb ?p (rnext_update (\<lambda>_. ?q)) = Some mc" "links mc = renext (links mb) ?p ?q"
      "shape mc = shape mb" "keyof mc = keyof mb" "\<forall>e. ?p \<noteq> Some e \<longrightarrow> mc e = mb e"
    by (rule put_nextE [of ?p mb ?q]) (use pe same_dom [OF kb] in simp_all)
  have kc: "keyof mc = keyof m" using mc(4) kb by simp
  obtain md where md: "upd_opt mc ?q (rprev_update (\<lambda>_. ?p)) = Some md" "links md = reprev (links mc) ?q ?p"
      "shape md = shape mc" "keyof md = keyof mc" "\<forall>e. ?q \<noteq> Some e \<longrightarrow> md e = mc e"
    by (rule put_prevE [of ?q mc ?p]) (use qe same_dom [OF kc] in simp_all)
  have ld: "links md = ?L" unfolding md(2) mc(2) lb by (rule relink_twice(2) [OF pq])
  have ad: "md a = Some n" using md(5) mc(5) pa ab by simp
  let ?rbt1 = "case ?q of None \<Rightarrow> rbt\<lparr>rtail := ?p\<rparr> | Some _ \<Rightarrow> rbt"
  let ?rbt2 = "case ?p of None \<Rightarrow> ?rbt1\<lparr>rhead := ?q\<rparr> | Some _ \<Rightarrow> ?rbt1"
  let ?me = "md(a \<mapsto> n\<lparr>rprev := None, rnext := None\<rparr>)"
  have first: "(case rnext n of
       Some x \<Rightarrow> do { m1 \<leftarrow> upd_rb m x (rprev_update (\<lambda>_. rprev n)); m2 \<leftarrow> upd_opt m1 (rprev n) (rnext_update (\<lambda>_. rnext n)); Some (rbt, m2) }
     | None \<Rightarrow> do { m2 \<leftarrow> upd_opt m (rprev n) (rnext_update (\<lambda>_. rnext n)); Some (rbt\<lparr>rtail := rprev n\<rparr>, m2) }) = Some (?rbt1, mb)"
    using ma(1) mb(1) unfolding n(2,3) by (cases ?q) (simp_all add: upd_opt_def)
  have second: "(case rprev n of
       Some x \<Rightarrow> do { m2 \<leftarrow> upd_rb mb x (rnext_update (\<lambda>_. rnext n)); m3 \<leftarrow> upd_opt m2 (rnext n) (rprev_update (\<lambda>_. rprev n)); Some (?rbt1, m3) }
     | None \<Rightarrow> do { m3 \<leftarrow> upd_opt mb (rnext n) (rprev_update (\<lambda>_. rprev n)); Some (?rbt1\<lparr>rhead := rnext n\<rparr>, m3) }) = Some (?rbt2, md)"
    using mc(1) md(1) unfolding n(2,3) by (cases ?p) (simp_all add: upd_opt_def [of _ "Some _"] upd_opt_def [of _ None])
  have run: "rbt_remove_list s a = Some (?rbt2, ?me)"
    unfolding rbt_remove_list_def s fst_conv snd_conv using n(1) ab ad first second by (simp add: upd_rb_def)
  have "linked (links ?me) None xs ?q \<and> linked (links ?me) ?p ys None"
  proof (rule linked_meet [OF lx ly])
    show "links ?me e = reprev (renext (links m) ?p ?q) ?q ?p e" if "e \<in> set (xs @ ys)" for e
      using d that ld by auto
  qed (use d in auto)
  then have lk: "linked (links ?me) None (xs @ ys) None" by simp
  have "shape ?me = shape md" by (rule shape_const [of md a n]) (use ad in simp_all)
  then have sh: "shape ?me = shape m" using md(3) mc(3) mb(3) ma(3) by simp
  have "keyof ?me = keyof md" by (rule keyof_const [of md a n]) (use ad in simp_all)
  then have ke: "keyof ?me = keyof m" using md(4) kc by simp
  have fl: "rhead ?rbt2 = first_of (xs @ ys) None" "rtail ?rbt2 = last_of None (xs @ ys)" "rnelem ?rbt2 = rnelem rbt" "rroot ?rbt2 = rroot rbt"
    using hd tl s unfolding first_prepend last_append
    by (auto simp: last_of_def split: option.splits list.splits)
  have le: "links ?me a = Some (None, None)" by simp
  show ?thesis
    by (rule exI [of _ "(?rbt2, ?me)"]) (use run lk le sh ke fl s in \<open>simp del: fun_upd_apply projections_upd\<close>)
qed

subsection \<open>Removal\<close>

lemma split_unique: "distinct (xs @ a # ys) \<Longrightarrow> xs @ a # ys = xs' @ a # ys' \<Longrightarrow> xs = xs' \<and> ys = ys'"
  by (metis append_Cons_eq_iff distinct_append not_distinct_conv_prefix distinct.simps(2) disjoint_insert(1) list.set(2))

lemma removed_swap:
  assumes "distinct (ws @ a # zs)" "x \<notin> set (ws @ a # zs)" "ps @ a # qs = ws @ x # a # zs \<or> ps @ a # qs = ws @ a # x # zs"
  shows "ps @ qs = ws @ x # zs"
proof -
  have "distinct (ws @ x # a # zs)" "distinct (ws @ a # x # zs)" using assms(1,2) by auto
  then have d: "distinct (ps @ a # qs)" using assms(3) by metis
  from assms(3) consider "ps @ a # qs = (ws @ [x]) @ a # zs" | "ps @ a # qs = ws @ a # (x # zs)" by auto
  then show ?thesis using split_unique [OF d] by cases fastforce+
qed

text \<open>The replacement is the neighbour in the order of the keys, and takes the place of the node.\<close>

lemma replace_rep:
  assumes rep: "tree_rep s t" and t: "inorder t = xs @ a # ys"
  shows "\<exists>repl child s1 s2 t2. find_repl (snd s) a = Some (repl, child) \<and> unhang_repl s repl child = Some s1 \<and>
    put_repl s1 a repl = Some s2 \<and> tree_rep s2 t2 \<and> inorder t2 = xs @ ys \<and> same_rest s s2"
proof -
  have dd: "distinct (xs @ a # ys)" using rep t by (simp add: tree_rep_def)
  have "a \<in> set_tree t" using t by (metis in_set_conv_decomp set_inorder)
  then obtain c l r where tc: "t = plug c (Node l a r)" using tree_split by blast
  have rep': "tree_rep s (plug c (Node l a r))" using rep tc by simp
  obtain n where n: "snd s a = Some n" "rleft n = rootof l" "rright n = rootof r" by (rule nodeE [OF rep'])
  text \<open>The two cases with a replacement.\<close>
  have swap: ?thesis
    if f: "find_repl (snd s) a = Some (Some x, rootof sub)" and b: "t = plug ((b, q, u) # c') (node_on d x sub Leaf)"
      and io: "inorder (plug ((b, q, u) # c') sub) = ws @ a # zs" "inorder t = ws @ x # a # zs \<or> inorder t = ws @ a # x # zs"
    for x sub b q u c' d ws zs
  proof -
    obtain s1 t1 where s1: "unhang_repl s (Some x) (rootof sub) = Some s1" "tree_rep s1 t1" "inorder t1 = ws @ a # zs" "same_rest s s1"
      using unhang_rep [of s b q u c' d x sub] rep b io(1) unfolding settled_def by metis
    have x: "x \<notin> set (ws @ a # zs)" using io(2) rep by (auto simp: tree_rep_def)
    have "a \<in> set_tree t1" using s1(3) by (metis in_set_conv_decomp set_inorder)
    then obtain c3 l3 r3 where t1: "t1 = plug c3 (Node l3 a r3)" using tree_split by blast
    have x1: "x \<notin> set_tree (plug c3 (Node l3 a r3))" using x s1(3) t1 by (metis set_inorder)
    have "x \<in> set_tree t" using b by simp
    then obtain xn where "snd s x = Some xn" by (rule tree_node [OF rep])
    then have x2: "snd s1 x \<noteq> None" using same_dom [of "snd s1" "snd s" x] s1(4) by (simp add: same_rest_def)
    obtain s2 where s2: "put_repl s1 a (Some x) = Some s2" "tree_rep s2 (plug c3 (Node l3 x r3))" "same_rest s1 s2"
      using put_repl_some [OF s1(2) [unfolded t1] x1 x2] by blast
    have i1: "(ctx_pre c3 @ inorder l3) @ a # (inorder r3 @ ctx_post c3) = ws @ a # zs"
      using s1(3) unfolding t1 inorder_plug by simp
    have dw: "distinct (ws @ a # zs)" using s1(2,3) by (simp add: tree_rep_def)
    have "ws = ctx_pre c3 @ inorder l3 \<and> zs = inorder r3 @ ctx_post c3" using split_unique [OF dw i1 [symmetric]] by simp
    then have "inorder (plug c3 (Node l3 x r3)) = ws @ x # zs" unfolding inorder_plug by simp
    moreover have "xs @ ys = ws @ x # zs" by (rule removed_swap [OF dw x]) (use io(2) t in auto)
    ultimately show ?thesis using f s1(1) s2(1,2) same_rest_trans [OF s1(4) s2(3)] by metis
  qed
  show ?thesis
  proof (cases l)
    case ln: (Node l1 e l2)
    have repl: "tree_rep s (plug ((False, a, r) # c) l)" using rep' plug_left by metis
    have root: "rootof l = Some e" using ln by simp
    obtain c2 x sub where f: "far_kid True (snd s) e = Some x" "l = plug c2 (node_on True x sub Leaf)" "ctx_post c2 = []"
      using far_kid_rep [OF repl root, of True] by auto
    have tt: "t = plug (c2 @ (False, a, r) # c) (node_on True x sub Leaf)" unfolding tc plug_left plug_append f(2) [symmetric] by simp
    obtain b q u c' where cc: "c2 @ (False, a, r) # c = (b, q, u) # c'" by (cases c2) auto
    have "tree_rep s (plug ((b, q, u) # c') (Node sub x Leaf))" using rep tt cc by (simp add: node_on_def)
    then obtain xn where xn: "snd s x = Some xn" "rleft xn = rootof sub" by (rule nodeE)
    have fr: "find_repl (snd s) a = Some (Some x, rootof sub)"
      unfolding find_repl_def using n root f(1) xn by simp
    have cp: "ctx_pre (c2 @ c3) = ctx_pre c3 @ ctx_pre c2" "ctx_post (c2 @ c3) = ctx_post c2 @ ctx_post c3" for c3
      by (induction c2 rule: ctx_set.induct) auto
    let ?ws = "ctx_pre c @ ctx_pre c2 @ inorder sub" and ?zs = "inorder r @ ctx_post c"
    have "inorder (plug ((b, q, u) # c') sub) = ?ws @ a # ?zs"
      unfolding cc [symmetric] inorder_plug cp f(3) by simp
    moreover have "inorder t = ?ws @ x # a # ?zs" unfolding tt inorder_plug cp f(3) by simp
    ultimately show ?thesis using swap [OF fr tt [unfolded cc]] by blast
  next
    case ll: Leaf
    show ?thesis
    proof (cases r)
      case rn: (Node l1 e l2)
      have repl: "tree_rep s (plug ((True, a, l) # c) r)" using rep' plug_right by metis
      have root: "rootof r = Some e" using rn by simp
      obtain c2 x sub where f: "far_kid False (snd s) e = Some x" "r = plug c2 (node_on False x sub Leaf)" "ctx_pre c2 = []"
        using far_kid_rep [OF repl root, of False] by auto
      have tt: "t = plug (c2 @ (True, a, l) # c) (node_on False x sub Leaf)" unfolding tc plug_right plug_append f(2) [symmetric] by simp
      obtain b q u c' where cc: "c2 @ (True, a, l) # c = (b, q, u) # c'" by (cases c2) auto
      have "tree_rep s (plug ((b, q, u) # c') (Node Leaf x sub))" using rep tt cc by (simp add: node_on_def)
      then obtain xn where xn: "snd s x = Some xn" "rright xn = rootof sub" by (rule nodeE)
      have fr: "find_repl (snd s) a = Some (Some x, rootof sub)"
        unfolding find_repl_def using n root f(1) xn ll by simp
      have cp: "ctx_pre (c2 @ c3) = ctx_pre c3 @ ctx_pre c2" "ctx_post (c2 @ c3) = ctx_post c2 @ ctx_post c3" for c3
        by (induction c2 rule: ctx_set.induct) auto
      let ?ws = "ctx_pre c @ inorder l" and ?zs = "inorder sub @ ctx_post c2 @ ctx_post c"
      have "inorder (plug ((b, q, u) # c') sub) = ?ws @ a # ?zs"
        unfolding cc [symmetric] inorder_plug cp f(3) by simp
      moreover have "inorder t = ?ws @ a # x # ?zs" unfolding tt inorder_plug cp f(3) by simp
      ultimately show ?thesis using swap [OF fr tt [unfolded cc]] by blast
    next
      case rl: Leaf
      have rep0: "tree_rep s (plug c (Node Leaf a Leaf))" using rep' ll rl by simp
      obtain s2 where s2: "put_repl s a None = Some s2" "tree_rep s2 (plug c Leaf)" "same_rest s s2"
        using put_repl_none [OF rep0] by blast
      have f: "find_repl (snd s) a = Some (None, None)" unfolding find_repl_def using n ll rl by simp
      have u: "unhang_repl s None None = Some s" by (simp add: unhang_repl_def upd_opt_def RBT_ISRED_def)
      have "xs @ a # ys = ctx_pre c @ a # ctx_post c" using t unfolding tc ll rl inorder_plug by simp
      then have "xs = ctx_pre c \<and> ys = ctx_post c" by (rule split_unique [OF dd])
      then have "inorder (plug c Leaf) = xs @ ys" unfolding inorder_plug by simp
      then show ?thesis using f u s2 by blast
    qed
  qed
qed

lemma rbt_remove_node_rep:
  assumes rep: "rbt_rep s xs" and a: "a \<in> set xs"
  shows "\<exists>s'. rbt_remove_node s a = Some s' \<and> rbt_rep s' (remove1 a xs) \<and> unlinked (snd s') a \<and> keyof (snd s') = keyof (snd s)"
proof -
  obtain t where t: "tree_rep s t" "inorder t = xs" using rep by (auto simp: rbt_rep_def)
  obtain ps qs where xs: "xs = ps @ a # qs" using split_list [OF a] by blast
  have d: "distinct (ps @ a # qs)" using t xs by (simp add: tree_rep_def)
  have rm: "remove1 a xs = ps @ qs" using d xs by (simp add: remove1_append)
  obtain repl child s1 s2 t2 where r: "find_repl (snd s) a = Some (repl, child)" "unhang_repl s repl child = Some s1"
      "put_repl s1 a repl = Some s2" "tree_rep s2 t2" "inorder t2 = ps @ qs" "same_rest s s2"
    using replace_rep [OF t(1)] t(2) xs by blast
  have ch: "linked (links (snd s2)) None (ps @ a # qs) None" "rhead (fst s2) = first_of (ps @ a # qs) None"
    "rtail (fst s2) = last_of None (ps @ a # qs)" "rnelem (fst s2) = length (ps @ a # qs)" "length (ps @ a # qs) < 2 ^ 64"
    using rep r(6) xs unfolding rbt_rep_def chain_rep_def same_rest_def by simp_all
  obtain s3 where s3: "rbt_remove_list s2 a = Some s3" "linked (links (snd s3)) None (ps @ qs) None"
      "rhead (fst s3) = first_of (ps @ qs) None" "rtail (fst s3) = last_of None (ps @ qs)" "rnelem (fst s3) = rnelem (fst s2)"
      "rroot (fst s3) = rroot (fst s2)" "links (snd s3) a = Some (None, None)" "shape (snd s3) = shape (snd s2)"
      "keyof (snd s3) = keyof (snd s2)"
    using remove_list_rep [OF ch(1) d ch(2,3)] by blast
  obtain n where n: "snd s3 a = Some n" "rprev n = None" "rnext n = None" using s3(7) by (auto simp: links_def)
  let ?n = "n\<lparr>rparent := None, rleft := None, rright := None\<rparr>"
  let ?m = "(snd s3)(a \<mapsto> ?n)"
  let ?rbt = "(fst s3)\<lparr>rnelem := rnelem (fst s3) - 1\<rparr>"
  have k: "keyof ?m = keyof (snd s)"
    using keyof_const [of "snd s3" a n ?n] n(1) s3(9) r(6) by (simp add: same_rest_def del: projections_upd)
  have l: "links ?m = links (snd s3)" by (rule links_const [of "snd s3" a n]) (use n(1) in simp_all)
  have nz: "rnelem (fst s3) \<noteq> 0" using s3(5) ch(4) by simp
  then have run: "rbt_remove_node s a = Some (?rbt, ?m)"
    using r(1-3) s3(1) n(1) by (simp add: rbt_remove_node_def upd_rb_def)
  have "a \<notin> set (ps @ qs)" using d by auto
  then have at: "a \<notin> set_tree t2" using r(5) by (metis set_inorder)
  have "tree_at (shape ?m) None t2 = tree_at (shape (snd s2)) None t2"
    by (rule tree_at_cong) (use at s3(8) in auto)
  then have tr: "tree_rep (?rbt, ?m) t2" using r(4) s3(6) by (simp add: tree_rep_def del: projections_upd)
  have "chain_rep (?rbt, ?m) (ps @ qs)"
    using s3(2-5) l ch(4,5) by (simp add: chain_rep_def del: projections_upd)
  moreover have "key_sorted (snd s) (ps @ qs)" using rep xs by (auto simp: rbt_rep_def sorted_wrt_append)
  then have "key_sorted (snd (?rbt, ?m)) (ps @ qs)" using nkey_same [OF k] by (simp del: projections_upd)
  ultimately have "rbt_rep (?rbt, ?m) (ps @ qs)" using tr r(5) unfolding rbt_rep_def by blast
  moreover have "unlinked ?m a" using n by (simp add: unlinked_def)
  ultimately have "rbt_rep (?rbt, ?m) (remove1 a xs) \<and> unlinked (snd (?rbt, ?m)) a \<and> keyof (snd (?rbt, ?m)) = keyof (snd s)"
    using k rm by (simp del: projections_upd)
  then show ?thesis using run by blast
qed

text \<open>
  C7: \<^verbatim>\<open>rbt_remove_node\<close> takes a node of the structure out of the tree and of the chain, whatever the colours,
  keeps the order of the others, and leaves the node ready to be inserted again.
\<close>

theorem rbt_remove_node_removes:
  assumes rep: "rbt_rep s xs" and a: "a \<in> set xs"
  shows "\<exists>s'. rbt_remove_node s a = Some s' \<and> rbt_rep s' (remove1 a xs) \<and> unlinked (snd s') a \<and> keyof (snd s') = keyof (snd s)"
  by (rule rbt_remove_node_rep [OF rep a])

text \<open>
  C8: \<^verbatim>\<open>rbt_find\<close> returns the node with the key, and NULL exactly if there is none.
\<close>

theorem rbt_find_finds:
  assumes "rbt_rep s xs"
  shows "\<exists>r. rbt_find s key = Some r \<and>
    (case r of None \<Rightarrow> \<forall>a \<in> set xs. nkey (snd s) a \<noteq> key | Some a \<Rightarrow> a \<in> set xs \<and> nkey (snd s) a = key)"
  using rbt_find_rep [OF assms, of key] by (auto simp: find_None_iff find_Some_iff split: option.splits)

lemma rbt_remove_key_removes:
  assumes rep: "rbt_rep s xs"
  shows "\<exists>res s'. rbt_remove_key s key = Some (res, s') \<and>
    (case find (\<lambda>a. nkey (snd s) a = key) xs of
       None \<Rightarrow> res = 1 \<and> s' = s
     | Some a \<Rightarrow> res = 0 \<and> rbt_rep s' (remove1 a xs) \<and> unlinked (snd s') a)"
proof (cases "find (\<lambda>a. nkey (snd s) a = key) xs")
  case None
  then show ?thesis using rbt_find_rep [OF rep, of key] by (simp add: rbt_remove_key_def)
next
  case (Some a)
  then have "a \<in> set xs" by (auto simp: find_Some_iff)
  then show ?thesis using rbt_find_rep [OF rep, of key] rbt_remove_node_rep [OF rep] Some by (fastforce simp: rbt_remove_key_def)
qed

lemma rbt_fini_rep: "rbt_rep s xs \<Longrightarrow> \<exists>s'. rbt_fini s = Some s' \<and> rbt_rep s' []"
proof (induction xs arbitrary: s)
  case Nil
  then have "rhead (fst s) = None" by (simp add: rbt_rep_def chain_rep_def)
  then have "rbt_fini s = Some s" by (subst rbt_fini.simps) simp
  then show ?case using Nil by blast
next
  case (Cons a xs)
  have h: "rhead (fst s) = Some a" using Cons.prems by (simp add: rbt_rep_def chain_rep_def)
  obtain s1 where s1: "rbt_remove_node s a = Some s1" "rbt_rep s1 xs" using rbt_remove_node_rep [OF Cons.prems, of a] by auto
  obtain s2 where s2: "rbt_fini s1 = Some s2" "rbt_rep s2 []" using Cons.IH [OF s1(2)] by blast
  have "rbt_fini s = Some s2" using h s1(1) s2(1) by (subst rbt_fini.simps) simp
  then show ?case using s2(2) by blast
qed

text \<open>
  C9: \<^verbatim>\<open>rbt_fini\<close> ends and leaves an empty structure.
\<close>

theorem rbt_fini_empties:
  assumes "rbt_rep s xs"
  shows "\<exists>s'. rbt_fini s = Some s' \<and> rroot (fst s') = None \<and> rhead (fst s') = None \<and> rtail (fst s') = None \<and> rnelem (fst s') = 0"
proof -
  obtain s' where s': "rbt_fini s = Some s'" "rbt_rep s' []" using rbt_fini_rep [OF assms] by blast
  then obtain t where "tree_rep s' t" "inorder t = []" by (auto simp: rbt_rep_def)
  then have "rroot (fst s') = None" by (cases t) (auto simp: tree_rep_def)
  with s' show ?thesis by (auto simp: rbt_rep_def chain_rep_def)
qed

subsection \<open>A small tree\<close>

text \<open>Keys 3 and 5 in the tree, and a node with the key 7 that is not.\<close>

definition pair_rbt :: "nat rbstate" where
  "pair_rbt =
     (\<lparr>rroot = Some 1, rhead = Some 2, rtail = Some 1, rnelem = 2\<rparr>,
      [1 \<mapsto> \<lparr>rparent = None, rleft = Some 2, rright = None, rprev = Some 2, rnext = None, rred = False, rkey = 5, rdata = None\<rparr>,
       2 \<mapsto> \<lparr>rparent = Some 1, rleft = None, rright = None, rprev = None, rnext = Some 1, rred = True, rkey = 3, rdata = None\<rparr>,
       3 \<mapsto> \<lparr>rparent = None, rleft = None, rright = None, rprev = None, rnext = None, rred = False, rkey = 7, rdata = None\<rparr>])"

lemma pair_rbt_rep: "rbt_rep pair_rbt [2, 1]" and pair_rbt_new: "unlinked (snd pair_rbt) 3"
proof -
  have "tree_rep pair_rbt (Node (Node Leaf 2 Leaf) 1 Leaf)"
    by (simp add: tree_rep_def pair_rbt_def)
  moreover have "inorder (Node (Node Leaf 2 Leaf) 1 Leaf) = [2, 1::nat]" by simp
  moreover have "chain_rep pair_rbt [2, 1]" by (simp add: chain_rep_def pair_rbt_def)
  moreover have "key_sorted (snd pair_rbt) [2, 1]" by (simp add: nkey_def pair_rbt_def)
  ultimately show "rbt_rep pair_rbt [2, 1]" unfolding rbt_rep_def by blast
  show "unlinked (snd pair_rbt) 3" by (simp add: unlinked_def pair_rbt_def)
qed

theorem rbt_insert_inserts_witness:
  "\<exists>res dup s'. rbt_insert pair_rbt 3 = Some (res, dup, s') \<and>
    (case find (\<lambda>a. nkey (snd pair_rbt) a = nkey (snd pair_rbt) 3) [2, 1] of
       Some a \<Rightarrow> res = 0 \<and> dup = Some a \<and> s' = pair_rbt
     | None \<Rightarrow> res \<noteq> 0 \<and> dup = None \<and> rbt_rep s' (insort_key (nkey (snd pair_rbt)) 3 [2, 1]) \<and> keyof (snd s') = keyof (snd pair_rbt))"
  by (rule rbt_insert_inserts [OF pair_rbt_rep pair_rbt_new]) simp_all

theorem rbt_remove_node_removes_witness:
  "\<exists>s'. rbt_remove_node pair_rbt 1 = Some s' \<and> rbt_rep s' (remove1 1 [2, 1]) \<and> unlinked (snd s') 1 \<and>
     keyof (snd s') = keyof (snd pair_rbt)"
  by (rule rbt_remove_node_removes [OF pair_rbt_rep]) simp

theorem rbt_find_finds_witness:
  "\<exists>r. rbt_find pair_rbt 5 = Some r \<and>
    (case r of None \<Rightarrow> \<forall>a \<in> set [2, 1]. nkey (snd pair_rbt) a \<noteq> 5 | Some a \<Rightarrow> a \<in> set [2, 1] \<and> nkey (snd pair_rbt) a = 5)"
  by (rule rbt_find_finds [OF pair_rbt_rep])

theorem rbt_fini_empties_witness:
  "\<exists>s'. rbt_fini pair_rbt = Some s' \<and> rroot (fst s') = None \<and> rhead (fst s') = None \<and> rtail (fst s') = None \<and> rnelem (fst s') = 0"
  by (rule rbt_fini_empties [OF pair_rbt_rep])

definition rbt_put :: "nat rbstate \<Rightarrow> addr \<Rightarrow> u64 \<Rightarrow> nat rbstate option" where
  "rbt_put s a key = do { (res, dup, s') \<leftarrow> rbt_insert (fst s, rbt_node_init (snd s) a key None) a; Some s' }"

text \<open>
  Insertion does not keep the colours: after the inner rotation the outer one goes on with the wrong
  nodes. The keys 3, 1, 2 give a chain to the left with two red nodes in a row.
\<close>

lemma rbt_insert_red_red:
  "(do { s1 \<leftarrow> rbt_put (rbt_init, \<lambda>_. None) 10 3; s2 \<leftarrow> rbt_put s1 20 1; s3 \<leftarrow> rbt_put s2 30 2;
         Some (map (\<lambda>a. (shape (snd s3) a, redof (snd s3) a)) [10, 30, 20]) }) =
     Some [(Some (None, Some 30, None), Some False), (Some (Some 10, Some 20, None), Some True), (Some (Some 30, None, None), Some True)]"
  by (simp add: rbt_put_def rbt_insert_def rbt_init_def rbt_node_init_def inc_nelem_def SZ_def
      insert_at.simps [of _ None] insert_at.simps [of _ "Some a" for a]
      rbt_adjust_on_insert.simps [of _ 10] rbt_adjust_on_insert.simps [of _ 20] rbt_adjust_on_insert.simps [of _ 30]
      attach_left_def attach_right_def insert_case4_def insert_case5_def rbt_rotate_left_def rbt_rotate_right_def rotate_up_def
      upd_rb_def upd_opt_def kid_def set_kid_def RBT_ISRED_def RBT_SET_def RBT_SETBLACK_def RBT_SETRED_def redof_def Let_def)

text \<open>
  Nor does removal: a black leaf goes without any adjustment, and its black sibling stays black, so that
  the paths from the root no longer have the same number of black nodes.
\<close>

definition three_black :: "nat rbstate" where
  "three_black =
     (\<lparr>rroot = Some 10, rhead = Some 20, rtail = Some 30, rnelem = 3\<rparr>,
      [10 \<mapsto> \<lparr>rparent = None, rleft = Some 20, rright = Some 30, rprev = Some 20, rnext = Some 30, rred = False, rkey = 5, rdata = None\<rparr>,
       20 \<mapsto> \<lparr>rparent = Some 10, rleft = None, rright = None, rprev = None, rnext = Some 10, rred = False, rkey = 3, rdata = None\<rparr>,
       30 \<mapsto> \<lparr>rparent = Some 10, rleft = None, rright = None, rprev = Some 10, rnext = None, rred = False, rkey = 7, rdata = None\<rparr>])"

lemma rbt_remove_black_leaf:
  "map_option (\<lambda>s. map (\<lambda>a. (shape (snd s) a, redof (snd s) a)) [10, 30]) (rbt_remove_node three_black 20) =
     Some [(Some (None, None, Some 30), Some False), (Some (Some 10, None, None), Some False)]"
  by (simp add: three_black_def rbt_remove_node_def find_repl_def unhang_repl_def put_repl_def rbt_remove_list_def
      upd_rb_def upd_opt_def set_kid_def RBT_ISRED_def redof_def Let_def)

end
