(* ===== verification/Mn_Bytestream.thy ===== *)
theory Mn_Bytestream
  imports Mn_Bytes
begin

text \<open>
  \<^verbatim>\<open>src/src/bytestream.c\<close> and \<^verbatim>\<open>src/src/bytestream_aux.c\<close>: a growing buffer of bytes with a position
  to read at and an end of data to write at. The function pointers of a stream are names \<open>'c\<close> that an
  argument (\<open>env\<close>) interprets; the operating system's \<^verbatim>\<open>read\<close> and \<^verbatim>\<open>write\<close> are arguments as well, on a
  state \<open>'w\<close> of the world. \<^verbatim>\<open>vsnprintf\<close> is given by the text it formats, or by a failure. \<^verbatim>\<open>off_t\<close> and \<^verbatim>\<open>ssize_t\<close> are
  integers; where \<^verbatim>\<open>size_t\<close> is mixed in, the conversion back is written out (\<open>SS64\<close>).
\<close>

definition SS64 :: "int \<Rightarrow> int" where
  "SS64 n = (n + 2 ^ 63) mod 2 ^ 64 - 2 ^ 63"

lemma SS64_small [simp]: "- (2 ^ 63) \<le> n \<Longrightarrow> n < 2 ^ 63 \<Longrightarrow> SS64 n = n"
  by (simp add: SS64_def)

subsection \<open>State\<close>

record byterange =
  br_start :: int
  br_end :: int

record 'c bstream =
  bsdata :: "u8 list option"
  bssz :: int
  growsz :: int
  eod :: int
  spos :: int
  read_more :: "'c option"
  bswrite :: "'c option"

text \<open>The outcome of a call through a pointer: the result, the stream and the world.\<close>

type_synonym ('c, 'w) io = "'c bstream \<Rightarrow> int \<Rightarrow> int \<Rightarrow> 'w \<Rightarrow> (int \<times> 'c bstream \<times> 'w) option"
type_synonym ('c, 'w) ioenv = "'c \<Rightarrow> ('c, 'w) io"

definition SNEEDMORE :: "'c bstream \<Rightarrow> bool" where
  "SNEEDMORE bs \<longleftrightarrow> spos bs \<ge> eod bs"

definition SAVAIL :: "'c bstream \<Rightarrow> int" where
  "SAVAIL bs = eod bs - spos bs"

definition SADVANCEPOS :: "'c bstream \<Rightarrow> int \<Rightarrow> 'c bstream" where
  "SADVANCEPOS bs n = bs\<lparr>spos := spos bs + n\<rparr>"

definition SADVANCEEOD :: "'c bstream \<Rightarrow> int \<Rightarrow> 'c bstream" where
  "SADVANCEEOD bs n = bs\<lparr>eod := eod bs + n\<rparr>"

text \<open>The byte at an offset: \<^verbatim>\<open>SNCHR\<close>.\<close>

definition SNCHR :: "'c bstream \<Rightarrow> int \<Rightarrow> u8 option" where
  "SNCHR bs n = do { d \<leftarrow> bsdata bs; _ \<leftarrow> guard (0 \<le> n); peek d (nat n) }"

definition SPCHR :: "'c bstream \<Rightarrow> u8 option" where
  "SPCHR bs = SNCHR bs (spos bs)"

subsection \<open>Construction and growth\<close>

definition bytestream_init :: "u8 alloc \<Rightarrow> 'c bstream \<Rightarrow> int \<Rightarrow> rc \<times> 'c bstream" where
  "bytestream_init malloc bs grow =
     (let bs1 = bs\<lparr>bssz := grow, growsz := grow\<rparr>;
          fin = (\<lambda>d. bs1\<lparr>bsdata := d, eod := 0, spos := 0, read_more := None, bswrite := None\<rparr>)
      in if grow > 0 then
           (case malloc (nat grow) of
              None \<Rightarrow> (Diag ''BYTESTREAM_INIT'' 1, bs1\<lparr>bsdata := None\<rparr>)
            | Some d \<Rightarrow> (rc_ok, fin (Some d)))
         else (rc_ok, fin None))"

definition bytestream_init_data :: "'c bstream \<Rightarrow> u8 list \<Rightarrow> int \<Rightarrow> int \<Rightarrow> 'c bstream" where
  "bytestream_init_data bs dat sz grow =
     bs\<lparr>bssz := sz, growsz := grow, bsdata := (if sz > 0 then Some dat else None), eod := sz, spos := 0,
       read_more := None, bswrite := None\<rparr>"

definition bytestream_grow :: "u8 alloc \<Rightarrow> 'c bstream \<Rightarrow> nat \<Rightarrow> rc \<times> 'c bstream" where
  "bytestream_grow malloc bs incr =
     (case realloc_blk malloc (case bsdata bs of None \<Rightarrow> [] | Some d \<Rightarrow> d) (nat ((bssz bs + int incr) mod 2 ^ 64)) of
        None \<Rightarrow> (Diag ''BYTESTREAM_GROW'' 1, bs)
      | Some d \<Rightarrow> (rc_ok, bs\<lparr>bsdata := Some d, bssz := SS64 (bssz bs + int incr)\<rparr>))"

definition bytestream_ensure_buf :: "u8 alloc \<Rightarrow> 'c bstream \<Rightarrow> int \<Rightarrow> (rc \<times> 'c bstream) option" where
  "bytestream_ensure_buf malloc bs sz =
     do { _ \<leftarrow> guard (sz \<ge> 0);
          let need = (eod bs + sz) - bssz bs;
          Some (if need > 0 then bytestream_grow malloc bs (nat (MNMAX need (growsz bs))) else (rc_ok, bs)) }"

text \<open>The growth before a write of \<open>sz\<close> bytes: \<^verbatim>\<open>size_t\<close> arithmetic.\<close>

definition grow_for :: "u8 alloc \<Rightarrow> 'c bstream \<Rightarrow> nat \<Rightarrow> rc \<times> 'c bstream" where
  "grow_for malloc bs sz =
     (let need = SS64 ((eod bs + int sz) - bssz bs)
      in if need > 0 then bytestream_grow malloc bs (nat (if need < growsz bs then growsz bs else need))
         else (rc_ok, bs))"

subsection \<open>Input and output\<close>

text \<open>
  A system call reads up to a number of bytes from a descriptor, or fails; it writes some of the
  bytes it is given, or fails.
\<close>

type_synonym 'w sysread = "int \<Rightarrow> nat \<Rightarrow> 'w \<Rightarrow> u8 list option \<times> 'w"
type_synonym 'w syswrite = "int \<Rightarrow> u8 list \<Rightarrow> 'w \<Rightarrow> nat option \<times> 'w"

text \<open>The memory the caller passes to the system must hold the bytes.\<close>

definition read_into :: "'w sysread \<Rightarrow> 'c bstream \<Rightarrow> int \<Rightarrow> int \<Rightarrow> 'w \<Rightarrow> (int \<times> 'c bstream \<times> 'w) option" where
  "read_into sys bs fd sz w =
     (case sys fd (nat sz) w of
        (None, w') \<Rightarrow> Some (-1, bs, w')
      | (Some xs, w') \<Rightarrow>
          do { d \<leftarrow> bsdata bs;
               _ \<leftarrow> guard (0 \<le> eod bs);
               d' \<leftarrow> memcpy_to d (nat (eod bs)) xs 0 (length xs);
               Some (int (length xs), bs\<lparr>bsdata := Some d', eod := eod bs + int (length xs)\<rparr>, w') })"

definition read_body :: "'w sysread \<Rightarrow> u8 alloc \<Rightarrow> 'c bstream \<Rightarrow> int \<Rightarrow> int \<Rightarrow> 'w \<Rightarrow> (int \<times> 'c bstream \<times> 'w) option" where
  "read_body sys malloc bs fd sz w =
     (let need = (eod bs + sz) - bssz bs
      in if need > 0 then
           (case bytestream_grow malloc bs (nat (MNMAX need (growsz bs))) of
              (r, bs1) \<Rightarrow> if r \<noteq> rc_ok then Some (-1, bs1, w) else read_into sys bs1 fd sz w)
         else read_into sys bs fd sz w)"

definition bytestream_read_more :: "'w sysread \<Rightarrow> u8 alloc \<Rightarrow> 'c bstream \<Rightarrow> int \<Rightarrow> int \<Rightarrow> 'w \<Rightarrow> (int \<times> 'c bstream \<times> 'w) option" where
  "bytestream_read_more sys malloc bs fd sz w = read_body sys malloc bs fd sz w"

definition bytestream_recv_more :: "'w sysread \<Rightarrow> u8 alloc \<Rightarrow> 'c bstream \<Rightarrow> int \<Rightarrow> int \<Rightarrow> 'w \<Rightarrow> (int \<times> 'c bstream \<times> 'w) option" where
  "bytestream_recv_more sys malloc bs fd sz w = read_body sys malloc bs fd sz w"

text \<open>The bytes at the position, for a write.\<close>

definition pending :: "'c bstream \<Rightarrow> int \<Rightarrow> u8 list option" where
  "pending bs sz =
     do { d \<leftarrow> bsdata bs;
          _ \<leftarrow> guard (0 \<le> spos bs \<and> spos bs + sz \<le> int (length d));
          Some (take (nat sz) (drop (nat (spos bs)) d)) }"

definition bytestream_write :: "'w syswrite \<Rightarrow> 'c bstream \<Rightarrow> int \<Rightarrow> int \<Rightarrow> 'w \<Rightarrow> (int \<times> 'c bstream \<times> 'w) option" where
  "bytestream_write sys bs fd sz w =
     (if spos bs + sz > eod bs then Some (-1, bs, w)
      else
        do { xs \<leftarrow> pending bs sz;
             case sys fd xs w of
               (None, w') \<Rightarrow> Some (-1, bs, w')
             | (Some n, w') \<Rightarrow> Some (int n, bs\<lparr>spos := spos bs + int n\<rparr>, w') })"

definition bytestream_stderr_write :: "'w syswrite \<Rightarrow> 'c bstream \<Rightarrow> int \<Rightarrow> int \<Rightarrow> 'w \<Rightarrow> (int \<times> 'c bstream \<times> 'w) option" where
  "bytestream_stderr_write sys bs out sz w =
     (if spos bs + sz > eod bs then Some (-1, bs, w)
      else
        do { xs \<leftarrow> pending bs sz;
             case sys 2 xs w of
               (None, w') \<Rightarrow> Some (-1, bs, snd (sys 2 [10] w'))
             | (Some n, w') \<Rightarrow> Some (int n, bs\<lparr>spos := spos bs + int n\<rparr>, snd (sys 2 [10] w')) })"

definition bytestream_send :: "'w syswrite \<Rightarrow> 'c bstream \<Rightarrow> int \<Rightarrow> int \<Rightarrow> 'w \<Rightarrow> (int \<times> 'c bstream \<times> 'w) option" where
  "bytestream_send sys bs fd sz w =
     (if spos bs + sz > eod bs then Some (-1, bs, w)
      else
        do { xs \<leftarrow> pending bs sz;
             case sys fd xs w of
               (r, w') \<Rightarrow>
                 let nwritten = (case r of None \<Rightarrow> -1 | Some n \<Rightarrow> int n)
                 in Some (nwritten, bs\<lparr>spos := spos bs + nwritten\<rparr>, w') })"

definition bytestream_consume_data :: "('c, 'w) ioenv \<Rightarrow> 'c bstream \<Rightarrow> int \<Rightarrow> 'w \<Rightarrow> (rc \<times> 'c bstream \<times> 'w) option" where
  "bytestream_consume_data env bs fd w =
     do { f \<leftarrow> read_more bs;
          let need0 = (spos bs + growsz bs) - eod bs;
          let need = (if need0 \<le> 0 then growsz bs else need0);
          (nread, bs1, w1) \<leftarrow> env f bs fd need w;
          Some (if nread = 0 then Rc (-1) else if nread < 0 then Diag ''BYTESTREAM_CONSUME_DATA'' 2 else rc_ok, bs1, w1) }"

definition bytestream_produce_data :: "('c, 'w) ioenv \<Rightarrow> 'c bstream \<Rightarrow> int \<Rightarrow> 'w \<Rightarrow> (rc \<times> 'c bstream \<times> 'w) option" where
  "bytestream_produce_data env bs out w =
     do { f \<leftarrow> bswrite bs;
          (n, bs1, w1) \<leftarrow> env f bs out (eod bs - spos bs) w;
          Some (if n < 0 then Diag ''BYTESTREAM_PRODUCE_DATA'' 1 else rc_ok, bs1, w1) }"

subsection \<open>Writing into the buffer\<close>

definition BYTESTREAM_NPRINTF_ERROR :: int where "BYTESTREAM_NPRINTF_ERROR = -129"

definition BYTESTREAM_NPRINTF_NEEDMORE :: int where "BYTESTREAM_NPRINTF_NEEDMORE = -130"

definition BYTESTREAM_CAT_ERROR :: int where "BYTESTREAM_CAT_ERROR = -127"

text \<open>
  What \<^verbatim>\<open>vsnprintf\<close> is asked to format: a text, or a format that fails after some bytes were put out.
  It returns the length of the text in an \<^verbatim>\<open>int\<close>, and -1 when it fails or when the length does not fit;
  into the buffer go at most \<open>sz\<close> bytes, the last of them zero.
\<close>

datatype formatted = Formatted "u8 list" | FormatError "u8 list"

fun put_out :: "formatted \<Rightarrow> u8 list" where
  "put_out (Formatted txt) = txt"
| "put_out (FormatError txt) = txt"

fun vsnprintf_ret :: "formatted \<Rightarrow> int" where
  "vsnprintf_ret (Formatted txt) = (if length txt < 2 ^ 31 then int (length txt) else -1)"
| "vsnprintf_ret (FormatError _) = -1"

definition vsnprintf_at :: "u8 list option \<Rightarrow> int \<Rightarrow> nat \<Rightarrow> formatted \<Rightarrow> (int \<times> u8 list option) option" where
  "vsnprintf_at d p sz f =
     (if sz = 0 then Some (vsnprintf_ret f, d)
      else do { d0 \<leftarrow> d;
                _ \<leftarrow> guard (0 \<le> p);
                let out = take (sz - 1) (put_out f) @ [0];
                d1 \<leftarrow> memcpy_to d0 (nat p) out 0 (length out);
                Some (vsnprintf_ret f, Some d1) })"

text \<open>A negative result passes the test for room: the end of data moves back by one.\<close>

definition nprintf_body :: "u8 alloc \<Rightarrow> 'c bstream \<Rightarrow> nat \<Rightarrow> formatted \<Rightarrow> (int \<times> 'c bstream) option" where
  "nprintf_body malloc bs sz f =
     (case grow_for malloc bs sz of
        (r, bs1) \<Rightarrow>
          if r \<noteq> rc_ok then Some (BYTESTREAM_NPRINTF_ERROR, bs1)
          else
            do { (nused, d) \<leftarrow> vsnprintf_at (bsdata bs1) (eod bs1) sz f;
                 let bs2 = bs1\<lparr>bsdata := d\<rparr>;
                 Some (if nused \<ge> SS64 (int sz) then (BYTESTREAM_NPRINTF_NEEDMORE, bs2)
                       else (nused, bs2\<lparr>eod := eod bs2 + nused\<rparr>)) })"

definition bytestream_nprintf :: "u8 alloc \<Rightarrow> 'c bstream \<Rightarrow> nat \<Rightarrow> formatted \<Rightarrow> (int \<times> 'c bstream) option" where
  "bytestream_nprintf malloc bs sz f = nprintf_body malloc bs sz f"

definition bytestream_vnprintf :: "u8 alloc \<Rightarrow> 'c bstream \<Rightarrow> nat \<Rightarrow> formatted \<Rightarrow> (int \<times> 'c bstream) option" where
  "bytestream_vnprintf malloc bs sz f = nprintf_body malloc bs sz f"

definition bytestream_cat :: "u8 alloc \<Rightarrow> 'c bstream \<Rightarrow> nat \<Rightarrow> u8 list \<Rightarrow> (int \<times> 'c bstream) option" where
  "bytestream_cat malloc bs sz src =
     (case grow_for malloc bs sz of
        (r, bs1) \<Rightarrow>
          if r \<noteq> rc_ok then Some (BYTESTREAM_CAT_ERROR, bs1)
          else
            do { d \<leftarrow> bsdata bs1;
                 _ \<leftarrow> guard (0 \<le> eod bs1);
                 d1 \<leftarrow> memcpy_to d (nat (eod bs1)) src 0 sz;
                 Some (S32 (int sz), bs1\<lparr>bsdata := Some d1, eod := eod bs1 + int sz\<rparr>) })"

text \<open>\<^verbatim>\<open>SCATC\<close>: one byte; the result of the growth is not looked at.\<close>

definition SCATC :: "u8 alloc \<Rightarrow> 'c bstream \<Rightarrow> u8 \<Rightarrow> 'c bstream option" where
  "SCATC malloc bs c =
     (let bs1 = (if eod bs \<ge> bssz bs then snd (bytestream_grow malloc bs (nat (growsz bs mod 2 ^ 64))) else bs)
      in do { d \<leftarrow> bsdata bs1;
              _ \<leftarrow> guard (0 \<le> eod bs1);
              d1 \<leftarrow> poke d (nat (eod bs1)) c;
              Some (bs1\<lparr>bsdata := Some d1, eod := eod bs1 + 1\<rparr>) })"

text \<open>
  The macros that store the bytes of an object: they grow the buffer by \<open>growsz\<close> until there is room,
  and do not look at the result of the growth either. A number is stored in the order of a little-endian
  machine; of a floating point number the bytes are given.
\<close>

partial_function (option) scat_grow :: "u8 alloc \<Rightarrow> 'c bstream \<Rightarrow> int \<Rightarrow> 'c bstream option" where
  "scat_grow malloc bs n =
     (if eod bs + n > bssz bs
      then scat_grow malloc (snd (bytestream_grow malloc bs (nat (growsz bs mod 2 ^ 64)))) n
      else Some bs)"

definition SCATI :: "u8 alloc \<Rightarrow> 'c bstream \<Rightarrow> u8 list \<Rightarrow> 'c bstream option" where
  "SCATI malloc bs rep =
     do { bs1 \<leftarrow> scat_grow malloc bs (int (length rep));
          d \<leftarrow> bsdata bs1;
          _ \<leftarrow> guard (0 \<le> eod bs1);
          d1 \<leftarrow> memcpy_to d (nat (eod bs1)) rep 0 (length rep);
          Some (bs1\<lparr>bsdata := Some d1, eod := eod bs1 + int (length rep)\<rparr>) }"

definition little_endian :: "nat \<Rightarrow> 'a::len word \<Rightarrow> u8 list" where
  "little_endian n i = map (\<lambda>j. ucast (drop_bit (8 * j) i)) [0..<n]"

definition SCATI16 :: "u8 alloc \<Rightarrow> 'c bstream \<Rightarrow> 16 word \<Rightarrow> 'c bstream option" where
  "SCATI16 malloc bs i = SCATI malloc bs (little_endian 2 i)"

definition SCATI32 :: "u8 alloc \<Rightarrow> 'c bstream \<Rightarrow> 32 word \<Rightarrow> 'c bstream option" where
  "SCATI32 malloc bs i = SCATI malloc bs (little_endian 4 i)"

definition SCATI64 :: "u8 alloc \<Rightarrow> 'c bstream \<Rightarrow> 64 word \<Rightarrow> 'c bstream option" where
  "SCATI64 malloc bs i = SCATI malloc bs (little_endian 8 i)"

definition SCATF :: "u8 alloc \<Rightarrow> 'c bstream \<Rightarrow> u8 list \<Rightarrow> 'c bstream option" where
  "SCATF malloc bs rep = do { _ \<leftarrow> guard (length rep = 4); SCATI malloc bs rep }"

definition SCATD :: "u8 alloc \<Rightarrow> 'c bstream \<Rightarrow> u8 list \<Rightarrow> 'c bstream option" where
  "SCATD malloc bs rep = do { _ \<leftarrow> guard (length rep = 8); SCATI malloc bs rep }"

definition bytestream_rewind :: "'c bstream \<Rightarrow> 'c bstream" where
  "bytestream_rewind bs = bs\<lparr>spos := 0, eod := 0\<rparr>"

definition bytestream_zero :: "'c bstream \<Rightarrow> 'c bstream option" where
  "bytestream_zero bs =
     do { d \<leftarrow> bsdata bs;
          _ \<leftarrow> guard (0 \<le> bssz bs \<and> nat (bssz bs) \<le> length d);
          Some (bs\<lparr>bsdata := Some (replicate (nat (bssz bs)) 0 @ drop (nat (bssz bs)) d), spos := 0, eod := 0\<rparr>) }"

text \<open>\<open>pgsz\<close> is the system's page size.\<close>

definition bytestream_recycle :: "int \<Rightarrow> 'c bstream \<Rightarrow> int \<Rightarrow> int \<Rightarrow> (int \<times> 'c bstream) option" where
  "bytestream_recycle pgsz bs ngrowsz from =
     do { _ \<leftarrow> guard (pgsz \<noteq> 0);
          let from1 = from - from smod pgsz;
          if from1 > growsz bs * ngrowsz then
            do { d \<leftarrow> bsdata bs;
                 _ \<leftarrow> guard (0 \<le> from1 \<and> from1 \<le> eod bs);
                 d1 \<leftarrow> memcpy_to d 0 d (nat from1) (nat (eod bs - from1));
                 Some (from1, bs\<lparr>bsdata := Some d1, eod := eod bs - from1, spos := spos bs - from1\<rparr>) }
          else Some (0, bs) }"

definition bytestream_fini :: "'c bstream \<Rightarrow> 'c bstream" where
  "bytestream_fini bs = bs\<lparr>bsdata := None, read_more := None, bswrite := None\<rparr>"

definition bytestream_new :: "u8 alloc \<Rightarrow> 'c bstream \<Rightarrow> int \<Rightarrow> 'c bstream" where
  "bytestream_new malloc junk grow = snd (bytestream_init malloc junk grow)"

definition bytestream_copy :: "u8 alloc \<Rightarrow> 'c bstream \<Rightarrow> 'c bstream option" where
  "bytestream_copy malloc bs =
     (case bsdata bs of
        None \<Rightarrow> Some bs
      | Some d \<Rightarrow>
          do { _ \<leftarrow> guard (bssz bs > 0);
               blk \<leftarrow> malloc (nat (bssz bs));
               blk1 \<leftarrow> memcpy_to blk 0 d 0 (nat (bssz bs));
               Some (bs\<lparr>bsdata := Some blk1\<rparr>) })"

definition bytestream_destroy :: "'c bstream option \<Rightarrow> 'c bstream option" where
  "bytestream_destroy bs = None"

subsection \<open>Streams over memory, and lines\<close>

definition bytestream_read_more_bytes :: "'c bstream \<Rightarrow> int \<Rightarrow> int \<Rightarrow> 'w \<Rightarrow> (int \<times> 'c bstream \<times> 'w) option" where
  "bytestream_read_more_bytes bs fd sz w =
     (let nleft = bssz bs - eod bs
      in if nleft \<le> 0 then Some (-1, bs, w)
         else
           let sz1 = MNMIN sz nleft; over = (eod bs + sz1) - bssz bs
           in if over > 0 then Some (-1, bs, w) else Some (sz1, bs\<lparr>eod := eod bs + sz1\<rparr>, w))"

text \<open>\<open>rd\<close> is the name of \<^verbatim>\<open>bytestream_read_more_bytes\<close> in the environment.\<close>

definition bytestream_from_mem :: "'c \<Rightarrow> 'c bstream \<Rightarrow> u8 list \<Rightarrow> nat \<Rightarrow> 'c bstream" where
  "bytestream_from_mem rd bs s sz =
     (snd (bytestream_init (\<lambda>_. None) bs 0))\<lparr>read_more := Some rd, bssz := SS64 (int sz), bsdata := Some s\<rparr>"

definition bytestream_from_bytes :: "'c \<Rightarrow> 'c bstream \<Rightarrow> mnbytes \<Rightarrow> 'c bstream" where
  "bytestream_from_bytes rd bs str =
     (snd (bytestream_init (\<lambda>_. None) bs 0))\<lparr>read_more := Some rd, bssz := SS64 (int (bsz str)), bsdata := Some (bdata str)\<rparr>"

type_synonym ('c, 'w) linecb = "'c bstream \<Rightarrow> byterange \<Rightarrow> 'w \<Rightarrow> int \<times> 'w"

text \<open>
  The inner loop: up to the end of the data, or to a callback that returns something else than zero
  (the Boolean). It counts down the bytes that are left, as \<^verbatim>\<open>SAVAIL\<close> does.
\<close>

fun scan_lines ::
  "('c, 'w) linecb \<Rightarrow> nat \<Rightarrow> 'c bstream \<Rightarrow> byterange \<Rightarrow> 'w \<Rightarrow> (bool \<times> int \<times> 'c bstream \<times> byterange \<times> 'w) option" where
  "scan_lines cb 0 bs line w = Some (False, 0, bs, line, w)"
| "scan_lines cb (Suc k) bs line w =
     do { ch \<leftarrow> SPCHR bs;
          if ch = 10 then
            (let line1 = line\<lparr>br_end := spos bs\<rparr>
             in case cb bs line1 w of
                  (r, w1) \<Rightarrow>
                    if r \<noteq> 0 then Some (True, r, bs, line1, w1)
                    else (let bs1 = SADVANCEPOS bs 1 in scan_lines cb k bs1 (line1\<lparr>br_start := spos bs1\<rparr>) w1))
          else scan_lines cb k (SADVANCEPOS bs 1) line w }"

partial_function (option) consume_lines_loop ::
  "('c, 'w) ioenv \<Rightarrow> int \<Rightarrow> ('c, 'w) linecb \<Rightarrow> int \<Rightarrow> 'c bstream \<Rightarrow> byterange \<Rightarrow> 'w \<Rightarrow> (int \<times> 'c bstream \<times> 'w) option" where
  "consume_lines_loop env pgsz cb fd bs line w =
     do { (r, bs1, w1) \<leftarrow> (if SNEEDMORE bs then bytestream_consume_data env bs fd w else Some (rc_ok, bs, w));
          if r \<noteq> rc_ok then Some (0, bs1, w1)
          else
            do { (stop, res, bs2, line2, w2) \<leftarrow> scan_lines cb (nat (SAVAIL bs1)) bs1 line w1;
                 if stop then Some (res, bs2, w2)
                 else
                   do { _ \<leftarrow> guard (growsz bs2 \<noteq> 0);
                        let recyclepos = br_start line2 - br_start line2 smod growsz bs2;
                        _ \<leftarrow> guard (0 \<le> recyclepos \<and> recyclepos \<le> spos bs2);
                        (shiftback, bs3) \<leftarrow> bytestream_recycle pgsz bs2 2 recyclepos;
                        _ \<leftarrow> guard (shiftback \<le> br_start line2);
                        consume_lines_loop env pgsz cb fd bs3 (line2\<lparr>br_start := br_start line2 - shiftback\<rparr>) w2 } } }"

definition bytestream_consume_lines ::
  "('c, 'w) ioenv \<Rightarrow> int \<Rightarrow> ('c, 'w) linecb \<Rightarrow> int \<Rightarrow> 'c bstream \<Rightarrow> 'w \<Rightarrow> (int \<times> 'c bstream \<times> 'w) option" where
  "bytestream_consume_lines env pgsz cb fd bs w =
     consume_lines_loop env pgsz cb fd bs \<lparr>br_start = spos bs, br_end = 0\<rparr> w"

end
