(* ===== verification/Bytestream_Spec.thy ===== *)
theory Bytestream_Spec
  imports Mn_Bytestream
begin

text \<open>
  What the byte streams of \<^verbatim>\<open>Mn_Bytestream\<close> promise: the invariant of the buffer, the effect of the
  writers on the text of a stream (the bytes up to the end of data), and the lines a client of
  \<^verbatim>\<open>bytestream_consume_lines\<close> gets to see.
\<close>

subsection \<open>The invariant and the text\<close>

definition sblock :: "'c bstream \<Rightarrow> u8 list" where
  "sblock bs = (case bsdata bs of None \<Rightarrow> [] | Some d \<Rightarrow> d)"

definition bs_wf :: "'c bstream \<Rightarrow> bool" where
  "bs_wf bs \<longleftrightarrow> bssz bs = int (length (sblock bs)) \<and> 0 \<le> spos bs \<and> spos bs \<le> eod bs \<and> eod bs \<le> bssz bs
     \<and> 0 \<le> growsz bs"

definition stext :: "'c bstream \<Rightarrow> u8 list" where
  "stext bs = take (nat (eod bs)) (sblock bs)"

definition unread :: "'c bstream \<Rightarrow> u8 list" where
  "unread bs = drop (nat (spos bs)) (stext bs)"

text \<open>The rest of a stream: what writing to its end leaves alone.\<close>

definition same_reader :: "'c bstream \<Rightarrow> 'c bstream \<Rightarrow> bool" where
  "same_reader bs bs' \<longleftrightarrow> spos bs' = spos bs \<and> growsz bs' = growsz bs \<and> read_more bs' = read_more bs
     \<and> bswrite bs' = bswrite bs"

lemma same_reader_refl [simp]: "same_reader bs bs"
  by (simp add: same_reader_def)

lemma same_reader_trans: "same_reader a b \<Longrightarrow> same_reader b c \<Longrightarrow> same_reader a c"
  by (simp add: same_reader_def)

lemma bs_wfD:
  assumes "bs_wf bs"
  shows "bssz bs = int (length (sblock bs))" "0 \<le> spos bs" "spos bs \<le> eod bs" "0 \<le> eod bs"
    "eod bs \<le> bssz bs" "0 \<le> growsz bs" "nat (eod bs) \<le> length (sblock bs)"
  using assms by (auto simp: bs_wf_def)

lemma length_stext: "bs_wf bs \<Longrightarrow> int (length (stext bs)) = eod bs"
  using bs_wfD [of bs] by (simp add: stext_def)

lemma grow_keeps:
  assumes al: "allocator alloc" and wf: "bs_wf bs" and small: "bssz bs + int n < 2 ^ 63"
    and g: "bytestream_grow alloc bs n = (r, bs')"
  shows "bs_wf bs'" "stext bs' = stext bs" "eod bs' = eod bs" "same_reader bs bs'"
    "r = rc_ok \<Longrightarrow> bssz bs' = bssz bs + int n" "r \<noteq> rc_ok \<Longrightarrow> bs' = bs"
proof -
  have m: "(bssz bs + int n) mod 2 ^ 64 = bssz bs + int n"
    using small bs_wfD [OF wf] by (intro mod_pos_pos_trivial) simp_all
  have s: "SS64 (bssz bs + int n) = bssz bs + int n"
    using small bs_wfD [OF wf] by (intro SS64_small) simp_all
  consider "r = Diag ''BYTESTREAM_GROW'' 1" "bs' = bs"
    | d where "realloc_blk alloc (sblock bs) (nat (bssz bs + int n)) = Some d" "r = rc_ok"
        "bs' = bs\<lparr>bsdata := Some d, bssz := bssz bs + int n\<rparr>"
    using g m s by (auto simp: bytestream_grow_def sblock_def split: option.splits)
  then have "bs_wf bs' \<and> stext bs' = stext bs \<and> eod bs' = eod bs \<and> same_reader bs bs'
    \<and> (r = rc_ok \<longrightarrow> bssz bs' = bssz bs + int n) \<and> (r \<noteq> rc_ok \<longrightarrow> bs' = bs)"
  proof cases
    case 1
    then show ?thesis using wf by simp
  next
    case 2
    have "length d = nat (bssz bs + int n)" by (rule allocator.realloc_len [OF al 2(1)])
    moreover have "take (nat (eod bs)) d = take (nat (eod bs)) (sblock bs)"
      using bs_wfD [OF wf] by (intro allocator.realloc_prefix [OF al 2(1)]) auto
    ultimately show ?thesis
      using 2(2,3) bs_wfD [OF wf] by (simp add: bs_wf_def sblock_def stext_def same_reader_def)
  qed
  then show "bs_wf bs'" "stext bs' = stext bs" "eod bs' = eod bs" "same_reader bs bs'"
    "r = rc_ok \<Longrightarrow> bssz bs' = bssz bs + int n" "r \<noteq> rc_ok \<Longrightarrow> bs' = bs" by simp_all
qed

lemma grow_for_keeps:
  assumes al: "allocator alloc" and wf: "bs_wf bs" and small: "bssz bs + int n + growsz bs < 2 ^ 63"
    and g: "grow_for alloc bs n = (r, bs')"
  shows "bs_wf bs'" "stext bs' = stext bs" "eod bs' = eod bs" "same_reader bs bs'"
    "r = rc_ok \<Longrightarrow> eod bs' + int n \<le> bssz bs'" "r \<noteq> rc_ok \<Longrightarrow> bs' = bs"
proof -
  note b = bs_wfD [OF wf]
  have need: "SS64 ((eod bs + int n) - bssz bs) = eod bs + int n - bssz bs"
    using small b by (intro SS64_small) simp_all
  let ?need = "eod bs + int n - bssz bs"
  have "bs_wf bs' \<and> stext bs' = stext bs \<and> eod bs' = eod bs \<and> same_reader bs bs'
    \<and> (r = rc_ok \<longrightarrow> eod bs' + int n \<le> bssz bs') \<and> (r \<noteq> rc_ok \<longrightarrow> bs' = bs)"
  proof (cases "?need > 0")
    case True
    let ?m = "nat (if ?need < growsz bs then growsz bs else ?need)"
    have g': "bytestream_grow alloc bs ?m = (r, bs')" using g True by (simp add: grow_for_def need Let_def)
    have "bssz bs + int ?m < 2 ^ 63" using small b True by auto
    from grow_keeps [OF al wf this g'] show ?thesis using True by auto
  next
    case False
    then show ?thesis using g wf by (auto simp: grow_for_def need Let_def)
  qed
  then show "bs_wf bs'" "stext bs' = stext bs" "eod bs' = eod bs" "same_reader bs bs'"
    "r = rc_ok \<Longrightarrow> eod bs' + int n \<le> bssz bs'" "r \<noteq> rc_ok \<Longrightarrow> bs' = bs" by simp_all
qed

subsection \<open>Writing\<close>

text \<open>Bytes copied to the end of data, of which the first \<open>k\<close> become text.\<close>

lemma put_at_end:
  assumes wf: "bs_wf bs" and d: "bsdata bs = Some d" and room: "eod bs + int (length out) \<le> bssz bs"
    and k: "k \<le> length out"
    and bs': "bs' = bs\<lparr>bsdata := Some (put_bytes d (nat (eod bs)) out), eod := eod bs + int k\<rparr>"
  shows "bs_wf bs'" "stext bs' = stext bs @ take k out" "same_reader bs bs'"
proof -
  note b = bs_wfD [OF wf]
  have dl: "sblock bs = d" using d by (simp add: sblock_def)
  have fits: "nat (eod bs) + length out \<le> length d" using room b(1,4) unfolding dl by linarith
  have blk: "sblock bs' = put_bytes d (nat (eod bs)) out" by (simp add: bs' sblock_def)
  show "bs_wf bs'" using b room k fits dl blk by (simp add: bs_wf_def bs')
  have "nat (eod bs + int k) = nat (eod bs) + k" using b by simp
  then show "stext bs' = stext bs @ take k out"
    using fits k by (simp add: stext_def blk dl) (simp add: bs' put_bytes_def min_def)
  show "same_reader bs bs'" by (simp add: bs' same_reader_def)
qed

lemma memcpy_to_end:
  assumes wf: "bs_wf bs" and d: "bsdata bs = Some d" and room: "eod bs + int n \<le> bssz bs" and n: "n \<le> length src"
  shows "memcpy_to d (nat (eod bs)) src 0 n = Some (put_bytes d (nat (eod bs)) (take n src))"
proof -
  have "nat (eod bs) + n \<le> length d" using bs_wfD [OF wf] room d by (simp add: sblock_def)
  then show ?thesis using n by (simp add: memcpy_to_def)
qed

lemma has_block:
  assumes "bs_wf bs" "eod bs + int n \<le> bssz bs" "0 < n"
  obtains d where "bsdata bs = Some d"
proof (cases "bsdata bs")
  case None
  then have "bssz bs = 0" using assms(1) by (simp add: bs_wf_def sblock_def)
  then show thesis using assms(2,3) bs_wfD [OF assms(1)] by simp
qed (rule that)

lemma grow_for_size:
  assumes al: "allocator alloc" and wf: "bs_wf bs" and small: "bssz bs + int n + growsz bs < 2 ^ 63"
    and g: "grow_for alloc bs n = (r, bs')"
  shows "bssz bs' \<le> bssz bs + int n + growsz bs"
proof -
  note b = bs_wfD [OF wf]
  have need: "SS64 ((eod bs + int n) - bssz bs) = eod bs + int n - bssz bs"
    using small b by (intro SS64_small) simp_all
  let ?need = "eod bs + int n - bssz bs"
  show ?thesis
  proof (cases "?need > 0")
    case True
    let ?m = "nat (if ?need < growsz bs then growsz bs else ?need)"
    have g': "bytestream_grow alloc bs ?m = (r, bs')" using g True by (simp add: grow_for_def need Let_def)
    have m: "bssz bs + int ?m < 2 ^ 63" "int ?m \<le> int n + growsz bs" using small b True by auto
    from grow_keeps(5,6) [OF al wf m(1) g'] m(2) b show ?thesis by (cases "r = rc_ok") auto
  next
    case False
    then have "bs' = bs" using g by (simp add: grow_for_def need Let_def)
    then show ?thesis using b by simp
  qed
qed

text \<open>The end of data moved back by one.\<close>

lemma eod_back:
  assumes wf: "bs_wf bs" and room: "spos bs < eod bs"
  shows "bs_wf (bs\<lparr>eod := eod bs - 1\<rparr>)" "stext (bs\<lparr>eod := eod bs - 1\<rparr>) = butlast (stext bs)"
proof -
  note b = bs_wfD [OF wf]
  show "bs_wf (bs\<lparr>eod := eod bs - 1\<rparr>)" using b room by (simp add: bs_wf_def sblock_def)
  have "nat (eod bs) \<le> length (sblock bs)" "nat (eod bs - 1) = nat (eod bs) - 1" using b by linarith+
  then show "stext (bs\<lparr>eod := eod bs - 1\<rparr>) = butlast (stext bs)"
    by (simp add: stext_def sblock_def butlast_take)
qed

text \<open>The call of \<^verbatim>\<open>vsnprintf\<close>: it stays inside the block and leaves the text and the reading side.\<close>

lemma vsnprintf_end:
  assumes wf: "bs_wf bs" and room: "eod bs + int sz \<le> bssz bs"
  obtains d where "vsnprintf_at (bsdata bs) (eod bs) sz f = Some (vsnprintf_ret f, d)"
    "bs_wf (bs\<lparr>bsdata := d\<rparr>)" "stext (bs\<lparr>bsdata := d\<rparr>) = stext bs"
    "length (put_out f) < sz \<Longrightarrow> bs_wf (bs\<lparr>bsdata := d, eod := eod bs + int (length (put_out f))\<rparr>)"
    "length (put_out f) < sz \<Longrightarrow>
       stext (bs\<lparr>bsdata := d, eod := eod bs + int (length (put_out f))\<rparr>) = stext bs @ put_out f"
proof (cases "sz = 0")
  case True
  then show thesis using that [of "bsdata bs"] wf by (simp add: vsnprintf_at_def)
next
  case False
  let ?out = "take (sz - 1) (put_out f) @ [0]"
  have r: "eod bs + int (length ?out) \<le> bssz bs" using room False by (auto simp: min_def)
  obtain d where d: "bsdata bs = Some d" by (rule has_block [OF wf room]) (use False in simp_all)
  let ?d = "Some (put_bytes d (nat (eod bs)) ?out)"
  have "memcpy_to d (nat (eod bs)) ?out 0 (length ?out) = ?d"
    by (rule memcpy_to_end [OF wf d r le_refl, unfolded take_all [OF le_refl]])
  then have v: "vsnprintf_at (bsdata bs) (eod bs) sz f = Some (vsnprintf_ret f, ?d)"
    using False bs_wfD [OF wf] by (simp add: vsnprintf_at_def d Let_def)
  have 0: "bs\<lparr>bsdata := ?d\<rparr> = bs\<lparr>bsdata := ?d, eod := eod bs + int 0\<rparr>" by simp
  note keep = put_at_end [OF wf d r _ 0] and app = put_at_end [OF wf d r _ refl, of "length (put_out f)"]
  show thesis by (rule that [OF v]) (use keep app in simp_all)
qed

text \<open>
  The four ways the call ends. With a negative result of \<^verbatim>\<open>vsnprintf\<close> the last byte of the text is
  lost, and the stream is no longer well-formed when there is no byte that has not been read.
\<close>

definition nprintf_outcome :: "u8 alloc \<Rightarrow> 'c bstream \<Rightarrow> nat \<Rightarrow> formatted \<Rightarrow> int \<Rightarrow> 'c bstream \<Rightarrow> bool" where
  "nprintf_outcome malloc bs sz f r bs' \<longleftrightarrow>
     r = BYTESTREAM_NPRINTF_ERROR \<and> bs' = bs \<and> fst (grow_for malloc bs sz) \<noteq> rc_ok
     \<or> r = BYTESTREAM_NPRINTF_NEEDMORE \<and> bs_wf bs' \<and> stext bs' = stext bs \<and> int sz \<le> vsnprintf_ret f
     \<or> r = int (length (put_out f)) \<and> bs_wf bs' \<and> stext bs' = stext bs @ put_out f
       \<and> vsnprintf_ret f = int (length (put_out f)) \<and> length (put_out f) < sz
     \<or> r = -1 \<and> vsnprintf_ret f = -1 \<and> eod bs' = eod bs - 1
       \<and> (if spos bs < eod bs then bs_wf bs' \<and> stext bs' = butlast (stext bs) else \<not> bs_wf bs')"

lemma vsnprintf_ret_cases: "vsnprintf_ret f = -1 \<or> vsnprintf_ret f = int (length (put_out f))"
  by (cases f) simp_all

lemma nprintf_outcomes:
  fixes bs :: "'c bstream"
  assumes al: "allocator malloc" and wf: "bs_wf bs"
    and small: "bssz bs + int sz + growsz bs < 2 ^ 63"
  shows "\<exists>r bs'. bytestream_nprintf malloc bs sz f = Some (r, bs')
    \<and> bytestream_vnprintf malloc bs sz f = Some (r, bs') \<and> same_reader bs bs'
    \<and> bssz bs' \<le> bssz bs + int sz + growsz bs \<and> nprintf_outcome malloc bs sz f r bs'"
proof -
  obtain rc bs1 where g: "grow_for malloc bs sz = (rc, bs1)" by fastforce
  note k = grow_for_keeps [OF al wf small g]
  note size = grow_for_size [OF al wf small g]
  have goal: ?thesis if "nprintf_body malloc bs sz f = Some (r', bs')" "same_reader bs bs'"
    "bssz bs' \<le> bssz bs + int sz + growsz bs" "nprintf_outcome malloc bs sz f r' bs'" for r' bs'
    using that unfolding bytestream_nprintf_def bytestream_vnprintf_def by blast
  have ss: "SS64 (int sz) = int sz" using small bs_wfD [OF wf] by (intro SS64_small) simp_all
  show ?thesis
  proof (cases "rc = rc_ok")
    case False
    then show ?thesis using g k size
      by (intro goal [of BYTESTREAM_NPRINTF_ERROR bs1]) (simp_all add: nprintf_body_def nprintf_outcome_def)
  next
    case ok: True
    obtain d where d: "vsnprintf_at (bsdata bs1) (eod bs1) sz f = Some (vsnprintf_ret f, d)"
        "bs_wf (bs1\<lparr>bsdata := d\<rparr>)" "stext (bs1\<lparr>bsdata := d\<rparr>) = stext bs1"
        "length (put_out f) < sz \<Longrightarrow> bs_wf (bs1\<lparr>bsdata := d, eod := eod bs1 + int (length (put_out f))\<rparr>)"
        "length (put_out f) < sz \<Longrightarrow>
           stext (bs1\<lparr>bsdata := d, eod := eod bs1 + int (length (put_out f))\<rparr>) = stext bs1 @ put_out f"
      using vsnprintf_end [OF k(1) k(5) [OF ok], of f] by metis
    have rd: "same_reader bs (bs1\<lparr>bsdata := d\<rparr>)" "same_reader bs (bs1\<lparr>bsdata := d, eod := e\<rparr>)" for e
      using k(4) by (simp_all add: same_reader_def)
    show ?thesis
    proof (cases "int sz \<le> vsnprintf_ret f")
      case True
      then show ?thesis using g d ok ss k rd size
        by (intro goal [of BYTESTREAM_NPRINTF_NEEDMORE "bs1\<lparr>bsdata := d\<rparr>"])
          (simp_all add: nprintf_body_def nprintf_outcome_def)
    next
      case less: False
      let ?bs = "bs1\<lparr>bsdata := d, eod := eod bs1 + vsnprintf_ret f\<rparr>"
      have body: "nprintf_body malloc bs sz f = Some (vsnprintf_ret f, ?bs)"
        using g d(1) ok ss less by (simp add: nprintf_body_def)
      have "nprintf_outcome malloc bs sz f (vsnprintf_ret f) ?bs"
      proof (cases "vsnprintf_ret f = -1")
        case True
        have "spos bs1 = spos bs" using k(4) by (simp add: same_reader_def)
        then show ?thesis using True k(2,3) d(2,3) eod_back [OF d(2)]
          by (auto simp: nprintf_outcome_def bs_wf_def [of "bs1\<lparr>bsdata := d, eod := eod bs - 1\<rparr>"])
      next
        case False
        then have "vsnprintf_ret f = int (length (put_out f))" using vsnprintf_ret_cases by blast
        then show ?thesis using less k(2) d(4,5) by (simp add: nprintf_outcome_def)
      qed
      then show ?thesis using body rd size by (intro goal) simp_all
    qed
  qed
qed

text \<open>
  C5: For a well-formed stream below \<^verbatim>\<open>2^63\<close> bytes, bytestream_nprintf (and bytestream_vnprintf) with room
  for sz bytes never faults and ends in one of four ways, which do not change the reading side. If memory runs
  out, it returns the error code and the stream is as before. If \<^verbatim>\<open>vsnprintf\<close> reports sz bytes or more, it
  returns NEEDMORE and the text of the stream is as before, so the caller can repeat the call with a larger
  size. If the text is shorter, it returns the length, and exactly the formatted text is appended. If
  \<^verbatim>\<open>vsnprintf\<close> returns -1 (it fails, or the text has \<^verbatim>\<open>2^31\<close> bytes or more), the code does not notice:
  it returns -1 with the end of data moved back by one, so the last byte of the text is lost if there is
  an unread byte, and otherwise the stream is malformed (its end lies before its read position).
\<close>
theorem bytestream_nprintf_contract:
  fixes bs :: "'c bstream"
  assumes al: "allocator malloc" and wf: "bs_wf bs"
    and small: "bssz bs + int sz + growsz bs < 2 ^ 63"
  shows "\<exists>r bs'. bytestream_nprintf malloc bs sz f = Some (r, bs')
    \<and> bytestream_vnprintf malloc bs sz f = Some (r, bs') \<and> same_reader bs bs'
    \<and> (r = BYTESTREAM_NPRINTF_ERROR \<and> bs' = bs \<and> fst (grow_for malloc bs sz) \<noteq> rc_ok
      \<or> r = BYTESTREAM_NPRINTF_NEEDMORE \<and> bs_wf bs' \<and> stext bs' = stext bs \<and> int sz \<le> vsnprintf_ret f
      \<or> r = int (length (put_out f)) \<and> bs_wf bs' \<and> stext bs' = stext bs @ put_out f
        \<and> vsnprintf_ret f = int (length (put_out f)) \<and> length (put_out f) < sz
      \<or> r = -1 \<and> vsnprintf_ret f = -1 \<and> eod bs' = eod bs - 1
        \<and> (if spos bs < eod bs then bs_wf bs' \<and> stext bs' = butlast (stext bs) else \<not> bs_wf bs'))"
  using nprintf_outcomes [OF assms, of f] unfolding nprintf_outcome_def by blast

definition demo_stream :: "u8 list \<Rightarrow> int \<Rightarrow> nat bstream" where
  "demo_stream d grow = \<lparr>bsdata = Some d, bssz = int (length d), growsz = grow, eod = int (length d), spos = 0,
     read_more = None, bswrite = None\<rparr>"

lemma demo_stream_wf: "0 \<le> grow \<Longrightarrow> bs_wf (demo_stream d grow)"
  by (simp add: demo_stream_def bs_wf_def sblock_def)

theorem bytestream_nprintf_contract_witness:
  "\<exists>r bs'. bytestream_nprintf (std_alloc (\<lambda>_. 0)) (demo_stream [72, 105] 8) 4 (Formatted [33, 33]) = Some (r, bs')
    \<and> bs_wf bs' \<and> stext bs' = [72, 105, 33, 33]"
proof -
  have "fst (grow_for (std_alloc (\<lambda>_. 0)) (demo_stream [72, 105] 8) 4) = rc_ok"
    by (simp add: demo_stream_def grow_for_def bytestream_grow_def realloc_blk_def std_alloc_def)
  moreover have "stext (demo_stream [72, 105] 8) = [72, 105]" by (simp add: demo_stream_def stext_def sblock_def)
  ultimately show ?thesis
    using bytestream_nprintf_contract [OF std_total.allocator_axioms demo_stream_wf [of 8 "[72, 105]"],
        of 4 "\<lambda>_. 0" "Formatted [33, 33]"]
    by (auto simp: demo_stream_def)
qed

text \<open>With memory to be had, \<^verbatim>\<open>bytestream_cat\<close> appends all of its bytes.\<close>

lemma grow_total:
  assumes "total_allocator malloc"
  shows "fst (bytestream_grow malloc bs n) = rc_ok"
proof -
  obtain blk where "realloc_blk malloc (sblock bs) (nat ((bssz bs + int n) mod 2 ^ 64)) = Some blk"
    using total_allocator.realloc_total [OF assms] by blast
  then show ?thesis unfolding bytestream_grow_def sblock_def [symmetric] by simp
qed

lemma grow_for_total: "total_allocator malloc \<Longrightarrow> fst (grow_for malloc bs n) = rc_ok"
  by (simp add: grow_for_def Let_def grow_total)

lemma bytestream_cat_appends:
  fixes bs :: "'c bstream"
  assumes al: "total_allocator malloc" and wf: "bs_wf bs"
    and small: "bssz bs + int (length s) + growsz bs < 2 ^ 63" and s: "s \<noteq> []"
  obtains bs' where "bytestream_cat malloc bs (length s) s = Some (S32 (int (length s)), bs')" "bs_wf bs'"
    "stext bs' = stext bs @ s" "same_reader bs bs'" "bssz bs' \<le> bssz bs + int (length s) + growsz bs"
proof -
  have al': "allocator malloc" using al by (simp add: total_allocator_def)
  obtain bs1 where g: "grow_for malloc bs (length s) = (rc_ok, bs1)"
    using grow_for_total [OF al] by (metis prod.collapse)
  note k = grow_for_keeps [OF al' wf small g]
  have room: "eod bs1 + int (length s) \<le> bssz bs1" using k(5) by simp
  obtain d where d: "bsdata bs1 = Some d" by (rule has_block [OF k(1) room]) (use s in simp_all)
  note p = put_at_end [OF k(1) d room le_refl refl]
  have "memcpy_to d (nat (eod bs1)) s 0 (length s) = Some (put_bytes d (nat (eod bs1)) s)"
    by (rule memcpy_to_end [OF k(1) d room le_refl, unfolded take_all [OF le_refl]])
  moreover have "0 \<le> eod bs1" using bs_wfD [OF k(1)] by simp
  ultimately show thesis
    using p k g d grow_for_size [OF al' wf small g] by (intro that [of "bs1\<lparr>bsdata := Some (put_bytes d (nat (eod bs1)) s), eod := eod bs1 + int (length s)\<rparr>"])
      (simp_all add: bytestream_cat_def same_reader_trans [of bs bs1])
qed

lemma SCATC_appends:
  fixes bs :: "'c bstream"
  assumes al: "total_allocator malloc" and wf: "bs_wf bs" and g0: "0 < growsz bs"
    and small: "bssz bs + growsz bs < 2 ^ 63"
  obtains bs' where "SCATC malloc bs c = Some bs'" "bs_wf bs'" "stext bs' = stext bs @ [c]" "same_reader bs bs'"
proof -
  note b = bs_wfD [OF wf]
  have al': "allocator malloc" using al by (simp add: total_allocator_def)
  let ?bs1 = "if eod bs \<ge> bssz bs then snd (bytestream_grow malloc bs (nat (growsz bs mod 2 ^ 64))) else bs"
  obtain r b1 where g: "bytestream_grow malloc bs (nat (growsz bs)) = (r, b1)" by fastforce
  have ok: "r = rc_ok"
    using grow_total [OF al, of bs "nat (growsz bs)"] g by simp
  have m: "growsz bs mod 2 ^ 64 = growsz bs" using b small by (intro mod_pos_pos_trivial) simp_all
  note k = grow_keeps [OF al' wf _ g]
  obtain bs1 where bs1: "bs1 = ?bs1" "bs_wf bs1" "stext bs1 = stext bs" "same_reader bs bs1"
    and room: "eod bs1 + int (length [c]) \<le> bssz bs1"
    using k b g0 small g m wf ok by (cases "eod bs \<ge> bssz bs") auto
  obtain d where d: "bsdata bs1 = Some d" by (rule has_block [OF bs1(2) room]) simp
  note p = put_at_end [OF bs1(2) d room le_refl refl]
  have in_d: "nat (eod bs1) < length d" using room bs_wfD [OF bs1(2)] d by (simp add: sblock_def)
  then have "poke d (nat (eod bs1)) c = Some (put_bytes d (nat (eod bs1)) [c])" by (simp add: put_bytes_single)
  moreover have "0 \<le> eod bs1" using bs_wfD [OF bs1(2)] by simp
  ultimately have "SCATC malloc bs c = Some (bs1\<lparr>bsdata := Some (put_bytes d (nat (eod bs1)) [c]), eod := eod bs1 + int (length [c])\<rparr>)"
    using d unfolding SCATC_def Let_def bs1(1) [symmetric] by simp
  then show thesis using p bs1(2,3) same_reader_trans [OF bs1(4) p(3)] by (intro that) simp_all
qed

subsection \<open>Recycling\<close>

text \<open>Recycling cuts a prefix of the text that the client is done with, and moves the position along.\<close>

lemma bytestream_recycle_cuts:
  fixes bs :: "'c bstream"
  assumes wf: "bs_wf bs" and n: "0 \<le> n" and pg: "0 < pgsz" and fr: "0 \<le> st" "st \<le> spos bs"
  obtains sh bs' where "bytestream_recycle pgsz bs n st = Some (sh, bs')" "0 \<le> sh" "sh \<le> st" "bs_wf bs'"
    "stext bs' = drop (nat sh) (stext bs)" "spos bs' = spos bs - sh" "eod bs' = eod bs - sh" "bssz bs' = bssz bs"
    "growsz bs' = growsz bs" "read_more bs' = read_more bs"
proof -
  note b = bs_wfD [OF wf]
  let ?f = "st - st smod pgsz"
  have sm: "st smod pgsz = st mod pgsz" using fr pg by (simp add: smod_mod_positive)
  have f: "0 \<le> ?f" "?f \<le> st" using fr pg zmod_le_nonneg_dividend [of st pgsz] unfolding sm by simp_all
  show thesis
  proof (cases "?f > growsz bs * n")
    case False
    then show thesis using pg f wf fr by (intro that [of 0 bs]) (simp_all add: bytestream_recycle_def Let_def)
  next
    case True
    then have pos: "0 < ?f" using b(6) n by (smt (verit) mult_nonneg_nonneg)
    have "sblock bs \<noteq> []" using pos f(2) fr b by auto
    then obtain d where d: "bsdata bs = Some d" "sblock bs = d" by (cases "bsdata bs") (auto simp: sblock_def)
    have fe: "nat ?f + nat (eod bs - ?f) = nat (eod bs)" using f fr b by linarith
    then have fd: "nat (eod bs - ?f) = nat (eod bs) - nat ?f" by linarith
    have len: "nat (eod bs - ?f) \<le> length d" "nat (eod bs) \<le> length d" using f b d(2) by (simp_all add: nat_le_iff)
    let ?d = "put_bytes d 0 (take (nat (eod bs - ?f)) (drop (nat ?f) d))"
    let ?bs = "bs\<lparr>bsdata := Some ?d, eod := eod bs - ?f, spos := spos bs - ?f\<rparr>"
    have m: "memcpy_to d 0 d (nat ?f) (nat (eod bs - ?f)) = Some ?d"
      using len fe by (simp add: memcpy_to_def)
    have "length (take (nat (eod bs - ?f)) (drop (nat ?f) d)) = nat (eod bs - ?f)" using len fe by simp
    then have "sblock ?bs = ?d" "length ?d = length d" "take (nat (eod bs - ?f)) ?d = take (nat (eod bs - ?f)) (drop (nat ?f) d)"
      using len by (simp_all add: sblock_def put_bytes_def)
    then have "bs_wf ?bs" "stext ?bs = drop (nat ?f) (stext bs)"
      using b f fr d fd by (simp_all add: bs_wf_def stext_def drop_take)
    moreover have "bytestream_recycle pgsz bs n st = Some (?f, ?bs)"
      using True pg f fr b m d by (simp add: bytestream_recycle_def Let_def)
    ultimately show thesis using that [of ?f ?bs] f by simp
  qed
qed

subsection \<open>Lines\<close>

text \<open>
  What a client of \<^verbatim>\<open>bytestream_consume_lines\<close> is promised: it is called with each line of the input
  that ends with a newline, in order, until it returns something else than zero. \<open>part\<close> is the
  beginning of the current line.
\<close>

fun text_lines :: "u8 list \<Rightarrow> u8 list \<Rightarrow> u8 list list" where
  "text_lines part [] = []"
| "text_lines part (x # xs) = (if x = 10 then part # text_lines [] xs else text_lines (part @ [x]) xs)"

fun until_nonzero :: "('a \<Rightarrow> 'l \<Rightarrow> int \<times> 'l) \<Rightarrow> 'a list \<Rightarrow> 'l \<Rightarrow> int \<times> 'l" where
  "until_nonzero k [] l = (0, l)"
| "until_nonzero k (x # xs) l = (case k x l of (r, l') \<Rightarrow> if r \<noteq> 0 then (r, l') else until_nonzero k xs l')"

text \<open>The same, byte by byte, with the unfinished line in the result.\<close>

fun feed_line :: "(u8 list \<Rightarrow> 'l \<Rightarrow> int \<times> 'l) \<Rightarrow> u8 list \<Rightarrow> u8 list \<Rightarrow> 'l \<Rightarrow> int \<times> u8 list \<times> 'l" where
  "feed_line k part [] l = (0, part, l)"
| "feed_line k part (x # xs) l =
     (if x = 10 then (case k part l of (r, l') \<Rightarrow> if r \<noteq> 0 then (r, part, l') else feed_line k [] xs l')
      else feed_line k (part @ [x]) xs l)"

lemma feed_line_append:
  "feed_line k part (xs @ ys) l =
     (case feed_line k part xs l of (r, p, l') \<Rightarrow> if r \<noteq> 0 then (r, p, l') else feed_line k p ys l')"
  by (induction k part xs l rule: feed_line.induct) (auto split: prod.splits)

lemma feed_line_until:
  "until_nonzero k (text_lines part xs) l = (case feed_line k part xs l of (r, p, l') \<Rightarrow> (r, l'))"
  by (induction k part xs l rule: feed_line.induct) (auto split: prod.splits)

text \<open>The bytes of a range of the stream, and the client that is given them.\<close>

definition range_text :: "'c bstream \<Rightarrow> byterange \<Rightarrow> u8 list" where
  "range_text bs r = take (nat (br_end r - br_start r)) (drop (nat (br_start r)) (stext bs))"

definition line_client :: "(u8 list \<Rightarrow> 'l \<Rightarrow> int \<times> 'l) \<Rightarrow> ('c, 's \<times> 'l) linecb" where
  "line_client k bs r w = (case k (range_text bs r) (snd w) of (x, l') \<Rightarrow> (x, (fst w, l')))"

text \<open>A source of input: what is left of it, given out in pieces of any size.\<close>

definition byte_source :: "(nat \<Rightarrow> u8 list \<Rightarrow> nat) \<Rightarrow> (u8 list \<times> 'l) sysread" where
  "byte_source piece fd n w =
     (Some (take (piece n (fst w)) (fst w)), (drop (piece n (fst w)) (fst w), snd w))"

definition piece_ok :: "(nat \<Rightarrow> u8 list \<Rightarrow> nat) \<Rightarrow> bool" where
  "piece_ok piece \<longleftrightarrow> (\<forall>n rest. 0 < n \<longrightarrow> 0 < piece n rest \<and> piece n rest \<le> n)"

lemma consume_data_reads:
  fixes bs :: "'c bstream" and w :: "u8 list \<times> 'l"
  assumes al: "total_allocator malloc" and wf: "bs_wf bs" and end0: "spos bs = eod bs" and g0: "0 < growsz bs"
    and rd: "read_more bs = Some rd" "env rd = bytestream_read_more (byte_source piece) malloc"
    and piece: "piece_ok piece" and small: "bssz bs < 2 ^ 62" "growsz bs < 2 ^ 61"
  obtains bs' where "bytestream_consume_data env bs fd w =
      Some (if fst w = [] then Rc (-1) else rc_ok, bs', (drop (piece (nat (growsz bs)) (fst w)) (fst w), snd w))"
    "bs_wf bs'" "stext bs' = stext bs @ take (piece (nat (growsz bs)) (fst w)) (fst w)" "same_reader bs bs'"
    "bssz bs' \<le> max (bssz bs) (eod bs + 2 * growsz bs)"
proof -
  note b = bs_wfD [OF wf]
  let ?g = "growsz bs" and ?w = "(drop (piece (nat (growsz bs)) (fst w)) (fst w), snd w)"
  let ?xs = "take (piece (nat ?g) (fst w)) (fst w)"
  have al': "allocator malloc" using al by (simp add: total_allocator_def)
  have xs: "int (length ?xs) \<le> ?g" "?xs = [] \<longleftrightarrow> fst w = []"
  proof -
    have "0 < piece (nat ?g) (fst w)" "piece (nat ?g) (fst w) \<le> nat ?g" using piece g0 by (simp_all add: piece_ok_def)
    then show "int (length ?xs) \<le> ?g" "?xs = [] \<longleftrightarrow> fst w = []" using g0 by simp_all
  qed
  obtain bs1 where bs1: "bs_wf bs1" "stext bs1 = stext bs" "eod bs1 = eod bs" "same_reader bs bs1"
      "bssz bs1 \<le> max (bssz bs) (eod bs + 2 * ?g)" "eod bs1 + ?g \<le> bssz bs1"
    and body: "read_body (byte_source piece) malloc bs fd ?g w = read_into (byte_source piece) bs1 fd ?g w"
  proof (cases "eod bs + ?g - bssz bs > 0")
    case True
    obtain bs1 where g: "bytestream_grow malloc bs (nat ?g) = (rc_ok, bs1)"
      using grow_total [OF al] by (metis prod.collapse)
    have "MNMAX (eod bs + ?g - bssz bs) ?g = ?g" using b by (simp add: MNMAX_eq_max)
    then have "read_body (byte_source piece) malloc bs fd ?g w = read_into (byte_source piece) bs1 fd ?g w"
      using True g by (simp add: read_body_def Let_def)
    moreover have "bssz bs + int (nat ?g) < 2 ^ 63" using small b by simp
    note k = grow_keeps [OF al' wf this g]
    ultimately show thesis using k True g0 b by (intro that [of bs1]) simp_all
  next
    case False
    then show thesis using wf by (intro that [of bs]) (simp_all add: read_body_def Let_def)
  qed
  have room: "eod bs1 + int (length ?xs) \<le> bssz bs1" using bs1(6) xs(1) by simp
  obtain d where d: "bsdata bs1 = Some d" by (rule has_block [OF bs1(1), of "nat ?g"]) (use bs1(6) g0 in simp_all)
  have m: "memcpy_to d (nat (eod bs1)) ?xs 0 (length ?xs) = Some (put_bytes d (nat (eod bs1)) ?xs)"
    by (rule memcpy_to_end [OF bs1(1) d room le_refl, unfolded take_all [OF le_refl]])
  let ?bs = "bs1\<lparr>bsdata := Some (put_bytes d (nat (eod bs1)) ?xs), eod := eod bs1 + int (length ?xs)\<rparr>"
  note p = put_at_end [OF bs1(1) d room le_refl refl]
  have into: "read_into (byte_source piece) bs1 fd ?g w = Some (int (length ?xs), ?bs, ?w)"
    using m d bs_wfD [OF bs1(1)] by (simp add: read_into_def byte_source_def del: length_take)
  have "bytestream_consume_data env bs fd w = Some (if fst w = [] then Rc (-1) else rc_ok, ?bs, ?w)"
    using rd end0 g0 body into xs(2) by (simp add: bytestream_consume_data_def bytestream_read_more_def Let_def del: length_take)
  then show thesis
    using p bs1(2,5) same_reader_trans [OF bs1(4) p(3)] by (intro that [of ?bs]) (simp_all del: length_take take_take)
qed

text \<open>One pass over the bytes that are there.\<close>

lemma scan_lines_feeds:
  fixes bs :: "'c bstream" and w :: "'s \<times> 'l"
  assumes "bs_wf bs" "spos bs + int n \<le> eod bs" "0 \<le> br_start line" "br_start line \<le> spos bs"
    and "feed_line k (take (nat (spos bs) - nat (br_start line)) (drop (nat (br_start line)) (stext bs)))
      (take n (drop (nat (spos bs)) (stext bs))) (snd w) = (r, p, l')"
  shows "\<exists>bs' line'. scan_lines (line_client k) n bs line w = Some (r \<noteq> 0, r, bs', line', (fst w, l'))
    \<and> (r = 0 \<longrightarrow> bs' = bs\<lparr>spos := spos bs + int n\<rparr> \<and> 0 \<le> br_start line' \<and> br_start line' \<le> spos bs'
         \<and> p = take (nat (spos bs') - nat (br_start line')) (drop (nat (br_start line')) (stext bs)))"
  using assms
proof (induction n arbitrary: bs line w)
  case 0
  then show ?case by (cases w) auto
next
  case (Suc n)
  note b = bs_wfD [OF Suc.prems(1)]
  let ?p = "nat (spos bs)" and ?s = "nat (br_start line)"
  let ?bs = "bs\<lparr>spos := spos bs + 1\<rparr>"
  have len: "?p < length (stext bs)" "length (stext bs) = nat (eod bs)"
    using Suc.prems(2) length_stext [OF Suc.prems(1)] b by linarith+
  have dp: "drop ?p (stext bs) = stext bs ! ?p # drop (Suc ?p) (stext bs)" using len by (simp add: Cons_nth_drop_Suc)
  have "sblock bs \<noteq> []" using len b by auto
  then obtain d where d: "bsdata bs = Some d" "sblock bs = d" by (cases "bsdata bs") (auto simp: sblock_def)
  have ch: "SPCHR bs = Some (stext bs ! ?p)"
    using len b d by (simp add: SPCHR_def SNCHR_def stext_def)
  have bs: "bs_wf ?bs" "stext ?bs = stext bs" "spos ?bs + int n \<le> eod ?bs" "nat (spos ?bs) = Suc ?p" "SADVANCEPOS bs 1 = ?bs"
    using Suc.prems(1,2) by (auto simp: bs_wf_def sblock_def stext_def SADVANCEPOS_def)
  show ?case
  proof (cases "stext bs ! ?p = 10")
    case nl: True
    let ?line = "line\<lparr>br_end := spos bs\<rparr>"
    let ?part = "take (?p - ?s) (drop ?s (stext bs))"
    have "nat (br_end ?line - br_start ?line) = ?p - ?s" using Suc.prems(3,4) by simp
    then have rt: "range_text bs ?line = ?part" by (simp add: range_text_def)
    obtain x l1 where k: "k ?part (snd w) = (x, l1)" by fastforce
    have cb: "line_client k bs ?line w = (x, fst w, l1)" by (simp add: line_client_def rt k)
    show ?thesis
    proof (cases "x = 0")
      case False
      then show ?thesis using Suc.prems(5) nl dp ch k cb by (simp add: Let_def)
    next
      case True
      let ?l = "?line\<lparr>br_start := spos ?bs\<rparr>"
      have "feed_line k (take (nat (spos ?bs) - nat (br_start ?l)) (drop (nat (br_start ?l)) (stext ?bs)))
        (take n (drop (nat (spos ?bs)) (stext ?bs))) (snd (fst w, l1)) = (r, p, l')"
        using Suc.prems(5) nl dp k True bs by simp
      from Suc.IH [OF bs(1,3) _ _ this] b(2) show ?thesis
        using nl ch cb True bs(2,4,5) by (simp add: Let_def add.commute add.left_commute)
    qed
  next
    case False
    have sp: "?s \<le> ?p" using Suc.prems(4) by (simp add: nat_mono)
    have "?p - ?s < length (drop ?s (stext bs))" using diff_less_mono [OF len(1) sp] by simp
    moreover have "drop ?s (stext bs) ! (?p - ?s) = stext bs ! ?p"
      using nth_drop [of ?s "stext bs" "?p - ?s"] sp less_imp_le [OF len(1)] by (metis le_add_diff_inverse le_trans)
    ultimately have "take (Suc ?p - ?s) (drop ?s (stext bs)) = take (?p - ?s) (drop ?s (stext bs)) @ [stext bs ! ?p]"
      using sp by (metis Suc_diff_le take_Suc_conv_app_nth)
    then have "feed_line k (take (nat (spos ?bs) - ?s) (drop ?s (stext ?bs)))
        (take n (drop (nat (spos ?bs)) (stext ?bs))) (snd w) = (r, p, l')"
      using Suc.prems(5) False dp bs(2,4) by simp
    from Suc.IH [OF bs(1,3) Suc.prems(3) _ this] Suc.prems(4) show ?thesis
      using False ch bs(2,4,5) by (simp add: add.commute add.left_commute)
  qed
qed

lemma stop_after_data:
  assumes "r \<noteq> rc_ok" "spos bs = eod bs" "bytestream_consume_data env bs fd w = Some (r, bs1, w1)"
  shows "consume_lines_loop env pgsz cb fd bs line w = Some (0, bs1, w1)"
  using assms by (simp add: consume_lines_loop.simps [of env pgsz cb fd bs line w] SNEEDMORE_def)

text \<open>
  The rest of an iteration, when there are bytes: the client is fed with them; then the loop goes on
  with a stream that has no unread bytes.
\<close>

lemma lines_iteration:
  fixes bs :: "'c bstream" and w :: "'s \<times> 'l"
  assumes wf: "bs_wf bs1" and g0: "0 < growsz bs1" and pg: "0 < pgsz"
    and line: "0 \<le> br_start line" "br_start line \<le> spos bs1"
    and start: "(if SNEEDMORE bs then bytestream_consume_data env bs fd w else Some (rc_ok, bs, w)) = Some (rc_ok, bs1, w1)"
    and f: "feed_line k (take (nat (spos bs1) - nat (br_start line)) (drop (nat (br_start line)) (stext bs1)))
      (unread bs1) (snd w1) = (r, p, l')"
  shows "r \<noteq> 0 \<Longrightarrow> \<exists>bs'. consume_lines_loop env pgsz (line_client k) fd bs line w = Some (r, bs', (fst w1, l'))"
    and "r = 0 \<Longrightarrow> \<exists>bs' line'. consume_lines_loop env pgsz (line_client k) fd bs line w
        = consume_lines_loop env pgsz (line_client k) fd bs' line' (fst w1, l')
      \<and> bs_wf bs' \<and> spos bs' = eod bs' \<and> 0 \<le> br_start line' \<and> br_start line' \<le> spos bs'
      \<and> p = drop (nat (br_start line')) (stext bs') \<and> growsz bs' = growsz bs1 \<and> read_more bs' = read_more bs1
      \<and> eod bs' \<le> eod bs1 \<and> bssz bs' = bssz bs1"
proof -
  note b = bs_wfD [OF wf]
  let ?n = "nat (SAVAIL bs1)"
  have n: "spos bs1 + int ?n = eod bs1" using b by (simp add: SAVAIL_def)
  have "take ?n (drop (nat (spos bs1)) (stext bs1)) = unread bs1"
    using length_stext [OF wf] n b(2,3) by (simp add: unread_def SAVAIL_def)
  from scan_lines_feeds [OF wf _ line, of ?n k "w1" r p l', unfolded this, OF _ f] n
  obtain bs2 line2 where scan: "scan_lines (line_client k) ?n bs1 line w1 = Some (r \<noteq> 0, r, bs2, line2, (fst w1, l'))"
    and z: "r = 0 \<Longrightarrow> bs2 = bs1\<lparr>spos := eod bs1\<rparr>" "r = 0 \<Longrightarrow> 0 \<le> br_start line2" "r = 0 \<Longrightarrow> br_start line2 \<le> spos bs2"
      "r = 0 \<Longrightarrow> p = take (nat (spos bs2) - nat (br_start line2)) (drop (nat (br_start line2)) (stext bs1))"
    by (metis order_refl)
  note step = consume_lines_loop.simps [of env pgsz "line_client k" fd bs line w]
  show "\<exists>bs'. consume_lines_loop env pgsz (line_client k) fd bs line w = Some (r, bs', (fst w1, l'))" if "r \<noteq> 0"
    using that step start scan by simp
  show "\<exists>bs' line'. consume_lines_loop env pgsz (line_client k) fd bs line w
        = consume_lines_loop env pgsz (line_client k) fd bs' line' (fst w1, l')
      \<and> bs_wf bs' \<and> spos bs' = eod bs' \<and> 0 \<le> br_start line' \<and> br_start line' \<le> spos bs'
      \<and> p = drop (nat (br_start line')) (stext bs') \<and> growsz bs' = growsz bs1 \<and> read_more bs' = read_more bs1
      \<and> eod bs' \<le> eod bs1 \<and> bssz bs' = bssz bs1" if r: "r = 0"
  proof -
    note z = z [OF r]
    let ?s = "br_start line2"
    have bs2: "bs_wf bs2" "stext bs2 = stext bs1" "spos bs2 = eod bs1" "eod bs2 = eod bs1" "growsz bs2 = growsz bs1"
      "read_more bs2 = read_more bs1" "bssz bs2 = bssz bs1"
      using wf z(1) by (simp_all add: bs_wf_def stext_def sblock_def)
    let ?rp = "?s - ?s smod growsz bs2"
    have rp: "0 \<le> ?rp" "?rp \<le> ?s"
      using z(2) g0 zmod_le_nonneg_dividend [of ?s "growsz bs1"] by (simp_all add: bs2 smod_mod_positive)
    obtain sh bs3 where rec: "bytestream_recycle pgsz bs2 2 ?rp = Some (sh, bs3)" and sh: "0 \<le> sh" "sh \<le> ?rp"
      and bs3: "bs_wf bs3" "stext bs3 = drop (nat sh) (stext bs2)" "spos bs3 = spos bs2 - sh" "eod bs3 = eod bs2 - sh"
        "bssz bs3 = bssz bs2" "growsz bs3 = growsz bs2" "read_more bs3 = read_more bs2"
      by (rule bytestream_recycle_cuts [OF bs2(1) _ pg rp(1), of 2]) (use rp(2) z(3) in simp_all)
    let ?line = "line2\<lparr>br_start := ?s - sh\<rparr>"
    have "consume_lines_loop env pgsz (line_client k) fd bs line w
        = consume_lines_loop env pgsz (line_client k) fd bs3 ?line (fst w1, l')"
      using r step start scan rec rp sh z(3) g0 bs2(5) by (simp add: Let_def)
    moreover have "p = drop (nat (br_start ?line)) (stext bs3)"
    proof -
      have "length (drop (nat ?s) (stext bs1)) \<le> nat (spos bs2) - nat ?s" using length_stext [OF wf] bs2(3) by simp
      then have "p = drop (nat ?s) (stext bs1)" using z(4) by simp
      moreover have "nat (br_start ?line) + nat sh = nat ?s" using sh rp by simp
      ultimately show ?thesis by (simp add: bs3(2) bs2(2))
    qed
    ultimately show ?thesis using bs3 bs2 sh rp z(3)
      by (intro exI [of _ bs3] exI [of _ ?line]) simp
  qed
qed

text \<open>From a stream without unread bytes on, the client is fed with what the source has.\<close>

lemma lines_from_source:
  fixes bs :: "'c bstream" and w :: "u8 list \<times> 'l"
  assumes al: "total_allocator malloc" and env: "env rd = bytestream_read_more (byte_source piece) malloc"
    and piece: "piece_ok piece" and pg: "0 < pgsz"
    and "bs_wf bs" "spos bs = eod bs" "0 < growsz bs" "read_more bs = Some rd" "bssz bs < 2 ^ 62"
      "eod bs + int (length (fst w)) + 2 * growsz bs < 2 ^ 62" "0 \<le> br_start line" "br_start line \<le> spos bs"
    and "feed_line k (drop (nat (br_start line)) (stext bs)) (fst w) (snd w) = (r, p, l')"
  shows "\<exists>bs' rest. consume_lines_loop env pgsz (line_client k) fd bs line w = Some (r, bs', (rest, l'))"
  using assms(5-)
proof (induction "length (fst w)" arbitrary: bs w line rule: less_induct)
  case less
  note wf = less.prems(1) and e = less.prems(2) and g0 = less.prems(3)
  note b = bs_wfD [OF wf]
  let ?n = "piece (nat (growsz bs)) (fst w)"
  let ?xs = "take ?n (fst w)" and ?rest = "drop ?n (fst w)"
  have small: "growsz bs < 2 ^ 61" using less.prems(6) b by simp
  obtain bs1 where cd: "bytestream_consume_data env bs fd w
        = Some (if fst w = [] then Rc (-1) else rc_ok, bs1, (?rest, snd w))"
    and bs1: "bs_wf bs1" "stext bs1 = stext bs @ ?xs" "same_reader bs bs1" "bssz bs1 \<le> max (bssz bs) (eod bs + 2 * growsz bs)"
    by (rule consume_data_reads [where env = env and rd = rd and fd = fd and w = w, OF al wf e g0 less.prems(4) env piece less.prems(5) small])
  show ?case
  proof (cases "fst w = []")
    case True
    then have "consume_lines_loop env pgsz (line_client k) fd bs line w = Some (0, bs1, (?rest, snd w))"
      using cd by (intro stop_after_data [OF _ e]) simp_all
    then show ?thesis using less.prems(9) True by auto
  next
    case False
    have n0: "0 < ?n" using piece g0 by (simp add: piece_ok_def)
    have s1: "spos bs1 = spos bs" "growsz bs1 = growsz bs" "read_more bs1 = Some rd"
      using bs1(3) less.prems(4) by (simp_all add: same_reader_def)
    have lb: "length (stext bs) = nat (spos bs)" using length_stext [OF wf] e by simp
    have sp: "nat (br_start line) \<le> nat (spos bs)" using less.prems(8) by (simp add: nat_mono)
    obtain r1 p1 l1 where f1: "feed_line k (drop (nat (br_start line)) (stext bs)) ?xs (snd w) = (r1, p1, l1)"
      by (metis prod_cases3)
    have "take (nat (spos bs1) - nat (br_start line)) (drop (nat (br_start line)) (stext bs1)) = drop (nat (br_start line)) (stext bs)"
      using lb sp by (simp add: bs1(2) s1)
    moreover have "unread bs1 = ?xs" using lb by (simp add: unread_def bs1(2) s1)
    ultimately have f: "feed_line k (take (nat (spos bs1) - nat (br_start line)) (drop (nat (br_start line)) (stext bs1)))
        (unread bs1) (snd (?rest, snd w)) = (r1, p1, l1)" using f1 by simp
    have start: "(if SNEEDMORE bs then bytestream_consume_data env bs fd w else Some (rc_ok, bs, w))
        = Some (rc_ok, bs1, (?rest, snd w))"
      using cd False e by (simp add: SNEEDMORE_def)
    have "0 < growsz bs1" "br_start line \<le> spos bs1" using g0 less.prems(8) s1 by simp_all
    note iter = lines_iteration [OF bs1(1) this(1) pg less.prems(7) this(2) start f, unfolded fst_conv]
    have fl: "feed_line k (drop (nat (br_start line)) (stext bs)) (fst w) (snd w)
      = (if r1 \<noteq> 0 then (r1, p1, l1) else feed_line k p1 ?rest l1)"
      using feed_line_append [of k _ ?xs ?rest "snd w"] f1 by simp
    show ?thesis
    proof (cases "r1 = 0")
      case False
      then show ?thesis using iter(1) fl less.prems(9) by auto
    next
      case True
      obtain bs2 line2 where eq: "consume_lines_loop env pgsz (line_client k) fd bs line w
          = consume_lines_loop env pgsz (line_client k) fd bs2 line2 (?rest, l1)"
        and bs2: "bs_wf bs2" "spos bs2 = eod bs2" "0 \<le> br_start line2" "br_start line2 \<le> spos bs2"
          "p1 = drop (nat (br_start line2)) (stext bs2)" "growsz bs2 = growsz bs1" "read_more bs2 = read_more bs1"
          "eod bs2 \<le> eod bs1" "bssz bs2 = bssz bs1"
        using iter(2) [OF True] by blast
      have e1: "eod bs1 = eod bs + int (length ?xs)"
        using length_stext [OF bs1(1)] length_stext [OF wf] by (simp add: bs1(2))
      have lsum: "int (length ?xs) + int (length ?rest) = int (length (fst w))"
        by (metis append_take_drop_id length_append of_nat_add)
      have "\<exists>bs' rest. consume_lines_loop env pgsz (line_client k) fd bs2 line2 (?rest, l1) = Some (r, bs', (rest, l'))"
      proof (rule less.hyps)
        show "length (fst (?rest, l1)) < length (fst w)" using n0 False by simp
        show "eod bs2 + int (length (fst (?rest, l1))) + 2 * growsz bs2 < 2 ^ 62"
          using bs2(6,8) s1 e1 lsum less.prems(6) by (simp del: length_take length_drop)
        show "bssz bs2 < 2 ^ 62" using bs2(9) bs1(4) less.prems(5,6) by simp
        show "feed_line k (drop (nat (br_start line2)) (stext bs2)) (fst (?rest, l1)) (snd (?rest, l1)) = (r, p, l')"
          using fl True less.prems(9) bs2(5) by simp
      qed (use bs2 s1 g0 in simp_all)
      then show ?thesis using eq by simp
    qed
  qed
qed

text \<open>
  C4: For a well-formed stream that reads with bytestream_read_more and whose growsz is positive,
  bytestream_consume_lines over a source of bytes returns, and has called the client exactly with the
  lines of the input that end with a newline, each once and in order: the bytes that were unread in the
  stream and those that the source gives out, in pieces of any size. Growing and recycling of the buffer
  between two reads do not show. It stops early, with the client's result, when the client returns
  something else than zero, and returns zero otherwise. A last line without a newline is not reported.
  Excluded are streams with growsz 0, such as those of bytestream_from_mem and bytestream_from_bytes, over which the code
  reports no line or divides by zero. Stream and input stay below \<^verbatim>\<open>2^62\<close> bytes, and there is memory.
\<close>
theorem bytestream_consume_lines_reports:
  fixes bs :: "'c bstream" and l :: 'l
  assumes al: "total_allocator malloc" and env: "env rd = bytestream_read_more (byte_source piece) malloc"
    and piece: "piece_ok piece" and pg: "0 < pgsz"
    and wf: "bs_wf bs" and g0: "0 < growsz bs" and rd: "read_more bs = Some rd"
    and small: "bssz bs < 2 ^ 62" "eod bs + int (length input) + 2 * growsz bs < 2 ^ 62"
  shows "\<exists>bs' rest. bytestream_consume_lines env pgsz (line_client k) fd bs (input, l)
    = Some (case until_nonzero k (text_lines [] (unread bs @ input)) l of (r, l') \<Rightarrow> (r, bs', (rest, l')))"
proof -
  note b = bs_wfD [OF wf]
  let ?line = "\<lparr>br_start = spos bs, br_end = 0\<rparr>"
  obtain r p l' where f: "feed_line k [] (unread bs @ input) l = (r, p, l')" by (metis prod_cases3)
  have u: "until_nonzero k (text_lines [] (unread bs @ input)) l = (r, l')" by (simp add: feed_line_until f)
  have "\<exists>bs' rest. consume_lines_loop env pgsz (line_client k) fd bs ?line (input, l) = Some (r, bs', (rest, l'))"
  proof (cases "spos bs = eod bs")
    case True
    then have "unread bs = []" "drop (nat (spos bs)) (stext bs) = []"
      using length_stext [OF wf] by (simp_all add: unread_def)
    then show ?thesis using f True wf g0 rd small b
      by (intro lines_from_source [where env = env and rd = rd, OF al env piece pg]) simp_all
  next
    case False
    obtain r1 p1 l1 where f1: "feed_line k [] (unread bs) l = (r1, p1, l1)" by (metis prod_cases3)
    have start: "(if SNEEDMORE bs then bytestream_consume_data env bs fd (input, l) else Some (rc_ok, bs, (input, l)))
        = Some (rc_ok, bs, (input, l))" using False b by (simp add: SNEEDMORE_def)
    have "feed_line k (take (nat (spos bs) - nat (br_start ?line)) (drop (nat (br_start ?line)) (stext bs)))
        (unread bs) (snd (input, l)) = (r1, p1, l1)" using f1 by simp
    note iter = lines_iteration [OF wf g0 pg _ _ start this, unfolded fst_conv]
    show ?thesis
    proof (cases "r1 = 0")
      case False
      then show ?thesis using iter(1) f f1 b by (auto simp: feed_line_append)
    next
      case True
      obtain bs2 line2 where eq: "consume_lines_loop env pgsz (line_client k) fd bs ?line (input, l)
          = consume_lines_loop env pgsz (line_client k) fd bs2 line2 (input, l1)"
        and bs2: "bs_wf bs2" "spos bs2 = eod bs2" "0 \<le> br_start line2" "br_start line2 \<le> spos bs2"
          "p1 = drop (nat (br_start line2)) (stext bs2)" "growsz bs2 = growsz bs" "read_more bs2 = read_more bs"
          "eod bs2 \<le> eod bs" "bssz bs2 = bssz bs"
        using iter(2) True b by auto
      have "feed_line k (drop (nat (br_start line2)) (stext bs2)) input l1 = (r, p, l')"
        using f f1 True bs2(5) by (simp add: feed_line_append)
      then show ?thesis unfolding eq using bs2 g0 rd small
        by (intro lines_from_source [where env = env and rd = rd, OF al env piece pg]) simp_all
    qed
  qed
  then show ?thesis by (simp add: bytestream_consume_lines_def u)
qed

theorem bytestream_consume_lines_reports_witness:
  "\<exists>bs' rest. bytestream_consume_lines (\<lambda>c::nat. bytestream_read_more (byte_source (\<lambda>n s. min n 1)) (std_alloc (\<lambda>_. 0))) 4096
      (line_client (\<lambda>s l. (0, l @ [s]))) 0 ((demo_stream [97] 2)\<lparr>read_more := Some 0\<rparr>) ([98, 10, 10, 99, 10, 100], [])
    = Some (0, bs', (rest, [[97, 98], [], [99]]))"
proof -
  let ?bs = "(demo_stream [97] 2)\<lparr>read_more := Some (0::nat)\<rparr>"
  have "bs_wf ?bs" using demo_stream_wf [of 2 "[97]"] by (simp add: bs_wf_def sblock_def)
  moreover have "unread ?bs = [97]" by (simp add: demo_stream_def unread_def stext_def sblock_def)
  ultimately show ?thesis
    using bytestream_consume_lines_reports [where env = "\<lambda>c::nat. bytestream_read_more (byte_source (\<lambda>n s. min n 1)) (std_alloc (\<lambda>_. 0))"
        and bs = ?bs and rd = 0 and pgsz = 4096 and piece = "\<lambda>n s. min n 1" and input = "[98, 10, 10, 99, 10, 100]"
        and l = "[]" and k = "\<lambda>s l. (0, l @ [s])" and fd = 0, OF std_total.total_allocator_axioms refl]
    by (simp add: piece_ok_def demo_stream_def)
qed

subsection \<open>Flaws\<close>

lemma bytestream_send_error_moves:
  assumes "spos bs + sz \<le> eod bs" "pending bs sz = Some xs" "sys fd xs w = (None, w')"
  shows "bytestream_send sys bs fd sz w = Some (-1, bs\<lparr>spos := spos bs - 1\<rparr>, w')"
    and "bytestream_write sys bs fd sz w = Some (-1, bs, w')"
  using assms by (simp_all add: bytestream_send_def bytestream_write_def)

lemma bytestream_cat_after_fini:
  "bytestream_cat malloc (bytestream_rewind (bytestream_fini (demo_stream [1, 2, 3] 8))) 2 [7, 8] = None"
  by (simp add: bytestream_cat_def bytestream_rewind_def bytestream_fini_def demo_stream_def grow_for_def)

lemma SCATC_no_memory: "SCATC no_alloc (demo_stream [1, 2, 3] 8) 7 = None"
  by (simp add: SCATC_def demo_stream_def bytestream_grow_def realloc_blk_def no_alloc_def peek_def poke_def)

lemma consume_lines_from_mem_nothing:
  fixes bs :: "nat bstream"
  shows "bytestream_consume_lines (\<lambda>c. bytestream_read_more_bytes) pgsz cb fd (bytestream_from_mem 0 bs [97, 10] 2) w
    = Some (0, bytestream_from_mem 0 bs [97, 10] 2, w)"
proof -
  let ?bs = "bytestream_from_mem 0 bs [97, 10] 2"
  have "bytestream_consume_data (\<lambda>c. bytestream_read_more_bytes) ?bs fd w = Some (Rc (-1), ?bs, w)"
    by (simp add: bytestream_consume_data_def bytestream_from_mem_def bytestream_init_def bytestream_read_more_bytes_def MNMIN_eq_min)
  moreover have "spos ?bs = eod ?bs" by (simp add: bytestream_from_mem_def bytestream_init_def)
  ultimately show ?thesis unfolding bytestream_consume_lines_def by (intro stop_after_data) simp_all
qed

end
