(* ===== verification/Mn_Json.thy ===== *)
theory Mn_Json
  imports Mn_Array Bytes_Text
begin

text \<open>
  The parser of \<^verbatim>\<open>src/src/json.c\<close>: a recursive descent over a text in memory that reports objects, arrays,
  keys and values to callbacks. A callback is a name \<open>'c\<close> with its \<^verbatim>\<open>udata\<close> \<open>'u\<close>; the argument \<open>run\<close>
  interprets the names, and a callback can change the context and the client's state \<open>'w\<close>. \<^verbatim>\<open>double\<close> is
  a type \<open>'f\<close> that \<^verbatim>\<open>strtod\<close>, an argument, reads from the text at an address; it is \<^const>\<open>None\<close> when it
  reads behind the end of the block, which is a fault. The states of the parser
  (the bits \<^verbatim>\<open>JPS_*\<close>, of which one is set at a time) are constructors.
\<close>

subsection \<open>State\<close>

datatype json_type = JSON_UNDEF | JSON_OBJECT | JSON_ARRAY | JSON_STRING | JSON_INT | JSON_FLOAT
  | JSON_BOOLEAN | JSON_NULL

datatype jps = JPS_START | JPS_OSTART | JPS_OSTOP | JPS_ASTART | JPS_ASTOP
  | JPS_KEYIN | JPS_KEYESC | JPS_KEY | JPS_KEYOUT
  | JPS_STRIN | JPS_STRESC | JPS_STR | JPS_STROUT | JPS_NUMIN | JPS_NUM | JPS_NUMOUT
  | JPS_TOKIN | JPS_TOK | JPS_TOKOUT | JPS_ENEXT | JPS_EVALUE

definition JPS_OUT :: "jps \<Rightarrow> bool" where
  "JPS_OUT s \<longleftrightarrow> s \<in> {JPS_STROUT, JPS_NUMOUT, JPS_TOKOUT, JPS_OSTOP, JPS_ASTOP}"

text \<open>The union of values: its first word holds what was stored last; \<open>vend\<close> is the second word.\<close>

datatype 'f vword = VInt int | VFloat 'f | VStart nat | VBool bool

record ('c, 'u, 'f, 'o) jctx =
  jin :: "u8 list"
  jsz :: nat
  jst :: jps
  jneedunescape :: bool
  jfloat :: bool
  jscientific :: bool
  jty :: json_type
  vword :: "'f vword"
  vend :: nat
  jidx :: nat
  nest :: int
  jcb :: "'c option"
  judata :: 'u
  ostart_cb :: "'c option"
  ostart_udata :: 'u
  ostop_cb :: "'c option"
  ostop_udata :: 'u
  astart_cb :: "'c option"
  astart_udata :: 'u
  astop_cb :: "'c option"
  astop_udata :: 'u
  key_cb :: "'c option"
  key_udata :: 'u
  value_cb :: "'c option"
  value_udata :: 'u
  item_cb :: "'c option"
  item_udata :: 'u
  stack :: "('o, unit) mnarray"
  current_key :: "mnbytes option"

text \<open>The address of a string value, and what lies there.\<close>

definition vstart :: "('c, 'u, 'f, 'o) jctx \<Rightarrow> nat option" where
  "vstart ctx = (case vword ctx of VStart i \<Rightarrow> Some i | _ \<Rightarrow> None)"

text \<open>The bytes of the input from an index on, as a pointer into it gives them.\<close>

definition text_at :: "('c, 'u, 'f, 'o) jctx \<Rightarrow> nat \<Rightarrow> u8 list option" where
  "text_at ctx i = (if i \<le> length (jin ctx) then Some (drop i (jin ctx)) else None)"

definition JSN_ISDIGIT :: "u8 \<Rightarrow> bool" where
  "JSN_ISDIGIT c \<longleftrightarrow> 48 \<le> c \<and> c \<le> 57"

definition JSN_ISALPHA :: "u8 \<Rightarrow> bool" where
  "JSN_ISALPHA c \<longleftrightarrow> 97 \<le> c \<and> c \<le> 122 \<or> 65 \<le> c \<and> c \<le> 90"

definition JSN_ISSPACE :: "u8 \<Rightarrow> bool" where
  "JSN_ISSPACE c \<longleftrightarrow> c = 32 \<or> c = 9 \<or> c = 10"

definition JSON_PARSE_NEEDMORE :: rc where
  "JSON_PARSE_NEEDMORE = Rc (-2)"

subsection \<open>Contexts\<close>

definition json_init ::
  "'o alloc \<Rightarrow> ('c, 'u, 'f, 'o) jctx \<Rightarrow> 'c option \<Rightarrow> 'u \<Rightarrow> ('c, 'u, 'f, 'o) jctx option" where
  "json_init malloc ctx cb u =
     do { (r, st, _) \<leftarrow> array_init 8 0 None None malloc ();
          _ \<leftarrow> guard (r = rc_ok);
          st1 \<leftarrow> array_ensure_datasz_dirty st 8 False malloc;
          Some (ctx\<lparr>jin := [], jsz := 0, jcb := cb, judata := u,
            ostart_cb := cb, ostart_udata := u, ostop_cb := cb, ostop_udata := u,
            astart_cb := cb, astart_udata := u, astop_cb := cb, astop_udata := u,
            key_cb := cb, key_udata := u, value_cb := cb, value_udata := u, item_cb := cb, item_udata := u,
            jst := JPS_START, jneedunescape := False, jfloat := False, jscientific := False,
            jidx := 0, nest := -1, stack := st1, current_key := None\<rparr>) }"

definition json_reset :: "('c, 'u, 'f, 'o) jctx \<Rightarrow> ('c, 'u, 'f, 'o) jctx option" where
  "json_reset ctx =
     do { (r, st, _) \<leftarrow> array_clear (stack ctx) ();
          _ \<leftarrow> guard (r = rc_ok);
          Some (ctx\<lparr>current_key := None, stack := st, jin := [], jsz := 0, jst := JPS_START,
            jneedunescape := False, jfloat := False, jscientific := False, jidx := 0, nest := -1\<rparr>) }"

definition json_set_ostart_cb :: "('c, 'u, 'f, 'o) jctx \<Rightarrow> 'c option \<Rightarrow> 'u \<Rightarrow> ('c, 'u, 'f, 'o) jctx" where
  "json_set_ostart_cb ctx cb u = ctx\<lparr>ostart_cb := cb, ostart_udata := u\<rparr>"

definition json_set_ostop_cb :: "('c, 'u, 'f, 'o) jctx \<Rightarrow> 'c option \<Rightarrow> 'u \<Rightarrow> ('c, 'u, 'f, 'o) jctx" where
  "json_set_ostop_cb ctx cb u = ctx\<lparr>ostop_cb := cb, ostop_udata := u\<rparr>"

definition json_set_astart_cb :: "('c, 'u, 'f, 'o) jctx \<Rightarrow> 'c option \<Rightarrow> 'u \<Rightarrow> ('c, 'u, 'f, 'o) jctx" where
  "json_set_astart_cb ctx cb u = ctx\<lparr>astart_cb := cb, astart_udata := u\<rparr>"

definition json_set_astop_cb :: "('c, 'u, 'f, 'o) jctx \<Rightarrow> 'c option \<Rightarrow> 'u \<Rightarrow> ('c, 'u, 'f, 'o) jctx" where
  "json_set_astop_cb ctx cb u = ctx\<lparr>astop_cb := cb, astop_udata := u\<rparr>"

definition json_set_key_cb :: "('c, 'u, 'f, 'o) jctx \<Rightarrow> 'c option \<Rightarrow> 'u \<Rightarrow> ('c, 'u, 'f, 'o) jctx" where
  "json_set_key_cb ctx cb u = ctx\<lparr>key_cb := cb, key_udata := u\<rparr>"

definition json_set_value_cb :: "('c, 'u, 'f, 'o) jctx \<Rightarrow> 'c option \<Rightarrow> 'u \<Rightarrow> ('c, 'u, 'f, 'o) jctx" where
  "json_set_value_cb ctx cb u = ctx\<lparr>value_cb := cb, value_udata := u\<rparr>"

definition json_set_item_cb :: "('c, 'u, 'f, 'o) jctx \<Rightarrow> 'c option \<Rightarrow> 'u \<Rightarrow> ('c, 'u, 'f, 'o) jctx" where
  "json_set_item_cb ctx cb u = ctx\<lparr>item_cb := cb, item_udata := u\<rparr>"

definition json_ctx_push :: "'o alloc \<Rightarrow> ('c, 'u, 'f, 'o) jctx \<Rightarrow> 'o \<Rightarrow> ('c, 'u, 'f, 'o) jctx option" where
  "json_ctx_push malloc ctx x =
     do { (p, st, _) \<leftarrow> array_incr (stack ctx) malloc ();
          i \<leftarrow> p;
          d \<leftarrow> data st;
          d1 \<leftarrow> poke d i x;
          Some (ctx\<lparr>stack := st\<lparr>data := Some d1\<rparr>\<rparr>) }"

text \<open>The outer option is a fault, the inner one is \<^verbatim>\<open>NULL\<close>.\<close>

definition json_ctx_top :: "('c, 'u, 'f, 'o) jctx \<Rightarrow> 'o option option" where
  "json_ctx_top ctx =
     (if elnum (stack ctx) = 0 then Some None
      else do { i \<leftarrow> array_get (stack ctx) (elnum (stack ctx) - 1);
                d \<leftarrow> data (stack ctx);
                map_option Some (peek d i) })"

definition json_ctx_pop :: "('c, 'u, 'f, 'o) jctx \<Rightarrow> ('o option \<times> ('c, 'u, 'f, 'o) jctx) option" where
  "json_ctx_pop ctx =
     (if elnum (stack ctx) = 0 then Some (None, ctx)
      else do { i \<leftarrow> array_get (stack ctx) (elnum (stack ctx) - 1);
                (_, st, _) \<leftarrow> array_decr_fast (stack ctx) ();
                d \<leftarrow> data st;
                x \<leftarrow> peek d i;
                Some (Some x, ctx\<lparr>stack := st\<rparr>) })"

definition json_ctx_consistent :: "('c, 'u, 'f, 'o) jctx \<Rightarrow> nat" where
  "json_ctx_consistent ctx =
     (if jidx ctx \<noteq> jsz ctx then 1 else 0) + (if \<not> JPS_OUT (jst ctx) then 2 else 0)
     + (if nest ctx \<ge> 0 then 4 else 0) + (if elnum (stack ctx) > 0 then 8 else 0)"

definition json_ctx_bytes_from_value :: "u8 alloc \<Rightarrow> ('c, 'u, 'f, 'o) jctx \<Rightarrow> mnbytes option" where
  "json_ctx_bytes_from_value malloc ctx =
     do { i \<leftarrow> vstart ctx;
          s \<leftarrow> text_at ctx i;
          bytes_new_from_str_len malloc s (nat ((int (vend ctx) - int i) mod 2 ^ 64)) }"

definition json_ctx_notice_key :: "u8 alloc \<Rightarrow> ('c, 'u, 'f, 'o) jctx \<Rightarrow> ('c, 'u, 'f, 'o) jctx option" where
  "json_ctx_notice_key malloc ctx =
     do { i \<leftarrow> vstart ctx;
          s \<leftarrow> text_at ctx i;
          b \<leftarrow> bytes_new_from_str_len malloc s (nat ((int (vend ctx) - int i) mod 2 ^ 64));
          Some (ctx\<lparr>current_key := Some b\<rparr>) }"

definition json_ctx_strtod :: "(u8 list \<Rightarrow> 'f option) \<Rightarrow> ('c, 'u, 'f, 'o) jctx \<Rightarrow> 'f option" where
  "json_ctx_strtod strtod ctx = do { i \<leftarrow> vstart ctx; s \<leftarrow> text_at ctx i; strtod s }"

definition json_ctx_strtoimax :: "(u8 list \<Rightarrow> int \<Rightarrow> int option) \<Rightarrow> ('c, 'u, 'f, 'o) jctx \<Rightarrow> int \<Rightarrow> int option" where
  "json_ctx_strtoimax strtoimax ctx base =
     do { i \<leftarrow> vstart ctx; s \<leftarrow> text_at ctx i; strtoimax s base }"

definition json_fini :: "('c, 'u, 'f, 'o) jctx \<Rightarrow> 'u \<Rightarrow> ('c, 'u, 'f, 'o) jctx option" where
  "json_fini ctx null =
     do { (_, st, _) \<leftarrow> array_fini (stack ctx) ();
          Some (ctx\<lparr>current_key := None, stack := st, jcb := None, judata := null, jin := [], jsz := 0\<rparr>) }"

subsection \<open>Strings, numbers, tokens\<close>

text \<open>
  The loops of the scanners run up to the end of the input; \<open>n\<close> is the number of bytes that are left.
  The result tells whether the state was one that the scanner does not know.
\<close>

fun str_loop :: "nat \<Rightarrow> ('c, 'u, 'f, 'o) jctx \<Rightarrow> (bool \<times> ('c, 'u, 'f, 'o) jctx) option" where
  "str_loop 0 ctx = Some (False, ctx)"
| "str_loop (Suc n) ctx =
     do { ch \<leftarrow> peek (jin ctx) (jidx ctx);
          if jst ctx = JPS_STRIN then
            (if ch = 92 then str_loop n (ctx\<lparr>jst := JPS_STRESC, jneedunescape := True, jidx := jidx ctx + 1\<rparr>)
             else if ch = 34 then Some (False, ctx\<lparr>jst := JPS_STROUT\<rparr>)
             else str_loop n (ctx\<lparr>jst := JPS_STR, jidx := jidx ctx + 1\<rparr>))
          else if jst ctx = JPS_STRESC then str_loop n (ctx\<lparr>jst := JPS_STR, jidx := jidx ctx + 1\<rparr>)
          else if jst ctx = JPS_STR then
            (if ch = 92 then str_loop n (ctx\<lparr>jst := JPS_STRESC, jidx := jidx ctx + 1\<rparr>)
             else if ch = 34 then Some (False, ctx\<lparr>jst := JPS_STROUT\<rparr>)
             else str_loop n (ctx\<lparr>jst := JPS_STR, jidx := jidx ctx + 1\<rparr>))
          else Some (True, ctx) }"

definition json_parse_str :: "('c, 'u, 'f, 'o) jctx \<Rightarrow> (rc \<times> ('c, 'u, 'f, 'o) jctx) option" where
  "json_parse_str ctx =
     do { (bad, ctx1) \<leftarrow> str_loop (jsz ctx - jidx ctx) (ctx\<lparr>jneedunescape := False\<rparr>);
          Some (if bad then (Diag ''JSON_PARSE_STR'' 1, ctx1)
                else if jst ctx1 = JPS_STROUT then (rc_ok, ctx1\<lparr>jty := JSON_STRING\<rparr>)
                else (JSON_PARSE_NEEDMORE, ctx1)) }"

fun num_loop :: "nat \<Rightarrow> ('c, 'u, 'f, 'o) jctx \<Rightarrow> (bool \<times> ('c, 'u, 'f, 'o) jctx) option" where
  "num_loop 0 ctx = Some (False, ctx)"
| "num_loop (Suc n) ctx =
     do { ch \<leftarrow> peek (jin ctx) (jidx ctx);
          if jst ctx = JPS_NUMIN then
            (if JSN_ISDIGIT ch \<or> ch = 45 then num_loop n (ctx\<lparr>jst := JPS_NUM, jidx := jidx ctx + 1\<rparr>)
             else if ch = 46 then num_loop n (ctx\<lparr>jst := JPS_NUM, jfloat := True, jidx := jidx ctx + 1\<rparr>)
             else Some (False, ctx\<lparr>jst := JPS_NUMOUT\<rparr>))
          else if jst ctx = JPS_NUM then
            (if JSN_ISDIGIT ch then num_loop n (ctx\<lparr>jst := JPS_NUM, jidx := jidx ctx + 1\<rparr>)
             else if ch = 46 then num_loop n (ctx\<lparr>jst := JPS_NUM, jfloat := True, jidx := jidx ctx + 1\<rparr>)
             else if ch = 101 \<or> ch = 69 \<or> ch = 45 then
               num_loop n (ctx\<lparr>jst := JPS_NUM, jscientific := True, jidx := jidx ctx + 1\<rparr>)
             else Some (False, ctx\<lparr>jst := JPS_NUMOUT\<rparr>))
          else Some (True, ctx) }"

text \<open>\<^verbatim>\<open>--ctx->idx\<close> on a \<^verbatim>\<open>size_t\<close>.\<close>

definition step_back :: "('c, 'u, 'f, 'o) jctx \<Rightarrow> ('c, 'u, 'f, 'o) jctx" where
  "step_back ctx = ctx\<lparr>jidx := SZ (jidx ctx + 2 ^ 64 - 1)\<rparr>"

definition json_parse_num :: "('c, 'u, 'f, 'o) jctx \<Rightarrow> (rc \<times> ('c, 'u, 'f, 'o) jctx) option" where
  "json_parse_num ctx =
     do { (bad, ctx1) \<leftarrow> num_loop (jsz ctx - jidx ctx) (ctx\<lparr>jfloat := False, jscientific := False\<rparr>);
          Some (if bad then (Diag ''JSON_PARSE_NUM'' 1, ctx1)
                else if jst ctx1 = JPS_NUMOUT then
                  (rc_ok, (step_back ctx1)\<lparr>jty := (if jfloat ctx1 \<or> jscientific ctx1 then JSON_FLOAT else JSON_INT)\<rparr>)
                else (JSON_PARSE_NEEDMORE, ctx1)) }"

definition tok_char :: "u8 \<Rightarrow> bool" where
  "tok_char ch \<longleftrightarrow> JSN_ISALPHA ch \<or> JSN_ISDIGIT ch \<or> ch = 46"

fun tok_loop :: "nat \<Rightarrow> ('c, 'u, 'f, 'o) jctx \<Rightarrow> (bool \<times> ('c, 'u, 'f, 'o) jctx) option" where
  "tok_loop 0 ctx = Some (False, ctx)"
| "tok_loop (Suc n) ctx =
     do { ch \<leftarrow> peek (jin ctx) (jidx ctx);
          if jst ctx = JPS_TOKIN \<or> jst ctx = JPS_TOK then
            (if tok_char ch then tok_loop n (ctx\<lparr>jst := JPS_TOK, jidx := jidx ctx + 1\<rparr>)
             else Some (False, ctx\<lparr>jst := JPS_TOKOUT\<rparr>))
          else Some (True, ctx) }"

definition json_parse_tok :: "('c, 'u, 'f, 'o) jctx \<Rightarrow> (rc \<times> ('c, 'u, 'f, 'o) jctx) option" where
  "json_parse_tok ctx =
     do { (bad, ctx1) \<leftarrow> tok_loop (jsz ctx - jidx ctx) ctx;
          Some (if bad then (Diag ''JSON_PARSE_TOK'' 1, ctx1)
                else if jst ctx1 = JPS_TOKOUT then (rc_ok, (step_back ctx1)\<lparr>jty := JSON_NULL\<rparr>)
                else (JSON_PARSE_NEEDMORE, ctx1)) }"

text \<open>
  \<^verbatim>\<open>strtol\<close> of the C library, in base 10: blanks, a sign, digits; the result is clamped to \<^verbatim>\<open>long\<close>. It stops
  at the first byte that is no digit; when the block ends before, it reads behind the end.
\<close>

definition c_isspace :: "u8 \<Rightarrow> bool" where
  "c_isspace c \<longleftrightarrow> c = 32 \<or> 9 \<le> c \<and> c \<le> 13"

definition digits_val :: "u8 list \<Rightarrow> int" where
  "digits_val ds = fold (\<lambda>d v. v * 10 + (uint d - 48)) ds 0"

definition clamp_long :: "int \<Rightarrow> int" where
  "clamp_long v = max (- (2 ^ 63)) (min (2 ^ 63 - 1) v)"

definition long_digits :: "u8 list \<Rightarrow> u8 list" where
  "long_digits s =
     (let t = dropWhile c_isspace s in if t \<noteq> [] \<and> (hd t = 45 \<or> hd t = 43) then tl t else t)"

definition long_value :: "u8 list \<Rightarrow> int" where
  "long_value s =
     (let t = dropWhile c_isspace s;
          v = digits_val (takeWhile JSN_ISDIGIT (long_digits s))
      in clamp_long (if t \<noteq> [] \<and> hd t = 45 then - v else v))"

definition strtol10 :: "u8 list \<Rightarrow> int option" where
  "strtol10 s = (if dropWhile JSN_ISDIGIT (long_digits s) = [] then None else Some (long_value s))"

subsection \<open>Calls\<close>

type_synonym ('c, 'u, 'f, 'o, 'w) jrun =
  "'c \<Rightarrow> ('c, 'u, 'f, 'o) jctx \<Rightarrow> 'u \<Rightarrow> 'w \<Rightarrow> int \<times> ('c, 'u, 'f, 'o) jctx \<times> 'w"

text \<open>A callback that can be \<^verbatim>\<open>NULL\<close>.\<close>

definition jcall ::
  "('c, 'u, 'f, 'o, 'w) jrun \<Rightarrow> 'c option \<Rightarrow> 'u \<Rightarrow> ('c, 'u, 'f, 'o) jctx \<Rightarrow> 'w \<Rightarrow> int \<times> ('c, 'u, 'f, 'o) jctx \<times> 'w" where
  "jcall run cb u ctx w = (case cb of None \<Rightarrow> (0, ctx, w) | Some c \<Rightarrow> run c ctx u w)"

text \<open>
  What one byte makes a loop of the parser do: return, leave the loop, go on with the next byte, or parse
  a nested object or array first.
\<close>

datatype jmode = Obj | Arr

datatype 'x action = Return rc 'x | Leave 'x | Next 'x | Nested jmode 'x

text \<open>A callback for a scalar, one level down; \<open>fail\<close> gives the code for its result.\<close>

definition report_scalar ::
  "('c, 'u, 'f, 'o, 'w) jrun \<Rightarrow> (int \<Rightarrow> rc) \<Rightarrow> 'c option \<Rightarrow> 'u \<Rightarrow> ('c, 'u, 'f, 'o) jctx \<Rightarrow> 'w
     \<Rightarrow> (('c, 'u, 'f, 'o) jctx \<times> 'w) action" where
  "report_scalar run fail cb u ctx w =
     (case jcall run cb u (ctx\<lparr>nest := nest ctx + 1\<rparr>) w of
        (res, ctx1, w1) \<Rightarrow>
          if res \<noteq> 0 then Return (fail res) (ctx1, w1) else Next (ctx1\<lparr>nest := nest ctx1 - 1\<rparr>, w1))"

text \<open>The end of an object or of an array.\<close>

definition report_stop ::
  "('c, 'u, 'f, 'o, 'w) jrun \<Rightarrow> (int \<Rightarrow> rc) \<Rightarrow> 'c option \<Rightarrow> 'u \<Rightarrow> ('c, 'u, 'f, 'o) jctx \<Rightarrow> 'w
     \<Rightarrow> (('c, 'u, 'f, 'o) jctx \<times> 'w) action" where
  "report_stop run fail cb u ctx w =
     (case jcall run cb u ctx w of
        (res, ctx1, w1) \<Rightarrow>
          if res \<noteq> 0 then Return (fail res) (ctx1, w1) else Leave (ctx1\<lparr>nest := nest ctx1 - 1\<rparr>, w1))"

text \<open>
  The start of a nested object or array: its own callback, then the one for values or items, which \<open>sel\<close>
  reads from the context; then the parse of what is inside.
\<close>

definition report_start ::
  "('c, 'u, 'f, 'o, 'w) jrun \<Rightarrow> jmode \<Rightarrow> (int \<Rightarrow> rc) \<Rightarrow> (int \<Rightarrow> rc)
     \<Rightarrow> (('c, 'u, 'f, 'o) jctx \<Rightarrow> 'c option \<times> 'u) \<Rightarrow> ('c, 'u, 'f, 'o) jctx \<Rightarrow> 'w
     \<Rightarrow> (('c, 'u, 'f, 'o) jctx \<times> 'w) action" where
  "report_start run m fail1 fail2 sel ctx w =
     (let ctx0 = ctx\<lparr>jst := (if m = Obj then JPS_OSTART else JPS_ASTART),
             jty := (if m = Obj then JSON_OBJECT else JSON_ARRAY), nest := nest ctx + 1\<rparr>
      in case jcall run (if m = Obj then ostart_cb ctx0 else astart_cb ctx0)
                (if m = Obj then ostart_udata ctx0 else astart_udata ctx0) ctx0 w of
           (res, ctx1, w1) \<Rightarrow>
             if res \<noteq> 0 then Return (fail1 res) (ctx1, w1)
             else
               (case jcall run (fst (sel ctx1)) (snd (sel ctx1)) ctx1 w1 of
                  (res, ctx2, w2) \<Rightarrow>
                    if res \<noteq> 0 then Return (fail2 res) (ctx2, w2)
                    else Nested m (ctx2\<lparr>jidx := jidx ctx2 + 1\<rparr>, w2)))"

subsection \<open>Values\<close>

text \<open>
  The parts that the branches of \<^verbatim>\<open>json_parse_obj\<close> and \<^verbatim>\<open>json_parse_array\<close> have in common: a string, a
  number and a token at the current byte.
\<close>

definition scan_str :: "('c, 'u, 'f, 'o) jctx \<Rightarrow> (rc \<times> ('c, 'u, 'f, 'o) jctx) option" where
  "scan_str ctx = json_parse_str (ctx\<lparr>jst := JPS_STRIN, jidx := jidx ctx + 1, vword := VStart (jidx ctx + 1)\<rparr>)"

definition scan_num ::
  "(u8 list \<Rightarrow> 'f option) \<Rightarrow> rc \<Rightarrow> ('c, 'u, 'f, 'o) jctx \<Rightarrow> (rc \<times> ('c, 'u, 'f, 'o) jctx) option" where
  "scan_num strtod bad ctx =
     do { (r, ctx1) \<leftarrow> json_parse_num (ctx\<lparr>jst := JPS_NUMIN\<rparr>);
          if r \<noteq> rc_ok then Some (r, ctx1)
          else if jty ctx1 = JSON_INT then
            do { s \<leftarrow> text_at ctx1 (jidx ctx); v \<leftarrow> strtol10 s; Some (rc_ok, ctx1\<lparr>vword := VInt v\<rparr>) }
          else if jty ctx1 = JSON_FLOAT then
            do { s \<leftarrow> text_at ctx1 (jidx ctx); x \<leftarrow> strtod s; Some (rc_ok, ctx1\<lparr>vword := VFloat x\<rparr>) }
          else Some (bad, ctx1) }"

definition lit_true :: "u8 list" where "lit_true = [116, 114, 117, 101]"

definition lit_false :: "u8 list" where "lit_false = [102, 97, 108, 115, 101]"

definition lit_null :: "u8 list" where "lit_null = [110, 117, 108, 108]"

definition scan_tok :: "('c, 'u, 'f, 'o) jctx \<Rightarrow> (rc \<times> ('c, 'u, 'f, 'o) jctx) option" where
  "scan_tok ctx =
     do { (r, ctx1) \<leftarrow> json_parse_tok (ctx\<lparr>jst := JPS_TOKIN\<rparr>);
          if r \<noteq> rc_ok then Some (r, ctx1)
          else
            do { s \<leftarrow> text_at ctx1 (jidx ctx);
                 let toklen = SZ (jidx ctx1 + 2 ^ 64 - jidx ctx + 1);
                 let is = (\<lambda>lit. toklen = length lit \<and> take (length lit) s = lit);
                 Some (rc_ok,
                   if is lit_true then ctx1\<lparr>jty := JSON_BOOLEAN, vword := VBool True\<rparr>
                   else if is lit_false then ctx1\<lparr>jty := JSON_BOOLEAN, vword := VBool False\<rparr>
                   else if is lit_null then ctx1\<lparr>jty := JSON_NULL\<rparr>
                   else ctx1) } }"

subsection \<open>Objects\<close>

abbreviation OBJ_FAIL :: "nat \<Rightarrow> rc" where
  "OBJ_FAIL n \<equiv> Diag ''JSON_PARSE_OBJ'' n"

definition obj_key ::
  "('c, 'u, 'f, 'o, 'w) jrun \<Rightarrow> ('c, 'u, 'f, 'o) jctx \<Rightarrow> 'w \<Rightarrow> (('c, 'u, 'f, 'o) jctx \<times> 'w) action option" where
  "obj_key run ctx w =
     do { (r, ctx1) \<leftarrow> scan_str ctx;
          Some (if r \<noteq> rc_ok then Return r (ctx1, w)
                else report_scalar run Rc (key_cb ctx1) (key_udata ctx1)
                       (ctx1\<lparr>jst := JPS_KEYOUT, vend := jidx ctx1\<rparr>) w) }"

definition obj_stop ::
  "('c, 'u, 'f, 'o, 'w) jrun \<Rightarrow> ('c, 'u, 'f, 'o) jctx \<Rightarrow> 'w \<Rightarrow> (('c, 'u, 'f, 'o) jctx \<times> 'w) action" where
  "obj_stop run ctx w =
     report_stop run Rc (ostop_cb ctx) (ostop_udata ctx) (ctx\<lparr>jst := JPS_OSTOP, jty := JSON_OBJECT\<rparr>) w"

definition obj_value ::
  "('c, 'u, 'f, 'o, 'w) jrun \<Rightarrow> (u8 list \<Rightarrow> 'f option) \<Rightarrow> u8 \<Rightarrow> ('c, 'u, 'f, 'o) jctx \<Rightarrow> 'w
     \<Rightarrow> (('c, 'u, 'f, 'o) jctx \<times> 'w) action option" where
  "obj_value run strtod ch ctx w =
     (let report = (\<lambda>ctx1. report_scalar run Rc (value_cb ctx1) (value_udata ctx1) ctx1 w);
          sel = (\<lambda>c. (value_cb c, value_udata c))
      in if ch = 123 then Some (report_start run Obj Rc Rc sel ctx w)
         else if ch = 91 then Some (report_start run Arr Rc Rc sel ctx w)
         else if ch = 34 then
           do { (r, ctx1) \<leftarrow> scan_str ctx;
                Some (if r \<noteq> rc_ok then Return r (ctx1, w) else report (ctx1\<lparr>vend := jidx ctx1\<rparr>)) }
         else if JSN_ISDIGIT ch \<or> ch = 45 then
           do { (r, ctx1) \<leftarrow> scan_num strtod (OBJ_FAIL 3) ctx;
                Some (if r \<noteq> rc_ok then Return r (ctx1, w) else report ctx1) }
         else if JSN_ISALPHA ch then
           do { (r, ctx1) \<leftarrow> scan_tok ctx;
                Some (if r \<noteq> rc_ok then Return r (ctx1, w) else report ctx1) }
         else if JSN_ISSPACE ch then Some (Next (ctx, w))
         else Some (Return (OBJ_FAIL 4) (ctx, w)))"

definition obj_step ::
  "('c, 'u, 'f, 'o, 'w) jrun \<Rightarrow> (u8 list \<Rightarrow> 'f option) \<Rightarrow> u8 \<Rightarrow> ('c, 'u, 'f, 'o) jctx \<Rightarrow> 'w
     \<Rightarrow> (('c, 'u, 'f, 'o) jctx \<times> 'w) action option" where
  "obj_step run strtod ch ctx w =
     (let blank = (\<lambda>n. Some (if JSN_ISSPACE ch then Next (ctx, w) else Return (OBJ_FAIL n) (ctx, w)))
      in if jst ctx = JPS_OSTART then
           (if ch = 125 then Some (obj_stop run ctx w)
            else if ch = 34 then obj_key run ctx w
            else blank 1)
         else if jst ctx = JPS_KEYOUT then
           (if ch = 58 then Some (Next (ctx\<lparr>jst := JPS_EVALUE\<rparr>, w)) else blank 2)
         else if jst ctx = JPS_EVALUE then obj_value run strtod ch ctx w
         else if JPS_OUT (jst ctx) then
           (if ch = 44 then Some (Next (ctx\<lparr>jst := JPS_ENEXT\<rparr>, w))
            else if ch = 125 then Some (obj_stop run ctx w)
            else blank 5)
         else if jst ctx = JPS_ENEXT then
           (if ch = 34 then obj_key run ctx w else blank 6)
         else Some (Return (OBJ_FAIL 7) (ctx, w)))"

subsection \<open>Arrays\<close>

text \<open>An array replaces the results of its callbacks and of nested arrays by codes of its own.\<close>

abbreviation ARR_FAIL :: "nat \<Rightarrow> rc" where
  "ARR_FAIL n \<equiv> Diag ''JSON_PARSE_ARRAY'' n"

definition arr_stop ::
  "('c, 'u, 'f, 'o, 'w) jrun \<Rightarrow> nat \<Rightarrow> ('c, 'u, 'f, 'o) jctx \<Rightarrow> 'w \<Rightarrow> (('c, 'u, 'f, 'o) jctx \<times> 'w) action" where
  "arr_stop run n ctx w =
     report_stop run (\<lambda>_. ARR_FAIL n) (astop_cb ctx) (astop_udata ctx) (ctx\<lparr>jst := JPS_ASTOP, jty := JSON_ARRAY\<rparr>) w"

definition arr_item ::
  "('c, 'u, 'f, 'o, 'w) jrun \<Rightarrow> (u8 list \<Rightarrow> 'f option) \<Rightarrow> u8 \<Rightarrow> ('c, 'u, 'f, 'o) jctx \<Rightarrow> 'w
     \<Rightarrow> (('c, 'u, 'f, 'o) jctx \<times> 'w) action option" where
  "arr_item run strtod ch ctx w =
     (let report = (\<lambda>n ctx1. report_scalar run (\<lambda>_. ARR_FAIL n) (item_cb ctx1) (item_udata ctx1) ctx1 w);
          sel = (\<lambda>c. (item_cb c, item_udata c))
      in if ch = 93 then Some (arr_stop run 1 ctx w)
         else if ch = 91 then Some (report_start run Arr (\<lambda>_. ARR_FAIL 2) (\<lambda>_. ARR_FAIL 3) sel ctx w)
         else if ch = 123 then Some (report_start run Obj (\<lambda>_. ARR_FAIL 5) (\<lambda>_. ARR_FAIL 6) sel ctx w)
         else if ch = 34 then
           do { (r, ctx1) \<leftarrow> scan_str ctx;
                Some (if r \<noteq> rc_ok then Return r (ctx1, w) else report 7 (ctx1\<lparr>vend := jidx ctx1\<rparr>)) }
         else if JSN_ISDIGIT ch \<or> ch = 45 then
           do { (r, ctx1) \<leftarrow> scan_num strtod (ARR_FAIL 8) ctx;
                Some (if r \<noteq> rc_ok then Return r (ctx1, w) else report 9 ctx1) }
         else if JSN_ISALPHA ch then
           do { (r, ctx1) \<leftarrow> scan_tok ctx;
                Some (if r \<noteq> rc_ok then Return r (ctx1, w) else report 10 ctx1) }
         else if JSN_ISSPACE ch then Some (Next (ctx, w))
         else Some (Return (ARR_FAIL 11) (ctx, w)))"

definition arr_step ::
  "('c, 'u, 'f, 'o, 'w) jrun \<Rightarrow> (u8 list \<Rightarrow> 'f option) \<Rightarrow> u8 \<Rightarrow> ('c, 'u, 'f, 'o) jctx \<Rightarrow> 'w
     \<Rightarrow> (('c, 'u, 'f, 'o) jctx \<times> 'w) action option" where
  "arr_step run strtod ch ctx w =
     (if jst ctx = JPS_ASTART \<or> jst ctx = JPS_ENEXT then arr_item run strtod ch ctx w
      else if JPS_OUT (jst ctx) then
        (if ch = 44 then Some (Next (ctx\<lparr>jst := JPS_ENEXT\<rparr>, w))
         else if ch = 93 then Some (arr_stop run 12 ctx w)
         else if JSN_ISSPACE ch then Some (Next (ctx, w))
         else Some (Return (ARR_FAIL 13) (ctx, w)))
      else Some (Return (ARR_FAIL 14) (ctx, w)))"

subsection \<open>The loops\<close>

text \<open>
  The result of a nested parse that fails: an array that is parsed inside of an array hides it.
\<close>

definition nested_fail :: "jmode \<Rightarrow> jmode \<Rightarrow> rc \<Rightarrow> rc" where
  "nested_fail outer inner r = (if outer = Arr \<and> inner = Arr then ARR_FAIL 4 else r)"

definition next_idx :: "('c, 'u, 'f, 'o) jctx \<Rightarrow> ('c, 'u, 'f, 'o) jctx" where
  "next_idx ctx = ctx\<lparr>jidx := jidx ctx + 1\<rparr>"

partial_function (option) parse_loop ::
  "('c, 'u, 'f, 'o, 'w) jrun \<Rightarrow> (u8 list \<Rightarrow> 'f option) \<Rightarrow> jmode \<Rightarrow> ('c, 'u, 'f, 'o) jctx \<Rightarrow> 'w
     \<Rightarrow> (rc \<times> ('c, 'u, 'f, 'o) jctx \<times> 'w) option" where
  "parse_loop run strtod m ctx w =
     (if jidx ctx < jsz ctx then
        do { ch \<leftarrow> peek (jin ctx) (jidx ctx);
             if ch = 0 then Some (rc_ok, ctx, w)
             else
               do { act \<leftarrow> (if m = Obj then obj_step run strtod ch ctx w else arr_step run strtod ch ctx w);
                    case act of
                      Return r (ctx1, w1) \<Rightarrow> Some (r, ctx1, w1)
                    | Leave (ctx1, w1) \<Rightarrow> Some (rc_ok, ctx1, w1)
                    | Next (ctx1, w1) \<Rightarrow> parse_loop run strtod m (next_idx ctx1) w1
                    | Nested m' (ctx1, w1) \<Rightarrow>
                        do { (r, ctx2, w2) \<leftarrow> parse_loop run strtod m' ctx1 w1;
                             if r \<noteq> rc_ok then Some (nested_fail m m' r, ctx2, w2)
                             else parse_loop run strtod m (next_idx ctx2) w2 } } }
      else Some (rc_ok, ctx, w))"

definition json_parse_obj ::
  "('c, 'u, 'f, 'o, 'w) jrun \<Rightarrow> (u8 list \<Rightarrow> 'f option) \<Rightarrow> ('c, 'u, 'f, 'o) jctx \<Rightarrow> 'w
     \<Rightarrow> (rc \<times> ('c, 'u, 'f, 'o) jctx \<times> 'w) option" where
  "json_parse_obj run strtod ctx w = parse_loop run strtod Obj ctx w"

definition json_parse_array ::
  "('c, 'u, 'f, 'o, 'w) jrun \<Rightarrow> (u8 list \<Rightarrow> 'f option) \<Rightarrow> ('c, 'u, 'f, 'o) jctx \<Rightarrow> 'w
     \<Rightarrow> (rc \<times> ('c, 'u, 'f, 'o) jctx \<times> 'w) option" where
  "json_parse_array run strtod ctx w = parse_loop run strtod Arr ctx w"

text \<open>The top level looks for the first brace or bracket and passes over everything else.\<close>

partial_function (option) json_parse_loop ::
  "('c, 'u, 'f, 'o, 'w) jrun \<Rightarrow> (u8 list \<Rightarrow> 'f option) \<Rightarrow> u8 list \<Rightarrow> nat \<Rightarrow> ('c, 'u, 'f, 'o) jctx \<Rightarrow> 'w
     \<Rightarrow> (rc \<times> ('c, 'u, 'f, 'o) jctx \<times> 'w) option" where
  "json_parse_loop run strtod inp sz ctx w =
     (if jidx ctx < sz then
        do { ch \<leftarrow> peek inp (jidx ctx);
             if ch = 0 then Some (rc_ok, ctx, w)
             else
               (case (if jst ctx = JPS_START \<and> ch = 123 then
                        report_start run Obj Rc Rc (\<lambda>c. (value_cb c, item_udata c)) ctx w
                      else if jst ctx = JPS_START \<and> ch = 91 then
                        report_start run Arr Rc Rc (\<lambda>c. (item_cb c, item_udata c)) ctx w
                      else Next (ctx, w)) of
                  Return r (ctx1, w1) \<Rightarrow> Some (r, ctx1, w1)
                | Leave (ctx1, w1) \<Rightarrow> Some (rc_ok, ctx1, w1)
                | Next (ctx1, w1) \<Rightarrow> json_parse_loop run strtod inp sz (next_idx ctx1) w1
                | Nested m (ctx1, w1) \<Rightarrow>
                    do { (r, ctx2, w2) \<leftarrow>
                           (if m = Obj then json_parse_obj run strtod ctx1 w1 else json_parse_array run strtod ctx1 w1);
                         if r \<noteq> rc_ok then Some (r, ctx2, w2)
                         else json_parse_loop run strtod inp sz (next_idx ctx2) w2 }) }
      else Some (rc_ok, ctx, w))"

definition json_parse ::
  "('c, 'u, 'f, 'o, 'w) jrun \<Rightarrow> (u8 list \<Rightarrow> 'f option) \<Rightarrow> ('c, 'u, 'f, 'o) jctx \<Rightarrow> u8 list \<Rightarrow> nat \<Rightarrow> 'w
     \<Rightarrow> (rc \<times> ('c, 'u, 'f, 'o) jctx \<times> 'w) option" where
  "json_parse run strtod ctx inp sz w = json_parse_loop run strtod inp sz (ctx\<lparr>jin := inp, jsz := sz\<rparr>) w"

end
