(* ===== verification/Json_Safe.thy ===== *)
theory Json_Safe
  imports Mn_Json
begin

text \<open>
  What holds of the parser of \<^verbatim>\<open>Mn_Json\<close> on every input, well-formed or not: it returns, it reads only inside
  of the input, and whenever it calls a callback, the union of the context holds a value of the type that
  the tag says.
\<close>

subsection \<open>What a callback may do, and what it is promised\<close>

definition same_input :: "('c, 'u, 'f, 'o) jctx \<Rightarrow> ('c, 'u, 'f, 'o) jctx \<Rightarrow> bool" where
  "same_input ctx ctx' \<longleftrightarrow> jin ctx' = jin ctx \<and> jsz ctx' = jsz ctx"

definition union_typed :: "('c, 'u, 'f, 'o) jctx \<Rightarrow> bool" where
  "union_typed ctx =
     (case jty ctx of
        JSON_STRING \<Rightarrow> (\<exists>i. vword ctx = VStart i \<and> i \<le> vend ctx \<and> vend ctx < jsz ctx)
      | JSON_INT \<Rightarrow> (\<exists>i. vword ctx = VInt i)
      | JSON_FLOAT \<Rightarrow> (\<exists>x. vword ctx = VFloat x)
      | JSON_BOOLEAN \<Rightarrow> (\<exists>b. vword ctx = VBool b)
      | _ \<Rightarrow> True)"

text \<open>
  The contract of a client: its callbacks leave the input and the position alone; called with a well-typed
  union, they leave one, and keep \<open>Q\<close>, a property of the client's own state.
\<close>

definition client_ok :: "('c, 'u, 'f, 'o, 'w) jrun \<Rightarrow> ('w \<Rightarrow> bool) \<Rightarrow> bool" where
  "client_ok run Q \<longleftrightarrow>
     (\<forall>c ctx u w r ctx' w'. run c ctx u w = (r, ctx', w') \<longrightarrow>
        same_input ctx ctx' \<and> jidx ctx' = jidx ctx \<and> (union_typed ctx \<longrightarrow> Q w \<longrightarrow> union_typed ctx' \<and> Q w'))"

lemma same_input_refl [simp]: "same_input ctx ctx"
  by (simp add: same_input_def)

lemma same_input_trans: "same_input a b \<Longrightarrow> same_input b c \<Longrightarrow> same_input a c"
  by (simp add: same_input_def)

text \<open>Progress: the input is the same and the position is not before \<open>i\<close>.\<close>

definition ahead :: "('c, 'u, 'f, 'o) jctx \<Rightarrow> nat \<Rightarrow> ('c, 'u, 'f, 'o) jctx \<Rightarrow> bool" where
  "ahead ctx i ctx' \<longleftrightarrow> same_input ctx ctx' \<and> i \<le> jidx ctx'"

lemma ahead_mono: "ahead ctx i ctx' \<Longrightarrow> j \<le> i \<Longrightarrow> ahead ctx j ctx'"
  by (simp add: ahead_def)

lemma jcall_ahead:
  assumes "client_ok run Q" "jcall run cb u ctx w = (r, ctx', w')"
  shows "same_input ctx ctx'" "jidx ctx' = jidx ctx" "union_typed ctx \<Longrightarrow> Q w \<Longrightarrow> union_typed ctx' \<and> Q w'"
    "cb = None \<Longrightarrow> ctx' = ctx \<and> w' = w"
  using assms unfolding jcall_def client_ok_def by (auto split: option.splits)

subsection \<open>The scanners\<close>

text \<open>
  A scanner returns, at or behind the byte where it started; when it has seen its end, in state \<open>out\<close>, the
  position is still inside of the input.
\<close>

definition scanned :: "jps \<Rightarrow> ('c, 'u, 'f, 'o) jctx \<Rightarrow> nat \<Rightarrow> (bool \<times> ('c, 'u, 'f, 'o) jctx) option \<Rightarrow> bool" where
  "scanned out ctx n res \<longleftrightarrow>
     (\<exists>b ctx'. res = Some (b, ctx') \<and> ahead ctx (jidx ctx) ctx' \<and> jidx ctx' \<le> jidx ctx + n
        \<and> vword ctx' = vword ctx \<and> (jst ctx' = out \<longrightarrow> jst ctx \<noteq> out \<longrightarrow> jidx ctx' < jidx ctx + n))"

lemma scanned_step:
  assumes "scanned out c n res" "jin c = jin ctx" "jsz c = jsz ctx" "jidx c = Suc (jidx ctx)" "vword c = vword ctx"
    "jst c \<noteq> out"
  shows "scanned out ctx (Suc n) res"
  using assms by (auto simp: scanned_def ahead_def same_input_def)

lemma scanned_here:
  "same_input ctx c \<Longrightarrow> jidx c = jidx ctx \<Longrightarrow> vword c = vword ctx \<Longrightarrow> scanned out ctx (Suc n) (Some (b, c))"
  by (auto simp: scanned_def ahead_def)

lemma scanned_zero: "scanned out ctx 0 (Some (b, ctx))"
  by (auto simp: scanned_def ahead_def)

lemma str_loop_scanned: "jidx ctx + n \<le> length (jin ctx) \<Longrightarrow> scanned JPS_STROUT ctx n (str_loop n ctx)"
proof (induction n arbitrary: ctx)
  case (Suc n)
  show ?case using Suc.prems by (auto simp: same_input_def intro!: scanned_here scanned_step [OF Suc.IH])
qed (simp add: scanned_zero)

lemma num_loop_scanned: "jidx ctx + n \<le> length (jin ctx) \<Longrightarrow> scanned JPS_NUMOUT ctx n (num_loop n ctx)"
proof (induction n arbitrary: ctx)
  case (Suc n)
  show ?case using Suc.prems by (auto simp: same_input_def intro!: scanned_here scanned_step [OF Suc.IH])
qed (simp add: scanned_zero)

lemma tok_loop_scanned: "jidx ctx + n \<le> length (jin ctx) \<Longrightarrow> scanned JPS_TOKOUT ctx n (tok_loop n ctx)"
proof (induction n arbitrary: ctx)
  case (Suc n)
  show ?case using Suc.prems by (auto simp: same_input_def intro!: scanned_here scanned_step [OF Suc.IH])
qed (simp add: scanned_zero)

text \<open>
  What the scanners of \<^verbatim>\<open>json.c\<close> leave behind: on success a position inside of the input, behind \<open>i\<close> or at
  it, and the first word of the union as \<open>v\<close> says.
\<close>

definition scan_result ::
  "('c, 'u, 'f, 'o) jctx \<Rightarrow> nat \<Rightarrow> (('c, 'u, 'f, 'o) jctx \<Rightarrow> bool) \<Rightarrow> (rc \<times> ('c, 'u, 'f, 'o) jctx) option \<Rightarrow> bool" where
  "scan_result ctx i typed res \<longleftrightarrow>
     (\<exists>r ctx'. res = Some (r, ctx') \<and> ahead ctx i ctx' \<and> (r = rc_ok \<longrightarrow> jidx ctx' < jsz ctx' \<and> typed ctx'))"

lemma scan_str_result:
  assumes "jidx ctx < jsz ctx" "jsz ctx \<le> length (jin ctx)"
  shows "scan_result ctx (jidx ctx + 1) (\<lambda>c. jty c = JSON_STRING \<and> vword c = VStart (jidx ctx + 1)) (scan_str ctx)"
proof -
  let ?c = "ctx\<lparr>jst := JPS_STRIN, jidx := jidx ctx + 1, vword := VStart (jidx ctx + 1), jneedunescape := False\<rparr>"
  let ?n = "jsz ctx - (jidx ctx + 1)"
  have "scanned JPS_STROUT ?c ?n (str_loop ?n ?c)" using assms by (intro str_loop_scanned) simp
  then show ?thesis using assms
    by (auto simp: scan_str_def json_parse_str_def scanned_def scan_result_def ahead_def same_input_def JSON_PARSE_NEEDMORE_def)
qed

lemma num_loop_first:
  assumes "jst ctx = JPS_NUMIN" "jidx ctx < length (jin ctx)" "JSN_ISDIGIT (jin ctx ! jidx ctx) \<or> jin ctx ! jidx ctx = 45"
  shows "num_loop (Suc n) ctx = num_loop n (ctx\<lparr>jst := JPS_NUM, jidx := jidx ctx + 1\<rparr>)"
  using assms by simp

lemma step_back_idx:
  assumes "0 < jidx c" "jidx c < 2 ^ 64"
  shows "jidx (step_back c) = jidx c - 1"
proof -
  have "jidx c + 2 ^ 64 - 1 = (jidx c - 1) + 2 ^ 64" using assms(1) by simp
  then have "SZ (jidx c + 2 ^ 64 - 1) = jidx c - 1" using assms(2) unfolding SZ_def by (simp only: mod_add_self2) simp
  then show ?thesis by (simp add: step_back_def)
qed

definition num_char :: "u8 \<Rightarrow> bool" where
  "num_char c \<longleftrightarrow> JSN_ISDIGIT c \<or> c = 46 \<or> c = 101 \<or> c = 69 \<or> c = 45"

lemma digit_no_space: "JSN_ISDIGIT x \<Longrightarrow> \<not> c_isspace x \<and> x \<noteq> 45 \<and> x \<noteq> 43"
proof -
  assume "JSN_ISDIGIT x"
  then have "48 \<le> uint x" by (simp add: JSN_ISDIGIT_def word_le_def)
  then show ?thesis by (auto simp: c_isspace_def word_le_def)
qed

text \<open>\<^verbatim>\<open>strtol\<close> does not read behind the byte that ends the digits.\<close>

lemma strtol10_stops:
  assumes "JSN_ISDIGIT x \<or> x = 45" "\<forall>d \<in> set xs. JSN_ISDIGIT d" "\<not> JSN_ISDIGIT c"
  shows "strtol10 (x # xs @ c # rest) = Some (long_value (x # xs))"
proof -
  have sp: "\<not> c_isspace x" using assms(1) digit_no_space by (auto simp: c_isspace_def)
  have tw: "takeWhile JSN_ISDIGIT (xs @ c # rest) = xs" "takeWhile JSN_ISDIGIT xs = xs"
    "dropWhile JSN_ISDIGIT (xs @ c # rest) = c # rest"
    using assms(2,3) by (simp_all add: takeWhile_eq_all_conv dropWhile_append2)
  have "\<not> JSN_ISDIGIT 45" by (simp add: JSN_ISDIGIT_def)
  then show ?thesis using assms(1) sp digit_no_space [of x]
    by (cases "JSN_ISDIGIT x") (simp_all add: strtol10_def long_value_def long_digits_def tw)
qed

text \<open>
  What \<^verbatim>\<open>strtod\<close> gets is a digit or a minus and then bytes of a number, one of them no digit, up to a byte
  that is none of a number. It reads on behind that byte only when it is the plus of an exponent: then it
  reads the digits of the exponent and the byte behind them.
\<close>

definition float_text :: "u8 list \<Rightarrow> bool" where
  "float_text t \<longleftrightarrow> t \<noteq> [] \<and> (JSN_ISDIGIT (hd t) \<or> hd t = 45) \<and> (\<forall>d \<in> set (tl t). num_char d)
     \<and> (\<exists>d \<in> set (tl t). \<not> JSN_ISDIGIT d)"

definition exponent_sign :: "u8 list \<Rightarrow> u8 \<Rightarrow> bool" where
  "exponent_sign t c \<longleftrightarrow> c = 43 \<and> (last t = 101 \<or> last t = 69)"

definition strtod_within :: "(u8 list \<Rightarrow> 'f option) \<Rightarrow> bool" where
  "strtod_within sd \<longleftrightarrow>
     (\<forall>t c r. float_text t \<longrightarrow> \<not> num_char c \<longrightarrow> \<not> exponent_sign t c \<longrightarrow> sd (t @ c # r) \<noteq> None) \<and>
     (\<forall>t ds d r. float_text t \<longrightarrow> (\<forall>x \<in> set ds. JSN_ISDIGIT x) \<longrightarrow> \<not> JSN_ISDIGIT d
        \<longrightarrow> sd (t @ 43 # ds @ d # r) \<noteq> None)"

text \<open>A text that ends inside of such an exponent.\<close>

definition open_exponent :: "u8 list \<Rightarrow> bool" where
  "open_exponent s =
     (case dropWhile JSN_ISDIGIT (rev s) of c # e # _ \<Rightarrow> c = 43 \<and> (e = 101 \<or> e = 69) | _ \<Rightarrow> False)"

lemma open_exponentI:
  assumes "e = 101 \<or> e = 69" "\<forall>x \<in> set ds. JSN_ISDIGIT x"
  shows "open_exponent (p @ e # 43 # ds)"
proof -
  have "\<not> JSN_ISDIGIT 43" by (simp add: JSN_ISDIGIT_def)
  moreover have "dropWhile JSN_ISDIGIT (rev ds @ 43 # e # rev p) = dropWhile JSN_ISDIGIT (43 # e # rev p)"
    using assms(2) by (intro dropWhile_append2) simp
  ultimately show ?thesis using assms(1) by (auto simp: open_exponent_def)
qed

lemma strtod_in_text:
  assumes sd: "strtod_within sd" and ft: "float_text t" and c: "\<not> num_char c" and ex: "\<not> open_exponent (p @ t @ c # r)"
  shows "sd (t @ c # r @ rest) \<noteq> None"
proof (cases "exponent_sign t c")
  case False
  then show ?thesis using sd ft c unfolding strtod_within_def by blast
next
  case True
  have "t \<noteq> []" using ft by (simp add: float_text_def)
  then have t: "t = butlast t @ [last t]" "last t = 101 \<or> last t = 69" "c = 43" using True by (simp_all add: exponent_sign_def)
  have "dropWhile JSN_ISDIGIT r \<noteq> []"
  proof
    assume "dropWhile JSN_ISDIGIT r = []"
    then have "\<forall>x \<in> set r. JSN_ISDIGIT x" by (simp add: dropWhile_eq_Nil_conv)
    from open_exponentI [OF t(2) this, of "p @ butlast t"] ex t(3) show False by (metis append.assoc append_Cons append_Nil t(1))
  qed
  then obtain d u where d: "dropWhile JSN_ISDIGIT r = d # u" by (cases "dropWhile JSN_ISDIGIT r") auto
  then have "\<not> JSN_ISDIGIT d" using hd_dropWhile [of JSN_ISDIGIT r] by simp
  moreover have "r = takeWhile JSN_ISDIGIT r @ d # u" using d by (metis takeWhile_dropWhile_id)
  moreover have "\<forall>x \<in> set (takeWhile JSN_ISDIGIT r). JSN_ISDIGIT x" by (auto dest: set_takeWhileD)
  ultimately show ?thesis using sd ft t(3) unfolding strtod_within_def by (metis append.assoc append_Cons)
qed

text \<open>The bytes that the loop over a number passes, and the byte where it stops.\<close>

lemma num_loop_stops:
  assumes "jst ctx = JPS_NUM" "jidx ctx + n \<le> length (jin ctx)" "num_loop n ctx = Some (b, c1)" "jst c1 = JPS_NUMOUT"
  shows "\<exists>t c r. take n (drop (jidx ctx) (jin ctx)) = t @ c # r \<and> (\<forall>d \<in> set t. num_char d) \<and> \<not> num_char c
    \<and> (jfloat c1 \<or> jscientific c1 \<longleftrightarrow> jfloat ctx \<or> jscientific ctx \<or> (\<exists>d \<in> set t. \<not> JSN_ISDIGIT d))"
  using assms
proof (induction n arbitrary: ctx)
  case (Suc n)
  let ?ch = "jin ctx ! jidx ctx"
  have i: "jidx ctx < length (jin ctx)" using Suc.prems(2) by simp
  have tk: "take (Suc n) (drop (jidx ctx) (jin ctx)) = ?ch # take n (drop (Suc (jidx ctx)) (jin ctx))"
    using i by (simp add: Cons_nth_drop_Suc [symmetric])
  have on: ?case if "num_loop n c = Some (b, c1)" "jst c = JPS_NUM" "jin c = jin ctx" "jidx c = Suc (jidx ctx)"
    "num_char ?ch" "jfloat c \<or> jscientific c \<longleftrightarrow> jfloat ctx \<or> jscientific ctx \<or> \<not> JSN_ISDIGIT ?ch" for c
  proof -
    note c = that
    obtain t e r where "take n (drop (jidx c) (jin c)) = t @ e # r" "\<forall>d \<in> set t. num_char d" "\<not> num_char e"
        "jfloat c1 \<or> jscientific c1 \<longleftrightarrow> jfloat c \<or> jscientific c \<or> (\<exists>d \<in> set t. \<not> JSN_ISDIGIT d)"
      using Suc.IH [of c] Suc.prems(2,4) c(1-4) by auto
    then show ?thesis using c(3-6) unfolding tk by (intro exI [of _ "?ch # t"] exI [of _ e] exI [of _ r]) auto
  qed
  have nd: "\<not> JSN_ISDIGIT 46" "\<not> JSN_ISDIGIT 101" "\<not> JSN_ISDIGIT 69" "\<not> JSN_ISDIGIT 45" by (simp_all add: JSN_ISDIGIT_def)
  consider "JSN_ISDIGIT ?ch" | "?ch = 46" | "?ch = 101 \<or> ?ch = 69 \<or> ?ch = 45" | "\<not> num_char ?ch"
    by (auto simp: num_char_def)
  then show ?case
  proof cases
    case 1
    then show ?thesis using Suc.prems(1,3) i
      by (intro on [of "ctx\<lparr>jst := JPS_NUM, jidx := jidx ctx + 1\<rparr>"]) (auto simp: num_char_def)
  next
    case 2
    then show ?thesis using Suc.prems(1,3) i nd
      by (intro on [of "ctx\<lparr>jst := JPS_NUM, jfloat := True, jidx := jidx ctx + 1\<rparr>"]) (auto simp: num_char_def)
  next
    case 3
    then show ?thesis using Suc.prems(1,3) i nd
      by (intro on [of "ctx\<lparr>jst := JPS_NUM, jscientific := True, jidx := jidx ctx + 1\<rparr>"]) (auto simp: num_char_def)
  next
    case 4
    then have "c1 = ctx\<lparr>jst := JPS_NUMOUT\<rparr>" using Suc.prems(1,3) i by (auto simp: num_char_def)
    then show ?thesis using 4 unfolding tk by (intro exI [of _ "[]"]) simp
  qed
qed simp

text \<open>
  What the conversion of a number needs in order to read nothing behind the input: the law of \<^verbatim>\<open>strtod\<close>, and
  an input that does not end inside of an exponent with a plus.
\<close>

definition readable :: "(u8 list \<Rightarrow> 'f option) \<Rightarrow> ('c, 'u, 'f, 'o) jctx \<Rightarrow> bool" where
  "readable strtod ctx \<longleftrightarrow> jsz ctx < 2 ^ 64 \<and> strtod_within strtod \<and> \<not> open_exponent (take (jsz ctx) (jin ctx))"

lemma scan_num_result:
  assumes i: "jidx ctx < jsz ctx" "jsz ctx \<le> length (jin ctx)" "readable strtod ctx"
    and ch: "JSN_ISDIGIT (jin ctx ! jidx ctx) \<or> jin ctx ! jidx ctx = 45" and bad: "bad \<noteq> rc_ok"
  shows "scan_result ctx (jidx ctx) (\<lambda>c. jty c = JSON_INT \<and> (\<exists>v. vword c = VInt v) \<or> jty c = JSON_FLOAT \<and> (\<exists>x. vword c = VFloat x))
    (scan_num strtod bad ctx)"
proof -
  let ?x = "jin ctx ! jidx ctx"
  let ?start = "ctx\<lparr>jst := JPS_NUMIN, jfloat := False, jscientific := False\<rparr>"
  let ?c = "?start\<lparr>jst := JPS_NUM, jidx := jidx ctx + 1\<rparr>"
  have sz: "jsz ctx < 2 ^ 64" using i(3) by (simp add: readable_def)
  obtain n where n: "jsz ctx = Suc (jidx ctx + n)" using less_imp_Suc_add [OF i(1)] by blast
  have sn: "jsz ctx - jidx ctx = Suc n" using n by simp
  have eq: "num_loop (jsz ctx - jidx ctx) ?start = num_loop n ?c"
    using num_loop_first [of ?start n] i ch by (simp add: sn)
  have "scanned JPS_NUMOUT ?c n (num_loop n ?c)" using i n by (intro num_loop_scanned) simp
  then obtain b c1 where r: "num_loop n ?c = Some (b, c1)" and c1: "same_input ctx c1" "jidx ctx + 1 \<le> jidx c1"
      "jst c1 = JPS_NUMOUT \<Longrightarrow> jidx c1 < jsz ctx" "jidx c1 \<le> jsz ctx"
    using i n by (auto simp: scanned_def ahead_def same_input_def)
  have sb: "jidx (step_back c1) = jidx c1 - 1" using c1 sz by (intro step_back_idx) simp_all
  have parse: "json_parse_num (ctx\<lparr>jst := JPS_NUMIN\<rparr>) =
      Some (if b then (Diag ''JSON_PARSE_NUM'' 1, c1)
            else if jst c1 = JPS_NUMOUT then
              (rc_ok, (step_back c1)\<lparr>jty := (if jfloat c1 \<or> jscientific c1 then JSON_FLOAT else JSON_INT)\<rparr>)
            else (JSON_PARSE_NEEDMORE, c1))"
    using eq r by (simp add: json_parse_num_def)
  have t: "text_at c2 (jidx ctx) = Some (drop (jidx ctx) (jin ctx))" if "jin c2 = jin ctx" for c2 :: "('a, 'b, 'c, 'd) jctx"
    using that i by (simp add: text_at_def)
  have conv: "jfloat c1 \<or> jscientific c1 \<Longrightarrow> strtod (drop (jidx ctx) (jin ctx)) \<noteq> None"
    "\<not> (jfloat c1 \<or> jscientific c1) \<Longrightarrow> strtol10 (drop (jidx ctx) (jin ctx)) \<noteq> None" if out: "jst c1 = JPS_NUMOUT"
  proof -
    obtain u e v where u: "take n (drop (Suc (jidx ctx)) (jin ctx)) = u @ e # v" "\<forall>d \<in> set u. num_char d" "\<not> num_char e"
        "jfloat c1 \<or> jscientific c1 \<longleftrightarrow> (\<exists>d \<in> set u. \<not> JSN_ISDIGIT d)"
      using num_loop_stops [OF _ _ r out] i n by auto
    let ?rest = "drop n (drop (Suc (jidx ctx)) (jin ctx))"
    have "jidx ctx < length (jin ctx)" using i by simp
    then have "drop (jidx ctx) (jin ctx) = ?x # take n (drop (Suc (jidx ctx)) (jin ctx)) @ ?rest"
      by (simp only: append_take_drop_id Cons_nth_drop_Suc)
    then have d: "drop (jidx ctx) (jin ctx) = (?x # u) @ e # v @ ?rest" unfolding u(1) by simp
    have "take (jsz ctx) (jin ctx) = take (jidx ctx) (jin ctx) @ take (Suc n) (drop (jidx ctx) (jin ctx))"
      unfolding n by (metis add_Suc_right take_add)
    moreover have "take (Suc n) (drop (jidx ctx) (jin ctx)) = (?x # u) @ e # v"
      using u(1) \<open>jidx ctx < length (jin ctx)\<close> by (simp add: Cons_nth_drop_Suc [symmetric])
    ultimately have ex: "\<not> open_exponent (take (jidx ctx) (jin ctx) @ (?x # u) @ e # v)"
      using i(3) by (simp add: readable_def)
    show "strtod (drop (jidx ctx) (jin ctx)) \<noteq> None" if "jfloat c1 \<or> jscientific c1"
    proof -
      have ft: "float_text (?x # u)" using that u(2,4) ch by (simp add: float_text_def)
      have "strtod_within strtod" using i(3) by (simp add: readable_def)
      from strtod_in_text [OF this ft u(3) ex] show ?thesis unfolding d .
    qed
    have "\<not> JSN_ISDIGIT e" using u(3) by (simp add: num_char_def)
    then show "strtol10 (drop (jidx ctx) (jin ctx)) \<noteq> None" if "\<not> (jfloat c1 \<or> jscientific c1)"
      using strtol10_stops [OF ch, of u e "v @ ?rest"] that u(4) unfolding d by auto
  qed
  show ?thesis
  proof (cases "b \<or> jst c1 \<noteq> JPS_NUMOUT")
    case True
    then have "\<exists>r. r \<noteq> rc_ok \<and> scan_num strtod bad ctx = Some (r, c1)"
      using parse by (auto simp: scan_num_def JSON_PARSE_NEEDMORE_def)
    then show ?thesis using c1(1,2) by (auto simp: scan_result_def ahead_def)
  next
    case False
    let ?o = "(step_back c1)\<lparr>jty := (if jfloat c1 \<or> jscientific c1 then JSON_FLOAT else JSON_INT)\<rparr>"
    have p2: "json_parse_num (ctx\<lparr>jst := JPS_NUMIN\<rparr>) = Some (rc_ok, ?o)" using parse False by simp
    have ah: "same_input ctx ?o" "jidx ctx \<le> jidx ?o" "jidx ?o < jsz ctx"
      using c1 sb False by (auto simp: same_input_def step_back_def)
    have tx: "text_at ((step_back c1)\<lparr>jty := ty\<rparr>) (jidx ctx) = Some (drop (jidx ctx) (jin ctx))" for ty
      using c1(1) by (intro t) (simp add: same_input_def step_back_def)
    have "\<exists>v. scan_num strtod bad ctx = Some (rc_ok, ?o\<lparr>vword := v\<rparr>) \<and>
        (if jfloat c1 \<or> jscientific c1 then \<exists>x. v = VFloat x else \<exists>k. v = VInt k)"
      using conv False unfolding scan_num_def p2 by (auto simp: tx) blast+
    then show ?thesis using ah by (auto simp: scan_result_def ahead_def same_input_def split: if_splits)
  qed
qed

lemma scan_tok_result:
  assumes i: "jidx ctx < jsz ctx" "jsz ctx \<le> length (jin ctx)" "jsz ctx < 2 ^ 64" and ch: "tok_char (jin ctx ! jidx ctx)"
  shows "scan_result ctx (jidx ctx) (\<lambda>c. jty c = JSON_NULL \<or> jty c = JSON_BOOLEAN \<and> (\<exists>b. vword c = VBool b)) (scan_tok ctx)"
proof -
  let ?start = "ctx\<lparr>jst := JPS_TOKIN\<rparr>"
  let ?c = "?start\<lparr>jst := JPS_TOK, jidx := jidx ctx + 1\<rparr>"
  obtain n where n: "jsz ctx = Suc (jidx ctx + n)" using less_imp_Suc_add [OF i(1)] by blast
  have sn: "jsz ctx - jidx ctx = Suc n" using n by simp
  have eq: "tok_loop (jsz ctx - jidx ctx) ?start = tok_loop n ?c" unfolding sn using i(1,2) ch by simp
  have "scanned JPS_TOKOUT ?c n (tok_loop n ?c)" using i n by (intro tok_loop_scanned) simp
  then obtain b c1 where r: "tok_loop n ?c = Some (b, c1)" and c1: "same_input ctx c1" "jidx ctx + 1 \<le> jidx c1"
      "jst c1 = JPS_TOKOUT \<Longrightarrow> jidx c1 < jsz ctx" "jidx c1 \<le> jsz ctx"
    using i n by (auto simp: scanned_def ahead_def same_input_def)
  have sb: "jidx (step_back c1) = jidx c1 - 1" using c1 i by (intro step_back_idx) simp_all
  have parse: "json_parse_tok ?start =
      Some (if b then (Diag ''JSON_PARSE_TOK'' 1, c1)
            else if jst c1 = JPS_TOKOUT then (rc_ok, (step_back c1)\<lparr>jty := JSON_NULL\<rparr>)
            else (JSON_PARSE_NEEDMORE, c1))"
    using eq r by (simp add: json_parse_tok_def)
  have t: "text_at c2 (jidx ctx) = Some (drop (jidx ctx) (jin ctx))" if "jin c2 = jin ctx" for c2 :: "('a, 'b, 'c, 'd) jctx"
    using that i by (simp add: text_at_def)
  show ?thesis
  proof (cases "b \<or> jst c1 \<noteq> JPS_TOKOUT")
    case True
    then have "\<exists>r. r \<noteq> rc_ok \<and> scan_tok ctx = Some (r, c1)"
      using parse by (auto simp: scan_tok_def JSON_PARSE_NEEDMORE_def)
    then show ?thesis using c1(1,2) by (auto simp: scan_result_def ahead_def)
  next
    case False
    let ?c2 = "(step_back c1)\<lparr>jty := JSON_NULL\<rparr>"
    have p2: "json_parse_tok ?start = Some (rc_ok, ?c2)" using parse False by simp
    have ah: "same_input ctx ?c2" "jidx ctx \<le> jidx ?c2" "jidx ?c2 < jsz ctx"
      using c1 sb False by (auto simp: same_input_def step_back_def)
    have tx: "text_at ?c2 (jidx ctx) = Some (drop (jidx ctx) (jin ctx))" using ah(1) by (intro t) (simp add: same_input_def)
    have "\<exists>c3. scan_tok ctx = Some (rc_ok, c3) \<and> (c3 = ?c2 \<or> (\<exists>v. c3 = ?c2\<lparr>jty := JSON_BOOLEAN, vword := VBool v\<rparr>)
        \<or> c3 = ?c2\<lparr>jty := JSON_NULL\<rparr>)"
      unfolding scan_tok_def p2 by (simp add: tx Let_def del: jctx.update_convs) blast
    then show ?thesis using ah by (auto simp: scan_result_def ahead_def same_input_def)
  qed
qed

subsection \<open>Steps\<close>

definition act_ok :: "('c, 'u, 'f, 'o) jctx \<Rightarrow> ('w \<Rightarrow> bool) \<Rightarrow> (('c, 'u, 'f, 'o) jctx \<times> 'w) action \<Rightarrow> bool" where
  "act_ok ctx Q act =
     (case act of
        Return r x \<Rightarrow> ahead ctx (jidx ctx) (fst x) \<and> Q (snd x)
      | Leave x \<Rightarrow> ahead ctx (jidx ctx) (fst x) \<and> Q (snd x)
      | Next x \<Rightarrow> ahead ctx (jidx ctx) (fst x) \<and> Q (snd x)
      | Nested m x \<Rightarrow> ahead ctx (jidx ctx + 1) (fst x) \<and> Q (snd x))"

lemma act_ok_simps [simp]:
  "act_ok ctx Q (Return r (c, w)) \<longleftrightarrow> ahead ctx (jidx ctx) c \<and> Q w"
  "act_ok ctx Q (Leave (c, w)) \<longleftrightarrow> ahead ctx (jidx ctx) c \<and> Q w"
  "act_ok ctx Q (Next (c, w)) \<longleftrightarrow> ahead ctx (jidx ctx) c \<and> Q w"
  "act_ok ctx Q (Nested m (c, w)) \<longleftrightarrow> ahead ctx (jidx ctx + 1) c \<and> Q w"
  by (simp_all add: act_ok_def)

lemma report_scalar_ok:
  assumes cl: "client_ok run Q" and w: "Q w" and c: "union_typed c" "ahead ctx (jidx ctx) c"
  shows "act_ok ctx Q (report_scalar run fail cb u c w)"
proof -
  obtain r c1 w1 where r: "jcall run cb u (c\<lparr>nest := nest c + 1\<rparr>) w = (r, c1, w1)" by (metis prod_cases3)
  have "union_typed (c\<lparr>nest := nest c + 1\<rparr>)" using c(1) by (simp add: union_typed_def split: json_type.splits)
  then show ?thesis using jcall_ahead [OF cl r] w c(2) by (auto simp: report_scalar_def r ahead_def same_input_def)
qed

lemma report_stop_ok:
  assumes cl: "client_ok run Q" and w: "Q w" and c: "union_typed c" "ahead ctx (jidx ctx) c"
  shows "act_ok ctx Q (report_stop run fail cb u c w)"
proof -
  obtain r c1 w1 where r: "jcall run cb u c w = (r, c1, w1)" by (metis prod_cases3)
  show ?thesis using jcall_ahead [OF cl r] w c by (auto simp: report_stop_def r ahead_def same_input_def)
qed

lemma report_start_ok:
  assumes cl: "client_ok run Q" and w: "Q w" and i: "jidx ctx < jsz ctx"
  shows "act_ok ctx Q (report_start run m fail1 fail2 sel ctx w)"
proof -
  let ?c = "ctx\<lparr>jst := (if m = Obj then JPS_OSTART else JPS_ASTART),
             jty := (if m = Obj then JSON_OBJECT else JSON_ARRAY), nest := nest ctx + 1\<rparr>"
  have t: "union_typed ?c" by (simp add: union_typed_def)
  obtain r1 c1 w1 where r1: "jcall run (if m = Obj then ostart_cb ?c else astart_cb ?c)
      (if m = Obj then ostart_udata ?c else astart_udata ?c) ?c w = (r1, c1, w1)" by (metis prod_cases3)
  note a1 = jcall_ahead [OF cl r1]
  obtain r2 c2 w2 where r2: "jcall run (fst (sel c1)) (snd (sel c1)) c1 w1 = (r2, c2, w2)" by (metis prod_cases3)
  note a2 = jcall_ahead [OF cl r2]
  have q1: "union_typed c1" "Q w1" using a1(3) [OF t w] by simp_all
  have q2: "Q w2" using a2(3) [OF q1] by simp
  have "report_start run m fail1 fail2 sel ctx w =
      (if r1 \<noteq> 0 then Return (fail1 r1) (c1, w1) else if r2 \<noteq> 0 then Return (fail2 r2) (c2, w2)
       else Nested m (c2\<lparr>jidx := jidx c2 + 1\<rparr>, w2))"
    unfolding report_start_def Let_def using r1 r2 by simp
  then show ?thesis using a1(1,2) a2(1,2) q1 q2 by (auto simp: ahead_def same_input_def)
qed

text \<open>A scalar that was scanned, and then its callback.\<close>

lemma scanned_scalar_ok:
  assumes res: "scan_result ctx i typed res" and i: "jidx ctx \<le> i" and w: "Q w"
    and report: "\<And>c. ahead ctx i c \<Longrightarrow> jidx c < jsz c \<Longrightarrow> typed c \<Longrightarrow> act_ok ctx Q (report c)"
  shows "\<exists>act. do { (r, c) \<leftarrow> res; Some (if r \<noteq> rc_ok then Return r (c, w) else report c) } = Some act \<and> act_ok ctx Q act"
proof -
  obtain r c where r: "res = Some (r, c)" "ahead ctx i c" "r = rc_ok \<longrightarrow> jidx c < jsz c \<and> typed c"
    using res by (auto simp: scan_result_def)
  then show ?thesis using report [of c] w i by (auto intro: ahead_mono)
qed

lemma obj_key_ok:
  assumes cl: "client_ok run Q" and w: "Q w" and i: "jidx ctx < jsz ctx" "jsz ctx \<le> length (jin ctx)"
  shows "\<exists>act. obj_key run ctx w = Some act \<and> act_ok ctx Q act"
  unfolding obj_key_def
proof (rule scanned_scalar_ok [where Q = Q and w = w, OF scan_str_result [OF i] _ w])
  fix c assume c: "ahead ctx (jidx ctx + 1) c" "jidx c < jsz c" "jty c = JSON_STRING \<and> vword c = VStart (jidx ctx + 1)"
  show "act_ok ctx Q (report_scalar run Rc (key_cb c) (key_udata c) (c\<lparr>jst := JPS_KEYOUT, vend := jidx c\<rparr>) w)"
    using c by (intro report_scalar_ok [where Q = Q, OF cl w]) (auto simp: union_typed_def ahead_def same_input_def)
qed simp

lemma str_value_ok:
  assumes cl: "client_ok run Q" and w: "Q w" and i: "jidx ctx < jsz ctx" "jsz ctx \<le> length (jin ctx)"
  shows "\<exists>act. do { (r, c) \<leftarrow> scan_str ctx; Some (if r \<noteq> rc_ok then Return r (c, w)
      else report_scalar run fail (cb c) (u c) (c\<lparr>vend := jidx c\<rparr>) w) } = Some act \<and> act_ok ctx Q act"
proof (rule scanned_scalar_ok [where Q = Q and w = w, OF scan_str_result [OF i] _ w])
  fix c assume c: "ahead ctx (jidx ctx + 1) c" "jidx c < jsz c" "jty c = JSON_STRING \<and> vword c = VStart (jidx ctx + 1)"
  show "act_ok ctx Q (report_scalar run fail (cb c) (u c) (c\<lparr>vend := jidx c\<rparr>) w)"
    using c by (intro report_scalar_ok [where Q = Q, OF cl w]) (auto simp: union_typed_def ahead_def same_input_def)
qed simp

lemma typed_value_ok:
  assumes cl: "client_ok run Q" and w: "Q w" and res: "scan_result ctx (jidx ctx) typed res"
    and typed: "\<And>c. typed c \<Longrightarrow> union_typed c"
  shows "\<exists>act. do { (r, c) \<leftarrow> res; Some (if r \<noteq> rc_ok then Return r (c, w)
      else report_scalar run fail (cb c) (u c) c w) } = Some act \<and> act_ok ctx Q act"
  by (rule scanned_scalar_ok [where Q = Q and w = w, OF res order_refl w])
    (use typed in \<open>auto intro!: report_scalar_ok [where Q = Q, OF cl w]\<close>)

lemma readable_size: "readable strtod ctx \<Longrightarrow> jsz ctx < 2 ^ 64"
  by (simp add: readable_def)

lemma readable_same: "readable strtod ctx \<Longrightarrow> same_input ctx c \<Longrightarrow> readable strtod c"
  by (simp add: readable_def same_input_def)

lemma num_value_ok:
  assumes cl: "client_ok run Q" and w: "Q w"
    and i: "jidx ctx < jsz ctx" "jsz ctx \<le> length (jin ctx)" "readable strtod ctx"
    and ch: "JSN_ISDIGIT (jin ctx ! jidx ctx) \<or> jin ctx ! jidx ctx = 45" and bad: "bad \<noteq> rc_ok"
  shows "\<exists>act. do { (r, c) \<leftarrow> scan_num strtod bad ctx; Some (if r \<noteq> rc_ok then Return r (c, w)
      else report_scalar run fail (cb c) (u c) c w) } = Some act \<and> act_ok ctx Q act"
  by (rule typed_value_ok [where Q = Q and w = w, OF cl w scan_num_result [OF i ch bad]]) (auto simp: union_typed_def)

lemma tok_value_ok:
  assumes cl: "client_ok run Q" and w: "Q w"
    and i: "jidx ctx < jsz ctx" "jsz ctx \<le> length (jin ctx)" "jsz ctx < 2 ^ 64"
    and ch: "JSN_ISALPHA (jin ctx ! jidx ctx)"
  shows "\<exists>act. do { (r, c) \<leftarrow> scan_tok ctx; Some (if r \<noteq> rc_ok then Return r (c, w)
      else report_scalar run fail (cb c) (u c) c w) } = Some act \<and> act_ok ctx Q act"
proof -
  have "tok_char (jin ctx ! jidx ctx)" using ch by (simp add: tok_char_def)
  then show ?thesis
    by (intro typed_value_ok [where Q = Q and w = w, OF cl w scan_tok_result [OF i]]) (auto simp: union_typed_def)
qed

lemma obj_value_ok:
  assumes cl: "client_ok run Q" and w: "Q w"
    and i: "jidx ctx < jsz ctx" "jsz ctx \<le> length (jin ctx)" "readable strtod ctx" and ch: "ch = jin ctx ! jidx ctx"
  shows "\<exists>act. obj_value run strtod ch ctx w = Some act \<and> act_ok ctx Q act"
  unfolding obj_value_def Let_def
  using report_start_ok [where Q = Q, OF cl w i(1)] w ch
  by (auto simp: ahead_def
    intro: str_value_ok [where Q = Q, OF cl w i(1,2)] num_value_ok [where Q = Q, OF cl w i] tok_value_ok [where Q = Q, OF cl w i(1,2) readable_size [OF i(3)]])

lemma arr_item_ok:
  assumes cl: "client_ok run Q" and w: "Q w"
    and i: "jidx ctx < jsz ctx" "jsz ctx \<le> length (jin ctx)" "readable strtod ctx" and ch: "ch = jin ctx ! jidx ctx"
  shows "\<exists>act. arr_item run strtod ch ctx w = Some act \<and> act_ok ctx Q act"
proof -
  have "act_ok ctx Q (arr_stop run 1 ctx w)" unfolding arr_stop_def
    by (rule report_stop_ok [where Q = Q, OF cl w]) (simp_all add: union_typed_def ahead_def same_input_def)
  then show ?thesis unfolding arr_item_def Let_def
    using report_start_ok [where Q = Q, OF cl w i(1)] w ch
    by (auto simp: ahead_def
      intro: str_value_ok [where Q = Q, OF cl w i(1,2)] num_value_ok [where Q = Q, OF cl w i] tok_value_ok [where Q = Q, OF cl w i(1,2) readable_size [OF i(3)]])
qed

lemma obj_step_ok:
  assumes cl: "client_ok run Q" and w: "Q w"
    and i: "jidx ctx < jsz ctx" "jsz ctx \<le> length (jin ctx)" "readable strtod ctx" and ch: "ch = jin ctx ! jidx ctx"
  shows "\<exists>act. obj_step run strtod ch ctx w = Some act \<and> act_ok ctx Q act"
proof -
  have "act_ok ctx Q (obj_stop run ctx w)" unfolding obj_stop_def
    by (rule report_stop_ok [where Q = Q, OF cl w]) (simp_all add: union_typed_def ahead_def same_input_def)
  moreover note obj_value_ok [where Q = Q and run = run and strtod = strtod, OF cl w i ch]
    obj_key_ok [where Q = Q and run = run, OF cl w i(1,2)]
  ultimately show ?thesis using w by (auto simp: obj_step_def Let_def ahead_def same_input_def)
qed

lemma arr_step_ok:
  assumes cl: "client_ok run Q" and w: "Q w"
    and i: "jidx ctx < jsz ctx" "jsz ctx \<le> length (jin ctx)" "readable strtod ctx" and ch: "ch = jin ctx ! jidx ctx"
  shows "\<exists>act. arr_step run strtod ch ctx w = Some act \<and> act_ok ctx Q act"
proof -
  have "act_ok ctx Q (arr_stop run 12 ctx w)" unfolding arr_stop_def
    by (rule report_stop_ok [where Q = Q, OF cl w]) (simp_all add: union_typed_def ahead_def same_input_def)
  moreover note arr_item_ok [where Q = Q and run = run and strtod = strtod, OF cl w i ch]
  ultimately show ?thesis using w by (auto simp: arr_step_def Let_def ahead_def same_input_def)
qed

subsection \<open>The parser\<close>

lemma next_idx_simps [simp]: "jidx (next_idx c) = jidx c + 1" "jin (next_idx c) = jin c" "jsz (next_idx c) = jsz c"
  by (simp_all add: next_idx_def)

lemma parse_loop_safe:
  assumes cl: "client_ok run Q" and "Q w" "jsz ctx \<le> length (jin ctx)" "readable strtod ctx"
  shows "\<exists>r ctx' w'. parse_loop run strtod m ctx w = Some (r, ctx', w') \<and> ahead ctx (jidx ctx) ctx' \<and> Q w'"
  using assms(2-)
proof (induction "jsz ctx - jidx ctx" arbitrary: ctx w m rule: less_induct)
  case less
  note step = parse_loop.simps [of run strtod m ctx w]
  show ?case
  proof (cases "jidx ctx < jsz ctx \<and> jin ctx ! jidx ctx \<noteq> 0")
    case False
    then show ?thesis using less.prems by (auto simp: step ahead_def)
  next
    case True
    let ?ch = "jin ctx ! jidx ctx"
    have p: "peek (jin ctx) (jidx ctx) = Some ?ch" using True less.prems by simp
    obtain act where act: "(if m = Obj then obj_step run strtod ?ch ctx w else arr_step run strtod ?ch ctx w) = Some act"
      and ok: "act_ok ctx Q act"
      using obj_step_ok [where Q = Q, OF cl less.prems(1) conjunct1 [OF True] less.prems(2,3) refl]
        arr_step_ok [where Q = Q, OF cl less.prems(1) conjunct1 [OF True] less.prems(2,3) refl]
      by (cases "m = Obj") auto
    have IH: "\<exists>r ctx' w'. parse_loop run strtod m' c w1 = Some (r, ctx', w') \<and> ahead ctx (jidx ctx) ctx' \<and> Q w'"
      if "ahead ctx (jidx ctx + 1) c" "Q w1" for c w1 m'
    proof -
      have "jsz c - jidx c < jsz ctx - jidx ctx" "jsz c \<le> length (jin c)" "readable strtod c"
        using that(1) True less.prems by (auto simp: ahead_def same_input_def intro: readable_same)
      from less.hyps [OF this(1) that(2) this(2,3), of m'] that(1) show ?thesis
        by (auto simp: ahead_def same_input_def)
    qed
    have nx: "ahead ctx (jidx ctx + 1) (next_idx c)" if "ahead ctx (jidx ctx) c" for c
      using that by (auto simp: ahead_def same_input_def)
    show ?thesis
    proof (cases act)
      case (Nested m' x)
      obtain c w1 where x: "x = (c, w1)" by fastforce
      obtain r ctx2 w2 where r: "parse_loop run strtod m' c w1 = Some (r, ctx2, w2)" "ahead ctx (jidx ctx) ctx2" "Q w2"
        using IH [of c w1 m'] ok by (auto simp: Nested x)
      then show ?thesis using IH [OF nx [OF r(2)] r(3), of m] True act p by (auto simp: step Nested x)
    qed (use act p True ok step nx IH in \<open>auto split: prod.splits\<close>)
  qed
qed

lemma json_parse_loop_safe:
  assumes cl: "client_ok run Q" and "Q w" "jin ctx = inp" "jsz ctx = sz" "sz \<le> length inp" "readable strtod ctx"
  shows "\<exists>r ctx' w'. json_parse_loop run strtod inp sz ctx w = Some (r, ctx', w') \<and> ahead ctx (jidx ctx) ctx' \<and> Q w'"
  using assms(2-)
proof (induction "jsz ctx - jidx ctx" arbitrary: ctx w rule: less_induct)
  case less
  note step = json_parse_loop.simps [of run strtod inp sz ctx w]
  have IH: "\<exists>r ctx' w'. json_parse_loop run strtod inp sz c w1 = Some (r, ctx', w') \<and> ahead ctx (jidx ctx) ctx' \<and> Q w'"
    if "ahead ctx (jidx ctx + 1) c" "Q w1" "jidx ctx < sz" for c w1
  proof -
    have "jsz c - jidx c < jsz ctx - jidx ctx" "jin c = inp" "jsz c = sz" "readable strtod c"
      using that less.prems by (auto simp: ahead_def same_input_def intro: readable_same)
    from less.hyps [OF this(1) that(2) this(2,3) less.prems(4) this(4)] that(1) show ?thesis
      by (auto simp: ahead_def same_input_def)
  qed
  have nx: "ahead ctx (jidx ctx + 1) (next_idx c)" if "ahead ctx (jidx ctx) c" for c
    using that by (auto simp: ahead_def same_input_def)
  show ?case
  proof (cases "jidx ctx < sz \<and> inp ! jidx ctx \<noteq> 0")
    case False
    then show ?thesis using less.prems by (auto simp: step ahead_def)
  next
    case True
    let ?ch = "inp ! jidx ctx"
    have p: "peek inp (jidx ctx) = Some ?ch" using True less.prems by simp
    let ?act = "if jst ctx = JPS_START \<and> ?ch = 123 then report_start run Obj Rc Rc (\<lambda>c. (value_cb c, item_udata c)) ctx w
        else if jst ctx = JPS_START \<and> ?ch = 91 then report_start run Arr Rc Rc (\<lambda>c. (item_cb c, item_udata c)) ctx w
        else Next (ctx, w)"
    obtain act where act: "act = ?act" by simp
    have step': "json_parse_loop run strtod inp sz ctx w =
        (case act of
           Return r (ctx1, w1) \<Rightarrow> Some (r, ctx1, w1)
         | Leave (ctx1, w1) \<Rightarrow> Some (rc_ok, ctx1, w1)
         | Next (ctx1, w1) \<Rightarrow> json_parse_loop run strtod inp sz (next_idx ctx1) w1
         | Nested m (ctx1, w1) \<Rightarrow>
             do { (r, ctx2, w2) \<leftarrow>
                    (if m = Obj then json_parse_obj run strtod ctx1 w1 else json_parse_array run strtod ctx1 w1);
                  if r \<noteq> rc_ok then Some (r, ctx2, w2)
                  else json_parse_loop run strtod inp sz (next_idx ctx2) w2 })"
      unfolding act using True p by (subst step) simp
    have ok: "act_ok ctx Q act" unfolding act
      using report_start_ok [where Q = Q, OF cl less.prems(1)] True less.prems by (simp add: ahead_def)
    show ?thesis
    proof (cases act)
      case (Nested m' x)
      obtain c w1 where x: "x = (c, w1)" by fastforce
      have c: "ahead ctx (jidx ctx + 1) c" "Q w1" using ok unfolding Nested x by simp_all
      have "jsz c \<le> length (jin c)" "readable strtod c" using c(1) less.prems
        by (auto simp: ahead_def same_input_def intro: readable_same)
      from parse_loop_safe [where Q = Q, OF cl c(2) this, of m'] c(1)
      obtain r ctx2 w2 where r: "parse_loop run strtod m' c w1 = Some (r, ctx2, w2)" "ahead ctx (jidx ctx) ctx2" "Q w2"
        by (auto simp: ahead_def same_input_def)
      have "(if m' = Obj then json_parse_obj run strtod c w1 else json_parse_array run strtod c w1) = Some (r, ctx2, w2)"
        using r(1) by (cases m') (simp_all add: json_parse_obj_def json_parse_array_def)
      then show ?thesis using IH [OF nx [OF r(2)] r(3)] True r unfolding step' Nested x by auto
    qed (use True ok nx IH in \<open>auto simp: step' split: prod.splits\<close>)
  qed
qed


text \<open>
  A \<^verbatim>\<open>strtod\<close> that gives the text of the number back, and reads as far as the one of the C library.
\<close>

definition demo_strtod :: "u8 list \<Rightarrow> u8 list option" where
  "demo_strtod s =
     (let t = takeWhile num_char s
      in case dropWhile num_char s of
           [] \<Rightarrow> None
         | c # r \<Rightarrow> if exponent_sign t c \<and> dropWhile JSN_ISDIGIT r = [] then None else Some t)"

lemma demo_strtod_plain:
  assumes "\<forall>d \<in> set t. num_char d" "\<not> num_char c"
  shows "demo_strtod (t @ c # r) = (if exponent_sign t c \<and> dropWhile JSN_ISDIGIT r = [] then None else Some t)"
  using assms by (simp add: demo_strtod_def takeWhile_tail dropWhile_append2)

lemma demo_strtod_ended:
  "\<forall>d \<in> set t. num_char d \<Longrightarrow> \<not> num_char c \<Longrightarrow> c \<noteq> 43 \<Longrightarrow> demo_strtod (t @ c # r) = Some t"
  by (simp add: demo_strtod_plain exponent_sign_def)

lemma demo_strtod_within: "strtod_within demo_strtod"
proof -
  have n: "\<forall>d \<in> set t. num_char d" if "float_text t" for t
    using that by (cases t) (auto simp: float_text_def num_char_def)
  have p: "\<not> num_char 43" by (simp add: num_char_def JSN_ISDIGIT_def)
  show ?thesis unfolding strtod_within_def
    by (auto simp: demo_strtod_plain n p dropWhile_append2)
qed

text \<open>A client that remembers whether the union was well typed in all calls.\<close>

definition type_checker :: "(nat, unit, u8 list, nat, bool) jrun" where
  "type_checker c ctx u w = (0, ctx, w \<and> union_typed ctx)"

definition demo_ctx :: "(nat, unit, u8 list, nat) jctx" where
  "demo_ctx = \<lparr>jin = [], jsz = 0, jst = JPS_START, jneedunescape = False, jfloat = False, jscientific = False,
     jty = JSON_UNDEF, vword = VInt 0, vend = 0, jidx = 0, nest = -1, jcb = Some 0, judata = (),
     ostart_cb = Some 0, ostart_udata = (), ostop_cb = Some 1, ostop_udata = (), astart_cb = Some 2, astart_udata = (),
     astop_cb = Some 3, astop_udata = (), key_cb = Some 4, key_udata = (), value_cb = Some 5, value_udata = (),
     item_cb = Some 6, item_udata = (),
     stack = \<lparr>elsz = 8, elnum = 0, data = None, datasz = 0, init = None, fini = None\<rparr>, current_key = None\<rparr>"

text \<open>The parser on \<^verbatim>\<open>[1e+\<close> does read behind the end.\<close>

lemma json_parse_reads_behind: "json_parse type_checker demo_strtod demo_ctx [91, 49, 101, 43] 4 w = None"
proof -
  have ch: "JSN_ISDIGIT 49" "\<not> JSN_ISDIGIT 101" "\<not> JSN_ISDIGIT 43"
    by (simp_all add: JSN_ISDIGIT_def)
  have n: "num_char 49" "num_char 101" "\<not> num_char 43" using ch by (simp_all add: num_char_def)
  have sd: "demo_strtod [49, 101, 43] = None" by (simp add: demo_strtod_def exponent_sign_def n)
  let ?in = "[91, 49, 101, 43] :: u8 list"
  have num: "scan_num demo_strtod bad c = None" if c: "jin c = ?in" "jsz c = 4" "jidx c = 1" for bad and c :: "(nat, unit, u8 list, nat) jctx"
  proof -
    have "num_loop 3 (c\<lparr>jst := JPS_NUMIN, jfloat := False, jscientific := False\<rparr>) =
        Some (False, c\<lparr>jst := JPS_NUMOUT, jfloat := False, jscientific := True, jidx := 3\<rparr>)"
      by (cases c) (use c ch in \<open>simp add: numeral_3_eq_3\<close>)
    then show ?thesis by (simp add: scan_num_def json_parse_num_def c text_at_def sd step_back_def)
  qed
  have step: "arr_step type_checker demo_strtod 49 c w' = None"
    if "jin c = ?in" "jsz c = 4" "jidx c = 1" "jst c = JPS_ASTART" for w' and c :: "(nat, unit, u8 list, nat) jctx"
    using that ch by (simp add: arr_step_def arr_item_def num)
  have "parse_loop type_checker demo_strtod Arr c w' = None"
    if "jin c = ?in" "jsz c = 4" "jidx c = 1" "jst c = JPS_ASTART" for w' and c :: "(nat, unit, u8 list, nat) jctx"
    by (subst parse_loop.simps) (use step that in \<open>simp add: peek_def\<close>)
  then show ?thesis
    by (simp add: json_parse_def json_parse_loop.simps report_start_def jcall_def type_checker_def demo_ctx_def
      json_parse_array_def peek_def)
qed


end
