(* ===== verification/Json_Events.thy ===== *)
theory Json_Events
  imports Json_Safe
begin

text \<open>
  What the parser of \<^verbatim>\<open>Mn_Json\<close> reports of a JSON text: the values as an abstract datatype, the texts that
  spell a value, and the calls that a value consists of. The theorem at the end says that parsing a text
  makes exactly the calls of the value that it spells.
\<close>

subsection \<open>Values, texts, events\<close>

text \<open>Strings, numbers and tokens are given by their spelling.\<close>

datatype json = JStr "u8 list" | JNum "u8 list" | JTok "u8 list" | JArr "json list" | JObj "member list"
  and member = Member "u8 list" json

text \<open>The inside of a string: a backslash protects the byte behind it.\<close>

fun closed :: "u8 list \<Rightarrow> bool" where
  "closed [] \<longleftrightarrow> True"
| "closed [c] \<longleftrightarrow> c \<noteq> 92 \<and> c \<noteq> 34"
| "closed (c # d # s) \<longleftrightarrow> (if c = 92 then closed s else c \<noteq> 34 \<and> closed (d # s))"

fun num_text :: "u8 list \<Rightarrow> bool" where
  "num_text [] \<longleftrightarrow> False"
| "num_text (c # cs) \<longleftrightarrow> (JSN_ISDIGIT c \<or> c = 45) \<and> (\<forall>d \<in> set cs. num_char d)"

definition int_text :: "u8 list \<Rightarrow> bool" where
  "int_text t \<longleftrightarrow> (\<forall>d \<in> set (tl t). JSN_ISDIGIT d)"

definition blank :: "u8 list \<Rightarrow> bool" where
  "blank ws \<longleftrightarrow> (\<forall>c \<in> set ws. JSN_ISSPACE c)"

text \<open>
  \<open>spells v t\<close>: the text \<open>t\<close> spells the value \<open>v\<close>. The bodies of arrays and objects are what comes behind the
  opening bracket, the closing one included; a tail is what comes behind an element.
\<close>

inductive spells :: "json \<Rightarrow> u8 list \<Rightarrow> bool"
  and arr_body :: "json list \<Rightarrow> u8 list \<Rightarrow> bool"
  and arr_tail :: "json list \<Rightarrow> u8 list \<Rightarrow> bool"
  and obj_body :: "member list \<Rightarrow> u8 list \<Rightarrow> bool"
  and obj_tail :: "member list \<Rightarrow> u8 list \<Rightarrow> bool" where
  str: "closed s \<Longrightarrow> spells (JStr s) (34 # s @ [34])"
| num: "num_text t \<Longrightarrow> spells (JNum t) t"
| tok: "t \<in> {lit_true, lit_false, lit_null} \<Longrightarrow> spells (JTok t) t"
| arr: "arr_body vs b \<Longrightarrow> spells (JArr vs) (91 # b)"
| obj: "obj_body ms b \<Longrightarrow> spells (JObj ms) (123 # b)"
| arr_empty: "blank ws \<Longrightarrow> arr_body [] (ws @ [93])"
| arr_first: "blank ws \<Longrightarrow> spells v t \<Longrightarrow> arr_tail vs r \<Longrightarrow> arr_body (v # vs) (ws @ t @ r)"
| arr_end: "blank ws \<Longrightarrow> arr_tail [] (ws @ [93])"
| arr_next: "blank ws \<Longrightarrow> blank ws' \<Longrightarrow> spells v t \<Longrightarrow> arr_tail vs r
    \<Longrightarrow> arr_tail (v # vs) (ws @ 44 # ws' @ t @ r)"
| obj_empty: "blank ws \<Longrightarrow> obj_body [] (ws @ [125])"
| obj_first: "blank ws \<Longrightarrow> closed k \<Longrightarrow> blank ws1 \<Longrightarrow> blank ws2 \<Longrightarrow> spells v t \<Longrightarrow> obj_tail ms r
    \<Longrightarrow> obj_body (Member k v # ms) (ws @ 34 # k @ 34 # ws1 @ 58 # ws2 @ t @ r)"
| obj_end: "blank ws \<Longrightarrow> obj_tail [] (ws @ [125])"
| obj_next: "blank ws \<Longrightarrow> blank ws' \<Longrightarrow> closed k \<Longrightarrow> blank ws1 \<Longrightarrow> blank ws2 \<Longrightarrow> spells v t \<Longrightarrow> obj_tail ms r
    \<Longrightarrow> obj_tail (Member k v # ms) (ws @ 44 # ws' @ 34 # k @ 34 # ws1 @ 58 # ws2 @ t @ r)"

text \<open>The calls: which callback, at which level, with which value.\<close>

datatype ev_kind = KOstart | KOstop | KAstart | KAstop | KKey | KValue | KItem

datatype 'f payload = PObj | PArr | PStr "u8 list" | PInt int | PFloat 'f | PBool bool | PNull

type_synonym 'f event = "ev_kind \<times> int \<times> 'f payload"

text \<open>The number that \<^verbatim>\<open>strtod\<close> reads from a text with a zero byte behind it.\<close>

definition num_value :: "(u8 list \<Rightarrow> 'f option) \<Rightarrow> u8 list \<Rightarrow> 'f" where
  "num_value sd t = the (sd (t @ [0]))"

fun pay :: "(u8 list \<Rightarrow> 'f option) \<Rightarrow> json \<Rightarrow> 'f payload" where
  "pay sd (JStr s) = PStr s"
| "pay sd (JNum t) = (if int_text t then PInt (long_value t) else PFloat (num_value sd t))"
| "pay sd (JTok t) = (if t = lit_true then PBool True else if t = lit_false then PBool False else PNull)"
| "pay sd (JArr vs) = PArr"
| "pay sd (JObj ms) = PObj"

fun events :: "(u8 list \<Rightarrow> 'f option) \<Rightarrow> ev_kind \<Rightarrow> int \<Rightarrow> json \<Rightarrow> 'f event list"
  and events_member :: "(u8 list \<Rightarrow> 'f option) \<Rightarrow> int \<Rightarrow> member \<Rightarrow> 'f event list" where
  "events sd k n (JArr vs) =
     (KAstart, n + 1, PArr) # (k, n + 1, PArr) # concat (map (events sd KItem (n + 1)) vs) @ [(KAstop, n + 1, PArr)]"
| "events sd k n (JObj ms) =
     (KOstart, n + 1, PObj) # (k, n + 1, PObj) # concat (map (events_member sd (n + 1)) ms) @ [(KOstop, n + 1, PObj)]"
| "events sd k n v = [(k, n + 1, pay sd v)]"
| "events_member sd n (Member key v) = (KKey, n + 1, PStr key) # events sd KValue n v"

text \<open>The client that records its calls.\<close>

definition observed :: "('c, 'u, 'f, 'o) jctx \<Rightarrow> 'f payload" where
  "observed ctx =
     (case jty ctx of
        JSON_OBJECT \<Rightarrow> PObj
      | JSON_ARRAY \<Rightarrow> PArr
      | JSON_STRING \<Rightarrow> (case vword ctx of VStart i \<Rightarrow> PStr (take (vend ctx - i) (drop i (jin ctx))) | _ \<Rightarrow> PNull)
      | JSON_INT \<Rightarrow> (case vword ctx of VInt i \<Rightarrow> PInt i | _ \<Rightarrow> PNull)
      | JSON_FLOAT \<Rightarrow> (case vword ctx of VFloat x \<Rightarrow> PFloat x | _ \<Rightarrow> PNull)
      | JSON_BOOLEAN \<Rightarrow> (case vword ctx of VBool b \<Rightarrow> PBool b | _ \<Rightarrow> PNull)
      | _ \<Rightarrow> PNull)"

definition recorder :: "(ev_kind, 'u, 'f, 'o, 'f event list) jrun" where
  "recorder c ctx u w = (0, ctx, w @ [(c, nest ctx, observed ctx)])"

definition watched :: "u8 list \<Rightarrow> ('o, unit) mnarray \<Rightarrow> (ev_kind, 'u, 'f, 'o) jctx \<Rightarrow> bool" where
  "watched inp stk ctx \<longleftrightarrow> jin ctx = inp \<and> jsz ctx = length inp \<and> stack ctx = stk
     \<and> ostart_cb ctx = Some KOstart \<and> ostop_cb ctx = Some KOstop \<and> astart_cb ctx = Some KAstart
     \<and> astop_cb ctx = Some KAstop \<and> key_cb ctx = Some KKey \<and> value_cb ctx = Some KValue \<and> item_cb ctx = Some KItem"

subsection \<open>The scanners on their texts\<close>

text \<open>The rest of the input at the current position.\<close>

definition ahead_text :: "('c, 'u, 'f, 'o) jctx \<Rightarrow> u8 list" where
  "ahead_text ctx = drop (jidx ctx) (jin ctx)"

lemma ahead_text_Cons:
  assumes "ahead_text ctx = c # t"
  shows "jidx ctx < length (jin ctx)" "peek (jin ctx) (jidx ctx) = Some c" "drop (Suc (jidx ctx)) (jin ctx) = t"
proof -
  show lt: "jidx ctx < length (jin ctx)" using assms unfolding ahead_text_def by (metis drop_eq_Nil2 list.discI not_le)
  have "jin ctx ! jidx ctx # drop (Suc (jidx ctx)) (jin ctx) = c # t"
    using assms Cons_nth_drop_Suc [OF lt] unfolding ahead_text_def by simp
  then show "peek (jin ctx) (jidx ctx) = Some c" "drop (Suc (jidx ctx)) (jin ctx) = t" using lt by simp_all
qed

lemma ahead_text_append: "ahead_text ctx = s @ t \<Longrightarrow> drop (jidx ctx + length s) (jin ctx) = t"
  unfolding ahead_text_def by (metis add.commute append_eq_conv_conj drop_drop)

lemma str_loop_closed:
  fixes ctx :: "('c, 'u, 'f, 'o) jctx"
  assumes "closed s" "ahead_text ctx = s @ 34 # rest" "jst ctx \<in> {JPS_STRIN, JPS_STR}" "length s < n"
  shows "\<exists>b. str_loop n ctx = Some (False, ctx\<lparr>jst := JPS_STROUT, jidx := jidx ctx + length s, jneedunescape := b\<rparr>)"
  using assms
proof (induction s arbitrary: ctx n rule: closed.induct)
  case 1
  then obtain m where "n = Suc m" by (cases n) auto
  then show ?case using 1 ahead_text_Cons(2) [of ctx 34 rest] by (auto intro: exI [of _ "jneedunescape ctx"])
next
  case (2 c)
  then obtain m where n: "n = Suc (Suc m)" by (cases n; cases "n - 1") auto
  let ?c = "ctx\<lparr>jst := JPS_STR, jidx := jidx ctx + 1\<rparr>"
  have c: "peek (jin ctx) (jidx ctx) = Some c" using 2 by (intro ahead_text_Cons) simp
  have "ahead_text ?c = 34 # rest" using 2 ahead_text_Cons(3) [of ctx c] by (simp add: ahead_text_def)
  then have "peek (jin ctx) (Suc (jidx ctx)) = Some 34" using ahead_text_Cons(2) [of ?c 34 rest] by simp
  then show ?case using 2 c n by (auto intro: exI [of _ "jneedunescape ctx"])
next
  case (3 c d s)
  obtain m where n: "n = Suc (Suc m)" using 3(6) by (cases n; cases "n - 1") auto
  have c: "peek (jin ctx) (jidx ctx) = Some c" "drop (Suc (jidx ctx)) (jin ctx) = d # s @ 34 # rest"
    using 3(4) by (auto intro: ahead_text_Cons)
  show ?case
  proof (cases "c = 92")
    case True
    let ?d = "ctx\<lparr>jst := JPS_STRESC, jidx := jidx ctx + 1\<rparr>"
    have d: "peek (jin ctx) (Suc (jidx ctx)) = Some d" "drop (Suc (Suc (jidx ctx))) (jin ctx) = s @ 34 # rest"
      using ahead_text_Cons [of ?d d "s @ 34 # rest"] c(2) by (simp_all add: ahead_text_def)
    have IH: "\<exists>b. str_loop m c = Some (False, c\<lparr>jst := JPS_STROUT, jidx := jidx c + length s, jneedunescape := b\<rparr>)"
      if "jin c = jin ctx" "jidx c = Suc (Suc (jidx ctx))" "jst c = JPS_STR" for c :: "('c, 'u, 'f, 'o) jctx"
      using 3(1) [of c m] 3(3,6) d(2) True n that by (simp add: ahead_text_def)
    let ?in = "ctx\<lparr>jneedunescape := True, jst := JPS_STR, jidx := Suc (Suc (jidx ctx))\<rparr>"
    let ?str = "ctx\<lparr>jst := JPS_STR, jidx := Suc (Suc (jidx ctx))\<rparr>"
    have eq: "?in\<lparr>jst := JPS_STROUT, jidx := i, jneedunescape := b\<rparr> = ctx\<lparr>jst := JPS_STROUT, jidx := i, jneedunescape := b\<rparr>" for i b
      by (cases ctx) simp
    have "\<exists>b. str_loop m ?in = Some (False, ctx\<lparr>jst := JPS_STROUT, jidx := Suc (Suc (jidx ctx + length s)), jneedunescape := b\<rparr>)"
      using IH [of ?in] unfolding eq by simp
    moreover have "\<exists>b. str_loop m ?str = Some (False, ctx\<lparr>jst := JPS_STROUT, jidx := Suc (Suc (jidx ctx + length s)), jneedunescape := b\<rparr>)"
      using IH [of ?str] by simp
    ultimately show ?thesis using 3(5) c(1) d(1) True n by auto
  next
    case False
    let ?d = "ctx\<lparr>jst := JPS_STR, jidx := jidx ctx + 1\<rparr>"
    have "\<exists>b. str_loop (Suc m) ?d = Some (False, ?d\<lparr>jst := JPS_STROUT, jidx := jidx ?d + length (d # s), jneedunescape := b\<rparr>)"
      using 3(3,6) c(2) False n by (intro 3(2)) (simp_all add: ahead_text_def)
    moreover have "str_loop n ctx = str_loop (Suc m) ?d" using 3(3,5) c(1) False n by (auto simp del: str_loop.simps(2) simp: str_loop.simps(2) [of "Suc m" ctx])
    ultimately show ?thesis by simp
  qed
qed

text \<open>The context at the end of a number.\<close>

definition numout :: "('c, 'u, 'f, 'o) jctx \<Rightarrow> nat \<Rightarrow> bool \<Rightarrow> bool \<Rightarrow> ('c, 'u, 'f, 'o) jctx" where
  "numout ctx i f g = ctx\<lparr>jst := JPS_NUMOUT, jidx := i, jfloat := f, jscientific := g\<rparr>"

lemma numout_upd [simp]:
  "numout (ctx\<lparr>jst := s\<rparr>) i f g = numout ctx i f g"
  "numout (ctx\<lparr>jidx := j\<rparr>) i f g = numout ctx i f g"
  "numout (ctx\<lparr>jfloat := b\<rparr>) i f g = numout ctx i f g"
  "numout (ctx\<lparr>jscientific := b\<rparr>) i f g = numout ctx i f g"
  by (cases ctx, simp add: numout_def)+

lemma num_loop_reads:
  fixes ctx :: "('c, 'u, 'f, 'o) jctx"
  assumes "\<forall>d \<in> set t. num_char d" "ahead_text ctx = t @ c # rest" "\<not> num_char c" "jst ctx = JPS_NUM" "length t < n"
  shows "num_loop n ctx = Some (False, numout ctx (jidx ctx + length t)
    (jfloat ctx \<or> 46 \<in> set t) (jscientific ctx \<or> 101 \<in> set t \<or> 69 \<in> set t \<or> 45 \<in> set t))"
  using assms
proof (induction t arbitrary: ctx n)
  case Nil
  then obtain m where "n = Suc m" by (cases n) auto
  moreover have "ctx\<lparr>jst := JPS_NUMOUT\<rparr> = numout ctx (jidx ctx) (jfloat ctx) (jscientific ctx)"
    by (cases ctx) (simp add: numout_def)
  ultimately show ?case using Nil ahead_text_Cons(2) [of ctx c rest] by (simp add: num_char_def)
next
  case (Cons d t)
  then obtain m where n: "n = Suc m" "length t < m" by (cases n) auto
  have d: "peek (jin ctx) (jidx ctx) = Some d" "drop (Suc (jidx ctx)) (jin ctx) = t @ c # rest"
    using Cons.prems(2) by (auto intro: ahead_text_Cons)
  have IH: "num_loop m c1 = Some (False, numout c1 (jidx c1 + length t)
    (jfloat c1 \<or> 46 \<in> set t) (jscientific c1 \<or> 101 \<in> set t \<or> 69 \<in> set t \<or> 45 \<in> set t))"
    if "jin c1 = jin ctx" "jidx c1 = Suc (jidx ctx)" "jst c1 = JPS_NUM" for c1 :: "('c, 'u, 'f, 'o) jctx"
    using Cons.IH [of c1 m] Cons.prems n d(2) that by (simp add: ahead_text_def)
  have dig: "\<not> JSN_ISDIGIT 46" "\<not> JSN_ISDIGIT 101" "\<not> JSN_ISDIGIT 69" "\<not> JSN_ISDIGIT 45"
    by (simp_all add: JSN_ISDIGIT_def)
  from Cons.prems(1) have "num_char d" by simp
  then consider "JSN_ISDIGIT d" "d \<noteq> 46" "d \<noteq> 101" "d \<noteq> 69" "d \<noteq> 45" | "d = 46" | "d = 101" | "d = 69" | "d = 45"
    using dig by (auto simp: num_char_def)
  then show ?case using n d(1) Cons.prems(4) IH dig by cases auto
qed

lemma strtol10_prefix:
  assumes "num_text t" "int_text t" "\<not> num_char c"
  shows "strtol10 (t @ c # rest) = Some (long_value t)"
proof -
  obtain x xs where "t = x # xs" "JSN_ISDIGIT x \<or> x = 45" using assms(1) by (cases t) auto
  moreover have "\<not> JSN_ISDIGIT c" using assms(3) by (simp add: num_char_def)
  ultimately show ?thesis using strtol10_stops [of x xs c rest] assms(2) by (simp add: int_text_def)
qed

text \<open>
  What a scan must leave behind for a value with the text \<open>t\<close>: the position on the last byte of the text,
  and the payload where the client looks for it.
\<close>

definition holds_value ::
  "u8 list \<Rightarrow> ('o, unit) mnarray \<Rightarrow> (ev_kind, 'u, 'f, 'o) jctx \<Rightarrow> u8 list \<Rightarrow> 'f payload \<Rightarrow> (ev_kind, 'u, 'f, 'o) jctx \<Rightarrow> bool" where
  "holds_value inp stk ctx t p ctx' \<longleftrightarrow> watched inp stk ctx' \<and> Suc (jidx ctx') = jidx ctx + length t
     \<and> JPS_OUT (jst ctx') \<and> nest ctx' = nest ctx \<and> observed ctx' = p"

lemma JPS_OUT_simps [simp]:
  "JPS_OUT JPS_STROUT" "JPS_OUT JPS_NUMOUT" "JPS_OUT JPS_TOKOUT" "JPS_OUT JPS_OSTOP" "JPS_OUT JPS_ASTOP"
  "\<not> JPS_OUT JPS_OSTART" "\<not> JPS_OUT JPS_ASTART" "\<not> JPS_OUT JPS_KEYOUT" "\<not> JPS_OUT JPS_EVALUE" "\<not> JPS_OUT JPS_ENEXT"
  by (simp_all add: JPS_OUT_def)

lemma scan_str_reads:
  assumes wt: "watched inp stk ctx" and tx: "ahead_text ctx = 34 # s @ 34 # rest" and cl: "closed s"
  shows "\<exists>ctx'. scan_str ctx = Some (rc_ok, ctx') \<and> holds_value inp stk ctx (34 # s @ [34]) (PStr s) (ctx'\<lparr>vend := jidx ctx'\<rparr>)
    \<and> watched inp stk ctx' \<and> jty ctx' = JSON_STRING"
proof -
  let ?c = "ctx\<lparr>jst := JPS_STRIN, jidx := jidx ctx + 1, vword := VStart (jidx ctx + 1), jneedunescape := False\<rparr>"
  have d: "drop (Suc (jidx ctx)) (jin ctx) = s @ 34 # rest" "jidx ctx < length (jin ctx)"
    using ahead_text_Cons [OF tx] by simp_all
  have len: "length s < jsz ctx - (jidx ctx + 1)"
    using arg_cong [OF d(1), of length] wt by (simp add: watched_def)
  obtain b where "str_loop (jsz ctx - (jidx ctx + 1)) ?c =
      Some (False, ?c\<lparr>jst := JPS_STROUT, jidx := jidx ?c + length s, jneedunescape := b\<rparr>)"
    using str_loop_closed [OF cl, of ?c rest] d len by (auto simp: ahead_text_def)
  moreover have "take (length s) (drop (Suc (jidx ctx)) inp) = s"
    using d wt by (simp add: watched_def)
  ultimately show ?thesis using wt
    by (auto simp: scan_str_def json_parse_str_def holds_value_def watched_def observed_def)
qed

lemma set_tl_not: "x \<notin> set xs \<Longrightarrow> x \<notin> set (tl xs)"
  by (cases xs) auto

lemma int_text_flags:
  assumes "num_text t"
  shows "int_text t \<longleftrightarrow> 46 \<notin> set (tl t) \<and> 101 \<notin> set (tl t) \<and> 69 \<notin> set (tl t) \<and> 45 \<notin> set (tl t)"
proof -
  have "\<not> JSN_ISDIGIT 46" "\<not> JSN_ISDIGIT 101" "\<not> JSN_ISDIGIT 69" "\<not> JSN_ISDIGIT 45"
    by (simp_all add: JSN_ISDIGIT_def)
  then show ?thesis using assms by (cases t) (auto simp: int_text_def num_char_def)
qed

lemma scan_num_reads:
  fixes ctx :: "(ev_kind, 'u, 'f, 'o) jctx"
  assumes wt: "watched inp stk ctx" and tx: "ahead_text ctx = t @ c # rest" and t: "num_text t" and c: "\<not> num_char c"
    and sd: "\<not> int_text t \<Longrightarrow> sd (t @ c # rest) = Some (num_value sd t)" and sz: "length inp < 2 ^ 64"
  shows "\<exists>ctx'. scan_num sd bad ctx = Some (rc_ok, ctx') \<and> holds_value inp stk ctx t (pay sd (JNum t)) ctx'"
proof -
  obtain x xs where xs: "t = x # xs" "JSN_ISDIGIT x \<or> x = 45" "\<forall>d \<in> set xs. num_char d" using t by (cases t) auto
  have jin: "jin ctx = inp" "jsz ctx = length inp" using wt by (simp_all add: watched_def)
  have d: "jidx ctx < length inp" "peek inp (jidx ctx) = Some x" "drop (Suc (jidx ctx)) inp = xs @ c # rest"
    using ahead_text_Cons [of ctx x "xs @ c # rest"] tx xs jin by simp_all
  have len: "length inp = Suc (jidx ctx + length xs + Suc (length rest))"
    using arg_cong [OF d(3), of length] d(1) by simp
  let ?start = "ctx\<lparr>jst := JPS_NUMIN, jfloat := False, jscientific := False\<rparr>"
  let ?one = "?start\<lparr>jst := JPS_NUM, jidx := jidx ctx + 1\<rparr>"
  let ?f = "46 \<in> set xs" and ?g = "101 \<in> set xs \<or> 69 \<in> set xs \<or> 45 \<in> set xs"
  let ?out = "numout ctx (Suc (jidx ctx + length xs)) ?f ?g"
  have "inp ! jidx ctx = x" using d(1,2) by (simp add: peek_eq_Some)
  then have "num_loop (Suc (length xs + Suc (length rest))) ?start = num_loop (length xs + Suc (length rest)) ?one"
    using d(1) jin xs(2) num_loop_first [of ?start "length xs + Suc (length rest)"] by simp
  moreover have "num_loop (length xs + Suc (length rest)) ?one = Some (False, ?out)"
    using num_loop_reads [of xs ?one c rest "length xs + Suc (length rest)"] xs(3) c d(3) jin by (simp add: ahead_text_def)
  ultimately have loop: "num_loop (jsz ctx - jidx ctx) ?start = Some (False, ?out)" using len jin by simp
  have ne: "length inp - jidx ctx = Suc (length xs + Suc (length rest))" using len by simp
  have sb: "step_back ?out = ?out\<lparr>jidx := jidx ctx + length xs\<rparr>"
  proof -
    have "jidx (step_back ?out) = jidx ?out - 1"
      using len sz by (intro step_back_idx) (simp_all add: numout_def)
    then show ?thesis by (simp add: step_back_def numout_def)
  qed
  have ta: "text_at c1 (jidx ctx) = Some (t @ c # rest)" if "jin c1 = inp" for c1 :: "(ev_kind, 'u, 'f, 'o) jctx"
    using that tx jin d(1) by (simp add: text_at_def ahead_text_def)
  have it: "int_text t \<longleftrightarrow> \<not> (?f \<or> ?g)" using int_text_flags [OF t] xs(1) by auto
  let ?o = "?out\<lparr>jidx := jidx ctx + length xs, jty := (if int_text t then JSON_INT else JSON_FLOAT)\<rparr>"
  have fl: "jst ?out = JPS_NUMOUT" "jfloat ?out \<or> jscientific ?out \<longleftrightarrow> \<not> int_text t" by (auto simp: numout_def it)
  have p: "json_parse_num (ctx\<lparr>jst := JPS_NUMIN\<rparr>) = Some (rc_ok, ?o)"
    using loop fl by (simp add: json_parse_num_def sb)
  let ?r = "?o\<lparr>vword := (if int_text t then VInt (long_value t) else VFloat (num_value sd t))\<rparr>"
  have jo: "jin ?o = inp" "jty ?o = (if int_text t then JSON_INT else JSON_FLOAT)" by (simp_all add: numout_def jin)
  have "scan_num sd bad ctx = Some (rc_ok, ?r)"
    using p jo strtol10_prefix [OF t _ c, of rest] sd by (cases "int_text t") (simp_all add: scan_num_def ta)
  moreover have "holds_value inp stk ctx t (pay sd (JNum t)) ?r"
    using wt xs(1) by (simp add: holds_value_def watched_def observed_def numout_def)
  ultimately show ?thesis by blast
qed

lemma tok_loop_reads:
  fixes ctx :: "('c, 'u, 'f, 'o) jctx"
  assumes "\<forall>d \<in> set t. tok_char d" "ahead_text ctx = t @ c # rest" "\<not> tok_char c" "jst ctx = JPS_TOKIN \<or> jst ctx = JPS_TOK" "length t < n"
  shows "tok_loop n ctx = Some (False, ctx\<lparr>jst := JPS_TOKOUT, jidx := jidx ctx + length t\<rparr>)"
  using assms
proof (induction t arbitrary: ctx n)
  case Nil
  then obtain m where "n = Suc m" by (cases n) auto
  moreover have "ctx\<lparr>jst := JPS_TOKOUT\<rparr> = ctx\<lparr>jst := JPS_TOKOUT, jidx := jidx ctx\<rparr>" by simp
  ultimately show ?case using Nil ahead_text_Cons(2) [of ctx c rest] by auto
next
  case (Cons d t)
  then obtain m where n: "n = Suc m" "length t < m" by (cases n) auto
  let ?one = "ctx\<lparr>jst := JPS_TOK, jidx := Suc (jidx ctx)\<rparr>"
  have d: "peek (jin ctx) (jidx ctx) = Some d" "drop (Suc (jidx ctx)) (jin ctx) = t @ c # rest"
    using Cons.prems(2) by (auto intro: ahead_text_Cons)
  have "tok_loop m ?one = Some (False, ?one\<lparr>jst := JPS_TOKOUT, jidx := jidx ?one + length t\<rparr>)"
    using Cons.prems n d(2) by (intro Cons.IH) (simp_all add: ahead_text_def)
  then show ?case using Cons.prems n d(1) by auto
qed

lemma scan_tok_reads:
  fixes ctx :: "(ev_kind, 'u, 'f, 'o) jctx"
  assumes wt: "watched inp stk ctx" and tx: "ahead_text ctx = t @ c # rest" and t: "t \<in> {lit_true, lit_false, lit_null}"
    and c: "\<not> tok_char c" and sz: "length inp < 2 ^ 64"
  shows "\<exists>ctx'. scan_tok ctx = Some (rc_ok, ctx') \<and> holds_value inp stk ctx t (pay sd (JTok t)) ctx'"
proof -
  have jin: "jin ctx = inp" "jsz ctx = length inp" using wt by (simp_all add: watched_def)
  have tc: "\<forall>d \<in> set t. tok_char d" "0 < length t" "length t < 6"
    using t by (auto simp: lit_true_def lit_false_def lit_null_def tok_char_def JSN_ISALPHA_def)
  have d: "jidx ctx \<le> length inp" using tx tc(2) jin unfolding ahead_text_def by (metis append_is_Nil_conv drop_all nat_le_linear list.distinct(1))
  have len: "length inp = jidx ctx + length t + Suc (length rest)"
    using arg_cong [OF tx, of length] jin d by (simp add: ahead_text_def)
  let ?start = "ctx\<lparr>jst := JPS_TOKIN\<rparr>"
  let ?out = "ctx\<lparr>jst := JPS_TOKOUT, jidx := jidx ctx + length t\<rparr>"
  have loop: "tok_loop (jsz ctx - jidx ctx) ?start = Some (False, ?out)"
    using tok_loop_reads [of t ?start c rest "jsz ctx - jidx ctx"] tc(1) c tx len jin by (simp add: ahead_text_def)
  have sbi: "jidx (step_back ?out) = jidx ctx + length t - 1"
    using len sz tc(2) step_back_idx [of ?out] by simp
  then have sb: "step_back ?out = ?out\<lparr>jidx := jidx ctx + length t - 1\<rparr>" by (simp add: step_back_def)
  have ta: "text_at c1 (jidx ctx) = Some (t @ c # rest)" if "jin c1 = inp" for c1 :: "(ev_kind, 'u, 'f, 'o) jctx"
    using that tx jin d by (simp add: text_at_def ahead_text_def)
  have "jidx ctx + length t - 1 + 2 ^ 64 - jidx ctx + 1 = length t + 2 ^ 64" using tc(2) by arith
  then have tl: "SZ (jidx ctx + length t - 1 + 2 ^ 64 - jidx ctx + 1) = length t"
    using tc(3) unfolding SZ_def by (simp only: mod_add_self2) simp
  let ?c2 = "ctx\<lparr>jst := JPS_TOKOUT, jidx := jidx ctx + length t - 1, jty := JSON_NULL\<rparr>"
  have p: "json_parse_tok ?start = Some (rc_ok, ?c2)" using loop by (simp add: json_parse_tok_def sb)
  have "scan_tok ctx = Some (rc_ok,
      if t = lit_true then ?c2\<lparr>jty := JSON_BOOLEAN, vword := VBool True\<rparr>
      else if t = lit_false then ?c2\<lparr>jty := JSON_BOOLEAN, vword := VBool False\<rparr>
      else ?c2)"
  proof -
    have lit: "length t = length lit \<and> take (length lit) (t @ c # rest) = lit \<longleftrightarrow> t = lit" for lit by auto
    have "text_at ?c2 (jidx ctx) = Some (t @ c # rest)" by (rule ta) (simp add: jin)
    moreover have "jidx ?c2 = jidx ctx + length t - 1" by simp
    moreover have "?c2\<lparr>jty := JSON_NULL\<rparr> = ?c2" by simp
    ultimately show ?thesis
      by (simp only: scan_tok_def p Let_def lit tl Option.bind.simps prod.case simp_thms if_False if_cancel)
  qed
  moreover have "watched inp stk ?c2" "Suc (jidx ?c2) = jidx ctx + length t" "nest ?c2 = nest ctx" "JPS_OUT (jst ?c2)"
    using wt tc(2) by (simp_all add: watched_def)
  then have "holds_value inp stk ctx t (pay sd (JTok t))
     (if t = lit_true then ?c2\<lparr>jty := JSON_BOOLEAN, vword := VBool True\<rparr>
      else if t = lit_false then ?c2\<lparr>jty := JSON_BOOLEAN, vword := VBool False\<rparr> else ?c2)"
    by (simp add: holds_value_def watched_def observed_def lit_true_def lit_false_def)
  ultimately show ?thesis by blast
qed

subsection \<open>The loops on their texts\<close>

definition ready :: "(ev_kind, 'u, 'f, 'o) jctx \<Rightarrow> u8 list \<Rightarrow> bool" where
  "ready ctx txt \<longleftrightarrow> watched (jin ctx) (stack ctx) ctx \<and> ahead_text ctx = txt \<and> length (jin ctx) < 2 ^ 64"

text \<open>Where a value is expected, and what can stand behind one.\<close>

definition value_at :: "jmode \<Rightarrow> jps \<Rightarrow> bool" where
  "value_at m s \<longleftrightarrow> (if m = Obj then s = JPS_EVALUE else s = JPS_ASTART \<or> s = JPS_ENEXT)"

definition value_kind :: "jmode \<Rightarrow> ev_kind" where
  "value_kind m = (if m = Obj then KValue else KItem)"

definition stop_char :: "u8 \<Rightarrow> bool" where
  "stop_char c \<longleftrightarrow> c \<in> {32, 9, 10, 44, 93, 125}"

lemma stop_char_not: "stop_char c \<Longrightarrow> \<not> num_char c \<and> \<not> tok_char c"
  by (auto simp: stop_char_def num_char_def tok_char_def JSN_ISDIGIT_def JSN_ISALPHA_def)

text \<open>
  The loop passes over a text: it goes on behind it, with the events recorded. It closes with a text: it
  ends on its last byte, the closing bracket.
\<close>

definition moved :: "(ev_kind, 'u, 'f, 'o) jctx \<Rightarrow> nat \<Rightarrow> (ev_kind, 'u, 'f, 'o) jctx \<Rightarrow> bool" where
  "moved ctx n ctx' \<longleftrightarrow> watched (jin ctx) (stack ctx) ctx' \<and> jidx ctx' = jidx ctx + n"

definition passes ::
  "(u8 list \<Rightarrow> 'f option) \<Rightarrow> jmode \<Rightarrow> (ev_kind, 'u, 'f, 'o) jctx \<Rightarrow> 'f event list \<Rightarrow> u8 list \<Rightarrow> (jps \<Rightarrow> bool) \<Rightarrow> 'f event list \<Rightarrow> bool" where
  "passes sd m ctx w t st evs \<longleftrightarrow>
     (\<exists>ctx'. parse_loop recorder sd m ctx w = parse_loop recorder sd m ctx' (w @ evs)
        \<and> moved ctx (length t) ctx' \<and> st (jst ctx') \<and> nest ctx' = nest ctx)"

definition closes ::
  "(u8 list \<Rightarrow> 'f option) \<Rightarrow> jmode \<Rightarrow> (ev_kind, 'u, 'f, 'o) jctx \<Rightarrow> 'f event list \<Rightarrow> u8 list \<Rightarrow> 'f event list \<Rightarrow> bool" where
  "closes sd m ctx w t evs \<longleftrightarrow>
     (\<exists>ctx'. parse_loop recorder sd m ctx w = Some (rc_ok, ctx', w @ evs)
        \<and> moved ctx (length t - 1) ctx' \<and> JPS_OUT (jst ctx') \<and> nest ctx' = nest ctx - 1)"

lemma ready_moved:
  assumes "ready ctx (t @ r)" "moved ctx (length t) ctx'"
  shows "ready ctx' r"
  using assms ahead_text_append [of ctx t r] by (simp add: ready_def moved_def watched_def ahead_text_def)

lemma moved_trans: "moved a m b \<Longrightarrow> moved b n c \<Longrightarrow> moved a (m + n) c"
  by (simp add: moved_def watched_def)

lemma passes_passes:
  fixes ctx :: "(ev_kind, 'u, 'f, 'o) jctx"
  assumes "passes sd m ctx w t st e" "ready ctx (t @ r)"
    and "\<And>c :: (ev_kind, 'u, 'f, 'o) jctx. ready c r \<Longrightarrow> st (jst c) \<Longrightarrow> nest c = nest ctx \<Longrightarrow> passes sd m c (w @ e) t' st' e'"
  shows "passes sd m ctx w (t @ t') st' (e @ e')"
proof -
  obtain c where c: "parse_loop recorder sd m ctx w = parse_loop recorder sd m c (w @ e)" "moved ctx (length t) c"
      "st (jst c)" "nest c = nest ctx"
    using assms(1) by (auto simp: passes_def)
  obtain c' where "parse_loop recorder sd m c (w @ e) = parse_loop recorder sd m c' ((w @ e) @ e')" "moved c (length t') c'"
      "st' (jst c')" "nest c' = nest c"
    using assms(3) [OF ready_moved [OF assms(2) c(2)] c(3,4)] by (auto simp: passes_def)
  then show ?thesis using c moved_trans [OF c(2)] by (auto simp: passes_def)
qed

lemma passes_closes:
  fixes ctx :: "(ev_kind, 'u, 'f, 'o) jctx"
  assumes "passes sd m ctx w t st e" "ready ctx (t @ r)" "t' \<noteq> []"
    and "\<And>c :: (ev_kind, 'u, 'f, 'o) jctx. ready c r \<Longrightarrow> st (jst c) \<Longrightarrow> nest c = nest ctx \<Longrightarrow> closes sd m c (w @ e) t' e'"
  shows "closes sd m ctx w (t @ t') (e @ e')"
proof -
  obtain c where c: "parse_loop recorder sd m ctx w = parse_loop recorder sd m c (w @ e)" "moved ctx (length t) c"
      "st (jst c)" "nest c = nest ctx"
    using assms(1) by (auto simp: passes_def)
  obtain c' where "parse_loop recorder sd m c (w @ e) = Some (rc_ok, c', (w @ e) @ e')" "moved c (length t' - 1) c'"
      "JPS_OUT (jst c')" "nest c' = nest c - 1"
    using assms(4) [OF ready_moved [OF assms(2) c(2)] c(3,4)] by (auto simp: closes_def)
  moreover have "length t + (length t' - 1) = length (t @ t') - 1" using assms(3) by (cases t') simp_all
  ultimately show ?thesis using c moved_trans [OF c(2)] unfolding closes_def by (metis append.assoc)
qed

text \<open>One byte.\<close>

definition mode_step ::
  "(u8 list \<Rightarrow> 'f option) \<Rightarrow> jmode \<Rightarrow> u8 \<Rightarrow> (ev_kind, 'u, 'f, 'o) jctx \<Rightarrow> 'f event list
     \<Rightarrow> ((ev_kind, 'u, 'f, 'o) jctx \<times> 'f event list) action option" where
  "mode_step sd m ch ctx w = (if m = Obj then obj_step recorder sd ch ctx w else arr_step recorder sd ch ctx w)"

lemma parse_step:
  assumes "ready ctx (ch # r)" "ch \<noteq> 0" "mode_step sd m ch ctx w = Some act"
  shows "parse_loop recorder sd m ctx w =
    (case act of
       Return r (ctx1, w1) \<Rightarrow> Some (r, ctx1, w1)
     | Leave (ctx1, w1) \<Rightarrow> Some (rc_ok, ctx1, w1)
     | Next (ctx1, w1) \<Rightarrow> parse_loop recorder sd m (next_idx ctx1) w1
     | Nested m' (ctx1, w1) \<Rightarrow>
         do { (r, ctx2, w2) \<leftarrow> parse_loop recorder sd m' ctx1 w1;
              if r \<noteq> rc_ok then Some (nested_fail m m' r, ctx2, w2)
              else parse_loop recorder sd m (next_idx ctx2) w2 })"
  using assms ahead_text_Cons [of ctx ch r]
  by (subst parse_loop.simps) (simp add: mode_step_def ready_def watched_def)

lemma next_passes:
  assumes "ready ctx (ch # r)" "ch \<noteq> 0" "mode_step sd m ch ctx w = Some (Next (ctx1, w @ e))"
    and "moved ctx n ctx1" "length t = n + 1" "st (jst ctx1)" "nest ctx1 = nest ctx"
  shows "passes sd m ctx w t st e"
  using parse_step [OF assms(1-3)] assms(4-) unfolding passes_def
  by (intro exI [of _ "next_idx ctx1"]) (simp add: moved_def watched_def next_idx_def)

lemma leave_closes:
  assumes "ready ctx (ch # r)" "ch \<noteq> 0" "mode_step sd m ch ctx w = Some (Leave (ctx1, w @ e))"
    and "moved ctx 0 ctx1" "JPS_OUT (jst ctx1)" "nest ctx1 = nest ctx - 1"
  shows "closes sd m ctx w [ch] e"
  using parse_step [OF assms(1-3)] assms(4-) unfolding closes_def by simp

text \<open>White space.\<close>

definition blank_state :: "jmode \<Rightarrow> jps \<Rightarrow> bool" where
  "blank_state m s \<longleftrightarrow> value_at m s \<or> JPS_OUT s \<or> m = Obj \<and> s \<in> {JPS_OSTART, JPS_KEYOUT, JPS_ENEXT}"

lemma space_step:
  assumes "JSN_ISSPACE ch" "blank_state m (jst ctx)"
  shows "mode_step sd m ch ctx w = Some (Next (ctx, w))"
proof -
  have "ch = 32 \<or> ch = 9 \<or> ch = 10" using assms(1) by (simp add: JSN_ISSPACE_def)
  moreover have "\<not> JSN_ISDIGIT ch \<and> \<not> JSN_ISALPHA ch" using calculation by (auto simp: JSN_ISDIGIT_def JSN_ISALPHA_def)
  moreover have "ch \<noteq> 125 \<and> ch \<noteq> 93 \<and> ch \<noteq> 123 \<and> ch \<noteq> 91 \<and> ch \<noteq> 34 \<and> ch \<noteq> 58 \<and> ch \<noteq> 44 \<and> ch \<noteq> 45"
    using calculation by auto
  ultimately show ?thesis using assms
    by (cases m; cases "jst ctx")
      (simp_all add: mode_step_def blank_state_def value_at_def obj_step_def arr_step_def obj_value_def arr_item_def JPS_OUT_def)
qed

lemma blank_passes:
  fixes ctx :: "(ev_kind, 'u, 'f, 'o) jctx"
  assumes "blank ws" "ready ctx (ws @ r)" "blank_state m (jst ctx)"
  shows "passes sd m ctx w ws (\<lambda>s. s = jst ctx) []"
  using assms
proof (induction ws arbitrary: ctx)
  case Nil
  then show ?case by (auto simp: passes_def moved_def ready_def)
next
  case (Cons c ws)
  have c: "JSN_ISSPACE c" "c \<noteq> 0" "blank ws" using Cons.prems(1) by (auto simp: blank_def JSN_ISSPACE_def)
  have "passes sd m ctx w [c] (\<lambda>s. s = jst ctx) []"
    using Cons.prems(2) space_step [OF c(1) Cons.prems(3)] c(2)
    by (intro next_passes [where n = 0 and ch = c and r = "ws @ r" and ?ctx1.0 = ctx]) (auto simp: moved_def ready_def)
  moreover have "passes sd m c1 (w @ []) ws (\<lambda>s. s = jst ctx) []"
    if "ready c1 (ws @ r)" "jst c1 = jst ctx" for c1 :: "(ev_kind, 'u, 'f, 'o) jctx"
    using Cons.IH [OF c(3) that(1)] Cons.prems(3) that(2) by simp
  ultimately have "passes sd m ctx w ([c] @ ws) (\<lambda>s. s = jst ctx) ([] @ [])"
    using Cons.prems(2) by (intro passes_passes [where r = "ws @ r" and st = "\<lambda>s. s = jst ctx"]) simp_all
  then show ?case by simp
qed

text \<open>The reports, with the recording client.\<close>

lemma observed_nest [simp]: "observed (ctx\<lparr>nest := n\<rparr>) = observed ctx"
  by (simp add: observed_def split: json_type.split vword.split)

lemma record_scalar: "report_scalar recorder fail (Some k) u ctx w = Next (ctx, w @ [(k, nest ctx + 1, observed ctx)])"
  by (simp add: report_scalar_def jcall_def recorder_def)

lemma record_stop:
  "report_stop recorder fail (Some k) u ctx w = Leave (ctx\<lparr>nest := nest ctx - 1\<rparr>, w @ [(k, nest ctx, observed ctx)])"
  by (simp add: report_stop_def jcall_def recorder_def)

text \<open>The context inside of a nested object or array.\<close>

definition opened :: "jmode \<Rightarrow> ('c, 'u, 'f, 'o) jctx \<Rightarrow> ('c, 'u, 'f, 'o) jctx" where
  "opened m ctx = ctx\<lparr>jst := (if m = Obj then JPS_OSTART else JPS_ASTART),
     jty := (if m = Obj then JSON_OBJECT else JSON_ARRAY), nest := nest ctx + 1, jidx := jidx ctx + 1\<rparr>"

definition start_kind :: "jmode \<Rightarrow> ev_kind" where
  "start_kind m = (if m = Obj then KOstart else KAstart)"

definition stop_kind :: "jmode \<Rightarrow> ev_kind" where
  "stop_kind m = (if m = Obj then KOstop else KAstop)"

definition mode_pay :: "jmode \<Rightarrow> 'f payload" where
  "mode_pay m = (if m = Obj then PObj else PArr)"

definition open_char :: "jmode \<Rightarrow> u8" where
  "open_char m = (if m = Obj then 123 else 91)"

lemma record_start:
  assumes "watched inp stk ctx" "\<And>c. watched inp stk c \<Longrightarrow> fst (sel c) = Some k"
  shows "report_start recorder m f1 f2 sel ctx w =
    Nested m (opened m ctx, w @ [(start_kind m, nest ctx + 1, mode_pay m), (k, nest ctx + 1, mode_pay m)])"
proof -
  let ?c = "ctx\<lparr>jst := (if m = Obj then JPS_OSTART else JPS_ASTART),
     jty := (if m = Obj then JSON_OBJECT else JSON_ARRAY), nest := nest ctx + 1\<rparr>"
  have w: "watched inp stk ?c" using assms(1) by (simp add: watched_def)
  then have cb: "fst (sel ?c) = Some k" by (rule assms(2))
  have st: "(if m = Obj then ostart_cb ?c else astart_cb ?c) = Some (start_kind m)"
    using w by (simp add: watched_def start_kind_def)
  have ob: "observed ?c = mode_pay m" by (simp add: observed_def mode_pay_def)
  show ?thesis
    unfolding report_start_def Let_def st jcall_def recorder_def option.case prod.case cb ob
    by (simp add: opened_def)
qed

lemma value_cb_of: "watched inp stk c \<Longrightarrow> value_cb c = Some KValue" "watched inp stk c \<Longrightarrow> item_cb c = Some KItem"
  by (simp_all add: watched_def)

lemma start_step:
  assumes "ready ctx (open_char m' # r)" "value_at m (jst ctx)"
  shows "mode_step sd m (open_char m') ctx w =
    Some (Nested m' (opened m' ctx, w @ [(start_kind m', nest ctx + 1, mode_pay m'), (value_kind m, nest ctx + 1, mode_pay m')]))"
proof -
  have wt: "watched (jin ctx) (stack ctx) ctx" using assms(1) by (simp add: ready_def)
  have rs: "report_start recorder mm f1 f2 (\<lambda>c. (value_cb c, value_udata c)) ctx w =
      Nested mm (opened mm ctx, w @ [(start_kind mm, nest ctx + 1, mode_pay mm), (KValue, nest ctx + 1, mode_pay mm)])"
    "report_start recorder mm f1 f2 (\<lambda>c. (item_cb c, item_udata c)) ctx w =
      Nested mm (opened mm ctx, w @ [(start_kind mm, nest ctx + 1, mode_pay mm), (KItem, nest ctx + 1, mode_pay mm)])" for mm f1 f2
    by (rule record_start [OF wt], simp add: watched_def)+
  have "m' = Obj \<or> m' = Arr" by (cases m') simp_all
  then show ?thesis using assms(2) rs
    by (cases m)
      (auto simp: mode_step_def value_at_def value_kind_def open_char_def obj_step_def arr_step_def obj_value_def arr_item_def)
qed

subsection \<open>Scalars\<close>

lemma value_step_str:
  assumes rd: "ready ctx (34 # s @ 34 # c # r)" and cl: "closed s" and st: "value_at m (jst ctx)"
  shows "\<exists>ctx'. mode_step sd m 34 ctx w = Some (Next (ctx', w @ [(value_kind m, nest ctx + 1, PStr s)]))
    \<and> holds_value (jin ctx) (stack ctx) ctx (34 # s @ [34]) (PStr s) ctx'"
proof -
  have wt: "watched (jin ctx) (stack ctx) ctx" and tx: "ahead_text ctx = 34 # s @ 34 # c # r"
    using rd by (simp_all add: ready_def)
  from scan_str_reads [OF wt tx cl] obtain c1 where c1: "scan_str ctx = Some (rc_ok, c1)"
    "holds_value (jin ctx) (stack ctx) ctx (34 # s @ [34]) (PStr s) (c1\<lparr>vend := jidx c1\<rparr>)" by blast
  let ?c = "c1\<lparr>vend := jidx c1\<rparr>"
  have h: "watched (jin ctx) (stack ctx) ?c" "nest ?c = nest ctx" "observed ?c = PStr s"
    using c1(2) unfolding holds_value_def by blast+
  have dig: "\<not> JSN_ISDIGIT 34" by (simp add: JSN_ISDIGIT_def)
  have "mode_step sd m 34 ctx w = Some (Next (?c, w @ [(value_kind m, nest ctx + 1, PStr s)]))"
    using st c1(1) value_cb_of [OF h(1)] h(2,3)
    by (cases m) (auto simp: mode_step_def value_at_def value_kind_def obj_step_def arr_step_def obj_value_def
        arr_item_def record_scalar Let_def)
  then show ?thesis using c1(2) by blast
qed

lemma value_step_num:
  assumes rd: "ready ctx (t @ c # r)" and t: "num_text t" and c: "\<not> num_char c"
    and sd: "\<not> int_text t \<Longrightarrow> sd (t @ c # r) = Some (num_value sd t)"
    and st: "value_at m (jst ctx)"
  shows "\<exists>ctx'. mode_step sd m (hd t) ctx w = Some (Next (ctx', w @ [(value_kind m, nest ctx + 1, pay sd (JNum t))]))
    \<and> holds_value (jin ctx) (stack ctx) ctx t (pay sd (JNum t)) ctx'"
proof -
  have wt: "watched (jin ctx) (stack ctx) ctx" and tx: "ahead_text ctx = t @ c # r" and sz: "length (jin ctx) < 2 ^ 64"
    using rd by (simp_all add: ready_def)
  have "\<exists>ctx'. scan_num sd bad ctx = Some (rc_ok, ctx') \<and> holds_value (jin ctx) (stack ctx) ctx t (pay sd (JNum t)) ctx'" for bad
    by (rule scan_num_reads [OF wt tx t c sd sz])
  then obtain c1 where c1: "scan_num sd bad ctx = Some (rc_ok, c1 bad)"
    "holds_value (jin ctx) (stack ctx) ctx t (pay sd (JNum t)) (c1 bad)" for bad by metis
  have h: "watched (jin ctx) (stack ctx) (c1 bad)" "nest (c1 bad) = nest ctx" "observed (c1 bad) = pay sd (JNum t)" for bad
    using c1(2) by (simp_all add: holds_value_def del: pay.simps)
  have x: "JSN_ISDIGIT (hd t) \<or> hd t = 45" using t by (cases t) simp_all
  moreover have "\<not> JSN_ISDIGIT 123 \<and> \<not> JSN_ISDIGIT 91 \<and> \<not> JSN_ISDIGIT 34 \<and> \<not> JSN_ISDIGIT 93" by (simp add: JSN_ISDIGIT_def)
  ultimately have ne: "hd t \<noteq> 123" "hd t \<noteq> 91" "hd t \<noteq> 34" "hd t \<noteq> 93" by auto
  have "mode_step sd m (hd t) ctx w =
      Some (Next (c1 (if m = Obj then OBJ_FAIL 3 else ARR_FAIL 8), w @ [(value_kind m, nest ctx + 1, pay sd (JNum t))]))"
    using st c1(1) value_cb_of [OF h(1)] h(2,3) x ne
    by (cases m) (auto simp: mode_step_def value_at_def value_kind_def obj_step_def arr_step_def obj_value_def
        arr_item_def record_scalar simp del: pay.simps)
  then show ?thesis using c1(2) by blast
qed

lemma value_step_tok:
  assumes rd: "ready ctx (t @ c # r)" and t: "t \<in> {lit_true, lit_false, lit_null}" and c: "\<not> tok_char c"
    and st: "value_at m (jst ctx)"
  shows "\<exists>ctx'. mode_step sd m (hd t) ctx w = Some (Next (ctx', w @ [(value_kind m, nest ctx + 1, pay sd (JTok t))]))
    \<and> holds_value (jin ctx) (stack ctx) ctx t (pay sd (JTok t)) ctx'"
proof -
  have wt: "watched (jin ctx) (stack ctx) ctx" and tx: "ahead_text ctx = t @ c # r" and sz: "length (jin ctx) < 2 ^ 64"
    using rd by (simp_all add: ready_def)
  from scan_tok_reads [OF wt tx t c sz] obtain c1 where c1: "scan_tok ctx = Some (rc_ok, c1)"
    "holds_value (jin ctx) (stack ctx) ctx t (pay sd (JTok t)) c1" by blast
  have h: "watched (jin ctx) (stack ctx) c1" "nest c1 = nest ctx" "observed c1 = pay sd (JTok t)"
    using c1(2) by (simp_all add: holds_value_def del: pay.simps)
  have "hd t = 116 \<or> hd t = 102 \<or> hd t = 110" using t by (auto simp: lit_true_def lit_false_def lit_null_def)
  then have x: "JSN_ISALPHA (hd t)" "\<not> JSN_ISDIGIT (hd t)" "hd t \<noteq> 123" "hd t \<noteq> 91" "hd t \<noteq> 34" "hd t \<noteq> 93" "hd t \<noteq> 45"
    by (auto simp: JSN_ISALPHA_def JSN_ISDIGIT_def)
  have "mode_step sd m (hd t) ctx w = Some (Next (c1, w @ [(value_kind m, nest ctx + 1, pay sd (JTok t))]))"
    using st c1(1) value_cb_of [OF h(1)] h(2,3) x
    by (cases m) (auto simp: mode_step_def value_at_def value_kind_def obj_step_def arr_step_def obj_value_def
        arr_item_def record_scalar simp del: pay.simps)
  then show ?thesis using c1(2) by blast
qed

lemma value_passes:
  assumes "ready ctx (t @ r)" "hd t \<noteq> 0" "t \<noteq> []"
    and "\<exists>ctx'. mode_step sd m (hd t) ctx w = Some (Next (ctx', w @ e)) \<and> holds_value (jin ctx) (stack ctx) ctx t p ctx'"
  shows "passes sd m ctx w t JPS_OUT e"
proof -
  obtain ctx' where c: "mode_step sd m (hd t) ctx w = Some (Next (ctx', w @ e))" "holds_value (jin ctx) (stack ctx) ctx t p ctx'"
    using assms(4) by blast
  have "ready ctx (hd t # (tl t @ r))" using assms(1,3) by (cases t) simp_all
  moreover have "jidx ctx' = jidx ctx + (length t - 1)" using c(2) assms(3) by (cases t) (simp_all add: holds_value_def)
  ultimately show ?thesis
    using c assms(2,3) by (intro next_passes [where n = "length t - 1" and ?ctx1.0 = ctx']) (auto simp: moved_def holds_value_def)
qed

subsection \<open>Structure\<close>

lemma container_passes:
  assumes rd: "ready ctx (open_char m' # b @ r)" and st: "value_at m (jst ctx)" and b: "b \<noteq> []"
    and body: "closes sd m' (opened m' ctx) (w @ [(start_kind m', nest ctx + 1, mode_pay m'), (value_kind m, nest ctx + 1, mode_pay m')]) b e"
  shows "passes sd m ctx w (open_char m' # b) JPS_OUT
    ((start_kind m', nest ctx + 1, mode_pay m') # (value_kind m, nest ctx + 1, mode_pay m') # e)"
proof -
  have oc: "open_char m' \<noteq> 0" by (simp add: open_char_def)
  note step = parse_step [OF rd oc start_step [OF rd st, of sd w]]
  obtain c where c: "parse_loop recorder sd m' (opened m' ctx)
      (w @ [(start_kind m', nest ctx + 1, mode_pay m'), (value_kind m, nest ctx + 1, mode_pay m')])
      = Some (rc_ok, c, (w @ [(start_kind m', nest ctx + 1, mode_pay m'), (value_kind m, nest ctx + 1, mode_pay m')]) @ e)"
    "moved (opened m' ctx) (length b - 1) c" "JPS_OUT (jst c)" "nest c = nest (opened m' ctx) - 1"
    using body unfolding closes_def by blast
  have mv: "moved ctx (length (open_char m' # b)) (next_idx c)"
    using c(2) b by (cases b) (auto simp: moved_def watched_def next_idx_def opened_def)
  have "parse_loop recorder sd m ctx w = parse_loop recorder sd m (next_idx c)
      (w @ (start_kind m', nest ctx + 1, mode_pay m') # (value_kind m, nest ctx + 1, mode_pay m') # e)"
    using step c(1) by simp
  then show ?thesis using mv c(3,4) unfolding passes_def
    by (intro exI [of _ "next_idx c"]) (simp add: next_idx_def opened_def)
qed

lemma ready_opened: "ready ctx (open_char m # t) \<Longrightarrow> ready (opened m ctx) t"
  using ahead_text_Cons(3) [of ctx "open_char m" t] by (simp add: ready_def opened_def watched_def ahead_text_def)

definition close_char :: "jmode \<Rightarrow> u8" where
  "close_char m = (if m = Obj then 125 else 93)"

definition open_state :: "jmode \<Rightarrow> jps" where
  "open_state m = (if m = Obj then JPS_OSTART else JPS_ASTART)"

lemma close_closes:
  assumes rd: "ready ctx (close_char m # r)" and st: "jst ctx = open_state m \<or> JPS_OUT (jst ctx)"
  shows "closes sd m ctx w [close_char m] [(stop_kind m, nest ctx, mode_pay m)]"
proof -
  have wt: "watched (jin ctx) (stack ctx) ctx" using rd by (simp add: ready_def)
  let ?c = "ctx\<lparr>jst := (if m = Obj then JPS_OSTOP else JPS_ASTOP), jty := (if m = Obj then JSON_OBJECT else JSON_ARRAY)\<rparr>"
  have cb: "ostop_cb ctx = Some KOstop" "astop_cb ctx = Some KAstop" using wt by (simp_all add: watched_def)
  have ob: "observed ?c = mode_pay m" by (simp add: observed_def mode_pay_def)
  have "mode_step sd m (close_char m) ctx w =
      Some (Leave (?c\<lparr>nest := nest ctx - 1\<rparr>, w @ [(stop_kind m, nest ctx, mode_pay m)]))"
    using st ob cb
    by (cases m) (auto simp: mode_step_def close_char_def open_state_def stop_kind_def obj_step_def arr_step_def arr_item_def
        obj_stop_def arr_stop_def record_stop JPS_OUT_def)
  moreover have "close_char m \<noteq> 0" by (simp add: close_char_def)
  moreover have "moved ctx 0 (?c\<lparr>nest := nest ctx - 1\<rparr>)" using wt by (simp add: moved_def watched_def)
  ultimately show ?thesis using rd by (intro leave_closes) auto
qed

lemma comma_passes:
  assumes rd: "ready ctx (44 # r)" and st: "JPS_OUT (jst ctx)"
  shows "passes sd m ctx w [44] (\<lambda>s. s = JPS_ENEXT) []"
proof -
  have "mode_step sd m 44 ctx w = Some (Next (ctx\<lparr>jst := JPS_ENEXT\<rparr>, w @ []))"
    using st by (cases m) (auto simp: mode_step_def obj_step_def arr_step_def JPS_OUT_def)
  then show ?thesis using rd by (intro next_passes [where n = 0 and ?ctx1.0 = "ctx\<lparr>jst := JPS_ENEXT\<rparr>"]) (auto simp: moved_def ready_def watched_def)
qed

lemma colon_passes:
  assumes rd: "ready ctx (58 # r)" and st: "jst ctx = JPS_KEYOUT"
  shows "passes sd Obj ctx w [58] (\<lambda>s. s = JPS_EVALUE) []"
proof -
  have "mode_step sd Obj 58 ctx w = Some (Next (ctx\<lparr>jst := JPS_EVALUE\<rparr>, w @ []))"
    using st by (simp add: mode_step_def obj_step_def)
  then show ?thesis using rd by (intro next_passes [where n = 0 and ?ctx1.0 = "ctx\<lparr>jst := JPS_EVALUE\<rparr>"]) (auto simp: moved_def ready_def watched_def)
qed

lemma key_passes:
  assumes rd: "ready ctx (34 # k @ 34 # r)" and cl: "closed k" and st: "jst ctx = JPS_OSTART \<or> jst ctx = JPS_ENEXT"
  shows "passes sd Obj ctx w (34 # k @ [34]) (\<lambda>s. s = JPS_KEYOUT) [(KKey, nest ctx + 1, PStr k)]"
proof -
  have wt: "watched (jin ctx) (stack ctx) ctx" and tx: "ahead_text ctx = 34 # k @ 34 # r"
    using rd by (simp_all add: ready_def)
  from scan_str_reads [OF wt tx cl] obtain c1 where c1: "scan_str ctx = Some (rc_ok, c1)"
    "holds_value (jin ctx) (stack ctx) ctx (34 # k @ [34]) (PStr k) (c1\<lparr>vend := jidx c1\<rparr>)" "watched (jin ctx) (stack ctx) c1" by blast
  let ?c = "c1\<lparr>jst := JPS_KEYOUT, vend := jidx c1\<rparr>"
  have ob: "observed ?c = PStr k" "nest c1 = nest ctx" "Suc (jidx c1) = jidx ctx + length (34 # k @ [34])"
  proof -
    have "observed ?c = observed (c1\<lparr>vend := jidx c1\<rparr>)" by (simp add: observed_def split: json_type.split vword.split)
    then show "observed ?c = PStr k" using c1(2) unfolding holds_value_def by simp
    show "nest c1 = nest ctx" "Suc (jidx c1) = jidx ctx + length (34 # k @ [34])" using c1(2) by (simp_all add: holds_value_def)
  qed
  have "key_cb c1 = Some KKey" using c1(3) by (simp add: watched_def)
  then have "mode_step sd Obj 34 ctx w = Some (Next (?c, w @ [(KKey, nest ctx + 1, PStr k)]))"
    using st c1(1) ob by (auto simp: mode_step_def obj_step_def obj_key_def record_scalar)
  moreover have "moved ctx (length k + 1) ?c" using c1(3) ob(3) by (simp add: moved_def watched_def)
  ultimately show ?thesis using rd ob(2) by (intro next_passes [where n = "length k + 1" and ?ctx1.0 = ?c]) auto
qed

subsection \<open>Values\<close>

lemma stop_char_simps [simp]: "stop_char 44" "stop_char 93" "stop_char 125"
  by (simp_all add: stop_char_def)

lemma blank_tail_stop: "blank ws \<Longrightarrow> stop_char d \<Longrightarrow> \<exists>c. (\<exists>r. ws @ d # t = c # r) \<and> stop_char c"
  by (cases ws) (auto simp: blank_def JSN_ISSPACE_def stop_char_def)

lemma arr_tail_stop: "arr_tail vs r \<Longrightarrow> \<exists>c r'. r = c # r' \<and> stop_char c"
  by (erule arr_tail.cases) (auto intro!: blank_tail_stop)

lemma obj_tail_stop: "obj_tail ms r \<Longrightarrow> \<exists>c r'. r = c # r' \<and> stop_char c"
  by (erule obj_tail.cases) (auto intro!: blank_tail_stop)

lemma body_not_Nil: "arr_body vs b \<Longrightarrow> b \<noteq> []" "obj_body ms b \<Longrightarrow> b \<noteq> []"
  by (erule arr_body.cases, auto dest: arr_tail_stop) (erule obj_body.cases, auto)

text \<open>Texts that pass, one behind the other, and the closing one; white space in front.\<close>

lemma blank_closes:
  fixes ctx :: "(ev_kind, 'u, 'f, 'o) jctx"
  assumes "blank ws" "ready ctx ((ws @ t) @ r)" "blank_state m (jst ctx)" "t \<noteq> []"
    and "\<And>c :: (ev_kind, 'u, 'f, 'o) jctx. ready c (t @ r) \<Longrightarrow> jst c = jst ctx \<Longrightarrow> nest c = nest ctx \<Longrightarrow> closes sd m c w t e"
  shows "closes sd m ctx w (ws @ t) e"
proof -
  have "passes sd m ctx w ws (\<lambda>s. s = jst ctx) []" using assms(1-3) by (intro blank_passes [where r = "t @ r"]) simp_all
  from passes_closes [OF this, of "t @ r" t e] assms(2,4,5) show ?thesis by simp
qed

lemma then_closes:
  fixes ctx :: "(ev_kind, 'u, 'f, 'o) jctx"
  assumes "passes sd m ctx w s st e1" "ready ctx ((s @ t) @ r)" "t \<noteq> []"
    and "\<And>c :: (ev_kind, 'u, 'f, 'o) jctx. ready c (t @ r) \<Longrightarrow> st (jst c) \<Longrightarrow> nest c = nest ctx \<Longrightarrow> closes sd m c (w @ e1) t e2"
  shows "closes sd m ctx w (s @ t) (e1 @ e2)"
  using assms by (intro passes_closes [where r = "t @ r" and st = st]) simp_all

text \<open>What the induction says of a value, and of the elements of an array or object.\<close>

definition value_law :: "(u8 list \<Rightarrow> 'f option) \<Rightarrow> (ev_kind, 'u, 'f, 'o) jctx itself \<Rightarrow> json \<Rightarrow> u8 list \<Rightarrow> bool" where
  "value_law sd ty v t \<longleftrightarrow>
     (\<forall>(ctx :: (ev_kind, 'u, 'f, 'o) jctx) w m c r. ready ctx (t @ c # r) \<longrightarrow> value_at m (jst ctx) \<longrightarrow> stop_char c
        \<longrightarrow> passes sd m ctx w t JPS_OUT (events sd (value_kind m) (nest ctx) v))"

definition elems_law ::
  "(u8 list \<Rightarrow> 'f option) \<Rightarrow> (ev_kind, 'u, 'f, 'o) jctx itself \<Rightarrow> jmode \<Rightarrow> (jps \<Rightarrow> bool) \<Rightarrow> (int \<Rightarrow> 'f event list) \<Rightarrow> u8 list \<Rightarrow> bool" where
  "elems_law sd ty m st evs b \<longleftrightarrow>
     (\<forall>(ctx :: (ev_kind, 'u, 'f, 'o) jctx) w r. ready ctx (b @ r) \<longrightarrow> st (jst ctx)
        \<longrightarrow> closes sd m ctx w b (evs (nest ctx) @ [(stop_kind m, nest ctx, mode_pay m)]))"

lemma value_lawD:
  fixes ctx :: "(ev_kind, 'u, 'f, 'o) jctx"
  assumes "value_law sd TYPE((ev_kind, 'u, 'f, 'o) jctx) v t" "ready ctx (t @ c # r)" "value_at m (jst ctx)" "stop_char c"
  shows "passes sd m ctx w t JPS_OUT (events sd (value_kind m) (nest ctx) v)"
  using assms unfolding value_law_def by blast

lemma elems_lawD:
  fixes ctx :: "(ev_kind, 'u, 'f, 'o) jctx"
  assumes "elems_law sd TYPE((ev_kind, 'u, 'f, 'o) jctx) m st evs b" "ready ctx (b @ r)" "st (jst ctx)" "n = nest ctx"
  shows "closes sd m ctx w b (evs n @ [(stop_kind m, n, mode_pay m)])"
  using assms unfolding elems_law_def by blast

lemma elems_lawI:
  assumes "\<And>(ctx :: (ev_kind, 'u, 'f, 'o) jctx) w r. ready ctx (b @ r) \<Longrightarrow> st (jst ctx)
    \<Longrightarrow> closes sd m ctx w b (evs (nest ctx) @ [(stop_kind m, nest ctx, mode_pay m)])"
  shows "elems_law sd TYPE((ev_kind, 'u, 'f, 'o) jctx) m st evs b"
  using assms unfolding elems_law_def by blast

lemma end_law:
  assumes ws: "blank ws" and st: "\<And>s. st s \<Longrightarrow> s = open_state m \<or> JPS_OUT s"
  shows "elems_law sd TYPE((ev_kind, 'u, 'f, 'o) jctx) m st (\<lambda>_. []) (ws @ [close_char m])"
proof (rule elems_lawI)
  fix ctx :: "(ev_kind, 'u, 'f, 'o) jctx" and w r
  assume rd: "ready ctx ((ws @ [close_char m]) @ r)" and "st (jst ctx)"
  then have s: "jst ctx = open_state m \<or> JPS_OUT (jst ctx)" using st by blast
  then have "blank_state m (jst ctx)" by (auto simp: blank_state_def open_state_def value_at_def)
  then show "closes sd m ctx w (ws @ [close_char m]) ([] @ [(stop_kind m, nest ctx, mode_pay m)])"
  proof (intro blank_closes [OF ws rd])
    fix c :: "(ev_kind, 'u, 'f, 'o) jctx"
    assume c: "ready c ([close_char m] @ r)" "jst c = jst ctx" "nest c = nest ctx"
    then show "closes sd m c w [close_char m] ([] @ [(stop_kind m, nest ctx, mode_pay m)])"
      using close_closes [of c m r sd w] s by simp
  qed simp_all
qed

lemma elem_closes:
  fixes ctx :: "(ev_kind, 'u, 'f, 'o) jctx"
  assumes v: "value_law sd TYPE((ev_kind, 'u, 'f, 'o) jctx) v t"
    and tl: "elems_law sd TYPE((ev_kind, 'u, 'f, 'o) jctx) m JPS_OUT evs z" "\<exists>c r'. z = c # r' \<and> stop_char c"
    and rd: "ready ctx ((t @ z) @ r)" and st: "value_at m (jst ctx)" and n: "nest ctx = n"
  shows "closes sd m ctx w (t @ z) (events sd (value_kind m) n v @ evs n @ [(stop_kind m, n, mode_pay m)])"
proof -
  obtain c r' where c: "z = c # r'" "stop_char c" using tl(2) by blast
  have "passes sd m ctx w t JPS_OUT (events sd (value_kind m) (nest ctx) v)"
    using rd c by (intro value_lawD [OF v _ st, of c "r' @ r"]) simp_all
  then have "closes sd m ctx w (t @ z) (events sd (value_kind m) (nest ctx) v @ evs n @ [(stop_kind m, n, mode_pay m)])"
  proof (rule then_closes [where r = r])
    fix c' :: "(ev_kind, 'u, 'f, 'o) jctx"
    assume "ready c' (z @ r)" "JPS_OUT (jst c')" "nest c' = nest ctx"
    then show "closes sd m c' (w @ events sd (value_kind m) (nest ctx) v) z (evs n @ [(stop_kind m, n, mode_pay m)])"
      using n by (intro elems_lawD [OF tl(1), of _ r]) simp_all
  qed (use rd c(1) in simp_all)
  then show ?thesis by (simp add: n)
qed

lemma arr_first_law:
  assumes ws: "blank ws" and v: "value_law sd TYPE((ev_kind, 'u, 'f, 'o) jctx) v t"
    and tl: "elems_law sd TYPE((ev_kind, 'u, 'f, 'o) jctx) Arr JPS_OUT evs z" "\<exists>c r'. z = c # r' \<and> stop_char c"
  shows "elems_law sd TYPE((ev_kind, 'u, 'f, 'o) jctx) Arr (\<lambda>s. s = JPS_ASTART) (\<lambda>n. events sd KItem n v @ evs n) (ws @ t @ z)"
proof (rule elems_lawI)
  fix ctx :: "(ev_kind, 'u, 'f, 'o) jctx" and w r
  assume rd: "ready ctx ((ws @ t @ z) @ r)" and st: "jst ctx = JPS_ASTART"
  have ne: "t @ z \<noteq> []" using tl(2) by auto
  show "closes sd Arr ctx w (ws @ t @ z) ((events sd KItem (nest ctx) v @ evs (nest ctx)) @ [(stop_kind Arr, nest ctx, mode_pay Arr)])"
  proof (rule blank_closes [OF ws rd _ ne])
    fix c :: "(ev_kind, 'u, 'f, 'o) jctx"
    assume "ready c ((t @ z) @ r)" "jst c = jst ctx" "nest c = nest ctx"
    then show "closes sd Arr c w (t @ z) ((events sd KItem (nest ctx) v @ evs (nest ctx)) @ [(stop_kind Arr, nest ctx, mode_pay Arr)])"
      using elem_closes [OF v tl, of c r "nest ctx" w] st by (simp add: value_at_def value_kind_def)
  qed (use st in \<open>simp add: blank_state_def value_at_def\<close>)
qed

lemma comma_closes:
  fixes ctx :: "(ev_kind, 'u, 'f, 'o) jctx"
  assumes ws: "blank ws" "blank ws'" and rd: "ready ctx ((ws @ 44 # ws' @ t) @ r)" and st: "JPS_OUT (jst ctx)" and ne: "t \<noteq> []"
    and bl: "blank_state m JPS_ENEXT"
    and t: "\<And>c :: (ev_kind, 'u, 'f, 'o) jctx. ready c (t @ r) \<Longrightarrow> jst c = JPS_ENEXT \<Longrightarrow> nest c = nest ctx \<Longrightarrow> closes sd m c w t e"
  shows "closes sd m ctx w (ws @ 44 # ws' @ t) e"
proof (rule blank_closes [OF ws(1) rd])
  fix c :: "(ev_kind, 'u, 'f, 'o) jctx"
  assume c: "ready c ((44 # ws' @ t) @ r)" "jst c = jst ctx" "nest c = nest ctx"
  have "passes sd m c w [44] (\<lambda>s. s = JPS_ENEXT) []" using c st by (intro comma_passes [where r = "ws' @ t @ r"]) simp_all
  then have "closes sd m c w ([44] @ ws' @ t) ([] @ e)"
  proof (rule then_closes [where r = r])
    fix c' :: "(ev_kind, 'u, 'f, 'o) jctx"
    assume c': "ready c' ((ws' @ t) @ r)" "jst c' = JPS_ENEXT" "nest c' = nest c"
    show "closes sd m c' (w @ []) (ws' @ t) e"
      using c' c(3) bl ne by (intro blank_closes [OF ws(2) c'(1)]) (auto intro: t)
  qed (use c ne in simp_all)
  then show "closes sd m c w (44 # ws' @ t) e" by simp
qed (use st in \<open>simp_all add: blank_state_def\<close>)

lemma arr_next_law:
  assumes ws: "blank ws" "blank ws'" and v: "value_law sd TYPE((ev_kind, 'u, 'f, 'o) jctx) v t"
    and tl: "elems_law sd TYPE((ev_kind, 'u, 'f, 'o) jctx) Arr JPS_OUT evs z" "\<exists>c r'. z = c # r' \<and> stop_char c"
  shows "elems_law sd TYPE((ev_kind, 'u, 'f, 'o) jctx) Arr JPS_OUT (\<lambda>n. events sd KItem n v @ evs n) (ws @ 44 # ws' @ t @ z)"
proof (rule elems_lawI)
  fix ctx :: "(ev_kind, 'u, 'f, 'o) jctx" and w r
  assume rd: "ready ctx ((ws @ 44 # ws' @ t @ z) @ r)" and st: "JPS_OUT (jst ctx)"
  have ne: "t @ z \<noteq> []" using tl(2) by auto
  show "closes sd Arr ctx w (ws @ 44 # ws' @ t @ z) ((events sd KItem (nest ctx) v @ evs (nest ctx)) @ [(stop_kind Arr, nest ctx, mode_pay Arr)])"
  proof (rule comma_closes [OF ws rd st ne])
    fix c :: "(ev_kind, 'u, 'f, 'o) jctx"
    assume "ready c ((t @ z) @ r)" "jst c = JPS_ENEXT" "nest c = nest ctx"
    then show "closes sd Arr c w (t @ z) ((events sd KItem (nest ctx) v @ evs (nest ctx)) @ [(stop_kind Arr, nest ctx, mode_pay Arr)])"
      using elem_closes [OF v tl, of c r "nest ctx" w] by (simp add: value_at_def value_kind_def)
  qed (simp add: blank_state_def value_at_def)
qed

lemma member_closes:
  fixes ctx :: "(ev_kind, 'u, 'f, 'o) jctx"
  assumes k: "closed k" and ws: "blank ws1" "blank ws2" and v: "value_law sd TYPE((ev_kind, 'u, 'f, 'o) jctx) v t"
    and tl: "elems_law sd TYPE((ev_kind, 'u, 'f, 'o) jctx) Obj JPS_OUT evs z" "\<exists>c r'. z = c # r' \<and> stop_char c"
    and rd: "ready ctx ((34 # k @ 34 # ws1 @ 58 # ws2 @ t @ z) @ r)" and st: "jst ctx = JPS_OSTART \<or> jst ctx = JPS_ENEXT"
    and n: "nest ctx = n"
  shows "closes sd Obj ctx w (34 # k @ 34 # ws1 @ 58 # ws2 @ t @ z)
    (events_member sd n (Member k v) @ evs n @ [(stop_kind Obj, n, mode_pay Obj)])"
proof -
  let ?e = "events sd KValue n v @ evs n @ [(stop_kind Obj, n, mode_pay Obj)]"
  have ne: "t @ z \<noteq> []" using tl(2) by auto
  have val: "closes sd Obj c w' (ws2 @ t @ z) ?e"
    if c: "ready c ((ws2 @ t @ z) @ r)" "jst c = JPS_EVALUE" "nest c = n" for c :: "(ev_kind, 'u, 'f, 'o) jctx" and w'
  proof (rule blank_closes [OF ws(2) c(1) _ ne])
    fix c' :: "(ev_kind, 'u, 'f, 'o) jctx"
    assume "ready c' ((t @ z) @ r)" "jst c' = jst c" "nest c' = nest c"
    then show "closes sd Obj c' w' (t @ z) ?e"
      using elem_closes [OF v tl, of c' r n w'] c by (simp add: value_at_def value_kind_def)
  qed (use c in \<open>simp add: blank_state_def value_at_def\<close>)
  have col: "closes sd Obj c w' (58 # ws2 @ t @ z) ?e"
    if c: "ready c ((58 # ws2 @ t @ z) @ r)" "jst c = JPS_KEYOUT" "nest c = n" for c :: "(ev_kind, 'u, 'f, 'o) jctx" and w'
  proof -
    have "passes sd Obj c w' [58] (\<lambda>s. s = JPS_EVALUE) []" using c by (intro colon_passes [where r = "ws2 @ t @ z @ r"]) simp_all
    then have "closes sd Obj c w' ([58] @ ws2 @ t @ z) ([] @ ?e)"
      by (rule then_closes [where r = r]) (use c ne val in simp_all)
    then show ?thesis by simp
  qed
  have key: "closes sd Obj c w' (ws1 @ 58 # ws2 @ t @ z) ?e"
    if c: "ready c ((ws1 @ 58 # ws2 @ t @ z) @ r)" "jst c = JPS_KEYOUT" "nest c = n" for c :: "(ev_kind, 'u, 'f, 'o) jctx" and w'
    using c col by (intro blank_closes [OF ws(1) c(1)]) (simp_all add: blank_state_def)
  have "passes sd Obj ctx w (34 # k @ [34]) (\<lambda>s. s = JPS_KEYOUT) [(KKey, nest ctx + 1, PStr k)]"
    using rd st k by (intro key_passes [where r = "ws1 @ 58 # ws2 @ t @ z @ r"]) simp_all
  then have "closes sd Obj ctx w ((34 # k @ [34]) @ ws1 @ 58 # ws2 @ t @ z) ([(KKey, nest ctx + 1, PStr k)] @ ?e)"
    by (rule then_closes [where r = r]) (use rd key n in simp_all)
  then show ?thesis by (simp add: n)
qed

lemma obj_first_law:
  assumes ws: "blank ws" and m: "closed k" "blank ws1" "blank ws2" "value_law sd TYPE((ev_kind, 'u, 'f, 'o) jctx) v t"
    and tl: "elems_law sd TYPE((ev_kind, 'u, 'f, 'o) jctx) Obj JPS_OUT evs z" "\<exists>c r'. z = c # r' \<and> stop_char c"
  shows "elems_law sd TYPE((ev_kind, 'u, 'f, 'o) jctx) Obj (\<lambda>s. s = JPS_OSTART)
    (\<lambda>n. events_member sd n (Member k v) @ evs n) (ws @ 34 # k @ 34 # ws1 @ 58 # ws2 @ t @ z)"
proof (rule elems_lawI)
  fix ctx :: "(ev_kind, 'u, 'f, 'o) jctx" and w r
  let ?t = "34 # k @ 34 # ws1 @ 58 # ws2 @ t @ z"
  let ?e = "(events_member sd (nest ctx) (Member k v) @ evs (nest ctx)) @ [(stop_kind Obj, nest ctx, mode_pay Obj)]"
  assume rd: "ready ctx ((ws @ ?t) @ r)" and st: "jst ctx = JPS_OSTART"
  show "closes sd Obj ctx w (ws @ ?t) ?e"
  proof (rule blank_closes [OF ws rd])
    fix c :: "(ev_kind, 'u, 'f, 'o) jctx"
    assume "ready c (?t @ r)" "jst c = jst ctx" "nest c = nest ctx"
    then show "closes sd Obj c w ?t ?e"
      using member_closes [OF m tl, of c r "nest ctx" w] st by simp
  qed (use st in \<open>simp_all add: blank_state_def\<close>)
qed

lemma obj_next_law:
  assumes ws: "blank ws" "blank ws'"
    and m: "closed k" "blank ws1" "blank ws2" "value_law sd TYPE((ev_kind, 'u, 'f, 'o) jctx) v t"
    and tl: "elems_law sd TYPE((ev_kind, 'u, 'f, 'o) jctx) Obj JPS_OUT evs z" "\<exists>c r'. z = c # r' \<and> stop_char c"
  shows "elems_law sd TYPE((ev_kind, 'u, 'f, 'o) jctx) Obj JPS_OUT
    (\<lambda>n. events_member sd n (Member k v) @ evs n) (ws @ 44 # ws' @ 34 # k @ 34 # ws1 @ 58 # ws2 @ t @ z)"
proof (rule elems_lawI)
  fix ctx :: "(ev_kind, 'u, 'f, 'o) jctx" and w r
  let ?t = "34 # k @ 34 # ws1 @ 58 # ws2 @ t @ z"
  let ?e = "(events_member sd (nest ctx) (Member k v) @ evs (nest ctx)) @ [(stop_kind Obj, nest ctx, mode_pay Obj)]"
  assume rd: "ready ctx ((ws @ 44 # ws' @ ?t) @ r)" and st: "JPS_OUT (jst ctx)"
  show "closes sd Obj ctx w (ws @ 44 # ws' @ ?t) ?e"
  proof (rule comma_closes [OF ws rd st])
    fix c :: "(ev_kind, 'u, 'f, 'o) jctx"
    assume "ready c (?t @ r)" "jst c = JPS_ENEXT" "nest c = nest ctx"
    then show "closes sd Obj c w ?t ?e"
      using member_closes [OF m tl, of c r "nest ctx" w] by simp
  qed (simp_all add: blank_state_def)
qed

text \<open>A scalar, and a container from the law of its body.\<close>

lemma container_law:
  assumes b: "elems_law sd TYPE((ev_kind, 'u, 'f, 'o) jctx) m' (\<lambda>s. s = open_state m') evs b" and ne: "b \<noteq> []"
    and ev: "\<And>k n. events sd k n v = (start_kind m', n + 1, mode_pay m') # (k, n + 1, mode_pay m') # evs (n + 1)
      @ [(stop_kind m', n + 1, mode_pay m')]"
  shows "value_law sd TYPE((ev_kind, 'u, 'f, 'o) jctx) v (open_char m' # b)"
  unfolding value_law_def
proof (intro allI impI)
  fix ctx :: "(ev_kind, 'u, 'f, 'o) jctx" and w m c r
  assume rd: "ready ctx ((open_char m' # b) @ c # r)" and st: "value_at m (jst ctx)"
  have rd': "ready ctx (open_char m' # b @ c # r)" using rd by simp
  have "jst (opened m' ctx) = open_state m'" "nest (opened m' ctx) = nest ctx + 1"
    by (simp_all add: opened_def open_state_def)
  then have "closes sd m' (opened m' ctx) (w @ [(start_kind m', nest ctx + 1, mode_pay m'), (value_kind m, nest ctx + 1, mode_pay m')]) b
      (evs (nest ctx + 1) @ [(stop_kind m', nest ctx + 1, mode_pay m')])"
    by (intro elems_lawD [OF b ready_opened [OF rd']]) simp_all
  from container_passes [OF rd' st ne this] show "passes sd m ctx w (open_char m' # b) JPS_OUT (events sd (value_kind m) (nest ctx) v)"
    by (simp add: ev)
qed

lemma scalar_law:
  assumes step: "\<And>(ctx :: (ev_kind, 'u, 'f, 'o) jctx) w m c r. ready ctx (t @ c # r) \<Longrightarrow> value_at m (jst ctx) \<Longrightarrow> stop_char c
      \<Longrightarrow> \<exists>ctx'. mode_step sd m (hd t) ctx w = Some (Next (ctx', w @ [(value_kind m, nest ctx + 1, pay sd v)]))
        \<and> holds_value (jin ctx) (stack ctx) ctx t (pay sd v) ctx'"
    and t: "hd t \<noteq> 0" "t \<noteq> []" and ev: "\<And>k n. events sd k n v = [(k, n + 1, pay sd v)]"
  shows "value_law sd TYPE((ev_kind, 'u, 'f, 'o) jctx) v t"
  unfolding value_law_def ev
proof (intro allI impI)
  fix ctx :: "(ev_kind, 'u, 'f, 'o) jctx" and w m c r
  assume "ready ctx (t @ c # r)" "value_at m (jst ctx)" "stop_char c"
  then show "passes sd m ctx w t JPS_OUT [(value_kind m, nest ctx + 1, pay sd v)]"
    using step [of ctx c r m w] by (intro value_passes [OF _ t]) auto
qed

text \<open>
  The law of \<^verbatim>\<open>strtod\<close> that the parser relies on: what stands behind a number does not change its value,
  and is not read beyond its first byte. A text of digits only is not given to \<^verbatim>\<open>strtod\<close> (it would read a comma
  behind it in some locales).
\<close>

definition strtod_stops :: "(u8 list \<Rightarrow> 'f option) \<Rightarrow> bool" where
  "strtod_stops sd \<longleftrightarrow>
     (\<forall>t c r. num_text t \<longrightarrow> \<not> int_text t \<longrightarrow> stop_char c \<longrightarrow> sd (t @ c # r) = Some (num_value sd t))"

lemma texts_law:
  assumes sd: "strtod_stops sd"
  shows "spells v t \<Longrightarrow> value_law sd TYPE((ev_kind, 'u, 'f, 'o) jctx) v t"
    and "arr_body vs b \<Longrightarrow> elems_law sd TYPE((ev_kind, 'u, 'f, 'o) jctx) Arr (\<lambda>s. s = JPS_ASTART) (\<lambda>n. concat (map (events sd KItem n) vs)) b"
    and "arr_tail vs b \<Longrightarrow> elems_law sd TYPE((ev_kind, 'u, 'f, 'o) jctx) Arr JPS_OUT (\<lambda>n. concat (map (events sd KItem n) vs)) b"
    and "obj_body ms b \<Longrightarrow> elems_law sd TYPE((ev_kind, 'u, 'f, 'o) jctx) Obj (\<lambda>s. s = JPS_OSTART) (\<lambda>n. concat (map (events_member sd n) ms)) b"
    and "obj_tail ms b \<Longrightarrow> elems_law sd TYPE((ev_kind, 'u, 'f, 'o) jctx) Obj JPS_OUT (\<lambda>n. concat (map (events_member sd n) ms)) b"
proof (induction rule: spells_arr_body_arr_tail_obj_body_obj_tail.inducts)
  case (str s)
  show ?case by (rule scalar_law) (use str value_step_str in \<open>auto simp del: pay.simps simp: pay.simps(1)\<close>)
next
  case (num t)
  then have "hd t \<noteq> 0" "t \<noteq> []" by (cases t; auto simp: JSN_ISDIGIT_def)+
  then show ?case using sd num stop_char_not
    by (intro scalar_law value_step_num) (auto simp: strtod_stops_def)
next
  case (tok t)
  then have "hd t \<noteq> 0" "t \<noteq> []" by (auto simp: lit_true_def lit_false_def lit_null_def)
  then show ?case using tok stop_char_not by (intro scalar_law value_step_tok) auto
next
  case (arr vs b)
  then show ?case using container_law [of sd Arr "\<lambda>n. concat (map (events sd KItem n) vs)" b "JArr vs"]
    by (simp add: open_state_def open_char_def start_kind_def stop_kind_def mode_pay_def body_not_Nil)
next
  case (obj ms b)
  then show ?case using container_law [of sd Obj "\<lambda>n. concat (map (events_member sd n) ms)" b "JObj ms"]
    by (simp add: open_state_def open_char_def start_kind_def stop_kind_def mode_pay_def body_not_Nil)
next
  case (arr_empty ws)
  then show ?case using end_law [of ws "\<lambda>s. s = JPS_ASTART" Arr sd] by (simp add: open_state_def close_char_def)
next
  case (arr_first ws v t vs r)
  then show ?case using arr_first_law [OF arr_first.hyps(1) arr_first.IH arr_tail_stop [OF arr_first.hyps(3)]] by simp
next
  case (arr_end ws)
  then show ?case using end_law [of ws JPS_OUT Arr sd] by (simp add: close_char_def)
next
  case (arr_next ws ws' v t vs r)
  then show ?case using arr_next_law [OF arr_next.hyps(1,2) arr_next.IH arr_tail_stop [OF arr_next.hyps(4)]] by simp
next
  case (obj_empty ws)
  then show ?case using end_law [of ws "\<lambda>s. s = JPS_OSTART" Obj sd] by (simp add: open_state_def close_char_def)
next
  case (obj_first ws k ws1 ws2 v t ms r)
  then show ?case using obj_first_law [OF obj_first.hyps(1-4) obj_first.IH obj_tail_stop [OF obj_first.hyps(6)]] by simp
next
  case (obj_end ws)
  then show ?case using end_law [of ws JPS_OUT Obj sd] by (simp add: close_char_def)
next
  case (obj_next ws ws' k ws1 ws2 v t ms r)
  then show ?case using obj_next_law [OF obj_next.hyps(1-5) obj_next.IH obj_tail_stop [OF obj_next.hyps(7)]] by simp
qed

subsection \<open>A whole text\<close>

text \<open>The top level passes over what comes before the first bracket, and over what comes behind the value.\<close>

lemma skip_before:
  fixes ctx :: "(ev_kind, 'u, 'f, 'o) jctx"
  assumes "set ws \<inter> {0, 91, 123} = {}" "ready ctx (ws @ r)" "jst ctx = JPS_START"
  shows "json_parse_loop recorder sd (jin ctx) (length (jin ctx)) ctx w
    = json_parse_loop recorder sd (jin ctx) (length (jin ctx)) (ctx\<lparr>jidx := jidx ctx + length ws\<rparr>) w"
  using assms
proof (induction ws arbitrary: ctx)
  case (Cons c ws)
  have at: "jidx ctx < length (jin ctx)" "peek (jin ctx) (jidx ctx) = Some c" "drop (Suc (jidx ctx)) (jin ctx) = ws @ r"
    using Cons.prems(2) ahead_text_Cons [of ctx c "ws @ r"] by (auto simp: ready_def)
  have "json_parse_loop recorder sd (jin ctx) (length (jin ctx)) ctx w
      = json_parse_loop recorder sd (jin ctx) (length (jin ctx)) (next_idx ctx) w"
    using at Cons.prems(1) by (subst json_parse_loop.simps) auto
  then show ?case using Cons.IH [of "next_idx ctx"] Cons.prems at(3)
    by (simp add: next_idx_def ready_def ahead_text_def watched_def)
qed simp

lemma skip_behind:
  fixes ctx :: "(ev_kind, 'u, 'f, 'o) jctx"
  assumes "0 \<notin> set z" "ready ctx z" "jst ctx \<noteq> JPS_START"
  shows "json_parse_loop recorder sd (jin ctx) (length (jin ctx)) ctx w
    = Some (rc_ok, ctx\<lparr>jidx := jidx ctx + length z\<rparr>, w)"
  using assms
proof (induction z arbitrary: ctx)
  case Nil
  then have "\<not> jidx ctx < length (jin ctx)" by (simp add: ready_def ahead_text_def)
  then show ?case by (subst json_parse_loop.simps) simp
next
  case (Cons c z)
  have at: "jidx ctx < length (jin ctx)" "peek (jin ctx) (jidx ctx) = Some c" "drop (Suc (jidx ctx)) (jin ctx) = z"
    using Cons.prems(2) ahead_text_Cons [of ctx c z] by (auto simp: ready_def)
  have "json_parse_loop recorder sd (jin ctx) (length (jin ctx)) ctx w
      = json_parse_loop recorder sd (jin ctx) (length (jin ctx)) (next_idx ctx) w"
    using at Cons.prems(1,3) by (subst json_parse_loop.simps) auto
  then show ?case using Cons.IH [of "next_idx ctx"] Cons.prems at(3)
    by (simp add: next_idx_def ready_def ahead_text_def watched_def)
qed

text \<open>The callback that the top level uses for a value: the one for values for an object, the one for items for an array.\<close>

definition top_kind :: "jmode \<Rightarrow> ev_kind" where
  "top_kind m = (if m = Obj then KValue else KItem)"

lemma top_start:
  fixes ctx :: "(ev_kind, 'u, 'f, 'o) jctx"
  assumes "ready ctx (open_char m # r)" "jst ctx = JPS_START"
  shows "json_parse_loop recorder sd (jin ctx) (length (jin ctx)) ctx w =
    do { (r, ctx2, w2) \<leftarrow> parse_loop recorder sd m (opened m ctx)
           (w @ [(start_kind m, nest ctx + 1, mode_pay m), (top_kind m, nest ctx + 1, mode_pay m)]);
         if r \<noteq> rc_ok then Some (r, ctx2, w2)
         else json_parse_loop recorder sd (jin ctx) (length (jin ctx)) (next_idx ctx2) w2 }"
proof -
  have w: "watched (jin ctx) (stack ctx) ctx" using assms(1) by (simp add: ready_def)
  note rec = record_start [OF w, of "\<lambda>c. (value_cb c, item_udata c)" KValue Obj Rc Rc]
    record_start [OF w, of "\<lambda>c. (item_cb c, item_udata c)" KItem Arr Rc Rc]
  show ?thesis using assms ahead_text_Cons [of ctx "open_char m" r]
    by (subst json_parse_loop.simps; cases m)
      (simp_all add: rec value_cb_of ready_def open_char_def top_kind_def json_parse_obj_def json_parse_array_def)
qed

lemma top_closes:
  fixes ctx :: "(ev_kind, 'u, 'f, 'o) jctx"
  assumes rd: "ready ctx ((open_char m # b) @ z)" and st: "jst ctx = JPS_START" and z: "0 \<notin> set z" and ne: "b \<noteq> []"
    and b: "elems_law sd TYPE((ev_kind, 'u, 'f, 'o) jctx) m (\<lambda>s. s = open_state m) evs b"
  shows "\<exists>ctx'. json_parse_loop recorder sd (jin ctx) (length (jin ctx)) ctx w
      = Some (rc_ok, ctx', w @ (start_kind m, nest ctx + 1, mode_pay m) # (top_kind m, nest ctx + 1, mode_pay m)
          # evs (nest ctx + 1) @ [(stop_kind m, nest ctx + 1, mode_pay m)])
    \<and> watched (jin ctx) (stack ctx) ctx' \<and> jidx ctx' = length (jin ctx) \<and> JPS_OUT (jst ctx') \<and> nest ctx' = nest ctx"
proof -
  let ?w = "w @ [(start_kind m, nest ctx + 1, mode_pay m), (top_kind m, nest ctx + 1, mode_pay m)]"
  have rd': "ready ctx (open_char m # b @ z)" using rd by simp
  have "jst (opened m ctx) = open_state m" "nest (opened m ctx) = nest ctx + 1" by (simp_all add: opened_def open_state_def)
  then have "closes sd m (opened m ctx) ?w b (evs (nest ctx + 1) @ [(stop_kind m, nest ctx + 1, mode_pay m)])"
    by (intro elems_lawD [OF b ready_opened [OF rd']]) simp_all
  then obtain c where c: "parse_loop recorder sd m (opened m ctx) ?w
      = Some (rc_ok, c, ?w @ evs (nest ctx + 1) @ [(stop_kind m, nest ctx + 1, mode_pay m)])"
    "moved (opened m ctx) (length b - 1) c" "JPS_OUT (jst c)" "nest c = nest (opened m ctx) - 1"
    unfolding closes_def by blast
  have mv: "moved ctx (length (open_char m # b)) (next_idx c)"
    using c(2) ne by (cases b) (auto simp: moved_def watched_def next_idx_def opened_def)
  then have rz: "ready (next_idx c) z" using rd ready_moved by blast
  have "jin c = jin ctx" using mv by (simp add: moved_def watched_def next_idx_def)
  moreover have "jst (next_idx c) \<noteq> JPS_START" using c(3) by (auto simp: JPS_OUT_def next_idx_def)
  ultimately have "json_parse_loop recorder sd (jin ctx) (length (jin ctx)) (next_idx c) w'
      = Some (rc_ok, (next_idx c)\<lparr>jidx := jidx (next_idx c) + length z\<rparr>, w')" for w'
    using skip_behind [OF z rz, of sd w'] by (simp add: next_idx_def)
  moreover have "jidx (next_idx c) + length z = length (jin ctx)"
    using mv rd unfolding moved_def ready_def ahead_text_def
    by (metis add.assoc add.commute append_eq_conv_conj diff_add drop_eq_Nil2 le_add_diff_inverse length_append length_drop length_greater_0_conv
        less_imp_le list.discI append_Cons not_le)
  ultimately show ?thesis using top_start [OF rd' st, of sd w] c mv
    by (auto simp: moved_def watched_def next_idx_def opened_def)
qed

text \<open>A fresh context whose client asks for every call, each with the name of its callback.\<close>

definition record_all :: "(ev_kind, 'u, 'f, 'o) jctx \<Rightarrow> 'u \<Rightarrow> (ev_kind, 'u, 'f, 'o) jctx" where
  "record_all ctx u =
     (let c1 = json_set_ostop_cb (json_set_ostart_cb ctx (Some KOstart) u) (Some KOstop) u;
          c2 = json_set_astop_cb (json_set_astart_cb c1 (Some KAstart) u) (Some KAstop) u
      in json_set_item_cb (json_set_value_cb (json_set_key_cb c2 (Some KKey) u) (Some KValue) u) (Some KItem) u)"

lemma json_init_fresh:
  assumes "json_init malloc c0 cb u = Some c"
  shows "jst c = JPS_START" "jidx c = 0" "nest c = -1" "elnum (stack c) = 0"
proof -
  have el: "elnum ar' = elnum ar" if "array_ensure_datasz_dirty ar n s malloc = Some ar'" for ar ar' n s
    using that by (auto simp: array_ensure_datasz_dirty_def array_ensure_dirty_body_def ensure_block_def Let_def
      split: option.splits if_splits bind_splits)
  show "jst c = JPS_START" "jidx c = 0" "nest c = -1" "elnum (stack c) = 0"
    using assms by (auto simp: json_init_def array_init_def array_init_body_def dest: el split: bind_splits)
qed

lemma watched_record_all: "watched inp (stack c) ((record_all c u)\<lparr>jin := inp, jsz := length inp\<rparr>)"
  by (simp add: watched_def record_all_def json_set_ostart_cb_def json_set_ostop_cb_def json_set_astart_cb_def
    json_set_astop_cb_def json_set_key_cb_def json_set_value_cb_def json_set_item_cb_def Let_def)

lemma record_all_sel [simp]:
  "jst (record_all c u) = jst c" "jidx (record_all c u) = jidx c" "nest (record_all c u) = nest c"
  "stack (record_all c u) = stack c"
  by (simp_all add: record_all_def json_set_ostart_cb_def json_set_ostop_cb_def json_set_astart_cb_def
    json_set_astop_cb_def json_set_key_cb_def json_set_value_cb_def json_set_item_cb_def Let_def)

text \<open>A text that spells an array or an object opens with its bracket, and its body has its law.\<close>

lemma container_text:
  fixes sd :: "u8 list \<Rightarrow> 'f option"
  assumes "strtod_stops sd" "spells v t" "v = JArr vs \<or> v = JObj ms"
  obtains m b evs where "t = open_char m # b" "b \<noteq> []"
    "elems_law sd TYPE((ev_kind, 'u, 'f, 'o) jctx) m (\<lambda>s. s = open_state m) evs b"
    "\<And>k n. events sd k n v = (start_kind m, n + 1, mode_pay m) # (k, n + 1, mode_pay m) # evs (n + 1)
      @ [(stop_kind m, n + 1, mode_pay m)]" "top_kind m = (if v = JArr vs then KItem else KValue)"
proof -
  from assms(3) show ?thesis
  proof
    assume v: "v = JArr vs"
    with assms(2) obtain b where b: "t = 91 # b" "arr_body vs b" by (auto elim: spells.cases)
    show ?thesis
      by (rule that [of Arr b "\<lambda>n. concat (map (events sd KItem n) vs)"])
        (use b v texts_law(2) [OF assms(1) b(2)] body_not_Nil in
          \<open>simp_all add: open_char_def open_state_def start_kind_def stop_kind_def mode_pay_def top_kind_def\<close>)
  next
    assume v: "v = JObj ms"
    with assms(2) obtain b where b: "t = 123 # b" "obj_body ms b" by (auto elim: spells.cases)
    show ?thesis
      by (rule that [of Obj b "\<lambda>n. concat (map (events_member sd n) ms)"])
        (use b v texts_law(4) [OF assms(1) b(2)] body_not_Nil in
          \<open>simp_all add: open_char_def open_state_def start_kind_def stop_kind_def mode_pay_def top_kind_def\<close>)
  qed
qed

lemma json_parse_text:
  fixes c0 :: "(ev_kind, 'u, 'f, 'o) jctx"
  assumes "strtod_stops sd" "spells v t" "v = JArr vs \<or> v = JObj ms" "json_init malloc c0 cb u = Some c"
    and "set pre \<inter> {0, 91, 123} = {}" "0 \<notin> set post" "length (pre @ t @ post) < 2 ^ 64"
  shows "\<exists>ctx'. json_parse recorder sd (record_all c u) (pre @ t @ post) (length (pre @ t @ post)) []
      = Some (rc_ok, ctx', events sd (if v = JArr vs then KItem else KValue) (-1) v) \<and> json_ctx_consistent ctx' = 0"
proof -
  let ?inp = "pre @ t @ post"
  let ?c = "(record_all c u)\<lparr>jin := ?inp, jsz := length ?inp\<rparr>"
  let ?d = "?c\<lparr>jidx := length pre\<rparr>"
  note fresh = json_init_fresh [OF assms(4)]
  have rd: "ready ?c (pre @ t @ post)" using watched_record_all [of ?inp c u] assms(7) fresh
    by (simp add: ready_def ahead_text_def)
  then have rd': "ready ?d (t @ post)" by (simp add: ready_def ahead_text_def watched_def fresh)
  obtain m b evs where t: "t = open_char m # b" "b \<noteq> []"
      "elems_law sd TYPE((ev_kind, 'u, 'f, 'o) jctx) m (\<lambda>s. s = open_state m) evs b"
      "\<And>k n. events sd k n v = (start_kind m, n + 1, mode_pay m) # (k, n + 1, mode_pay m) # evs (n + 1)
        @ [(stop_kind m, n + 1, mode_pay m)]" "top_kind m = (if v = JArr vs then KItem else KValue)"
    using container_text [OF assms(1-3)] by blast
  have "json_parse recorder sd (record_all c u) ?inp (length ?inp) [] = json_parse_loop recorder sd ?inp (length ?inp) ?d []"
    using skip_before [OF assms(5) rd, of sd "[]"] by (simp add: json_parse_def fresh)
  moreover obtain ctx' where "json_parse_loop recorder sd ?inp (length ?inp) ?d []
      = Some (rc_ok, ctx', events sd (top_kind m) (-1) v)"
      "watched ?inp (stack c) ctx'" "jidx ctx' = length ?inp" "JPS_OUT (jst ctx')" "nest ctx' = -1"
    using top_closes [OF rd' [unfolded t(1)] _ assms(6) t(2,3), of "[]"] by (auto simp: fresh t(1) t(4))
  ultimately show ?thesis using t(5) fresh by (auto simp: json_ctx_consistent_def watched_def)
qed


text \<open>An object of an array and a number; the text has white space, and a newline behind it.\<close>

definition demo_events_ctx :: "(ev_kind, unit, u8 list, nat) jctx" where
  "demo_events_ctx = \<lparr>jin = [], jsz = 0, jst = JPS_START, jneedunescape = False, jfloat = False, jscientific = False,
     jty = JSON_UNDEF, vword = VInt 0, vend = 0, jidx = 0, nest = -1, jcb = None, judata = (),
     ostart_cb = None, ostart_udata = (), ostop_cb = None, ostop_udata = (), astart_cb = None, astart_udata = (),
     astop_cb = None, astop_udata = (), key_cb = None, key_udata = (), value_cb = None, value_udata = (),
     item_cb = None, item_udata = (),
     stack = \<lparr>elsz = 8, elnum = 0, data = None, datasz = 0, init = None, fini = None\<rparr>, current_key = None\<rparr>"

lemma demo_spells:
  "spells (JObj [Member [97] (JArr [JNum [49, 50], JTok lit_true])])
     (123 # [] @ 34 # [97] @ 34 # [] @ 58 # [32] @ (91 # [] @ [49, 50] @ [] @ 44 # [32] @ lit_true @ [] @ [93]) @ [32] @ [125])"
  by (intro spells_arr_body_arr_tail_obj_body_obj_tail.intros) (simp_all add: blank_def JSN_ISSPACE_def JSN_ISDIGIT_def num_char_def)

lemma demo_strtod_value: "num_text t \<Longrightarrow> num_value demo_strtod t = t"
proof -
  assume "num_text t"
  then have "\<forall>d \<in> set t. num_char d" by (cases t) (auto simp: num_char_def)
  moreover have "\<not> num_char 0" by (simp add: num_char_def JSN_ISDIGIT_def)
  ultimately show ?thesis using demo_strtod_ended [of t 0 "[]"] by (simp add: num_value_def)
qed

lemma demo_strtod: "strtod_stops demo_strtod"
  unfolding strtod_stops_def
proof (intro allI impI)
  fix t :: "u8 list" and c r
  assume t: "num_text t" and c: "stop_char c"
  have "\<forall>d \<in> set t. num_char d" using t by (cases t) (auto simp: num_char_def)
  moreover have "\<not> num_char c" using c stop_char_not by blast
  moreover have "c \<noteq> 43" using c unfolding stop_char_def by fastforce
  ultimately show "demo_strtod (t @ c # r) = Some (num_value demo_strtod t)"
    unfolding demo_strtod_value [OF t] by (rule demo_strtod_ended)
qed


end
