(* ===== verification/Mn_Json_Write.thy ===== *)
theory Mn_Json_Write
  imports Mn_Bytestream Bytes_Text
begin

text \<open>
  The writer of JSON: the functions \<^verbatim>\<open>mnjson_*\<close> of \<^verbatim>\<open>src/src/json.c\<close> and the macros \<^verbatim>\<open>MN_JPRINTF_*\<close> of
  \<^verbatim>\<open>src/src/mncommon/json.h\<close>. Each prints one item or one pair of a key and a value at the end of a byte
  stream, with a comma behind it or without. A format is written out as the text it produces; the text of a
  \<^verbatim>\<open>double\<close> is an argument \<open>lf\<close>, the conversion \<^verbatim>\<open>%lf\<close> of the C library. The conversions used here (\<^verbatim>\<open>%s\<close>, \<^verbatim>\<open>%ld\<close>, \<^verbatim>\<open>%lf\<close>) are
  taken not to fail by themselves, only for a text that is too long for an \<^verbatim>\<open>int\<close>. A callback gets the stream
  and the client's state \<open>'w\<close>. A temporary byte string lives only inside of its function.
\<close>

subsection \<open>Formats\<close>

text \<open>The bytes of \<^verbatim>\<open>%ld\<close>.\<close>

fun dec_digits :: "nat \<Rightarrow> u8 list" where
  "dec_digits n = (if n < 10 then [] else dec_digits (n div 10)) @ [of_nat (48 + n mod 10)]"

declare dec_digits.simps [simp del]

definition c_ld :: "64 word \<Rightarrow> u8 list" where
  "c_ld v = (if sint v < 0 then 45 # dec_digits (nat (- sint v)) else dec_digits (nat (sint v)))"

definition quoted :: "u8 list \<Rightarrow> u8 list" where
  "quoted s = 34 # s @ [34]"

definition c_bool :: "bool \<Rightarrow> u8 list" where
  "c_bool b = (if b then [116, 114, 117, 101] else [102, 97, 108, 115, 101])"

text \<open>\<^verbatim>\<open>size_t\<close> arithmetic.\<close>

definition szof :: "int \<Rightarrow> nat" where
  "szof i = nat (i mod 2 ^ 64)"

lemma szof_small [simp]: "0 \<le> i \<Longrightarrow> i < 2 ^ 64 \<Longrightarrow> szof i = nat i"
  by (simp add: szof_def)

text \<open>\<^verbatim>\<open>*SDATA(bs, SEOD(bs) - 1)\<close>\<close>

definition last_byte :: "'c bstream \<Rightarrow> u8 option" where
  "last_byte bs = do { d \<leftarrow> bsdata bs; guard (0 \<le> eod bs - 1); peek d (nat (eod bs - 1)) }"

subsection \<open>The functions\<close>

text \<open>The data of a stream as a terminated byte string.\<close>

definition bs_value :: "u8 alloc \<Rightarrow> 'd bstream \<Rightarrow> mnbytes option" where
  "bs_value malloc value =
     do { tmp \<leftarrow> bytes_new malloc (szof (eod value + 1));
          d \<leftarrow> memcpy_to (bdata tmp) 0 (case bsdata value of None \<Rightarrow> [] | Some d \<Rightarrow> d) 0 (szof (eod value));
          d1 \<leftarrow> poke d (szof (eod value)) 0;
          Some (tmp\<lparr>bdata := d1\<rparr>) }"

definition MNJSON_BS_PAIR_BODY ::
  "u8 alloc \<Rightarrow> 'c bstream \<Rightarrow> mnbytes \<Rightarrow> 'd bstream \<Rightarrow> u8 list \<Rightarrow> (int \<times> 'c bstream) option" where
  "MNJSON_BS_PAIR_BODY malloc bs key value comma =
     do { tmp0 \<leftarrow> bs_value malloc value;
          tmp1 \<leftarrow> bytes_json_escape malloc tmp0;
          k \<leftarrow> cstr (bdata key);
          v \<leftarrow> cstr (bdata tmp1);
          bytestream_nprintf malloc bs (szof (int (bsz key) - 1 + 8 + int (bsz tmp1) - 1))
            (Formatted (quoted k @ 58 # quoted v @ comma)) }"

definition MNJSON_BS_ITEM_BODY ::
  "u8 alloc \<Rightarrow> 'c bstream \<Rightarrow> 'd bstream \<Rightarrow> u8 list \<Rightarrow> (int \<times> 'c bstream) option" where
  "MNJSON_BS_ITEM_BODY malloc bs value comma =
     do { tmp0 \<leftarrow> bs_value malloc value;
          tmp1 \<leftarrow> bytes_json_escape malloc tmp0;
          v \<leftarrow> cstr (bdata tmp1);
          bytestream_nprintf malloc bs (szof (4 + int (bsz tmp1) - 1)) (Formatted (quoted v @ comma)) }"

definition MNJSON_BYTES_PAIR_BODY ::
  "u8 alloc \<Rightarrow> 'c bstream \<Rightarrow> mnbytes \<Rightarrow> mnbytes \<Rightarrow> u8 list \<Rightarrow> (int \<times> 'c bstream) option" where
  "MNJSON_BYTES_PAIR_BODY malloc bs key value comma =
     do { tmp \<leftarrow> bytes_json_escape malloc value;
          k \<leftarrow> cstr (bdata key);
          v \<leftarrow> cstr (bdata tmp);
          bytestream_nprintf malloc bs (szof (int (bsz key) - 1 + 8 + int (bsz tmp) - 1))
            (Formatted (quoted k @ 58 # quoted v @ comma)) }"

definition MNJSON_BYTES_ITEM_BODY ::
  "u8 alloc \<Rightarrow> 'c bstream \<Rightarrow> mnbytes \<Rightarrow> u8 list \<Rightarrow> (int \<times> 'c bstream) option" where
  "MNJSON_BYTES_ITEM_BODY malloc bs value comma =
     do { tmp \<leftarrow> bytes_json_escape malloc value;
          v \<leftarrow> cstr (bdata tmp);
          bytestream_nprintf malloc bs (szof (4 + int (bsz tmp) - 1)) (Formatted (quoted v @ comma)) }"

definition MNJSON_INT_PAIR_BODY ::
  "u8 alloc \<Rightarrow> 'c bstream \<Rightarrow> mnbytes \<Rightarrow> 64 word \<Rightarrow> u8 list \<Rightarrow> (int \<times> 'c bstream) option" where
  "MNJSON_INT_PAIR_BODY malloc bs key value comma =
     do { k \<leftarrow> cstr (bdata key);
          bytestream_nprintf malloc bs (szof (int (bsz key) - 1 + 64)) (Formatted (quoted k @ 58 # c_ld value @ comma)) }"

definition MNJSON_INT_ITEM_BODY ::
  "u8 alloc \<Rightarrow> 'c bstream \<Rightarrow> 64 word \<Rightarrow> u8 list \<Rightarrow> (int \<times> 'c bstream) option" where
  "MNJSON_INT_ITEM_BODY malloc bs value comma = bytestream_nprintf malloc bs 64 (Formatted (c_ld value @ comma))"

definition MNJSON_FLOAT_PAIR_BODY ::
  "('f \<Rightarrow> u8 list) \<Rightarrow> u8 alloc \<Rightarrow> 'c bstream \<Rightarrow> mnbytes \<Rightarrow> 'f \<Rightarrow> u8 list \<Rightarrow> (int \<times> 'c bstream) option" where
  "MNJSON_FLOAT_PAIR_BODY lf malloc bs key value comma =
     do { k \<leftarrow> cstr (bdata key);
          bytestream_nprintf malloc bs (szof (int (bsz key) - 1 + 1024)) (Formatted (quoted k @ 58 # lf value @ comma)) }"

definition MNJSON_FLOAT_ITEM_BODY ::
  "('f \<Rightarrow> u8 list) \<Rightarrow> u8 alloc \<Rightarrow> 'c bstream \<Rightarrow> 'f \<Rightarrow> u8 list \<Rightarrow> (int \<times> 'c bstream) option" where
  "MNJSON_FLOAT_ITEM_BODY lf malloc bs value comma = bytestream_nprintf malloc bs 1024 (Formatted (lf value @ comma))"

text \<open>The text of false in a pair lacks a letter.\<close>

definition MNJSON_BOOL_PAIR_BODY ::
  "u8 alloc \<Rightarrow> 'c bstream \<Rightarrow> mnbytes \<Rightarrow> bool \<Rightarrow> u8 list \<Rightarrow> (int \<times> 'c bstream) option" where
  "MNJSON_BOOL_PAIR_BODY malloc bs key value comma =
     do { k \<leftarrow> cstr (bdata key);
          bytestream_nprintf malloc bs (szof (int (bsz key) - 1 + 8))
            (Formatted (quoted k @ 58 # (if value then [116, 114, 117, 101] else [102, 108, 115, 101]) @ comma)) }"

definition MNJSON_BOOL_ITEM_BODY ::
  "u8 alloc \<Rightarrow> 'c bstream \<Rightarrow> bool \<Rightarrow> u8 list \<Rightarrow> (int \<times> 'c bstream) option" where
  "MNJSON_BOOL_ITEM_BODY malloc bs value comma = bytestream_nprintf malloc bs 8 (Formatted (c_bool value @ comma))"

definition mnjson_bs_pair0 :: "u8 alloc \<Rightarrow> 'c bstream \<Rightarrow> mnbytes \<Rightarrow> 'd bstream \<Rightarrow> (int \<times> 'c bstream) option" where
  "mnjson_bs_pair0 malloc bs key value = MNJSON_BS_PAIR_BODY malloc bs key value [44]"

definition mnjson_bs_pair1 :: "u8 alloc \<Rightarrow> 'c bstream \<Rightarrow> mnbytes \<Rightarrow> 'd bstream \<Rightarrow> (int \<times> 'c bstream) option" where
  "mnjson_bs_pair1 malloc bs key value = MNJSON_BS_PAIR_BODY malloc bs key value []"

definition mnjson_bs_item0 :: "u8 alloc \<Rightarrow> 'c bstream \<Rightarrow> 'd bstream \<Rightarrow> (int \<times> 'c bstream) option" where
  "mnjson_bs_item0 malloc bs value = MNJSON_BS_ITEM_BODY malloc bs value [44]"

definition mnjson_bs_item1 :: "u8 alloc \<Rightarrow> 'c bstream \<Rightarrow> 'd bstream \<Rightarrow> (int \<times> 'c bstream) option" where
  "mnjson_bs_item1 malloc bs value = MNJSON_BS_ITEM_BODY malloc bs value []"

definition mnjson_bytes_pair0 :: "u8 alloc \<Rightarrow> 'c bstream \<Rightarrow> mnbytes \<Rightarrow> mnbytes \<Rightarrow> (int \<times> 'c bstream) option" where
  "mnjson_bytes_pair0 malloc bs key value = MNJSON_BYTES_PAIR_BODY malloc bs key value [44]"

definition mnjson_bytes_pair1 :: "u8 alloc \<Rightarrow> 'c bstream \<Rightarrow> mnbytes \<Rightarrow> mnbytes \<Rightarrow> (int \<times> 'c bstream) option" where
  "mnjson_bytes_pair1 malloc bs key value = MNJSON_BYTES_PAIR_BODY malloc bs key value []"

definition mnjson_bytes_item0 :: "u8 alloc \<Rightarrow> 'c bstream \<Rightarrow> mnbytes \<Rightarrow> (int \<times> 'c bstream) option" where
  "mnjson_bytes_item0 malloc bs value = MNJSON_BYTES_ITEM_BODY malloc bs value [44]"

definition mnjson_bytes_item1 :: "u8 alloc \<Rightarrow> 'c bstream \<Rightarrow> mnbytes \<Rightarrow> (int \<times> 'c bstream) option" where
  "mnjson_bytes_item1 malloc bs value = MNJSON_BYTES_ITEM_BODY malloc bs value []"

definition mnjson_int_pair0 :: "u8 alloc \<Rightarrow> 'c bstream \<Rightarrow> mnbytes \<Rightarrow> 64 word \<Rightarrow> (int \<times> 'c bstream) option" where
  "mnjson_int_pair0 malloc bs key value = MNJSON_INT_PAIR_BODY malloc bs key value [44]"

definition mnjson_int_pair1 :: "u8 alloc \<Rightarrow> 'c bstream \<Rightarrow> mnbytes \<Rightarrow> 64 word \<Rightarrow> (int \<times> 'c bstream) option" where
  "mnjson_int_pair1 malloc bs key value = MNJSON_INT_PAIR_BODY malloc bs key value []"

definition mnjson_int_item0 :: "u8 alloc \<Rightarrow> 'c bstream \<Rightarrow> 64 word \<Rightarrow> (int \<times> 'c bstream) option" where
  "mnjson_int_item0 malloc bs value = MNJSON_INT_ITEM_BODY malloc bs value [44]"

definition mnjson_int_item1 :: "u8 alloc \<Rightarrow> 'c bstream \<Rightarrow> 64 word \<Rightarrow> (int \<times> 'c bstream) option" where
  "mnjson_int_item1 malloc bs value = MNJSON_INT_ITEM_BODY malloc bs value []"

definition mnjson_float_pair0 :: "('f \<Rightarrow> u8 list) \<Rightarrow> u8 alloc \<Rightarrow> 'c bstream \<Rightarrow> mnbytes \<Rightarrow> 'f \<Rightarrow> (int \<times> 'c bstream) option" where
  "mnjson_float_pair0 lf malloc bs key value = MNJSON_FLOAT_PAIR_BODY lf malloc bs key value [44]"

definition mnjson_float_pair1 :: "('f \<Rightarrow> u8 list) \<Rightarrow> u8 alloc \<Rightarrow> 'c bstream \<Rightarrow> mnbytes \<Rightarrow> 'f \<Rightarrow> (int \<times> 'c bstream) option" where
  "mnjson_float_pair1 lf malloc bs key value = MNJSON_FLOAT_PAIR_BODY lf malloc bs key value []"

definition mnjson_float_item0 :: "('f \<Rightarrow> u8 list) \<Rightarrow> u8 alloc \<Rightarrow> 'c bstream \<Rightarrow> 'f \<Rightarrow> (int \<times> 'c bstream) option" where
  "mnjson_float_item0 lf malloc bs value = MNJSON_FLOAT_ITEM_BODY lf malloc bs value [44]"

definition mnjson_float_item1 :: "('f \<Rightarrow> u8 list) \<Rightarrow> u8 alloc \<Rightarrow> 'c bstream \<Rightarrow> 'f \<Rightarrow> (int \<times> 'c bstream) option" where
  "mnjson_float_item1 lf malloc bs value = MNJSON_FLOAT_ITEM_BODY lf malloc bs value []"

definition mnjson_bool_pair0 :: "u8 alloc \<Rightarrow> 'c bstream \<Rightarrow> mnbytes \<Rightarrow> bool \<Rightarrow> (int \<times> 'c bstream) option" where
  "mnjson_bool_pair0 malloc bs key value = MNJSON_BOOL_PAIR_BODY malloc bs key value [44]"

definition mnjson_bool_pair1 :: "u8 alloc \<Rightarrow> 'c bstream \<Rightarrow> mnbytes \<Rightarrow> bool \<Rightarrow> (int \<times> 'c bstream) option" where
  "mnjson_bool_pair1 malloc bs key value = MNJSON_BOOL_PAIR_BODY malloc bs key value []"

definition mnjson_bool_item0 :: "u8 alloc \<Rightarrow> 'c bstream \<Rightarrow> bool \<Rightarrow> (int \<times> 'c bstream) option" where
  "mnjson_bool_item0 malloc bs value = MNJSON_BOOL_ITEM_BODY malloc bs value [44]"

definition mnjson_bool_item1 :: "u8 alloc \<Rightarrow> 'c bstream \<Rightarrow> bool \<Rightarrow> (int \<times> 'c bstream) option" where
  "mnjson_bool_item1 malloc bs value = MNJSON_BOOL_ITEM_BODY malloc bs value []"

text \<open>With a callback for the value. The results are added, error codes too.\<close>

type_synonym ('c, 'w) jwriter = "'c bstream \<Rightarrow> 'w \<Rightarrow> (int \<times> 'c bstream \<times> 'w) option"

definition MNJSON_CB_PAIR_BODY ::
  "u8 alloc \<Rightarrow> 'c bstream \<Rightarrow> mnbytes \<Rightarrow> ('c, 'w) jwriter \<Rightarrow> 'w \<Rightarrow> (int \<times> 'c bstream \<times> 'w) option" where
  "MNJSON_CB_PAIR_BODY malloc bs key cb w =
     do { k \<leftarrow> cstr (bdata key);
          (res, bs1) \<leftarrow> bytestream_nprintf malloc bs (szof (int (bsz key) - 1 + 8)) (Formatted (quoted k @ [58]));
          (r, bs2, w1) \<leftarrow> cb bs1 w;
          Some (SS64 (res + r), bs2, w1) }"

definition mnjson_cb_pair1 ::
  "u8 alloc \<Rightarrow> 'c bstream \<Rightarrow> mnbytes \<Rightarrow> ('c, 'w) jwriter \<Rightarrow> 'w \<Rightarrow> (int \<times> 'c bstream \<times> 'w) option" where
  "mnjson_cb_pair1 malloc bs key cb w = MNJSON_CB_PAIR_BODY malloc bs key cb w"

definition mnjson_cb_pair0 ::
  "u8 alloc \<Rightarrow> 'c bstream \<Rightarrow> mnbytes \<Rightarrow> ('c, 'w) jwriter \<Rightarrow> 'w \<Rightarrow> (int \<times> 'c bstream \<times> 'w) option" where
  "mnjson_cb_pair0 malloc bs key cb w =
     do { (res, bs1, w1) \<leftarrow> MNJSON_CB_PAIR_BODY malloc bs key cb w;
          (r, bs2) \<leftarrow> bytestream_cat malloc bs1 1 [44];
          Some (SS64 (res + r), bs2, w1) }"

definition mnjson_cb_item1 ::
  "'c bstream \<Rightarrow> ('c, 'w) jwriter \<Rightarrow> 'w \<Rightarrow> (int \<times> 'c bstream \<times> 'w) option" where
  "mnjson_cb_item1 bs cb w = cb bs w"

definition mnjson_cb_item0 ::
  "u8 alloc \<Rightarrow> 'c bstream \<Rightarrow> ('c, 'w) jwriter \<Rightarrow> 'w \<Rightarrow> (int \<times> 'c bstream \<times> 'w) option" where
  "mnjson_cb_item0 malloc bs cb w =
     do { (res, bs1, w1) \<leftarrow> cb bs w;
          (r, bs2) \<leftarrow> bytestream_cat malloc bs1 1 [44];
          Some (SS64 (res + r), bs2, w1) }"

definition mnjson_chop_comma :: "'c bstream \<Rightarrow> (int \<times> 'c bstream) option" where
  "mnjson_chop_comma bs =
     do { c \<leftarrow> last_byte bs;
          Some (if c = 44 then (-1, SADVANCEEOD bs (-1)) else (0, bs)) }"

subsection \<open>The macros\<close>

text \<open>
  They take the key as a literal, which becomes a part of the format; one with a conversion or a zero byte
  in it is a fault here. They do not look at results.
\<close>

definition lit_key :: "u8 list \<Rightarrow> unit option" where
  "lit_key key = guard (0 \<notin> set key \<and> 37 \<notin> set key)"

definition jprint :: "u8 alloc \<Rightarrow> 'c bstream \<Rightarrow> int \<Rightarrow> u8 list \<Rightarrow> 'c bstream option" where
  "jprint malloc bs sz txt = map_option snd (bytestream_nprintf malloc bs (szof sz) (Formatted txt))"

definition MN_JCAT_CONST :: "u8 alloc \<Rightarrow> 'c bstream \<Rightarrow> u8 list \<Rightarrow> (int \<times> 'c bstream) option" where
  "MN_JCAT_CONST malloc bs s = bytestream_cat malloc bs (length s) (s @ [0])"

definition MN_JPRINTF_PAIR_BS00 ::
  "u8 alloc \<Rightarrow> 'c bstream \<Rightarrow> u8 list \<Rightarrow> 'd bstream \<Rightarrow> u8 list \<Rightarrow> 'c bstream option" where
  "MN_JPRINTF_PAIR_BS00 malloc bs key value comma =
     do { lit_key key;
          tmp0 \<leftarrow> bs_value malloc value;
          tmp1 \<leftarrow> bytes_json_escape malloc tmp0;
          v \<leftarrow> cstr (bdata tmp1);
          jprint malloc bs (int (length key) + 8 + int (bsz tmp1) - 1) (quoted key @ 58 # quoted v @ comma) }"

definition MN_JPRINTF_ITEM_BS00 ::
  "u8 alloc \<Rightarrow> 'c bstream \<Rightarrow> 'd bstream \<Rightarrow> u8 list \<Rightarrow> 'c bstream option" where
  "MN_JPRINTF_ITEM_BS00 malloc bs value comma =
     do { tmp0 \<leftarrow> bs_value malloc value;
          tmp1 \<leftarrow> bytes_json_escape malloc tmp0;
          v \<leftarrow> cstr (bdata tmp1);
          jprint malloc bs (8 + int (bsz tmp1) - 1) (quoted v @ comma) }"

definition null_text :: "u8 list" where "null_text = [110, 117, 108, 108]"

definition MN_JPRINTF_PAIR_BYTES00 ::
  "u8 alloc \<Rightarrow> 'c bstream \<Rightarrow> u8 list \<Rightarrow> mnbytes option \<Rightarrow> u8 list \<Rightarrow> 'c bstream option" where
  "MN_JPRINTF_PAIR_BYTES00 malloc bs key value comma =
     do { lit_key key;
          case value of
            Some b \<Rightarrow>
              do { tmp \<leftarrow> bytes_json_escape malloc b;
                   v \<leftarrow> cstr (bdata tmp);
                   jprint malloc bs (int (length key) + 8 + int (bsz tmp) - 1) (quoted key @ 58 # quoted v @ comma) }
          | None \<Rightarrow> jprint malloc bs (int (length key) + 16) (quoted key @ 58 # null_text @ comma) }"

definition MN_JPRINTF_ITEM_BYTES00 ::
  "u8 alloc \<Rightarrow> 'c bstream \<Rightarrow> mnbytes option \<Rightarrow> u8 list \<Rightarrow> 'c bstream option" where
  "MN_JPRINTF_ITEM_BYTES00 malloc bs value comma =
     (case value of
        Some b \<Rightarrow>
          do { tmp \<leftarrow> bytes_json_escape malloc b;
               v \<leftarrow> cstr (bdata tmp);
               jprint malloc bs (8 + int (bsz tmp) - 1) (quoted v @ comma) }
      | None \<Rightarrow> jprint malloc bs 8 (null_text @ comma))"

definition MN_JPRINTF_PAIR_INT00 ::
  "u8 alloc \<Rightarrow> 'c bstream \<Rightarrow> u8 list \<Rightarrow> 64 word \<Rightarrow> u8 list \<Rightarrow> 'c bstream option" where
  "MN_JPRINTF_PAIR_INT00 malloc bs key value comma =
     do { lit_key key; jprint malloc bs (int (length key) + 8 + 1024) (quoted key @ 58 # c_ld value @ comma) }"

definition MN_JPRINTF_ITEM_INT00 :: "u8 alloc \<Rightarrow> 'c bstream \<Rightarrow> 64 word \<Rightarrow> u8 list \<Rightarrow> 'c bstream option" where
  "MN_JPRINTF_ITEM_INT00 malloc bs value comma = jprint malloc bs 1024 (c_ld value @ comma)"

definition MN_JPRINTF_PAIR_FLOAT00 ::
  "('f \<Rightarrow> u8 list) \<Rightarrow> u8 alloc \<Rightarrow> 'c bstream \<Rightarrow> u8 list \<Rightarrow> 'f \<Rightarrow> u8 list \<Rightarrow> 'c bstream option" where
  "MN_JPRINTF_PAIR_FLOAT00 lf malloc bs key value comma =
     do { lit_key key; jprint malloc bs (int (length key) + 4 + 1024) (quoted key @ 58 # lf value @ comma) }"

definition MN_JPRINTF_ITEM_FLOAT00 ::
  "('f \<Rightarrow> u8 list) \<Rightarrow> u8 alloc \<Rightarrow> 'c bstream \<Rightarrow> 'f \<Rightarrow> u8 list \<Rightarrow> 'c bstream option" where
  "MN_JPRINTF_ITEM_FLOAT00 lf malloc bs value comma = jprint malloc bs 1024 (lf value @ comma)"

text \<open>\<open>qf p\<close> is the conversion \<^verbatim>\<open>%.0plf\<close>, with the precision \<open>p\<close>.\<close>

definition MN_JPRINTF_PAIR_QFLOAT00 ::
  "(nat \<Rightarrow> 'f \<Rightarrow> u8 list) \<Rightarrow> u8 alloc \<Rightarrow> 'c bstream \<Rightarrow> u8 list \<Rightarrow> 'f \<Rightarrow> nat \<Rightarrow> u8 list \<Rightarrow> 'c bstream option" where
  "MN_JPRINTF_PAIR_QFLOAT00 qf malloc bs key value precision comma =
     do { lit_key key;
          jprint malloc bs (int (length key) + 4 + 1024) (quoted key @ 58 # quoted (qf precision value) @ comma) }"

definition MN_JPRINTF_ITEM_QFLOAT00 ::
  "(nat \<Rightarrow> 'f \<Rightarrow> u8 list) \<Rightarrow> u8 alloc \<Rightarrow> 'c bstream \<Rightarrow> 'f \<Rightarrow> nat \<Rightarrow> u8 list \<Rightarrow> 'c bstream option" where
  "MN_JPRINTF_ITEM_QFLOAT00 qf malloc bs value precision comma =
     jprint malloc bs 1024 (quoted (qf precision value) @ comma)"

definition MN_JPRINTF_PAIR_BOOL00 ::
  "u8 alloc \<Rightarrow> 'c bstream \<Rightarrow> u8 list \<Rightarrow> bool \<Rightarrow> u8 list \<Rightarrow> 'c bstream option" where
  "MN_JPRINTF_PAIR_BOOL00 malloc bs key value comma =
     do { lit_key key; jprint malloc bs (int (length key) + 32) (quoted key @ 58 # c_bool value @ comma) }"

definition MN_JPRINTF_ITEM_BOOL00 :: "u8 alloc \<Rightarrow> 'c bstream \<Rightarrow> bool \<Rightarrow> u8 list \<Rightarrow> 'c bstream option" where
  "MN_JPRINTF_ITEM_BOOL00 malloc bs value comma = jprint malloc bs 16 (c_bool value @ comma)"

definition MN_JPRINTF_PAIR_BS0 :: "u8 alloc \<Rightarrow> 'c bstream \<Rightarrow> u8 list \<Rightarrow> 'd bstream \<Rightarrow> 'c bstream option" where
  "MN_JPRINTF_PAIR_BS0 malloc bs key value = MN_JPRINTF_PAIR_BS00 malloc bs key value [44]"

definition MN_JPRINTF_PAIR_BS1 :: "u8 alloc \<Rightarrow> 'c bstream \<Rightarrow> u8 list \<Rightarrow> 'd bstream \<Rightarrow> 'c bstream option" where
  "MN_JPRINTF_PAIR_BS1 malloc bs key value = MN_JPRINTF_PAIR_BS00 malloc bs key value []"

definition MN_JPRINTF_ITEM_BS0 :: "u8 alloc \<Rightarrow> 'c bstream \<Rightarrow> 'd bstream \<Rightarrow> 'c bstream option" where
  "MN_JPRINTF_ITEM_BS0 malloc bs value = MN_JPRINTF_ITEM_BS00 malloc bs value [44]"

definition MN_JPRINTF_ITEM_BS1 :: "u8 alloc \<Rightarrow> 'c bstream \<Rightarrow> 'd bstream \<Rightarrow> 'c bstream option" where
  "MN_JPRINTF_ITEM_BS1 malloc bs value = MN_JPRINTF_ITEM_BS00 malloc bs value []"

definition MN_JPRINTF_PAIR_BYTES0 :: "u8 alloc \<Rightarrow> 'c bstream \<Rightarrow> u8 list \<Rightarrow> mnbytes option \<Rightarrow> 'c bstream option" where
  "MN_JPRINTF_PAIR_BYTES0 malloc bs key value = MN_JPRINTF_PAIR_BYTES00 malloc bs key value [44]"

definition MN_JPRINTF_PAIR_BYTES1 :: "u8 alloc \<Rightarrow> 'c bstream \<Rightarrow> u8 list \<Rightarrow> mnbytes option \<Rightarrow> 'c bstream option" where
  "MN_JPRINTF_PAIR_BYTES1 malloc bs key value = MN_JPRINTF_PAIR_BYTES00 malloc bs key value []"

definition MN_JPRINTF_ITEM_BYTES0 :: "u8 alloc \<Rightarrow> 'c bstream \<Rightarrow> mnbytes option \<Rightarrow> 'c bstream option" where
  "MN_JPRINTF_ITEM_BYTES0 malloc bs value = MN_JPRINTF_ITEM_BYTES00 malloc bs value [44]"

definition MN_JPRINTF_ITEM_BYTES1 :: "u8 alloc \<Rightarrow> 'c bstream \<Rightarrow> mnbytes option \<Rightarrow> 'c bstream option" where
  "MN_JPRINTF_ITEM_BYTES1 malloc bs value = MN_JPRINTF_ITEM_BYTES00 malloc bs value []"

definition MN_JPRINTF_PAIR_INT0 :: "u8 alloc \<Rightarrow> 'c bstream \<Rightarrow> u8 list \<Rightarrow> 64 word \<Rightarrow> 'c bstream option" where
  "MN_JPRINTF_PAIR_INT0 malloc bs key value = MN_JPRINTF_PAIR_INT00 malloc bs key value [44]"

definition MN_JPRINTF_PAIR_INT1 :: "u8 alloc \<Rightarrow> 'c bstream \<Rightarrow> u8 list \<Rightarrow> 64 word \<Rightarrow> 'c bstream option" where
  "MN_JPRINTF_PAIR_INT1 malloc bs key value = MN_JPRINTF_PAIR_INT00 malloc bs key value []"

definition MN_JPRINTF_ITEM_INT0 :: "u8 alloc \<Rightarrow> 'c bstream \<Rightarrow> 64 word \<Rightarrow> 'c bstream option" where
  "MN_JPRINTF_ITEM_INT0 malloc bs value = MN_JPRINTF_ITEM_INT00 malloc bs value [44]"

definition MN_JPRINTF_ITEM_INT1 :: "u8 alloc \<Rightarrow> 'c bstream \<Rightarrow> 64 word \<Rightarrow> 'c bstream option" where
  "MN_JPRINTF_ITEM_INT1 malloc bs value = MN_JPRINTF_ITEM_INT00 malloc bs value []"

definition MN_JPRINTF_PAIR_FLOAT0 :: "('f \<Rightarrow> u8 list) \<Rightarrow> u8 alloc \<Rightarrow> 'c bstream \<Rightarrow> u8 list \<Rightarrow> 'f \<Rightarrow> 'c bstream option" where
  "MN_JPRINTF_PAIR_FLOAT0 lf malloc bs key value = MN_JPRINTF_PAIR_FLOAT00 lf malloc bs key value [44]"

definition MN_JPRINTF_PAIR_FLOAT1 :: "('f \<Rightarrow> u8 list) \<Rightarrow> u8 alloc \<Rightarrow> 'c bstream \<Rightarrow> u8 list \<Rightarrow> 'f \<Rightarrow> 'c bstream option" where
  "MN_JPRINTF_PAIR_FLOAT1 lf malloc bs key value = MN_JPRINTF_PAIR_FLOAT00 lf malloc bs key value []"

definition MN_JPRINTF_ITEM_FLOAT0 :: "('f \<Rightarrow> u8 list) \<Rightarrow> u8 alloc \<Rightarrow> 'c bstream \<Rightarrow> 'f \<Rightarrow> 'c bstream option" where
  "MN_JPRINTF_ITEM_FLOAT0 lf malloc bs value = MN_JPRINTF_ITEM_FLOAT00 lf malloc bs value [44]"

definition MN_JPRINTF_ITEM_FLOAT1 :: "('f \<Rightarrow> u8 list) \<Rightarrow> u8 alloc \<Rightarrow> 'c bstream \<Rightarrow> 'f \<Rightarrow> 'c bstream option" where
  "MN_JPRINTF_ITEM_FLOAT1 lf malloc bs value = MN_JPRINTF_ITEM_FLOAT00 lf malloc bs value []"

definition MN_JPRINTF_PAIR_QFLOAT0 :: "(nat \<Rightarrow> 'f \<Rightarrow> u8 list) \<Rightarrow> u8 alloc \<Rightarrow> 'c bstream \<Rightarrow> u8 list \<Rightarrow> 'f \<Rightarrow> nat \<Rightarrow> 'c bstream option" where
  "MN_JPRINTF_PAIR_QFLOAT0 qf malloc bs key value precision = MN_JPRINTF_PAIR_QFLOAT00 qf malloc bs key value precision [44]"

definition MN_JPRINTF_PAIR_QFLOAT1 :: "(nat \<Rightarrow> 'f \<Rightarrow> u8 list) \<Rightarrow> u8 alloc \<Rightarrow> 'c bstream \<Rightarrow> u8 list \<Rightarrow> 'f \<Rightarrow> nat \<Rightarrow> 'c bstream option" where
  "MN_JPRINTF_PAIR_QFLOAT1 qf malloc bs key value precision = MN_JPRINTF_PAIR_QFLOAT00 qf malloc bs key value precision []"

definition MN_JPRINTF_ITEM_QFLOAT0 :: "(nat \<Rightarrow> 'f \<Rightarrow> u8 list) \<Rightarrow> u8 alloc \<Rightarrow> 'c bstream \<Rightarrow> 'f \<Rightarrow> nat \<Rightarrow> 'c bstream option" where
  "MN_JPRINTF_ITEM_QFLOAT0 qf malloc bs value precision = MN_JPRINTF_ITEM_QFLOAT00 qf malloc bs value precision [44]"

definition MN_JPRINTF_ITEM_QFLOAT1 :: "(nat \<Rightarrow> 'f \<Rightarrow> u8 list) \<Rightarrow> u8 alloc \<Rightarrow> 'c bstream \<Rightarrow> 'f \<Rightarrow> nat \<Rightarrow> 'c bstream option" where
  "MN_JPRINTF_ITEM_QFLOAT1 qf malloc bs value precision = MN_JPRINTF_ITEM_QFLOAT00 qf malloc bs value precision []"

definition MN_JPRINTF_PAIR_BOOL0 :: "u8 alloc \<Rightarrow> 'c bstream \<Rightarrow> u8 list \<Rightarrow> bool \<Rightarrow> 'c bstream option" where
  "MN_JPRINTF_PAIR_BOOL0 malloc bs key value = MN_JPRINTF_PAIR_BOOL00 malloc bs key value [44]"

definition MN_JPRINTF_PAIR_BOOL1 :: "u8 alloc \<Rightarrow> 'c bstream \<Rightarrow> u8 list \<Rightarrow> bool \<Rightarrow> 'c bstream option" where
  "MN_JPRINTF_PAIR_BOOL1 malloc bs key value = MN_JPRINTF_PAIR_BOOL00 malloc bs key value []"

definition MN_JPRINTF_ITEM_BOOL0 :: "u8 alloc \<Rightarrow> 'c bstream \<Rightarrow> bool \<Rightarrow> 'c bstream option" where
  "MN_JPRINTF_ITEM_BOOL0 malloc bs value = MN_JPRINTF_ITEM_BOOL00 malloc bs value [44]"

definition MN_JPRINTF_ITEM_BOOL1 :: "u8 alloc \<Rightarrow> 'c bstream \<Rightarrow> bool \<Rightarrow> 'c bstream option" where
  "MN_JPRINTF_ITEM_BOOL1 malloc bs value = MN_JPRINTF_ITEM_BOOL00 malloc bs value []"

text \<open>The macros with callbacks: the key is an argument of the format, of a literal or of a byte string.\<close>

definition MN_JPRINTF_PAIR_CB1 ::
  "u8 alloc \<Rightarrow> 'c bstream \<Rightarrow> u8 list \<Rightarrow> ('c, 'w) jwriter \<Rightarrow> 'w \<Rightarrow> ('c bstream \<times> 'w) option" where
  "MN_JPRINTF_PAIR_CB1 malloc bs key cb w =
     do { k \<leftarrow> cstr (key @ [0]);
          bs1 \<leftarrow> jprint malloc bs (int (length key) + 8) (quoted k @ [58]);
          map_option snd (cb bs1 w) }"

definition MN_JPRINTF_PAIR_CB0 ::
  "u8 alloc \<Rightarrow> 'c bstream \<Rightarrow> u8 list \<Rightarrow> ('c, 'w) jwriter \<Rightarrow> 'w \<Rightarrow> ('c bstream \<times> 'w) option" where
  "MN_JPRINTF_PAIR_CB0 malloc bs key cb w =
     do { k \<leftarrow> cstr (key @ [0]);
          bs1 \<leftarrow> jprint malloc bs (int (length key) + 8) (quoted k @ [58]);
          (_, bs2, w1) \<leftarrow> cb bs1 w;
          (_, bs3) \<leftarrow> bytestream_cat malloc bs2 1 [44];
          Some (bs3, w1) }"

definition MN_JPRINTF_BPAIR_CB1 ::
  "u8 alloc \<Rightarrow> 'c bstream \<Rightarrow> mnbytes \<Rightarrow> ('c, 'w) jwriter \<Rightarrow> 'w \<Rightarrow> ('c bstream \<times> 'w) option" where
  "MN_JPRINTF_BPAIR_CB1 malloc bs key cb w =
     do { k \<leftarrow> cstr (bdata key);
          bs1 \<leftarrow> jprint malloc bs (int (bsz key) - 1 + 8) (quoted k @ [58]);
          map_option snd (cb bs1 w) }"

definition MN_JPRINTF_BPAIR_CB0 ::
  "u8 alloc \<Rightarrow> 'c bstream \<Rightarrow> mnbytes \<Rightarrow> ('c, 'w) jwriter \<Rightarrow> 'w \<Rightarrow> ('c bstream \<times> 'w) option" where
  "MN_JPRINTF_BPAIR_CB0 malloc bs key cb w =
     do { k \<leftarrow> cstr (bdata key);
          bs1 \<leftarrow> jprint malloc bs (int (bsz key) - 1 + 8) (quoted k @ [58]);
          (_, bs2, w1) \<leftarrow> cb bs1 w;
          (_, bs3) \<leftarrow> bytestream_cat malloc bs2 1 [44];
          Some (bs3, w1) }"

definition MN_JCHOP_COMMA :: "'c bstream \<Rightarrow> 'c bstream option" where
  "MN_JCHOP_COMMA bs = do { c \<leftarrow> last_byte bs; Some (if c = 44 then SADVANCEEOD bs (-1) else bs) }"

end
