(* ===== verification/Json_Write.thy ===== *)
theory Json_Write
  imports Mn_Json_Write Json_Events Bytestream_Spec
begin

text \<open>
  What the writer of \<^verbatim>\<open>Mn_Json_Write\<close> puts on a stream, and that the parser of \<^verbatim>\<open>Mn_Json\<close> reads it back. The
  client here writes a value of any depth with the functions \<^verbatim>\<open>mnjson_*\<close> the way they are meant to be used:
  every item and every pair with a comma behind it, the last comma chopped at the closing bracket.
\<close>

subsection \<open>Writing to a stream\<close>

text \<open>
  The memory that a writer takes: each call grows the buffer by the room it asks for and at most the growth
  size of the stream, so a multiple of the text bounds all of it.
\<close>

definition unit_cost :: "int \<Rightarrow> int" where
  "unit_cost g = 1026 + 2 * g"

definition wrote :: "'c bstream \<Rightarrow> u8 list \<Rightarrow> 'c bstream \<Rightarrow> bool" where
  "wrote bs t bs' \<longleftrightarrow> bs_wf bs' \<and> stext bs' = stext bs @ t \<and> same_reader bs bs'
     \<and> bssz bs' \<le> bssz bs + unit_cost (growsz bs) * int (length t)"

definition has_room :: "'c bstream \<Rightarrow> u8 list \<Rightarrow> bool" where
  "has_room bs t \<longleftrightarrow> bs_wf bs \<and> length t < 2 ^ 31 \<and> bssz bs + unit_cost (growsz bs) * int (length t) < 2 ^ 63"

definition appends :: "('c, 'w) jwriter \<Rightarrow> u8 list \<Rightarrow> bool" where
  "appends f t \<longleftrightarrow> (\<forall>bs w. has_room bs t \<longrightarrow> (\<exists>r bs'. f bs w = Some (r, bs', w) \<and> wrote bs t bs'))"

lemma wrote_trans: "wrote a t b \<Longrightarrow> wrote b u c \<Longrightarrow> wrote a (t @ u) c"
  by (auto simp: wrote_def same_reader_def algebra_simps)

lemma room_split:
  assumes "has_room bs (t @ u)"
  shows "has_room bs t" "wrote bs t bs' \<Longrightarrow> has_room bs' u"
proof -
  have "0 \<le> unit_cost (growsz bs)" using assms bs_wfD [of bs] by (simp add: has_room_def unit_cost_def)
  then have "0 \<le> unit_cost (growsz bs) * int (length u)" by simp
  then show "has_room bs t" using assms by (simp add: has_room_def algebra_simps)
  show "has_room bs' u" if "wrote bs t bs'"
    using assms that by (simp add: has_room_def wrote_def same_reader_def algebra_simps)
qed

text \<open>A call that asks for no more room than its text and a constant.\<close>

lemma cost_of_call:
  assumes "0 \<le> g" "t \<noteq> []" "int n \<le> int (length t) + 1024"
  shows "int n + g \<le> unit_cost g * int (length t)"
proof -
  have "1 \<le> int (length t)" using assms(2) by (cases t) simp_all
  then have "unit_cost g * 1 \<le> unit_cost g * int (length t)" using assms(1) by (intro mult_left_mono) (simp_all add: unit_cost_def)
  moreover have "(1025 + 2 * g) * 1 \<le> (1025 + 2 * g) * int (length t)" using assms(1) \<open>1 \<le> int (length t)\<close>
    by (intro mult_left_mono) simp_all
  ultimately show ?thesis using assms by (simp add: unit_cost_def algebra_simps)
qed

definition plain :: "('c bstream \<Rightarrow> (int \<times> 'c bstream) option) \<Rightarrow> ('c, 'w) jwriter" where
  "plain f bs w = map_option (\<lambda>(r, bs'). (r, bs', w)) (f bs)"

lemma nprintf_writes:
  fixes bs :: "'c bstream"
  assumes "total_allocator malloc" "has_room bs t" "t \<noteq> []" "length t < sz" "int sz \<le> int (length t) + 1024"
  obtains bs' where "bytestream_nprintf malloc bs sz (Formatted t) = Some (int (length t), bs')" "wrote bs t bs'"
proof -
  have wf: "bs_wf bs" using assms(2) by (simp add: has_room_def)
  have c: "int sz + growsz bs \<le> unit_cost (growsz bs) * int (length t)"
    using assms wf by (intro cost_of_call) (simp_all add: bs_wfD)
  have small: "bssz bs + int sz + growsz bs < 2 ^ 63" using assms(2) c by (simp add: has_room_def)
  have al: "allocator malloc" using assms(1) by (simp add: total_allocator_def)
  have "fst (grow_for malloc bs sz) = rc_ok" by (rule grow_for_total [OF assms(1)])
  then show thesis using nprintf_outcomes [OF al wf small, of "Formatted t"] assms(2,4) c that
    by (auto simp: wrote_def nprintf_outcome_def has_room_def)
qed

lemma room_for_byte:
  assumes "has_room bs (c # t)"
  shows "bs_wf bs" "bssz bs + 1 + growsz bs < 2 ^ 63"
proof -
  show wf: "bs_wf bs" using assms by (simp add: has_room_def)
  have "int 1 + growsz bs \<le> unit_cost (growsz bs) * int (length (c # t))"
    using bs_wfD(6) [OF wf] by (intro cost_of_call) simp_all
  then show "bssz bs + 1 + growsz bs < 2 ^ 63" using assms by (simp add: has_room_def)
qed

lemma cat_writes:
  fixes bs :: "'c bstream"
  assumes "total_allocator malloc" "bs_wf bs" "bssz bs + 1 + growsz bs < 2 ^ 63"
  obtains bs' where "bytestream_cat malloc bs 1 [c] = Some (1, bs')" "wrote bs [c] bs'" "bssz bs' \<le> bssz bs + 1 + growsz bs"
proof -
  have c: "1 + growsz bs \<le> unit_cost (growsz bs)" using bs_wfD(6) [OF assms(2)] by (simp add: unit_cost_def)
  have "bssz bs + int (length [c]) + growsz bs < 2 ^ 63" using assms(3) by simp
  from bytestream_cat_appends [OF assms(1,2) this] obtain bs' where
    "bytestream_cat malloc bs (length [c]) [c] = Some (S32 (int (length [c])), bs')" "bs_wf bs'"
    "stext bs' = stext bs @ [c]" "same_reader bs bs'" "bssz bs' \<le> bssz bs + int (length [c]) + growsz bs" by auto
  then show thesis using c that [of bs'] by (simp add: wrote_def)
qed

lemma plain_appends:
  assumes "\<And>bs :: 'c bstream. f bs = bytestream_nprintf malloc bs sz (Formatted t)"
    and "total_allocator malloc" "t \<noteq> []" "length t < sz" "sz \<le> length t + 1024"
  shows "appends (plain f) t"
  unfolding appends_def plain_def
proof (intro allI impI)
  fix bs :: "'c bstream" and w
  assume room: "has_room bs t"
  obtain bs' where "bytestream_nprintf malloc bs sz (Formatted t) = Some (int (length t), bs')" "wrote bs t bs'"
    by (rule nprintf_writes [OF assms(2) room assms(3,4)]) (use assms(5) in simp_all)
  then show "\<exists>r bs'. map_option (\<lambda>(r, bs'). (r, bs', w)) (f bs) = Some (r, bs', w) \<and> wrote bs t bs'"
    unfolding assms(1) by auto
qed

text \<open>The bytes behind the ones that are copied do not matter.\<close>

lemma cat_prefix: "bytestream_cat malloc bs (length s) (s @ x) = bytestream_cat malloc bs (length s) s"
proof -
  have "memcpy_to d p (s @ x) 0 (length s) = memcpy_to d p s 0 (length s)" for d p by (simp add: memcpy_to_def)
  then show ?thesis by (simp only: bytestream_cat_def)
qed

lemma const_writes:
  fixes bs :: "'c bstream"
  assumes "total_allocator malloc" "bs_wf bs" "bssz bs + 1 + growsz bs < 2 ^ 63"
  obtains bs' where "MN_JCAT_CONST malloc bs [c] = Some (1, bs')" "wrote bs [c] bs'" "bssz bs' \<le> bssz bs + 1 + growsz bs"
proof -
  have "MN_JCAT_CONST malloc bs [c] = bytestream_cat malloc bs 1 [c]"
    using cat_prefix [of malloc bs "[c]" "[0]"] by (simp add: MN_JCAT_CONST_def)
  then show thesis using cat_writes [OF assms] that by metis
qed

text \<open>Chopping the comma: the reading side must not have consumed it.\<close>

lemma last_byte_stext:
  assumes "bs_wf bs" "stext bs = s @ [c]"
  shows "last_byte bs = Some c"
proof -
  obtain d where d: "bsdata bs = Some d" using assms(2) by (cases "bsdata bs") (simp_all add: stext_def sblock_def)
  have l: "eod bs = int (length s) + 1" using length_stext [OF assms(1)] assms(2) by simp
  have "nat (eod bs) \<le> length d" using bs_wfD(7) [OF assms(1)] d by (simp add: sblock_def)
  moreover have "take (nat (eod bs)) d = s @ [c]" using assms(2) d by (simp add: stext_def sblock_def)
  moreover have "nat (eod bs) = Suc (length s)" using l by simp
  ultimately have "length s < length d" "d ! length s = c"
    by (simp, metis lessI nth_append_length nth_take)
  then show ?thesis using d l by (simp add: last_byte_def)
qed

lemma chop_comma_chops:
  assumes "bs_wf bs" "stext bs = s @ [44]" "spos bs \<le> int (length s)"
  shows "mnjson_chop_comma bs = Some (-1, SADVANCEEOD bs (-1))" "bs_wf (SADVANCEEOD bs (-1))"
    "stext (SADVANCEEOD bs (-1)) = s" "same_reader bs (SADVANCEEOD bs (-1))" "bssz (SADVANCEEOD bs (-1)) = bssz bs"
proof -
  have l: "eod bs = int (length s) + 1" using length_stext [OF assms(1)] assms(2) by simp
  show "mnjson_chop_comma bs = Some (-1, SADVANCEEOD bs (-1))"
    using last_byte_stext [OF assms(1,2)] by (simp add: mnjson_chop_comma_def)
  show "bs_wf (SADVANCEEOD bs (-1))" using assms(1,3) l by (simp add: bs_wf_def SADVANCEEOD_def sblock_def)
  have "take (length s) (take (nat (eod bs)) (sblock bs)) = take (length s) (s @ [44])" using assms(2) by (simp add: stext_def)
  moreover have "nat (eod bs) = Suc (length s)" using l by simp
  ultimately have "take (length s) (sblock bs) = s" by (simp add: min_def)
  then show "stext (SADVANCEEOD bs (-1)) = s" using l by (simp add: stext_def SADVANCEEOD_def sblock_def)
  show "same_reader bs (SADVANCEEOD bs (-1))" "bssz (SADVANCEEOD bs (-1)) = bssz bs"
    by (simp_all add: same_reader_def SADVANCEEOD_def)
qed

lemma chop_comma_none:
  assumes "bs_wf bs" "stext bs = s @ [c]" "c \<noteq> 44"
  shows "mnjson_chop_comma bs = Some (0, bs)"
  using last_byte_stext [OF assms(1,2)] assms(3) by (simp add: mnjson_chop_comma_def)

subsection \<open>Values and the client that writes them\<close>

datatype 'f wval = WStr mnbytes | WInt "64 word" | WFlt 'f | WBool bool | WArr "'f wval list" | WObj "'f wmember list"
  and 'f wmember = WMember mnbytes "'f wval"

text \<open>One writer after another.\<close>

definition then_write :: "('c, 'w) jwriter \<Rightarrow> ('c, 'w) jwriter \<Rightarrow> ('c, 'w) jwriter" where
  "then_write f g bs w =
     do { (r, bs1, w1) \<leftarrow> f bs w; (r', bs2, w2) \<leftarrow> g bs1 w1; Some (r + r', bs2, w2) }"

text \<open>Brackets around what a writer puts out, without its last comma.\<close>

definition enclosed :: "u8 alloc \<Rightarrow> u8 \<Rightarrow> u8 \<Rightarrow> ('c, 'w) jwriter \<Rightarrow> ('c, 'w) jwriter" where
  "enclosed malloc c c' body bs w =
     do { (r1, bs1) \<leftarrow> MN_JCAT_CONST malloc bs [c];
          (r2, bs2, w1) \<leftarrow> body bs1 w;
          (r3, bs3) \<leftarrow> mnjson_chop_comma bs2;
          (r4, bs4) \<leftarrow> MN_JCAT_CONST malloc bs3 [c'];
          Some (r1 + r2 + r3 + r4, bs4, w1) }"

text \<open>A writer used as the callback for an item or for the value of a pair.\<close>

definition as_item :: "u8 alloc \<Rightarrow> ('c, 'w) jwriter \<Rightarrow> ('c, 'w) jwriter" where
  "as_item malloc cb bs w = mnjson_cb_item0 malloc bs cb w"

definition as_pair :: "u8 alloc \<Rightarrow> mnbytes \<Rightarrow> ('c, 'w) jwriter \<Rightarrow> ('c, 'w) jwriter" where
  "as_pair malloc k cb bs w = mnjson_cb_pair0 malloc bs k cb w"

text \<open>A boolean in a pair is written by a callback.\<close>

fun write_item :: "('f \<Rightarrow> u8 list) \<Rightarrow> u8 alloc \<Rightarrow> 'f wval \<Rightarrow> ('c, 'w) jwriter"
  and write_member :: "('f \<Rightarrow> u8 list) \<Rightarrow> u8 alloc \<Rightarrow> 'f wmember \<Rightarrow> ('c, 'w) jwriter"
  and write_items :: "('f \<Rightarrow> u8 list) \<Rightarrow> u8 alloc \<Rightarrow> 'f wval list \<Rightarrow> ('c, 'w) jwriter"
  and write_members :: "('f \<Rightarrow> u8 list) \<Rightarrow> u8 alloc \<Rightarrow> 'f wmember list \<Rightarrow> ('c, 'w) jwriter" where
  "write_item lf malloc (WStr b) = plain (\<lambda>bs. mnjson_bytes_item0 malloc bs b)"
| "write_item lf malloc (WInt i) = plain (\<lambda>bs. mnjson_int_item0 malloc bs i)"
| "write_item lf malloc (WFlt x) = plain (\<lambda>bs. mnjson_float_item0 lf malloc bs x)"
| "write_item lf malloc (WBool b) = plain (\<lambda>bs. mnjson_bool_item0 malloc bs b)"
| "write_item lf malloc (WArr vs) = as_item malloc (enclosed malloc 91 93 (write_items lf malloc vs))"
| "write_item lf malloc (WObj ms) = as_item malloc (enclosed malloc 123 125 (write_members lf malloc ms))"
| "write_member lf malloc (WMember k (WStr b)) = plain (\<lambda>bs. mnjson_bytes_pair0 malloc bs k b)"
| "write_member lf malloc (WMember k (WInt i)) = plain (\<lambda>bs. mnjson_int_pair0 malloc bs k i)"
| "write_member lf malloc (WMember k (WFlt x)) = plain (\<lambda>bs. mnjson_float_pair0 lf malloc bs k x)"
| "write_member lf malloc (WMember k (WBool b)) = as_pair malloc k (plain (\<lambda>bs. mnjson_bool_item1 malloc bs b))"
| "write_member lf malloc (WMember k (WArr vs)) =
     as_pair malloc k (enclosed malloc 91 93 (write_items lf malloc vs))"
| "write_member lf malloc (WMember k (WObj ms)) =
     as_pair malloc k (enclosed malloc 123 125 (write_members lf malloc ms))"
| "write_items lf malloc [] = (\<lambda>bs w. Some (0, bs, w))"
| "write_items lf malloc (v # vs) = then_write (write_item lf malloc v) (write_items lf malloc vs)"
| "write_members lf malloc [] = (\<lambda>bs w. Some (0, bs, w))"
| "write_members lf malloc (m # ms) = then_write (write_member lf malloc m) (write_members lf malloc ms)"

text \<open>The text that is expected.\<close>

definition str_of :: "mnbytes \<Rightarrow> u8 list" where
  "str_of b = butlast (content b)"

fun wtext :: "('f \<Rightarrow> u8 list) \<Rightarrow> 'f wval \<Rightarrow> u8 list"
  and wtext_member :: "('f \<Rightarrow> u8 list) \<Rightarrow> 'f wmember \<Rightarrow> u8 list" where
  "wtext lf (WStr b) = quoted (json_text (str_of b))"
| "wtext lf (WInt i) = c_ld i"
| "wtext lf (WFlt x) = lf x"
| "wtext lf (WBool b) = c_bool b"
| "wtext lf (WArr vs) = 91 # butlast (concat (map (\<lambda>v. wtext lf v @ [44]) vs)) @ [93]"
| "wtext lf (WObj ms) = 123 # butlast (concat (map (\<lambda>m. wtext_member lf m @ [44]) ms)) @ [125]"
| "wtext_member lf (WMember k v) = quoted (str_of k) @ 58 # wtext lf v"

text \<open>
  What the client must see to: strings and keys are terminated and have no other zero byte, a key has no
  quote of its own, and a double is printed as a decimal fraction of at most 317 characters, which is
  what \<^verbatim>\<open>%lf\<close> does with every finite one.
\<close>

definition c_string :: "mnbytes \<Rightarrow> bool" where
  "c_string b \<longleftrightarrow> bytes_wf b \<and> bsz b < 2 ^ 60 \<and> content b = str_of b @ [0] \<and> 0 \<notin> set (str_of b)"

fun writable :: "('f \<Rightarrow> u8 list) \<Rightarrow> 'f wval \<Rightarrow> bool"
  and writable_member :: "('f \<Rightarrow> u8 list) \<Rightarrow> 'f wmember \<Rightarrow> bool" where
  "writable lf (WStr b) \<longleftrightarrow> c_string b"
| "writable lf (WInt i) \<longleftrightarrow> True"
| "writable lf (WFlt x) \<longleftrightarrow> num_text (lf x) \<and> \<not> int_text (lf x) \<and> length (lf x) \<le> 317"
| "writable lf (WBool b) \<longleftrightarrow> True"
| "writable lf (WArr vs) \<longleftrightarrow> (\<forall>v \<in> set vs. writable lf v)"
| "writable lf (WObj ms) \<longleftrightarrow> (\<forall>m \<in> set ms. writable_member lf m)"
| "writable_member lf (WMember k v) \<longleftrightarrow> c_string k \<and> closed (str_of k) \<and> writable lf v"

subsection \<open>Each function puts out its text\<close>

lemma quoted_length [simp]: "length (quoted s) = length s + 2"
  by (simp add: quoted_def)

lemma c_string_cstr:
  assumes "c_string b"
  shows "cstr (bdata b) = Some (str_of b)" "bsz b = length (str_of b) + 1" "bsz b < 2 ^ 60"
proof -
  have c: "content b = str_of b @ [0]" "0 \<notin> set (str_of b)" "bytes_wf b" using assms by (simp_all add: c_string_def)
  have "bdata b = str_of b @ 0 # drop (bsz b) (bdata b)" using c(1) append_take_drop_id [of "bsz b" "bdata b"] by simp
  then show "cstr (bdata b) = Some (str_of b)" using cstr_terminated [OF c(2), of "drop (bsz b) (bdata b)"] by simp
  have "length (content b) = bsz b" using c(3) by (simp add: bytes_wf_def)
  then show "bsz b = length (str_of b) + 1" using c(1) by simp
  show "bsz b < 2 ^ 60" using assms by (simp add: c_string_def)
qed

lemma json_esc_nonzero: "json_esc c = Some e \<Longrightarrow> e \<noteq> 0"
  by (auto simp: json_esc_def split: if_splits)

lemma json_text_nonzero: "0 \<notin> set s \<Longrightarrow> 0 \<notin> set (json_text s)"
  using json_esc_nonzero by (induction s) (auto split: option.splits)

lemma escape_cstr:
  assumes "total_allocator malloc" "c_string b"
  obtains e where "bytes_json_escape malloc b = Some e" "cstr (bdata e) = Some (json_text (str_of b))"
    "bsz e = length (json_text (str_of b)) + 1" "bsz e < 2 ^ 62"
proof -
  have c: "bytes_wf b" "bsz b < 2 ^ 60" "content b = str_of b @ [0]" "0 \<notin> set (str_of b)"
    using assms(2) by (simp_all add: c_string_def)
  obtain e where e: "bytes_json_escape malloc b = Some e" "bytes_wf e" "content e = json_text (str_of b) @ [0]"
    using bytes_json_escape_spec [OF assms(1) c(1-3)] .
  have l: "bsz e = length (json_text (str_of b)) + 1" using e(2) arg_cong [OF e(3), of length] by (simp add: bytes_wf_def)
  have "bdata e = json_text (str_of b) @ 0 # drop (bsz e) (bdata e)"
    using e(3) append_take_drop_id [of "bsz e" "bdata e"] by simp
  then have "cstr (bdata e) = Some (json_text (str_of b))"
    using cstr_terminated [OF json_text_nonzero [OF c(4)], of "drop (bsz e) (bdata e)"] by simp
  moreover have "bsz e < 2 ^ 62" using l json_text_length [of "str_of b"] c_string_cstr(2,3) [OF assms(2)] by simp
  ultimately show thesis using that e(1) l by blast
qed

lemma dec_digits_length:
  assumes "n < 10 ^ k" "0 < k"
  shows "0 < length (dec_digits n)" "length (dec_digits n) \<le> k"
  using assms
proof (induction n arbitrary: k rule: dec_digits.induct)
  case (1 n)
  { case 1 show ?case by (subst dec_digits.simps) simp }
  { case 2
    show ?case
    proof (cases "n < 10")
      case True
      then show ?thesis using 2 by (subst dec_digits.simps) simp
    next
      case False
      then obtain j where j: "k = Suc j" "0 < j" using 2 by (cases k; cases "k - 1") auto
      have "n div 10 < 10 ^ j" using 2(1) j(1) by (simp add: less_mult_imp_div_less)
      from "1.IH"(2) [OF False this j(2)] show ?thesis using False j by (subst dec_digits.simps) simp
    qed }
qed

lemma c_ld_length: "0 < length (c_ld i)" "length (c_ld i) \<le> 20"
proof -
  have r: "- (2 ^ 63) \<le> sint i" "sint i < 2 ^ 63" using sint_greater_eq [of i] sint_less [of i] by simp_all
  have "nat (- sint i) < 10 ^ 19" "nat (sint i) < 10 ^ 19" using r by (simp_all add: nat_less_iff)
  note d = dec_digits_length [OF this(1)] dec_digits_length [OF this(2)]
  show "0 < length (c_ld i)" using d by (simp add: c_ld_def)
  show "length (c_ld i) \<le> 20" using d by (simp add: c_ld_def)
qed

lemma c_bool_length: "0 < length (c_bool b)" "length (c_bool b) \<le> 5"
  by (simp_all add: c_bool_def)

lemma bytes_item_text:
  assumes "total_allocator malloc" "c_string b"
  shows "mnjson_bytes_item0 malloc bs b = bytestream_nprintf malloc bs (length (json_text (str_of b)) + 4) (Formatted (quoted (json_text (str_of b)) @ [44]))"
proof -
  obtain e where e: "bytes_json_escape malloc b = Some e" "cstr (bdata e) = Some (json_text (str_of b))"
    "bsz e = length (json_text (str_of b)) + 1" "bsz e < 2 ^ 62" using escape_cstr [OF assms] .
  have "szof (4 + int (bsz e) - 1) = length (json_text (str_of b)) + 4" using e(3,4) by simp
  then show ?thesis using e(1,2) unfolding mnjson_bytes_item0_def MNJSON_BYTES_ITEM_BODY_def by simp
qed

lemma bytes_pair_text:
  assumes "total_allocator malloc" "c_string b" "c_string k"
  shows "mnjson_bytes_pair0 malloc bs k b =
    bytestream_nprintf malloc bs (length (str_of k) + length (json_text (str_of b)) + 8)
      (Formatted (quoted (str_of k) @ 58 # quoted (json_text (str_of b)) @ [44]))"
proof -
  obtain e where e: "bytes_json_escape malloc b = Some e" "cstr (bdata e) = Some (json_text (str_of b))"
    "bsz e = length (json_text (str_of b)) + 1" "bsz e < 2 ^ 62" using escape_cstr [OF assms(1,2)] .
  have "szof (int (bsz k) - 1 + 8 + int (bsz e) - 1) = length (str_of k) + length (json_text (str_of b)) + 8"
    using e(3,4) c_string_cstr(2,3) [OF assms(3)] by simp
  then show ?thesis using e(1,2) c_string_cstr(1) [OF assms(3)]
    unfolding mnjson_bytes_pair0_def MNJSON_BYTES_PAIR_BODY_def by simp
qed

lemma key_room: "c_string k \<Longrightarrow> n < 2 ^ 62 \<Longrightarrow> szof (int (bsz k) - 1 + int n) = length (str_of k) + n"
  using c_string_cstr(2,3) [of k] by simp

lemma int_pair_text:
  "c_string k \<Longrightarrow> mnjson_int_pair0 malloc bs k i =
     bytestream_nprintf malloc bs (length (str_of k) + 64) (Formatted (quoted (str_of k) @ 58 # c_ld i @ [44]))"
  using key_room [of k 64] by (simp add: mnjson_int_pair0_def MNJSON_INT_PAIR_BODY_def c_string_cstr)

lemma float_pair_text:
  "c_string k \<Longrightarrow> mnjson_float_pair0 lf malloc bs k x =
     bytestream_nprintf malloc bs (length (str_of k) + 1024) (Formatted (quoted (str_of k) @ 58 # lf x @ [44]))"
  using key_room [of k 1024] by (simp add: mnjson_float_pair0_def MNJSON_FLOAT_PAIR_BODY_def c_string_cstr)

lemma cb_item_appends:
  fixes f :: "('c, 'w) jwriter"
  assumes al: "total_allocator malloc" and f: "appends f t"
  shows "appends (as_item malloc f) (t @ [44])"
  unfolding appends_def
proof (intro allI impI)
  fix bs :: "'c bstream" and w
  assume room: "has_room bs (t @ [44])"
  obtain r bs1 where 1: "f bs w = Some (r, bs1, w)" "wrote bs t bs1"
    using f room_split(1) [OF room] unfolding appends_def by blast
  obtain bs2 where 2: "bytestream_cat malloc bs1 1 [44] = Some (1, bs2)" "wrote bs1 [44] bs2"
    using cat_writes [OF al room_for_byte [OF room_split(2) [OF room 1(2)]]] by metis
  show "\<exists>r bs'. as_item malloc f bs w = Some (r, bs', w) \<and> wrote bs (t @ [44]) bs'"
    using 1(1) 2(1) wrote_trans [OF 1(2) 2(2)] unfolding as_item_def mnjson_cb_item0_def by simp
qed

lemma cb_pair_appends:
  fixes f :: "('c, 'w) jwriter"
  assumes al: "total_allocator malloc" and f: "appends f t" and k: "c_string k"
  shows "appends (as_pair malloc k f) (quoted (str_of k) @ 58 # t @ [44])"
  unfolding appends_def
proof (intro allI impI)
  fix bs :: "'c bstream" and w
  let ?k = "quoted (str_of k) @ [58]"
  assume "has_room bs (quoted (str_of k) @ 58 # t @ [44])"
  then have room: "has_room bs (?k @ t @ [44])" by simp
  obtain bs0 where 0: "bytestream_nprintf malloc bs (length (str_of k) + 8) (Formatted ?k) = Some (int (length ?k), bs0)" "wrote bs ?k bs0"
    by (rule nprintf_writes [OF al room_split(1) [OF room], of "length (str_of k) + 8"]) simp_all
  have key: "bytestream_nprintf malloc bs (szof (int (bsz k) - 1 + 8)) (Formatted ?k) = Some (int (length ?k), bs0)"
    using key_room [OF k, of 8] 0(1) by simp
  note room0 = room_split(2) [OF room 0(2)]
  obtain r bs1 where 1: "f bs0 w = Some (r, bs1, w)" "wrote bs0 t bs1"
    using f room_split(1) [OF room0] unfolding appends_def by blast
  obtain bs2 where 2: "bytestream_cat malloc bs1 1 [44] = Some (1, bs2)" "wrote bs1 [44] bs2"
    using cat_writes [OF al room_for_byte [OF room_split(2) [OF room0 1(2)]]] by metis
  show "\<exists>r bs'. as_pair malloc k f bs w = Some (r, bs', w) \<and> wrote bs (quoted (str_of k) @ 58 # t @ [44]) bs'"
    using key 1(1) 2(1) wrote_trans [OF 0(2) wrote_trans [OF 1(2) 2(2)]] c_string_cstr(1) [OF k]
    unfolding as_pair_def mnjson_cb_pair0_def MNJSON_CB_PAIR_BODY_def by simp
qed

text \<open>The last comma goes, nothing else does.\<close>

lemma chop_comma_effect:
  assumes "bs_wf bs" "stext bs = s @ c # u" "c \<noteq> 44" "u = [] \<or> last u = 44" "spos bs \<le> int (length s)"
  obtains r bs' where "mnjson_chop_comma bs = Some (r, bs')" "bs_wf bs'" "stext bs' = s @ c # butlast u"
    "same_reader bs bs'" "bssz bs' = bssz bs"
proof (cases "u = []")
  case True
  then have "mnjson_chop_comma bs = Some (0, bs)" using assms by (intro chop_comma_none [of bs s c]) simp_all
  then show thesis using that True assms by simp
next
  case False
  then have u: "u = butlast u @ [44]" using assms(4) by (metis append_butlast_last_id)
  have t: "stext bs = (s @ c # butlast u) @ [44]" using assms(2) u by (metis append.assoc append_Cons)
  have "spos bs \<le> int (length (s @ c # butlast u))" using assms(5) by simp
  from chop_comma_chops [OF assms(1) t this] show thesis using that by blast
qed

lemma enclosed_appends:
  fixes f :: "('c, 'w) jwriter"
  assumes al: "total_allocator malloc" and f: "appends f u" and u: "u = [] \<or> last u = 44" and c: "c \<noteq> 44"
  shows "appends (enclosed malloc c c' f) (c # butlast u @ [c'])"
  unfolding appends_def
proof (intro allI impI)
  fix bs :: "'c bstream" and w
  assume room: "has_room bs (c # butlast u @ [c'])"
  let ?g = "growsz bs"
  note wf = room_for_byte [OF room]
  have pos: "spos bs \<le> int (length (stext bs))" "0 \<le> ?g" using length_stext [OF wf(1)] bs_wfD [OF wf(1)] by simp_all
  have len: "int (length u) + 1 \<le> int (length (c # butlast u @ [c']))" by (cases u rule: rev_cases) simp_all
  have cost: "2 + 2 * ?g + unit_cost ?g * int (length u) \<le> unit_cost ?g * int (length (c # butlast u @ [c']))"
  proof -
    have "unit_cost ?g * (int (length u) + 1) \<le> unit_cost ?g * int (length (c # butlast u @ [c']))"
      using len pos(2) by (intro mult_left_mono) (simp_all add: unit_cost_def)
    moreover have "2 + 2 * ?g \<le> unit_cost ?g" by (simp add: unit_cost_def)
    ultimately show ?thesis by (simp add: distrib_left)
  qed
  have small: "bssz bs + (2 + 2 * ?g + unit_cost ?g * int (length u)) < 2 ^ 63" using room cost by (simp add: has_room_def)
  obtain bs1 where 1: "MN_JCAT_CONST malloc bs [c] = Some (1, bs1)" "wrote bs [c] bs1" "bssz bs1 \<le> bssz bs + 1 + ?g"
    using const_writes [OF al wf] by metis
  have g1: "growsz bs1 = ?g" "spos bs1 = spos bs" "bs_wf bs1" "stext bs1 = stext bs @ [c]"
    using 1(2) by (simp_all add: wrote_def same_reader_def)
  have "length u < 2 ^ 31" using room by (auto simp: has_room_def)
  then have "has_room bs1 u" using g1 1(3) small pos(2) by (simp add: has_room_def)
  then obtain r bs2 where 2: "f bs1 w = Some (r, bs2, w)" "wrote bs1 u bs2" using f unfolding appends_def by blast
  have g2: "bs_wf bs2" "stext bs2 = stext bs @ c # u" "spos bs2 = spos bs"
      "bssz bs2 \<le> bssz bs + 1 + ?g + unit_cost ?g * int (length u)"
    using 2(2) g1 1(3) by (simp_all add: wrote_def same_reader_def)
  have sp: "spos bs2 \<le> int (length (stext bs))" using g2(3) pos(1) by simp
  obtain r' bs3 where 3: "mnjson_chop_comma bs2 = Some (r', bs3)" "bs_wf bs3" "stext bs3 = stext bs @ c # butlast u"
      "same_reader bs2 bs3" "bssz bs3 = bssz bs2"
    by (rule chop_comma_effect [OF g2(1,2) c u sp])
  have sr: "same_reader bs bs3" using 1(2) 2(2) 3(4) by (auto simp: wrote_def intro: same_reader_trans)
  then have g3: "growsz bs3 = ?g" by (simp add: same_reader_def)
  have "bssz bs3 + 1 + growsz bs3 < 2 ^ 63" using g3 3(5) g2(4) small by linarith
  then obtain bs4 where 4: "MN_JCAT_CONST malloc bs3 [c'] = Some (1, bs4)" "wrote bs3 [c'] bs4" "bssz bs4 \<le> bssz bs3 + 1 + growsz bs3"
    using const_writes [OF al 3(2)] by metis
  have "bssz bs4 \<le> bssz bs + unit_cost ?g * int (length (c # butlast u @ [c']))"
    using 4(3) g3 3(5) g2(4) cost by linarith
  then have "wrote bs (c # butlast u @ [c']) bs4"
    using 4(2) 3(3) sr by (auto simp: wrote_def intro: same_reader_trans)
  then show "\<exists>r bs'. enclosed malloc c c' f bs w = Some (r, bs', w) \<and> wrote bs (c # butlast u @ [c']) bs'"
    using 1(1) 2(1) 3(1) 4(1) by (simp add: enclosed_def)
qed

lemma then_write_appends:
  fixes f g :: "('c, 'w) jwriter"
  assumes "appends f t" "appends g u"
  shows "appends (then_write f g) (t @ u)"
  unfolding appends_def
proof (intro allI impI)
  fix bs :: "'c bstream" and w
  assume room: "has_room bs (t @ u)"
  obtain r bs1 where 1: "f bs w = Some (r, bs1, w)" "wrote bs t bs1"
    using assms(1) room_split(1) [OF room] unfolding appends_def by blast
  obtain r' bs2 where 2: "g bs1 w = Some (r', bs2, w)" "wrote bs1 u bs2"
    using assms(2) room_split(2) [OF room 1(2)] unfolding appends_def by blast
  show "\<exists>r bs'. then_write f g bs w = Some (r, bs', w) \<and> wrote bs (t @ u) bs'"
    using 1(1) 2(1) wrote_trans [OF 1(2) 2(2)] by (simp add: then_write_def)
qed

lemma nothing_appends: "appends (\<lambda>bs w. Some (0, bs, w)) []"
  by (auto simp: appends_def has_room_def wrote_def)

lemma commas_last: "concat (map (\<lambda>v. f v @ [44]) vs) = [] \<or> last (concat (map (\<lambda>v. f v @ [44]) vs)) = (44 :: u8)"
  by (induction vs rule: rev_induct) simp_all

text \<open>The client puts out the text of the value.\<close>

lemma write_appends:
  shows "total_allocator malloc \<Longrightarrow> writable lf v
      \<Longrightarrow> appends (write_item lf malloc v :: ('c, 'w) jwriter) (wtext lf v @ [44])"
    and "total_allocator malloc \<Longrightarrow> writable_member lf m
      \<Longrightarrow> appends (write_member lf malloc m :: ('c, 'w) jwriter) (wtext_member lf m @ [44])"
    and "total_allocator malloc \<Longrightarrow> \<forall>v \<in> set vs. writable lf v
      \<Longrightarrow> appends (write_items lf malloc vs :: ('c, 'w) jwriter) (concat (map (\<lambda>v. wtext lf v @ [44]) vs))"
    and "total_allocator malloc \<Longrightarrow> \<forall>m \<in> set ms. writable_member lf m
      \<Longrightarrow> appends (write_members lf malloc ms :: ('c, 'w) jwriter) (concat (map (\<lambda>m. wtext_member lf m @ [44]) ms))"
proof (induction lf malloc v and lf malloc m and lf malloc vs and lf malloc ms
    rule: write_item_write_member_write_items_write_members.induct)
  case (1 lf malloc b)
  then show ?case
    unfolding write_item.simps wtext.simps by (intro plain_appends [OF bytes_item_text]) simp_all
next
  case (2 lf malloc i)
  then show ?case using c_ld_length [of i]
    unfolding write_item.simps by (intro plain_appends) (auto simp: mnjson_int_item0_def MNJSON_INT_ITEM_BODY_def)
next
  case (3 lf malloc x)
  then show ?case
    unfolding write_item.simps by (intro plain_appends) (auto simp: mnjson_float_item0_def MNJSON_FLOAT_ITEM_BODY_def)
next
  case (4 lf malloc b)
  then show ?case using c_bool_length [of b]
    unfolding write_item.simps by (intro plain_appends) (auto simp: mnjson_bool_item0_def MNJSON_BOOL_ITEM_BODY_def)
next
  case (5 lf malloc vs)
  then have "appends (enclosed malloc 91 93 (write_items lf malloc vs) :: ('c, 'w) jwriter) (wtext lf (WArr vs))"
    unfolding wtext.simps by (intro enclosed_appends commas_last) simp_all
  then show ?case using 5 unfolding write_item.simps by (intro cb_item_appends)
next
  case (6 lf malloc ms)
  then have "appends (enclosed malloc 123 125 (write_members lf malloc ms) :: ('c, 'w) jwriter) (wtext lf (WObj ms))"
    unfolding wtext.simps by (intro enclosed_appends commas_last) simp_all
  then show ?case using 6 unfolding write_item.simps by (intro cb_item_appends)
next
  case (7 lf malloc k b)
  then show ?case
    unfolding write_member.simps wtext_member.simps wtext.simps append_assoc append_Cons by (intro plain_appends [OF bytes_pair_text]) simp_all
next
  case (8 lf malloc k i)
  then show ?case using c_ld_length [of i]
    unfolding write_member.simps wtext_member.simps wtext.simps append_assoc append_Cons by (intro plain_appends [OF int_pair_text]) simp_all
next
  case (9 lf malloc k x)
  then show ?case
    unfolding write_member.simps wtext_member.simps wtext.simps append_assoc append_Cons by (intro plain_appends [OF float_pair_text]) simp_all
next
  case (10 lf malloc k b)
  then have "appends (plain (\<lambda>bs. mnjson_bool_item1 malloc bs b) :: ('c, 'w) jwriter) (c_bool b)"
    using c_bool_length [of b] by (intro plain_appends) (auto simp: mnjson_bool_item1_def MNJSON_BOOL_ITEM_BODY_def)
  from cb_pair_appends [OF 10(1) this, of k] show ?case using 10 by simp
next
  case (11 lf malloc k vs)
  then have "appends (enclosed malloc 91 93 (write_items lf malloc vs) :: ('c, 'w) jwriter) (wtext lf (WArr vs))"
    unfolding wtext.simps by (intro enclosed_appends commas_last) simp_all
  from cb_pair_appends [OF 11(2) this, of k] show ?case using 11 by simp
next
  case (12 lf malloc k ms)
  then have "appends (enclosed malloc 123 125 (write_members lf malloc ms) :: ('c, 'w) jwriter) (wtext lf (WObj ms))"
    unfolding wtext.simps by (intro enclosed_appends commas_last) simp_all
  from cb_pair_appends [OF 12(2) this, of k] show ?case using 12 by simp
next
  case (13 lf malloc)
  show ?case using nothing_appends by simp
next
  case (14 lf malloc v vs)
  then have "appends (write_item lf malloc v :: ('c, 'w) jwriter) (wtext lf v @ [44])"
    "appends (write_items lf malloc vs :: ('c, 'w) jwriter) (concat (map (\<lambda>v. wtext lf v @ [44]) vs))" by simp_all
  from then_write_appends [OF this] show ?case by simp
next
  case (15 lf malloc)
  show ?case using nothing_appends by simp
next
  case (16 lf malloc m ms)
  then have "appends (write_member lf malloc m :: ('c, 'w) jwriter) (wtext_member lf m @ [44])"
    "appends (write_members lf malloc ms :: ('c, 'w) jwriter) (concat (map (\<lambda>m. wtext_member lf m @ [44]) ms))" by simp_all
  from then_write_appends [OF this] show ?case by simp
qed

subsection \<open>The text spells the value\<close>

fun json_of :: "('f \<Rightarrow> u8 list) \<Rightarrow> 'f wval \<Rightarrow> json"
  and json_of_member :: "('f \<Rightarrow> u8 list) \<Rightarrow> 'f wmember \<Rightarrow> member" where
  "json_of lf (WStr b) = JStr (json_text (str_of b))"
| "json_of lf (WInt i) = JNum (c_ld i)"
| "json_of lf (WFlt x) = JNum (lf x)"
| "json_of lf (WBool b) = JTok (c_bool b)"
| "json_of lf (WArr vs) = JArr (map (json_of lf) vs)"
| "json_of lf (WObj ms) = JObj (map (json_of_member lf) ms)"
| "json_of_member lf (WMember k v) = Member (str_of k) (json_of lf v)"

lemma closed_plain: "c \<noteq> 92 \<Longrightarrow> c \<noteq> 34 \<Longrightarrow> closed t \<Longrightarrow> closed (c # t)"
  by (cases t) simp_all

lemma closed_json_text: "closed (json_text s)"
proof (induction s)
  case (Cons c s)
  have "c \<noteq> 92 \<and> c \<noteq> 34" if "json_esc c = None" using that by (auto simp: json_esc_def)
  then show ?case using Cons closed_plain by (auto split: option.splits)
qed simp

lemma digit_byte:
  assumes "d < 10"
  shows "JSN_ISDIGIT (of_nat (48 + d))" "uint (of_nat (48 + d) :: u8) = 48 + int d"
proof -
  have "d = 0 \<or> d = 1 \<or> d = 2 \<or> d = 3 \<or> d = 4 \<or> d = 5 \<or> d = 6 \<or> d = 7 \<or> d = 8 \<or> d = 9" using assms by presburger
  then show "JSN_ISDIGIT (of_nat (48 + d))" "uint (of_nat (48 + d) :: u8) = 48 + int d"
    by (elim disjE; simp add: JSN_ISDIGIT_def)+
qed

lemma dec_digits_digits: "\<forall>d \<in> set (dec_digits n). JSN_ISDIGIT d"
proof (induction n rule: dec_digits.induct)
  case (1 n)
  have "JSN_ISDIGIT (of_nat (48 + n mod 10))" by (rule digit_byte) simp
  then show ?case using 1 by (subst dec_digits.simps) auto
qed

lemma digits_val_snoc: "digits_val (ds @ [d]) = digits_val ds * 10 + (uint d - 48)"
  by (simp add: digits_val_def)

lemma digits_val_dec: "digits_val (dec_digits n) = int n"
proof (induction n rule: dec_digits.induct)
  case (1 n)
  have d: "uint (of_nat (48 + n mod 10) :: u8) - 48 = int (n mod 10)" using digit_byte(2) [of "n mod 10"] by simp
  show ?case
  proof (cases "n < 10")
    case True
    then show ?thesis using d by (subst dec_digits.simps) (simp add: digits_val_def)
  next
    case False
    have "digits_val (dec_digits n) = digits_val (dec_digits (n div 10)) * 10 + int (n mod 10)"
      using False d by (subst dec_digits.simps) (simp add: digits_val_snoc)
    also have "\<dots> = int (n div 10 * 10 + n mod 10)" unfolding 1 [OF False] by (simp only: of_nat_add of_nat_mult of_nat_numeral)
    finally show ?thesis by (simp only: div_mult_mod_eq)
  qed
qed

lemma dec_digits_hd: "\<exists>d ds. dec_digits n = d # ds \<and> JSN_ISDIGIT d \<and> (\<forall>x \<in> set ds. JSN_ISDIGIT x)"
proof -
  have "dec_digits n \<noteq> []" by (subst dec_digits.simps) simp
  then show ?thesis using dec_digits_digits [of n] by (cases "dec_digits n") simp_all
qed

lemma take_digits [simp]: "takeWhile JSN_ISDIGIT (dec_digits n) = dec_digits n"
  using dec_digits_digits [of n] by (simp add: takeWhile_eq_all_conv)

text \<open>The parser reads an integer back.\<close>

lemma long_value_c_ld: "long_value (c_ld i) = sint i"
proof -
  have r: "- (2 ^ 63) \<le> sint i" "sint i < 2 ^ 63" using sint_greater_eq [of i] sint_less [of i] by simp_all
  obtain d ds where d: "dec_digits (nat (sint i)) = d # ds" "JSN_ISDIGIT d" using dec_digits_hd by blast
  have nd: "\<not> c_isspace d" "d \<noteq> 45" "d \<noteq> 43" using digit_no_space [OF d(2)] by simp_all
  show ?thesis
  proof (cases "sint i < 0")
    case True
    have "\<not> c_isspace 45" by (simp add: c_isspace_def)
    then have "long_value (c_ld i) = clamp_long (- digits_val (dec_digits (nat (- sint i))))"
      using True by (simp add: c_ld_def long_value_def long_digits_def)
    then show ?thesis using True r by (simp add: digits_val_dec clamp_long_def)
  next
    case False
    then have "long_value (c_ld i) = clamp_long (digits_val (takeWhile JSN_ISDIGIT (d # ds)))"
      using nd d(1) by (simp add: c_ld_def long_value_def long_digits_def)
    then show ?thesis using False r unfolding d(1) [symmetric] by (simp add: digits_val_dec clamp_long_def)
  qed
qed

lemma c_ld_text: "num_text (c_ld i)" "int_text (c_ld i)"
proof -
  obtain d ds where d: "dec_digits (nat (sint i)) = d # ds" "JSN_ISDIGIT d" "\<forall>x \<in> set ds. JSN_ISDIGIT x"
    using dec_digits_hd by blast
  show "num_text (c_ld i)" "int_text (c_ld i)" using d dec_digits_digits [of "nat (- sint i)"]
    by (simp_all add: c_ld_def int_text_def num_char_def)
qed

lemma c_bool_lit: "c_bool True = lit_true" "c_bool False = lit_false" "lit_false \<noteq> lit_true"
  by (simp_all add: c_bool_def lit_true_def lit_false_def)

text \<open>Elements with a comma behind each, of which the last is chopped, are elements with commas between them.\<close>

lemma butlast_commas:
  "butlast (concat (map (\<lambda>v. f v @ [44 :: u8]) (v # vs))) = f v @ concat (map (\<lambda>v. 44 # f v) vs)"
proof -
  have "concat (map (\<lambda>v. f v @ [44]) (v # vs)) = (f v @ concat (map (\<lambda>v. 44 # f v) vs)) @ [44]"
    by (induction vs arbitrary: v) simp_all
  then show ?thesis by (metis butlast_snoc)
qed

lemma arr_tail_items:
  "\<forall>v \<in> set vs. spells (g v) (f v) \<Longrightarrow> arr_tail (map g vs) (concat (map (\<lambda>v. 44 # f v) vs) @ [93])"
proof (induction vs)
  case Nil
  show ?case using arr_end [of "[]"] by (simp add: blank_def)
next
  case (Cons v vs)
  then show ?case using arr_next [of "[]" "[]" "g v" "f v" "map g vs"] by (simp add: blank_def)
qed

lemma arr_body_items:
  assumes "\<forall>v \<in> set vs. spells (g v) (f v)"
  shows "arr_body (map g vs) (butlast (concat (map (\<lambda>v. f v @ [44]) vs)) @ [93])"
proof (cases vs)
  case Nil
  then show ?thesis using arr_empty [of "[]"] by (simp add: blank_def)
next
  case (Cons v r)
  then have "arr_tail (map g r) (concat (map (\<lambda>v. 44 # f v) r) @ [93])" using assms by (intro arr_tail_items) simp
  then show ?thesis using arr_first [of "[]" "g v" "f v" "map g r"] assms Cons unfolding Cons butlast_commas
    by (simp add: blank_def)
qed

lemma obj_tail_members:
  assumes "\<forall>m \<in> set ms. \<exists>k v t. g m = Member k v \<and> closed k \<and> spells v t \<and> f m = quoted k @ 58 # t"
  shows "obj_tail (map g ms) (concat (map (\<lambda>m. 44 # f m) ms) @ [125])"
  using assms
proof (induction ms)
  case Nil
  show ?case using obj_end [of "[]"] by (simp add: blank_def)
next
  case (Cons m ms)
  obtain k v t where m: "g m = Member k v" "closed k" "spells v t" "f m = quoted k @ 58 # t" using Cons.prems by auto
  have "obj_tail (map g ms) (concat (map (\<lambda>m. 44 # f m) ms) @ [125])" using Cons by simp
  from obj_next [OF _ _ m(2) _ _ m(3) this, of "[]" "[]" "[]" "[]"] show ?case using m(1,4) by (simp add: blank_def quoted_def)
qed

lemma obj_body_members:
  assumes "\<forall>m \<in> set ms. \<exists>k v t. g m = Member k v \<and> closed k \<and> spells v t \<and> f m = quoted k @ 58 # t"
  shows "obj_body (map g ms) (butlast (concat (map (\<lambda>m. f m @ [44]) ms)) @ [125])"
proof (cases ms)
  case Nil
  then show ?thesis using obj_empty [of "[]"] by (simp add: blank_def)
next
  case (Cons m r)
  obtain k v t where m: "g m = Member k v" "closed k" "spells v t" "f m = quoted k @ 58 # t" using assms Cons by auto
  have "obj_tail (map g r) (concat (map (\<lambda>m. 44 # f m) r) @ [125])" using assms Cons by (intro obj_tail_members) simp
  from obj_first [OF _ m(2) _ _ m(3) this, of "[]" "[]" "[]"] show ?thesis
    using m(1,4) unfolding Cons butlast_commas by (simp add: blank_def quoted_def)
qed

lemma wtext_spells:
  "writable lf v \<Longrightarrow> spells (json_of lf v) (wtext lf v)"
  "writable_member lf m \<Longrightarrow>
    \<exists>k v t. json_of_member lf m = Member k v \<and> closed k \<and> spells v t \<and> wtext_member lf m = quoted k @ 58 # t"
proof (induction lf v and lf m rule: wtext_wtext_member.induct)
  case (1 lf b)
  show ?case using str [OF closed_json_text] by (simp add: quoted_def)
next
  case (2 lf i)
  show ?case using num [OF c_ld_text(1)] by simp
next
  case (3 lf x)
  then show ?case using num by simp
next
  case (4 lf b)
  show ?case using tok [of "c_bool b"] c_bool_lit by (cases b) simp_all
next
  case (5 lf vs)
  then have "\<forall>v \<in> set vs. spells (json_of lf v) (wtext lf v)" by simp
  from arr [OF arr_body_items [OF this]] show ?case by simp
next
  case (6 lf ms)
  then have "\<forall>m \<in> set ms. \<exists>k v t. json_of_member lf m = Member k v \<and> closed k \<and> spells v t \<and> wtext_member lf m = quoted k @ 58 # t"
    by simp
  from obj [OF obj_body_members [OF this]] show ?case by simp
next
  case (7 lf k v)
  then show ?case by auto
qed

text \<open>The calls that a reader of the text gets.\<close>

fun readings :: "(u8 list \<Rightarrow> 'f option) \<Rightarrow> ('f \<Rightarrow> u8 list) \<Rightarrow> ev_kind \<Rightarrow> int \<Rightarrow> 'f wval \<Rightarrow> 'f event list"
  and readings_member :: "(u8 list \<Rightarrow> 'f option) \<Rightarrow> ('f \<Rightarrow> u8 list) \<Rightarrow> int \<Rightarrow> 'f wmember \<Rightarrow> 'f event list" where
  "readings sd lf k n (WStr b) = [(k, n + 1, PStr (json_text (str_of b)))]"
| "readings sd lf k n (WInt i) = [(k, n + 1, PInt (sint i))]"
| "readings sd lf k n (WFlt x) = [(k, n + 1, PFloat (num_value sd (lf x)))]"
| "readings sd lf k n (WBool b) = [(k, n + 1, PBool b)]"
| "readings sd lf k n (WArr vs) =
     (KAstart, n + 1, PArr) # (k, n + 1, PArr) # concat (map (readings sd lf KItem (n + 1)) vs) @ [(KAstop, n + 1, PArr)]"
| "readings sd lf k n (WObj ms) =
     (KOstart, n + 1, PObj) # (k, n + 1, PObj) # concat (map (readings_member sd lf (n + 1)) ms) @ [(KOstop, n + 1, PObj)]"
| "readings_member sd lf n (WMember key v) = (KKey, n + 1, PStr (str_of key)) # readings sd lf KValue n v"

lemma readings_events:
  "writable lf v \<Longrightarrow> events sd k n (json_of lf v) = readings sd lf k n v"
  "writable_member lf m \<Longrightarrow> events_member sd n (json_of_member lf m) = readings_member sd lf n m"
proof (induction sd lf k n v and sd lf n m rule: readings_readings_member.induct)
  case (2 sd lf k n i)
  show ?case by (simp add: c_ld_text long_value_c_ld)
next
  case (4 sd lf k n b)
  show ?case using c_bool_lit by (cases b) simp_all
next
  case (5 sd lf k n vs)
  then have "map (events sd KItem (n + 1) \<circ> json_of lf) vs = map (readings sd lf KItem (n + 1)) vs" by simp
  then show ?case by (simp add: map_map [symmetric] del: map_map map_eq_conv)
next
  case (6 sd lf k n ms)
  then have "map (events_member sd (n + 1) \<circ> json_of_member lf) ms = map (readings_member sd lf (n + 1)) ms" by simp
  then show ?case by (simp add: map_map [symmetric] del: map_map map_eq_conv)
qed simp_all

subsection \<open>A whole text\<close>

fun write_text :: "('f \<Rightarrow> u8 list) \<Rightarrow> u8 alloc \<Rightarrow> 'f wval \<Rightarrow> ('c, 'w) jwriter" where
  "write_text lf malloc (WArr vs) = enclosed malloc 91 93 (write_items lf malloc vs)"
| "write_text lf malloc (WObj ms) = enclosed malloc 123 125 (write_members lf malloc ms)"
| "write_text lf malloc v = write_item lf malloc v"

lemma write_text_appends:
  assumes "total_allocator malloc" "writable lf v" "v = WArr vs \<or> v = WObj ms"
  shows "appends (write_text lf malloc v :: ('c, 'w) jwriter) (wtext lf v)"
  using assms(3)
proof
  assume v: "v = WArr vs"
  then have "appends (write_items lf malloc vs :: ('c, 'w) jwriter) (concat (map (\<lambda>v. wtext lf v @ [44]) vs))"
    using assms(2) by (intro write_appends(3) [OF assms(1)]) simp
  then show ?thesis unfolding v wtext.simps write_text.simps by (intro enclosed_appends [OF assms(1) _ commas_last]) simp_all
next
  assume v: "v = WObj ms"
  then have "appends (write_members lf malloc ms :: ('c, 'w) jwriter) (concat (map (\<lambda>m. wtext_member lf m @ [44]) ms))"
    using assms(2) by (intro write_appends(4) [OF assms(1)]) simp
  then show ?thesis unfolding v wtext.simps write_text.simps by (intro enclosed_appends [OF assms(1) _ commas_last]) simp_all
qed

lemma appendsD: "appends f t \<Longrightarrow> has_room bs t \<Longrightarrow> \<exists>r bs'. f bs w = Some (r, bs', w) \<and> wrote bs t bs'"
  by (simp add: appends_def)

text \<open>
  C1: What the writer puts out, the parser reads back. An array or object of any depth, written with the
  functions mnjson_* to an empty stream (items and pairs with a comma behind each, nested values by
  callbacks, the last comma chopped), gives a text that json_parse accepts completely, and the
  client that records its calls gets every value: each integer of the 64-bit range as it was, true and
  false, every float as strtod reads its digits, strings in escaped form, keys as they are, in order and at their depth. Strings and keys
  have no zero byte in them. The code does not escape keys, so a key must already be spelled like the inside of a JSON
  string: each quote behind a backslash, and no backslash without a byte behind it. The digits of a double are a decimal
  fraction of at most 317 characters, the whole text has fewer than \<^verbatim>\<open>2^31\<close> bytes, and there is memory.
  Then no call runs out of the room that it asks for.
\<close>
theorem json_write_parse:
  fixes bs :: "'c bstream" and w :: 'w
  assumes "total_allocator malloc" "writable lf v" "v = WArr vs \<or> v = WObj ms"
    and "has_room bs (wtext lf v)" "stext bs = []"
    and "strtod_stops sd" "json_init malloc' c0 cb u = Some c"
  shows "\<exists>r bs' ctx'. write_text lf malloc v bs w = Some (r, bs', w) \<and> stext bs' = wtext lf v
    \<and> json_parse recorder sd (record_all c u) (stext bs') (length (stext bs')) []
        = Some (rc_ok, ctx', readings sd lf (if v = WArr vs then KItem else KValue) (-1) v)
    \<and> json_ctx_consistent ctx' = 0"
proof -
  obtain r bs' where w: "write_text lf malloc v bs w = Some (r, bs', w)" "wrote bs (wtext lf v) bs'"
    using appendsD [OF write_text_appends [OF assms(1-3)] assms(4), of w] by auto
  have st: "stext bs' = wtext lf v" "bs_wf bs'" using w(2) assms(5) by (simp_all add: wrote_def)
  have "int (length (wtext lf v)) < 2 ^ 63"
  proof -
    have g: "0 \<le> growsz bs" "0 \<le> bssz bs" using assms(4) bs_wfD [of bs] by (simp_all add: has_room_def)
    have "1 * int (length (wtext lf v)) \<le> unit_cost (growsz bs) * int (length (wtext lf v))"
      using g(1) by (intro mult_right_mono) (simp_all add: unit_cost_def)
    then show ?thesis using assms(4) g(2) by (simp add: has_room_def)
  qed
  then have len: "length ([] @ wtext lf v @ []) < 2 ^ 64" by simp
  have js: "json_of lf v = JArr (map (json_of lf) vs) \<or> json_of lf v = JObj (map (json_of_member lf) ms)"
    using assms(3) by auto
  have kind: "(if json_of lf v = JArr (map (json_of lf) vs) then KItem else KValue) = (if v = WArr vs then KItem else KValue)"
    using assms(3) by auto
  obtain ctx' where "json_parse recorder sd (record_all c u) (wtext lf v) (length (wtext lf v)) []
      = Some (rc_ok, ctx', events sd (if v = WArr vs then KItem else KValue) (-1) (json_of lf v))" "json_ctx_consistent ctx' = 0"
    using json_parse_text [OF assms(6) wtext_spells(1) [OF assms(2)] js assms(7) _ _ len] unfolding kind by auto
  then show ?thesis using w(1) st(1) readings_events(1) [OF assms(2)] by auto
qed

text \<open>An object with an array of a number, a float and a string, and with a boolean.\<close>

definition demo_bytes :: "u8 list \<Rightarrow> mnbytes" where
  "demo_bytes s = \<lparr>nref = 1, bsz = length s + 1, bhash = 0, bdata = s @ [0, 0]\<rparr>"

lemma demo_bytes_string: "length s < 2 ^ 40 \<Longrightarrow> 0 \<notin> set s \<Longrightarrow> c_string (demo_bytes s)" "str_of (demo_bytes s) = s"
  by (simp_all add: c_string_def bytes_wf_def demo_bytes_def str_of_def butlast_append)

definition demo_value :: "u8 list wval" where
  "demo_value = WObj [WMember (demo_bytes [97]) (WArr [WInt (- 5), WFlt [49, 46, 53], WStr (demo_bytes [34])]),
     WMember (demo_bytes [98]) (WBool False)]"

definition demo_text :: "u8 list" where
  "demo_text = [123, 34, 97, 34, 58, 91, 45, 53, 44, 49, 46, 53, 44, 34, 92, 34, 34, 93, 44, 34, 98, 34, 58,
     102, 97, 108, 115, 101, 125]"

lemma demo_value_text: "wtext (\<lambda>x. x) demo_value = demo_text"
  by (simp add: demo_value_def demo_text_def demo_bytes_string quoted_def c_ld_def c_bool_def dec_digits.simps json_esc_def)

lemma demo_value_writable: "writable (\<lambda>x. x) demo_value"
  by (simp add: demo_value_def demo_bytes_string num_char_def JSN_ISDIGIT_def int_text_def closed_plain)

theorem json_write_parse_witness:
  "\<exists>c r bs' ctx'. json_init (std_alloc (\<lambda>_. 0)) demo_events_ctx None () = Some c
    \<and> write_text (\<lambda>x. x) (std_alloc (\<lambda>_. 0)) demo_value (demo_stream [] 16) () = Some (r, bs', ()) \<and> stext bs' = demo_text
    \<and> json_parse recorder demo_strtod (record_all c ()) demo_text (length demo_text) []
      = Some (rc_ok, ctx', [(KOstart, 0, PObj), (KValue, 0, PObj), (KKey, 1, PStr [97]), (KAstart, 1, PArr), (KValue, 1, PArr),
          (KItem, 2, PInt (- 5)), (KItem, 2, PFloat [49, 46, 53]), (KItem, 2, PStr [92, 34]), (KAstop, 1, PArr),
          (KKey, 1, PStr [98]), (KValue, 1, PBool False), (KOstop, 0, PObj)])"
proof -
  obtain c where c: "json_init (std_alloc (\<lambda>_. 0)) demo_events_ctx None () = Some c"
    by (simp add: json_init_def array_init_def array_init_body_def array_ensure_datasz_dirty_def array_ensure_dirty_body_def
      ensure_block_def std_alloc_def realloc_blk_def fit_datasz_def MNARRAY_SMALL_DATASZ_def Let_def)
  have room: "has_room (demo_stream [] 16) (wtext (\<lambda>x. x) demo_value)" "stext (demo_stream [] 16) = []"
    unfolding demo_value_text by (simp_all add: has_room_def demo_stream_wf unit_cost_def demo_text_def)
      (simp_all add: demo_stream_def stext_def sblock_def)
  have v: "demo_value = WArr [] \<or> demo_value = WObj [WMember (demo_bytes [97]) (WArr [WInt (- 5), WFlt [49, 46, 53], WStr (demo_bytes [34])]),
     WMember (demo_bytes [98]) (WBool False)]" "demo_value \<noteq> WArr []" by (simp_all add: demo_value_def)
  have rd: "readings demo_strtod (\<lambda>x. x) KValue (-1) demo_value
    = [(KOstart, 0, PObj), (KValue, 0, PObj), (KKey, 1, PStr [97]), (KAstart, 1, PArr), (KValue, 1, PArr),
       (KItem, 2, PInt (- 5)), (KItem, 2, PFloat [49, 46, 53]), (KItem, 2, PStr [92, 34]), (KAstop, 1, PArr),
       (KKey, 1, PStr [98]), (KValue, 1, PBool False), (KOstop, 0, PObj)]"
    by (simp add: demo_value_def demo_bytes_string json_esc_def demo_strtod_value num_char_def JSN_ISDIGIT_def)
  obtain r bs' ctx' where "write_text (\<lambda>x. x) (std_alloc (\<lambda>_. 0)) demo_value (demo_stream [] 16) () = Some (r, bs', ())"
      "stext bs' = demo_text"
      "json_parse recorder demo_strtod (record_all c ()) (stext bs') (length (stext bs')) []
        = Some (rc_ok, ctx', readings demo_strtod (\<lambda>x. x) KValue (-1) demo_value)"
    using json_write_parse [OF std_total.total_allocator_axioms demo_value_writable v(1) room demo_strtod c,
        of "\<lambda>_. 0" "()"] v(2) unfolding demo_value_text by auto
  then show ?thesis using c rd by auto
qed

subsection \<open>What the functions do wrong\<close>

text \<open>A pair with a boolean and a comma never fits into the room that is asked for.\<close>

lemma bool_pair0_needmore:
  fixes bs :: "'c bstream"
  assumes "total_allocator malloc" "c_string k" "bs_wf bs" "bssz bs + int (length (str_of k) + 8) + growsz bs < 2 ^ 63"
    and "length (str_of k) + 8 < 2 ^ 31"
  shows "\<exists>bs'. mnjson_bool_pair0 malloc bs k b = Some (BYTESTREAM_NPRINTF_NEEDMORE, bs') \<and> stext bs' = stext bs"
proof -
  let ?t = "quoted (str_of k) @ 58 # (if b then [116, 114, 117, 101] else [102, 108, 115, 101]) @ [44]"
  have "mnjson_bool_pair0 malloc bs k b = bytestream_nprintf malloc bs (length (str_of k) + 8) (Formatted ?t)"
    using key_room [OF assms(2), of 8] c_string_cstr(1) [OF assms(2)]
    by (simp add: mnjson_bool_pair0_def MNJSON_BOOL_PAIR_BODY_def)
  moreover have "allocator malloc" using assms(1) by (simp add: total_allocator_def)
  moreover have "length ?t = length (str_of k) + 8" by simp
  ultimately show ?thesis
    using nprintf_outcomes [of malloc bs "length (str_of k) + 8" "Formatted ?t"] grow_for_total [OF assms(1)] assms(3,4,5)
    unfolding nprintf_outcome_def by fastforce
qed

text \<open>The text of false in a pair without a comma.\<close>

lemma bool_pair1_flse:
  assumes "c_string k"
  shows "mnjson_bool_pair1 malloc bs k False =
    bytestream_nprintf malloc bs (length (str_of k) + 8) (Formatted (quoted (str_of k) @ 58 # [102, 108, 115, 101]))"
  using key_room [OF assms, of 8] c_string_cstr(1) [OF assms] by (simp add: mnjson_bool_pair1_def MNJSON_BOOL_PAIR_BODY_def)

text \<open>Chopping the comma of an empty stream reads in front of the buffer.\<close>

lemma chop_comma_empty: "mnjson_chop_comma (demo_stream [] g) = None"
  by (simp add: mnjson_chop_comma_def last_byte_def demo_stream_def)

end
