(* ===== verification/Spec2Isabelle.thy ===== *)
theory Spec2Isabelle
  imports Prelude_C Mn_Array Mn_Ring Mn_Heap Queue_Spec Mn_Stqueue Mn_Dtqueue
    Mn_Hash Hash_Refine Hash_Dict Mn_Hash_Set Mn_Hashfn Mn_Base64 Mn_Bytes Bytes_Text
    Mn_Cm Mn_Mpool Mn_Btrie Btrie_Refine Btrie_Map Btrie_Closest Mn_Rbt Rbt_Tree Rbt_Refine Mn_Bytestream Bytestream_Spec Mn_Json Json_Safe Json_Events Mn_Json_Write Json_Write
begin

text \<open>
  A verification development for the C library \<^verbatim>\<open>mncommon\<close>: containers and byte-level utilities
  in \<^verbatim>\<open>src/src/\<close>, their interfaces in \<^verbatim>\<open>src/src/mncommon/\<close>.

  \<^bold>\<open>The program and its parts.\<close> The library is a set of containers that own memory and call
  back into their client (comparators, constructors, finalizers, traversal functions), and of
  routines on byte strings. The parts build on each other:
  \<^item> the resizable array (\<^verbatim>\<open>array.c\<close>) carries the ring (\<^verbatim>\<open>ring.c\<close>) and the binary heap (\<^verbatim>\<open>heap.c\<close>);
  \<^item> the intrusive queues (\<^verbatim>\<open>stqueue.h\<close>, \<^verbatim>\<open>dtqueue.h\<close>) chain the items of the hash table (\<^verbatim>\<open>hash.c\<close>),
    whose last part builds sets on dictionaries;
  \<^item> the hash functions (\<^verbatim>\<open>fasthash.c\<close>, \<^verbatim>\<open>fnvhash.c\<close>) are used by the byte strings (\<^verbatim>\<open>bytes.c\<close>), the
    count-min sketch and the pool allocator;
  \<^item> base64 (\<^verbatim>\<open>base64.c\<close>) is used by the byte strings;
  \<^item> the count-min sketch and the priority set (\<^verbatim>\<open>cm.c\<close>) use the hash functions and the hash table;
  \<^item> every container has a variant that allocates from the pool allocator (\<^verbatim>\<open>mpool.c\<close>);
  \<^item> the bit trie (\<^verbatim>\<open>btrie.c\<close>) and the red-black tree (\<^verbatim>\<open>rbt.c\<close>) index the client's own nodes and values
    and stand alone;
  \<^item> the byte stream (\<^verbatim>\<open>bytestream.c\<close>, \<^verbatim>\<open>bytestream_aux.c\<close>) buffers input and output;
  \<^item> the JSON parser (\<^verbatim>\<open>json.c\<close>) keeps a stack in an array and makes byte strings of keys.

  \<^bold>\<open>How the code is represented.\<close> A C structure is a record with the structure's fields. A
  function of the source is a function of the same name from the old state (the structure, the
  store of the nodes it points to, and the client's state \<open>w\<close> where callbacks run) to the new one.
  \<^const>\<open>None\<close> is a fault: a failed assertion, an access outside of an object, a use of a freed node.
  So a theorem that a function returns \<open>Some\<close> is memory safety of that run as well. Return codes
  are values of type \<open>rc\<close>. Pointers are indexes into the list they point into, or addresses of a
  store (a map from addresses) where nodes are linked: queues, hash items, trie nodes. Freeing
  removes the address from the store. Allocators, finalizers, comparators and traversal callbacks
  are arguments. Sizes are natural numbers with the wrap-around written out (\<^const>\<open>SZ\<close>,
  \<^const>\<open>U32\<close>); an \<^verbatim>\<open>int\<close> that overflows is a fault, in the ring and in the heap (\<^const>\<open>C_int\<close>), so their
  theorems carry bounds (fewer than \<^verbatim>\<open>2^30\<close> elements in a ring, at most as many in a heap); hashes, bytes and keys are
  machine words. Pairs of functions of the source that
  differ only in the allocator (\<^verbatim>\<open>_mpool\<close>) or in the direction have one body with a parameter, and a
  definition for each name.

  \<^bold>\<open>The theories.\<close>
  \<^item> \<open>Prelude_C\<close>: machine integers, return codes, memory access, callbacks, the shared locales.
  \<^item> \<open>Mn_Array\<close>: \<^verbatim>\<open>array.c\<close>. \<open>array_wf\<close> is the invariant (the block has the slots the size says, the
    elements fit), kept by every operation; the lemmas give each operation's effect on
    \<open>array_items\<close> and on the client's state.
  \<^item> \<open>Mn_Ring\<close>: \<^verbatim>\<open>ring.c\<close>; advancing rotates the contents, with C's truncating remainder on \<^verbatim>\<open>int\<close>.
  \<^item> \<open>Mn_Heap\<close>: \<^verbatim>\<open>heap.c\<close>; the heap order, the multiset of elements, heap sort, the lookup.
  \<^item> \<open>Queue_Spec\<close>, \<open>Mn_Stqueue\<close>, \<open>Mn_Dtqueue\<close>: the queue contract as a locale and the two macro
    families, which interpret it.
  \<^item> \<open>Mn_Hash\<close> (the code), \<open>Hash_Refine\<close> (the table as lists of entries per bucket), \<open>Hash_Dict\<close> (the
    contract \<open>dictionary\<close> as a locale, its interpretation, the properties), \<open>Mn_Hash_Set\<close>: \<^verbatim>\<open>hash.c\<close>.
  \<^item> \<open>Mn_Hashfn\<close>: \<^verbatim>\<open>fasthash.c\<close>, \<^verbatim>\<open>fnvhash.c\<close>. \<open>Mn_Base64\<close>: \<^verbatim>\<open>base64.c\<close>, with one memory for source and
    destination, so that decoding in place is covered.
  \<^item> \<open>Mn_Bytes\<close> (objects, comparison, searching), \<open>Bytes_Text\<close> (escaping, URL encoding, trimming,
    splitting): \<^verbatim>\<open>bytes.c\<close>.
  \<^item> \<open>Mn_Cm\<close>: \<^verbatim>\<open>cm.c\<close>, the sketch's error bound and the priority set's selection of the best items.
  \<^item> \<open>Mn_Mpool\<close>: \<^verbatim>\<open>mpool.c\<close> on the bytes of its chunks; the blocks in use are disjoint.
  \<^item> \<open>Mn_Btrie\<close> (the code), \<open>Btrie_Refine\<close> (the nodes of a root form a tree, \<open>bt_at\<close>; the path of a
    key), \<open>Btrie_Map\<close> (adding and finding), \<open>Btrie_Closest\<close> (the nearest key): \<^verbatim>\<open>btrie.c\<close>.

  \<^item> \<open>Mn_Rbt\<close> (the code), \<open>Rbt_Tree\<close> (the tree in the store, positions in it, rotations and the two
    adjustments), \<open>Rbt_Refine\<close> (the chain, insertion, lookup and removal): \<^verbatim>\<open>rbt.c\<close>.

  \<^item> \<open>Mn_Bytestream\<close> (the code), \<open>Bytestream_Spec\<close> (the invariant of the buffer, writing, recycling, lines):
    \<^verbatim>\<open>bytestream.c\<close>, \<^verbatim>\<open>bytestream_aux.c\<close>; the system's calls are arguments.
  \<^item> \<open>Mn_Json\<close> (the code), \<open>Json_Safe\<close> (every input: it returns, and callbacks get well-typed values),
    \<open>Json_Events\<close> (the values that a text spells, and the calls that a parse of it makes): the parser of \<^verbatim>\<open>json.c\<close>.
  \<^item> \<open>Mn_Json_Write\<close> (the code), \<open>Json_Write\<close> (the text that is written): the writer of \<^verbatim>\<open>json.c\<close> and the
    macros of \<^verbatim>\<open>json.h\<close>.

  \<^bold>\<open>Loops and bounds.\<close> A counted loop is a recursion over its index list, or a structural one. A loop
  that follows links, or whose end is not obvious, is a \<open>partial_function\<close> in the option monad, so
  that not returning is \<^const>\<open>None\<close>, and the theorems show that it returns on every represented
  state; so none of them is about partial correctness. A loop whose counter is narrower than its bound does not end
  for large sizes, as in \<^verbatim>\<open>hash_rehash\<close> with \<^verbatim>\<open>2^32\<close> items, and its theorem excludes them. Only \<open>drain\<close> in \<open>Queue_Spec\<close>, the client's
  loop that empties a queue, has fuel: the number of entries, which the property shows to be enough.

  \<^bold>\<open>The C library.\<close> \<^verbatim>\<open>strtod\<close> is an argument that faults when it reads behind the end of the text's block;
  what the parser relies on are \<open>strtod_stops\<close> (the byte behind a number ends it) and \<open>strtod_within\<close> (how far it
  reads on any text that the parser hands it), both shown to hold of a concrete function. \<^verbatim>\<open>strtol\<close> is written out.
  \<^verbatim>\<open>vsnprintf\<close> gets the text that a format stands for, or a failure, and returns an \<^verbatim>\<open>int\<close>, -1 included
  (\<^const>\<open>vsnprintf_at\<close>). \<^verbatim>\<open>malloc\<close>, \<^verbatim>\<open>read\<close> and \<^verbatim>\<open>write\<close> are arguments too.

  \<^bold>\<open>Not modelled.\<close>
  \<^item> \<^verbatim>\<open>list.c\<close>: not part of the library's build. \<^verbatim>\<open>pbtrie.c\<close> (a trie with compressed paths that nothing else uses) and
    \<^verbatim>\<open>jparse.c\<close> (a second reader of JSON, by types, mostly generated by macros): left out for their size.
    \<^verbatim>\<open>vbytestream.c\<close>: its buffers are byte strings found again from the address of their data, which
    byte strings modelled as values do not cover.
  \<^item> \<^verbatim>\<open>memdebug.c\<close>, \<^verbatim>\<open>profile.c\<close>, \<^verbatim>\<open>dumpm.c\<close>, \<^verbatim>\<open>traversedir.c\<close>, \<^verbatim>\<open>random.c\<close>, \<^verbatim>\<open>float.c\<close>: diagnostics, input and
    output, and formatting of floating point numbers, with no state of their own to reason about.
  \<^item> Functions that only print (\<^verbatim>\<open>*_dump\<close>), and those that pass a format on to \<^verbatim>\<open>vsnprintf\<close>.
\<close>

end
